(* ===== verification/Prelude.thy ===== *)
theory Prelude
  imports Main "HOL-Library.Word"
begin

unbundle bit_operations_syntax

text \<open>
  Types, fact collections and generic lemmas shared by the component theories.
  \<^item> \<open>u8\<close>, \<open>u32\<close>, \<open>u64\<close>: the fixed-width integers of the runtime. The code is modelled on
    an LP64 platform, where \<open>size_t\<close>, \<open>uintptr_t\<close> and \<open>intptr_t\<close> are 64 bits wide.
  \<^item> \<open>word_no_wrap\<close>: facts that read a word operation as arithmetic on natural numbers
    when it does not wrap.
  \<^item> \<open>list_facts\<close>: facts on lists split at an element.
\<close>

type_synonym u8 = "8 word"
type_synonym u32 = "32 word"
type_synonym u64 = "64 word"

named_theorems word_no_wrap \<open>words read as natural numbers when nothing wraps\<close>
named_theorems list_facts \<open>lists split around an element\<close>

subsection \<open>Words without wrap-around\<close>

lemma unat_add_no_wrap [word_no_wrap]:
  "unat (a :: 'a::len word) + unat b < 2 ^ LENGTH('a) \<Longrightarrow> unat (a + b) = unat a + unat b"
  by (simp add: unat_word_ariths)

lemma unat_mult_no_wrap [word_no_wrap]:
  "unat (a :: 'a::len word) * unat b < 2 ^ LENGTH('a) \<Longrightarrow> unat (a * b) = unat a * unat b"
  by (simp add: unat_word_ariths)

lemma unat_sub_no_wrap [word_no_wrap]:
  "b \<le> (a :: 'a::len word) \<Longrightarrow> unat (a - b) = unat a - unat b"
  by (simp add: unat_sub)

lemma unat_push_bit_no_wrap [word_no_wrap]:
  "unat (a :: 'a::len word) * 2 ^ n < 2 ^ LENGTH('a) \<Longrightarrow> unat (push_bit n a) = unat a * 2 ^ n"
  by (simp only: unsigned_push_bit_eq) (simp add: push_bit_eq_mult take_bit_eq_mod)

lemma unat_lt_two_power: "unat (a :: 'a::len word) < 2 ^ LENGTH('a)"
  by (rule unsigned_less)

lemma unat_lt64 [simp]: "unat (a :: u64) < 18446744073709551616"
  using unat_lt_two_power [of a] by simp

lemma unat_word_of_nat64 [word_no_wrap]: "n < 2 ^ 64 \<Longrightarrow> unat (word_of_nat n :: u64) = n"
  by (subst unsigned_of_nat) (simp add: take_bit_nat_eq_self_iff)

lemma word_of_nat_unat64 [simp]: "word_of_nat (unat x) = (x :: u64)"
proof -
  have "unat (word_of_nat (unat x) :: u64) = unat x" by (simp add: unat_word_of_nat64)
  then show ?thesis by (rule unsigned_word_eqI)
qed

subsection \<open>Masks, shifts and exclusive or\<close>

lemma unat_and_mask32: "unat ((a::u64) AND 0xffffffff) = unat a mod 2^32"
proof -
  have "(0xffffffff :: u64) = mask 32" by (simp add: mask_eq_exp_minus_1)
  then have "a AND 0xffffffff = take_bit 32 a" by (simp only: take_bit_eq_mask)
  moreover have "unat (take_bit 32 a) = unat a mod 2 ^ 32"
    by (simp only: unsigned_take_bit_eq) (simp only: take_bit_eq_mod)
  ultimately show ?thesis by (simp only:)
qed

lemma unat_drop32: "unat (drop_bit 32 (a::u64)) = unat a div 2^32"
  by (simp only: unat_drop_bit_eq) (simp only: drop_bit_eq_div)

lemma bit_lt_two_power: "(t::nat) < 2 ^ n \<Longrightarrow> bit t m \<Longrightarrow> m < n"
  by (metis bit_take_bit_iff take_bit_nat_eq_self)

lemma add_high_low: "t < 2 ^ n \<Longrightarrow> h * 2 ^ n + t = push_bit n h OR (t :: nat)"
  unfolding push_bit_eq_mult [symmetric]
  by (rule disjunctive_add) (auto simp: bit_simps dest: bit_lt_two_power)

lemma xor_lt_two_power: "t < 2 ^ n \<Longrightarrow> b < 2 ^ n \<Longrightarrow> (t XOR b :: nat) < 2 ^ n"
  by (metis take_bit_nat_eq_self_iff take_bit_xor)

lemma xor_low_limb:
  assumes "b < 2 ^ n" "t < 2 ^ n"
  shows "((h * 2 ^ n + t) XOR b :: nat) = h * 2 ^ n + (t XOR b)"
proof -
  have "(push_bit n h OR t) XOR b = push_bit n h OR (t XOR b)"
    using assms by (intro bit_eqI) (auto simp: bit_simps dest: bit_lt_two_power)
  then show ?thesis
    using assms by (simp only: add_high_low xor_lt_two_power)
qed

lemma unat_xor: "unat (a XOR b) = unat a XOR unat b"
  by (simp only: unsigned_xor_eq)

lemma mod_xor_low: "b < 2 ^ n \<Longrightarrow> (x mod 2 ^ n) XOR b = (x XOR b) mod (2 ^ n :: nat)"
  by (metis take_bit_eq_mod take_bit_nat_eq_self take_bit_xor)

lemma mod_linear: "((a mod M) * p + (c mod M) * q) mod M = (a * p + c * q) mod (M :: nat)"
  by (metis mod_add_eq mod_mult_left_eq)

subsection \<open>Rounding up to an alignment\<close>

lemma unat_and_uminus_power:
  "unat (a AND - (2 ^ k) :: 'a::len word) = unat a - unat a mod 2 ^ k"
proof -
  have m: "- (2 ^ k) = NOT (mask k :: 'a word)" by (rule minus_exp_eq_not_mask)
  have "(a AND mask k) AND (a AND NOT (mask k)) = 0"
    by (rule bit_word_eqI) (simp add: bit_simps)
  then have "(a AND mask k) + (a AND NOT (mask k)) = (a AND mask k) OR (a AND NOT (mask k))"
    by (rule disjunctive_add_eq_or)
  also have "\<dots> = a" by (rule bit_word_eqI) (auto simp: bit_simps)
  finally have eq: "a AND NOT (mask k) = a - take_bit k a"
    by (simp add: take_bit_eq_mask algebra_simps)
  have "unat (take_bit k a) = unat a mod 2 ^ k"
    by (simp only: unsigned_take_bit_eq) (simp only: take_bit_eq_mod)
  moreover from this have "take_bit k a \<le> a" by (simp add: word_le_nat_alt)
  ultimately show ?thesis unfolding m eq by (simp add: unat_sub)
qed

lemma align_up_bounds:
  fixes x al :: nat
  assumes "0 < al"
  shows "x \<le> (x + al - 1) - (x + al - 1) mod al" "(x + al - 1) - (x + al - 1) mod al < x + al"
    "((x + al - 1) - (x + al - 1) mod al) mod al = 0"
proof -
  have "(x + al - 1) mod al < al" using assms by simp
  then show "x \<le> (x + al - 1) - (x + al - 1) mod al" by linarith
  show "(x + al - 1) - (x + al - 1) mod al < x + al" using assms by linarith
  show "((x + al - 1) - (x + al - 1) mod al) mod al = 0"
    by (simp add: minus_mod_eq_mult_div)
qed

subsection \<open>Conversions between widths\<close>

lemma unat_lt32: "unat (a :: u32) < 4294967296"
  using unat_lt_two_power [of a] by simp

lemma unat_ucast_u32_u64: "unat (ucast (a :: u32) :: u64) = unat a"
  using unat_lt32 [of a] by (simp only: unsigned_ucast_eq) (simp add: take_bit_nat_eq_self_iff)

lemma unat_ucast_u64_u32: "unat (ucast (a :: u64) :: u32) = unat a mod 2 ^ 32"
  by (simp only: unsigned_ucast_eq) (simp add: take_bit_eq_mod)

end
