(* ===== verification/Digest.thy ===== *)
theory Digest
  imports Prelude
begin

text \<open>
  Component \<open>detail::digest\<close> and \<open>detail::fnv128\<close> (src/digest.hpp, src/digest.cpp).
  A digest is a pair of 64-bit words that names a team, an atomic domain or a collective;
  \<open>eat\<close> mixes two more words into it. \<open>fnv128\<close> is the 128-bit string hash of the code segment
  verification. The comparison operators are shown to be a linear order, the mixing of
  \<open>eat\<close> to be a permutation of its 256-bit state, and the limb arithmetic of \<open>fnv128\<close> to
  implement one closed formula on 128-bit words.
\<close>

unbundle bit_operations_syntax

subsection \<open>The digest and its comparison operators\<close>

datatype digest = Digest (w0: u64) (w1: u64)

definition zero :: digest where
  "zero = Digest 0 0"

definition tombstone :: digest where
  "tombstone = zero"

definition digest_eq :: "digest \<Rightarrow> digest \<Rightarrow> bool" where
  "digest_eq a b \<longleftrightarrow> (w0 a = w0 b) \<and> (w1 a = w1 b)"

definition digest_ne :: "digest \<Rightarrow> digest \<Rightarrow> bool" where
  "digest_ne a b \<longleftrightarrow> (w0 a \<noteq> w0 b) \<or> (w1 a \<noteq> w1 b)"

definition digest_lt :: "digest \<Rightarrow> digest \<Rightarrow> bool" where
  "digest_lt a b \<longleftrightarrow> (w0 a < w0 b) \<or> ((w0 a = w0 b) \<and> (w1 a < w1 b))"

definition digest_le :: "digest \<Rightarrow> digest \<Rightarrow> bool" where
  "digest_le a b \<longleftrightarrow> (w0 a < w0 b) \<or> ((w0 a = w0 b) \<and> (w1 a \<le> w1 b))"

definition digest_gt :: "digest \<Rightarrow> digest \<Rightarrow> bool" where
  "digest_gt a b \<longleftrightarrow> (w0 a > w0 b) \<or> ((w0 a = w0 b) \<and> (w1 a > w1 b))"

definition digest_ge :: "digest \<Rightarrow> digest \<Rightarrow> bool" where
  "digest_ge a b \<longleftrightarrow> (w0 a > w0 b) \<or> ((w0 a = w0 b) \<and> (w1 a \<ge> w1 b))"

definition hash_of_digest :: "digest \<Rightarrow> u64" where
  "hash_of_digest x = w0 x"

lemmas digest_op_defs =
  digest_eq_def digest_ne_def digest_lt_def digest_le_def digest_gt_def digest_ge_def

instantiation digest :: linorder
begin

definition less_digest :: "digest \<Rightarrow> digest \<Rightarrow> bool" where
  "less_digest a b \<longleftrightarrow> digest_lt a b"

definition less_eq_digest :: "digest \<Rightarrow> digest \<Rightarrow> bool" where
  "less_eq_digest a b \<longleftrightarrow> digest_le a b"

instance
proof
  fix a b c :: digest
  show "(a < b) = (a \<le> b \<and> \<not> b \<le> a)"
    by (auto simp: less_digest_def less_eq_digest_def digest_op_defs)
  show "a \<le> a"
    by (simp add: less_eq_digest_def digest_le_def)
  show "a \<le> b \<Longrightarrow> b \<le> c \<Longrightarrow> a \<le> c"
    by (auto simp: less_eq_digest_def digest_le_def)
  show "a \<le> b \<Longrightarrow> b \<le> a \<Longrightarrow> a = b"
    by (cases a; cases b) (auto simp: less_eq_digest_def digest_le_def)
  show "a \<le> b \<or> b \<le> a"
    by (auto simp: less_eq_digest_def digest_le_def)
qed

end

subsection \<open>Mixing words into a digest\<close>

definition bitrotl :: "u64 \<Rightarrow> nat \<Rightarrow> u64" where
  "bitrotl x sh = push_bit sh x OR drop_bit (64 - sh) x"

text \<open>
  One of the eleven lines of \<open>eat\<close>: \<open>a ^= b; b = bitrotl(b, sh); a += b\<close>, which yields the
  new \<open>a\<close> and the new \<open>b\<close>.
\<close>

definition eat_line :: "nat \<Rightarrow> u64 \<Rightarrow> u64 \<Rightarrow> u64 \<times> u64" where
  "eat_line sh a b = (let b' = bitrotl b sh in ((a XOR b) + b', b'))"

definition eat_mix :: "u64 \<times> u64 \<times> u64 \<times> u64 \<Rightarrow> u64 \<times> u64 \<times> u64 \<times> u64" where
  "eat_mix s =
     (let (w0, w1, w2, w3) = s;
          (w3, w2) = eat_line 15 w3 w2;
          (w0, w3) = eat_line 52 w0 w3;
          (w1, w0) = eat_line 26 w1 w0;
          (w2, w1) = eat_line 51 w2 w1;
          (w3, w2) = eat_line 28 w3 w2;
          (w0, w3) = eat_line 9 w0 w3;
          (w1, w0) = eat_line 47 w1 w0;
          (w2, w1) = eat_line 54 w2 w1;
          (w3, w2) = eat_line 32 w3 w2;
          (w0, w3) = eat_line 25 w0 w3;
          (w1, w0) = eat_line 63 w1 w0
      in (w0, w1, w2, w3))"

definition eat :: "digest \<Rightarrow> u64 \<Rightarrow> u64 \<Rightarrow> digest" where
  "eat d x0 x1 =
     (let (w0, w1, w2, w3) = eat_mix (w0 d, w1 d, x0, x1) in Digest w0 w1)"

definition eat_digest :: "digest \<Rightarrow> digest \<Rightarrow> digest" where
  "eat_digest d that = eat d (w0 that) (w1 that)"

text \<open>The inverse of one line, and of the whole mix (specification only).\<close>

definition uneat_line :: "nat \<Rightarrow> u64 \<Rightarrow> u64 \<Rightarrow> u64 \<times> u64" where
  "uneat_line sh a b = (let b' = bitrotl b (64 - sh) in ((a - b) XOR b', b'))"

definition uneat_mix :: "u64 \<times> u64 \<times> u64 \<times> u64 \<Rightarrow> u64 \<times> u64 \<times> u64 \<times> u64" where
  "uneat_mix s =
     (let (w0, w1, w2, w3) = s;
          (w1, w0) = uneat_line 63 w1 w0;
          (w0, w3) = uneat_line 25 w0 w3;
          (w3, w2) = uneat_line 32 w3 w2;
          (w2, w1) = uneat_line 54 w2 w1;
          (w1, w0) = uneat_line 47 w1 w0;
          (w0, w3) = uneat_line 9 w0 w3;
          (w3, w2) = uneat_line 28 w3 w2;
          (w2, w1) = uneat_line 51 w2 w1;
          (w1, w0) = uneat_line 26 w1 w0;
          (w0, w3) = uneat_line 52 w0 w3;
          (w3, w2) = uneat_line 15 w3 w2
      in (w0, w1, w2, w3))"

lemma bitrotl_bitrotl: "0 < sh \<Longrightarrow> sh < 64 \<Longrightarrow> bitrotl (bitrotl x sh) (64 - sh) = x"
  by (rule bit_word_eqI) (auto simp: bitrotl_def bit_simps)

lemma xor_cancel_right: "((a :: u64) XOR b) XOR b = a"
  by (simp add: ac_simps)

lemma uneat_eat_line [simp]:
  assumes "0 < sh" "sh < 64"
  shows "(case eat_line sh a b of (a', b') \<Rightarrow> uneat_line sh a' b') = (a, b)"
  using assms by (simp add: eat_line_def uneat_line_def Let_def bitrotl_bitrotl xor_cancel_right)

lemma uneat_line_of_eat_line:
  "eat_line sh a b = (a', b') \<Longrightarrow> 0 < sh \<Longrightarrow> sh < 64 \<Longrightarrow> uneat_line sh a' b' = (a, b)"
  using uneat_eat_line [of sh a b] by simp

lemma uneat_eat_mix: "uneat_mix (eat_mix s) = s"
  by (cases s)
    (auto simp: eat_mix_def uneat_mix_def Let_def uneat_line_of_eat_line split: prod.splits)

subsection \<open>The 128-bit string hash\<close>

text \<open>
  \<open>fnv128\<close> keeps the hash as four 32-bit limbs, most significant first, and computes in four
  64-bit limbs \<open>temp\<close>. A \<open>char\<close> is promoted with its sign where the platform's \<open>char\<close> is signed:
  the flag \<open>cs\<close> says so.
\<close>

record fnv128 =
  hash0 :: u32
  hash1 :: u32
  hash2 :: u32
  hash3 :: u32

definition fnv128_init :: fnv128 where
  "fnv128_init = \<lparr>hash0 = 0x6C62272E, hash1 = 0x07BB0142, hash2 = 0x62B82175, hash3 = 0x6295C58D\<rparr>"

record fnv_temp =
  temp0 :: u64
  temp1 :: u64
  temp2 :: u64
  temp3 :: u64

definition char_promote :: "bool \<Rightarrow> u8 \<Rightarrow> u64" where
  "char_promote char_is_signed c = (if char_is_signed then scast c else ucast c)"

definition fnv_round :: "bool \<Rightarrow> fnv_temp \<Rightarrow> u8 \<Rightarrow> fnv_temp" where
  "fnv_round cs t inp =
     (let t2_0 = push_bit 24 (temp2 t);
          t2_1 = push_bit 24 (temp3 t);
          a3 = temp3 t XOR char_promote cs inp;
          a3 = a3 * 0x13B;
          a2 = temp2 t * 0x13B;
          a1 = temp1 t * 0x13B;
          a0 = temp0 t * 0x13B;
          a1 = a1 + t2_1;
          a0 = a0 + t2_0;
          a2 = a2 + drop_bit 32 a3;
          a3 = a3 AND 0xffffffff;
          a1 = a1 + drop_bit 32 a2;
          a2 = a2 AND 0xffffffff;
          a0 = a0 + drop_bit 32 a1;
          a1 = a1 AND 0xffffffff
      in \<lparr>temp0 = a0, temp1 = a1, temp2 = a2, temp3 = a3\<rparr>)"

fun fnv_rounds :: "bool \<Rightarrow> fnv_temp \<Rightarrow> u8 list \<Rightarrow> fnv_temp" where
  "fnv_rounds cs t [] = t"
| "fnv_rounds cs t (c # it) = fnv_rounds cs (fnv_round cs t c) it"

definition load_temp :: "fnv128 \<Rightarrow> fnv_temp" where
  "load_temp h = \<lparr>temp0 = ucast (hash0 h), temp1 = ucast (hash1 h),
                  temp2 = ucast (hash2 h), temp3 = ucast (hash3 h)\<rparr>"

definition store_temp :: "fnv_temp \<Rightarrow> fnv128" where
  "store_temp t = \<lparr>hash0 = ucast (temp0 t), hash1 = ucast (temp1 t),
                   hash2 = ucast (temp2 t), hash3 = ucast (temp3 t)\<rparr>"

text \<open>The bytes on which the predicate of \<open>algorithm\<close> holds are given as a list.\<close>

definition fnv_algorithm :: "bool \<Rightarrow> fnv128 \<Rightarrow> u8 list \<Rightarrow> fnv128" where
  "fnv_algorithm cs h inp = store_temp (fnv_rounds cs (load_temp h) inp)"

definition block_in :: "bool \<Rightarrow> fnv128 \<Rightarrow> u8 list \<Rightarrow> fnv128" where
  "block_in cs h inp = fnv_algorithm cs h inp"

text \<open>Reading a string with no terminating NUL runs off the buffer: \<open>None\<close>.\<close>

definition string_in :: "bool \<Rightarrow> fnv128 \<Rightarrow> u8 list \<Rightarrow> fnv128 option" where
  "string_in cs h buf =
     (if 0 \<in> set buf then Some (fnv_algorithm cs h (takeWhile (\<lambda>c. c \<noteq> 0) buf)) else None)"

definition limb_bytes :: "u32 \<Rightarrow> u8 list" where
  "limb_bytes h = [ucast h, ucast (drop_bit 8 h), ucast (drop_bit 16 h), ucast (drop_bit 24 h)]"

definition fnv_result :: "fnv128 \<Rightarrow> u8 list" where
  "fnv_result h = limb_bytes (hash0 h) @ limb_bytes (hash1 h) @ limb_bytes (hash2 h) @ limb_bytes (hash3 h)"

subsection \<open>The limbs as one 128-bit number\<close>

definition limbs_ok :: "fnv_temp \<Rightarrow> bool" where
  "limbs_ok t \<longleftrightarrow> unat (temp1 t) < 2^32 \<and> unat (temp2 t) < 2^32 \<and> unat (temp3 t) < 2^32"

definition limbs_nat :: "fnv_temp \<Rightarrow> nat" where
  "limbs_nat t = unat (temp0 t) * 2^96 + unat (temp1 t) * 2^64 + unat (temp2 t) * 2^32 + unat (temp3 t)"


lemma carry_shift: "(q div N) * (N * M) + (q mod N) * M = q * (M::nat)"
proof -
  have "q * M = (q div N * N + q mod N) * M" by simp
  then show ?thesis by (simp only: distrib_right mult.assoc)
qed

lemma carry_limbs:
  fixes A0 A1 A2 A3 N :: nat
  shows "(A0 + (A1 + (A2 + A3 div N) div N) div N) * (N * (N * N)) + ((A1 + (A2 + A3 div N) div N) mod N) * (N * N)
     + ((A2 + A3 div N) mod N) * N + A3 mod N
   = A0 * (N * (N * N)) + A1 * (N * N) + A2 * N + A3"
  using div_mult_mod_eq [of A3 N] carry_shift [of "A2 + A3 div N" N N]
    carry_shift [of "A1 + (A2 + A3 div N) div N" N "N * N"]
  unfolding distrib_right by linarith

text \<open>What one round computes on the number, and the published FNV-1a round.\<close>

definition fnv_spec_step :: "nat \<Rightarrow> nat \<Rightarrow> nat" where
  "fnv_spec_step h b = ((h XOR b) * 0x13B + h * 2 ^ 88) mod 2 ^ 128"

text \<open>
  The round for a character as the code promotes it to 64 bits: a negative one reaches over its limb, and the product of that limb is cut to 64 bits.
\<close>

definition fnv_char_step :: "nat \<Rightarrow> nat \<Rightarrow> nat" where
  "fnv_char_step h v = ((h div 2 ^ 32) * 2 ^ 32 * 0x13B + ((h mod 2 ^ 32) XOR v) * 0x13B mod 2 ^ 64 + h * 2 ^ 88) mod 2 ^ 128"

definition char_value :: "bool \<Rightarrow> u8 \<Rightarrow> nat" where
  "char_value char_is_signed c = (if char_is_signed \<and> 0x80 \<le> c then 2 ^ 64 - 256 + unat c else unat c)"

definition fnv_value :: "fnv_temp \<Rightarrow> nat" where
  "fnv_value t = limbs_nat t mod 2 ^ 128"

text \<open>The limbs after a round, as natural numbers.\<close>

lemma fnv_round_limbs:
  fixes cs :: bool and c :: u8
  assumes "limbs_ok t"
  defines "A3 \<equiv> (unat (temp3 t) XOR unat (char_promote cs c)) * 0x13B mod 2 ^ 64"
  defines "B2 \<equiv> unat (temp2 t) * 0x13B + A3 div 2 ^ 32"
  defines "B1 \<equiv> (unat (temp1 t) * 0x13B + unat (temp3 t) * 2 ^ 24) + B2 div 2 ^ 32"
  shows "unat (temp3 (fnv_round cs t c)) = A3 mod 2 ^ 32"
    and "unat (temp2 (fnv_round cs t c)) = B2 mod 2 ^ 32"
    and "unat (temp1 (fnv_round cs t c)) = B1 mod 2 ^ 32"
    and "unat (temp0 (fnv_round cs t c)) =
           ((unat (temp0 t) * 0x13B + unat (temp2 t) * 2 ^ 24) + B1 div 2 ^ 32) mod 2 ^ 64"
proof -
  define q where "q = char_promote cs c"
  have t: "unat (temp1 t) < 2 ^ 32" "unat (temp2 t) < 2 ^ 32" "unat (temp3 t) < 2 ^ 32"
    using assms(1) by (simp_all add: limbs_ok_def)
  define a3 where "a3 = (temp3 t XOR q) * 0x13B"
  define a2 where "a2 = temp2 t * 0x13B + drop_bit 32 a3"
  define a1 where "a1 = temp1 t * 0x13B + push_bit 24 (temp3 t) + drop_bit 32 a2"
  have a3: "unat a3 = A3"
    by (simp add: a3_def unat_word_ariths unat_xor A3_def q_def)
  have A3: "A3 div 2 ^ 32 < 2 ^ 32" by (simp add: A3_def)
  have a2: "unat a2 = B2"
    using t(2) A3 by (simp add: a2_def unat_word_ariths unat_drop32 a3 B2_def)
  have B2: "B2 < 2 ^ 42" using t(2) A3 by (simp add: B2_def)
  have s3: "unat (push_bit 24 (temp3 t)) = unat (temp3 t) * 2 ^ 24"
    using t(3) by (intro unat_push_bit_no_wrap) simp
  have s2: "unat (push_bit 24 (temp2 t)) = unat (temp2 t) * 2 ^ 24"
    using t(2) by (intro unat_push_bit_no_wrap) simp
  have a1: "unat a1 = B1"
    using t B2 unfolding a1_def unat_word_ariths unat_drop32 a2 s3 B1_def by simp
  have r: "fnv_round cs t c =
     \<lparr>temp0 = temp0 t * 0x13B + push_bit 24 (temp2 t) + drop_bit 32 a1,
      temp1 = a1 AND 0xffffffff, temp2 = a2 AND 0xffffffff, temp3 = a3 AND 0xffffffff\<rparr>"
    by (simp only: fnv_round_def Let_def a1_def a2_def a3_def q_def)
  show "unat (temp3 (fnv_round cs t c)) = A3 mod 2 ^ 32"
    unfolding r fnv_temp.simps unat_and_mask32 a3 ..
  show "unat (temp2 (fnv_round cs t c)) = B2 mod 2 ^ 32"
    unfolding r fnv_temp.simps unat_and_mask32 a2 ..
  show "unat (temp1 (fnv_round cs t c)) = B1 mod 2 ^ 32"
    unfolding r fnv_temp.simps unat_and_mask32 a1 ..
  show "unat (temp0 (fnv_round cs t c)) =
      ((unat (temp0 t) * 0x13B + unat (temp2 t) * 2 ^ 24) + B1 div 2 ^ 32) mod 2 ^ 64"
    unfolding r fnv_temp.simps unat_word_ariths unat_drop32 a1 s2 by (simp add: mod_simps)
qed

lemma limbs_ok_round:
  assumes "limbs_ok t"
  shows "limbs_ok (fnv_round cs t c)"
  unfolding limbs_ok_def fnv_round_limbs [OF assms] by simp

lemma high_limb_mod: "((a mod 2 ^ 64) * 2 ^ 96 + r) mod 2 ^ 128 = (a * 2 ^ 96 + r) mod (2 ^ 128 :: nat)"
proof -
  have "a * 2 ^ 96 = (a div 2 ^ 64 * 2 ^ 64 + a mod 2 ^ 64) * 2 ^ 96"
    by (simp only: div_mult_mod_eq)
  also have "\<dots> = (a mod 2 ^ 64) * 2 ^ 96 + (a div 2 ^ 64 * 2 ^ 32) * 2 ^ 128"
    by (simp only: distrib_right mult.assoc power_add [symmetric] add.commute) simp
  finally have "a * 2 ^ 96 + r = (a mod 2 ^ 64) * 2 ^ 96 + r + (a div 2 ^ 64 * 2 ^ 32) * 2 ^ 128"
    by (simp only: ac_simps)
  then show ?thesis by (simp only: mod_mult_self1)
qed

lemma high_limb_mod4:
  "((a mod 2 ^ 64) * 2 ^ 96 + p + q + r) mod 2 ^ 128 = (a * 2 ^ 96 + p + q + r) mod (2 ^ 128 :: nat)"
  using high_limb_mod [of a "p + q + r"] by (simp only: add.assoc)

lemma carry_limbs32:
  "(A0 + (A1 + (A2 + A3 div 2 ^ 32) div 2 ^ 32) div 2 ^ 32) * 2 ^ 96
     + ((A1 + (A2 + A3 div 2 ^ 32) div 2 ^ 32) mod 2 ^ 32) * 2 ^ 64
     + ((A2 + A3 div 2 ^ 32) mod 2 ^ 32) * 2 ^ 32 + A3 mod 2 ^ 32
   = A0 * 2 ^ 96 + A1 * 2 ^ 64 + A2 * 2 ^ 32 + (A3 :: nat)"
proof -
  have "(2 :: nat) ^ 32 * (2 ^ 32 * 2 ^ 32) = 2 ^ 96" and "(2 :: nat) ^ 32 * 2 ^ 32 = 2 ^ 64"
    by simp_all
  then show ?thesis using carry_limbs [of A0 A1 A2 A3 "2 ^ 32"] by (simp only:)
qed

lemma fnv_round_value:
  assumes ok: "limbs_ok t"
  shows "fnv_value (fnv_round cs t c) = fnv_char_step (fnv_value t) (unat (char_promote cs c))"
proof -
  define b where "b = unat (char_promote cs c)"
  define t0 t1 t2 t3 where "t0 = unat (temp0 t)" and "t1 = unat (temp1 t)"
    and "t2 = unat (temp2 t)" and "t3 = unat (temp3 t)"
  define h where "h = t0 * 2 ^ 64 + t1 * 2 ^ 32 + t2"
  define P where "P = (t3 XOR b) * 0x13B mod 2 ^ 64"
  define A where "A = (t0 * 0x13B + t2 * 2 ^ 24) * 2 ^ 96 + (t1 * 0x13B + t3 * 2 ^ 24) * 2 ^ 64
      + (t2 * 0x13B) * 2 ^ 32 + P"
  have x: "limbs_nat t = h * 2 ^ 32 + t3"
    by (simp add: limbs_nat_def h_def t0_def t1_def t2_def t3_def)
  have t3: "t3 < 2 ^ 32" using ok by (simp add: limbs_ok_def t3_def)
  have "limbs_nat (fnv_round cs t c) mod 2 ^ 128 = A mod 2 ^ 128"
    unfolding limbs_nat_def fnv_round_limbs [OF ok] high_limb_mod4 carry_limbs32
    unfolding A_def P_def b_def t0_def t1_def t2_def t3_def ..
  moreover have "h * 2 ^ 32 * 0x13B + P + (h * 2 ^ 32 + t3) * 2 ^ 88 = A + (t0 * 2 ^ 56 + t1 * 2 ^ 24) * 2 ^ 128"
    unfolding h_def A_def by (simp add: distrib_right)
  moreover have "fnv_char_step (fnv_value t) b = (h * 2 ^ 32 * 0x13B + P + (h * 2 ^ 32 + t3) * 2 ^ 88) mod 2 ^ 128"
  proof -
    have q: "limbs_nat t div 2 ^ 32 = h" "limbs_nat t mod 2 ^ 32 = t3" unfolding x using t3 by simp_all
    have "limbs_nat t mod (2 ^ 32 * 2 ^ 96) = 2 ^ 32 * (h mod 2 ^ 96) + t3" using mod_mult2_eq [of "limbs_nat t" "2 ^ 32" "2 ^ 96"] unfolding q .
    moreover have "(2 :: nat) ^ 32 * 2 ^ 96 = 2 ^ 128" by simp
    ultimately have e: "limbs_nat t mod 2 ^ 128 = (h mod 2 ^ 96) * 2 ^ 32 + t3" by (simp only: mult.commute)
    have d: "limbs_nat t mod 2 ^ 128 div 2 ^ 32 = h mod 2 ^ 96" and m: "limbs_nat t mod 2 ^ 128 mod 2 ^ 32 = t3"
      unfolding e using t3 by simp_all
    have "(k * 2 ^ 96 + u) * 2 ^ 32 * 0x13B + P + ((k * 2 ^ 96 + u) * 2 ^ 32 + t3) * 2 ^ 88 =
        u * 2 ^ 32 * 0x13B + P + (u * 2 ^ 32 + t3) * 2 ^ 88 + k * (0x13B + 2 ^ 88) * 2 ^ 128" for k u
      by (simp add: distrib_right distrib_left)
    from this [of "h div 2 ^ 96" "h mod 2 ^ 96"] have "h * 2 ^ 32 * 0x13B + P + (h * 2 ^ 32 + t3) * 2 ^ 88 =
        (h mod 2 ^ 96) * 2 ^ 32 * 0x13B + P + ((h mod 2 ^ 96) * 2 ^ 32 + t3) * 2 ^ 88 + (h div 2 ^ 96) * (0x13B + 2 ^ 88) * 2 ^ 128"
      by (simp only: div_mult_mod_eq)
    moreover have "fnv_char_step (fnv_value t) b = ((h mod 2 ^ 96) * 2 ^ 32 * 0x13B + P + (limbs_nat t mod 2 ^ 128) * 2 ^ 88) mod 2 ^ 128"
      unfolding fnv_char_step_def fnv_value_def d m P_def ..
    ultimately show ?thesis unfolding e by (simp only: mod_mult_self1)
  qed
  ultimately show ?thesis unfolding fnv_value_def b_def [symmetric] by (simp only: mod_mult_self1)
qed

definition fnv1a_step :: "nat \<Rightarrow> nat \<Rightarrow> nat" where
  "fnv1a_step h b = (h XOR b) * (2 ^ 88 + 0x13B) mod 2 ^ 128"

definition hash_nat :: "fnv128 \<Rightarrow> nat" where
  "hash_nat h = unat (hash0 h) * 2 ^ 96 + unat (hash1 h) * 2 ^ 64 + unat (hash2 h) * 2 ^ 32 + unat (hash3 h)"

lemma limbs_ok_load: "limbs_ok (load_temp h)"
  using unat_lt32 by (simp add: limbs_ok_def load_temp_def unat_ucast_u32_u64)

lemma fnv_value_load: "fnv_value (load_temp h) = hash_nat h"
proof -
  have "limbs_nat (load_temp h) = hash_nat h"
    by (simp add: limbs_nat_def load_temp_def hash_nat_def unat_ucast_u32_u64)
  moreover have "hash_nat h < 2 ^ 128"
    using unat_lt32 [of "hash0 h"] unat_lt32 [of "hash1 h"] unat_lt32 [of "hash2 h"] unat_lt32 [of "hash3 h"]
    by (simp add: hash_nat_def)
  ultimately show ?thesis by (simp add: fnv_value_def)
qed

lemma hash_nat_store: "limbs_ok t \<Longrightarrow> hash_nat (store_temp t) = fnv_value t"
proof -
  assume ok: "limbs_ok t"
  have "limbs_nat t = hash_nat (store_temp t) + (unat (temp0 t) div 2 ^ 32) * 2 ^ 128"
    using ok carry_shift [of "unat (temp0 t)" "2 ^ 32" "2 ^ 96"]
    by (simp add: limbs_nat_def store_temp_def hash_nat_def unat_ucast_u64_u32 limbs_ok_def)
  moreover have "hash_nat (store_temp t) < 2 ^ 128"
    using unat_lt32 [of "hash0 (store_temp t)"] unat_lt32 [of "hash1 (store_temp t)"] unat_lt32 [of "hash2 (store_temp t)"] unat_lt32 [of "hash3 (store_temp t)"]
    by (simp add: hash_nat_def)
  ultimately show ?thesis by (simp add: fnv_value_def)
qed

lemma fnv_rounds_value:
  assumes "limbs_ok t"
  shows "limbs_ok (fnv_rounds cs t inp) \<and>
    fnv_value (fnv_rounds cs t inp) = foldl (\<lambda>h c. fnv_char_step h (unat (char_promote cs c))) (fnv_value t) inp"
  using assms
proof (induction inp arbitrary: t)
  case (Cons c inp)
  then show ?case using Cons.IH [OF limbs_ok_round [OF Cons.prems, of cs c]] by (simp add: fnv_round_value)
qed simp

text \<open>A byte is promoted to its own value unless a signed \<open>char\<close> is negative.\<close>

lemma sint_u8: "sint (c::u8) = (if 0x80 \<le> c then uint c - 256 else uint c)"
proof -
  have u: "0 \<le> uint c" "uint c < 256" using unsigned_less [of c, where 'a=int] by simp_all
  have "bit (uint c) 7 \<longleftrightarrow> 128 \<le> uint c"
  proof -
    have "uint c div 128 = (if 128 \<le> uint c then 1 else 0)" using u by (auto intro: div_pos_pos_trivial)
    then show ?thesis by (simp add: bit_iff_odd)
  qed
  moreover have "0x80 \<le> c \<longleftrightarrow> 128 \<le> uint c" by (simp add: word_le_def)
  moreover have "take_bit 8 (uint c) = uint c" using u by (simp add: take_bit_int_eq_self)
  ultimately show ?thesis by (simp add: sint_uint signed_take_bit_eq_take_bit_minus)
qed
lemma unat_scast8: "unat (scast c :: u64) = (if 0x80 \<le> (c::u8) then 2 ^ 64 - 256 + unat c else unat c)"
proof -
  have s: "uint (scast c :: u64) = sint c mod 2 ^ 64" by (simp only: scast_eq unsigned_of_int take_bit_eq_mod len_num1 len_bit0 len_bit1) simp
  have u: "uint c < 256" "0 \<le> uint c" using unsigned_less [of c, where 'a=int] by simp_all
  have n: "(uint c - 256) mod 2 ^ 64 = 2 ^ 64 - 256 + uint c"
  proof -
    have "(uint c - 256) mod 2 ^ 64 = (uint c - 256 + 2 ^ 64) mod 2 ^ 64" by (simp only: mod_add_self2)
    also have "\<dots> = uint c - 256 + 2 ^ 64" using u by (intro mod_pos_pos_trivial) simp_all
    finally show ?thesis by simp
  qed
  have p: "uint c mod 2 ^ 64 = uint c" using u by (intro mod_pos_pos_trivial) simp_all
  have "uint (scast c :: u64) = (if 0x80 \<le> c then 2 ^ 64 - 256 + uint c else uint c)"
    unfolding s sint_u8 using n p by (cases "0x80 \<le> c") (simp_all only: if_True if_False)
  then show ?thesis by (cases "0x80 \<le> c") (simp_all only: if_True if_False unat_eq_nat_uint, use u in \<open>simp add: nat_add_distrib\<close>)
qed
lemma char_promote_value: "unat (char_promote cs c) = char_value cs c"
proof -
  have "unat (ucast c :: u64) = unat c"
    using unat_lt_two_power [of c] by (simp only: unsigned_ucast_eq) (simp add: take_bit_nat_eq_self_iff)
  then show ?thesis unfolding char_promote_def char_value_def by (cases cs) (simp_all only: unat_scast8 if_True if_False simp_thms)
qed

definition plain_bytes :: "bool \<Rightarrow> u8 list \<Rightarrow> bool" where
  "plain_bytes cs inp \<longleftrightarrow> (\<forall>c \<in> set inp. \<not> cs \<or> c < 0x80)"

lemma block_in_value: "hash_nat (block_in cs h inp) = foldl fnv_char_step (hash_nat h) (map (char_value cs) inp)"
  using fnv_rounds_value [OF limbs_ok_load [of h], of cs inp]
  by (simp add: block_in_def fnv_algorithm_def hash_nat_store fnv_value_load char_promote_value foldl_map)

text \<open>For bytes that stay in their limb the round is the plain formula.\<close>

lemma fnv_char_step_plain:
  assumes "b < 2 ^ 8"
  shows "fnv_char_step h b = fnv_spec_step h b"
proof -
  have x: "(h mod 2 ^ 32) XOR b < 2 ^ 32" using assms by (intro xor_lt_two_power) simp_all
  then have "((h mod 2 ^ 32) XOR b) * 0x13B mod 2 ^ 64 = ((h mod 2 ^ 32) XOR b) * 0x13B" by (intro mod_less) simp
  moreover have "h XOR b = (h div 2 ^ 32) * 2 ^ 32 + ((h mod 2 ^ 32) XOR b)"
    using xor_low_limb [of b 32 "h mod 2 ^ 32" "h div 2 ^ 32"] assms by simp
  ultimately show ?thesis by (simp add: fnv_char_step_def fnv_spec_step_def distrib_right)
qed

lemma block_in_plain:
  assumes "plain_bytes cs inp"
  shows "hash_nat (block_in cs h inp) = foldl fnv_spec_step (hash_nat h) (map unat inp)"
proof -
  have "foldl (\<lambda>h c. fnv_char_step h (char_value cs c)) k inp = foldl (\<lambda>h c. fnv_spec_step h (unat c)) k inp" for k
  proof (rule foldl_cong)
    fix h c assume "c \<in> set inp"
    then have "char_value cs c = unat c" using assms by (auto simp: plain_bytes_def char_value_def)
    then show "fnv_char_step h (char_value cs c) = fnv_spec_step h (unat c)" using unat_lt_two_power [of c] by (simp add: fnv_char_step_plain)
  qed simp_all
  then show ?thesis by (simp add: block_in_value foldl_map)
qed

lemma limb_split: "b < N \<Longrightarrow> b' < N \<Longrightarrow> a * N + b = a' * N + (b' :: nat) \<longleftrightarrow> a = a' \<and> b = b'"
  by (metis add.commute div_mult_self1 div_less add_0 mod_mult_self1 mod_less not_less_zero)

lemma hash_nat_inject: "hash_nat h = hash_nat h' \<longleftrightarrow> h = h'"
proof -
  have horner: "hash_nat g = ((unat (hash0 g) * 4294967296 + unat (hash1 g)) * 4294967296
      + unat (hash2 g)) * 4294967296 + unat (hash3 g)" for g
    by (simp add: hash_nat_def)
  show ?thesis
    unfolding horner limb_split [OF unat_lt32 unat_lt32]
    by (auto simp: word_unat_eq_iff [symmetric] intro: fnv128.equality)
qed

text \<open>Hashing a block piecewise is hashing the concatenation.\<close>

lemma block_in_append: "block_in cs (block_in cs h a) b = block_in cs h (a @ b)"
  unfolding hash_nat_inject [symmetric] by (simp add: block_in_value)

subsection \<open>Properties\<close>

text \<open>
  (C22) \<open>fnv128::block_in\<close> implements one closed formula per byte on the 128-bit number held in the four limbs, for all bytes. A byte counts as the 64-bit
  value it is promoted to, which for a byte from 0x80 on is negative where \<open>char\<close> is signed; then the product of the lowest limb is cut to 64 bits, and this is the only
  carry that is lost. For bytes that are not negative the formula is that of one multiplication of the whole number. Hashing a buffer
  piecewise gives the hash of the whole buffer.
\<close>

theorem fnv128_block_in_correct:
  "hash_nat (block_in cs h a) = foldl fnv_char_step (hash_nat h) (map (char_value cs) a) \<and>
   (plain_bytes cs a \<longrightarrow> hash_nat (block_in cs h a) = foldl fnv_spec_step (hash_nat h) (map unat a)) \<and>
   block_in cs (block_in cs h a) b = block_in cs h (a @ b)"
  using block_in_value block_in_plain block_in_append by blast

theorem fnv128_block_in_correct_witness:
  "hash_nat (block_in True fnv128_init [0x75, 0x70]) = foldl fnv_spec_step (hash_nat fnv128_init) (map unat [0x75, 0x70 :: u8]) \<and>
   hash_nat (block_in True fnv128_init [0xf0]) = fnv_char_step (hash_nat fnv128_init) (2 ^ 64 - 16) \<and>
   block_in True (block_in True fnv128_init [0x75, 0x70]) [0xf0] = block_in True fnv128_init [0x75, 0x70, 0xf0]"
proof -
  have "plain_bytes True [0x75, 0x70]" by (simp add: plain_bytes_def)
  moreover have "char_value True 0xf0 = 2 ^ 64 - 16" by (simp add: char_value_def)
  ultimately show ?thesis
    using fnv128_block_in_correct [of True fnv128_init "[0x75, 0x70]" "[0xf0]"] fnv128_block_in_correct [of True fnv128_init "[0xf0]" "[]"] by simp
qed

text \<open>
  The hash is not the FNV-1a function it is taken from: \<open>round\<close> computes the part shifted by
  24 bits before it mixes the byte in, so already the one-byte input \<open>a\<close> hashes differently.
\<close>

theorem fnv128_differs_from_fnv1a:
  "hash_nat (block_in cs fnv128_init [0x61]) \<noteq> fnv1a_step (hash_nat fnv128_init) 0x61"
proof -
  have "plain_bytes cs [0x61]" by (simp add: plain_bytes_def)
  then have "hash_nat (block_in cs fnv128_init [0x61]) = fnv_spec_step (hash_nat fnv128_init) 0x61"
    by (simp add: block_in_plain)
  then show ?thesis
    by (simp add: fnv_spec_step_def fnv1a_step_def) (simp add: hash_nat_def fnv128_init_def)
qed

text \<open>
  (C23) \<open>digest::eat\<close> loses nothing before it drops two words: its eleven lines are a permutation
  of the four words, undone by \<open>uneat_mix\<close>, and the digest is the first two words of the result.
\<close>

theorem digest_eat_mix_invertible:
  "uneat_mix (eat_mix (w0 d, w1 d, x0, x1)) = (w0 d, w1 d, x0, x1) \<and>
   w0 (eat d x0 x1) = fst (eat_mix (w0 d, w1 d, x0, x1)) \<and>
   w1 (eat d x0 x1) = fst (snd (eat_mix (w0 d, w1 d, x0, x1)))"
  by (simp add: uneat_eat_mix) (simp add: eat_def Let_def split: prod.splits)

end
