(* ===== verification/Std_Map.thy ===== *)
theory Std_Map
  imports Prelude "HOL-Library.Product_Lexorder"
begin

text \<open>
  The part of \<open>std::map\<close> the runtime relies on: a map kept in key order, with \<open>insert\<close> (which
  keeps an existing entry), \<open>erase\<close> and \<open>lower_bound\<close>. The interface is the locale
  \<open>ordered_map\<close>; its clients' lemmas are proved there once, and it is interpreted on strictly
  sorted association lists, the executable representation the component models use.
\<close>

locale ordered_map =
  fixes insert_entry :: "'k::linorder \<Rightarrow> 'v \<Rightarrow> 'm \<Rightarrow> 'm"
    and erase_key :: "'k \<Rightarrow> 'm \<Rightarrow> 'm"
    and lower :: "'k \<Rightarrow> 'm \<Rightarrow> ('k \<times> 'v) option"
    and entries :: "'m \<Rightarrow> ('k \<times> 'v) set"
    and wf_map :: "'m \<Rightarrow> bool"
  assumes wf_insert: "wf_map m \<Longrightarrow> wf_map (insert_entry k v m)"
    and wf_erase: "wf_map m \<Longrightarrow> wf_map (erase_key k m)"
    and entries_insert: "wf_map m \<Longrightarrow>
      entries (insert_entry k v m) = (if k \<in> fst ` entries m then entries m else insert (k, v) (entries m))"
    and entries_erase: "wf_map m \<Longrightarrow> entries (erase_key k m) = {e \<in> entries m. fst e \<noteq> k}"
    and lower_None: "wf_map m \<Longrightarrow> lower k m = None \<longleftrightarrow> (\<forall>e \<in> entries m. fst e < k)"
    and lower_Some: "wf_map m \<Longrightarrow> lower k m = Some e \<Longrightarrow>
      e \<in> entries m \<and> k \<le> fst e \<and> (\<forall>e' \<in> entries m. k \<le> fst e' \<longrightarrow> fst e \<le> fst e')"
    and entries_single: "wf_map m \<Longrightarrow> (k, v) \<in> entries m \<Longrightarrow> (k, v') \<in> entries m \<Longrightarrow> v = v'"
begin

lemma entries_insert_fresh:
  "wf_map m \<Longrightarrow> k \<notin> fst ` entries m \<Longrightarrow> entries (insert_entry k v m) = insert (k, v) (entries m)"
  by (simp add: entries_insert)

text \<open>Replacing the entry of one key by the entry of another.\<close>

lemma entries_rekey:
  assumes "wf_map m" "(k, v) \<in> entries m" "k' \<notin> fst ` (entries m - {(k, v)})"
  shows "entries (insert_entry k' v' (erase_key k m)) = insert (k', v') (entries m - {(k, v)})"
proof -
  have "{e \<in> entries m. fst e \<noteq> k} = entries m - {(k, v)}"
    using assms entries_single by (auto simp: prod_eq_iff)
  then show ?thesis
    using assms by (simp add: entries_insert_fresh wf_erase entries_erase)
qed

lemma lower_bound_found: "wf_map m \<Longrightarrow> e \<in> entries m \<Longrightarrow> k \<le> fst e \<Longrightarrow> \<exists>e'. lower k m = Some e'"
  using lower_None [of m k] by (cases "lower k m") (auto simp: not_less [symmetric])

end

subsection \<open>Sorted association lists\<close>

fun map_insert :: "'k::linorder \<Rightarrow> 'v \<Rightarrow> ('k \<times> 'v) list \<Rightarrow> ('k \<times> 'v) list" where
  "map_insert k v [] = [(k, v)]"
| "map_insert k v ((k', v') # m) =
     (if k < k' then (k, v) # (k', v') # m
      else if k = k' then (k', v') # m
      else (k', v') # map_insert k v m)"

definition map_erase :: "'k \<Rightarrow> ('k \<times> 'v) list \<Rightarrow> ('k \<times> 'v) list" where
  "map_erase k m = filter (\<lambda>e. fst e \<noteq> k) m"

definition map_lower_bound :: "'k::linorder \<Rightarrow> ('k \<times> 'v) list \<Rightarrow> ('k \<times> 'v) option" where
  "map_lower_bound k m = List.find (\<lambda>e. k \<le> fst e) m"

definition map_wf :: "('k::linorder \<times> 'v) list \<Rightarrow> bool" where
  "map_wf m \<longleftrightarrow> sorted_wrt (\<lambda>e e'. fst e < fst e') m"

lemma set_map_insert:
  "map_wf m \<Longrightarrow>
     set (map_insert k v m) = (if k \<in> fst ` set m then set m else insert (k, v) (set m))"
proof (induction k v m rule: map_insert.induct)
  case (2 k v k' v' m)
  then show ?case by (auto simp: map_wf_def not_less_iff_gr_or_eq)
qed simp

lemma map_wf_insert: "map_wf m \<Longrightarrow> map_wf (map_insert k v m)"
proof (induction k v m rule: map_insert.induct)
  case (2 k v k' v' m)
  then show ?case
    using set_map_insert [of m k v] by (fastforce simp: map_wf_def split: if_splits)
qed (simp add: map_wf_def)

lemma map_lower_bound_Some:
  assumes "map_wf m" "map_lower_bound k m = Some e"
  shows "e \<in> set m \<and> k \<le> fst e \<and> (\<forall>e' \<in> set m. k \<le> fst e' \<longrightarrow> fst e \<le> fst e')"
  using assms by (induction m) (auto simp: map_wf_def map_lower_bound_def split: if_splits)

interpretation assoc: ordered_map map_insert map_erase map_lower_bound set map_wf
proof unfold_locales
  fix m :: "('k::linorder \<times> 'v) list" and k v v' e
  show "map_wf m \<Longrightarrow> map_wf (map_insert k v m)" by (rule map_wf_insert)
  show "map_wf m \<Longrightarrow> map_wf (map_erase k m)"
    by (simp add: map_wf_def map_erase_def sorted_wrt_filter)
  show "map_wf m \<Longrightarrow> set (map_insert k v m) = (if k \<in> fst ` set m then set m else insert (k, v) (set m))"
    by (rule set_map_insert)
  show "set (map_erase k m) = {e \<in> set m. fst e \<noteq> k}"
    by (auto simp: map_erase_def)
  show "(map_lower_bound k m = None) = (\<forall>e \<in> set m. fst e < k)"
    by (auto simp: map_lower_bound_def find_None_iff not_le)
  show "map_wf m \<Longrightarrow> map_lower_bound k m = Some e \<Longrightarrow>
      e \<in> set m \<and> k \<le> fst e \<and> (\<forall>e' \<in> set m. k \<le> fst e' \<longrightarrow> fst e \<le> fst e')"
    by (rule map_lower_bound_Some)
  show "map_wf m \<Longrightarrow> (k, v) \<in> set m \<Longrightarrow> (k, v') \<in> set m \<Longrightarrow> v = v'"
    by (induction m) (auto simp: map_wf_def)
qed

end
