(* ===== verification/Segment_Allocator.thy ===== *)
theory Segment_Allocator
  imports Std_Map "HOL-Library.Monad_Syntax"
begin

text \<open>
  Component \<open>detail::segment_allocator\<close> (src/segment_allocator.hpp, src/segment_allocator.cpp): the
  best-fit allocator of device segments. The blocks are objects of the C++ heap linked by \<open>prev\<close> and
  \<open>next\<close>; the model keeps them in an explicit store. Offsets are 64-bit words, so the rounding
  of sizes and the alignment arithmetic wrap as in the code. A result \<open>None\<close> is the
  dereference of a null or dangling pointer.
\<close>

unbundle bit_operations_syntax

subsection \<open>State\<close>

type_synonym block_ptr = nat

text \<open>\<open>begin\<close> is a bit field of 63 bits: \<open>block_new\<close> and \<open>set_begin\<close> truncate what they store.\<close>

record block =
  is_hole :: bool
  blk_begin :: u64
  blk_prev :: "block_ptr option"
  blk_next :: "block_ptr option"

record segment_allocator =
  seg_base :: u64
  blocks :: "block_ptr \<rightharpoonup> block"
  holes_by_size :: "((u64 \<times> u64) \<times> block_ptr) list"
  hunks_by_begin :: "u64 \<rightharpoonup> block_ptr"
  heap_next :: block_ptr

text \<open>The address of the member \<open>endpost\<close>.\<close>

definition endpost :: block_ptr where
  "endpost = 0"

definition block_new :: "bool \<Rightarrow> u64 \<Rightarrow> block_ptr option \<Rightarrow> block_ptr option \<Rightarrow> block" where
  "block_new hole b p n = \<lparr>is_hole = hole, blk_begin = take_bit 63 b, blk_prev = p, blk_next = n\<rparr>"

definition set_begin :: "u64 \<Rightarrow> block \<Rightarrow> block" where
  "set_begin b blk = blk\<lparr>blk_begin := take_bit 63 b\<rparr>"

definition upd_block :: "block_ptr \<Rightarrow> (block \<Rightarrow> block) \<Rightarrow> segment_allocator \<Rightarrow> segment_allocator option" where
  "upd_block p f s =
     (case blocks s p of None \<Rightarrow> None | Some b \<Rightarrow> Some (s\<lparr>blocks := (blocks s)(p \<mapsto> f b)\<rparr>))"

definition new_block :: "block \<Rightarrow> segment_allocator \<Rightarrow> block_ptr \<times> segment_allocator" where
  "new_block b s =
     (heap_next s, s\<lparr>blocks := (blocks s)(heap_next s \<mapsto> b), heap_next := Suc (heap_next s)\<rparr>)"

definition delete_block :: "block_ptr \<Rightarrow> segment_allocator \<Rightarrow> segment_allocator" where
  "delete_block p s = s\<lparr>blocks := (blocks s)(p := None)\<rparr>"

definition insert_hole_by_size :: "block_ptr \<Rightarrow> u64 \<Rightarrow> segment_allocator \<Rightarrow> segment_allocator option" where
  "insert_hole_by_size p sz s =
     do {
       b \<leftarrow> blocks s p;
       Some (s\<lparr>holes_by_size := map_insert (sz, blk_begin b) p (holes_by_size s)\<rparr>)
     }"

definition erase_hole :: "u64 \<times> u64 \<Rightarrow> segment_allocator \<Rightarrow> segment_allocator" where
  "erase_hole k s = s\<lparr>holes_by_size := map_erase k (holes_by_size s)\<rparr>"

subsection \<open>Construction, move, queries\<close>

definition segment_allocator_init :: "u64 \<Rightarrow> u64 \<Rightarrow> segment_allocator option" where
  "segment_allocator_init segment_base seg_size =
     (let s0 = \<lparr>seg_base = segment_base,
               blocks = [endpost \<mapsto> block_new False seg_size None None],
               holes_by_size = [], hunks_by_begin = Map.empty, heap_next = 1\<rparr>
      in if seg_size = 0 then Some s0
         else
           let (big_hole, s1) = new_block (block_new True 0 None (Some endpost)) s0
           in do {
                s2 \<leftarrow> upd_block endpost (\<lambda>b. b\<lparr>blk_prev := Some big_hole\<rparr>) s1;
                insert_hole_by_size big_hole seg_size s2
              })"

text \<open>
  Move assignment yields the new value of \<open>*this\<close> and of \<open>that\<close>. \<open>Inl\<close> is the failed assertion that
  the target is inactive. The blocks are shared heap objects: in the model the target's
  \<open>endpost\<close> object takes the place of the source's, so the pointer of the last block to it is
  unchanged.
\<close>

datatype seg_error = Move_target_active | Invalid_address

definition move_assign ::
  "segment_allocator \<Rightarrow> segment_allocator \<Rightarrow> (seg_error + segment_allocator \<times> segment_allocator) option" where
  "move_assign this that =
     do {
       e \<leftarrow> blocks this endpost;
       e' \<leftarrow> blocks that endpost;
       Some (if seg_base this = 0 \<and> blk_begin e = 0
             then Inr (that,
               \<lparr>seg_base = 0, blocks = [endpost \<mapsto> e'\<lparr>blk_begin := 0, blk_prev := None\<rparr>],
                holes_by_size = [], hunks_by_begin = Map.empty, heap_next = heap_next that\<rparr>)
             else Inl Move_target_active)
     }"

definition segment_range :: "segment_allocator \<Rightarrow> (u64 \<times> u64) option" where
  "segment_range s = do { e \<leftarrow> blocks s endpost; Some (seg_base s, blk_begin e) }"

definition in_segment :: "segment_allocator \<Rightarrow> u64 \<Rightarrow> bool option" where
  "in_segment s p = do { e \<leftarrow> blocks s endpost; Some (p - seg_base s < blk_begin e) }"

definition segment_size :: "segment_allocator \<Rightarrow> u64 option" where
  "segment_size s = do { e \<leftarrow> blocks s endpost; Some (blk_begin e) }"

definition segment_free :: "segment_allocator \<Rightarrow> u64" where
  "segment_free s = foldl (\<lambda>free_space p. free_space + fst (fst p)) 0 (holes_by_size s)"

subsection \<open>Allocation\<close>

definition round_request :: "u64 \<Rightarrow> u64 \<Rightarrow> u64 \<times> u64" where
  "round_request m_size m_align =
     (if m_size \<ge> 2 * 4096 then ((m_size + 4096 - 1) AND - 4096, max 4096 m_align)
      else if m_size \<ge> 2 * 64 then ((m_size + 64 - 1) AND - 64, max 64 m_align)
      else (m_size, m_align))"

definition align_begin :: "u64 \<Rightarrow> u64 \<Rightarrow> u64 \<Rightarrow> u64" where
  "align_begin base h_begin m_align = ((base + h_begin + m_align - 1) AND - m_align) - base"

text \<open>The hunk is carved out of the hole \<open>h\<close>; the result is the new state and the hunk.\<close>

definition carve_left ::
  "block_ptr \<Rightarrow> u64 \<Rightarrow> u64 \<Rightarrow> u64 \<Rightarrow> segment_allocator \<Rightarrow> (block_ptr \<times> segment_allocator) option" where
  "carve_left h h_begin h_end m_begin s =
     (if h_begin < m_begin then
        do {
          hb \<leftarrow> blocks s h;
          absorb \<leftarrow> (case blk_prev hb of
                       None \<Rightarrow> Some False
                     | Some p \<Rightarrow> do { pb \<leftarrow> blocks s p;
                                      Some (m_begin - h_begin < (h_end - blk_begin pb) div 16) });
          if absorb then
            do { s \<leftarrow> upd_block h (\<lambda>b. set_begin m_begin (b\<lparr>is_hole := False\<rparr>)) s; Some (h, s) }
          else
            do {
              n \<leftarrow> blk_next hb;
              let (m, s) = new_block (block_new False m_begin (Some h) (Some n)) s;
              s \<leftarrow> upd_block n (\<lambda>b. b\<lparr>blk_prev := Some m\<rparr>) s;
              s \<leftarrow> upd_block h (\<lambda>b. b\<lparr>blk_next := Some m\<rparr>) s;
              s \<leftarrow> insert_hole_by_size h (m_begin - h_begin) s;
              Some (m, s)
            }
        }
      else do { s \<leftarrow> upd_block h (\<lambda>b. b\<lparr>is_hole := False\<rparr>) s; Some (h, s) })"

definition carve_right ::
  "block_ptr \<Rightarrow> u64 \<Rightarrow> u64 \<Rightarrow> segment_allocator \<Rightarrow> segment_allocator option" where
  "carve_right m m_end h_end s =
     (if m_end < h_end then
        do {
          mb \<leftarrow> blocks s m;
          n \<leftarrow> blk_next mb;
          let (hr, s) = new_block (block_new True m_end (Some m) (Some n)) s;
          s \<leftarrow> upd_block n (\<lambda>b. b\<lparr>blk_prev := Some hr\<rparr>) s;
          s \<leftarrow> upd_block m (\<lambda>b. b\<lparr>blk_next := Some hr\<rparr>) s;
          insert_hole_by_size hr (h_end - m_end) s
        }
      else Some s)"

datatype attempt = No_hole | Unfit | Fit u64 segment_allocator

definition try_hole :: "segment_allocator \<Rightarrow> u64 \<Rightarrow> u64 \<Rightarrow> u64 \<Rightarrow> attempt option" where
  "try_hole s m_size m_align m_size_padded =
     (case map_lower_bound (m_size_padded, 0) (holes_by_size s) of
        None \<Rightarrow> Some No_hole
      | Some (key, h) \<Rightarrow>
          do {
            hb \<leftarrow> blocks s h;
            n \<leftarrow> blk_next hb;
            nb \<leftarrow> blocks s n;
            let h_begin = blk_begin hb;
            let h_end = blk_begin nb;
            let m_begin = align_begin (seg_base s) h_begin m_align;
            let m_end = m_begin + m_size;
            if m_end \<le> h_end then
              do {
                (m, s) \<leftarrow> carve_left h h_begin h_end m_begin (erase_hole key s);
                let s = s\<lparr>hunks_by_begin := (hunks_by_begin s)(m_begin \<mapsto> m)\<rparr>;
                s \<leftarrow> carve_right m m_end h_end s;
                Some (Fit (seg_base s + m_begin) s)
              }
            else Some Unfit
          })"

text \<open>\<open>allocate\<close> returns the address (0 is \<open>nullptr\<close>) and the new state; \<open>goto top\<close> runs once at most.\<close>

definition allocate :: "u64 \<Rightarrow> u64 \<Rightarrow> segment_allocator \<Rightarrow> (u64 \<times> segment_allocator) option" where
  "allocate req_size req_align s =
     (if req_size = 0 then Some (0, s)
      else
        let (m_size, m_align) = round_request req_size req_align
        in do {
             a \<leftarrow> try_hole s m_size m_align m_size;
             case a of
               Fit p s' \<Rightarrow> Some (p, s')
             | No_hole \<Rightarrow> Some (0, s)
             | Unfit \<Rightarrow>
                 let m_size_padded = m_size + m_align - 1
                 in if m_size_padded = m_size then Some (0, s)
                    else do {
                      a \<leftarrow> try_hole s m_size m_align m_size_padded;
                      case a of Fit p s' \<Rightarrow> Some (p, s') | No_hole \<Rightarrow> Some (0, s) | Unfit \<Rightarrow> Some (0, s)
                    }
           })"

subsection \<open>Deallocation\<close>

text \<open>The hunk becomes a hole, fused with a hole on its left: the hole, its begin and the new state.\<close>

definition fuse_left ::
  "block_ptr \<Rightarrow> u64 \<Rightarrow> u64 \<Rightarrow> segment_allocator \<Rightarrow> (block_ptr \<times> u64 \<times> segment_allocator) option" where
  "fuse_left m m_begin m_end s =
     do {
       mb \<leftarrow> blocks s m;
       left_hole \<leftarrow> (case blk_prev mb of
                       None \<Rightarrow> Some False
                     | Some p \<Rightarrow> do { pb \<leftarrow> blocks s p; Some (is_hole pb) });
       if left_hole then
         do {
           lh \<leftarrow> blk_prev mb;
           n \<leftarrow> blk_next mb;
           s \<leftarrow> upd_block lh (\<lambda>b. b\<lparr>blk_next := Some n\<rparr>) s;
           s \<leftarrow> upd_block n (\<lambda>b. b\<lparr>blk_prev := Some lh\<rparr>) s;
           lb \<leftarrow> blocks s lh;
           let s = erase_hole (m_begin - blk_begin lb, blk_begin lb) s;
           s \<leftarrow> insert_hole_by_size lh (m_end - blk_begin lb) s;
           Some (lh, blk_begin lb, delete_block m s)
         }
       else
         do {
           s \<leftarrow> upd_block m (\<lambda>b. b\<lparr>is_hole := True\<rparr>) s;
           s \<leftarrow> insert_hole_by_size m (m_end - m_begin) s;
           Some (m, m_begin, s)
         }
     }"

definition fuse_right :: "block_ptr \<Rightarrow> u64 \<Rightarrow> segment_allocator \<Rightarrow> segment_allocator option" where
  "fuse_right m m_begin s =
     do {
       mb \<leftarrow> blocks s m;
       rh \<leftarrow> blk_next mb;
       rb \<leftarrow> blocks s rh;
       if is_hole rb then
         do {
           n \<leftarrow> blk_next rb;
           nb \<leftarrow> blocks s n;
           let rh_end = blk_begin nb;
           s \<leftarrow> upd_block m (\<lambda>b. b\<lparr>blk_next := Some n\<rparr>) s;
           s \<leftarrow> upd_block n (\<lambda>b. b\<lparr>blk_prev := Some m\<rparr>) s;
           let s = erase_hole (rh_end - blk_begin rb, blk_begin rb) s;
           let s = erase_hole (blk_begin rb - m_begin, m_begin) s;
           s \<leftarrow> insert_hole_by_size m (rh_end - m_begin) s;
           Some (delete_block rh s)
         }
       else Some s
     }"

definition deallocate :: "u64 \<Rightarrow> segment_allocator \<Rightarrow> (seg_error + segment_allocator) option" where
  "deallocate ptr s =
     (if ptr = 0 then Some (Inr s)
      else
        let m_begin = ptr - seg_base s
        in case hunks_by_begin s m_begin of
             None \<Rightarrow> Some (Inl Invalid_address)
           | Some m \<Rightarrow>
               do {
                 let s = s\<lparr>hunks_by_begin := (hunks_by_begin s)(m_begin := None)\<rparr>;
                 mb \<leftarrow> blocks s m;
                 n \<leftarrow> blk_next mb;
                 nb \<leftarrow> blocks s n;
                 (m, m_begin, s) \<leftarrow> fuse_left m m_begin (blk_begin nb) s;
                 s \<leftarrow> fuse_right m m_begin s;
                 Some (Inr s)
               })"

subsection \<open>Destruction\<close>

text \<open>The destructor walks the \<open>prev\<close> links from \<open>endpost\<close>; the loop has no bound in the code.\<close>

partial_function (option) destroy_from :: "block_ptr option \<Rightarrow> segment_allocator \<Rightarrow> segment_allocator option" where
  "destroy_from b s =
     (case b of
        None \<Rightarrow> Some s
      | Some p \<Rightarrow> do { pb \<leftarrow> blocks s p; destroy_from (blk_prev pb) (delete_block p s) })"

definition segment_allocator_destroy :: "segment_allocator \<Rightarrow> segment_allocator option" where
  "segment_allocator_destroy s = do { e \<leftarrow> blocks s endpost; destroy_from (blk_prev e) s }"

end
