(* ===== verification/Segment_Layout.thy ===== *)
theory Segment_Layout
  imports Segment_Allocator
begin

text \<open>
  The representation invariant of the segment allocator: the linked blocks as a list in address
  order, the index of holes by size and the index of hunks by begin, and what each step
  of \<open>allocate\<close> and \<open>deallocate\<close> does to them.
\<close>

unbundle bit_operations_syntax

subsection \<open>The linked blocks as a list\<close>

text \<open>
  A layout lists the blocks in address order: pointer, hole flag, begin offset. \<open>links\<close> is the
  store it stands for, with the given neighbours at both ends.
\<close>

type_synonym layout = "(block_ptr \<times> bool \<times> u64) list"

abbreviation bgn :: "block_ptr \<times> bool \<times> u64 \<Rightarrow> u64" where
  "bgn x \<equiv> snd (snd x)"

abbreviation hole :: "block_ptr \<times> bool \<times> u64 \<Rightarrow> bool" where
  "hole x \<equiv> fst (snd x)"

definition first_ptr :: "layout \<Rightarrow> block_ptr option \<Rightarrow> block_ptr option" where
  "first_ptr L nx = (case L of [] \<Rightarrow> nx | x # _ \<Rightarrow> Some (fst x))"

definition last_ptr :: "layout \<Rightarrow> block_ptr option \<Rightarrow> block_ptr option" where
  "last_ptr L pv = (if L = [] then pv else Some (fst (last L)))"

lemma ptr_ends [simp]:
  "first_ptr [] nx = nx" "first_ptr (x # L) nx = Some (fst x)"
  "last_ptr [] pv = pv" "last_ptr (L @ [x]) pv = Some (fst x)" "last_ptr (x # L) pv = last_ptr L (Some (fst x))"
  by (simp_all add: first_ptr_def last_ptr_def)

fun links :: "block_ptr option \<Rightarrow> layout \<Rightarrow> block_ptr option \<Rightarrow> (block_ptr \<times> block) list" where
  "links pv [] nx = []"
| "links pv (x # L) nx =
     (fst x, \<lparr>is_hole = hole x, blk_begin = bgn x, blk_prev = pv, blk_next = first_ptr L nx\<rparr>)
     # links (Some (fst x)) L nx"

lemma links_append: "links pv (A @ B) nx = links pv A (first_ptr B nx) @ links (last_ptr A pv) B nx"
  by (induction A arbitrary: pv) (auto simp: first_ptr_def split: list.splits)

lemma fst_links [simp]: "fst ` set (links pv L nx) = fst ` set L"
  by (induction L arbitrary: pv) auto

lemma links_None [simp]: "p \<notin> fst ` set L \<Longrightarrow> map_of (links pv L nx) p = None"
  by (simp add: map_of_eq_None_iff)

definition linked :: "(block_ptr \<rightharpoonup> block) \<Rightarrow> block_ptr \<Rightarrow> layout \<Rightarrow> bool" where
  "linked bm k L \<longleftrightarrow> distinct (map fst L) \<and> (\<forall>x \<in> set L. fst x < k) \<and> bm = map_of (links None L None)"

lemma linked_lookup:
  assumes "linked bm k (A @ x # B)"
  shows "bm (fst x) = Some \<lparr>is_hole = hole x, blk_begin = bgn x, blk_prev = last_ptr A None,
                            blk_next = first_ptr B None\<rparr>"
  using assms by (auto simp: linked_def links_append map_add_def)

lemma linked_update:
  assumes "linked bm k (A @ (p, hl, b) # B)"
  shows "linked (bm(p \<mapsto> \<lparr>is_hole = hl', blk_begin = b', blk_prev = last_ptr A None,
                           blk_next = first_ptr B None\<rparr>)) k (A @ (p, hl', b') # B)"
  using assms by (auto simp: linked_def links_append map_add_def fun_eq_iff split: option.splits)

lemma linked_insert:
  assumes "linked bm k (A @ x # y # B)"
  shows "linked (bm(k \<mapsto> \<lparr>is_hole = hl, blk_begin = b, blk_prev = Some (fst x), blk_next = Some (fst y)\<rparr>,
                    fst y \<mapsto> \<lparr>is_hole = hole y, blk_begin = bgn y, blk_prev = Some k, blk_next = first_ptr B None\<rparr>,
                    fst x \<mapsto> \<lparr>is_hole = hole x, blk_begin = bgn x, blk_prev = last_ptr A None, blk_next = Some k\<rparr>))
          (Suc k) (A @ x # (k, hl, b) # y # B)"
proof -
  have lt: "\<forall>x \<in> set (A @ x # y # B). fst x < k"
    using assms by (simp add: linked_def)
  then have "k \<notin> fst ` set A" "k \<notin> fst ` set B" "k \<noteq> fst x" "k \<noteq> fst y"
    by auto
  moreover have "\<forall>z \<in> set (A @ x # (k, hl, b) # y # B). fst z < Suc k"
    using lt by (auto simp: less_Suc_eq)
  ultimately show ?thesis
    using assms by (auto simp: linked_def links_append map_add_def fun_eq_iff split: option.splits)
qed

lemma linked_remove:
  assumes "linked bm k (A @ x # z # y # B)"
  shows "linked (bm(fst x \<mapsto> \<lparr>is_hole = hole x, blk_begin = bgn x, blk_prev = last_ptr A None, blk_next = Some (fst y)\<rparr>,
                    fst y \<mapsto> \<lparr>is_hole = hole y, blk_begin = bgn y, blk_prev = Some (fst x), blk_next = first_ptr B None\<rparr>,
                    fst z := None)) k (A @ x # y # B)"
  using assms by (auto simp: linked_def links_append map_add_def fun_eq_iff split: option.splits)

subsection \<open>Geometry of a layout\<close>

text \<open>The blocks partition the segment in address order, and no two holes are adjacent.\<close>

definition geometry :: "u64 \<Rightarrow> layout \<Rightarrow> bool" where
  "geometry sz L \<longleftrightarrow>
     L \<noteq> [] \<and> last L = (endpost, False, sz) \<and> bgn (hd L) = 0 \<and> unat sz < 2 ^ 63 \<and>
     sorted_wrt (\<lambda>x y. bgn x < bgn y) L \<and> successively (\<lambda>x y. \<not> (hole x \<and> hole y)) L"

fun hole_entries :: "layout \<Rightarrow> ((u64 \<times> u64) \<times> block_ptr) list" where
  "hole_entries (x # y # L) =
     (if hole x then [((bgn y - bgn x, bgn x), fst x)] else []) @ hole_entries (y # L)"
| "hole_entries L = []"

lemma hole_entries_split: "hole_entries (A @ x # B) = hole_entries (A @ [x]) @ hole_entries (x # B)"
proof (induction A)
  case (Cons a A)
  then show ?case by (cases A) auto
qed simp

lemma hole_entries_last: "bgn x = bgn y \<Longrightarrow> hole_entries (A @ [x]) = hole_entries (A @ [y])"
proof (induction A)
  case (Cons a A)
  then show ?case by (cases A) auto
qed simp

lemma hole_entries_after_hunk:
  "A \<noteq> [] \<Longrightarrow> \<not> hole (last A) \<Longrightarrow> hole_entries (A @ [x]) = hole_entries A"
proof (induction A)
  case (Cons a A)
  then show ?case by (cases A) auto
qed simp

lemma hole_entries_mem:
  "(k, p) \<in> set (hole_entries L) \<longleftrightarrow>
     (\<exists>A b y B. L = A @ (p, True, b) # y # B \<and> k = (bgn y - b, b))"
proof (induction L rule: hole_entries.induct)
  case (1 x y L)
  show ?case
  proof
    assume "(k, p) \<in> set (hole_entries (x # y # L))"
    then consider "hole x" "k = (bgn y - bgn x, bgn x)" "p = fst x"
      | "(k, p) \<in> set (hole_entries (y # L))"
      by (auto split: if_splits)
    then show "\<exists>A b y' B. x # y # L = A @ (p, True, b) # y' # B \<and> k = (bgn y' - b, b)"
    proof cases
      case 1
      then have "x # y # L = [] @ (p, True, bgn x) # y # L" by (simp add: prod_eq_iff)
      with 1 show ?thesis by blast
    next
      case 2
      with "1" obtain A b y' B where "y # L = A @ (p, True, b) # y' # B" "k = (bgn y' - b, b)"
        by blast
      then have "x # y # L = (x # A) @ (p, True, b) # y' # B" by simp
      with \<open>k = _\<close> show ?thesis by blast
    qed
  next
    assume "\<exists>A b y' B. x # y # L = A @ (p, True, b) # y' # B \<and> k = (bgn y' - b, b)"
    then obtain A b y' B where A: "x # y # L = A @ (p, True, b) # y' # B" "k = (bgn y' - b, b)"
      by blast
    show "(k, p) \<in> set (hole_entries (x # y # L))"
    proof (cases A)
      case Nil
      with A show ?thesis by auto
    next
      case (Cons a A')
      with A have "y # L = A' @ (p, True, b) # y' # B" by simp
      with "1" A(2) have "(k, p) \<in> set (hole_entries (y # L))" by blast
      then show ?thesis by simp
    qed
  qed
qed (auto simp: append_eq_Cons_conv)

definition hunk_index :: "(u64 \<rightharpoonup> block_ptr) \<Rightarrow> layout \<Rightarrow> bool" where
  "hunk_index m L \<longleftrightarrow> (\<forall>b p. m b = Some p \<longleftrightarrow> (p, False, b) \<in> set (butlast L))"

definition layout_inv :: "segment_allocator \<Rightarrow> u64 \<Rightarrow> layout \<Rightarrow> bool" where
  "layout_inv s sz L \<longleftrightarrow>
     linked (blocks s) (heap_next s) L \<and> geometry sz L \<and>
     map_wf (holes_by_size s) \<and> set (holes_by_size s) = set (hole_entries L) \<and>
     hunk_index (hunks_by_begin s) L"

definition alloc_inv :: "segment_allocator \<Rightarrow> u64 \<Rightarrow> bool" where
  "alloc_inv s sz \<longleftrightarrow> (\<exists>L. layout_inv s sz L)"

lemma take_bit_63: "unat (b :: u64) < 2 ^ 63 \<Longrightarrow> take_bit 63 b = b"
  by (simp only: word_unat_eq_iff unsigned_take_bit_eq take_bit_nat_eq_self)

lemma init_inv:
  assumes "unat sz < 2 ^ 63"
  shows "\<exists>s. segment_allocator_init base sz = Some s \<and> alloc_inv s sz \<and> seg_base s = base \<and> hunks_by_begin s = Map.empty"
proof (cases "sz = 0")
  case True
  then show ?thesis
    using assms by (auto simp: segment_allocator_init_def alloc_inv_def layout_inv_def linked_def geometry_def hunk_index_def
        map_wf_def block_new_def endpost_def intro!: exI [of _ "[(endpost, False, 0)]"])
next
  case False
  then show ?thesis
    using assms by (auto simp: segment_allocator_init_def alloc_inv_def layout_inv_def linked_def geometry_def hunk_index_def
        map_wf_def block_new_def new_block_def upd_block_def insert_hole_by_size_def endpost_def take_bit_63 word_gt_0
         fun_eq_iff
        intro!: exI [of _ "[(1, True, 0), (endpost, False, sz)]"])
qed
subsection \<open>Carving a hunk out of a hole\<close>

lemma upd_block_Some: "blocks s p = Some b \<Longrightarrow> upd_block p f s = Some (s\<lparr>blocks := (blocks s)(p \<mapsto> f b)\<rparr>)"
  by (simp add: upd_block_def)

lemma linked_distinct: "linked bm k (A @ x # y # B) \<Longrightarrow> fst x \<noteq> fst y \<and> k \<noteq> fst x \<and> k \<noteq> fst y"
  by (auto simp: linked_def)

lemma insert_after:
  fixes hl :: bool
  assumes L: "linked (blocks s) (heap_next s) (A @ x # y # B)" and b: "unat b < 2 ^ 63"
  defines "m \<equiv> heap_next s"
  defines "s1 \<equiv> snd (new_block (block_new hl b (Some (fst x)) (Some (fst y))) s)"
  shows "\<exists>s2 s3. upd_block (fst y) (\<lambda>b. b\<lparr>blk_prev := Some m\<rparr>) s1 = Some s2 \<and>
           upd_block (fst x) (\<lambda>b. b\<lparr>blk_next := Some m\<rparr>) s2 = Some s3 \<and>
           linked (blocks s3) (heap_next s3) (A @ x # (m, hl, b) # y # B) \<and>
           seg_base s3 = seg_base s \<and> holes_by_size s3 = holes_by_size s \<and> hunks_by_begin s3 = hunks_by_begin s"
proof -
  have "blocks s (fst x) = Some \<lparr>is_hole = hole x, blk_begin = bgn x, blk_prev = last_ptr A None, blk_next = Some (fst y)\<rparr>"
    using linked_lookup [OF L] by simp
  moreover have "blocks s (fst y) = Some \<lparr>is_hole = hole y, blk_begin = bgn y, blk_prev = Some (fst x), blk_next = first_ptr B None\<rparr>"
    using linked_lookup [of "blocks s" "heap_next s" "A @ [x]" y B] L by simp
  ultimately show ?thesis
    using linked_insert [OF L, of hl b] linked_distinct [OF L] b
    by (simp add: s1_def m_def new_block_def upd_block_def block_new_def take_bit_63 fun_upd_twist)
qed

lemma carve_left_spec:
  assumes L: "linked (blocks s) (heap_next s) (A @ (h, True, hb) # y # B)"
    and b: "hb \<le> mb" "unat mb < 2 ^ 63"
  shows "\<exists>m s1 Lf. carve_left h hb e mb s = Some (m, s1) \<and>
      linked (blocks s1) (heap_next s1) (A @ Lf @ (m, False, mb) # y # B) \<and>
      seg_base s1 = seg_base s \<and> hunks_by_begin s1 = hunks_by_begin s \<and>
      (Lf = [] \<and> holes_by_size s1 = holes_by_size s \<and> (mb = hb \<or> hb < mb \<and> A \<noteq> []) \<or>
       Lf = [(h, True, hb)] \<and> hb < mb \<and> holes_by_size s1 = map_insert (mb - hb, hb) h (holes_by_size s))"
proof -
  have h: "blocks s h = Some \<lparr>is_hole = True, blk_begin = hb, blk_prev = last_ptr A None, blk_next = Some (fst y)\<rparr>"
    using linked_lookup [OF L] by simp
  consider (exact) "mb = hb" | (absorb) p pb where "hb < mb" "last_ptr A None = Some p" "blocks s p = Some pb"
      "mb - hb < (e - blk_begin pb) div 16"
    | (fresh) "hb < mb" "case last_ptr A None of None \<Rightarrow> True | Some p \<Rightarrow> \<exists>pb. blocks s p = Some pb \<and> \<not> mb - hb < (e - blk_begin pb) div 16"
  proof -
    have "\<exists>pb. blocks s p = Some pb" if p: "last_ptr A None = Some p" for p
    proof -
      obtain A' x where A: "A = A' @ [x]"
        using p by (cases A rule: rev_cases) (auto simp: last_ptr_def)
      then show ?thesis
        using p L linked_lookup [of "blocks s" "heap_next s" A' x "(h, True, hb) # y # B"] by simp
    qed
    then show ?thesis
      using b(1) exact absorb fresh by (cases "last_ptr A None") (auto simp: le_less)
  qed
  then show ?thesis
  proof cases
    case exact
    then show ?thesis
      using linked_update [OF L, of False hb] h
      by (auto simp: carve_left_def upd_block_def intro!: exI [of _ "[]"])
  next
    case absorb
    then have "A \<noteq> []" by (auto simp: last_ptr_def split: if_splits)
    with absorb show ?thesis
      using linked_update [OF L, of False mb] h b
      by (auto simp: carve_left_def upd_block_def set_begin_def take_bit_63 intro!: exI [of _ "[]"])
  next
    case fresh
    obtain s2 s3 where s: "upd_block (fst y) (\<lambda>b. b\<lparr>blk_prev := Some (heap_next s)\<rparr>)
          (snd (new_block (block_new False mb (Some h) (Some (fst y))) s)) = Some s2"
        "upd_block h (\<lambda>b. b\<lparr>blk_next := Some (heap_next s)\<rparr>) s2 = Some s3"
        "linked (blocks s3) (heap_next s3) (A @ (h, True, hb) # (heap_next s, False, mb) # y # B)"
        "seg_base s3 = seg_base s" "holes_by_size s3 = holes_by_size s" "hunks_by_begin s3 = hunks_by_begin s"
      using insert_after [OF L b(2), of False] by auto
    have "blocks s3 h = Some \<lparr>is_hole = True, blk_begin = hb, blk_prev = last_ptr A None, blk_next = Some (heap_next s)\<rparr>"
      using linked_lookup [OF s(3)] by simp
    then show ?thesis
      using fresh h s
      by (auto simp: carve_left_def new_block_def insert_hole_by_size_def split: option.splits
          intro!: exI [of _ "[(h, True, hb)]"])
  qed
qed

lemma carve_right_spec:
  assumes L: "linked (blocks s) (heap_next s) (C @ (m, False, mb) # y # B)"
    and me: "unat me < 2 ^ 63"
  shows "\<exists>s1 Rt. carve_right m me e s = Some s1 \<and>
      linked (blocks s1) (heap_next s1) (C @ (m, False, mb) # Rt @ y # B) \<and>
      seg_base s1 = seg_base s \<and> hunks_by_begin s1 = hunks_by_begin s \<and>
      (Rt = [] \<and> e \<le> me \<and> holes_by_size s1 = holes_by_size s \<or>
       Rt = [(heap_next s, True, me)] \<and> me < e \<and>
         holes_by_size s1 = map_insert (e - me, me) (heap_next s) (holes_by_size s))"
proof (cases "me < e")
  case True
  obtain s2 s3 where s: "upd_block (fst y) (\<lambda>b. b\<lparr>blk_prev := Some (heap_next s)\<rparr>)
        (snd (new_block (block_new True me (Some m) (Some (fst y))) s)) = Some s2"
      "upd_block m (\<lambda>b. b\<lparr>blk_next := Some (heap_next s)\<rparr>) s2 = Some s3"
      "linked (blocks s3) (heap_next s3) (C @ (m, False, mb) # (heap_next s, True, me) # y # B)"
      "seg_base s3 = seg_base s" "holes_by_size s3 = holes_by_size s" "hunks_by_begin s3 = hunks_by_begin s"
    using insert_after [OF L me, of True] by auto
  have "blocks s3 (heap_next s) = Some \<lparr>is_hole = True, blk_begin = me, blk_prev = Some m, blk_next = Some (fst y)\<rparr>"
    using linked_lookup [of "blocks s3" "heap_next s3" "C @ [(m, False, mb)]" "(heap_next s, True, me)" "y # B"] s(3)
    by simp
  then show ?thesis
    using True s linked_lookup [OF L]
    by (auto simp: carve_right_def new_block_def insert_hole_by_size_def intro!: exI [of _ "[(heap_next s, True, me)]"])
next
  case False
  then show ?thesis using L by (auto simp: carve_right_def)
qed
lemma hole_entries_begins: "(k, p) \<in> set (hole_entries L) \<Longrightarrow> snd k \<in> bgn ` set L"
  by (auto simp: hole_entries_mem)

lemma hole_entries_begins_init: "(k, p) \<in> set (hole_entries (A @ [x])) \<Longrightarrow> snd k \<in> bgn ` set A"
proof (induction A)
  case (Cons a A)
  then show ?case by (cases A) (auto split: if_splits)
qed simp

text \<open>
  The index of holes along a layout that is cut around one hole: what lies left of it, the hole
  itself, what lies right of it.
\<close>

lemma hole_entries_around:
  "set (hole_entries (A @ x # y # B)) =
     set (hole_entries (A @ [x])) \<union> (if hole x then {((bgn y - bgn x, bgn x), fst x)} else {})
     \<union> set (hole_entries (y # B))"
  by (subst hole_entries_split) auto

lemma holes_erased:
  assumes g: "geometry sz (A @ (h, True, hb) # y # B)"
    and wf: "map_wf M" and M: "set M = set (hole_entries (A @ (h, True, hb) # y # B))"
  shows "set (map_erase (bgn y - hb, hb) M) = set (hole_entries (A @ [(h, True, hb)])) \<union> set (hole_entries (y # B))"
proof -
  have "((a, hb), p) \<notin> set (hole_entries (A @ [(h, True, hb)])) \<union> set (hole_entries (y # B))" for a p
    using g hole_entries_begins_init [of "(a, hb)" p A] hole_entries_begins [of "(a, hb)" p "y # B"]
    by (fastforce simp: geometry_def sorted_wrt_append)
  then show ?thesis
    using M by (auto simp: map_erase_def hole_entries_around)
qed

text \<open>A layout in which a hole is replaced by a hunk with an optional hole on either side.\<close>

lemma geometry_carved:
  assumes g: "geometry sz (A @ (h, True, hb) # y # B)"
    and b: "hb \<le> mb" "mb < me" "me \<le> bgn y"
    and Lf: "Lf = [] \<or> Lf = [(h, True, hb)] \<and> hb < mb" "Lf = [] \<Longrightarrow> A = [] \<Longrightarrow> mb = hb"
    and Rt: "Rt = [] \<or> Rt = [(r, True, me)] \<and> me < bgn y"
  shows "geometry sz (A @ Lf @ (m, False, mb) # Rt @ y # B)"
proof -
  have ord: "\<And>x. x \<in> set A \<Longrightarrow> bgn x < hb" "\<And>x. x \<in> set B \<Longrightarrow> bgn y < bgn x"
    and s: "sorted_wrt (\<lambda>x y. bgn x < bgn y) A" "sorted_wrt (\<lambda>x y. bgn x < bgn y) B"
    and c: "successively (\<lambda>x y. \<not> (hole x \<and> hole y)) A" "successively (\<lambda>x y. \<not> (hole x \<and> hole y)) (y # B)"
      "A \<noteq> [] \<Longrightarrow> \<not> hole (last A)" "\<not> hole y"
    and e: "last (y # B) = (endpost, False, sz)" "unat sz < 2 ^ 63" "A \<noteq> [] \<Longrightarrow> bgn (hd A) = 0" "A = [] \<Longrightarrow> hb = 0"
    using g by (auto simp: geometry_def sorted_wrt_append successively_append_iff)
  define M where "M = Lf @ (m, False, mb) # Rt"
  have M: "hb \<le> bgn z" "bgn z < bgn y" if "z \<in> set M" for z
    using that Lf(1) Rt b unfolding M_def by auto
  have sM: "sorted_wrt (\<lambda>x y. bgn x < bgn y) M"
    using Lf(1) Rt b unfolding M_def by auto
  have hy: "hb < bgn y" using b by simp
  have "bgn x < bgn z" if "x \<in> set A" "z \<in> set M \<union> set (y # B)" for x z
  proof -
    have x: "bgn x < hb" by (rule ord(1) [OF that(1)])
    from that(2) consider "z \<in> set M" | "z = y" | "z \<in> set B" by auto
    then have "hb \<le> bgn z"
      by cases (use M(1) hy ord(2) in \<open>blast intro: less_imp_le less_trans\<close>)+
    with x show ?thesis by (rule order_less_le_trans)
  qed
  moreover have "bgn x < bgn z" if "x \<in> set M" "z \<in> set (y # B)" for x z
  proof -
    have "bgn y \<le> bgn z" using that(2) ord(2) [of z] by (auto intro: less_imp_le)
    with M(2) [OF that(1)] show ?thesis by (rule order_less_le_trans)
  qed
  ultimately have "sorted_wrt (\<lambda>x y. bgn x < bgn y) (A @ M @ y # B)"
    using s ord(2) sM unfolding sorted_wrt_append by simp
  then have "sorted_wrt (\<lambda>x y. bgn x < bgn y) (A @ Lf @ (m, False, mb) # Rt @ y # B)"
    by (simp add: M_def)
  moreover have "successively (\<lambda>x y. \<not> (hole x \<and> hole y)) (A @ Lf @ (m, False, mb) # Rt @ y # B)"
    using Lf(1) Rt c by (auto simp: successively_append_iff)
  moreover have "bgn (hd (A @ Lf @ (m, False, mb) # Rt @ y # B)) = 0"
    using Lf e by (cases A) auto
  moreover have "last (A @ Lf @ (m, False, mb) # Rt @ y # B) = (endpost, False, sz)"
    using e(1) by simp
  ultimately show ?thesis
    using e(2) unfolding geometry_def by simp
qed
subsection \<open>Alignment arithmetic\<close>

text \<open>
  The aligned begin of a hunk, when the addresses of the segment and the alignment do not wrap.
\<close>

lemma align_begin_bounds:
  assumes al: "m_align = 2 ^ k" "k < 64" and w: "unat base + unat hb + 2 ^ k \<le> 2 ^ 64"
  shows "unat hb \<le> unat (align_begin base hb m_align)"
    and "unat (align_begin base hb m_align) < unat hb + 2 ^ k"
    and "unat (base + align_begin base hb m_align) mod 2 ^ k = 0"
    and "unat (base + align_begin base hb m_align) = unat base + unat (align_begin base hb m_align)"
proof -
  define x where "x = unat base + unat hb"
  define r where "r = (base + hb + m_align - 1) AND - m_align"
  have "unat (base + hb + m_align - 1) = x + 2 ^ k - 1"
  proof -
    have "word_of_nat (Suc (x + 2 ^ k - 1)) = base + hb + m_align"
      by (simp add: x_def al(1))
    then have "base + hb + m_align - 1 = word_of_nat (x + 2 ^ k - 1)"
      unfolding of_nat_Suc by (metis add_diff_cancel_left')
    then show ?thesis using w by (simp add: unat_of_nat x_def)
  qed
  then have r: "unat r = x + 2 ^ k - 1 - (x + 2 ^ k - 1) mod 2 ^ k"
    by (simp add: r_def al(1) unat_and_uminus_power)
  have b: "x \<le> unat r" "unat r < x + 2 ^ k" "unat r mod 2 ^ k = 0"
    unfolding r using align_up_bounds [of "2 ^ k" x] by simp_all
  have "base \<le> r" using b(1) by (simp add: word_le_nat_alt x_def)
  then have d: "unat (align_begin base hb m_align) = unat r - unat base"
    by (simp add: align_begin_def r_def [symmetric] unat_sub)
  have "base + align_begin base hb m_align = r"
    by (simp add: align_begin_def r_def)
  then show "unat hb \<le> unat (align_begin base hb m_align)"
    and "unat (align_begin base hb m_align) < unat hb + 2 ^ k"
    and "unat (base + align_begin base hb m_align) mod 2 ^ k = 0"
    and "unat (base + align_begin base hb m_align) = unat base + unat (align_begin base hb m_align)"
    using b d by (simp_all add: x_def)
qed
subsection \<open>One attempt of the allocator\<close>

definition carved :: "layout \<Rightarrow> u64 \<Rightarrow> u64 \<Rightarrow> layout \<Rightarrow> bool" where
  "carved L mb me L' \<longleftrightarrow>
     (\<exists>A h hb y B Lf Rt m. L = A @ (h, True, hb) # y # B \<and> L' = A @ Lf @ (m, False, mb) # Rt @ y # B \<and>
        hb \<le> mb \<and> mb < me \<and> me \<le> bgn y \<and>
        (Lf = [] \<or> Lf = [(h, True, hb)]) \<and> (Rt = [] \<and> me = bgn y \<or> (\<exists>r. Rt = [(r, True, me)] \<and> me < bgn y)))"

lemma geometry_unique_begin:
  "geometry sz L \<Longrightarrow> x \<in> set L \<Longrightarrow> y \<in> set L \<Longrightarrow> bgn x = bgn y \<Longrightarrow> x = y"
proof -
  assume g: "geometry sz L" and xy: "x \<in> set L" "y \<in> set L" "bgn x = bgn y"
  have "sorted_wrt (<) (map bgn L)" using g by (simp add: geometry_def sorted_wrt_map)
  then have "inj_on bgn (set L)" by (simp add: strict_sorted_iff distinct_map)
  from inj_onD [OF this xy(3) xy(1,2)] show "x = y" .
qed

lemma set_butlast_append_Cons: "set (butlast (A @ y # B)) = set A \<union> set (butlast (y # B))"
  by (simp add: butlast_append)

lemma hunk_index_carved:
  assumes I: "hunk_index M (A @ (h, True, hb) # y # B)"
    and g: "geometry sz (A @ Lf @ (m, False, mb) # Rt @ y # B)"
    and Lf: "Lf = [] \<or> Lf = [(h, True, hb)]" and Rt: "Rt = [] \<or> Rt = [(r, True, me)]"
  shows "hunk_index (M(mb \<mapsto> m)) (A @ Lf @ (m, False, mb) # Rt @ y # B)"
proof -
  have 1: "(p, False, b) \<in> set (butlast (A @ Lf @ (m, False, mb) # Rt @ y # B)) \<longleftrightarrow>
      (p, b) = (m, mb) \<or> (p, False, b) \<in> set A \<union> set (butlast (y # B))" for p b
    using Lf Rt by (auto simp: butlast_append)
  have 2: "(p, False, b) \<in> set (butlast (A @ (h, True, hb) # y # B)) \<longleftrightarrow>
      (p, False, b) \<in> set A \<union> set (butlast (y # B))" for p b
    by (auto simp: butlast_append)
  have 3: "p = m" if "(p, False, mb) \<in> set A \<union> set (butlast (y # B))" for p
    using geometry_unique_begin [OF g, of "(p, False, mb)" "(m, False, mb)"] that
      in_set_butlastD [of "(p, False, mb)" "y # B"] by auto
  have "(M(mb \<mapsto> m)) b = Some p \<longleftrightarrow> (p, b) = (m, mb) \<or> (p, False, b) \<in> set A \<union> set (butlast (y # B))" for b p
  proof (cases "b = mb")
    case True
    then show ?thesis using 3 [of p] by auto
  next
    case False
    then show ?thesis using I unfolding hunk_index_def 2 by simp
  qed
  then show ?thesis unfolding hunk_index_def 1 by blast
qed

lemma holes_carved:
  assumes g: "geometry sz (A @ (h, True, hb) # y # B)" and g': "geometry sz (A @ Lf @ (m, False, mb) # Rt @ y # B)"
    and wf: "map_wf M" and M: "set M = set (hole_entries (A @ (h, True, hb) # y # B))"
    and b: "hb \<le> mb" "mb < me"
    and Lf: "Lf = [] \<and> M1 = map_erase (bgn y - hb, hb) M \<and> (mb = hb \<or> hb < mb \<and> A \<noteq> []) \<or>
             Lf = [(h, True, hb)] \<and> hb < mb \<and> M1 = map_insert (mb - hb, hb) h (map_erase (bgn y - hb, hb) M)"
    and Rt: "Rt = [] \<and> M2 = M1 \<or> Rt = [(r, True, me)] \<and> me < bgn y \<and> M2 = map_insert (bgn y - me, me) r M1"
  shows "map_wf M2 \<and> set M2 = set (hole_entries (A @ Lf @ (m, False, mb) # Rt @ y # B))"
proof -
  define X where "X = set (hole_entries (A @ [(h, True, hb)])) \<union> set (hole_entries (y # B))"
  have E: "map_wf (map_erase (bgn y - hb, hb) M)" "set (map_erase (bgn y - hb, hb) M) = X"
    using holes_erased [OF g wf M] wf by (simp_all add: X_def assoc.wf_erase)
  have ord: "\<And>x. x \<in> set A \<Longrightarrow> bgn x < hb" "\<And>x. x \<in> set B \<Longrightarrow> bgn y < bgn x"
    and A: "A \<noteq> [] \<Longrightarrow> \<not> hole (last A)" and hy: "hb < bgn y"
    using g by (auto simp: geometry_def sorted_wrt_append successively_append_iff)
  have fresh: "((a, b), p) \<notin> X" if "hb \<le> b" "b < bgn y" for a b p
  proof
    assume "((a, b), p) \<in> X"
    then have "b \<in> bgn ` set A \<or> b \<in> bgn ` set (y # B)"
      using hole_entries_begins_init [of "(a, b)" p A] hole_entries_begins [of "(a, b)" p "y # B"]
      unfolding X_def by auto
    then show False using that ord by fastforce
  qed
  have M1: "map_wf M1 \<and> set M1 = X \<union> (if Lf = [] then {} else {((mb - hb, hb), h)})"
  proof -
    have "(mb - hb, hb) \<notin> fst ` set (map_erase (bgn y - hb, hb) M)"
      using E fresh [of hb] hy by auto
    from assoc.entries_insert_fresh [OF E(1) this, of h] assoc.wf_insert [OF E(1)] show ?thesis
      using Lf E by auto
  qed
  have M2: "map_wf M2 \<and> set M2 = X \<union> (if Lf = [] then {} else {((mb - hb, hb), h)})
      \<union> (if Rt = [] then {} else {((bgn y - me, me), r)})"
  proof (cases "Rt = []")
    case False
    then have me: "me < bgn y" and M2: "M2 = map_insert (bgn y - me, me) r M1" using Rt by auto
    have "(bgn y - me, me) \<notin> fst ` set M1"
      using M1 fresh [of me] me b by (auto split: if_splits)
    with M1 M2 False show ?thesis
      using assoc.entries_insert_fresh [of M1 "(bgn y - me, me)" r] assoc.wf_insert [of M1] by auto
  qed (use Rt M1 in auto)
  have HA: "hole_entries (A @ [(m, False, mb)]) = hole_entries (A @ [(h, True, hb)])" if "Lf = []"
    using that Lf A hole_entries_last [of "(m, False, mb)" "(h, True, hb)" A]
    by (auto simp: hole_entries_after_hunk)
  have "set (hole_entries (A @ Lf @ (m, False, mb) # Rt @ y # B)) = X \<union> (if Lf = [] then {} else {((mb - hb, hb), h)})
      \<union> (if Rt = [] then {} else {((bgn y - me, me), r)})"
    using Lf Rt HA hole_entries_around [of A "(m, False, mb)" y B] hole_entries_around [of A "(m, False, mb)" "(r, True, me)" "y # B"]
      hole_entries_around [of A "(h, True, hb)" "(m, False, mb)" "Rt @ y # B"]
    by (auto simp: X_def)
  with M2 show ?thesis by simp
qed

lemma lex_le_fst: "(a :: u64, b :: u64) \<le> (c, d) \<Longrightarrow> a \<le> c"
  by (auto simp: less_eq_prod_def intro: less_imp_le)

lemma geometry_bound: "geometry sz (A @ x # y # B) \<Longrightarrow> bgn x < bgn y \<and> bgn y \<le> sz"
proof -
  assume g: "geometry sz (A @ x # y # B)"
  then have "bgn x < bgn y" by (auto simp: geometry_def sorted_wrt_append)
  moreover have "bgn y \<le> sz"
  proof (cases "B = []")
    case False
    then have "last B \<in> set B" by simp
    moreover have "bgn (last B) = sz" using g False by (simp add: geometry_def)
    moreover have "\<forall>z \<in> set B. bgn y < bgn z" using g by (simp add: geometry_def sorted_wrt_append)
    ultimately show ?thesis by (auto intro: less_imp_le)
  qed (use g in \<open>auto simp: geometry_def\<close>)
  ultimately show ?thesis by simp
qed

definition fits_request :: "segment_allocator \<Rightarrow> u64 \<Rightarrow> nat \<Rightarrow> bool" where
  "fits_request s sz k \<longleftrightarrow> k < 64 \<and> unat (seg_base s) + unat sz + 2 ^ k \<le> 2 ^ 64"

text \<open>
  The arithmetic of one attempt: where the hunk lies in the hole it is carved from, and that
  its end does not wrap.
\<close>

lemma attempt_arith:
  assumes r: "fits_request s sz k" and y: "hb < y" "y \<le> sz" and m: "m_size \<le> y - hb"
  defines "mb \<equiv> align_begin (seg_base s) hb (2 ^ k)"
  shows "hb \<le> mb" "unat (mb + m_size) = unat mb + unat m_size" "unat mb < unat hb + 2 ^ k"
    "unat (seg_base s + mb) mod 2 ^ k = 0" "unat (seg_base s + mb) = unat (seg_base s) + unat mb"
proof -
  have k: "k < 64" and w: "unat (seg_base s) + unat hb + 2 ^ k \<le> 2 ^ 64" and w2: "unat sz + 2 ^ k \<le> 2 ^ 64"
    and un: "unat hb < unat y" "unat y \<le> unat sz"
    using r y by (simp_all add: fits_request_def word_less_nat_alt word_le_nat_alt)
  note a = align_begin_bounds [OF refl k w]
  show "hb \<le> mb" using a(1) by (simp add: mb_def word_le_nat_alt)
  show u: "unat mb < unat hb + 2 ^ k" using a(2) by (simp add: mb_def)
  have "unat m_size \<le> unat y - unat hb"
    using m unat_sub [OF less_imp_le [OF y(1)]] by (simp add: word_le_nat_alt)
  with u un w2 show "unat (mb + m_size) = unat mb + unat m_size"
    by (intro unat_add_no_wrap) simp
  show "unat (seg_base s + mb) mod 2 ^ k = 0" "unat (seg_base s + mb) = unat (seg_base s) + unat mb"
    using a(3,4) by (simp_all add: mb_def)
qed

lemma carve_hole:
  assumes inv: "layout_inv s sz L" and L: "L = A @ (h, True, hb) # y # B"
    and b: "hb \<le> mb" "mb < me" "me \<le> bgn y"
  shows "\<exists>m' s1 s3 L'. carve_left h hb (bgn y) mb (erase_hole (bgn y - hb, hb) s) = Some (m', s1) \<and>
    carve_right m' me (bgn y) (s1\<lparr>hunks_by_begin := (hunks_by_begin s1)(mb \<mapsto> m')\<rparr>) = Some s3 \<and>
    layout_inv s3 sz L' \<and> carved L mb me L' \<and> seg_base s3 = seg_base s \<and>
    hunks_by_begin s mb = None \<and> dom (hunks_by_begin s3) = insert mb (dom (hunks_by_begin s))"
proof -
  have i: "linked (blocks s) (heap_next s) L" "geometry sz L" "map_wf (holes_by_size s)"
      "set (holes_by_size s) = set (hole_entries L)" "hunk_index (hunks_by_begin s) L"
    using inv by (simp_all add: layout_inv_def)
  have y: "hb < bgn y" "bgn y \<le> sz" using geometry_bound i(2) L by fastforce+
  have lim: "unat me < 2 ^ 63" "unat mb < 2 ^ 63"
    using y i(2) b by (auto simp: geometry_def word_less_nat_alt word_le_nat_alt)
  define s0 where "s0 = erase_hole (bgn y - hb, hb) s"
  have s0: "linked (blocks s0) (heap_next s0) (A @ (h, True, hb) # y # B)" "seg_base s0 = seg_base s"
      "hunks_by_begin s0 = hunks_by_begin s" "holes_by_size s0 = map_erase (bgn y - hb, hb) (holes_by_size s)"
    using i(1) L by (simp_all add: s0_def erase_hole_def)
  obtain m' s1 Lf where c1: "carve_left h hb (bgn y) mb s0 = Some (m', s1)"
      "linked (blocks s1) (heap_next s1) (A @ Lf @ (m', False, mb) # y # B)"
      "seg_base s1 = seg_base s0" "hunks_by_begin s1 = hunks_by_begin s0"
      "Lf = [] \<and> holes_by_size s1 = holes_by_size s0 \<and> (mb = hb \<or> hb < mb \<and> A \<noteq> []) \<or>
       Lf = [(h, True, hb)] \<and> hb < mb \<and> holes_by_size s1 = map_insert (mb - hb, hb) h (holes_by_size s0)"
    using carve_left_spec [OF s0(1) b(1) lim(2), of "bgn y"] by blast
  define s2 where "s2 = s1\<lparr>hunks_by_begin := (hunks_by_begin s1)(mb \<mapsto> m')\<rparr>"
  have "linked (blocks s2) (heap_next s2) ((A @ Lf) @ (m', False, mb) # y # B)"
    using c1(2) by (simp add: s2_def)
  from carve_right_spec [OF this lim(1), of "bgn y"] obtain s3 Rt where c2: "carve_right m' me (bgn y) s2 = Some s3"
      "linked (blocks s3) (heap_next s3) (A @ Lf @ (m', False, mb) # Rt @ y # B)"
      "seg_base s3 = seg_base s2" "hunks_by_begin s3 = hunks_by_begin s2"
      "Rt = [] \<and> bgn y \<le> me \<and> holes_by_size s3 = holes_by_size s2 \<or>
       Rt = [(heap_next s2, True, me)] \<and> me < bgn y \<and>
         holes_by_size s3 = map_insert (bgn y - me, me) (heap_next s2) (holes_by_size s2)"
    by auto
  define L' where "L' = A @ Lf @ (m', False, mb) # Rt @ y # B"
  have g: "geometry sz L'"
    unfolding L'_def by (rule geometry_carved [OF i(2) [unfolded L] b(1) b(2) b(3), of Lf Rt "heap_next s2"])
      (use c1(5) c2(5) in auto)
  have h: "map_wf (holes_by_size s3) \<and> set (holes_by_size s3) = set (hole_entries L')"
    unfolding L'_def
    by (rule holes_carved [OF i(2) [unfolded L] g [unfolded L'_def] i(3) i(4) [unfolded L] b(1) b(2),
          of "holes_by_size s1" _ "heap_next s2"])
      (use c1(5) c2(5) s0(4) in \<open>auto simp: s2_def\<close>)
  have hi: "hunk_index (hunks_by_begin s3) L'"
    using hunk_index_carved [OF i(5) [unfolded L] g [unfolded L'_def]] c1(4,5) c2(4,5) s0(3)
    by (auto simp: L'_def s2_def)
  have lf: "Lf = [] \<or> Lf = [(h, True, hb)]" using c1(5) by blast
  have rt: "Rt = [] \<and> me = bgn y \<or> Rt = [(heap_next s2, True, me)] \<and> me < bgn y" using c2(5) b(3) by auto
  have "carved L mb me L'"
    unfolding carved_def using L L'_def b lf rt by blast
  moreover have "layout_inv s3 sz L'"
    using c2(2) g h hi by (simp add: layout_inv_def L'_def)
  moreover have "hunks_by_begin s mb = None"
  proof (rule ccontr)
    assume "hunks_by_begin s mb \<noteq> None"
    then obtain p where "(p, False, mb) \<in> set (butlast L)" using i(5) by (auto simp: hunk_index_def)
    then have "(p, False, mb) \<in> set A \<or> (p, False, mb) \<in> set (y # B)"
      using L by (auto simp: butlast_append dest: in_set_butlastD split: if_splits)
    moreover have "mb < bgn y" using b(2) b(3) by simp
    ultimately show False using b(1) i(2) L by (fastforce simp: geometry_def sorted_wrt_append)
  qed
  ultimately show ?thesis
    using c1(1,3,4) c2(1,3,4) s0(2,3)
    by (intro exI [of _ m'] exI [of _ s1] exI [of _ s3] exI [of _ L']) (simp add: s0_def s2_def)
qed

lemma try_hole_found:
  assumes inv: "layout_inv s sz L" and r: "fits_request s sz k" and m: "0 < m_size" "m_size \<le> padded"
    and lb: "map_lower_bound (padded, 0) (holes_by_size s) = Some (key, h)"
  shows "\<exists>hb y A B. L = A @ (h, True, hb) # y # B \<and> key = (bgn y - hb, hb) \<and> padded \<le> bgn y - hb \<and>
    (let mb = align_begin (seg_base s) hb (2 ^ k); me = mb + m_size in
     if me \<le> bgn y
     then \<exists>s' L'. try_hole s m_size (2 ^ k) padded = Some (Fit (seg_base s + mb) s') \<and>
            layout_inv s' sz L' \<and> carved L mb me L' \<and> seg_base s' = seg_base s \<and>
            hunks_by_begin s mb = None \<and> dom (hunks_by_begin s') = insert mb (dom (hunks_by_begin s))
     else try_hole s m_size (2 ^ k) padded = Some Unfit)"
proof -
  have i: "linked (blocks s) (heap_next s) L" "geometry sz L" "map_wf (holes_by_size s)"
      "set (holes_by_size s) = set (hole_entries L)" "hunk_index (hunks_by_begin s) L"
    using inv by (simp_all add: layout_inv_def)
  have "(key, h) \<in> set (hole_entries L)" "(padded, 0) \<le> key"
    using assoc.lower_Some [OF i(3) lb] i(4) by auto
  then obtain A hb y B where L: "L = A @ (h, True, hb) # y # B" and key: "key = (bgn y - hb, hb)"
    by (auto simp: hole_entries_mem)
  have pd: "padded \<le> bgn y - hb" using \<open>_ \<le> key\<close> key lex_le_fst by blast
  have y: "hb < bgn y" "bgn y \<le> sz" using geometry_bound i(2) L by fastforce+
  define mb where "mb = align_begin (seg_base s) hb (2 ^ k)"
  define me where "me = mb + m_size"
  note ar = attempt_arith [OF r y order_trans [OF m(2) pd], folded mb_def me_def]
  have lk: "blocks s h = Some \<lparr>is_hole = True, blk_begin = hb, blk_prev = last_ptr A None, blk_next = Some (fst y)\<rparr>"
      "blocks s (fst y) = Some \<lparr>is_hole = hole y, blk_begin = bgn y, blk_prev = Some h, blk_next = first_ptr B None\<rparr>"
    using linked_lookup [OF i(1) [unfolded L]] linked_lookup [of "blocks s" "heap_next s" "A @ [(h, True, hb)]" y B] i(1) L
    by simp_all
  have "if me \<le> bgn y
     then \<exists>s' L'. try_hole s m_size (2 ^ k) padded = Some (Fit (seg_base s + mb) s') \<and>
            layout_inv s' sz L' \<and> carved L mb me L' \<and> seg_base s' = seg_base s \<and>
            hunks_by_begin s mb = None \<and> dom (hunks_by_begin s') = insert mb (dom (hunks_by_begin s))
     else try_hole s m_size (2 ^ k) padded = Some Unfit"
  proof (cases "me \<le> bgn y")
    case False
    then show ?thesis using lb lk by (simp add: try_hole_def mb_def me_def)
  next
    case True
    have mbe: "mb < me" using ar(2) m(1) by (simp add: word_less_nat_alt word_gt_0 me_def unat_gt_0)
    have lim: "unat me < 2 ^ 63" "unat mb < 2 ^ 63"
      using True y i(2) mbe by (auto simp: geometry_def word_less_nat_alt word_le_nat_alt)
    from carve_hole [OF inv L ar(1) mbe True] obtain m' s1 s3 L' where
      c: "carve_left h hb (bgn y) mb (erase_hole (bgn y - hb, hb) s) = Some (m', s1)"
        "carve_right m' me (bgn y) (s1\<lparr>hunks_by_begin := (hunks_by_begin s1)(mb \<mapsto> m')\<rparr>) = Some s3"
      and r: "layout_inv s3 sz L'" "carved L mb me L'" "seg_base s3 = seg_base s" "hunks_by_begin s mb = None"
        "dom (hunks_by_begin s3) = insert mb (dom (hunks_by_begin s))"
      by blast
    have "try_hole s m_size (2 ^ k) padded = Some (Fit (seg_base s + mb) s3)"
      using True lb lk c r(3) key
      by (simp add: try_hole_def mb_def [symmetric] me_def [symmetric])
    with True r show ?thesis by auto
  qed
  with L key pd show ?thesis unfolding mb_def me_def Let_def by blast
qed

subsection \<open>Fusing a freed hunk with its neighbours\<close>

text \<open>What holds between the two fusions: everything but the absence of adjacent holes.\<close>

definition ordered_layout :: "u64 \<Rightarrow> layout \<Rightarrow> bool" where
  "ordered_layout sz L \<longleftrightarrow>
     L \<noteq> [] \<and> last L = (endpost, False, sz) \<and> bgn (hd L) = 0 \<and> unat sz < 2 ^ 63 \<and>
     sorted_wrt (\<lambda>x y. bgn x < bgn y) L"

abbreviation no_hole_pair :: "layout \<Rightarrow> bool" where
  "no_hole_pair L \<equiv> successively (\<lambda>x y. \<not> (hole x \<and> hole y)) L"

lemma geometry_iff: "geometry sz L \<longleftrightarrow> ordered_layout sz L \<and> no_hole_pair L"
  by (auto simp: geometry_def ordered_layout_def)

lemma ordered_remove:
  assumes "ordered_layout sz (A @ x # z # y # B)"
  shows "ordered_layout sz (A @ x # y # B)"
proof -
  have "hd (A @ x # y # B) = hd (A @ x # z # y # B)" by (cases A) simp_all
  moreover have "sorted_wrt (\<lambda>x y. bgn x < bgn y) (A @ x # y # B)"
    using assms by (simp add: ordered_layout_def sorted_wrt_append)
  ultimately show ?thesis using assms by (simp add: ordered_layout_def)
qed

lemma ordered_reflag:
  assumes "ordered_layout sz (A @ (p, f, b) # y # B)"
  shows "ordered_layout sz (A @ (p, f', b) # y # B)"
proof -
  have "bgn (hd (A @ (p, f', b) # y # B)) = bgn (hd (A @ (p, f, b) # y # B))" by (cases A) simp_all
  moreover have "sorted_wrt (\<lambda>x y. bgn x < bgn y) (A @ (p, f', b) # y # B)"
    using assms by (simp add: ordered_layout_def sorted_wrt_append)
  ultimately show ?thesis using assms by (simp add: ordered_layout_def)
qed

lemma unlink_block:
  assumes L: "linked (blocks s) (heap_next s) (A @ x # z # y # B)"
  shows "\<exists>s1 s2. upd_block (fst x) (\<lambda>b. b\<lparr>blk_next := Some (fst y)\<rparr>) s = Some s1 \<and>
      upd_block (fst y) (\<lambda>b. b\<lparr>blk_prev := Some (fst x)\<rparr>) s1 = Some s2 \<and>
      blocks s2 (fst x) = Some \<lparr>is_hole = hole x, blk_begin = bgn x, blk_prev = last_ptr A None, blk_next = Some (fst y)\<rparr> \<and>
      linked ((blocks s2)(fst z := None)) (heap_next s2) (A @ x # y # B) \<and>
      seg_base s2 = seg_base s \<and> holes_by_size s2 = holes_by_size s \<and> hunks_by_begin s2 = hunks_by_begin s"
proof -
  have "blocks s (fst x) = Some \<lparr>is_hole = hole x, blk_begin = bgn x, blk_prev = last_ptr A None, blk_next = Some (fst z)\<rparr>"
    using linked_lookup [OF L] by simp
  moreover have "blocks s (fst y) = Some \<lparr>is_hole = hole y, blk_begin = bgn y, blk_prev = Some (fst z), blk_next = first_ptr B None\<rparr>"
    using linked_lookup [of "blocks s" "heap_next s" "A @ [x, z]" y B] L by (simp add: last_ptr_def)
  moreover have "fst x \<noteq> fst y" using L by (auto simp: linked_def)
  ultimately show ?thesis
    using linked_remove [OF L] by (simp add: upd_block_def)
qed

lemma fuse_left_hole:
  assumes L: "linked (blocks s) (heap_next s) (A @ (lh, True, lb) # (m, False, mb) # y # B)"
  shows "\<exists>s1. fuse_left m mb (bgn y) s = Some (lh, lb, s1) \<and>
      linked (blocks s1) (heap_next s1) (A @ (lh, True, lb) # y # B) \<and>
      seg_base s1 = seg_base s \<and> hunks_by_begin s1 = hunks_by_begin s \<and>
      holes_by_size s1 = map_insert (bgn y - lb, lb) lh (map_erase (mb - lb, lb) (holes_by_size s))"
proof -
  have m: "blocks s m = Some \<lparr>is_hole = False, blk_begin = mb, blk_prev = Some lh, blk_next = Some (fst y)\<rparr>"
    using linked_lookup [of "blocks s" "heap_next s" "A @ [(lh, True, lb)]" "(m, False, mb)" "y # B"] L by simp
  have lh: "\<exists>b. blocks s lh = Some b \<and> is_hole b" using linked_lookup [OF L] by simp
  obtain s1 s2 where u: "upd_block lh (\<lambda>b. b\<lparr>blk_next := Some (fst y)\<rparr>) s = Some s1"
      "upd_block (fst y) (\<lambda>b. b\<lparr>blk_prev := Some lh\<rparr>) s1 = Some s2"
      "blocks s2 lh = Some \<lparr>is_hole = True, blk_begin = lb, blk_prev = last_ptr A None, blk_next = Some (fst y)\<rparr>"
      "linked ((blocks s2)(m := None)) (heap_next s2) (A @ (lh, True, lb) # y # B)"
      "seg_base s2 = seg_base s" "holes_by_size s2 = holes_by_size s" "hunks_by_begin s2 = hunks_by_begin s"
    using unlink_block [OF L] by auto
  show ?thesis
    using m lh u by (auto simp: fuse_left_def erase_hole_def insert_hole_by_size_def delete_block_def)
qed

lemma fuse_left_none:
  assumes L: "linked (blocks s) (heap_next s) (A @ (m, False, mb) # y # B)" and A: "A = [] \<or> \<not> hole (last A)"
  shows "\<exists>s1. fuse_left m mb (bgn y) s = Some (m, mb, s1) \<and>
      linked (blocks s1) (heap_next s1) (A @ (m, True, mb) # y # B) \<and>
      seg_base s1 = seg_base s \<and> hunks_by_begin s1 = hunks_by_begin s \<and>
      holes_by_size s1 = map_insert (bgn y - mb, mb) m (holes_by_size s)"
proof -
  have m: "blocks s m = Some \<lparr>is_hole = False, blk_begin = mb, blk_prev = last_ptr A None, blk_next = Some (fst y)\<rparr>"
    using linked_lookup [OF L] by simp
  have "case last_ptr A None of None \<Rightarrow> True | Some p \<Rightarrow> \<exists>pb. blocks s p = Some pb \<and> \<not> is_hole pb"
  proof (cases A rule: rev_cases)
    case (snoc A' x)
    then show ?thesis
      using A L linked_lookup [of "blocks s" "heap_next s" A' x "(m, False, mb) # y # B"] by simp
  qed simp
  then show ?thesis
    using m linked_update [OF L, of True mb]
    by (auto simp: fuse_left_def upd_block_def insert_hole_by_size_def split: option.splits)
qed

lemma fuse_right_hole:
  assumes L: "linked (blocks s) (heap_next s) (A @ (m, True, mb) # (r, True, rb) # n # B)"
  shows "\<exists>s1. fuse_right m mb s = Some s1 \<and>
      linked (blocks s1) (heap_next s1) (A @ (m, True, mb) # n # B) \<and>
      seg_base s1 = seg_base s \<and> hunks_by_begin s1 = hunks_by_begin s \<and>
      holes_by_size s1 = map_insert (bgn n - mb, mb) m
        (map_erase (rb - mb, mb) (map_erase (bgn n - rb, rb) (holes_by_size s)))"
proof -
  have m: "blocks s m = Some \<lparr>is_hole = True, blk_begin = mb, blk_prev = last_ptr A None, blk_next = Some r\<rparr>"
    using linked_lookup [OF L] by simp
  have r: "blocks s r = Some \<lparr>is_hole = True, blk_begin = rb, blk_prev = Some m, blk_next = Some (fst n)\<rparr>"
    using linked_lookup [of "blocks s" "heap_next s" "A @ [(m, True, mb)]" "(r, True, rb)" "n # B"] L by simp
  have n: "blocks s (fst n) = Some \<lparr>is_hole = hole n, blk_begin = bgn n, blk_prev = Some r, blk_next = first_ptr B None\<rparr>"
    using linked_lookup [of "blocks s" "heap_next s" "A @ [(m, True, mb), (r, True, rb)]" n B] L by (simp add: last_ptr_def)
  obtain s1 s2 where u: "upd_block m (\<lambda>b. b\<lparr>blk_next := Some (fst n)\<rparr>) s = Some s1"
      "upd_block (fst n) (\<lambda>b. b\<lparr>blk_prev := Some m\<rparr>) s1 = Some s2"
      "blocks s2 m = Some \<lparr>is_hole = True, blk_begin = mb, blk_prev = last_ptr A None, blk_next = Some (fst n)\<rparr>"
      "linked ((blocks s2)(r := None)) (heap_next s2) (A @ (m, True, mb) # n # B)"
      "seg_base s2 = seg_base s" "holes_by_size s2 = holes_by_size s" "hunks_by_begin s2 = hunks_by_begin s"
    using unlink_block [OF L] by auto
  show ?thesis
    using m r n u by (auto simp: fuse_right_def erase_hole_def insert_hole_by_size_def delete_block_def Let_def)
qed

lemma fuse_right_none:
  assumes L: "linked (blocks s) (heap_next s) (A @ (m, True, mb) # y # B)" and "\<not> hole y"
  shows "fuse_right m mb s = Some s"
  using linked_lookup [OF L] linked_lookup [of "blocks s" "heap_next s" "A @ [(m, True, mb)]" y B] assms
  by (simp add: fuse_right_def)

text \<open>Replacing the index entry of a hole by one of another size.\<close>

lemma index_rekey:
  assumes wf: "map_wf M" and M: "set M = insert ((a, b), p) X" and X: "\<And>c q. ((c, b), q) \<notin> X"
  shows "map_wf (map_insert (a', b) p (map_erase (a, b) M)) \<and>
    set (map_insert (a', b) p (map_erase (a, b) M)) = insert ((a', b), p) X"
proof -
  have "set (map_erase (a, b) M) = X"
    using M X by (auto simp: map_erase_def)
  moreover have "map_wf (map_erase (a, b) M)" using wf by (rule assoc.wf_erase)
  moreover have "(a', b) \<notin> fst ` X" using X by auto
  ultimately show ?thesis
    using assoc.entries_insert_fresh [of "map_erase (a, b) M" "(a', b)" p] assoc.wf_insert by fastforce
qed

lemma index_insert:
  assumes wf: "map_wf M" and X: "\<And>c q. ((c, b), q) \<notin> set M"
  shows "map_wf (map_insert (a', b) p M) \<and> set (map_insert (a', b) p M) = insert ((a', b), p) (set M)"
proof -
  have "(a', b) \<notin> fst ` set M" using X by auto
  then show ?thesis
    using wf assoc.entries_insert_fresh [of M "(a', b)" p] assoc.wf_insert by fastforce
qed

text \<open>No entry left or right of a block has the block's begin.\<close>

lemma no_entry_at:
  assumes o: "ordered_layout sz (A @ x # B)"
  shows "((c, bgn x), q) \<notin> set (hole_entries (A @ [x'])) \<union> set (hole_entries B)"
proof
  assume "((c, bgn x), q) \<in> set (hole_entries (A @ [x'])) \<union> set (hole_entries B)"
  then have "bgn x \<in> bgn ` set A \<or> bgn x \<in> bgn ` set B"
    using hole_entries_begins_init [of "(c, bgn x)" q A x'] hole_entries_begins [of "(c, bgn x)" q B] by auto
  then show False using o by (fastforce simp: ordered_layout_def sorted_wrt_append)
qed
subsection \<open>The extents of the hunks\<close>

fun spans :: "layout \<Rightarrow> (block_ptr \<times> bool \<times> u64 \<times> u64) list" where
  "spans (x # y # L) = (fst x, hole x, bgn x, bgn y) # spans (y # L)"
| "spans L = []"

lemma spans_split: "spans (A @ x # B) = spans (A @ [x]) @ spans (x # B)"
proof (induction A)
  case (Cons a A)
  then show ?case by (cases A) auto
qed simp

lemma spans_last: "bgn x = bgn y \<Longrightarrow> spans (A @ [x]) = spans (A @ [y])"
proof (induction A)
  case (Cons a A)
  then show ?case by (cases A) auto
qed simp

lemma spans_mem: "(p, hl, b, e) \<in> set (spans L) \<longleftrightarrow> (\<exists>A y B. L = A @ (p, hl, b) # y # B \<and> e = bgn y)"
proof (induction L rule: spans.induct)
  case (1 x y L)
  have "(\<exists>A y' B. x # y # L = A @ (p, hl, b) # y' # B \<and> e = bgn y') \<longleftrightarrow>
      (p, hl, b, e) = (fst x, hole x, bgn x, bgn y) \<or> (\<exists>A y' B. y # L = A @ (p, hl, b) # y' # B \<and> e = bgn y')"
    (is "?l \<longleftrightarrow> ?r")
  proof
    assume ?l
    then obtain A y' B where "x # y # L = A @ (p, hl, b) # y' # B" "e = bgn y'" by blast
    then show ?r
    proof (cases A)
      case Nil
      then show ?thesis using \<open>x # y # L = _\<close> \<open>e = _\<close> by simp
    next
      case (Cons a A')
      then have "y # L = A' @ (p, hl, b) # y' # B \<and> e = bgn y'"
        using \<open>x # y # L = _\<close> \<open>e = _\<close> by simp
      then show ?thesis by blast
    qed
  next
    assume ?r
    then show ?l
    proof
      assume "(p, hl, b, e) = (fst x, hole x, bgn x, bgn y)"
      then have "x # y # L = [] @ (p, hl, b) # y # L \<and> e = bgn y" by simp
      then show ?l by blast
    next
      assume "\<exists>A y' B. y # L = A @ (p, hl, b) # y' # B \<and> e = bgn y'"
      then obtain A y' B where "x # y # L = (x # A) @ (p, hl, b) # y' # B" "e = bgn y'" by auto
      then show ?l by blast
    qed
  qed
  with "1" show ?case by auto
qed (auto simp: append_eq_Cons_conv)

definition extent :: "layout \<Rightarrow> u64 \<Rightarrow> u64 \<Rightarrow> bool" where
  "extent L b e \<longleftrightarrow> (\<exists>p. (p, False, b, e) \<in> set (spans L))"

lemma extent_around:
  "extent (A @ x # y # B) b e \<longleftrightarrow>
     extent (A @ [x]) b e \<or> (\<not> hole x \<and> b = bgn x \<and> e = bgn y) \<or> extent (y # B) b e"
  unfolding extent_def by (subst spans_split) auto

lemma extent_last: "bgn x = bgn y \<Longrightarrow> extent (A @ [x]) = extent (A @ [y])"
  using spans_last [of x y A] by (simp add: extent_def fun_eq_iff)

definition hunk_end :: "segment_allocator \<Rightarrow> u64 \<Rightarrow> u64 option" where
  "hunk_end s b =
     do { m \<leftarrow> hunks_by_begin s b; mb \<leftarrow> blocks s m; n \<leftarrow> blk_next mb; nb \<leftarrow> blocks s n; Some (blk_begin nb) }"

lemma in_butlast_split: "x \<in> set (butlast L) \<longleftrightarrow> (\<exists>A y B. L = A @ x # y # B)"
proof
  assume "x \<in> set (butlast L)"
  then obtain A B where "butlast L = A @ x # B" by (auto simp: in_set_conv_decomp)
  moreover have "L = butlast L @ [last L]" using \<open>x \<in> set (butlast L)\<close> by (cases L) auto
  ultimately have "L = A @ x # (B @ [last L])" by simp
  then show "\<exists>A y B. L = A @ x # y # B" by (cases B) auto
qed (auto simp: butlast_append)

lemma hunk_end_extent:
  assumes inv: "layout_inv s sz L"
  shows "hunk_end s b = Some e \<longleftrightarrow> extent L b e"
proof -
  have i: "linked (blocks s) (heap_next s) L" "geometry sz L" "hunk_index (hunks_by_begin s) L"
    using inv by (simp_all add: layout_inv_def)
  have ends: "hunk_end s b = Some (bgn y)" if L: "L = A @ (p, False, b) # y # B" for A p y B
  proof -
    have "hunks_by_begin s b = Some p"
      using i(3) L unfolding hunk_index_def in_butlast_split by blast
    then show ?thesis
      using linked_lookup [OF i(1) [unfolded L]] linked_lookup [of "blocks s" "heap_next s" "A @ [(p, False, b)]" y B] i(1) L
      by (simp add: hunk_end_def)
  qed
  show ?thesis
  proof
    assume h: "hunk_end s b = Some e"
    then obtain p where "hunks_by_begin s b = Some p"
      by (auto simp: hunk_end_def Option.bind_eq_Some_conv)
    then obtain A y B where L: "L = A @ (p, False, b) # y # B"
      using i(3) by (auto simp: hunk_index_def in_butlast_split)
    with ends [OF L] h have "e = bgn y" by simp
    with L show "extent L b e" unfolding extent_def spans_mem by blast
  next
    assume "extent L b e"
    then show "hunk_end s b = Some e" using ends by (auto simp: extent_def spans_mem)
  qed
qed

lemma dom_hunk_end: "layout_inv s sz L \<Longrightarrow> b \<in> dom (hunks_by_begin s) \<longleftrightarrow> (\<exists>e. extent L b e)"
  by (force simp: layout_inv_def hunk_index_def in_butlast_split extent_def spans_mem dom_def)

text \<open>Hunks lie in the segment and do not overlap.\<close>

lemma extent_bounds: "geometry sz L \<Longrightarrow> extent L b e \<Longrightarrow> b < e \<and> e \<le> sz"
  using geometry_bound by (fastforce simp: extent_def spans_mem)

lemma extent_disjoint:
  assumes g: "geometry sz L" and "extent L b e" "extent L b' e'" "b < b'"
  shows "e \<le> b'"
proof -
  obtain A p y B where L: "L = A @ (p, False, b) # y # B" "e = bgn y"
    using assms(2) by (auto simp: extent_def spans_mem)
  obtain p' A' y' B' where "L = A' @ (p', False, b') # y' # B'"
    using assms(3) unfolding extent_def spans_mem by blast
  then have "(p', False, b') \<in> set L" by simp
  then consider "(p', False, b') \<in> set A" | "b' = b" | "b' = bgn y" | "(p', False, b') \<in> set B"
    using L by auto
  then show ?thesis
    using g L assms(4) by cases (auto simp: geometry_def sorted_wrt_append intro: less_imp_le)
qed
subsection \<open>Deallocation keeps the invariant\<close>

lemma fuse_left_step:
  assumes L: "linked (blocks s) (heap_next s) (A @ (m, False, mb) # y # B)"
    and g: "geometry sz (A @ (m, False, mb) # y # B)"
    and h: "map_wf (holes_by_size s)" "set (holes_by_size s) = set (hole_entries (A @ (m, False, mb) # y # B))"
  shows "\<exists>p pb s1 C. fuse_left m mb (bgn y) s = Some (p, pb, s1) \<and>
     linked (blocks s1) (heap_next s1) (C @ (p, True, pb) # y # B) \<and>
     ordered_layout sz (C @ (p, True, pb) # y # B) \<and> no_hole_pair (C @ [(p, True, pb)]) \<and> no_hole_pair (y # B) \<and>
     map_wf (holes_by_size s1) \<and> set (holes_by_size s1) = set (hole_entries (C @ (p, True, pb) # y # B)) \<and>
     seg_base s1 = seg_base s \<and> hunks_by_begin s1 = hunks_by_begin s \<and>
     (A = C \<and> (p, pb) = (m, mb) \<or> A = C @ [(p, True, pb)])"
proof (cases "A \<noteq> [] \<and> hole (last A)")
  case True
  then obtain C lh lb where A: "A = C @ [(lh, True, lb)]"
    by (cases A rule: rev_cases) (auto simp: prod_eq_iff)
  obtain s1 where s1: "fuse_left m mb (bgn y) s = Some (lh, lb, s1)"
      "linked (blocks s1) (heap_next s1) (C @ (lh, True, lb) # y # B)"
      "seg_base s1 = seg_base s" "hunks_by_begin s1 = hunks_by_begin s"
      "holes_by_size s1 = map_insert (bgn y - lb, lb) lh (map_erase (mb - lb, lb) (holes_by_size s))"
    using fuse_left_hole [of s C lh lb m mb y B] L A by auto
  have o: "ordered_layout sz (C @ (lh, True, lb) # y # B)"
    using g A ordered_remove [of sz C "(lh, True, lb)" "(m, False, mb)" y B] by (simp add: geometry_iff)
  let ?X = "set (hole_entries (C @ [(lh, True, lb)])) \<union> set (hole_entries (y # B))"
  have "set (holes_by_size s) = insert ((mb - lb, lb), lh) ?X"
    using h(2) A hole_entries_around [of C "(lh, True, lb)" "(m, False, mb)" "y # B"] by auto
  moreover have "((c, lb), q) \<notin> ?X" for c q
    using no_entry_at [OF o] by simp
  ultimately have "map_wf (holes_by_size s1) \<and> set (holes_by_size s1) = insert ((bgn y - lb, lb), lh) ?X"
    unfolding s1(5) by (intro index_rekey [OF h(1)])
  then have "map_wf (holes_by_size s1) \<and> set (holes_by_size s1) = set (hole_entries (C @ (lh, True, lb) # y # B))"
    using hole_entries_around [of C "(lh, True, lb)" y B] by simp
  moreover have "no_hole_pair (C @ [(lh, True, lb)])" "no_hole_pair (y # B)"
    using g A by (auto simp: geometry_def successively_append_iff)
  ultimately show ?thesis using s1 o A by blast
next
  case False
  obtain s1 where s1: "fuse_left m mb (bgn y) s = Some (m, mb, s1)"
      "linked (blocks s1) (heap_next s1) (A @ (m, True, mb) # y # B)"
      "seg_base s1 = seg_base s" "hunks_by_begin s1 = hunks_by_begin s"
      "holes_by_size s1 = map_insert (bgn y - mb, mb) m (holes_by_size s)"
    using fuse_left_none [OF L] False by auto
  have o: "ordered_layout sz (A @ (m, True, mb) # y # B)"
    using g ordered_reflag unfolding geometry_iff by blast
  have HA: "hole_entries (A @ [(m, False, mb)]) = hole_entries (A @ [(m, True, mb)])"
    by (rule hole_entries_last) simp
  have X: "set (holes_by_size s) = set (hole_entries (A @ [(m, True, mb)])) \<union> set (hole_entries (y # B))"
    using h(2) hole_entries_around [of A "(m, False, mb)" y B] HA by auto
  have "map_wf (holes_by_size s1) \<and> set (holes_by_size s1) = insert ((bgn y - mb, mb), m) (set (holes_by_size s))"
    unfolding s1(5) using no_entry_at [OF o] X by (intro index_insert [OF h(1)]) simp
  then have "map_wf (holes_by_size s1) \<and> set (holes_by_size s1) = set (hole_entries (A @ (m, True, mb) # y # B))"
    using hole_entries_around [of A "(m, True, mb)" y B] X by simp
  moreover have "no_hole_pair (A @ [(m, True, mb)])" "no_hole_pair (y # B)"
    using g False by (auto simp: geometry_def successively_append_iff)
  ultimately show ?thesis using s1 o by blast
qed

lemma fuse_right_step:
  assumes L: "linked (blocks s) (heap_next s) (C @ (p, True, pb) # y # B)"
    and o: "ordered_layout sz (C @ (p, True, pb) # y # B)"
    and n: "no_hole_pair (C @ [(p, True, pb)])" "no_hole_pair (y # B)"
    and h: "map_wf (holes_by_size s)" "set (holes_by_size s) = set (hole_entries (C @ (p, True, pb) # y # B))"
  shows "\<exists>s1 y' B'. fuse_right p pb s = Some s1 \<and>
     linked (blocks s1) (heap_next s1) (C @ (p, True, pb) # y' # B') \<and>
     geometry sz (C @ (p, True, pb) # y' # B') \<and>
     map_wf (holes_by_size s1) \<and> set (holes_by_size s1) = set (hole_entries (C @ (p, True, pb) # y' # B')) \<and>
     seg_base s1 = seg_base s \<and> hunks_by_begin s1 = hunks_by_begin s \<and>
     (y' # B' = y # B \<or> (\<exists>r rb. y = (r, True, rb) \<and> y' # B' = B))"
proof (cases "hole y")
  case False
  then have "geometry sz (C @ (p, True, pb) # y # B)"
    using o n by (auto simp: geometry_iff successively_append_iff)
  with fuse_right_none [OF L False] L h show ?thesis by blast
next
  case True
  then obtain r rb where y: "y = (r, True, rb)" by (cases y) auto
  obtain z B' where B: "B = z # B'"
    using o y by (cases B) (auto simp: ordered_layout_def)
  obtain s1 where s1: "fuse_right p pb s = Some s1"
      "linked (blocks s1) (heap_next s1) (C @ (p, True, pb) # z # B')"
      "seg_base s1 = seg_base s" "hunks_by_begin s1 = hunks_by_begin s"
      "holes_by_size s1 = map_insert (bgn z - pb, pb) p
        (map_erase (rb - pb, pb) (map_erase (bgn z - rb, rb) (holes_by_size s)))"
    using fuse_right_hole [of s C p pb r rb z B'] L y B by auto
  have o': "ordered_layout sz (C @ (p, True, pb) # z # B')"
    using o y B ordered_remove by blast
  moreover have "no_hole_pair (C @ (p, True, pb) # z # B')"
    using n y B by (auto simp: successively_append_iff)
  ultimately have g: "geometry sz (C @ (p, True, pb) # z # B')" by (simp add: geometry_iff)
  let ?X = "set (hole_entries (C @ [(p, True, pb)])) \<union> set (hole_entries (z # B'))"
  have all: "set (holes_by_size s) = insert ((bgn z - rb, rb), r) (insert ((rb - pb, pb), p) ?X)"
    using h(2) y B hole_entries_around [of C "(p, True, pb)" "(r, True, rb)" "z # B'"] by auto
  have pr: "pb \<noteq> rb" using o y B by (auto simp: ordered_layout_def sorted_wrt_append)
  have nr: "((c, rb), q) \<notin> insert ((rb - pb, pb), p) ?X" for c q
  proof -
    have "((c, rb), q) \<notin> set (hole_entries ((C @ [(p, True, pb)]) @ [(r, True, rb)])) \<union> set (hole_entries (z # B'))"
      using no_entry_at [of sz "C @ [(p, True, pb)]" "(r, True, rb)" "z # B'" c q "(r, True, rb)"] o y B by simp
    then show ?thesis
      using pr hole_entries_split [of C "(p, True, pb)" "[(r, True, rb)]"] by auto
  qed
  have e1: "set (map_erase (bgn z - rb, rb) (holes_by_size s)) = insert ((rb - pb, pb), p) ?X"
    using all nr pr by (auto simp: map_erase_def)
  have np: "((c, pb), q) \<notin> ?X" for c q
    using no_entry_at [OF o'] by simp
  have "map_wf (holes_by_size s1) \<and> set (holes_by_size s1) = insert ((bgn z - pb, pb), p) ?X"
    unfolding s1(5) by (rule index_rekey [OF assoc.wf_erase [OF h(1)] e1 np])
  then have "map_wf (holes_by_size s1) \<and> set (holes_by_size s1) = set (hole_entries (C @ (p, True, pb) # z # B'))"
    using hole_entries_around [of C "(p, True, pb)" z B'] by simp
  then show ?thesis using s1 g y B by blast
qed

lemma butlast_spans: "(p, hl, b) \<in> set (butlast L) \<longleftrightarrow> (\<exists>e. (p, hl, b, e) \<in> set (spans L))"
  unfolding in_butlast_split spans_mem by blast

lemma span_ptr: "(p, hl, b, e) \<in> set (spans L) \<Longrightarrow> p \<in> fst ` set L"
  by (auto simp: spans_mem)

lemma span_ptr_init: "(p, hl, b, e) \<in> set (spans (A @ [x])) \<Longrightarrow> p \<in> fst ` set A"
  using butlast_spans [of p hl b "A @ [x]"] by force

lemma spans_freed:
  assumes d: "distinct (map fst L)" and L: "L = A @ (m, False, mb) # y # B"
    and L': "L' = C @ (p, True, pb) # y' # B'"
    and l: "A = C \<and> (p, pb) = (m, mb) \<or> A = C @ [(p, True, pb)]"
    and r: "y' # B' = y # B \<or> (\<exists>r rb. y = (r, True, rb) \<and> y' # B' = B)"
  shows "(q, False, b, e) \<in> set (spans L') \<longleftrightarrow> (q, False, b, e) \<in> set (spans L) \<and> q \<noteq> m"
proof -
  have R: "(q, False, b, e) \<in> set (spans (y' # B')) \<longleftrightarrow> (q, False, b, e) \<in> set (spans (y # B))"
    using r by (cases B) auto
  have A: "(q, False, b, e) \<in> set (spans (A @ [(m, False, mb)])) \<longleftrightarrow> (q, False, b, e) \<in> set (spans (C @ [(p, True, pb)]))"
    using l
  proof
    assume "A = C \<and> (p, pb) = (m, mb)"
    then show ?thesis using spans_last [of "(m, False, mb)" "(p, True, pb)" A] by simp
  next
    assume "A = C @ [(p, True, pb)]"
    then show ?thesis using spans_split [of C "(p, True, pb)" "[(m, False, mb)]"] by auto
  qed
  have "(q, False, b, e) \<notin> set (spans (C @ [(p, True, pb)])) \<union> set (spans (y # B))" if "q = m"
    using d L that span_ptr [of q False b e "y # B"] span_ptr_init [of q False b e A "(m, False, mb)"] A by auto
  moreover have "spans L = spans (A @ [(m, False, mb)]) @ (m, False, mb, bgn y) # spans (y # B)"
    unfolding L by (subst spans_split) simp
  moreover have "spans L' = spans (C @ [(p, True, pb)]) @ (p, True, pb, bgn y') # spans (y' # B')"
    unfolding L' by (subst spans_split) simp
  ultimately show ?thesis using A R by auto
qed

lemma hunk_index_freed:
  assumes I: "hunk_index M L" and g: "geometry sz L" and m: "(m, False, mb) \<in> set (butlast L)"
    and d: "distinct (map fst L)"
    and L': "\<And>q b e. (q, False, b, e) \<in> set (spans L') \<longleftrightarrow> (q, False, b, e) \<in> set (spans L) \<and> q \<noteq> m"
  shows "hunk_index (M(mb := None)) L'"
proof -
  have m': "(m, False, mb) \<in> set L" using m by (rule in_set_butlastD)
  have "(M(mb := None)) b = Some q \<longleftrightarrow> (q, False, b) \<in> set (butlast L) \<and> q \<noteq> m" for b q
  proof (cases "b = mb")
    case True
    then have "q = m" if "(q, False, b) \<in> set (butlast L)"
      using geometry_unique_begin [OF g in_set_butlastD [OF that] m'] by simp
    with True show ?thesis by auto
  next
    case False
    then have "q \<noteq> m" if "(q, False, b) \<in> set (butlast L)"
      using eq_key_imp_eq_value [OF d m', of "(False, b)"] in_set_butlastD [OF that] by auto
    with False show ?thesis using I by (auto simp: hunk_index_def)
  qed
  then show ?thesis by (simp add: hunk_index_def butlast_spans L')
qed

lemma deallocate_layout:
  assumes inv: "layout_inv s sz L" and m: "hunks_by_begin s mb = Some m" and p: "ptr = seg_base s + mb" "ptr \<noteq> 0"
  shows "\<exists>s' L'. deallocate ptr s = Some (Inr s') \<and> layout_inv s' sz L' \<and> seg_base s' = seg_base s \<and>
    hunks_by_begin s' = (hunks_by_begin s)(mb := None) \<and> (\<forall>b e. extent L' b e \<longleftrightarrow> extent L b e \<and> b \<noteq> mb)"
proof -
  have i: "linked (blocks s) (heap_next s) L" "geometry sz L" "map_wf (holes_by_size s)"
      "set (holes_by_size s) = set (hole_entries L)" "hunk_index (hunks_by_begin s) L"
    using inv by (simp_all add: layout_inv_def)
  have mL: "(m, False, mb) \<in> set (butlast L)" using i(5) m by (simp add: hunk_index_def)
  then obtain A y B where L: "L = A @ (m, False, mb) # y # B" by (auto simp: in_butlast_split)
  define s0 where "s0 = s\<lparr>hunks_by_begin := (hunks_by_begin s)(mb := None)\<rparr>"
  have s0: "linked (blocks s0) (heap_next s0) (A @ (m, False, mb) # y # B)" "map_wf (holes_by_size s0)"
      "set (holes_by_size s0) = set (hole_entries (A @ (m, False, mb) # y # B))" "seg_base s0 = seg_base s"
    using i L by (simp_all add: s0_def)
  obtain p pb s1 C where f1: "fuse_left m mb (bgn y) s0 = Some (p, pb, s1)"
     "linked (blocks s1) (heap_next s1) (C @ (p, True, pb) # y # B)"
     "ordered_layout sz (C @ (p, True, pb) # y # B)" "no_hole_pair (C @ [(p, True, pb)])" "no_hole_pair (y # B)"
     "map_wf (holes_by_size s1)" "set (holes_by_size s1) = set (hole_entries (C @ (p, True, pb) # y # B))"
     "seg_base s1 = seg_base s0" "hunks_by_begin s1 = hunks_by_begin s0"
     "A = C \<and> (p, pb) = (m, mb) \<or> A = C @ [(p, True, pb)]"
    using fuse_left_step [OF s0(1) i(2) [unfolded L] s0(2,3)] by (elim exE conjE) (rule that)
  obtain s2 y' B' where f2: "fuse_right p pb s1 = Some s2"
     "linked (blocks s2) (heap_next s2) (C @ (p, True, pb) # y' # B')"
     "geometry sz (C @ (p, True, pb) # y' # B')"
     "map_wf (holes_by_size s2)" "set (holes_by_size s2) = set (hole_entries (C @ (p, True, pb) # y' # B'))"
     "seg_base s2 = seg_base s1" "hunks_by_begin s2 = hunks_by_begin s1"
     "y' # B' = y # B \<or> (\<exists>r rb. y = (r, True, rb) \<and> y' # B' = B)"
    using fuse_right_step [OF f1(2-7)] by (elim exE conjE) (rule that)
  define L' where "L' = C @ (p, True, pb) # y' # B'"
  have lk: "blocks s0 m = Some \<lparr>is_hole = False, blk_begin = mb, blk_prev = last_ptr A None, blk_next = Some (fst y)\<rparr>"
      "blocks s0 (fst y) = Some \<lparr>is_hole = hole y, blk_begin = bgn y, blk_prev = Some m, blk_next = first_ptr B None\<rparr>"
    using linked_lookup [OF s0(1)] linked_lookup [of "blocks s0" "heap_next s0" "A @ [(m, False, mb)]" y B] s0(1)
    by simp_all
  have "deallocate ptr s = Some (Inr s2)"
    using p m lk f1(1) f2(1) by (simp add: deallocate_def Let_def s0_def [symmetric])
  moreover have d: "distinct (map fst L)" using i(1) by (simp add: linked_def)
  note sp = spans_freed [OF d L L'_def f1(10) f2(8)]
  have "extent L' b e \<longleftrightarrow> extent L b e \<and> b \<noteq> mb" for b e
  proof -
    have "q = m \<longleftrightarrow> b = mb" if q: "(q, False, b, e) \<in> set (spans L)" for q
    proof -
      have "(q, False, b) \<in> set L" "(m, False, mb) \<in> set L"
        using q mL by (auto simp: spans_mem dest: in_set_butlastD)
      then show ?thesis
        using geometry_unique_begin [OF i(2), of "(q, False, b)" "(m, False, mb)"]
          eq_key_imp_eq_value [OF d, of q "(False, b)" "(False, mb)"] by auto
    qed
    then show ?thesis unfolding extent_def sp by blast
  qed
  moreover have "hunk_index (hunks_by_begin s2) L'"
    using hunk_index_freed [OF i(5) i(2) mL d, of L'] sp f1(9) f2(7) by (simp add: s0_def)
  ultimately show ?thesis
    using f1(8,9) f2 by (intro exI [of _ s2] exI [of _ L']) (simp add: layout_inv_def L'_def s0_def)
qed

end
