(* ===== verification/Segment_Correct.thy ===== *)
theory Segment_Correct
  imports Segment_Layout
begin

text \<open>
  The properties of the segment allocator: what a client sees of \<open>allocate\<close>, \<open>deallocate\<close>,
  \<open>segment_free\<close> and the destructor, stated over the extents of the live hunks.
\<close>

unbundle bit_operations_syntax

subsection \<open>The whole allocation\<close>

lemma extent_carved:
  assumes "carved L mb me L'" and g: "geometry sz L" and g': "geometry sz L'"
  shows "extent L' mb me" and "extent L b e \<Longrightarrow> \<exists>e'. extent L' b e' \<and> e \<le> e'"
proof -
  obtain A h hb y B Lf Rt m where c: "L = A @ (h, True, hb) # y # B" "L' = A @ Lf @ (m, False, mb) # Rt @ y # B"
      "hb \<le> mb" "mb < me" "me \<le> bgn y" "Lf = [] \<or> Lf = [(h, True, hb)]"
      "Rt = [] \<and> me = bgn y \<or> (\<exists>r. Rt = [(r, True, me)] \<and> me < bgn y)"
    using assms(1) unfolding carved_def by (elim exE conjE) (rule that)
  have L': "L' = (A @ Lf) @ (m, False, mb) # hd (Rt @ [y]) # tl (Rt @ [y]) @ B"
    using c(2,7) by auto
  show "extent L' mb me"
    unfolding L' extent_around using c(7) by auto
  assume e: "extent L b e"
  then consider "extent (A @ [(h, True, hb)]) b e" | "extent (y # B) b e"
    unfolding c(1) extent_around by auto
  then show "\<exists>e'. extent L' b e' \<and> e \<le> e'"
  proof cases
    case 2
    then have "extent L' b e"
      using c(2,7) extent_around [of "A @ Lf" "(m, False, mb)" y B]
        extent_around [of "A @ Lf @ [(m, False, mb)]" "hd Rt" y B] by auto
    then show ?thesis by blast
  next
    case 1
    then obtain A' x where A: "A = A' @ [x]"
      by (cases A rule: rev_cases) (auto simp: extent_def)
    with 1 consider "extent (A' @ [x]) b e" | "\<not> hole x" "b = bgn x" "e = hb"
      using extent_around [of A' x "(h, True, hb)" "[]"] by (auto simp: extent_def)
    then show ?thesis
    proof cases
      case 1
      then show ?thesis
        using A c(2) extent_around [of A' x "hd (Lf @ [(m, False, mb)])" "tl (Lf @ [(m, False, mb)]) @ Rt @ y # B"] c(6) by auto
    next
      case 2
      then show ?thesis
        using A c(2,3) extent_around [of A' x "hd (Lf @ [(m, False, mb)])" "tl (Lf @ [(m, False, mb)]) @ Rt @ y # B" b] c(6)
        by auto
    qed
  qed
qed

lemma unat_two_power: "j < 64 \<Longrightarrow> unat ((2 :: u64) ^ j) = 2 ^ j"
proof -
  assume "j < 64"
  then have "(2 :: nat) ^ j < 2 ^ 64" by (rule power_strict_increasing) simp
  moreover have "(2 :: u64) ^ j = word_of_nat (2 ^ j)" by simp
  ultimately show ?thesis by (simp only: unat_of_nat) (simp add: take_bit_eq_mod)
qed

lemma power_word_mono: "j \<le> k \<Longrightarrow> k < 64 \<Longrightarrow> (2 :: u64) ^ j \<le> 2 ^ k"
  by (simp add: word_le_nat_alt unat_two_power)

lemma max_power: "j < 64 \<Longrightarrow> k < 64 \<Longrightarrow> max ((2 :: u64) ^ j) (2 ^ k) = 2 ^ max j k"
  using power_word_mono [of j k] power_word_mono [of k j] by (cases j k rule: linorder_le_cases) (auto simp: max_def)

lemma round_up_and:
  assumes "unat (a :: u64) + 2 ^ k \<le> 2 ^ 64" "k < 64"
  shows "unat a \<le> unat ((a + 2 ^ k - 1) AND - (2 ^ k))"
proof -
  have "align_begin 0 a (2 ^ k) = (a + 2 ^ k - 1) AND - (2 ^ k)" by (simp add: align_begin_def)
  then show ?thesis using align_begin_bounds(1) [of "2 ^ k" k 0 a] assms by simp
qed

lemma round_request_spec:
  assumes "k < 64" "unat req + 4096 \<le> 2 ^ 64"
  shows "\<exists>j m_size. round_request req (2 ^ k) = (m_size, 2 ^ j) \<and> k \<le> j \<and> j \<le> max 12 k \<and> unat req \<le> unat m_size"
proof -
  consider (page) "req \<ge> 2 * 4096" | (line) "\<not> req \<ge> 2 * 4096" "req \<ge> 2 * 64" | (small) "\<not> req \<ge> 2 * 4096" "\<not> req \<ge> 2 * 64"
    by blast
  then show ?thesis
  proof cases
    case page
    then show ?thesis
      using round_up_and [of req 12] max_power [of 12 k] assms
      by (intro exI [of _ "max 12 k"] exI [of _ "(req + 4096 - 1) AND - 4096"]) (simp add: round_request_def)
  next
    case line
    then show ?thesis
      using round_up_and [of req 6] max_power [of 6 k] assms
      by (intro exI [of _ "max 6 k"] exI [of _ "(req + 64 - 1) AND - 64"]) (simp add: round_request_def)
  next
    case small
    then show ?thesis by (intro exI [of _ k] exI [of _ req]) (simp add: round_request_def)
  qed
qed

lemma fits_request_mono: "fits_request s sz k \<Longrightarrow> j \<le> k \<Longrightarrow> fits_request s sz j"
proof -
  assume r: "fits_request s sz k" and "j \<le> k"
  then have "(2 :: nat) ^ j \<le> 2 ^ k" by (intro power_increasing) simp_all
  with r \<open>j \<le> k\<close> show ?thesis unfolding fits_request_def by linarith
qed

text \<open>An attempt either carves a hunk, or no hole is large enough whatever its alignment.\<close>

definition hunk_made :: "segment_allocator \<Rightarrow> layout \<Rightarrow> u64 \<Rightarrow> u64 \<Rightarrow> nat \<Rightarrow> u64 \<Rightarrow> segment_allocator \<Rightarrow> bool" where
  "hunk_made s L sz m_size k p s' \<longleftrightarrow>
     (\<exists>L' mb. p = seg_base s + mb \<and> unat p = unat (seg_base s) + unat mb \<and> unat p mod 2 ^ k = 0 \<and>
        layout_inv s' sz L' \<and> carved L mb (mb + m_size) L' \<and> unat (mb + m_size) = unat mb + unat m_size \<and>
        seg_base s' = seg_base s \<and> hunks_by_begin s mb = None \<and>
        dom (hunks_by_begin s') = insert mb (dom (hunks_by_begin s)))"

definition holes_below :: "segment_allocator \<Rightarrow> nat \<Rightarrow> bool" where
  "holes_below s n \<longleftrightarrow> (\<forall>e \<in> set (holes_by_size s). unat (fst (fst e)) < n)"

lemma try_hole_cases:
  assumes inv: "layout_inv s sz L" and r: "fits_request s sz k" and m: "0 < m_size" "m_size \<le> padded"
  shows "try_hole s m_size (2 ^ k) padded = Some No_hole \<and> holes_below s (unat padded) \<or>
    try_hole s m_size (2 ^ k) padded = Some Unfit \<and> unat padded < unat m_size + 2 ^ k - 1 \<and>
      unat m_size + 2 ^ k \<le> 2 ^ 64 \<or>
    (\<exists>p s'. try_hole s m_size (2 ^ k) padded = Some (Fit p s') \<and> hunk_made s L sz m_size k p s')"
proof (cases "map_lower_bound (padded, 0) (holes_by_size s)")
  case None
  have "map_wf (holes_by_size s)" using inv by (simp add: layout_inv_def)
  from assoc.lower_None [OF this] None have "\<forall>e \<in> set (holes_by_size s). fst e < (padded, 0)" by blast
  then have "holes_below s (unat padded)"
    by (auto simp: holes_below_def less_prod_def word_less_nat_alt)
  with None show ?thesis by (simp add: try_hole_def)
next
  case (Some kh)
  obtain key h where kh: "kh = (key, h)" by (cases kh)
  from try_hole_found [OF inv r m, of key h] Some kh obtain hb y A B where
    f: "L = A @ (h, True, hb) # y # B" "padded \<le> bgn y - hb" and
    t: "let mb = align_begin (seg_base s) hb (2 ^ k); me = mb + m_size in
     if me \<le> bgn y
     then \<exists>s' L'. try_hole s m_size (2 ^ k) padded = Some (Fit (seg_base s + mb) s') \<and>
            layout_inv s' sz L' \<and> carved L mb me L' \<and> seg_base s' = seg_base s \<and>
            hunks_by_begin s mb = None \<and> dom (hunks_by_begin s') = insert mb (dom (hunks_by_begin s))
     else try_hole s m_size (2 ^ k) padded = Some Unfit"
    by blast
  have y: "hb < bgn y" "bgn y \<le> sz" using inv geometry_bound f(1) by (fastforce simp: layout_inv_def)+
  define mb where "mb = align_begin (seg_base s) hb (2 ^ k)"
  note ar = attempt_arith [OF r y order_trans [OF m(2) f(2)], folded mb_def]
  show ?thesis
  proof (cases "mb + m_size \<le> bgn y")
    case True
    with t obtain s' L' where s': "try_hole s m_size (2 ^ k) padded = Some (Fit (seg_base s + mb) s')"
        "layout_inv s' sz L'" "carved L mb (mb + m_size) L'" "seg_base s' = seg_base s"
        "hunks_by_begin s mb = None" "dom (hunks_by_begin s') = insert mb (dom (hunks_by_begin s))"
      unfolding mb_def [symmetric] Let_def by auto
    have "hunk_made s L sz m_size k (seg_base s + mb) s'"
      unfolding hunk_made_def using s' ar by (intro exI [of _ L'] exI [of _ mb]) simp
    with s'(1) show ?thesis by blast
  next
    case False
    have "unat padded \<le> unat (bgn y) - unat hb" using f(2) unat_sub [OF less_imp_le [OF y(1)]] by (simp add: word_le_nat_alt)
    moreover have "unat (bgn y) < unat mb + unat m_size" using False ar(2) by (simp add: word_le_nat_alt)
    moreover have "unat m_size \<le> unat padded" using m(2) by (simp add: word_le_nat_alt)
    moreover have "unat sz + 2 ^ k \<le> 2 ^ 64" using r by (simp add: fits_request_def)
    moreover have "unat (bgn y) \<le> unat sz" "unat hb < unat (bgn y)" using y by (simp_all add: word_le_nat_alt word_less_nat_alt)
    ultimately have "unat padded < unat m_size + 2 ^ k - 1" "unat m_size + 2 ^ k \<le> 2 ^ 64"
      using ar(3) by linarith+
    with False t show ?thesis unfolding mb_def [symmetric] Let_def by simp
  qed
qed
lemma allocate_cases:
  assumes inv: "layout_inv s sz L" and r: "fits_request s sz (max 12 k)"
    and req: "0 < req" "unat req + 4096 \<le> 2 ^ 64"
  shows "\<exists>j m_size. round_request req (2 ^ k) = (m_size, 2 ^ j) \<and> k \<le> j \<and> j \<le> max 12 k \<and> unat req \<le> unat m_size \<and>
    (allocate req (2 ^ k) s = Some (0, s) \<and> holes_below s (unat m_size + 2 ^ j - 1) \<or>
     (\<exists>p s'. allocate req (2 ^ k) s = Some (p, s') \<and> hunk_made s L sz m_size j p s'))"
proof -
  have k: "k < 64" using r by (simp add: fits_request_def)
  obtain j m_size where rr: "round_request req (2 ^ k) = (m_size, 2 ^ j)" "k \<le> j" "j \<le> max 12 k" "unat req \<le> unat m_size"
    using round_request_spec [OF k req(2)] by blast
  have rj: "fits_request s sz j" and j: "j < 64" using fits_request_mono [OF r rr(3)] by (simp_all add: fits_request_def)
  have m0: "0 < m_size" using rr(4) req(1) by (simp add: word_less_nat_alt)
  define padded where "padded = m_size + 2 ^ j - 1"
  have weaken: "holes_below s (unat m_size + 2 ^ j - 1)" if "holes_below s n" "n \<le> unat m_size + 2 ^ j - 1" for n
    using that by (auto simp: holes_below_def intro: order_less_le_trans)
  have req0: "(req = 0) = False" using req(1) by auto
  have alloc: "allocate req (2 ^ k) s = Option.bind (try_hole s m_size (2 ^ j) m_size)
     (\<lambda>a. case a of Fit p s' \<Rightarrow> Some (p, s') | No_hole \<Rightarrow> Some (0, s)
       | Unfit \<Rightarrow> if padded = m_size then Some (0, s)
           else Option.bind (try_hole s m_size (2 ^ j) padded)
             (\<lambda>a. case a of Fit p s' \<Rightarrow> Some (p, s') | No_hole \<Rightarrow> Some (0, s) | Unfit \<Rightarrow> Some (0, s)))"
    using req0 by (simp only: allocate_def rr(1) Let_def prod.case if_False padded_def [symmetric])
  from try_hole_cases [OF inv rj m0 order_refl]
  consider (none) "try_hole s m_size (2 ^ j) m_size = Some No_hole" "holes_below s (unat m_size)"
    | (unfit) "try_hole s m_size (2 ^ j) m_size = Some Unfit" "unat m_size < unat m_size + 2 ^ j - 1" "unat m_size + 2 ^ j \<le> 2 ^ 64"
    | (fit) p s' where "try_hole s m_size (2 ^ j) m_size = Some (Fit p s')" "hunk_made s L sz m_size j p s'"
    by blast
  then have "allocate req (2 ^ k) s = Some (0, s) \<and> holes_below s (unat m_size + 2 ^ j - 1) \<or>
     (\<exists>p s'. allocate req (2 ^ k) s = Some (p, s') \<and> hunk_made s L sz m_size j p s')"
  proof cases
    case none
    have "unat m_size \<le> unat m_size + 2 ^ j - 1" using one_le_power [of "2 :: nat" j] by linarith
    then show ?thesis using none weaken by (simp add: alloc)
  next
    case fit
    then show ?thesis by (auto simp: alloc)
  next
    case unfit
    have "unat padded = unat m_size + 2 ^ j - 1"
    proof -
      have "word_of_nat (Suc (unat m_size + 2 ^ j - 1)) = m_size + 2 ^ j" by simp
      then have "padded = word_of_nat (unat m_size + 2 ^ j - 1)"
        unfolding padded_def of_nat_Suc by (metis add_diff_cancel_left')
      then show ?thesis using unfit(3) by (simp add: unat_of_nat take_bit_eq_mod)
    qed
    then have pd: "m_size \<le> padded" "padded \<noteq> m_size" "\<not> unat padded < unat m_size + 2 ^ j - 1"
      using unfit(2) by (auto simp: word_le_nat_alt)
    from try_hole_cases [OF inv rj m0 pd(1)] pd(3)
    consider "try_hole s m_size (2 ^ j) padded = Some No_hole" "holes_below s (unat padded)"
      | p s' where "try_hole s m_size (2 ^ j) padded = Some (Fit p s')" "hunk_made s L sz m_size j p s'"
      by blast
    then show ?thesis
      using unfit(1) pd(2) \<open>unat padded = _\<close> by cases (auto simp: alloc)
  qed
  with rr show ?thesis by blast
qed

subsection \<open>Free space\<close>

lemma foldl_plus_sum_list: "foldl (\<lambda>a x. a + f x) (c :: u64) xs = c + sum_list (map f xs)"
  by (induction xs arbitrary: c) (simp_all add: add.assoc)

lemma unat_sum_list:
  "sum_list (map (\<lambda>x. unat (f x)) xs) < 2 ^ 64 \<Longrightarrow> unat (sum_list (map f xs) :: u64) = sum_list (map (\<lambda>x. unat (f x)) xs)"
  by (induction xs) (simp_all add: unat_add_no_wrap)

definition hole_bytes :: "layout \<Rightarrow> nat" where
  "hole_bytes L = sum_list (map (\<lambda>e. unat (fst (fst e))) (hole_entries L))"

definition free_offsets :: "layout \<Rightarrow> nat set" where
  "free_offsets L = {i. unat (bgn (hd L)) \<le> i \<and> i < unat (bgn (last L)) \<and> \<not> (\<exists>b e. extent L b e \<and> unat b \<le> i \<and> i < unat e)}"

lemma extent_Cons2: "extent (x # y # L) b e \<longleftrightarrow> \<not> hole x \<and> b = bgn x \<and> e = bgn y \<or> extent (y # L) b e"
  using extent_around [of "[]" x y L] by (auto simp: extent_def)

lemma extent_lower: "sorted_wrt (\<lambda>x y. bgn x < bgn y) L \<Longrightarrow> extent L b e \<Longrightarrow> bgn (hd L) \<le> b"
proof -
  assume s: "sorted_wrt (\<lambda>x y. bgn x < bgn y) L" and "extent L b e"
  then obtain A p y B where "L = A @ (p, False, b) # y # B" by (auto simp: extent_def spans_mem)
  with s show ?thesis by (cases A) auto
qed

lemma free_offsets_Cons:
  assumes "sorted_wrt (\<lambda>x y. bgn x < bgn y) (x # y # L)"
  shows "free_offsets (x # y # L) = (if hole x then {unat (bgn x)..<unat (bgn y)} else {}) \<union> free_offsets (y # L)"
proof -
  have xy: "unat (bgn x) < unat (bgn y)" using assms by (simp add: word_less_nat_alt)
  have lo: "unat (bgn y) \<le> unat b" if "extent (y # L) b e" for b e
    using extent_lower [OF _ that] assms by (simp add: word_le_nat_alt)
  have la: "unat (bgn y) \<le> unat (bgn (last (y # L)))"
    using assms by (cases L rule: rev_cases) (auto simp: word_less_nat_alt sorted_wrt_append)
  show ?thesis
  proof (rule set_eqI)
    fix i
    show "i \<in> free_offsets (x # y # L) \<longleftrightarrow> i \<in> (if hole x then {unat (bgn x)..<unat (bgn y)} else {}) \<union> free_offsets (y # L)"
    proof (cases "unat (bgn y) \<le> i")
      case True
      then have "(\<exists>b e. extent (x # y # L) b e \<and> unat b \<le> i \<and> i < unat e) \<longleftrightarrow> (\<exists>b e. extent (y # L) b e \<and> unat b \<le> i \<and> i < unat e)"
        unfolding extent_Cons2 by (meson not_le)
      then show ?thesis using True xy unfolding free_offsets_def by auto
    next
      case False
      then have "\<not> (unat b \<le> i)" if "extent (y # L) b e" for b e using lo [OF that] by linarith
      then have "(\<exists>b e. extent (x # y # L) b e \<and> unat b \<le> i \<and> i < unat e) \<longleftrightarrow> \<not> hole x \<and> unat (bgn x) \<le> i"
        unfolding extent_Cons2 using False not_le by blast
      then show ?thesis using False la by (auto simp: free_offsets_def)
    qed
  qed
qed

lemma card_free_offsets:
  "sorted_wrt (\<lambda>x y. bgn x < bgn y) L \<Longrightarrow> L \<noteq> [] \<Longrightarrow> finite (free_offsets L) \<and> card (free_offsets L) = hole_bytes L"
proof (induction L rule: hole_entries.induct)
  case (1 x y L)
  have IH: "finite (free_offsets (y # L))" "card (free_offsets (y # L)) = hole_bytes (y # L)"
    using 1 by simp_all
  have le: "bgn x \<le> bgn y" using 1(2) by (simp add: order_less_imp_le)
  have "{unat (bgn x)..<unat (bgn y)} \<inter> free_offsets (y # L) = {}"
    by (auto simp: free_offsets_def)
  then show ?case
    using IH le unfolding free_offsets_Cons [OF 1(2)]
    by (simp add: hole_bytes_def card_Un_disjoint unat_sub)
qed (auto simp: free_offsets_def hole_bytes_def extent_def)

lemma map_wf_distinct: "map_wf m \<Longrightarrow> distinct m"
  by (induction m) (auto simp: map_wf_def)

lemma hole_entries_distinct: "sorted_wrt (\<lambda>x y. bgn x < bgn y) L \<Longrightarrow> distinct (hole_entries L)"
proof (induction L rule: hole_entries.induct)
  case (1 x y L)
  have "((bgn y - bgn x, bgn x), fst x) \<notin> set (hole_entries (y # L))"
    using 1(2) hole_entries_begins by fastforce
  with 1 show ?case by auto
qed simp_all

lemma segment_free_layout:
  assumes inv: "layout_inv s sz L"
  shows "unat (segment_free s) = card (free_offsets L)"
proof -
  have i: "linked (blocks s) (heap_next s) L" "geometry sz L" "map_wf (holes_by_size s)"
      "set (holes_by_size s) = set (hole_entries L)" using inv by (simp_all add: layout_inv_def)
  have so: "sorted_wrt (\<lambda>x y. bgn x < bgn y) L" "L \<noteq> []" "last L = (endpost, False, sz)" using i(2) by (simp_all add: geometry_def)
  have "free_offsets L \<subseteq> {..<unat sz}" using so(3) by (auto simp: free_offsets_def)
  then have "card (free_offsets L) \<le> unat sz" using card_mono [of "{..<unat sz}"] by fastforce
  then have lt: "hole_bytes L < 2 ^ 64"
    using card_free_offsets [OF so(1,2)] order_le_less_trans [OF _ unat_lt64 [of sz], of "hole_bytes L"] by simp
  have "distinct (holes_by_size s)"
    using i(3) by (rule map_wf_distinct)
  then have "sum_list (map (\<lambda>e. unat (fst (fst e))) (holes_by_size s)) = hole_bytes L"
    unfolding hole_bytes_def using hole_entries_distinct [OF so(1)] i(4) by (simp add: sum_list_distinct_conv_sum_set)
  then show ?thesis
    using unat_sum_list [of "\<lambda>e. fst (fst e)" "holes_by_size s"] lt card_free_offsets [OF so(1,2)]
    by (simp add: segment_free_def foldl_plus_sum_list)
qed
subsection \<open>Destruction\<close>

lemma links_app_last:
  "map_of (links None (A @ [x]) nx) = (map_of (links None A (Some (fst x))))
     (fst x \<mapsto> \<lparr>is_hole = hole x, blk_begin = bgn x, blk_prev = last_ptr A None, blk_next = nx\<rparr>)"
  if "fst x \<notin> fst ` set A"
  using that by (auto simp: links_append fun_eq_iff map_add_def split: option.splits)

lemma destroy_from_links:
  "distinct (map fst A) \<Longrightarrow> e \<notin> fst ` set A \<Longrightarrow> blocks s = (map_of (links None A nx))(e \<mapsto> eb) \<Longrightarrow>
    destroy_from (last_ptr A None) s = Some (s\<lparr>blocks := [e \<mapsto> eb]\<rparr>)"
proof (induction A arbitrary: s nx rule: rev_induct)
  case Nil
  then show ?case by (simp add: destroy_from.simps)
next
  case (snoc x A)
  let ?s = "delete_block (fst x) s"
  have x: "blocks s (fst x) = Some \<lparr>is_hole = hole x, blk_begin = bgn x, blk_prev = last_ptr A None, blk_next = nx\<rparr>"
    using snoc.prems by (auto simp: links_app_last)
  have "blocks ?s = (map_of (links None A (Some (fst x))))(e \<mapsto> eb)"
    using snoc.prems by (auto simp: delete_block_def links_app_last fun_eq_iff)
  then have "destroy_from (last_ptr A None) ?s = Some (?s\<lparr>blocks := [e \<mapsto> eb]\<rparr>)"
    using snoc.prems by (intro snoc.IH) auto
  then show ?case using x by (simp add: destroy_from.simps [of "Some (fst x)"] delete_block_def fun_upd_def)
qed

subsection \<open>Properties\<close>

lemma dom_hunk_end_hunks: "layout_inv s sz L \<Longrightarrow> dom (hunk_end s) = dom (hunks_by_begin s)"
  using dom_hunk_end [of s sz L] hunk_end_extent [of s sz L] by (auto simp: dom_def set_eq_iff)

lemma hunk_made_ends:
  assumes L: "layout_inv s sz L" and m: "hunk_made s L sz m_size j p s'"
  shows "\<exists>mb. unat p = unat (seg_base s) + unat mb \<and> unat p mod 2 ^ j = 0 \<and> alloc_inv s' sz \<and>
    seg_base s' = seg_base s \<and> hunk_end s mb = None \<and> hunk_end s' mb = Some (mb + m_size) \<and> mb + m_size \<le> sz \<and>
    unat (mb + m_size) = unat mb + unat m_size \<and>
    (\<forall>b e. hunk_end s b = Some e \<longrightarrow> (\<exists>e'. hunk_end s' b = Some e' \<and> e \<le> e')) \<and>
    dom (hunk_end s') = insert mb (dom (hunk_end s))"
proof -
  obtain L' mb where h: "unat p = unat (seg_base s) + unat mb" "unat p mod 2 ^ j = 0"
      "layout_inv s' sz L'" "carved L mb (mb + m_size) L'" "unat (mb + m_size) = unat mb + unat m_size"
      "seg_base s' = seg_base s" "hunks_by_begin s mb = None"
      "dom (hunks_by_begin s') = insert mb (dom (hunks_by_begin s))"
    using m unfolding hunk_made_def by (elim exE conjE) (rule that)
  have g: "geometry sz L" "geometry sz L'" using L h(3) by (simp_all add: layout_inv_def)
  note ec = extent_carved [OF h(4) g]
  have "hunk_end s mb = None" using h(7) by (simp add: hunk_end_def)
  moreover have "hunk_end s' mb = Some (mb + m_size)" using ec(1) hunk_end_extent [OF h(3)] by simp
  moreover have "mb + m_size \<le> sz" using extent_bounds [OF g(2) ec(1)] by simp
  moreover have "\<exists>e'. hunk_end s' b = Some e' \<and> e \<le> e'" if "hunk_end s b = Some e" for b e
    using ec(2) that hunk_end_extent [OF h(3)] hunk_end_extent [OF L] by blast
  moreover have "dom (hunk_end s') = insert mb (dom (hunk_end s))"
    using h(8) dom_hunk_end_hunks [OF h(3)] dom_hunk_end_hunks [OF L] by simp
  moreover have "alloc_inv s' sz" using h(3) by (auto simp: alloc_inv_def)
  ultimately show ?thesis using h(1,2,5,6) by (intro exI [of _ mb]) simp
qed

lemma allocate_keeps:
  assumes inv: "alloc_inv s sz" and r: "fits_request s sz (max 12 k)"
    and req: "0 < req" "unat req + 4096 \<le> 2 ^ 64" and a: "allocate req (2 ^ k) s = Some (p, s')"
  shows "alloc_inv s' sz" "seg_base s' = seg_base s"
proof -
  obtain L where L: "layout_inv s sz L" using inv by (auto simp: alloc_inv_def)
  have "s' = s \<or> (\<exists>m_size j. hunk_made s L sz m_size j p s')" using allocate_cases [OF L r req] a by auto
  with inv hunk_made_ends [OF L, of _ _ p s'] show "alloc_inv s' sz" "seg_base s' = seg_base s" by auto
qed

text \<open>Two live hunks of a small segment, for the witnesses below.\<close>

lemma two_live_hunks:
  "\<exists>s. alloc_inv s 65536 \<and> seg_base s = 4096 \<and> hunk_end s 0 = Some 128 \<and> hunk_end s 128 = Some 384 \<and>
     hunk_end s 64 = None"
proof -
  have "do { s \<leftarrow> segment_allocator_init 4096 65536; (p, s1) \<leftarrow> allocate 100 (2 ^ 3) s; (q, s2) \<leftarrow> allocate 200 (2 ^ 3) s1;
      Some (hunk_end s2 0, hunk_end s2 128, hunk_end s2 64) } = Some (Some 128, Some 384, None)"
    by code_simp
  then obtain s p s1 q s2 where e: "segment_allocator_init 4096 65536 = Some s" "allocate 100 (2 ^ 3) s = Some (p, s1)"
      "allocate 200 (2 ^ 3) s1 = Some (q, s2)" "hunk_end s2 0 = Some 128" "hunk_end s2 128 = Some 384" "hunk_end s2 64 = None"
    by (auto simp: Option.bind_eq_Some_conv)
  have i: "alloc_inv s 65536" "seg_base s = 4096" using init_inv [of 65536 4096] e(1) by auto
  have i1: "alloc_inv s1 65536" "seg_base s1 = 4096"
    using allocate_keeps [OF i(1) _ _ _ e(2)] i(2) by (simp_all add: fits_request_def)
  have "alloc_inv s2 65536" "seg_base s2 = 4096"
    using allocate_keeps [OF i1(1) _ _ _ e(3)] i1(2) by (simp_all add: fits_request_def)
  with e show ?thesis by blast
qed

lemma allocate_ok:
  assumes inv: "alloc_inv s sz" and r: "fits_request s sz (max 12 k)"
    and req: "0 < req" "unat req + 4096 \<le> 2 ^ 64"
  shows "\<exists>p s'. allocate req (2 ^ k) s = Some (p, s') \<and> alloc_inv s' sz \<and> seg_base s' = seg_base s \<and>
    (p = 0 \<and> s' = s \<and> (\<exists>m_size m_align. round_request req (2 ^ k) = (m_size, m_align) \<and> 
        holes_below s (unat m_size + unat m_align - 1)) \<or>
     unat p mod 2 ^ k = 0 \<and>
     (\<exists>mb me. unat p = unat (seg_base s) + unat mb \<and> hunk_end s mb = None \<and> hunk_end s' mb = Some me \<and>
        unat mb + unat req \<le> unat me \<and> me \<le> sz \<and>
        (\<forall>b e. hunk_end s b = Some e \<longrightarrow> (\<exists>e'. hunk_end s' b = Some e' \<and> e \<le> e')) \<and>
        dom (hunk_end s') = insert mb (dom (hunk_end s))))"
proof -
  obtain L where L: "layout_inv s sz L" using inv by (auto simp: alloc_inv_def)
  obtain j m_size where c: "round_request req (2 ^ k) = (m_size, 2 ^ j)" "k \<le> j" "j \<le> max 12 k" "unat req \<le> unat m_size"
    "allocate req (2 ^ k) s = Some (0, s) \<and> holes_below s (unat m_size + 2 ^ j - 1) \<or>
     (\<exists>p s'. allocate req (2 ^ k) s = Some (p, s') \<and> hunk_made s L sz m_size j p s')"
    using allocate_cases [OF L r req] by (elim exE conjE) (rule that)
  have j: "j < 64" using fits_request_mono [OF r c(3)] by (simp add: fits_request_def)
  from c(5) show ?thesis
  proof
    assume "allocate req (2 ^ k) s = Some (0, s) \<and> holes_below s (unat m_size + 2 ^ j - 1)"
    then show ?thesis using inv c(1) by (simp add: unat_two_power [OF j])
  next
    assume "\<exists>p s'. allocate req (2 ^ k) s = Some (p, s') \<and> hunk_made s L sz m_size j p s'"
    then obtain p s' where p: "allocate req (2 ^ k) s = Some (p, s')" "hunk_made s L sz m_size j p s'" by blast
    from hunk_made_ends [OF L p(2)] obtain mb where h: "unat p = unat (seg_base s) + unat mb" "unat p mod 2 ^ j = 0" "alloc_inv s' sz"
       "seg_base s' = seg_base s" "hunk_end s mb = None" "hunk_end s' mb = Some (mb + m_size)" "mb + m_size \<le> sz"
       "unat (mb + m_size) = unat mb + unat m_size"
       "\<forall>b e. hunk_end s b = Some e \<longrightarrow> (\<exists>e'. hunk_end s' b = Some e' \<and> e \<le> e')"
       "dom (hunk_end s') = insert mb (dom (hunk_end s))"
      by (elim exE conjE) (rule that)
    have "unat p mod 2 ^ k = 0" using h(2) c(2) by (metis le_imp_power_dvd mod_0_imp_dvd mod_eq_0_iff_dvd dvd_trans)
    then show ?thesis
      using p(1) h c(4) by (intro exI [of _ p] exI [of _ s'] conjI disjI2 exI [of _ mb] exI [of _ "mb + m_size"]) simp_all
  qed
qed

text \<open>
  (C6) A request on a well-formed allocator never follows a bad pointer and keeps the invariant.
  Either it returns null and leaves the allocator as it was, and then no hole could take the
  rounded request under every alignment; or it returns the address of a new hunk that is
  aligned as asked, at least as large as asked and inside the segment, and no hunk that was
  live before is lost or shrinks.
\<close>

theorem allocate_correct:
  assumes inv: "alloc_inv s sz" and r: "fits_request s sz (max 12 k)"
    and req: "0 < req" "unat req + 4096 \<le> 2 ^ 64"
  shows "\<exists>p s'. allocate req (2 ^ k) s = Some (p, s') \<and> alloc_inv s' sz \<and> seg_base s' = seg_base s \<and>
    (p = 0 \<and> s' = s \<and> (\<exists>m_size m_align. round_request req (2 ^ k) = (m_size, m_align) \<and> 
        holes_below s (unat m_size + unat m_align - 1)) \<or>
     unat p mod 2 ^ k = 0 \<and>
     (\<exists>mb me. unat p = unat (seg_base s) + unat mb \<and> hunk_end s mb = None \<and> hunk_end s' mb = Some me \<and>
        unat mb + unat req \<le> unat me \<and> me \<le> sz \<and>
        (\<forall>b e. hunk_end s b = Some e \<longrightarrow> (\<exists>e'. hunk_end s' b = Some e' \<and> e \<le> e')) \<and>
        dom (hunk_end s') = insert mb (dom (hunk_end s))))"
  by (rule allocate_ok [OF assms])

theorem allocate_correct_witness:
  "\<exists>s p s'. segment_allocator_init 4096 65536 = Some s \<and> allocate 100 (2 ^ 3) s = Some (p, s') \<and> alloc_inv s' 65536"
proof -
  obtain s where s: "segment_allocator_init 4096 65536 = Some s" "alloc_inv s 65536" "seg_base s = 4096"
    using init_inv [of 65536 4096] by auto
  then have "fits_request s 65536 (max 12 3)" by (simp add: fits_request_def)
  from allocate_correct [OF s(2) this, of 100] s(1) show ?thesis by auto
qed

text \<open>Live hunks lie inside the segment, are not empty and never overlap.\<close>

lemma live_hunks_disjoint:
  assumes "alloc_inv s sz" "hunk_end s b = Some e" "hunk_end s b' = Some e'"
  shows "b < e \<and> e \<le> sz \<and> (b = b' \<or> e \<le> b' \<or> e' \<le> b)"
proof -
  obtain L where L: "layout_inv s sz L" using assms(1) by (auto simp: alloc_inv_def)
  then have g: "geometry sz L" by (simp add: layout_inv_def)
  have x: "extent L b e" "extent L b' e'" using assms(2,3) by (simp_all add: hunk_end_extent [OF L])
  show ?thesis
    using extent_bounds [OF g x(1)] extent_disjoint [OF g x] extent_disjoint [OF g x(2,1)] by fastforce
qed

lemma deallocate_ok:
  assumes inv: "alloc_inv s sz" and m: "hunk_end s mb = Some me" and p: "p = seg_base s + mb" "p \<noteq> 0"
  shows "\<exists>s'. deallocate p s = Some (Inr s') \<and> alloc_inv s' sz \<and> seg_base s' = seg_base s \<and>
    hunk_end s' = (hunk_end s)(mb := None)"
proof -
  obtain L where L: "layout_inv s sz L" using inv by (auto simp: alloc_inv_def)
  obtain h where "hunks_by_begin s mb = Some h" using m by (auto simp: hunk_end_def Option.bind_eq_Some_conv)
  from deallocate_layout [OF L this p] obtain s' L' where
    s': "deallocate p s = Some (Inr s')" "layout_inv s' sz L'" "seg_base s' = seg_base s"
      "\<forall>b e. extent L' b e \<longleftrightarrow> extent L b e \<and> b \<noteq> mb"
    by (elim exE conjE) (rule that)
  have "hunk_end s' b = Some e \<longleftrightarrow> ((hunk_end s)(mb := None)) b = Some e" for b e
    using s'(4) hunk_end_extent [OF L] hunk_end_extent [OF s'(2)] by auto
  then have "hunk_end s' = (hunk_end s)(mb := None)" by (intro ext) (metis not_Some_eq)
  with s' show ?thesis by (auto simp: alloc_inv_def)
qed

text \<open>
  (C8) Freeing a live hunk returns it to the holes and keeps the invariant; every other live hunk keeps
  its extent, and the freed bytes are the only ones that become free.
\<close>

theorem deallocate_correct:
  assumes inv: "alloc_inv s sz" and m: "hunk_end s mb = Some me" and p: "p = seg_base s + mb" "p \<noteq> 0"
  shows "\<exists>s'. deallocate p s = Some (Inr s') \<and> alloc_inv s' sz \<and> seg_base s' = seg_base s \<and>
    hunk_end s' = (hunk_end s)(mb := None)"
  by (rule deallocate_ok [OF assms])

theorem deallocate_correct_witness:
  "\<exists>s s'. hunk_end s 0 = Some 128 \<and> deallocate 4096 s = Some (Inr s') \<and> hunk_end s' = (hunk_end s)(0 := None)"
proof -
  obtain s where s: "alloc_inv s 65536" "seg_base s = 4096" "hunk_end s 0 = Some 128" using two_live_hunks by blast
  from deallocate_correct [OF s(1,3), of 4096] s(2,3) show ?thesis by auto
qed

lemma deallocate_unknown:
  assumes "alloc_inv s sz" "hunk_end s (p - seg_base s) = None"
  shows "deallocate p s = Some (if p = 0 then Inr s else Inl Invalid_address)"
proof -
  obtain L where L: "layout_inv s sz L" using assms(1) by (auto simp: alloc_inv_def)
  have "hunks_by_begin s (p - seg_base s) = None"
    using assms(2) dom_hunk_end_hunks [OF L] domIff by metis
  then show ?thesis by (simp add: deallocate_def Let_def)
qed

text \<open>
  (C21) An address that is not the begin of a live hunk is reported, not freed; null is ignored.
\<close>

theorem deallocate_invalid:
  assumes "alloc_inv s sz" "hunk_end s (p - seg_base s) = None"
  shows "deallocate p s = Some (if p = 0 then Inr s else Inl Invalid_address)"
  by (rule deallocate_unknown [OF assms])

theorem deallocate_invalid_witness:
  "\<exists>s. hunk_end s 128 = Some 384 \<and> deallocate (4096 + 64) s = Some (Inl Invalid_address)"
proof -
  obtain s where s: "alloc_inv s 65536" "seg_base s = 4096" "hunk_end s 128 = Some 384" "hunk_end s 64 = None"
    using two_live_hunks by blast
  from deallocate_invalid [OF s(1), of "4096 + 64"] s show ?thesis by auto
qed

subsection \<open>Histories of a client\<close>

text \<open>
  What a client holds after any sequence of calls on an allocator over the \<open>sz\<close> bytes from \<open>base\<close>: the size and the
  alignment it asked for, by the address it was given. A call of \<open>deallocate\<close> that reports an invalid address changes nothing.
\<close>

definition request_ok :: "u64 \<Rightarrow> u64 \<Rightarrow> u64 \<Rightarrow> nat \<Rightarrow> bool" where
  "request_ok base sz req k \<longleftrightarrow> unat req + 4096 \<le> 2 ^ 64 \<and> k < 64 \<and> unat base + unat sz + 2 ^ max 12 k \<le> 2 ^ 64"

inductive seg_history :: "u64 \<Rightarrow> u64 \<Rightarrow> segment_allocator \<Rightarrow> (u64 \<rightharpoonup> u64 \<times> nat) \<Rightarrow> bool" for base sz where
  start: "segment_allocator_init base sz = Some s \<Longrightarrow> seg_history base sz s Map.empty"
| alloc: "seg_history base sz s live \<Longrightarrow> request_ok base sz req k \<Longrightarrow> allocate req (2 ^ k) s = Some (p, s') \<Longrightarrow>
    seg_history base sz s' (if p = 0 then live else live(p \<mapsto> (req, k)))"
| dealloc: "seg_history base sz s live \<Longrightarrow> deallocate p s = Some (Inr s') \<Longrightarrow> seg_history base sz s' (live(p := None))"

definition history_inv :: "u64 \<Rightarrow> u64 \<Rightarrow> segment_allocator \<Rightarrow> (u64 \<rightharpoonup> u64 \<times> nat) \<Rightarrow> bool" where
  "history_inv base sz s live \<longleftrightarrow>
     alloc_inv s sz \<and> seg_base s = base \<and> (\<forall>p. p \<in> dom live \<longleftrightarrow> p - base \<in> dom (hunk_end s)) \<and>
     (\<forall>p r k. live p = Some (r, k) \<longrightarrow> unat p mod 2 ^ k = 0 \<and>
        (\<exists>e. hunk_end s (p - base) = Some e \<and> unat (p - base) + unat r \<le> unat e))"

lemma history_invD:
  assumes "history_inv base sz s live"
  shows "alloc_inv s sz" "seg_base s = base" "p \<in> dom live \<longleftrightarrow> p - base \<in> dom (hunk_end s)"
    and "live p = Some (r, k) \<Longrightarrow> unat p mod 2 ^ k = 0 \<and> (\<exists>e. hunk_end s (p - base) = Some e \<and> unat (p - base) + unat r \<le> unat e)"
  using assms unfolding history_inv_def by blast+

text \<open>The segment does not reach over the end of the address space, so addresses are the base plus the offset.\<close>

lemma history_address:
  assumes "history_inv base sz s live" "unat base + unat sz \<le> 2 ^ 64" "p \<in> dom live"
  shows "unat p = unat base + unat (p - base)"
proof -
  obtain e where "hunk_end s (p - base) = Some e" using assms(3) history_invD(3) [OF assms(1)] by blast
  from live_hunks_disjoint [OF history_invD(1) [OF assms(1)] this this] have "p - base < sz" by (auto intro: order_less_le_trans)
  then have "unat base + unat (p - base) < 2 ^ 64" using assms(2) by (simp add: word_less_nat_alt)
  then have "unat (base + (p - base)) = unat base + unat (p - base)" by (intro unat_add_no_wrap) simp
  then show ?thesis by simp
qed

lemma history_alloc:
  assumes inv: "history_inv base sz s live" and b: "base \<noteq> 0" and r: "request_ok base sz req k"
  shows "\<exists>p s'. allocate req (2 ^ k) s = Some (p, s') \<and> (p \<noteq> 0 \<longrightarrow> p \<notin> dom live) \<and>
    history_inv base sz s' (if p = 0 then live else live(p \<mapsto> (req, k)))"
proof (cases "req = 0")
  case True
  then show ?thesis using inv by (simp add: allocate_def)
next
  case False
  note d = history_invD [OF inv]
  have "fits_request s sz (max 12 k)" "0 < req" "unat req + 4096 \<le> 2 ^ 64"
    using r d(2) False by (auto simp: request_ok_def fits_request_def word_gt_0)
  from allocate_ok [OF d(1) this] obtain p s' where a: "allocate req (2 ^ k) s = Some (p, s')" "alloc_inv s' sz" "seg_base s' = base"
    "p = 0 \<and> s' = s \<and> (\<exists>m_size m_align. round_request req (2 ^ k) = (m_size, m_align) \<and>
        holes_below s (unat m_size + unat m_align - 1)) \<or> unat p mod 2 ^ k = 0 \<and>
     (\<exists>mb me. unat p = unat base + unat mb \<and> hunk_end s mb = None \<and> hunk_end s' mb = Some me \<and> unat mb + unat req \<le> unat me \<and> me \<le> sz \<and>
        (\<forall>b e. hunk_end s b = Some e \<longrightarrow> (\<exists>e'. hunk_end s' b = Some e' \<and> e \<le> e')) \<and>
        dom (hunk_end s') = insert mb (dom (hunk_end s)))"
    unfolding d(2) by (elim exE conjE) (rule that)
  from a(4) show ?thesis
  proof
    assume "p = 0 \<and> s' = s \<and> (\<exists>m_size m_align. round_request req (2 ^ k) = (m_size, m_align) \<and>
        holes_below s (unat m_size + unat m_align - 1))"
    then show ?thesis using a(1) inv by auto
  next
    assume "unat p mod 2 ^ k = 0 \<and> (\<exists>mb me. unat p = unat base + unat mb \<and> hunk_end s mb = None \<and> hunk_end s' mb = Some me \<and>
        unat mb + unat req \<le> unat me \<and> me \<le> sz \<and> (\<forall>b e. hunk_end s b = Some e \<longrightarrow> (\<exists>e'. hunk_end s' b = Some e' \<and> e \<le> e')) \<and>
        dom (hunk_end s') = insert mb (dom (hunk_end s)))"
    then obtain mb me where h: "unat p mod 2 ^ k = 0" "unat p = unat base + unat mb" "hunk_end s mb = None" "hunk_end s' mb = Some me"
        "unat mb + unat req \<le> unat me" "\<forall>b e. hunk_end s b = Some e \<longrightarrow> (\<exists>e'. hunk_end s' b = Some e' \<and> e \<le> e')"
        "dom (hunk_end s') = insert mb (dom (hunk_end s))"
      by (elim conjE exE) (rule that)
    have "unat p \<noteq> 0" using h(2) b by (simp add: unat_eq_0)
    then have p0: "p \<noteq> 0" by auto
    have "unat (base + mb) = unat base + unat mb" using h(2) unat_lt64 [of p] by (intro unat_add_no_wrap) simp
    then have pm: "p = base + mb" using h(2) by (simp add: word_unat_eq_iff)
    have pn: "p \<notin> dom live" using d(3) [of p] h(3) by (simp add: pm domIff)
    have ke: "\<exists>e'. hunk_end s' b = Some e' \<and> n \<le> unat e'" if "hunk_end s b = Some e" "n \<le> unat e" for b e n
      using h(6) that by (force simp: word_le_nat_alt)
    have "history_inv base sz s' (live(p \<mapsto> (req, k)))"
      unfolding history_inv_def
    proof (intro conjI allI impI a(2,3))
      fix q
      show "(q \<in> dom (live(p \<mapsto> (req, k)))) = (q - base \<in> dom (hunk_end s'))" using d(3) [of q] by (auto simp: h(7) pm)
      fix r j assume q: "(live(p \<mapsto> (req, k))) q = Some (r, j)"
      show "unat q mod 2 ^ j = 0" using q h(1) d(4) [of q r j] by (auto split: if_splits)
      show "\<exists>e. hunk_end s' (q - base) = Some e \<and> unat (q - base) + unat r \<le> unat e"
        using q h(4,5) d(4) [of q r j] ke by (auto simp: pm split: if_splits)
    qed
    then show ?thesis using a(1) p0 pn by auto
  qed
qed

lemma history_dealloc:
  assumes inv: "history_inv base sz s live" and b: "base \<noteq> 0" "unat base + unat sz \<le> 2 ^ 64"
  shows "deallocate p s = Some (Inr s) \<and> p = 0 \<and> p \<notin> dom live \<or> deallocate p s = Some (Inl Invalid_address) \<and> p \<notin> dom live \<or>
    p \<in> dom live \<and> (\<exists>s'. deallocate p s = Some (Inr s') \<and> history_inv base sz s' (live(p := None)))"
proof (cases "p \<in> dom live")
  case False
  then have "hunk_end s (p - seg_base s) = None" using history_invD(2,3) [OF inv] by blast
  from deallocate_unknown [OF history_invD(1) [OF inv] this] False show ?thesis by auto
next
  case True
  note d = history_invD [OF inv]
  have "unat p = unat base + unat (p - base)" by (rule history_address [OF inv b(2) True])
  then have "unat p \<noteq> 0" using b(1) by (simp add: unat_eq_0)
  then have "p \<noteq> 0" by auto
  moreover obtain me where me: "hunk_end s (p - base) = Some me" using True d(3) by blast
  ultimately obtain s' where s': "deallocate p s = Some (Inr s')" "alloc_inv s' sz" "seg_base s' = seg_base s"
      "hunk_end s' = (hunk_end s)(p - base := None)"
    using deallocate_ok [OF d(1) me, of p] d(2) by auto
  have "history_inv base sz s' (live(p := None))"
    using s'(2,3) d(2,3) d(4) by (auto simp: history_inv_def s'(4) dom_def)
  then show ?thesis using s'(1) True by blast
qed

lemma not_isl_iff: "\<not> isl r \<longleftrightarrow> (\<exists>x. r = Inr x)"
  by (cases r) simp_all

lemma history_inv:
  assumes "base \<noteq> 0" "unat base + unat sz \<le> 2 ^ 64" "unat sz < 2 ^ 63"
  shows "seg_history base sz s live \<Longrightarrow> history_inv base sz s live"
proof (induction rule: seg_history.induct)
  case (start s)
  then have "alloc_inv s sz" "seg_base s = base" "hunks_by_begin s = Map.empty" using init_inv [OF assms(3), of base] by auto
  then show ?case by (auto simp: history_inv_def hunk_end_def dom_def)
next
  case (alloc s live req k p s')
  then show ?case using history_alloc [OF alloc.IH assms(1) alloc.hyps(2)] by auto
next
  case (dealloc s live p s')
  show ?case
  proof (cases "p \<in> dom live")
    case True
    then obtain s1 where s1: "deallocate p s = Some (Inr s1)" "history_inv base sz s1 (live(p := None))"
      using history_dealloc [OF dealloc.IH assms(1,2), of p] by blast
    then have "s1 = s'" using dealloc.hyps(2) by simp
    with s1(2) show ?thesis by (simp only:)
  next
    case False
    then have "s' = s" using history_dealloc [OF dealloc.IH assms(1,2), of p] dealloc.hyps(2) by auto
    moreover have "live(p := None) = live" using False by (simp add: domIff fun_upd_idem)
    ultimately show ?thesis using dealloc.IH by (simp only:)
  qed
qed

text \<open>
  (C20) Whatever a client does with the allocator of a segment, from its construction on, with any sequence of requests and of calls
  of \<open>deallocate\<close> on any addresses: the blocks it holds lie in the segment, are aligned and sized as asked, and
  do not overlap; a further request never follows a bad pointer and returns null or an address that is not in use;
  each address that is held can be freed, and every other address but null is reported as invalid.
\<close>

theorem segment_client_safe:
  assumes "seg_history base sz s live" "base \<noteq> 0" "unat base + unat sz \<le> 2 ^ 64" "unat sz < 2 ^ 63"
  shows "(\<forall>p r k. live p = Some (r, k) \<longrightarrow>
      unat base \<le> unat p \<and> unat p + unat r \<le> unat base + unat sz \<and> unat p mod 2 ^ k = 0 \<and> p \<noteq> 0) \<and>
    (\<forall>p r k q r' k'. live p = Some (r, k) \<longrightarrow> live q = Some (r', k') \<longrightarrow> p \<noteq> q \<longrightarrow>
      unat p + unat r \<le> unat q \<or> unat q + unat r' \<le> unat p) \<and>
    (\<forall>req k. request_ok base sz req k \<longrightarrow> (\<exists>p s'. allocate req (2 ^ k) s = Some (p, s') \<and> live p = None)) \<and>
    (\<forall>p. p \<in> dom live \<longrightarrow> (\<exists>s'. deallocate p s = Some (Inr s'))) \<and>
    (\<forall>p. p \<notin> dom live \<longrightarrow> deallocate p s = Some (if p = 0 then Inr s else Inl Invalid_address))"
proof -
  have inv: "history_inv base sz s live" by (rule history_inv [OF assms(2,3,4,1)])
  note d = history_invD [OF inv]
  have ad: "unat p = unat base + unat (p - base)" if "p \<in> dom live" for p by (rule history_address [OF inv assms(3) that])
  have "unat base \<noteq> 0" using assms(2) by (simp add: unat_eq_0)
  then have b0: "0 < unat base" by simp
  have l: "unat base \<le> unat p \<and> unat p + unat r \<le> unat base + unat sz \<and> unat p mod 2 ^ k = 0 \<and> p \<noteq> 0"
    if p: "live p = Some (r, k)" for p r k
  proof -
    obtain e where e: "hunk_end s (p - base) = Some e" "unat (p - base) + unat r \<le> unat e" "unat p mod 2 ^ k = 0"
      using d(4) [OF p] by (elim exE conjE) (rule that)
    have "unat e \<le> unat sz" using live_hunks_disjoint [OF d(1) e(1) e(1)] by (simp add: word_le_nat_alt)
    moreover have u: "unat p = unat base + unat (p - base)" using ad p by blast
    moreover have "0 < unat p" using b0 u by linarith
    then have "p \<noteq> 0" by (intro notI) simp
    moreover have "unat base \<le> unat p" using u by linarith
    moreover have "unat p + unat r \<le> unat base + unat sz" using u e(2) \<open>unat e \<le> unat sz\<close> by linarith
    ultimately show ?thesis using e(3) by blast
  qed
  have dj: "unat p + unat r \<le> unat q \<or> unat q + unat r' \<le> unat p"
    if p: "live p = Some (r, k)" and q: "live q = Some (r', k')" and ne: "p \<noteq> q" for p r k q r' k'
  proof -
    obtain e e' where e: "hunk_end s (p - base) = Some e" "unat (p - base) + unat r \<le> unat e"
        "hunk_end s (q - base) = Some e'" "unat (q - base) + unat r' \<le> unat e'"
      using d(4) [OF p] d(4) [OF q] by blast
    have "p - base \<noteq> q - base" using ne by simp
    then have "e \<le> q - base \<or> e' \<le> p - base" using live_hunks_disjoint [OF d(1) e(1,3)] by blast
    moreover have "unat p = unat base + unat (p - base)" "unat q = unat base + unat (q - base)" using ad p q by blast+
    ultimately show ?thesis using e(2,4) unfolding word_le_nat_alt by linarith
  qed
  have z: "live 0 = None" using l [of 0] by (metis not_Some_eq prod.exhaust)
  have al: "\<exists>p s'. allocate req (2 ^ k) s = Some (p, s') \<and> live p = None" if r: "request_ok base sz req k" for req k
  proof -
    obtain p s' where "allocate req (2 ^ k) s = Some (p, s')" "p \<noteq> 0 \<longrightarrow> p \<notin> dom live" using history_alloc [OF inv assms(2) r] by blast
    moreover have "live p = None" using calculation(2) z unfolding domIff by (cases "p = 0") blast+
    ultimately show ?thesis by blast
  qed
  have de: "\<exists>s'. deallocate p s = Some (Inr s')" if "p \<in> dom live" for p
    using history_dealloc [OF inv assms(2,3), of p] that by blast
  have un: "deallocate p s = Some (if p = 0 then Inr s else Inl Invalid_address)" if "p \<notin> dom live" for p
    using deallocate_unknown [OF d(1), of p] d(2) d(3) [of p] that by (simp add: domIff)
  show ?thesis
  proof (intro conjI)
    show "\<forall>p r k. live p = Some (r, k) \<longrightarrow>
        unat base \<le> unat p \<and> unat p + unat r \<le> unat base + unat sz \<and> unat p mod 2 ^ k = 0 \<and> p \<noteq> 0" using l by blast
    show "\<forall>p r k q r' k'. live p = Some (r, k) \<longrightarrow> live q = Some (r', k') \<longrightarrow> p \<noteq> q \<longrightarrow>
        unat p + unat r \<le> unat q \<or> unat q + unat r' \<le> unat p" using dj by blast
  qed (use al de un in \<open>blast+\<close>)
qed

theorem segment_client_safe_witness:
  "\<exists>s live. seg_history 4096 65536 s live \<and> live 4096 = None \<and> live 4224 = Some (200, 3) \<and>
     deallocate 4096 s = Some (Inl Invalid_address) \<and> (\<exists>s'. deallocate 4224 s = Some (Inr s'))"
proof -
  have "do { s \<leftarrow> segment_allocator_init 4096 65536; (p, s1) \<leftarrow> allocate 100 (2 ^ 3) s; (q, s2) \<leftarrow> allocate 200 (2 ^ 3) s1;
      r \<leftarrow> deallocate 4096 s2; Some (p, q, \<not> isl r) } = Some (4096, 4224, True)"
    by code_simp
  then obtain s s1 s2 s3 where e: "segment_allocator_init 4096 65536 = Some s" "allocate 100 (2 ^ 3) s = Some (4096, s1)"
      "allocate 200 (2 ^ 3) s1 = Some (4224, s2)" "deallocate 4096 s2 = Some (Inr s3)"
    by (auto simp: Option.bind_eq_Some_conv not_isl_iff split: sum.splits)
  have r: "request_ok 4096 65536 100 3" "request_ok 4096 65536 200 3" by (simp_all add: request_ok_def)
  have "seg_history 4096 65536 s Map.empty" by (rule seg_history.start [OF e(1)])
  from seg_history.alloc [OF this r(1) e(2)] have "seg_history 4096 65536 s1 [4096 \<mapsto> (100, 3)]" by simp
  from seg_history.alloc [OF this r(2) e(3)] have "seg_history 4096 65536 s2 [4096 \<mapsto> (100, 3), 4224 \<mapsto> (200, 3)]" by simp
  from seg_history.dealloc [OF this e(4)] have h: "seg_history 4096 65536 s3 ([4096 \<mapsto> (100, 3), 4224 \<mapsto> (200, 3)](4096 := None))" .
  let ?live = "[4096 :: u64 \<mapsto> (100, 3), 4224 \<mapsto> (200, 3)](4096 := None)"
  have l: "?live 4096 = None" "?live 4224 = Some (200, 3)" by simp_all
  have "(\<forall>p. p \<in> dom ?live \<longrightarrow> (\<exists>s'. deallocate p s3 = Some (Inr s'))) \<and>
      (\<forall>p. p \<notin> dom ?live \<longrightarrow> deallocate p s3 = Some (if p = 0 then Inr s3 else Inl Invalid_address))"
    using segment_client_safe [OF h] by simp
  then have "deallocate 4096 s3 = Some (Inl Invalid_address)" "\<exists>s'. deallocate 4224 s3 = Some (Inr s')" by auto
  then show ?thesis using h l by blast
qed

text \<open>
  The free space reported is the number of bytes of the segment that no live hunk holds.
\<close>

theorem segment_free_exact:
  assumes "alloc_inv s sz"
  shows "unat (segment_free s) =
    card {i. i < unat sz \<and> \<not> (\<exists>b e. hunk_end s b = Some e \<and> unat b \<le> i \<and> i < unat e)}"
proof -
  obtain L where L: "layout_inv s sz L" using assms(1) by (auto simp: alloc_inv_def)
  then have "bgn (last L) = sz" "bgn (hd L) = 0" by (auto simp: layout_inv_def geometry_def)
  then show ?thesis unfolding segment_free_layout [OF L] by (simp add: free_offsets_def hunk_end_extent [OF L])
qed

theorem segment_free_exact_witness:
  "\<exists>s. hunk_end s 0 = Some 128 \<and> unat (segment_free s) =
     card {i. i < unat (65536 :: u64) \<and> \<not> (\<exists>b e. hunk_end s b = Some e \<and> unat b \<le> i \<and> i < unat e)}"
  using two_live_hunks segment_free_exact [of _ 65536] by blast

text \<open>
  A fresh allocator over a segment of less than \<open>2 ^ 63\<close> bytes satisfies the invariant, has no hunk, and
  reports the whole segment as free.
\<close>

theorem segment_allocator_init_correct:
  assumes "unat sz < 2 ^ 63"
  shows "\<exists>s. segment_allocator_init base sz = Some s \<and> alloc_inv s sz \<and> segment_range s = Some (base, sz) \<and>
     hunk_end s = Map.empty \<and> segment_free s = sz"
proof -
  obtain s where s: "segment_allocator_init base sz = Some s" "alloc_inv s sz" "seg_base s = base"
      "hunks_by_begin s = Map.empty" using init_inv [OF assms] by blast
  then have "hunk_end s = Map.empty" by (simp add: hunk_end_def fun_eq_iff)
  moreover have "segment_range s = Some (base, sz) \<and> segment_free s = sz"
    using s(1) assms by (auto simp: segment_allocator_init_def segment_range_def segment_free_def insert_hole_by_size_def
        new_block_def upd_block_def endpost_def block_new_def take_bit_63 Let_def split: if_splits)
  ultimately show ?thesis using s by blast
qed

theorem segment_allocator_init_correct_witness:
  "\<exists>s. segment_allocator_init 4096 65536 = Some s \<and> segment_free s = 65536"
  using segment_allocator_init_correct [of 65536 4096] by auto

text \<open>
  The rounding of sizes wraps: a request for every byte of the address space is rounded to
  size 0 and succeeds, and the next request is handed the same address while the first is live.
\<close>

lemma allocate_huge_request_overlaps:
  "do { s \<leftarrow> segment_allocator_init 4096 65536; (p, s1) \<leftarrow> allocate (- 1) 8 s; (q, s2) \<leftarrow> allocate 100 8 s1; Some (p, q) }
     = Some (4096, 4096)"
  by code_simp

text \<open>
  The destructor returns on every well-formed allocator: it deletes each block exactly once
  and leaves the member \<open>endpost\<close> alone, so no block leaks and no dangling pointer is followed.
\<close>

theorem segment_allocator_destroy_frees_all:
  assumes "alloc_inv s sz"
  shows "\<exists>s' e. segment_allocator_destroy s = Some s' \<and> blocks s' = [endpost \<mapsto> e]"
proof -
  obtain L where L: "linked (blocks s) (heap_next s) L" "geometry sz L"
    using assms by (auto simp: alloc_inv_def layout_inv_def)
  then obtain A where A: "L = A @ [(endpost, False, sz)]"
    by (metis append_butlast_last_id geometry_def)
  then have "endpost \<notin> fst ` set A" "distinct (map fst A)" using L(1) by (auto simp: linked_def)
  then show ?thesis
    using destroy_from_links [of A endpost s] L(1) links_app_last [of "(endpost, False, sz)" A None] A
    by (auto simp: segment_allocator_destroy_def linked_def)
qed

theorem segment_allocator_destroy_frees_all_witness:
  "\<exists>s s' e. segment_allocator_init 4096 65536 = Some s \<and> segment_allocator_destroy s = Some s' \<and> blocks s' = [endpost \<mapsto> e]"
proof -
  obtain s where "segment_allocator_init 4096 65536 = Some s" "alloc_inv s 65536"
    using init_inv [of 65536 4096] by auto
  with segment_allocator_destroy_frees_all [of s 65536] show ?thesis by auto
qed

end
