(* ===== verification/Intru_Queue.thy ===== *)
theory Intru_Queue
  imports Prelude "HOL-Library.Monad_Syntax"
begin

text \<open>
  Component \<open>detail::intru_queue\<close> (src/intru_queue.hpp), the queue with no thread safety and the
  one behind a global lock. A queue is two cells of memory, \<open>head\<close> at its address and
  \<open>tailp_xor_head\<close> one word after it; an element \<open>x\<close> carries its link in the cell at \<open>x + off\<close>, where
  \<open>off\<close> is the offset of the member \<open>intruder\<close>. The tail is a pointer to the cell that ends the list, so
  it may point at \<open>head\<close> itself: the model keeps all the cells in one memory.
\<close>

unbundle bit_operations_syntax

subsection \<open>The queue without thread safety\<close>

type_synonym memory = "u64 \<Rightarrow> u64"

definition intruder_init :: "u64 \<Rightarrow> u64 \<Rightarrow> memory \<Rightarrow> memory" where
  "intruder_init off x m = m(x + off := 1)"

definition is_enqueued :: "u64 \<Rightarrow> memory \<Rightarrow> u64 \<Rightarrow> bool" where
  "is_enqueued off m x \<longleftrightarrow> m (x + off) \<noteq> 1"

definition xor_cell :: "u64 \<Rightarrow> u64" where
  "xor_cell q = q + 8"

definition intru_queue_init :: "u64 \<Rightarrow> memory \<Rightarrow> memory" where
  "intru_queue_init q m = m(q := 0, xor_cell q := 0)"

definition intru_queue_move :: "u64 \<Rightarrow> u64 \<Rightarrow> memory \<Rightarrow> memory" where
  "intru_queue_move this that m =
     (let m = m(this := m that);
          m = (if m (xor_cell that) = 0 then m(xor_cell this := 0)
               else m(xor_cell this := m (xor_cell that) XOR that XOR this));
          m = m(that := 0)
      in m(xor_cell that := 0))"

definition intru_queue_empty :: "u64 \<Rightarrow> memory \<Rightarrow> bool" where
  "intru_queue_empty q m \<longleftrightarrow> m q = 0"

definition intru_queue_peek :: "u64 \<Rightarrow> memory \<Rightarrow> u64" where
  "intru_queue_peek q m = m q"

definition intru_queue_enqueue :: "u64 \<Rightarrow> u64 \<Rightarrow> u64 \<Rightarrow> memory \<Rightarrow> memory" where
  "intru_queue_enqueue off q x m =
     (let tailp = q XOR m (xor_cell q);
          m = m(tailp := x);
          m = m(xor_cell q := (x + off) XOR q)
      in m(x + off := 0))"

text \<open>\<open>None\<close> is the failed assertion: the queue is empty.\<close>

definition intru_queue_dequeue :: "u64 \<Rightarrow> u64 \<Rightarrow> memory \<Rightarrow> (u64 \<times> memory) option" where
  "intru_queue_dequeue off q m =
     (let ans = m q
      in if ans = 0 then None
         else
           let m = m(q := m (ans + off))
           in Some (ans, if m q = 0 then m(xor_cell q := 0) else m))"

text \<open>
  The bursts run a callback on each element. It acts on the memory and on a state of its own:
  it may delete the element, enqueue others, or burst the same queue again. The loops end only
  if the callback lets them, so they are partial functions of the option type.
\<close>

type_synonym 's callback = "u64 \<Rightarrow> memory \<times> 's \<Rightarrow> memory \<times> 's"

partial_function (option) burst_all_loop ::
  "u64 \<Rightarrow> 's callback \<Rightarrow> u64 \<Rightarrow> nat \<Rightarrow> memory \<times> 's \<Rightarrow> (nat \<times> memory \<times> 's) option" where
  "burst_all_loop off fn head1 exec_n st =
     (let head1_next = fst st (head1 + off);
          st = fn head1 st
      in if head1_next \<noteq> 0 then burst_all_loop off fn head1_next (exec_n + 1) st
         else Some (exec_n + 1, st))"

definition burst_all_something ::
  "u64 \<Rightarrow> u64 \<Rightarrow> 's callback \<Rightarrow> u64 \<Rightarrow> memory \<times> 's \<Rightarrow> (nat \<times> memory \<times> 's) option" where
  "burst_all_something off q fn head1 st =
     burst_all_loop off fn head1 0 ((fst st)(q := 0, xor_cell q := 0), snd st)"

definition burst_all ::
  "u64 \<Rightarrow> u64 \<Rightarrow> 's callback \<Rightarrow> memory \<times> 's \<Rightarrow> (nat \<times> memory \<times> 's) option" where
  "burst_all off q fn st =
     (if fst st q = 0 then Some (0, st) else burst_all_something off q fn (fst st q) st)"

text \<open>The bounded loop returns the first element not executed (0 when the list ended) and the budget left.\<close>

partial_function (option) burst_some_loop ::
  "u64 \<Rightarrow> 's callback \<Rightarrow> u64 \<Rightarrow> nat \<Rightarrow> memory \<times> 's \<Rightarrow> (u64 \<times> nat \<times> memory \<times> 's) option" where
  "burst_some_loop off fn head1 n st =
     (let head1_next = fst st (head1 + off);
          st = fn head1 st;
          n = n - 1
      in if head1_next \<noteq> 0 \<and> n \<noteq> 0 then burst_some_loop off fn head1_next n st
         else Some (head1_next, n, st))"

definition push_front :: "u64 \<Rightarrow> u64 \<Rightarrow> u64 \<Rightarrow> memory \<Rightarrow> memory" where
  "push_front q tailp1 head1 m =
     (let m = m(tailp1 := m q);
          m = (if m q = 0 then m(xor_cell q := tailp1 XOR q) else m)
      in m(q := head1))"

text \<open>A burst with a budget asserts that it is positive, else \<open>None\<close>.\<close>

definition burst_something ::
  "u64 \<Rightarrow> u64 \<Rightarrow> nat \<Rightarrow> 's callback \<Rightarrow> u64 \<Rightarrow> memory \<times> 's \<Rightarrow> (nat \<times> memory \<times> 's) option" where
  "burst_something off q max_n fn head1 st =
     (if max_n = 0 then None
      else let tailp1 = q XOR fst st (xor_cell q);
          st = ((fst st)(q := 0, xor_cell q := 0), snd st)
      in do {
           (head1, n, st) \<leftarrow> burst_some_loop off fn head1 max_n st;
           let st = (if head1 \<noteq> 0 then (push_front q tailp1 head1 (fst st), snd st) else st);
           Some (max_n - n, st)
         })"

definition burst ::
  "u64 \<Rightarrow> u64 \<Rightarrow> nat \<Rightarrow> 's callback \<Rightarrow> memory \<times> 's \<Rightarrow> (nat \<times> memory \<times> 's) option" where
  "burst off q max_n fn st =
     (let head = fst st q
      in if max_n = 0 then None
         else if head = 0 then Some (0, st) else burst_something off q max_n fn head st)"

subsection \<open>The queue behind a lock\<close>

text \<open>
  The lock guard: the state is the lock and the memory; taking a lock that is held does not return.
\<close>

definition with_lock :: "(memory \<Rightarrow> ('a \<times> memory) option) \<Rightarrow> bool \<times> memory \<Rightarrow> ('a \<times> bool \<times> memory) option" where
  "with_lock f st = (if fst st then None else do { (a, m) \<leftarrow> f (snd st); Some (a, False, m) })"

definition biglock_empty :: "u64 \<Rightarrow> bool \<times> memory \<Rightarrow> bool" where
  "biglock_empty q st = intru_queue_empty q (snd st)"

definition biglock_peek :: "u64 \<Rightarrow> bool \<times> memory \<Rightarrow> u64" where
  "biglock_peek q st = intru_queue_peek q (snd st)"

definition biglock_enqueue :: "u64 \<Rightarrow> u64 \<Rightarrow> u64 \<Rightarrow> bool \<times> memory \<Rightarrow> (unit \<times> bool \<times> memory) option" where
  "biglock_enqueue off q x = with_lock (\<lambda>m. Some ((), intru_queue_enqueue off q x m))"

definition biglock_dequeue :: "u64 \<Rightarrow> u64 \<Rightarrow> bool \<times> memory \<Rightarrow> (u64 \<times> bool \<times> memory) option" where
  "biglock_dequeue off q = with_lock (intru_queue_dequeue off q)"

text \<open>The burst moves the queue to a local one at \<open>tmpq\<close> under the lock and runs that without it.\<close>

definition biglock_burst ::
  "u64 \<Rightarrow> u64 \<Rightarrow> u64 \<Rightarrow> 's callback \<Rightarrow> (bool \<times> memory) \<times> 's \<Rightarrow> (nat \<times> (bool \<times> memory) \<times> 's) option" where
  "biglock_burst off q tmpq fn st =
     do {
       (_, l, m) \<leftarrow> with_lock (\<lambda>m. Some ((), intru_queue_move tmpq q m)) (fst st);
       (ans, m, s) \<leftarrow> burst_all off tmpq fn (m, snd st);
       Some (ans, (l, m), s)
     }"

definition biglock_burst_max ::
  "u64 \<Rightarrow> u64 \<Rightarrow> u64 \<Rightarrow> nat \<Rightarrow> 's callback \<Rightarrow> (bool \<times> memory) \<times> 's \<Rightarrow> (nat \<times> (bool \<times> memory) \<times> 's) option" where
  "biglock_burst_max off q tmpq max_n fn st = (if max_n = 0 then None else biglock_burst off q tmpq fn st)"

end
