(* ===== verification/Intru_Queue_Correct.thy ===== *)
theory Intru_Queue_Correct
  imports Intru_Queue
begin

text \<open>
  The contents of an intrusive queue as a list, and that the operations on cells implement the
  operations on lists: the interface \<open>fifo_queue\<close> and its two implementations, and the bursts with
  callbacks that enter the queue again.
\<close>

unbundle bit_operations_syntax

subsection \<open>The contents of a queue\<close>

text \<open>\<open>lseg off m p xs r\<close>: from the pointer \<open>p\<close> the links run through \<open>xs\<close> and end in the pointer \<open>r\<close>.\<close>

fun lseg :: "u64 \<Rightarrow> memory \<Rightarrow> u64 \<Rightarrow> u64 list \<Rightarrow> u64 \<Rightarrow> bool" where
  "lseg off m p [] r \<longleftrightarrow> p = r"
| "lseg off m p (x # xs) r \<longleftrightarrow> p = x \<and> x \<noteq> 0 \<and> lseg off m (m (x + off)) xs r"

definition last_cell :: "u64 \<Rightarrow> u64 \<Rightarrow> u64 list \<Rightarrow> u64" where
  "last_cell off c xs = (if xs = [] then c else last xs + off)"

abbreviation cells :: "u64 \<Rightarrow> u64 list \<Rightarrow> u64 list" where
  "cells off xs \<equiv> map (\<lambda>x. x + off) xs"

definition queue_holds :: "u64 \<Rightarrow> u64 \<Rightarrow> memory \<Rightarrow> u64 list \<Rightarrow> bool" where
  "queue_holds off q m xs \<longleftrightarrow>
     lseg off m (m q) xs 0 \<and> m (xor_cell q) = last_cell off q xs XOR q \<and>
     distinct (q # xor_cell q # cells off xs)"

lemma xor_cell_ne [simp]: "xor_cell q \<noteq> q" "q \<noteq> xor_cell q"
  by (simp_all add: xor_cell_def)

lemma xor_cell_inject [simp]: "xor_cell q = xor_cell q' \<longleftrightarrow> q = q'"
  by (simp add: xor_cell_def)

lemma last_cell_simps [simp]:
  "last_cell off c [] = c" "last_cell off c (x # xs) = last_cell off (x + off) xs" "last_cell off c (xs @ [x]) = x + off"
  by (simp_all add: last_cell_def)

lemma lseg_append: "lseg off m p (xs @ ys) r \<longleftrightarrow> (\<exists>t. lseg off m p xs t \<and> lseg off m t ys r)"
  by (induction xs arbitrary: p) auto

lemma lseg_frame [simp]: "c \<notin> set (cells off xs) \<Longrightarrow> lseg off (m(c := v)) p xs r = lseg off m p xs r"
  by (induction xs arbitrary: p) auto

lemma lseg_cong: "(\<And>x. x \<in> set xs \<Longrightarrow> m' (x + off) = m (x + off)) \<Longrightarrow> lseg off m' p xs r = lseg off m p xs r"
  by (induction xs arbitrary: p) auto

lemma lseg_nonzero: "lseg off m p xs r \<Longrightarrow> x \<in> set xs \<Longrightarrow> x \<noteq> 0"
  by (induction xs arbitrary: p) auto

lemma lseg_last: "lseg off m p xs r \<Longrightarrow> xs \<noteq> [] \<Longrightarrow> m (last_cell off c xs) = r"
  by (induction xs arbitrary: p c) (auto split: if_splits simp: last_cell_def)

text \<open>Writing the last cell moves the end of the segment.\<close>

lemma lseg_set_last:
  "lseg off m (m c) xs r \<Longrightarrow> distinct (c # cells off xs) \<Longrightarrow>
     lseg off (m(last_cell off c xs := r')) ((m(last_cell off c xs := r')) c) xs r'"
proof (induction xs arbitrary: c)
  case (Cons x xs)
  have "last_cell off (x + off) xs \<noteq> c"
    using Cons.prems(2) by (auto simp: last_cell_def)
  then show ?case using Cons.prems Cons.IH [of "x + off"] by auto
qed simp

lemma last_cell_mem: "last_cell off c xs \<in> set (c # cells off xs)"
  by (auto simp: last_cell_def)

lemma xor_twice [simp]: "(a :: u64) XOR (b XOR a) = b" "a XOR (a XOR b) = b" "(b XOR a) XOR a = b"
  by (simp_all add: ac_simps)

lemma xor_eq_0_iff: "(a :: u64) XOR b = 0 \<longleftrightarrow> a = b"
  by (metis xor_twice(2) xor.right_neutral xor_self_eq)

lemma queue_holds_empty: "queue_holds off q m xs \<Longrightarrow> intru_queue_empty q m \<longleftrightarrow> xs = []"
  by (cases xs) (auto simp: queue_holds_def intru_queue_empty_def)

lemma queue_holds_enqueue:
  assumes h: "queue_holds off q m xs" and x: "x \<noteq> 0" "x + off \<notin> set (q # xor_cell q # cells off xs)"
  shows "queue_holds off q (intru_queue_enqueue off q x m) (xs @ [x])"
proof -
  let ?t = "last_cell off q xs"
  have t: "q XOR m (xor_cell q) = ?t" using h by (simp add: queue_holds_def)
  have tm: "?t \<noteq> xor_cell q" "?t \<noteq> x + off" 
  proof -
    have "xor_cell q \<notin> set (q # cells off xs)" "x + off \<notin> set (q # cells off xs)" using h x(2) by (simp_all add: queue_holds_def)
    with last_cell_mem [of off q xs] show "?t \<noteq> xor_cell q" "?t \<noteq> x + off" by metis+
  qed
  let ?m = "m(?t := x, xor_cell q := (x + off) XOR q, x + off := 0)"
  have "lseg off (m(?t := x)) ((m(?t := x)) q) xs x" using h by (intro lseg_set_last) (auto simp: queue_holds_def)
  then have "lseg off ?m (?m q) xs x" using h x tm by (auto simp: queue_holds_def)
  moreover have "intru_queue_enqueue off q x m = ?m" by (simp add: intru_queue_enqueue_def Let_def t)
  ultimately show ?thesis using h x tm by (auto simp: queue_holds_def lseg_append)
qed

lemma queue_holds_dequeue:
  assumes h: "queue_holds off q m (x # xs)"
  shows "\<exists>m'. intru_queue_dequeue off q m = Some (x, m') \<and> queue_holds off q m' xs \<and>
    (\<forall>c. c \<noteq> q \<longrightarrow> c \<noteq> xor_cell q \<longrightarrow> m' c = m c)"
proof -
  have x: "m q = x" "x \<noteq> 0" "lseg off m (m (x + off)) xs 0" "x + off \<noteq> q" "x + off \<noteq> xor_cell q"
    using h by (auto simp: queue_holds_def)
  show ?thesis
  proof (cases xs)
    case Nil
    then show ?thesis using x by (auto simp: intru_queue_dequeue_def Let_def queue_holds_def)
  next
    case (Cons y ys)
    then have "m (x + off) \<noteq> 0" using x(3) by auto
    then show ?thesis using x h Cons by (auto simp: intru_queue_dequeue_def Let_def queue_holds_def)
  qed
qed

lemma queue_holds_init: "queue_holds off q (intru_queue_init q m) []"
  by (simp add: queue_holds_def intru_queue_init_def)

lemma queue_holds_dequeue_empty: "queue_holds off q m [] \<Longrightarrow> intru_queue_dequeue off q m = None"
  by (simp add: queue_holds_def intru_queue_dequeue_def)

lemma queue_holds_move:
  assumes h: "queue_holds off that m xs"
    and d: "distinct [this, xor_cell this, that, xor_cell that]"
      "this \<notin> set (cells off xs)" "xor_cell this \<notin> set (cells off xs)"
  shows "queue_holds off this (intru_queue_move this that m) xs \<and> queue_holds off that (intru_queue_move this that m) []"
proof -
  have z: "m (xor_cell that) = 0 \<longleftrightarrow> xs = []"
    using h by (cases xs rule: rev_cases) (auto simp: queue_holds_def xor_eq_0_iff)
  then show ?thesis
    using h d unfolding queue_holds_def intru_queue_move_def Let_def
    by (cases xs rule: rev_cases) (auto simp: xor.assoc)
qed

subsection \<open>Bursts\<close>

text \<open>
  What a burst relies on of its callback: on the contents of the queue and on its own state it
  acts as \<open>eff\<close>, and it leaves alone the links of the elements of the burst that are still to run.
\<close>

definition callback_ok ::
  "u64 \<Rightarrow> u64 \<Rightarrow> u64 list \<Rightarrow> 's callback \<Rightarrow> (u64 \<Rightarrow> u64 list \<times> 's \<Rightarrow> u64 list \<times> 's) \<Rightarrow> bool" where
  "callback_ok off q xs fn eff \<longleftrightarrow>
     (\<forall>as x bs m s ys. xs = as @ x # bs \<longrightarrow> queue_holds off q m ys \<longrightarrow>
        set (cells off ys) \<inter> set (cells off (x # bs)) = {} \<longrightarrow>
        queue_holds off q (fst (fn x (m, s))) (fst (eff x (ys, s))) \<and> snd (fn x (m, s)) = snd (eff x (ys, s)) \<and>
        (\<forall>c \<in> set (cells off bs). fst (fn x (m, s)) c = m c) \<and>
        set (cells off (fst (eff x (ys, s)))) \<inter> set (cells off bs) = {})"

lemma callback_step:
  assumes "callback_ok off q xs fn eff" "xs = as @ x # bs" "queue_holds off q m ys"
    "set (cells off ys) \<inter> set (cells off (x # bs)) = {}"
  obtains m' where "fn x (m, s) = (m', snd (eff x (ys, s)))" "queue_holds off q m' (fst (eff x (ys, s)))"
    "\<forall>c \<in> set (cells off bs). m' c = m c" "set (cells off (fst (eff x (ys, s)))) \<inter> set (cells off bs) = {}"
  using assms unfolding callback_ok_def by (metis prod.collapse)

lemma lseg_step:
  "lseg off m p (x # bs) 0 \<Longrightarrow> \<forall>c \<in> set (cells off bs). m' c = m c \<Longrightarrow>
     p = x \<and> lseg off m' (m (x + off)) bs 0 \<and> (m (x + off) \<noteq> 0 \<longleftrightarrow> bs \<noteq> [])"
  using lseg_cong [of bs m' off m] by (cases bs) auto

lemma burst_all_loop_runs:
  assumes ok: "callback_ok off q xs fn eff"
  shows "xs = as @ x # bs \<Longrightarrow> lseg off m p (x # bs) 0 \<Longrightarrow> queue_holds off q m ys \<Longrightarrow>
     set (cells off ys) \<inter> set (cells off (x # bs)) = {} \<Longrightarrow>
     \<exists>m'. burst_all_loop off fn p k (m, s) = Some (k + length (x # bs), m', snd (fold eff (x # bs) (ys, s))) \<and>
       queue_holds off q m' (fst (fold eff (x # bs) (ys, s)))"
proof (induction bs arbitrary: as x m p ys s k)
  case (Nil)
  then obtain m' where "fn x (m, s) = (m', snd (eff x (ys, s)))" "queue_holds off q m' (fst (eff x (ys, s)))"
    using callback_step [OF ok Nil.prems(1,3,4)] by metis
  then show ?case using Nil by (subst burst_all_loop.simps) (simp add: Let_def)
next
  case (Cons b bs)
  obtain m1 where m1: "fn x (m, s) = (m1, snd (eff x (ys, s)))" "queue_holds off q m1 (fst (eff x (ys, s)))"
    "\<forall>c \<in> set (cells off (b # bs)). m1 c = m c" "set (cells off (fst (eff x (ys, s)))) \<inter> set (cells off (b # bs)) = {}"
    using callback_step [OF ok Cons.prems(1,3,4)] by metis
  have p: "p = x" "lseg off m1 (m (x + off)) (b # bs) 0" "m (x + off) \<noteq> 0"
    using lseg_step [OF Cons.prems(2) m1(3)] by blast+
  have "xs = (as @ [x]) @ b # bs" "set (cells off (fst (eff x (ys, s)))) \<inter> set (cells off (b # bs)) = {}"
    using Cons.prems(1) m1(4) by simp_all
  from Cons.IH [OF this(1) p(2) m1(2) this(2), of "k + 1" "snd (eff x (ys, s))"] obtain m' where
    "burst_all_loop off fn (m (x + off)) (k + 1) (m1, snd (eff x (ys, s))) =
       Some (k + 1 + length (b # bs), m', snd (fold eff (b # bs) (eff x (ys, s))))"
    "queue_holds off q m' (fst (fold eff (b # bs) (eff x (ys, s))))" by auto
  then show ?case using p m1(1) by (subst burst_all_loop.simps) (simp add: Let_def)
qed

lemma burst_some_loop_runs:
  assumes ok: "callback_ok off q xs fn eff"
  shows "xs = as @ x # bs \<Longrightarrow> lseg off m p (x # bs) 0 \<Longrightarrow> queue_holds off q m ys \<Longrightarrow>
     set (cells off ys) \<inter> set (cells off (x # bs)) = {} \<Longrightarrow> 0 < n \<Longrightarrow>
     \<exists>m' r. burst_some_loop off fn p n (m, s) =
         Some (r, n - min n (length (x # bs)), m', snd (fold eff (take n (x # bs)) (ys, s))) \<and>
       queue_holds off q m' (fst (fold eff (take n (x # bs)) (ys, s))) \<and>
       lseg off m' r (drop n (x # bs)) 0 \<and>
       set (cells off (fst (fold eff (take n (x # bs)) (ys, s)))) \<inter> set (cells off (drop n (x # bs))) = {}"
proof (induction bs arbitrary: as x m p ys s n)
  case (Nil)
  obtain m1 where m1: "fn x (m, s) = (m1, snd (eff x (ys, s)))" "queue_holds off q m1 (fst (eff x (ys, s)))"
    using callback_step [OF ok Nil.prems(1,3,4)] by metis
  moreover obtain k where "n = Suc k" using Nil.prems(5) by (cases n) auto
  ultimately show ?case using Nil.prems by (subst burst_some_loop.simps) (simp add: Let_def)
next
  case (Cons b bs)
  obtain m1 where m1: "fn x (m, s) = (m1, snd (eff x (ys, s)))" "queue_holds off q m1 (fst (eff x (ys, s)))"
    "\<forall>c \<in> set (cells off (b # bs)). m1 c = m c" "set (cells off (fst (eff x (ys, s)))) \<inter> set (cells off (b # bs)) = {}"
    using callback_step [OF ok Cons.prems(1,3,4)] by metis
  have p: "p = x" "lseg off m1 (m (x + off)) (b # bs) 0" "m (x + off) \<noteq> 0"
    using lseg_step [OF Cons.prems(2) m1(3)] by blast+
  obtain k where n: "n = Suc k" using Cons.prems(5) by (cases n) auto
  show ?case
  proof (cases "k = 0")
    case True
    then show ?thesis
      using p m1 n by (subst burst_some_loop.simps) (simp add: Let_def)
  next
    case False
    have "xs = (as @ [x]) @ b # bs" "set (cells off (fst (eff x (ys, s)))) \<inter> set (cells off (b # bs)) = {}" "0 < k"
      using Cons.prems(1) m1(4) False by simp_all
    from Cons.IH [OF this(1) p(2) m1(2) this(2,3), of "snd (eff x (ys, s))"] obtain m' r where
      "burst_some_loop off fn (m (x + off)) k (m1, snd (eff x (ys, s))) =
         Some (r, k - min k (length (b # bs)), m', snd (fold eff (take k (b # bs)) (eff x (ys, s))))"
      "queue_holds off q m' (fst (fold eff (take k (b # bs)) (eff x (ys, s))))"
      "lseg off m' r (drop k (b # bs)) 0"
      "set (cells off (fst (fold eff (take k (b # bs)) (eff x (ys, s))))) \<inter> set (cells off (drop k (b # bs))) = {}"
      by auto
    then show ?thesis using p m1(1) n False by (subst burst_some_loop.simps) (simp add: Let_def)
  qed
qed

lemma queue_holds_push_front:
  assumes h: "queue_holds off q m ys" and r: "lseg off m r zs 0" "zs \<noteq> []"
    and d: "distinct (q # xor_cell q # cells off zs)" "set (cells off ys) \<inter> set (cells off zs) = {}"
  shows "queue_holds off q (push_front q (last_cell off q zs) r m) (zs @ ys)"
proof -
  obtain z zs' where z: "zs = z # zs'" "r = z" "z \<noteq> 0" "lseg off m (m (z + off)) zs' 0" using r by (cases zs) auto
  let ?t = "last_cell off q zs"
  have t: "?t = last_cell off (z + off) zs'" by (simp add: z)
  have tm: "?t \<in> set (cells off zs)" unfolding t using last_cell_mem [of off "z + off" zs'] by (auto simp: z)
  then have tn: "?t \<noteq> q" "?t \<noteq> xor_cell q" "?t \<notin> set (cells off ys)" using d by auto
  define m1 where "m1 = m(?t := m q)"
  have s1: "lseg off m1 (m1 (z + off)) zs' (m q)"
    unfolding m1_def t using z d by (intro lseg_set_last) auto
  have "lseg off m1 (m1 q) ys 0" using h tn by (simp add: m1_def queue_holds_def)
  moreover have "m1 q = m q" using tn by (simp add: m1_def)
  moreover have xc: "m1 (xor_cell q) = last_cell off q ys XOR q" using tn h by (simp add: m1_def queue_holds_def)
  moreover have "m q = 0 \<longleftrightarrow> ys = []" using queue_holds_empty [OF h] by (simp add: intru_queue_empty_def)
  moreover have "distinct (cells off ys)" "q \<notin> set (cells off ys)" "xor_cell q \<notin> set (cells off ys)"
    using h by (auto simp: queue_holds_def)
  moreover have "last_cell off q (zs @ ys) = (if ys = [] then ?t else last_cell off q ys)" by (auto simp: last_cell_def)
  moreover have "lseg off m1 z (zs @ ys) 0" using s1 calculation(1,2) z by (auto simp: lseg_append)
  ultimately show ?thesis
    using d unfolding queue_holds_def push_front_def Let_def m1_def [symmetric] z(2)
    by (auto simp: z(1))
qed

lemma queue_holds_reset:
  assumes "queue_holds off q m xs" shows "queue_holds off q (m(q := 0, xor_cell q := 0)) []"
    and "lseg off (m(q := 0, xor_cell q := 0)) (m q) xs 0"
  using assms by (auto simp: queue_holds_def)

lemma burst_all_runs:
  assumes h: "queue_holds off q m xs" and ok: "callback_ok off q xs fn eff"
  shows "\<exists>m'. burst_all off q fn (m, s) = Some (length xs, m', snd (fold eff xs ([], s))) \<and>
     queue_holds off q m' (fst (fold eff xs ([], s)))"
proof (cases xs)
  case Nil
  then show ?thesis using h by (auto simp: burst_all_def queue_holds_def)
next
  case (Cons x bs)
  then have "m q \<noteq> 0" using h by (auto simp: queue_holds_def)
  then show ?thesis
    using burst_all_loop_runs [OF ok, of "[]" x bs "m(q := 0, xor_cell q := 0)" "m q" "[]" 0 s] queue_holds_reset [OF h] Cons
    by (auto simp: burst_all_def burst_all_something_def)
qed

lemma burst_runs:
  assumes h: "queue_holds off q m xs" and ok: "callback_ok off q xs fn eff" and n: "0 < max_n"
  shows "\<exists>m'. burst off q max_n fn (m, s) = Some (min max_n (length xs), m', snd (fold eff (take max_n xs) ([], s))) \<and>
     queue_holds off q m' (drop max_n xs @ fst (fold eff (take max_n xs) ([], s)))"
proof (cases xs)
  case Nil
  then show ?thesis using h n by (auto simp: burst_def queue_holds_def)
next
  case (Cons x bs)
  then have "m q \<noteq> 0" using h by (auto simp: queue_holds_def)
  let ?m = "m(q := 0, xor_cell q := 0)" and ?e = "fold eff (take max_n xs) ([], s)"
  obtain m' r where l: "burst_some_loop off fn (m q) max_n (?m, s) = Some (r, max_n - min max_n (length xs), m', snd ?e)"
      "queue_holds off q m' (fst ?e)" "lseg off m' r (drop max_n xs) 0"
      "set (cells off (fst ?e)) \<inter> set (cells off (drop max_n xs)) = {}"
    using burst_some_loop_runs [OF ok, of "[]" x bs ?m "m q" "[]" max_n s] queue_holds_reset [OF h] Cons n by auto
  have b: "burst off q max_n fn (m, s) = Some (min max_n (length xs),
      if r \<noteq> 0 then push_front q (q XOR m (xor_cell q)) r m' else m', snd ?e)"
    using \<open>m q \<noteq> 0\<close> n by (simp add: burst_def burst_something_def Let_def l(1))
  show ?thesis
  proof (cases "drop max_n xs = []")
    case True
    then show ?thesis using b l(2,3) by simp
  next
    case False
    then have "r \<noteq> 0" using l(3) by (cases "drop max_n xs") auto
    have lc: "q XOR m (xor_cell q) = last_cell off q (drop max_n xs)"
      using h False by (cases "xs = []") (simp_all add: queue_holds_def last_cell_def)
    have "set (cells off (drop max_n xs)) \<subseteq> set (cells off xs)" by (simp only: drop_map [symmetric] set_drop_subset)
    moreover have "distinct (cells off (drop max_n xs))" using h by (simp only: queue_holds_def drop_map [symmetric] distinct.simps distinct_drop)
    ultimately have "distinct (q # xor_cell q # cells off (drop max_n xs))" using h unfolding queue_holds_def by auto
    from queue_holds_push_front [OF l(2,3) False this l(4)] show ?thesis
      using b \<open>r \<noteq> 0\<close> lc by simp
  qed
qed


subsection \<open>The interface of a queue\<close>

text \<open>
  The contract of a first-in first-out queue: \<open>holds\<close> says what a state contains, \<open>can\<close> which element may
  enter next to the given contents.
\<close>

datatype 'a queue_op = Enqueue 'a | Dequeue

fun run_ops ::
  "('a \<Rightarrow> 'm \<Rightarrow> 'm option) \<Rightarrow> ('m \<Rightarrow> ('a \<times> 'm) option) \<Rightarrow> 'a queue_op list \<Rightarrow> 'm \<Rightarrow> ('a list \<times> 'm) option" where
  "run_ops enq deq [] m = Some ([], m)"
| "run_ops enq deq (Enqueue x # ops) m = Option.bind (enq x m) (run_ops enq deq ops)"
| "run_ops enq deq (Dequeue # ops) m =
     do { (x, m) \<leftarrow> deq m; (xs, m) \<leftarrow> run_ops enq deq ops m; Some (x # xs, m) }"

text \<open>The abstract queue is a list: elements enter at its end and leave at its front.\<close>

definition list_enqueue :: "'a \<Rightarrow> 'a list \<Rightarrow> 'a list option" where
  "list_enqueue x xs = Some (xs @ [x])"

fun list_dequeue :: "'a list \<Rightarrow> ('a \<times> 'a list) option" where
  "list_dequeue [] = None"
| "list_dequeue (x # xs) = Some (x, xs)"

text \<open>Every element that enters is one that may enter next to what the queue holds then.\<close>

fun permitted :: "('a \<Rightarrow> 'a list \<Rightarrow> bool) \<Rightarrow> 'a queue_op list \<Rightarrow> 'a list \<Rightarrow> bool" where
  "permitted can [] xs \<longleftrightarrow> True"
| "permitted can (Enqueue x # ops) xs \<longleftrightarrow> can x xs \<and> permitted can ops (xs @ [x])"
| "permitted can (Dequeue # ops) xs \<longleftrightarrow> permitted can ops (tl xs)"

locale fifo_queue =
  fixes holds :: "'m \<Rightarrow> 'a list \<Rightarrow> bool"
    and enq :: "'a \<Rightarrow> 'm \<Rightarrow> 'm option"
    and deq :: "'m \<Rightarrow> ('a \<times> 'm) option"
    and can :: "'a \<Rightarrow> 'a list \<Rightarrow> bool"
  assumes enq_holds: "holds m xs \<Longrightarrow> can x xs \<Longrightarrow> \<exists>m'. enq x m = Some m' \<and> holds m' (xs @ [x])"
    and deq_holds: "holds m (x # xs) \<Longrightarrow> \<exists>m'. deq m = Some (x, m') \<and> holds m' xs"
    and deq_none: "holds m [] \<Longrightarrow> deq m = None"
begin

lemma run_refines:
  "holds m xs \<Longrightarrow> permitted can ops xs \<Longrightarrow>
     (case run_ops list_enqueue list_dequeue ops xs of
        None \<Rightarrow> run_ops enq deq ops m = None
      | Some (out, ys) \<Rightarrow> \<exists>m'. run_ops enq deq ops m = Some (out, m') \<and> holds m' ys)"
proof (induction ops arbitrary: m xs)
  case Nil
  then show ?case by simp
next
  case (Cons a ops)
  show ?case
  proof (cases a)
    case (Enqueue x)
    with Cons.prems obtain m1 where "enq x m = Some m1" "holds m1 (xs @ [x])" using enq_holds [of m xs x] by auto
    then have "run_ops enq deq (a # ops) m = run_ops enq deq ops m1"
      "run_ops list_enqueue list_dequeue (a # ops) xs = run_ops list_enqueue list_dequeue ops (xs @ [x])"
      by (simp_all add: Enqueue list_enqueue_def)
    moreover have "permitted can ops (xs @ [x])" using Cons.prems(2) Enqueue by simp
    ultimately show ?thesis using Cons.IH [OF \<open>holds m1 (xs @ [x])\<close>] by (simp only:)
  next
    case Dequeue
    show ?thesis
    proof (cases "xs = []")
      case True
      then show ?thesis using Cons.prems(1) deq_none Dequeue by simp
    next
      case False
      then obtain x zs where xs: "xs = x # zs" by (cases xs) auto
      with Cons.prems obtain m1 where "deq m = Some (x, m1)" "holds m1 zs" using deq_holds [of m x zs] by auto
      then show ?thesis using Cons.IH [of m1 zs] Cons.prems(2) xs Dequeue
        by (cases "run_ops list_enqueue list_dequeue ops zs") auto
    qed
  qed
qed

lemma list_enqueue_all: "run_ops list_enqueue list_dequeue (map Enqueue zs) xs = Some ([], xs @ zs)"
  by (induction zs arbitrary: xs) (simp_all add: list_enqueue_def)

lemma can_hold: "holds m xs \<Longrightarrow> permitted can (map Enqueue zs) xs \<Longrightarrow> \<exists>m'. holds m' (xs @ zs)"
  using run_refines [of m xs "map Enqueue zs"] by (auto simp: list_enqueue_all)

end

definition can_enqueue :: "u64 \<Rightarrow> u64 \<Rightarrow> u64 \<Rightarrow> u64 list \<Rightarrow> bool" where
  "can_enqueue off q x xs \<longleftrightarrow> x \<noteq> 0 \<and> x + off \<notin> set (q # xor_cell q # cells off xs)"

abbreviation enqueue_op :: "u64 \<Rightarrow> u64 \<Rightarrow> u64 \<Rightarrow> memory \<Rightarrow> memory option" where
  "enqueue_op off q x m \<equiv> Some (intru_queue_enqueue off q x m)"

interpretation uq: fifo_queue "queue_holds off q" "enqueue_op off q" "intru_queue_dequeue off q" "can_enqueue off q"
  for off q
proof unfold_locales
  fix m xs x
  show "queue_holds off q m xs \<Longrightarrow> can_enqueue off q x xs \<Longrightarrow>
      \<exists>m'. enqueue_op off q x m = Some m' \<and> queue_holds off q m' (xs @ [x])"
    unfolding can_enqueue_def using queue_holds_enqueue by auto
  show "queue_holds off q m (x # xs) \<Longrightarrow> \<exists>m'. intru_queue_dequeue off q m = Some (x, m') \<and> queue_holds off q m' xs"
    using queue_holds_dequeue by blast
  show "queue_holds off q m [] \<Longrightarrow> intru_queue_dequeue off q m = None" by (rule queue_holds_dequeue_empty)
qed

subsection \<open>The lock\<close>

abbreviation biglock_holds :: "u64 \<Rightarrow> u64 \<Rightarrow> bool \<times> memory \<Rightarrow> u64 list \<Rightarrow> bool" where
  "biglock_holds off q st xs \<equiv> \<not> fst st \<and> queue_holds off q (snd st) xs"

abbreviation biglock_enqueue_op :: "u64 \<Rightarrow> u64 \<Rightarrow> u64 \<Rightarrow> bool \<times> memory \<Rightarrow> (bool \<times> memory) option" where
  "biglock_enqueue_op off q x st \<equiv> map_option snd (biglock_enqueue off q x st)"

interpretation lq: fifo_queue "biglock_holds off q" "biglock_enqueue_op off q" "biglock_dequeue off q" "can_enqueue off q"
  for off q
proof unfold_locales
  fix st :: "bool \<times> memory" and xs x
  assume h: "biglock_holds off q st xs" and "can_enqueue off q x xs"
  then show "\<exists>st'. biglock_enqueue_op off q x st = Some st' \<and> biglock_holds off q st' (xs @ [x])"
    using uq.enq_holds by (simp add: biglock_enqueue_def with_lock_def)
next
  fix st :: "bool \<times> memory" and xs x
  assume "biglock_holds off q st (x # xs)"
  then show "\<exists>st'. biglock_dequeue off q st = Some (x, st') \<and> biglock_holds off q st' xs"
    using uq.deq_holds [of off q "snd st" x xs] by (auto simp: biglock_dequeue_def with_lock_def)
next
  fix st :: "bool \<times> memory"
  assume "biglock_holds off q st []"
  then show "biglock_dequeue off q st = None" by (simp add: biglock_dequeue_def with_lock_def uq.deq_none)
qed

subsection \<open>Properties\<close>

lemma queue_holds_peek: "queue_holds off q m xs \<Longrightarrow> intru_queue_peek q m = (if xs = [] then 0 else hd xs)"
  by (cases xs) (auto simp: queue_holds_def intru_queue_peek_def)

text \<open>
  (C25) The queue on cells implements the queue on a list: from a queue holding \<open>xs\<close>, any sequence of enqueues
  and dequeues, however they alternate and also when the queue runs empty in between, returns the elements the
  list operations return, in the same order, and fails the assertion of \<open>dequeue\<close> exactly where the list is
  empty; afterwards \<open>empty\<close> and \<open>peek\<close> answer as the list does. The same holds of the queue behind the lock, which is free
  again after each operation. An element may enter when it is not null and its link is not one of the cells in use.
\<close>

theorem intru_queue_fifo:
  assumes "queue_holds off q m xs" "permitted (can_enqueue off q) ops xs"
  shows "case run_ops list_enqueue list_dequeue ops xs of
      None \<Rightarrow> run_ops (enqueue_op off q) (intru_queue_dequeue off q) ops m = None \<and>
        run_ops (biglock_enqueue_op off q) (biglock_dequeue off q) ops (False, m) = None
    | Some (out, ys) \<Rightarrow>
        (\<exists>m'. run_ops (enqueue_op off q) (intru_queue_dequeue off q) ops m = Some (out, m') \<and> queue_holds off q m' ys \<and>
           (intru_queue_empty q m' \<longleftrightarrow> ys = []) \<and> intru_queue_peek q m' = (if ys = [] then 0 else hd ys)) \<and>
        (\<exists>m'. run_ops (biglock_enqueue_op off q) (biglock_dequeue off q) ops (False, m) = Some (out, False, m') \<and>
           queue_holds off q m' ys \<and>
           (biglock_empty q (False, m') \<longleftrightarrow> ys = []) \<and> biglock_peek q (False, m') = (if ys = [] then 0 else hd ys))"
  using uq.run_refines [OF assms] lq.run_refines [of "(False, m)" off q xs ops] assms
  by (auto simp: biglock_empty_def biglock_peek_def queue_holds_empty queue_holds_peek split: option.splits)

theorem intru_queue_fifo_witness:
  "\<exists>m'. run_ops (enqueue_op 8 64) (intru_queue_dequeue 8 64) [Enqueue 256, Enqueue 128, Dequeue, Dequeue, Enqueue 512, Enqueue 256, Dequeue]
      (intru_queue_init 64 (\<lambda>_. 1)) = Some ([256, 128, 512], m') \<and> queue_holds 8 64 m' [256] \<and> \<not> intru_queue_empty 64 m'"
proof -
  let ?ops = "[Enqueue 256, Enqueue 128, Dequeue, Dequeue, Enqueue 512, Enqueue 256, Dequeue]"
  have "permitted (can_enqueue 8 64) ?ops []" by (simp add: can_enqueue_def xor_cell_def)
  from intru_queue_fifo [OF queue_holds_init this, of "\<lambda>_. 1"] show ?thesis by (auto simp: list_enqueue_def)
qed

text \<open>
  (C24) \<open>burst\<close> with a budget runs the first elements in order, as many as the budget and the queue allow,
  returns how many ran, and leaves the rest at the front of the queue before everything the
  callbacks enqueued meanwhile, also when a callback re-enqueues its own element.
\<close>

theorem intru_queue_burst_correct:
  assumes "queue_holds off q m xs" "callback_ok off q xs fn eff" "0 < max_n"
  shows "\<exists>m'. burst off q max_n fn (m, s) = Some (min max_n (length xs), m', snd (fold eff (take max_n xs) ([], s))) \<and>
     queue_holds off q m' (drop max_n xs @ fst (fold eff (take max_n xs) ([], s)))"
  by (rule burst_runs [OF assms])

lemma callback_ok_reenqueue:
  assumes x: "\<forall>x \<in> set xs. x \<noteq> 0 \<and> x + off \<noteq> q \<and> x + off \<noteq> xor_cell q" and d: "distinct (cells off xs)"
    "q \<notin> set (cells off xs)" "xor_cell q \<notin> set (cells off xs)"
  shows "callback_ok off q xs (\<lambda>x (m, s). (intru_queue_enqueue off q x m, s @ [x])) (\<lambda>x (ys, s). (ys @ [x], s @ [x]))"
  unfolding callback_ok_def
proof (intro allI impI conjI ballI)
  fix as x bs m s ys
  assume a: "xs = as @ x # bs" "queue_holds off q m ys" "set (cells off ys) \<inter> set (cells off (x # bs)) = {}"
  have n: "x \<noteq> 0" "x + off \<notin> set (q # xor_cell q # cells off ys)" "x + off \<notin> set (cells off bs)" using x a d by auto
  show "queue_holds off q (fst ((\<lambda>(m, s). (intru_queue_enqueue off q x m, s @ [x])) (m, s))) (fst ((\<lambda>(ys, s). (ys @ [x], s @ [x])) (ys, s)))"
    using queue_holds_enqueue [OF a(2) n(1,2)] by simp
  have t: "q XOR m (xor_cell q) = last_cell off q ys" using a(2) by (simp add: queue_holds_def)
  fix c assume c: "c \<in> set (cells off bs)"
  moreover have "c \<in> set (cells off xs)" "c \<notin> set (cells off ys)" using c a(1,3) by auto
  ultimately have "c \<notin> set (q # cells off ys)" "c \<noteq> xor_cell q" "c \<noteq> x + off" using d(2,3) n(3) by (simp, blast)+
  then show "fst ((\<lambda>(m, s). (intru_queue_enqueue off q x m, s @ [x])) (m, s)) c = m c"
    using last_cell_mem [of off q ys] by (auto simp: intru_queue_enqueue_def Let_def t)
next
  fix as x bs m s ys
  assume a: "xs = as @ x # bs" "queue_holds off q m ys" "set (cells off ys) \<inter> set (cells off (x # bs)) = {}"
  then show "set (cells off (fst ((\<lambda>(ys, s). (ys @ [x], s @ [x])) (ys, s)))) \<inter> set (cells off bs) = {}" using d by auto
qed simp

theorem intru_queue_burst_correct_witness:
  "\<exists>m m'. queue_holds 8 64 m [256, 128, 512] \<and>
     burst 8 64 2 (\<lambda>x (m, s). (intru_queue_enqueue 8 64 x m, s @ [x])) (m, []) = Some (2, m', [256, 128]) \<and>
     queue_holds 8 64 m' [512, 256, 128]"
proof -
  let ?xs = "[256, 128, 512] :: u64 list"
  obtain m where m: "queue_holds 8 64 m ?xs"
    using uq.can_hold [of 8 64 "intru_queue_init 64 (\<lambda>_. 1)" "[]" ?xs] queue_holds_init by (auto simp: can_enqueue_def xor_cell_def)
  have "callback_ok 8 64 ?xs (\<lambda>x (m, s). (intru_queue_enqueue 8 64 x m, s @ [x])) (\<lambda>x (ys, s). (ys @ [x], s @ [x]))"
    by (rule callback_ok_reenqueue) (simp_all add: xor_cell_def)
  from intru_queue_burst_correct [OF m this, of 2 "[]"] m show ?thesis by (auto simp: numeral_2_eq_2)
qed

text \<open>
  The burst of the locked queue runs exactly the elements it held when the burst began, in order,
  whatever the (positive) budget, and returns with the lock free and the moved-from queue in order for callbacks that
  keep off the local queue and off the elements still to run.
\<close>

theorem biglock_burst_snapshot:
  assumes h: "queue_holds off q m xs" and d: "distinct [tmpq, xor_cell tmpq, q, xor_cell q]"
      "tmpq \<notin> set (cells off xs)" "xor_cell tmpq \<notin> set (cells off xs)"
    and ok: "callback_ok off tmpq xs fn (\<lambda>x (ys, s). (ys, g x s))" and n: "0 < max_n"
  shows "\<exists>m'. biglock_burst_max off q tmpq max_n fn ((False, m), s) = Some (length xs, (False, m'), fold g xs s) \<and>
    queue_holds off q (intru_queue_move tmpq q m) []"
proof -
  have f: "fold (\<lambda>x (ys, s). (ys, g x s)) xs (ys, s) = (ys, fold g xs s)" for ys s xs
    by (induction xs arbitrary: s) auto
  note mv = queue_holds_move [OF h d]
  obtain m' where "burst_all off tmpq fn (intru_queue_move tmpq q m, s) = Some (length xs, m', fold g xs s)"
    using burst_all_runs [OF conjunct1 [OF mv] ok, of s] by (auto simp: f)
  then show ?thesis using mv n by (simp add: biglock_burst_max_def biglock_burst_def with_lock_def)
qed

theorem biglock_burst_snapshot_witness:
  "\<exists>m m'. queue_holds 8 64 m [256, 128] \<and>
     biglock_burst_max 8 64 1024 1 (\<lambda>x (m, s). (m, s @ [x])) ((False, m), []) = Some (2, (False, m'), [256, 128])"
proof -
  let ?xs = "[256, 128] :: u64 list"
  obtain m where m: "queue_holds 8 64 m ?xs"
    using uq.can_hold [of 8 64 "intru_queue_init 64 (\<lambda>_. 1)" "[]" ?xs] queue_holds_init by (auto simp: can_enqueue_def xor_cell_def)
  have "callback_ok 8 1024 ?xs (\<lambda>x (m, s). (m, s @ [x])) (\<lambda>x (ys, s). (ys, (\<lambda>x s. s @ [x]) x s))"
    by (auto simp: callback_ok_def)
  from biglock_burst_snapshot [OF m _ _ _ this, of 1 "[]"] m show ?thesis by (auto simp: xor_cell_def)
qed

end
