(* ===== verification/Mpsc_Queue.thy ===== *)
theory Mpsc_Queue
  imports Intru_Queue_Correct
begin

text \<open>
  Component \<open>detail::intru_queue\<close> (src/intru_queue.hpp), the lock-free queue of many producers and one
  consumer. Every access to shared memory of \<open>enqueue\<close>, \<open>dequeue\<close> and \<open>burst\<close> is one step; the steps of
  all threads interleave in one sequentially consistent memory (the acquire and release orders of
  the code are not modelled). The fields \<open>entered\<close> and \<open>executed\<close> are not of the code: they record
  the order in which elements were exchanged into the tail, and in which they were
  returned by \<open>dequeue\<close> or passed to the callback of \<open>burst\<close>.
\<close>

unbundle bit_operations_syntax

subsection \<open>State\<close>

definition decode_tailp :: "u64 \<Rightarrow> u64 \<Rightarrow> u64" where
  "decode_tailp q u = u XOR q"

definition encode_tailp :: "u64 \<Rightarrow> u64 \<Rightarrow> u64" where
  "encode_tailp q val = val XOR q"

text \<open>Where a producer stands in \<open>enqueue\<close>: before the store of null, the exchange, the link.\<close>

datatype producer = P_idle | P_store u64 | P_xchg u64 | P_link u64 u64

text \<open>Where the consumer stands in \<open>dequeue\<close> (\<open>D\<close>) and in \<open>burst\<close> (\<open>B\<close>), with its local variables.\<close>

datatype consumer =
    C_idle
  | D_load | D_failed
  | D_next u64          \<comment> \<open>head\<close>
  | D_head u64 u64      \<comment> \<open>head, head_next\<close>
  | D_cas u64           \<comment> \<open>head\<close>
  | D_spin u64          \<comment> \<open>head\<close>
  | D_fix u64 u64       \<comment> \<open>head, head_next\<close>
  | B_load nat          \<comment> \<open>max_n\<close>
  | B_loop nat u64 nat  \<comment> \<open>max_n, p, exec_n\<close>
  | B_run nat u64 u64 nat \<comment> \<open>max_n, p, p_next, exec_n\<close>
  | B_stop u64          \<comment> \<open>p\<close>
  | B_last u64          \<comment> \<open>p\<close>
  | B_xchg u64          \<comment> \<open>p\<close>
  | B_drain u64 u64 nat \<comment> \<open>p, last_next, exec_n\<close>
  | B_drun u64 u64 u64 nat \<comment> \<open>p, p_next, last_next, exec_n\<close>
  | B_final u64 nat     \<comment> \<open>p, exec_n\<close>

record mpsc =
  cell :: memory
  tailp_xor_head :: u64
  prod :: "nat \<Rightarrow> producer"
  con :: consumer
  entered :: "u64 list"
  executed :: "u64 list"

definition mpsc_init :: "u64 \<Rightarrow> memory \<Rightarrow> mpsc" where
  "mpsc_init q m = \<lparr>cell = m(q := 0), tailp_xor_head = 0, prod = (\<lambda>_. P_idle), con = C_idle, entered = [], executed = []\<rparr>"

definition mpsc_empty :: "u64 \<Rightarrow> mpsc \<Rightarrow> bool" where
  "mpsc_empty q s \<longleftrightarrow> cell s q = 0"

definition mpsc_peek :: "u64 \<Rightarrow> mpsc \<Rightarrow> u64" where
  "mpsc_peek q s = cell s q"

subsection \<open>Steps\<close>

definition enqueue_step :: "u64 \<Rightarrow> u64 \<Rightarrow> nat \<Rightarrow> mpsc \<Rightarrow> mpsc option" where
  "enqueue_step off q i s =
     (case prod s i of
        P_idle \<Rightarrow> None
      | P_store x \<Rightarrow> Some (s\<lparr>cell := (cell s)(x + off := 0), prod := (prod s)(i := P_xchg x)\<rparr>)
      | P_xchg x \<Rightarrow>
          (let got = decode_tailp q (tailp_xor_head s)
           in Some (s\<lparr>tailp_xor_head := encode_tailp q (x + off), prod := (prod s)(i := P_link x got),
                      entered := entered s @ [x]\<rparr>))
      | P_link x got \<Rightarrow> Some (s\<lparr>cell := (cell s)(got := x), prod := (prod s)(i := P_idle)\<rparr>))"

abbreviation returns :: "u64 \<Rightarrow> mpsc \<Rightarrow> mpsc" where
  "returns x s \<equiv> s\<lparr>con := C_idle, executed := executed s @ [x]\<rparr>"

abbreviation runs :: "u64 \<Rightarrow> consumer \<Rightarrow> mpsc \<Rightarrow> mpsc" where
  "runs x c s \<equiv> s\<lparr>con := c, executed := executed s @ [x]\<rparr>"

definition dequeue_step :: "u64 \<Rightarrow> u64 \<Rightarrow> mpsc \<Rightarrow> mpsc option" where
  "dequeue_step off q s =
     (case con s of
        D_load \<Rightarrow> Some (s\<lparr>con := if cell s q = 0 then D_failed else D_next (cell s q)\<rparr>)
      | D_next head \<Rightarrow> Some (s\<lparr>con := D_head head (cell s (head + off))\<rparr>)
      | D_head head head_next \<Rightarrow>
          (let s = s\<lparr>cell := (cell s)(q := head_next)\<rparr>
           in Some (if head_next = 0 then s\<lparr>con := D_cas head\<rparr> else returns head s))
      | D_cas head \<Rightarrow>
          (let expected = encode_tailp q (head + off);
               desired = encode_tailp q q
           in Some (if tailp_xor_head s = expected then returns head (s\<lparr>tailp_xor_head := desired\<rparr>)
                    else s\<lparr>con := D_spin head\<rparr>))
      | D_spin head \<Rightarrow>
          (let head_next = cell s (head + off)
           in Some (if head_next = 0 then s else s\<lparr>con := D_fix head head_next\<rparr>))
      | D_fix head head_next \<Rightarrow> Some (returns head (s\<lparr>cell := (cell s)(q := head_next)\<rparr>))
      | _ \<Rightarrow> None)"

definition burst_step :: "u64 \<Rightarrow> u64 \<Rightarrow> mpsc \<Rightarrow> mpsc option" where
  "burst_step off q s =
     (case con s of
        B_load max_n \<Rightarrow> Some (s\<lparr>con := if cell s q = 0 then C_idle else B_loop max_n (cell s q) 0\<rparr>)
      | B_loop max_n p exec_n \<Rightarrow>
          (let p_next = cell s (p + off)
           in Some (s\<lparr>con := if p_next \<noteq> 0 then B_run max_n p p_next exec_n
                             else if exec_n \<noteq> 0 then B_stop p else B_last p\<rparr>))
      | B_run max_n p p_next exec_n \<Rightarrow>
          Some (runs p (if max_n = exec_n + 1 then B_stop p_next else B_loop max_n p_next (exec_n + 1)) s)
      | B_stop p \<Rightarrow> Some (s\<lparr>cell := (cell s)(q := p), con := C_idle\<rparr>)
      | B_last p \<Rightarrow> Some (s\<lparr>cell := (cell s)(q := 0), con := B_xchg p\<rparr>)
      | B_xchg p \<Rightarrow>
          (let last_next = decode_tailp q (tailp_xor_head s)
           in Some (s\<lparr>tailp_xor_head := encode_tailp q q, con := B_drain p last_next 0\<rparr>))
      | B_drain p last_next exec_n \<Rightarrow>
          (if p + off \<noteq> last_next
           then let p_next = cell s (p + off)
                in Some (if p_next = 0 then s else s\<lparr>con := B_drun p p_next last_next exec_n\<rparr>)
           else Some (s\<lparr>con := B_final p exec_n\<rparr>))
      | B_drun p p_next last_next exec_n \<Rightarrow> Some (runs p (B_drain p_next last_next (exec_n + 1)) s)
      | B_final p exec_n \<Rightarrow> Some (returns p s)
      | _ \<Rightarrow> None)"

text \<open>
  What producers and the consumer may do next: begin a call, take a step of it, or write the
  link of an element that is outside the queue (its owner may have deleted it). An element enters a
  call of \<open>enqueue\<close> only while it is in no queue and in no other call.
\<close>

definition content :: "mpsc \<Rightarrow> u64 list" where
  "content s = drop (length (executed s)) (entered s)"

definition in_flight :: "mpsc \<Rightarrow> nat \<Rightarrow> u64 \<Rightarrow> bool" where
  "in_flight s i x \<longleftrightarrow> prod s i = P_store x \<or> prod s i = P_xchg x"

definition outside :: "u64 \<Rightarrow> u64 \<Rightarrow> mpsc \<Rightarrow> u64 \<Rightarrow> bool" where
  "outside off q s x \<longleftrightarrow> x \<noteq> 0 \<and> x + off \<noteq> q \<and> x \<notin> set (content s) \<and> (\<forall>i. \<not> in_flight s i x)"

inductive mpsc_step :: "u64 \<Rightarrow> u64 \<Rightarrow> mpsc \<Rightarrow> mpsc \<Rightarrow> bool" for off q where
  call_enqueue: "prod s i = P_idle \<Longrightarrow> outside off q s x \<Longrightarrow> mpsc_step off q s (s\<lparr>prod := (prod s)(i := P_store x)\<rparr>)"
| enqueue: "enqueue_step off q i s = Some s' \<Longrightarrow> mpsc_step off q s s'"
| call_dequeue: "con s = C_idle \<Longrightarrow> mpsc_step off q s (s\<lparr>con := D_load\<rparr>)"
| dequeue: "dequeue_step off q s = Some s' \<Longrightarrow> mpsc_step off q s s'"
| call_burst: "con s = C_idle \<Longrightarrow> 0 < max_n \<Longrightarrow> mpsc_step off q s (s\<lparr>con := B_load max_n\<rparr>)"
| burst: "burst_step off q s = Some s' \<Longrightarrow> mpsc_step off q s s'"
| reuse: "outside off q s x \<Longrightarrow> mpsc_step off q s (s\<lparr>cell := (cell s)(x + off := v)\<rparr>)"

inductive mpsc_reachable :: "u64 \<Rightarrow> u64 \<Rightarrow> mpsc \<Rightarrow> bool" for off q where
  init: "mpsc_reachable off q (mpsc_init q m)"
| step: "mpsc_reachable off q s \<Longrightarrow> mpsc_step off q s s' \<Longrightarrow> mpsc_reachable off q s'"

end
