(* ===== verification/Mpsc_Correct.thy ===== *)
theory Mpsc_Correct
  imports Mpsc_Queue
begin

text \<open>
  The invariant of the lock-free queue over all interleavings, and what follows from it: elements
  leave in the order they entered, and the consumer never waits for a producer that is not there.
\<close>

unbundle bit_operations_syntax

subsection \<open>The invariant\<close>

text \<open>
  A region is a root cell and the elements linked from it. Each link is either written, or null with
  a producer about to write it; the last cell of a region is null.
\<close>

definition pending :: "mpsc \<Rightarrow> u64 \<Rightarrow> u64 \<Rightarrow> bool" where
  "pending s c x \<longleftrightarrow> (\<exists>i. prod s i = P_link x c)"

fun region :: "u64 \<Rightarrow> mpsc \<Rightarrow> u64 \<Rightarrow> u64 list \<Rightarrow> bool" where
  "region off s c [] \<longleftrightarrow> cell s c = 0"
| "region off s c (x # xs) \<longleftrightarrow>
     x \<noteq> 0 \<and> (if pending s c x then cell s c = 0 else cell s c = x) \<and> region off s (x + off) xs"

fun region_links :: "u64 \<Rightarrow> u64 \<Rightarrow> u64 list \<Rightarrow> (u64 \<times> u64) set" where
  "region_links off c [] = {}"
| "region_links off c (x # xs) = insert (c, x) (region_links off (x + off) xs)"

text \<open>The regions of a state: those the consumer has cut off, and the one the tail belongs to.\<close>

abbreviation rcells :: "u64 \<Rightarrow> u64 \<times> u64 list \<Rightarrow> u64 list" where
  "rcells off R \<equiv> fst R # cells off (snd R)"

definition regions_ok :: "u64 \<Rightarrow> u64 \<Rightarrow> mpsc \<Rightarrow> (u64 \<times> u64 list) list \<Rightarrow> u64 \<Rightarrow> u64 list \<Rightarrow> bool" where
  "regions_ok off q s Os c xs \<longleftrightarrow>
     (\<forall>R \<in> set (Os @ [(c, xs)]). region off s (fst R) (snd R)) \<and>
     (\<forall>d x. pending s d x \<longrightarrow> (\<exists>R \<in> set (Os @ [(c, xs)]). (d, x) \<in> region_links off (fst R) (snd R))) \<and>
     distinct (concat (map (rcells off) (Os @ [(c, xs)]))) \<and>
     decode_tailp q (tailp_xor_head s) = last_cell off c xs"

definition producers_ok :: "u64 \<Rightarrow> u64 \<Rightarrow> mpsc \<Rightarrow> bool" where
  "producers_ok off q s \<longleftrightarrow>
     (\<forall>i x. in_flight s i x \<longrightarrow> x \<noteq> 0 \<and> x + off \<noteq> q \<and> x \<notin> set (content s)) \<and>
     (\<forall>i j x. in_flight s i x \<longrightarrow> in_flight s j x \<longrightarrow> i = j) \<and>
     (\<forall>i x. prod s i = P_xchg x \<longrightarrow> cell s (x + off) = 0) \<and>
     (\<forall>i j x c. prod s i = P_link x c \<longrightarrow> prod s j = P_link x c \<longrightarrow> i = j) \<and>
     (\<forall>x \<in> set (content s). x \<noteq> 0 \<and> x + off \<noteq> q) \<and> distinct (content s) \<and>
     (\<exists>zs. entered s = executed s @ zs)"

text \<open>How the regions match what the consumer is doing.\<close>

definition attached :: "u64 \<Rightarrow> mpsc \<Rightarrow> (u64 \<times> u64 list) list \<Rightarrow> u64 \<Rightarrow> u64 list \<Rightarrow> bool" where
  "attached q s Os c xs \<longleftrightarrow> Os = [] \<and> c = q \<and> content s = xs"

definition detached :: "u64 \<Rightarrow> mpsc \<Rightarrow> u64 \<Rightarrow> (u64 \<times> u64 list) list \<Rightarrow> u64 \<Rightarrow> u64 list \<Rightarrow> bool" where
  "detached off s p Os c xs \<longleftrightarrow> Os = [] \<and> c = p + off \<and> content s = p # xs"

definition draining :: "u64 \<Rightarrow> u64 \<Rightarrow> mpsc \<Rightarrow> u64 \<Rightarrow> u64 \<Rightarrow> (u64 \<times> u64 list) list \<Rightarrow> u64 \<Rightarrow> u64 list \<Rightarrow> bool" where
  "draining off q s p last_next Os c xs \<longleftrightarrow>
     (\<exists>ys. Os = [(p + off, ys)] \<and> c = q \<and> content s = p # ys @ xs \<and> last_next = last_cell off (p + off) ys)"

fun consumer_ok :: "u64 \<Rightarrow> u64 \<Rightarrow> mpsc \<Rightarrow> (u64 \<times> u64 list) list \<Rightarrow> u64 \<Rightarrow> u64 list \<Rightarrow> consumer \<Rightarrow> bool" where
  "consumer_ok off q s Os c xs (D_next h) = detached off s h Os c xs"
| "consumer_ok off q s Os c xs (D_head h n) = (detached off s h Os c xs \<and> (n \<noteq> 0 \<longrightarrow> cell s (h + off) = n))"
| "consumer_ok off q s Os c xs (D_cas h) = (detached off s h Os c xs \<and> cell s q = 0)"
| "consumer_ok off q s Os c xs (D_spin h) = (detached off s h Os c xs \<and> xs \<noteq> [])"
| "consumer_ok off q s Os c xs (D_fix h n) = (detached off s h Os c xs \<and> n \<noteq> 0 \<and> cell s (h + off) = n)"
| "consumer_ok off q s Os c xs (B_loop max_n p k) = detached off s p Os c xs"
| "consumer_ok off q s Os c xs (B_run max_n p n k) = (detached off s p Os c xs \<and> n \<noteq> 0 \<and> cell s (p + off) = n)"
| "consumer_ok off q s Os c xs (B_stop p) = detached off s p Os c xs"
| "consumer_ok off q s Os c xs (B_last p) = detached off s p Os c xs"
| "consumer_ok off q s Os c xs (B_xchg p) = (detached off s p Os c xs \<and> cell s q = 0)"
| "consumer_ok off q s Os c xs (B_drain p l k) = draining off q s p l Os c xs"
| "consumer_ok off q s Os c xs (B_drun p n l k) = (draining off q s p l Os c xs \<and> n \<noteq> 0 \<and> cell s (p + off) = n)"
| "consumer_ok off q s Os c xs (B_final p k) = draining off q s p (p + off) Os c xs"
| "consumer_ok off q s Os c xs _ = attached q s Os c xs"

definition mpsc_inv :: "u64 \<Rightarrow> u64 \<Rightarrow> mpsc \<Rightarrow> bool" where
  "mpsc_inv off q s \<longleftrightarrow> producers_ok off q s \<and> (\<exists>Os c xs. regions_ok off q s Os c xs \<and> consumer_ok off q s Os c xs (con s))"

lemma mpsc_inv_init: "mpsc_inv off q (mpsc_init q m)"
  unfolding mpsc_inv_def
  by (rule conjI, simp add: producers_ok_def mpsc_init_def in_flight_def content_def,
      rule exI [of _ "[]"], rule exI [of _ q], rule exI [of _ "[]"])
    (simp add: regions_ok_def mpsc_init_def pending_def attached_def content_def decode_tailp_def)

subsection \<open>Regions under the steps of producers\<close>

lemma region_cong:
  "(\<And>a. a \<in> set (c # cells off xs) \<Longrightarrow> cell s' a = cell s a) \<Longrightarrow>
   (\<And>a x. (a, x) \<in> region_links off c xs \<Longrightarrow> pending s' a x = pending s a x) \<Longrightarrow>
   region off s' c xs = region off s c xs"
  by (induction xs arbitrary: c) auto

lemma region_links_cells: "(a, x) \<in> region_links off c xs \<Longrightarrow> a \<in> set (c # cells off xs) \<and> x \<in> set xs"
  by (induction xs arbitrary: c) auto

lemma region_nonzero: "region off s c xs \<Longrightarrow> x \<in> set xs \<Longrightarrow> x \<noteq> 0"
  by (induction xs arbitrary: c) auto

lemma region_pending_null: "region off s c xs \<Longrightarrow> (a, x) \<in> region_links off c xs \<Longrightarrow> pending s a x \<Longrightarrow> cell s a = 0"
  by (induction xs arbitrary: c) auto

lemma region_link:
  assumes "region off s c xs" "distinct (c # cells off xs)" "(a, x) \<in> region_links off c xs"
    and s': "cell s' = (cell s)(a := x)" "\<And>b y. (b, y) \<in> region_links off c xs \<Longrightarrow> pending s' b y \<longleftrightarrow> pending s b y \<and> (b, y) \<noteq> (a, x)"
  shows "region off s' c xs"
  using assms(1-3,5)
proof (induction xs arbitrary: c)
  case (Cons y ys)
  show ?case
  proof (cases "a = c")
    case True
    then have "(a, x) \<notin> region_links off (y + off) ys" using region_links_cells [of a x off "y + off" ys] Cons.prems(2) by auto
    then have xy: "x = y" using Cons.prems(3) True by simp
    have "region off s' (y + off) ys = region off s (y + off) ys"
      using Cons.prems(2,4) True s'(1) region_links_cells [of _ _ off "y + off" ys] by (intro region_cong) fastforce+
    then show ?thesis using Cons.prems True xy s'(1) by auto
  next
    case False
    then have "(a, x) \<in> region_links off (y + off) ys" using Cons.prems(3) by auto
    then have "region off s' (y + off) ys" using Cons.prems by (intro Cons.IH) auto
    then show ?thesis using False Cons.prems s'(1) by auto
  qed
qed simp

lemma region_snoc:
  assumes "region off s c xs" "distinct (c # cells off xs)" "x \<noteq> 0" "cell s (x + off) = 0"
    and s': "cell s' = cell s" "\<And>b y. pending s' b y \<longleftrightarrow> pending s b y \<or> (b, y) = (last_cell off c xs, x)"
    and "x \<notin> set xs"
  shows "region off s' c (xs @ [x])"
  using assms(1,2,6,7)
proof (induction xs arbitrary: c)
  case Nil
  then show ?case using assms(3,4) s'(1) by simp
next
  case (Cons y ys)
  have "last_cell off (y + off) ys \<noteq> c" using last_cell_mem [of off "y + off" ys] Cons.prems(2) by auto
  moreover have "region off s' (y + off) (ys @ [x])" using Cons.prems by (intro Cons.IH) auto
  ultimately show ?case using Cons.prems s'(1) by auto
qed

lemma region_links_snoc: "region_links off c (xs @ [x]) = insert (last_cell off c xs, x) (region_links off c xs)"
  by (induction xs arbitrary: c) auto

abbreviation region_cells :: "u64 \<Rightarrow> (u64 \<times> u64 list) list \<Rightarrow> u64 list" where
  "region_cells off Rs \<equiv> concat (map (rcells off) Rs)"

lemma in_region_cells: "R \<in> set Rs \<Longrightarrow> a \<in> set (rcells off R) \<Longrightarrow> a \<in> set (region_cells off Rs)"
  by (simp only: set_concat set_map) blast

lemma distinct_region: "distinct (region_cells off Rs) \<Longrightarrow> R \<in> set Rs \<Longrightarrow> distinct (rcells off R)"
  unfolding distinct_concat_iff set_map by blast

lemma regions_same:
  "distinct (region_cells off Rs) \<Longrightarrow> R \<in> set Rs \<Longrightarrow> R' \<in> set Rs \<Longrightarrow> a \<in> set (rcells off R) \<Longrightarrow>
     a \<in> set (rcells off R') \<Longrightarrow> R = R'"
proof (induction Rs)
  case (Cons S Rs)
  have d: "set (rcells off S) \<inter> set (region_cells off Rs) = {}" "distinct (region_cells off Rs)"
    using Cons.prems(1) by (simp_all only: list.map concat.simps distinct_append)
  consider "R = S" "R' = S" | "R = S" "R' \<in> set Rs" | "R \<in> set Rs" "R' = S" | "R \<in> set Rs" "R' \<in> set Rs"
    using Cons.prems(2,3) by auto
  then show ?case
    using Cons.IH d Cons.prems(4,5) in_region_cells [of R Rs a off] in_region_cells [of R' Rs a off] by cases blast+
qed simp

lemma regions_okD:
  assumes "regions_ok off q s Os c xs"
  shows "R \<in> set (Os @ [(c, xs)]) \<Longrightarrow> region off s (fst R) (snd R)"
    and "pending s d x \<Longrightarrow> \<exists>R \<in> set (Os @ [(c, xs)]). (d, x) \<in> region_links off (fst R) (snd R)"
    and "distinct (region_cells off (Os @ [(c, xs)]))"
    and "decode_tailp q (tailp_xor_head s) = last_cell off c xs"
  using assms unfolding regions_ok_def by blast+

lemma regions_okI:
  assumes "\<And>R. R \<in> set (Os @ [(c, xs)]) \<Longrightarrow> region off s (fst R) (snd R)"
    and "\<And>d x. pending s d x \<Longrightarrow> \<exists>R \<in> set (Os @ [(c, xs)]). (d, x) \<in> region_links off (fst R) (snd R)"
    and "distinct (region_cells off (Os @ [(c, xs)]))"
    and "decode_tailp q (tailp_xor_head s) = last_cell off c xs"
  shows "regions_ok off q s Os c xs"
  using assms unfolding regions_ok_def by blast

lemma regions_frame:
  assumes r: "regions_ok off q s Os c xs" and a: "a \<notin> set (region_cells off (Os @ [(c, xs)]))"
    and s': "cell s' = (cell s)(a := v)" "pending s' = pending s" "tailp_xor_head s' = tailp_xor_head s"
  shows "regions_ok off q s' Os c xs"
proof (rule regions_okI)
  fix R assume R: "R \<in> set (Os @ [(c, xs)])"
  have "region off s' (fst R) (snd R) = region off s (fst R) (snd R)"
  proof (rule region_cong)
    fix b assume "b \<in> set (rcells off R)"
    then have "b \<noteq> a" using a in_region_cells [OF R] by blast
    then show "cell s' b = cell s b" by (simp add: s'(1))
  qed (simp add: s'(2))
  then show "region off s' (fst R) (snd R)" using regions_okD(1) [OF r R] by simp
qed (simp_all only: s'(2,3) regions_okD [OF r])

lemma regions_link:
  assumes r: "regions_ok off q s Os c xs" and p: "pending s a x"
    and s': "cell s' = (cell s)(a := x)" "\<And>b y. pending s' b y \<longleftrightarrow> pending s b y \<and> (b, y) \<noteq> (a, x)"
      "tailp_xor_head s' = tailp_xor_head s"
  shows "regions_ok off q s' Os c xs" and "a \<in> set (region_cells off (Os @ [(c, xs)]))" and "cell s a = 0"
proof -
  let ?Rs = "Os @ [(c, xs)]"
  note ds = regions_okD(3) [OF r] and rg = regions_okD(1) [OF r]
  obtain E where e: "E \<in> set ?Rs" "(a, x) \<in> region_links off (fst E) (snd E)" using regions_okD(2) [OF r p] by blast
  note ae = region_links_cells [OF e(2)]
  show "a \<in> set (region_cells off ?Rs)" using in_region_cells [OF e(1)] ae by blast
  show "cell s a = 0" using region_pending_null [OF rg [OF e(1)] e(2) p] .
  show "regions_ok off q s' Os c xs"
  proof (rule regions_okI)
    fix R assume R: "R \<in> set ?Rs"
    show "region off s' (fst R) (snd R)"
    proof (cases "R = E")
      case True
      then show ?thesis
        using region_link [OF rg [OF e(1)] distinct_region [OF ds e(1)] e(2) s'(1)] s'(2) by simp
    next
      case False
      then have na: "a \<notin> set (rcells off R)" using regions_same [OF ds R e(1)] ae by blast
      have "region off s' (fst R) (snd R) = region off s (fst R) (snd R)"
      proof (rule region_cong)
        show "cell s' b = cell s b" if "b \<in> set (rcells off R)" for b using na that s'(1) by auto
        show "pending s' b y = pending s b y" if "(b, y) \<in> region_links off (fst R) (snd R)" for b y
          using region_links_cells [OF that] na s'(2) by blast
      qed
      then show ?thesis using rg [OF R] by simp
    qed
  next
    fix b y assume "pending s' b y"
    then show "\<exists>R \<in> set ?Rs. (b, y) \<in> region_links off (fst R) (snd R)" using regions_okD(2) [OF r] s'(2) by blast
  qed (simp_all only: s'(3) regions_okD [OF r])
qed

lemma regions_xchg:
  assumes r: "regions_ok off q s Os c xs" and x: "x \<noteq> 0" "cell s (x + off) = 0" "x + off \<notin> set (region_cells off (Os @ [(c, xs)]))"
    and s': "cell s' = cell s" "\<And>b y. pending s' b y \<longleftrightarrow> pending s b y \<or> (b, y) = (last_cell off c xs, x)"
      "tailp_xor_head s' = encode_tailp q (x + off)"
  shows "regions_ok off q s' Os c (xs @ [x])"
proof (rule regions_okI)
  note ds = regions_okD(3) [OF r] and rg = regions_okD(1) [OF r]
  have cx: "distinct (c # cells off xs)" using distinct_region [OF ds, of "(c, xs)"] by simp
  have dj: "set (region_cells off Os) \<inter> set (c # cells off xs) = {}" using ds by simp
  fix R assume R: "R \<in> set (Os @ [(c, xs @ [x])])"
  show "region off s' (fst R) (snd R)"
  proof (cases "R \<in> set Os")
    case False
    have "x \<notin> set xs" using x(3) by auto
    then have "region off s' c (xs @ [x])"
      using region_snoc [OF _ cx x(1,2) s'(1,2)] rg [of "(c, xs)"] by simp
    then show ?thesis using False R by simp
  next
    case True
    then have na: "last_cell off c xs \<notin> set (rcells off R)"
      using dj last_cell_mem [of off c xs] in_region_cells [OF True, of "last_cell off c xs" off] by blast
    have "region off s' (fst R) (snd R) = region off s (fst R) (snd R)"
    proof (rule region_cong)
      show "cell s' b = cell s b" for b by (simp add: s'(1))
      show "pending s' b y = pending s b y" if "(b, y) \<in> region_links off (fst R) (snd R)" for b y
        using region_links_cells [OF that] na s'(2) by blast
    qed
    then show ?thesis using rg [of R] True by simp
  qed
next
  fix b y assume "pending s' b y"
  then show "\<exists>R \<in> set (Os @ [(c, xs @ [x])]). (b, y) \<in> region_links off (fst R) (snd R)"
    using regions_okD(2) [OF r, of b y] s'(2) [of b y] by (auto simp: region_links_snoc)
next
  show "distinct (region_cells off (Os @ [(c, xs @ [x])]))" using regions_okD(3) [OF r] x(3) by (simp add: eq_commute)
  show "decode_tailp q (tailp_xor_head s') = last_cell off c (xs @ [x])"
    by (simp add: s'(3) decode_tailp_def encode_tailp_def)
qed

subsection \<open>Producers keep the invariant\<close>

text \<open>
  The consumer's part of the invariant survives a step of others that keeps the consumer's
  locals, may add one element to the last region, and changes no link that is written and not the null
  \<open>head\<close> of a consumer that has cut the queue off.
\<close>

lemma consumer_ok_stable:
  assumes k: "consumer_ok off q s Os c xs k" and ct: "content s' = content s @ zs"
    and w: "\<And>a v. a \<in> set (region_cells off (Os @ [(c, xs)])) \<Longrightarrow> v \<noteq> 0 \<Longrightarrow> cell s a = v \<Longrightarrow> cell s' a = v"
    and z: "q \<notin> set (region_cells off (Os @ [(c, xs)])) \<Longrightarrow> cell s' q = cell s q"
    and e: "\<forall>x \<in> set (content s). x + off \<noteq> q"
  shows "consumer_ok off q s' Os c (xs @ zs) k"
proof -
  have d: "detached off s p Os c xs \<Longrightarrow> detached off s' p Os c (xs @ zs)" for p
    by (simp add: detached_def ct)
  have dr: "draining off q s p l Os c xs \<Longrightarrow> draining off q s' p l Os c (xs @ zs)" for p l
    by (auto simp: draining_def ct)
  have at: "attached q s Os c xs \<Longrightarrow> attached q s' Os c (xs @ zs)" by (simp add: attached_def ct)
  have dw: "detached off s p Os c xs \<Longrightarrow> n \<noteq> 0 \<Longrightarrow> cell s (p + off) = n \<Longrightarrow> cell s' (p + off) = n" for p n
    using w [of "p + off" n] by (simp add: detached_def)
  have drw: "draining off q s p l Os c xs \<Longrightarrow> n \<noteq> 0 \<Longrightarrow> cell s (p + off) = n \<Longrightarrow> cell s' (p + off) = n" for p l n
    using w [of "p + off" n] by (auto simp: draining_def)
  have dz: "detached off s p Os c xs \<Longrightarrow> cell s q = 0 \<Longrightarrow> cell s' q = 0" for p
    using z e by (force simp: detached_def)
  show ?thesis using k by (cases k) (auto intro: d dr at dw drw dz)
qed

lemma content_upds [simp]:
  "content (s\<lparr>cell := m\<rparr>) = content s" "content (s\<lparr>prod := ps\<rparr>) = content s" "content (s\<lparr>con := k\<rparr>) = content s"
  "content (s\<lparr>tailp_xor_head := t\<rparr>) = content s"
  by (simp_all add: content_def)

lemma region_elems_content:
  "consumer_ok off q s Os c xs k \<Longrightarrow> a \<in> set (region_cells off (Os @ [(c, xs)])) \<Longrightarrow> a = q \<or> a \<in> set (cells off (content s))"
  by (cases k) (auto simp: attached_def detached_def draining_def)

lemma outside_cell:
  assumes "consumer_ok off q s Os c xs k" "x + off \<noteq> q" "x \<notin> set (content s)"
  shows "x + off \<notin> set (region_cells off (Os @ [(c, xs)]))"
proof
  assume "x + off \<in> set (region_cells off (Os @ [(c, xs)]))"
  from region_elems_content [OF assms(1) this] assms(2,3) show False by auto
qed

lemma region_link_content:
  "consumer_ok off q s Os c xs k \<Longrightarrow> R \<in> set (Os @ [(c, xs)]) \<Longrightarrow> x \<in> set (snd R) \<Longrightarrow> x \<in> set (content s)"
  by (cases k) (auto simp: attached_def detached_def draining_def)

lemma pending_content:
  "regions_ok off q s Os c xs \<Longrightarrow> consumer_ok off q s Os c xs k \<Longrightarrow> pending s d x \<Longrightarrow> x \<in> set (content s)"
  using regions_okD(2) [of off q s Os c xs d x] region_links_cells region_link_content by metis

lemma pending_upd:
  assumes "\<And>x c. prod s i \<noteq> P_link x c" "prod s' = (prod s)(i := p)"
  shows "pending s' c x \<longleftrightarrow> pending s c x \<or> p = P_link x c"
  using assms unfolding pending_def by (metis fun_upd_apply)

lemma inv_frame:
  assumes inv: "mpsc_inv off q s" and x: "x + off \<noteq> q" "x \<notin> set (content s)"
    and s': "cell s' = (cell s)(x + off := v)" "tailp_xor_head s' = tailp_xor_head s" "con s' = con s"
      "entered s' = entered s" "executed s' = executed s" "pending s' = pending s"
    and P: "producers_ok off q s'"
  shows "mpsc_inv off q s'"
proof -
  obtain Os c xs where r: "regions_ok off q s Os c xs" "consumer_ok off q s Os c xs (con s)" using inv by (auto simp: mpsc_inv_def)
  note oc = outside_cell [OF r(2) x]
  have ct: "content s' = content s @ []" by (simp add: content_def s')
  have "regions_ok off q s' Os c xs" by (rule regions_frame [OF r(1) oc s'(1,6,2)])
  moreover have "consumer_ok off q s' Os c (xs @ []) (con s)"
    by (rule consumer_ok_stable [OF r(2) ct])
      (use oc x inv in \<open>auto simp: s'(1) mpsc_inv_def producers_ok_def simp del: set_concat set_append\<close>)
  ultimately show ?thesis using P unfolding mpsc_inv_def s'(3) by auto
qed

lemma in_flight_upd:
  "in_flight (s\<lparr>prod := (prod s)(i := p)\<rparr>) j x \<longleftrightarrow> (if j = i then p = P_store x \<or> p = P_xchg x else in_flight s j x)"
  by (auto simp: in_flight_def)

lemma in_flight_upds [simp]:
  "in_flight (s\<lparr>cell := m\<rparr>) = in_flight s" "in_flight (s\<lparr>con := k\<rparr>) = in_flight s"
  "in_flight (s\<lparr>tailp_xor_head := t\<rparr>) = in_flight s" "in_flight (s\<lparr>entered := e\<rparr>) = in_flight s" "in_flight (s\<lparr>executed := f\<rparr>) = in_flight s"
  by (auto simp: in_flight_def fun_eq_iff)

lemma inv_call_enqueue:
  assumes inv: "mpsc_inv off q s" and i: "prod s i = P_idle" and x: "outside off q s x"
  shows "mpsc_inv off q (s\<lparr>prod := (prod s)(i := P_store x)\<rparr>)"
proof -
  have "pending (s\<lparr>prod := (prod s)(i := P_store x)\<rparr>) = pending s" using i by (intro ext) (simp add: pending_upd [of s i _ "P_store x"])
  moreover have "producers_ok off q (s\<lparr>prod := (prod s)(i := P_store x)\<rparr>)"
    using inv x by (auto simp: mpsc_inv_def producers_ok_def outside_def in_flight_upd split: if_splits)
  ultimately show ?thesis
    using x by (intro inv_frame [OF inv, of x _ "cell s (x + off)"]) (auto simp: outside_def)
qed

lemma inv_reuse:
  assumes inv: "mpsc_inv off q s" and x: "outside off q s x"
  shows "mpsc_inv off q (s\<lparr>cell := (cell s)(x + off := v)\<rparr>)"
proof -
  have "producers_ok off q (s\<lparr>cell := (cell s)(x + off := v)\<rparr>)"
    using inv x by (auto simp: mpsc_inv_def producers_ok_def outside_def in_flight_def)
  then show ?thesis
    using x by (intro inv_frame [OF inv, of x _ v]) (auto simp: outside_def pending_def fun_eq_iff)
qed

lemma inv_store:
  assumes inv: "mpsc_inv off q s" and i: "prod s i = P_store x"
  shows "mpsc_inv off q (s\<lparr>cell := (cell s)(x + off := 0), prod := (prod s)(i := P_xchg x)\<rparr>)"
proof -
  let ?s = "s\<lparr>cell := (cell s)(x + off := 0), prod := (prod s)(i := P_xchg x)\<rparr>"
  have f: "in_flight s i x" using i by (simp add: in_flight_def)
  then have x: "x \<noteq> 0" "x + off \<noteq> q" "x \<notin> set (content s)" using inv by (auto simp: mpsc_inv_def producers_ok_def)
  have fl: "in_flight ?s j y \<longleftrightarrow> in_flight s j y" for j y using i by (auto simp: in_flight_def)
  have P: "producers_ok off q s" using inv by (simp add: mpsc_inv_def)
  have "producers_ok off q ?s"
    using P unfolding producers_ok_def fl by (auto simp: i)
  then show ?thesis
    using x i by (intro inv_frame [OF inv, of x _ 0] ext) (simp_all add: pending_upd [of s i _ "P_xchg x"])
qed

lemma inv_xchg:
  assumes inv: "mpsc_inv off q s" and i: "prod s i = P_xchg x"
  shows "mpsc_inv off q (s\<lparr>tailp_xor_head := encode_tailp q (x + off),
    prod := (prod s)(i := P_link x (decode_tailp q (tailp_xor_head s))), entered := entered s @ [x]\<rparr>)" (is "mpsc_inv off q ?s")
proof -
  obtain Os c xs where r: "regions_ok off q s Os c xs" "consumer_ok off q s Os c xs (con s)" and P: "producers_ok off q s"
    using inv by (auto simp: mpsc_inv_def)
  have f: "in_flight s i x" using i by (simp add: in_flight_def)
  then have x: "x \<noteq> 0" "x + off \<noteq> q" "x \<notin> set (content s)" "cell s (x + off) = 0" using P i by (auto simp: producers_ok_def)
  note oc = outside_cell [OF r(2) x(2,3)]
  note tl = regions_okD(4) [OF r(1)]
  have pd: "pending ?s b y \<longleftrightarrow> pending s b y \<or> (b, y) = (last_cell off c xs, x)" for b y
    using i pending_upd [of s i ?s "P_link x (last_cell off c xs)" b y] by (auto simp: tl)
  have ct: "content ?s = content s @ [x]" using P by (auto simp: content_def producers_ok_def)
  have "regions_ok off q ?s Os c (xs @ [x])" by (rule regions_xchg [OF r(1) x(1,4) oc]) (use pd in simp_all)
  moreover have "consumer_ok off q ?s Os c (xs @ [x]) (con ?s)"
    using consumer_ok_stable [OF r(2) ct] P by (simp add: producers_ok_def)
  moreover have "producers_ok off q ?s"
  proof -
    have np: "\<not> pending s d x" for d using pending_content [OF r] x(3) by blast
    then have nl: "prod s j \<noteq> P_link x d" for j d unfolding pending_def by blast
    have fl: "in_flight ?s j y \<longleftrightarrow> in_flight s j y \<and> j \<noteq> i" for j y by (auto simp: in_flight_def)
    have fx: "in_flight s j x \<Longrightarrow> j = i" for j using P f by (auto simp: producers_ok_def)
    show ?thesis using P x(1-3) fx nl unfolding producers_ok_def fl ct by auto
  qed
  ultimately show ?thesis unfolding mpsc_inv_def by blast
qed

lemma inv_link:
  assumes inv: "mpsc_inv off q s" and i: "prod s i = P_link x a"
  shows "mpsc_inv off q (s\<lparr>cell := (cell s)(a := x), prod := (prod s)(i := P_idle)\<rparr>)" (is "mpsc_inv off q ?s")
proof -
  obtain Os c xs where r: "regions_ok off q s Os c xs" "consumer_ok off q s Os c xs (con s)" and P: "producers_ok off q s"
    using inv by (auto simp: mpsc_inv_def)
  have p: "pending s a x" using i by (auto simp: pending_def)
  have pd: "pending ?s b y \<longleftrightarrow> pending s b y \<and> (b, y) \<noteq> (a, x)" for b y
  proof -
    have "prod s j = P_link x a \<longleftrightarrow> j = i" for j using P i unfolding producers_ok_def by blast
    then have "(\<exists>j. ((prod s)(i := P_idle)) j = P_link y b) \<longleftrightarrow> (\<exists>j. prod s j = P_link y b) \<and> (b, y) \<noteq> (a, x)"
    proof (cases "(b, y) = (a, x)")
      case False
      then have "prod s i \<noteq> P_link y b" using i by auto
      then have "((prod s)(i := P_idle)) j = P_link y b \<longleftrightarrow> prod s j = P_link y b" for j by simp
      with False show ?thesis by blast
    qed auto
    then show ?thesis by (simp add: pending_def)
  qed
  have a: "a \<in> set (region_cells off (Os @ [(c, xs)]))" and az: "cell s a = 0"
    by (rule regions_link(2,3) [OF r(1) p, of ?s]; simp add: pd)+
  have "regions_ok off q ?s Os c xs" by (rule regions_link(1) [OF r(1) p]) (simp_all add: pd)
  moreover have "consumer_ok off q ?s Os c (xs @ []) (con s)"
  proof (rule consumer_ok_stable [OF r(2)])
    show "cell ?s b = v" if "v \<noteq> 0" "cell s b = v" for b v using that az by auto
    show "cell ?s q = cell s q" if "q \<notin> set (region_cells off (Os @ [(c, xs)]))" using that a by (cases "a = q") simp_all
    show "\<forall>x \<in> set (content s). x + off \<noteq> q" using P by (simp add: producers_ok_def)
  qed simp
  moreover have "producers_ok off q ?s"
  proof -
    have fl: "in_flight ?s j y \<longleftrightarrow> in_flight s j y" for j y using i by (auto simp: in_flight_def)
    have "y + off \<noteq> a" if "prod s j = P_xchg y" for j y
    proof -
      have "y + off \<noteq> q" "y \<notin> set (content s)" using P that by (auto simp: producers_ok_def in_flight_def)
      then show ?thesis using outside_cell [OF r(2)] a by blast
    qed
    then show ?thesis using P i unfolding producers_ok_def fl by auto
  qed
  ultimately show ?thesis unfolding mpsc_inv_def by auto
qed

lemma inv_enqueue_step: "mpsc_inv off q s \<Longrightarrow> enqueue_step off q i s = Some s' \<Longrightarrow> mpsc_inv off q s'"
  by (auto simp: enqueue_step_def inv_store inv_xchg inv_link Let_def split: producer.splits)

subsection \<open>The consumer keeps the invariant\<close>

text \<open>Following a written link: the root of a region moves to the next element.\<close>

lemma region_pop: "region off s c xs \<Longrightarrow> cell s c = n \<Longrightarrow> n \<noteq> 0 \<Longrightarrow>
    \<exists>ys. xs = n # ys \<and> \<not> pending s c n \<and> region off s (n + off) ys"
  by (cases xs) (auto split: if_splits)

lemma regions_pop:
  assumes r: "regions_ok off q s [] c xs" and n: "cell s c = n" "n \<noteq> 0"
  obtains ys where "xs = n # ys" "regions_ok off q s [] (n + off) ys"
proof -
  obtain ys where ys: "xs = n # ys" "\<not> pending s c n" "region off s (n + off) ys"
    using region_pop [OF _ n] regions_okD(1) [OF r, of "(c, xs)"] by auto
  have "regions_ok off q s [] (n + off) ys"
  proof (rule regions_okI)
    show "\<exists>R \<in> set ([] @ [(n + off, ys)]). (d, x) \<in> region_links off (fst R) (snd R)" if "pending s d x" for d x
      using regions_okD(2) [OF r that] ys(1,2) that by auto
  qed (use regions_okD(3,4) [OF r] ys in auto)
  with ys that show ?thesis by blast
qed

lemma regions_pop_old:
  assumes r: "regions_ok off q s [(d, xs)] c zs" and n: "cell s d = n" "n \<noteq> 0"
  obtains ys where "xs = n # ys" "regions_ok off q s [(n + off, ys)] c zs"
proof -
  obtain ys where ys: "xs = n # ys" "\<not> pending s d n" "region off s (n + off) ys"
    using region_pop [OF _ n] regions_okD(1) [OF r, of "(d, xs)"] by auto
  have "regions_ok off q s [(n + off, ys)] c zs"
  proof (rule regions_okI)
    show "region off s (fst R) (snd R)" if "R \<in> set ([(n + off, ys)] @ [(c, zs)])" for R
      using that ys(3) regions_okD(1) [OF r, of "(c, zs)"] by auto
    show "\<exists>R \<in> set ([(n + off, ys)] @ [(c, zs)]). (a, x) \<in> region_links off (fst R) (snd R)" if "pending s a x" for a x
      using regions_okD(2) [OF r that] ys(1,2) that by auto
  qed (use regions_okD(3,4) [OF r] ys in auto)
  with ys that show ?thesis by blast
qed

text \<open>Storing the first element into \<open>head\<close>: the queue hangs from \<open>head\<close> again.\<close>

lemma regions_push:
  assumes r: "regions_ok off q s [] (p + off) xs" and p: "p \<noteq> 0" "q \<notin> set (cells off (p # xs))" "p \<notin> set xs"
    and s': "cell s' = (cell s)(q := p)" "pending s' = pending s" "tailp_xor_head s' = tailp_xor_head s"
  shows "regions_ok off q s' [] q (p # xs)"
proof (rule regions_okI)
  have q: "q \<notin> set (region_cells off ([] @ [(p + off, xs)]))" using p(2) by simp
  have r': "regions_ok off q s' [] (p + off) xs" by (rule regions_frame [OF r q s'])
  have np: "\<not> pending s d p" for d
    using regions_okD(2) [OF r, of d p] region_links_cells p(3) by fastforce
  show "region off s' (fst R) (snd R)" if "R \<in> set ([] @ [(q, p # xs)])" for R
    using that regions_okD(1) [OF r', of "(p + off, xs)"] p(1) np s'(1,2) by simp
  show "\<exists>R \<in> set ([] @ [(q, p # xs)]). (d, x) \<in> region_links off (fst R) (snd R)" if "pending s' d x" for d x
    using regions_okD(2) [OF r' that] by auto
  show "distinct (region_cells off ([] @ [(q, p # xs)]))" using regions_okD(3) [OF r] p by auto
  show "decode_tailp q (tailp_xor_head s') = last_cell off q (p # xs)" using regions_okD(4) [OF r'] by simp
qed

lemma last_cell_self: "distinct (c # cells off xs) \<Longrightarrow> last_cell off c xs = c \<longleftrightarrow> xs = []"
  by (cases xs rule: rev_cases) auto

lemma producers_content:
  assumes P: "producers_ok off q s" and c: "content s = p # zs"
  shows "p \<noteq> 0" "p + off \<noteq> q" "p \<notin> set zs" "\<forall>x \<in> set zs. x \<noteq> 0 \<and> x + off \<noteq> q" "distinct zs"
  using P c by (simp_all add: producers_ok_def)

lemma content_run:
  "producers_ok off q s \<Longrightarrow> content s = p # zs \<Longrightarrow> entered s' = entered s \<Longrightarrow> executed s' = executed s @ [p] \<Longrightarrow> content s' = zs"
  unfolding content_def by (metis append_eq_conv_conj drop_Suc drop_drop length_append_singleton list.sel(3) plus_1_eq_Suc tl_drop)

lemma producers_ok_run:
  assumes P: "producers_ok off q s" and c: "content s = p # zs"
    and s': "prod s' = prod s" "entered s' = entered s" "executed s' = executed s @ [p]" "\<And>a. a \<noteq> q \<Longrightarrow> cell s' a = cell s a"
  shows "producers_ok off q s'"
proof -
  have ct: "content s' = zs" by (rule content_run [OF P c s'(2,3)])
  have fl: "in_flight s' = in_flight s" by (simp add: in_flight_def fun_eq_iff s'(1))
  have en: "\<exists>zs. entered s' = executed s' @ zs"
  proof -
    obtain ws where "entered s = executed s @ ws" using P by (auto simp: producers_ok_def)
    then show ?thesis using c s'(2,3) by (simp add: content_def)
  qed
  show ?thesis using P c en s'(4) unfolding producers_ok_def ct fl s'(1) by (auto simp: in_flight_def)
qed

lemma producers_ok_keep:
  assumes P: "producers_ok off q s"
    and s': "prod s' = prod s" "entered s' = entered s" "executed s' = executed s" "\<And>a. a \<noteq> q \<Longrightarrow> cell s' a = cell s a"
  shows "producers_ok off q s'"
proof -
  have ct: "content s' = content s" by (simp add: content_def s')
  have fl: "in_flight s' = in_flight s" by (simp add: in_flight_def fun_eq_iff s'(1))
  show ?thesis using P s'(4) unfolding producers_ok_def ct fl s'(1-3) by (auto simp: in_flight_def)
qed

lemma mpsc_invI:
  "producers_ok off q s \<Longrightarrow> regions_ok off q s Os c xs \<Longrightarrow> consumer_ok off q s Os c xs (con s) \<Longrightarrow> mpsc_inv off q s"
  unfolding mpsc_inv_def by blast

lemma regions_cong:
  assumes r: "regions_ok off q s Os c xs" and s': "cell s' = cell s" "prod s' = prod s" "tailp_xor_head s' = tailp_xor_head s"
  shows "regions_ok off q s' Os c xs"
proof -
  have p: "pending s' = pending s" by (simp add: pending_def fun_eq_iff s'(2))
  have g: "region off s' d ys = region off s d ys" for d ys by (rule region_cong) (simp_all add: s'(1) p)
  show ?thesis using r by (simp add: regions_ok_def p g s'(3))
qed

lemma consumer_ok_con: "consumer_ok off q (s\<lparr>con := k'\<rparr>) Os c xs k = consumer_ok off q s Os c xs k"
  by (cases k) (simp_all add: attached_def detached_def draining_def)

lemma inv_con:
  assumes "producers_ok off q s" "regions_ok off q s Os c xs" "consumer_ok off q s Os c xs k"
  shows "mpsc_inv off q (s\<lparr>con := k\<rparr>)"
proof (rule mpsc_invI)
  show "producers_ok off q (s\<lparr>con := k\<rparr>)" by (rule producers_ok_keep [OF assms(1)]) simp_all
  show "regions_ok off q (s\<lparr>con := k\<rparr>) Os c xs" by (rule regions_cong [OF assms(2)]) simp_all
qed (simp add: consumer_ok_con assms(3))

text \<open>Leaving the head at its first element: the consumer returns with the queue attached.\<close>

lemma inv_detach:
  assumes P: "producers_ok off q s" and r: "regions_ok off q s [] q (content s)" and h: "cell s q \<noteq> 0"
  obtains xs where "regions_ok off q s [] (cell s q + off) xs" "detached off s (cell s q) [] (cell s q + off) xs"
  using regions_pop [OF r refl h] by (metis detached_def)

lemma inv_attach:
  assumes P: "producers_ok off q s" and r: "regions_ok off q s [] (p + off) xs" "content s = p # xs"
  shows "mpsc_inv off q (s\<lparr>cell := (cell s)(q := p), con := C_idle\<rparr>)" (is "mpsc_inv off q ?s")
proof (rule mpsc_invI [of off q _ "[]" q "p # xs"])
  note pc = producers_content [OF P r(2)]
  show "producers_ok off q ?s" by (rule producers_ok_keep [OF P]) simp_all
  show "regions_ok off q ?s [] q (p # xs)"
    using pc by (intro regions_push [OF r(1)]) (auto simp: pending_def fun_eq_iff)
qed (simp add: attached_def r(2))

lemma inv_attach_next:
  assumes P: "producers_ok off q s" and r: "regions_ok off q s [] (h + off) xs" "content s = h # xs"
    and n: "cell s (h + off) = n" "n \<noteq> 0"
  shows "mpsc_inv off q (s\<lparr>cell := (cell s)(q := n), con := C_idle, executed := executed s @ [h]\<rparr>)" (is "mpsc_inv off q ?s")
proof -
  obtain ys where ys: "xs = n # ys" "regions_ok off q s [] (n + off) ys" using regions_pop [OF r(1) n] by blast
  note pc = producers_content [OF P r(2)]
  have ct: "content ?s = n # ys" using content_run [OF P r(2)] ys(1) by simp
  have "regions_ok off q ?s [] q (n # ys)"
    using pc ys(1) by (intro regions_push [OF ys(2)]) (auto simp: pending_def fun_eq_iff)
  then show ?thesis
    using producers_ok_run [OF P r(2), of ?s] ct by (intro mpsc_invI [of off q _ "[]" q "n # ys"]) (simp_all add: attached_def)
qed

lemma inv_cut:
  assumes P: "producers_ok off q s" and r: "regions_ok off q s [] (p + off) xs" "content s = p # xs"
  shows "regions_ok off q (s\<lparr>cell := (cell s)(q := 0)\<rparr>) [] (p + off) xs" "producers_ok off q (s\<lparr>cell := (cell s)(q := 0)\<rparr>)"
proof -
  have "q \<notin> set (region_cells off ([] @ [(p + off, xs)]))" using producers_content [OF P r(2)] by auto
  then show "regions_ok off q (s\<lparr>cell := (cell s)(q := 0)\<rparr>) [] (p + off) xs"
    by (rule regions_frame [OF r(1)]) (auto simp: pending_def fun_eq_iff)
  show "producers_ok off q (s\<lparr>cell := (cell s)(q := 0)\<rparr>)" by (rule producers_ok_keep [OF P]) simp_all
qed

lemma inv_empty_queue:
  assumes P: "producers_ok off q s" and r: "regions_ok off q s [] (h + off) []" "content s = [h]" and z: "cell s q = 0"
  shows "mpsc_inv off q (s\<lparr>tailp_xor_head := 0, con := C_idle, executed := executed s @ [h]\<rparr>)" (is "mpsc_inv off q ?s")
proof (rule mpsc_invI [of off q _ "[]" q "[]"])
  have np: "\<not> pending s d x" for d x using regions_okD(2) [OF r(1), of d x] by auto
  then show "regions_ok off q ?s [] q []"
    using z by (intro regions_okI) (auto simp: pending_def decode_tailp_def)
  show "producers_ok off q ?s" by (rule producers_ok_run [OF P r(2)]) simp_all
  show "consumer_ok off q ?s [] q [] (con ?s)" using content_run [OF P r(2), of ?s] by (simp add: attached_def)
qed

lemma inv_dequeue_step:
  assumes inv: "mpsc_inv off q s" and st: "dequeue_step off q s = Some s'"
  shows "mpsc_inv off q s'"
proof -
  obtain Os c xs where P: "producers_ok off q s" and r: "regions_ok off q s Os c xs" and k: "consumer_ok off q s Os c xs (con s)"
    using inv by (auto simp: mpsc_inv_def)
  show ?thesis
  proof (cases "con s")
    case D_load
    then have a: "Os = []" "c = q" "xs = content s" using k by (simp_all add: attached_def)
    show ?thesis
    proof (cases "cell s q = 0")
      case True
      then show ?thesis using st D_load inv_con [OF P r, of D_failed] a by (simp add: dequeue_step_def attached_def)
    next
      case False
      obtain ys where "regions_ok off q s [] (cell s q + off) ys" "detached off s (cell s q) [] (cell s q + off) ys"
        using inv_detach [OF P _ False] r a by blast
      then show ?thesis using st D_load False inv_con [OF P, of "[]" _ ys "D_next (cell s q)"] by (simp add: dequeue_step_def)
    qed
  next
    case (D_next h)
    then show ?thesis using st k inv_con [OF P r, of "D_head h (cell s (h + off))"] by (simp add: dequeue_step_def)
  next
    case (D_head h n)
    then have a: "Os = []" "c = h + off" "content s = h # xs" and n: "n \<noteq> 0 \<Longrightarrow> cell s (h + off) = n" using k by (simp_all add: detached_def)
    show ?thesis
    proof (cases "n = 0")
      case True
      note ic = inv_cut [OF P, of h xs]
      show ?thesis using st D_head True a inv_con [OF ic(2) ic(1), of "D_cas h"] r by (simp add: dequeue_step_def detached_def)
    next
      case False
      then show ?thesis using st D_head a inv_attach_next [OF P, of h xs n] r n by (simp add: dequeue_step_def Let_def)
    qed
  next
    case (D_cas h)
    then have a: "Os = []" "c = h + off" "content s = h # xs" "cell s q = 0" using k by (simp_all add: detached_def)
    have t: "tailp_xor_head s = encode_tailp q (h + off) \<longleftrightarrow> xs = []"
      using regions_okD(3,4) [OF r] a last_cell_self [of "h + off" off xs]
      by (auto simp: decode_tailp_def encode_tailp_def) (metis xor_twice(3))
    show ?thesis
    proof (cases "xs = []")
      case True
      then show ?thesis using st D_cas t a r inv_empty_queue [OF P, of h] by (simp add: dequeue_step_def encode_tailp_def)
    next
      case False
      then show ?thesis using st D_cas t a inv_con [OF P r, of "D_spin h"] by (simp add: dequeue_step_def detached_def)
    qed
  next
    case (D_spin h)
    then show ?thesis
      using st k inv inv_con [OF P r, of "D_fix h (cell s (h + off))"] by (auto simp: dequeue_step_def Let_def split: if_splits)
  next
    case (D_fix h n)
    then show ?thesis using st k r inv_attach_next [OF P, of h xs n] by (auto simp: dequeue_step_def detached_def)
  qed (use st in \<open>simp_all add: dequeue_step_def\<close>)
qed

lemma inv_run_next:
  assumes P: "producers_ok off q s" and r: "regions_ok off q s [] (p + off) xs" "content s = p # xs"
    and n: "cell s (p + off) = n" "n \<noteq> 0" and k: "k = B_stop n \<or> k = B_loop max_n n e"
  shows "mpsc_inv off q (s\<lparr>con := k, executed := executed s @ [p]\<rparr>)" (is "mpsc_inv off q ?s")
proof -
  obtain ys where ys: "xs = n # ys" "regions_ok off q s [] (n + off) ys" using regions_pop [OF r(1) n] by blast
  have ct: "content ?s = n # ys" using content_run [OF P r(2)] ys(1) by simp
  have "regions_ok off q ?s [] (n + off) ys" by (rule regions_cong [OF ys(2)]) simp_all
  then show ?thesis
    using producers_ok_run [OF P r(2), of ?s] ct k by (intro mpsc_invI [of off q _ "[]" "n + off" ys]) (auto simp: detached_def)
qed

lemma inv_take_all:
  assumes P: "producers_ok off q s" and r: "regions_ok off q s [] (p + off) xs" "content s = p # xs" and z: "cell s q = 0"
  shows "mpsc_inv off q (s\<lparr>tailp_xor_head := 0, con := B_drain p (decode_tailp q (tailp_xor_head s)) 0\<rparr>)" (is "mpsc_inv off q ?s")
proof (rule mpsc_invI [of off q _ "[(p + off, xs)]" q "[]"])
  note pc = producers_content [OF P r(2)]
  show "producers_ok off q ?s" by (rule producers_ok_keep [OF P]) simp_all
  have r': "region off ?s (p + off) xs = region off s (p + off) xs" by (rule region_cong) (simp_all add: pending_def)
  show "regions_ok off q ?s [(p + off, xs)] q []"
  proof (rule regions_okI)
    show "region off ?s (fst R) (snd R)" if "R \<in> set ([(p + off, xs)] @ [(q, [])])" for R
      using that r' regions_okD(1) [OF r(1), of "(p + off, xs)"] z by auto
    show "\<exists>R \<in> set ([(p + off, xs)] @ [(q, [])]). (d, x) \<in> region_links off (fst R) (snd R)" if "pending ?s d x" for d x
      using regions_okD(2) [OF r(1), of d x] that by (auto simp: pending_def)
    show "distinct (region_cells off ([(p + off, xs)] @ [(q, [])]))" using regions_okD(3) [OF r(1)] pc by auto
  qed (simp add: decode_tailp_def)
  show "consumer_ok off q ?s [(p + off, xs)] q [] (con ?s)"
    using regions_okD(4) [OF r(1)] r(2) by (simp add: draining_def)
qed

lemma inv_drain_next:
  assumes P: "producers_ok off q s" and r: "regions_ok off q s Os c xs" and d: "draining off q s p l Os c xs"
    and n: "cell s (p + off) = n" "n \<noteq> 0"
  shows "mpsc_inv off q (s\<lparr>con := B_drain n l e, executed := executed s @ [p]\<rparr>)" (is "mpsc_inv off q ?s")
proof -
  obtain ys where d: "Os = [(p + off, ys)]" "c = q" "content s = p # ys @ xs" "l = last_cell off (p + off) ys"
    using d by (auto simp: draining_def)
  obtain zs where zs: "ys = n # zs" "regions_ok off q s [(n + off, zs)] q xs" using regions_pop_old r d n by metis
  have ct: "content ?s = n # zs @ xs" using content_run [OF P d(3), of ?s] zs(1) by simp
  have "regions_ok off q ?s [(n + off, zs)] q xs" by (rule regions_cong [OF zs(2)]) simp_all
  then show ?thesis
    using producers_ok_run [OF P d(3), of ?s] ct d(4) zs(1)
    by (intro mpsc_invI [of off q _ "[(n + off, zs)]" q xs]) (auto simp: draining_def)
qed

lemma draining_last:
  assumes "regions_ok off q s Os c xs" "draining off q s p (p + off) Os c xs"
  shows "Os = [(p + off, [])] \<and> c = q \<and> content s = p # xs"
proof -
  obtain ys where d: "Os = [(p + off, ys)]" "c = q" "content s = p # ys @ xs" "p + off = last_cell off (p + off) ys"
    using assms(2) by (auto simp: draining_def)
  have "distinct ((p + off) # cells off ys)" using regions_okD(3) [OF assms(1)] d(1) by simp
  then have "ys = []" using last_cell_self d(4) by metis
  then show ?thesis using d by simp
qed

lemma inv_drain_last:
  assumes P: "producers_ok off q s" and r: "regions_ok off q s Os c xs" and d: "draining off q s p (p + off) Os c xs"
  shows "mpsc_inv off q (s\<lparr>con := C_idle, executed := executed s @ [p]\<rparr>)" (is "mpsc_inv off q ?s")
proof -
  have d: "Os = [(p + off, [])]" "c = q" "content s = p # xs" using draining_last [OF r d] by simp_all
  have "regions_ok off q s [] q xs"
  proof (rule regions_okI)
    show "\<exists>R \<in> set ([] @ [(q, xs)]). (a, x) \<in> region_links off (fst R) (snd R)" if "pending s a x" for a x
      using regions_okD(2) [OF r that] d by auto
  qed (use regions_okD(1,3,4) [OF r] d in auto)
  then have "regions_ok off q ?s [] q xs" by (rule regions_cong) simp_all
  then show ?thesis
    using producers_ok_run [OF P d(3), of ?s] content_run [OF P d(3), of ?s]
    by (intro mpsc_invI [of off q _ "[]" q xs]) (auto simp: attached_def)
qed

lemma inv_burst_step:
  assumes inv: "mpsc_inv off q s" and st: "burst_step off q s = Some s'"
  shows "mpsc_inv off q s'"
proof -
  obtain Os c xs where P: "producers_ok off q s" and r: "regions_ok off q s Os c xs" and k: "consumer_ok off q s Os c xs (con s)"
    using inv by (auto simp: mpsc_inv_def)
  show ?thesis
  proof (cases "con s")
    case (B_load max_n)
    then have a: "Os = []" "c = q" "xs = content s" using k by (simp_all add: attached_def)
    show ?thesis
    proof (cases "cell s q = 0")
      case True
      then show ?thesis using st B_load inv_con [OF P r, of C_idle] a by (simp add: burst_step_def attached_def)
    next
      case False
      obtain ys where "regions_ok off q s [] (cell s q + off) ys" "detached off s (cell s q) [] (cell s q + off) ys"
        using inv_detach [OF P _ False] r a by blast
      then show ?thesis using st B_load False inv_con [OF P, of "[]" _ ys "B_loop max_n (cell s q) 0"] by (simp add: burst_step_def)
    qed
  next
    case (B_loop max_n p e)
    let ?k = "if cell s (p + off) \<noteq> 0 then B_run max_n p (cell s (p + off)) e else if e \<noteq> 0 then B_stop p else B_last p"
    have "s' = s\<lparr>con := ?k\<rparr>" using st B_loop by (simp add: burst_step_def Let_def)
    then show ?thesis using k B_loop inv_con [OF P r, of ?k] by simp
  next
    case (B_run max_n p n e)
    then show ?thesis
      using st k r inv_run_next [OF P, of p xs n _ max_n "e + 1"] by (auto simp: burst_step_def detached_def)
  next
    case (B_stop p)
    then show ?thesis using st k r inv_attach [OF P, of p xs] by (simp add: burst_step_def detached_def)
  next
    case (B_last p)
    then have a: "Os = []" "c = p + off" "content s = p # xs" using k by (simp_all add: detached_def)
    note ic = inv_cut [OF P, of p xs]
    show ?thesis using st B_last a inv_con [OF ic(2) ic(1), of "B_xchg p"] r by (simp add: burst_step_def detached_def)
  next
    case (B_xchg p)
    then show ?thesis using st k r inv_take_all [OF P, of p xs] by (simp add: burst_step_def detached_def encode_tailp_def Let_def)
  next
    case (B_drain p l e)
    then show ?thesis
      using st k inv inv_con [OF P r, of "B_drun p (cell s (p + off)) l e"] inv_con [OF P r, of "B_final p e"]
      by (auto simp: burst_step_def Let_def split: if_splits)
  next
    case (B_drun p n l e)
    then show ?thesis using st k inv_drain_next [OF P r, of p l n "e + 1"] by (auto simp: burst_step_def)
  next
    case (B_final p e)
    then show ?thesis using st k inv_drain_last [OF P r, of p] by (simp add: burst_step_def)
  qed (use st in \<open>simp_all add: burst_step_def\<close>)
qed

lemma mpsc_inv_step: "mpsc_step off q s s' \<Longrightarrow> mpsc_inv off q s \<Longrightarrow> mpsc_inv off q s'"
proof (induction rule: mpsc_step.induct)
  case (call_dequeue s)
  then obtain Os c xs where "producers_ok off q s" "regions_ok off q s Os c xs" "attached q s Os c xs"
    by (auto simp: mpsc_inv_def)
  then show ?case using inv_con [of off q s Os c xs D_load] by simp
next
  case (call_burst s max_n)
  then obtain Os c xs where "producers_ok off q s" "regions_ok off q s Os c xs" "attached q s Os c xs"
    by (auto simp: mpsc_inv_def)
  then show ?case using inv_con [of off q s Os c xs "B_load max_n"] by simp
qed (auto intro: inv_call_enqueue inv_enqueue_step inv_dequeue_step inv_burst_step inv_reuse)

lemma mpsc_reachable_inv: "mpsc_reachable off q s \<Longrightarrow> mpsc_inv off q s"
  by (induction rule: mpsc_reachable.induct) (auto intro: mpsc_inv_init mpsc_inv_step)


subsection \<open>Properties\<close>

lemma region_quiet: "(\<And>d x. \<not> pending s d x) \<Longrightarrow> region off s c xs \<Longrightarrow> lseg off (cell s) (cell s c) xs 0"
  by (induction xs arbitrary: c) auto

text \<open>
  (C1) Whatever the interleaving of producers, \<open>dequeue\<close> and \<open>burst\<close>, elements leave the queue in the order in
  which they were exchanged into the tail, each once and none lost; and whenever no call is under way, the
  elements that entered and have not left are linked from \<open>head\<close> in that order, so the queue looks empty
  only if it is.
\<close>

theorem mpsc_fifo_exactly_once:
  assumes "mpsc_reachable off q s"
  shows "entered s = executed s @ content s \<and> distinct (content s) \<and>
    ((\<forall>i. prod s i = P_idle) \<longrightarrow> con s = C_idle \<longrightarrow>
       lseg off (cell s) (mpsc_peek q s) (content s) 0 \<and> (mpsc_empty q s \<longleftrightarrow> content s = []))"
proof -
  obtain Os c xs where P: "producers_ok off q s" and r: "regions_ok off q s Os c xs" "consumer_ok off q s Os c xs (con s)"
    using mpsc_reachable_inv [OF assms] by (auto simp: mpsc_inv_def)
  have "entered s = executed s @ content s" "distinct (content s)" using P by (auto simp: producers_ok_def content_def)
  moreover have "lseg off (cell s) (cell s q) (content s) 0" if "\<forall>i. prod s i = P_idle" "con s = C_idle"
  proof -
    have "\<not> pending s d x" for d x using that(1) by (simp add: pending_def)
    then show ?thesis using region_quiet regions_okD(1) [OF r(1), of "(c, xs)"] r(2) that(2) by (auto simp: attached_def)
  qed
  moreover have "(p = 0) = (xs = [])" if "lseg off m p xs 0" for p m xs using that by (cases xs) auto
  ultimately show ?thesis by (auto simp: mpsc_peek_def mpsc_empty_def)
qed

text \<open>
  (C2) The consumer never spins in vain: when \<open>dequeue\<close> or \<open>burst\<close> waits for a link, a producer stands
  right before the store of that link, and its one step ends the wait.
\<close>

theorem mpsc_spin_progress:
  assumes "mpsc_reachable off q s"
    and "(con s = D_spin p) \<or> (con s = B_drain p last_next e \<and> p + off \<noteq> last_next)" and "cell s (p + off) = 0"
  shows "\<exists>i s'. enqueue_step off q i s = Some s' \<and> cell s' (p + off) \<noteq> 0 \<and> con s' = con s"
proof -
  obtain Os c xs where r: "regions_ok off q s Os c xs" "consumer_ok off q s Os c xs (con s)"
    using mpsc_reachable_inv [OF assms(1)] by (auto simp: mpsc_inv_def)
  obtain R where "R \<in> set (Os @ [(c, xs)])" "fst R = p + off" "snd R \<noteq> []"
    using r(2) assms(2) by (fastforce simp: detached_def draining_def)
  then obtain x ys where "region off s (p + off) (x # ys)" using regions_okD(1) [OF r(1)] by (metis list.exhaust)
  then have x: "x \<noteq> 0" "pending s (p + off) x" using assms(3) by (auto split: if_splits)
  then obtain i where "prod s i = P_link x (p + off)" by (auto simp: pending_def)
  then have "enqueue_step off q i s = Some (s\<lparr>cell := (cell s)(p + off := x), prod := (prod s)(i := P_idle)\<rparr>)"
    by (simp add: enqueue_step_def)
  with x(1) show ?thesis by (intro exI [of _ i]) simp
qed

text \<open>Runs of steps, for the witnesses: two producers and one consumer.\<close>

definition run_steps :: "(mpsc \<Rightarrow> mpsc option) list \<Rightarrow> mpsc \<Rightarrow> mpsc option" where
  "run_steps fs s = foldl Option.bind (Some s) fs"

definition start_dequeue :: "mpsc \<Rightarrow> mpsc option" where
  "start_dequeue s = (if con s = C_idle then Some (s\<lparr>con := D_load\<rparr>) else None)"

lemma run_steps_reachable:
  assumes "mpsc_reachable off q s" "\<forall>f \<in> set fs. f \<in> {start_dequeue, dequeue_step off q} \<union> range (enqueue_step off q)"
    "run_steps fs s = Some s'"
  shows "mpsc_reachable off q s'"
proof -
  have st: "mpsc_step off q a b" if "f \<in> {start_dequeue, dequeue_step off q} \<union> range (enqueue_step off q)" "f a = Some b" for f a b
    using that by (auto simp: start_dequeue_def split: if_splits intro: mpsc_step.intros)
  show ?thesis
    using assms
  proof (induction fs arbitrary: s' rule: rev_induct)
    case Nil
    then show ?case by (simp add: run_steps_def)
  next
    case (snoc f fs)
    then obtain u where "run_steps fs s = Some u" "f u = Some s'" by (auto simp: run_steps_def Option.bind_eq_Some_conv)
    with snoc show ?case using st [of f u s'] mpsc_reachable.step [of off q u s'] by simp
  qed
qed

definition two_calls :: mpsc where
  "two_calls = (mpsc_init 64 (\<lambda>_. 1))\<lparr>prod := (\<lambda>i. if i = 0 then P_store 256 else if i = 1 then P_store 512 else P_idle)\<rparr>"

lemma two_calls_reachable: "mpsc_reachable 8 64 two_calls"
proof -
  let ?s = "mpsc_init 64 (\<lambda>_. 1)"
  have "mpsc_reachable 8 64 (?s\<lparr>prod := (prod ?s)(0 := P_store 256)\<rparr>)" (is "mpsc_reachable 8 64 ?t")
    by (rule mpsc_reachable.step [OF mpsc_reachable.init [of 8 64 "\<lambda>_. 1"] mpsc_step.call_enqueue [of ?s 0 8 64 256]])
      (simp_all add: mpsc_init_def outside_def content_def in_flight_def)
  then have "mpsc_reachable 8 64 (?t\<lparr>prod := (prod ?t)(1 := P_store 512)\<rparr>)"
    by (rule mpsc_reachable.step, intro mpsc_step.call_enqueue)
      (simp_all add: mpsc_init_def outside_def content_def in_flight_def)
  moreover have "?t\<lparr>prod := (prod ?t)(1 := P_store 512)\<rparr> = two_calls"
    by (simp add: two_calls_def mpsc_init_def fun_eq_iff)
  ultimately show ?thesis by simp
qed

theorem mpsc_spin_progress_witness:
  "\<exists>s i s'. con s = D_spin 256 \<and> cell s (256 + 8) = 0 \<and> enqueue_step 8 64 i s = Some s' \<and> cell s' (256 + 8) \<noteq> 0"
proof -
  let ?e = "enqueue_step 8 64" and ?d = "dequeue_step 8 64"
  let ?fs = "[?e 0, ?e 0, ?e 0, ?e 1, start_dequeue, ?d, ?d, ?d, ?e 1, ?d]"
  have "Option.bind (run_steps ?fs two_calls) (\<lambda>s. Some (con s, cell s (256 + 8))) = Some (D_spin 256, 0)" by code_simp
  then obtain s where s: "run_steps ?fs two_calls = Some s" "con s = D_spin 256" "cell s (256 + 8) = 0"
    unfolding Option.bind_eq_Some_conv by blast
  have "mpsc_reachable 8 64 s" by (rule run_steps_reachable [OF two_calls_reachable _ s(1)]) auto
  from mpsc_spin_progress [OF this, of 256] s(2,3) show ?thesis by blast
qed

theorem mpsc_fifo_exactly_once_witness:
  "\<exists>s. mpsc_reachable 8 64 s \<and> executed s = [256] \<and> entered s = [256] @ content s \<and> content s = [512]"
proof -
  let ?e = "enqueue_step 8 64" and ?d = "dequeue_step 8 64"
  let ?fs = "[?e 0, ?e 0, ?e 0, ?e 1, start_dequeue, ?d, ?d, ?d, ?e 1, ?d, ?e 1, ?d, ?d]"
  have "Option.bind (run_steps ?fs two_calls) (\<lambda>s. Some (executed s, content s)) = Some ([256], [512])" by code_simp
  then obtain s where s: "run_steps ?fs two_calls = Some s" "executed s = [256]" "content s = [512]"
    unfolding Option.bind_eq_Some_conv by blast
  have "mpsc_reachable 8 64 s" by (rule run_steps_reachable [OF two_calls_reachable _ s(1)]) auto
  from mpsc_fifo_exactly_once [OF this] this s(2,3) show ?thesis by auto
qed

end
