(* ===== verification/Future_Core.thy ===== *)
theory Future_Core
  imports Prelude "HOL-Library.Monad_Syntax"
begin

text \<open>
  Component futures, the engine (src/future/core.hpp, src/future/core.cpp): the reference-counted
  headers of futures and promises, their successor lists, the bodies of futures that wait, and the
  queue of futures that became active. Headers, bodies and dependency links live in an explicit heap;
  a result \<open>None\<close> is the use of a deleted or wrongly typed object, or a failed assertion.
  A successor list is kept as the list of its links (the code threads it through \<open>sucs_next\<close>), and the active
  queue as the list of its headers (threaded through \<open>active_next\<close>).
\<close>

subsection \<open>Headers, links and bodies\<close>

type_synonym hptr = nat
type_synonym lptr = nat
type_synonym bptr = nat

definition status_active :: int where "status_active = 0"
definition status_ready :: int where "status_ready = - 1"
definition status_proxying :: int where "status_proxying = - 2"
definition status_proxying_active :: int where "status_proxying_active = - 3"
definition status_results_yes :: int where "status_results_yes = status_active + 1"
definition status_results_no :: int where "status_results_no = status_active + 2"
definition status_not_ready :: int where "status_not_ready = status_active + 1"

lemmas status_defs =
  status_active_def status_ready_def status_proxying_def status_proxying_active_def
  status_results_yes_def status_results_no_def status_not_ready_def

text \<open>A callback: user code, with whether its return type is a trivially ready future and
  how many values that future has; or the composition made by \<open>future_composite_fn\<close>.\<close>

datatype fn = Fn nat bool nat | Fn_comp fn fn

text \<open>
  The dependencies of a body, as the code nests them. The dependency on a trivially ready
  header keeps only the header in the code; it is a link here that is in no successor list.
\<close>

datatype 'v dep =
    Dep_link lptr
  | Dep_vals "'v list"
  | Dep_all "'v dep list"
  | Dep_then "'v dep" fn

datatype 'v body = Body_then "'v dep" fn | Body_identity "'v dep" | Body_proxy lptr

record dependency_link =
  link_dep :: hptr
  link_suc :: "hptr option"

text \<open>The union of \<open>result\<close> and \<open>body\<close>.\<close>

datatype slot = Result_null | Result_of hptr | Body_of bptr

record promise_meta =
  countdown :: int
  deferred_decrements :: int

record 'v future_header =
  ref_n :: int
  status :: int
  sucs :: "lptr list"
  slot :: slot
  is_dependent :: bool
  arity :: nat
  results :: "'v list option"
  pro_meta :: "promise_meta option"

record 'v fheap =
  headers :: "hptr \<rightharpoonup> 'v future_header"
  links :: "lptr \<rightharpoonup> dependency_link"
  bodies :: "bptr \<rightharpoonup> 'v body"
  fresh :: nat
  active :: "hptr list option"

definition the_nil :: hptr where "the_nil = 0"
definition the_always :: hptr where "the_always = 1"

definition nil_header :: "'v future_header" where
  "nil_header = \<lparr>ref_n = - 1, status = status_active + 666, sucs = [], slot = Result_null,
     is_dependent = False, arity = 0, results = None, pro_meta = None\<rparr>"

definition always_header :: "'v future_header" where
  "always_header = \<lparr>ref_n = - 1, status = status_ready, sucs = [], slot = Result_of the_always,
     is_dependent = False, arity = 0, results = Some [], pro_meta = None\<rparr>"

definition fheap_init :: "'v fheap" where
  "fheap_init = \<lparr>headers = [the_nil \<mapsto> nil_header, the_always \<mapsto> always_header],
     links = Map.empty, bodies = Map.empty, fresh = 2, active = None\<rparr>"

definition put_header :: "hptr \<Rightarrow> 'v future_header \<Rightarrow> 'v fheap \<Rightarrow> 'v fheap" where
  "put_header h a s = s\<lparr>headers := (headers s)(h \<mapsto> a)\<rparr>"

definition new_header :: "'v future_header \<Rightarrow> 'v fheap \<Rightarrow> hptr \<times> 'v fheap" where
  "new_header a s = (fresh s, s\<lparr>headers := (headers s)(fresh s \<mapsto> a), fresh := Suc (fresh s)\<rparr>)"

definition delete_header :: "hptr \<Rightarrow> 'v fheap \<Rightarrow> 'v fheap" where
  "delete_header h s = s\<lparr>headers := (headers s)(h := None)\<rparr>"

definition put_link :: "lptr \<Rightarrow> dependency_link \<Rightarrow> 'v fheap \<Rightarrow> 'v fheap" where
  "put_link l a s = s\<lparr>links := (links s)(l \<mapsto> a)\<rparr>"

definition new_link :: "dependency_link \<Rightarrow> 'v fheap \<Rightarrow> lptr \<times> 'v fheap" where
  "new_link a s = (fresh s, s\<lparr>links := (links s)(fresh s \<mapsto> a), fresh := Suc (fresh s)\<rparr>)"

text \<open>The links of a dependency are members of the body: they go when it goes.\<close>

fun dep_links :: "'v dep \<Rightarrow> lptr list" where
  "dep_links (Dep_link l) = [l]"
| "dep_links (Dep_vals vs) = []"
| "dep_links (Dep_all ds) = concat (map dep_links ds)"
| "dep_links (Dep_then d f) = dep_links d"

fun body_links :: "'v body \<Rightarrow> lptr list" where
  "body_links (Body_then d f) = dep_links d"
| "body_links (Body_identity d) = dep_links d"
| "body_links (Body_proxy l) = [l]"

definition delete_links :: "lptr list \<Rightarrow> 'v fheap \<Rightarrow> 'v fheap" where
  "delete_links ls s = s\<lparr>links := (\<lambda>l. if l \<in> set ls then None else links s l)\<rparr>"

definition delete_body :: "bptr \<Rightarrow> 'v fheap \<Rightarrow> 'v fheap" where
  "delete_body b s =
     (let s = (case bodies s b of None \<Rightarrow> s | Some bd \<Rightarrow> delete_links (body_links bd) s)
      in s\<lparr>bodies := (bodies s)(b := None)\<rparr>)"

text \<open>\<open>delete static_cast<future_header_dependent*>(hdr)\<close>.\<close>

definition delete_dependent :: "hptr \<Rightarrow> 'v fheap \<Rightarrow> 'v fheap option" where
  "delete_dependent h s =
     do { a \<leftarrow> headers s h; if is_dependent a then Some (delete_header h s) else None }"

subsection \<open>Construction\<close>

definition dependent_header :: "nat \<Rightarrow> bptr \<Rightarrow> 'v future_header" where
  "dependent_header n b = \<lparr>ref_n = 2, status = status_active, sucs = [], slot = Body_of b,
     is_dependent = True, arity = n, results = None, pro_meta = None\<rparr>"

definition result_header :: "nat \<Rightarrow> hptr \<Rightarrow> 'v future_header" where
  "result_header n h = \<lparr>ref_n = 1, status = (if n = 0 then status_not_ready else status_results_no), sucs = [],
     slot = Result_of h, is_dependent = False, arity = n, results = (if n = 0 then Some [] else None), pro_meta = None\<rparr>"

definition result_header_with :: "bool \<Rightarrow> 'v list \<Rightarrow> hptr \<Rightarrow> 'v future_header" where
  "result_header_with not_ready vs h =
     (result_header (length vs) h)\<lparr>status := (if not_ready then status_results_yes else status_ready), results := Some vs\<rparr>"

definition new_result_ready :: "'v list \<Rightarrow> 'v fheap \<Rightarrow> hptr \<times> 'v fheap" where
  "new_result_ready vs s = new_header (result_header_with False vs (fresh s)) s"

subsection \<open>Reference counts\<close>

definition incref :: "hptr \<Rightarrow> int \<Rightarrow> 'v fheap \<Rightarrow> 'v fheap option" where
  "incref h n s =
     do { a \<leftarrow> headers s h;
          Some (if ref_n a \<ge> 0 then put_header h (a\<lparr>ref_n := ref_n a + n\<rparr>) s else s) }"

definition decref :: "hptr \<Rightarrow> int \<Rightarrow> 'v fheap \<Rightarrow> (int \<times> 'v fheap) option" where
  "decref h n s =
     do { a \<leftarrow> headers s h;
          Some (if ref_n a \<ge> 0 then (ref_n a - n, put_header h (a\<lparr>ref_n := ref_n a - n\<rparr>) s) else (ref_n a, s)) }"

text \<open>The overrides for headers that are never static.\<close>

definition incref_fast :: "hptr \<Rightarrow> int \<Rightarrow> 'v fheap \<Rightarrow> 'v fheap option" where
  "incref_fast h n s = do { a \<leftarrow> headers s h; Some (put_header h (a\<lparr>ref_n := ref_n a + n\<rparr>) s) }"

definition decref_fast :: "hptr \<Rightarrow> int \<Rightarrow> 'v fheap \<Rightarrow> (int \<times> 'v fheap) option" where
  "decref_fast h n s =
     do { a \<leftarrow> headers s h; Some (ref_n a - n, put_header h (a\<lparr>ref_n := ref_n a - n\<rparr>) s) }"

definition result_incref :: "hptr \<Rightarrow> int \<Rightarrow> 'v fheap \<Rightarrow> 'v fheap option" where
  "result_incref h n s = do { a \<leftarrow> headers s h; if arity a = 0 then incref h n s else incref_fast h n s }"

text \<open>\<open>delete_me\<close> destroys the values only if they were constructed; \<open>delete_me_ready\<close> always does.\<close>

definition delete_me :: "hptr \<Rightarrow> 'v fheap \<Rightarrow> 'v fheap option" where
  "delete_me h s =
     do {
       a \<leftarrow> headers s h;
       if is_dependent a then None
       else if arity a = 0 then Some (delete_header h s)
       else if status a = status_results_yes \<or> status a = status_ready
         then (case results a of None \<Rightarrow> None | Some _ \<Rightarrow> Some (delete_header h s))
       else Some (delete_header h s)
     }"

definition delete_me_ready :: "hptr \<Rightarrow> 'v fheap \<Rightarrow> 'v fheap option" where
  "delete_me_ready h s =
     do {
       a \<leftarrow> headers s h;
       if is_dependent a then None
       else (case results a of None \<Rightarrow> None | Some _ \<Rightarrow> Some (delete_header h s))
     }"

datatype header_ops = Ops_general | Ops_result | Ops_result_ready | Ops_promise | Ops_dependent

definition is_trivially_ready_result :: "header_ops \<Rightarrow> bool" where
  "is_trivially_ready_result ops \<longleftrightarrow> ops = Ops_result_ready"

definition is_possibly_dependent :: "header_ops \<Rightarrow> bool" where
  "is_possibly_dependent ops \<longleftrightarrow> ops = Ops_general \<or> ops = Ops_dependent"

definition ops_incref :: "header_ops \<Rightarrow> hptr \<Rightarrow> 'v fheap \<Rightarrow> 'v fheap option" where
  "ops_incref ops h s =
     (case ops of
        Ops_general \<Rightarrow> incref h 1 s
      | Ops_result \<Rightarrow> result_incref h 1 s
      | Ops_result_ready \<Rightarrow> result_incref h 1 s
      | Ops_promise \<Rightarrow> incref_fast h 1 s
      | Ops_dependent \<Rightarrow> incref_fast h 1 s)"

definition result_ready_dropref :: "hptr \<Rightarrow> 'v fheap \<Rightarrow> 'v fheap option" where
  "result_ready_dropref h s =
     do { (n, s) \<leftarrow> decref h 1 s; if n = 0 then delete_me_ready h s else Some s }"

definition general_delete1 :: "hptr \<Rightarrow> 'v fheap \<Rightarrow> 'v fheap option" where
  "general_delete1 h s =
     do {
       a \<leftarrow> headers s h;
       if status a = status_ready then
         (case slot a of
            Result_of r \<Rightarrow>
              (if r = h then delete_me_ready h s
               else do { s \<leftarrow> result_ready_dropref r s; delete_dependent h s })
          | _ \<Rightarrow> None)
       else if slot a = Result_of h then delete_me h s else None
     }"

definition dependent_delete1 :: "hptr \<Rightarrow> 'v fheap \<Rightarrow> 'v fheap option" where
  "dependent_delete1 h s =
     do {
       a \<leftarrow> headers s h;
       if status a = status_ready then
         (case slot a of
            Result_of r \<Rightarrow> do { s \<leftarrow> result_ready_dropref r s; delete_dependent h s }
          | _ \<Rightarrow> None)
       else None
     }"

definition ops_dropref :: "header_ops \<Rightarrow> bool \<Rightarrow> hptr \<Rightarrow> 'v fheap \<Rightarrow> 'v fheap option" where
  "ops_dropref ops maybe_nil h s =
     (case ops of
        Ops_general \<Rightarrow> do { (n, s) \<leftarrow> decref h 1 s; if n = 0 then general_delete1 h s else Some s }
      | Ops_result \<Rightarrow> do { (n, s) \<leftarrow> decref h 1 s; if n = 0 then delete_me h s else Some s }
      | Ops_result_ready \<Rightarrow> result_ready_dropref h s
      | Ops_promise \<Rightarrow>
          (if maybe_nil \<and> h = the_nil then Some s
           else do { (n, s) \<leftarrow> decref_fast h 1 s; if n = 0 then delete_me h s else Some s })
      | Ops_dependent \<Rightarrow>
          (if maybe_nil \<and> h = the_nil then Some s
           else do { (n, s) \<leftarrow> decref_fast h 1 s; if n = 0 then dependent_delete1 h s else Some s }))"

definition unlink :: "lptr \<Rightarrow> 'v fheap \<Rightarrow> 'v fheap option" where
  "unlink l s =
     do {
       k \<leftarrow> links s l;
       case link_suc k of
         None \<Rightarrow> Some s
       | Some _ \<Rightarrow>
           do { d \<leftarrow> headers s (link_dep k);
                if l \<in> set (sucs d) then Some (put_header (link_dep k) (d\<lparr>sucs := remove1 l (sucs d)\<rparr>) s) else None }
     }"

definition set_ref :: "hptr \<Rightarrow> int \<Rightarrow> 'v fheap \<Rightarrow> 'v fheap option" where
  "set_ref h n s = do { a \<leftarrow> headers s h; Some (put_header h (a\<lparr>ref_n := n\<rparr>) s) }"

definition drop_for_result :: "hptr \<Rightarrow> 'v fheap \<Rightarrow> (hptr \<times> 'v fheap) option" where
  "drop_for_result a s =
     do {
       ah \<leftarrow> headers s a;
       case slot ah of
         Result_of b \<Rightarrow>
           do {
             bh \<leftarrow> headers s b;
             let a_unit = (if ref_n ah < 0 \<or> a = b then 0 else 1);
             let b_unit = (if ref_n bh < 0 \<or> a = b then 0 else 1);
             let a_refs = ref_n ah - a_unit;
             let b_refs = ref_n bh + b_unit;
             let b_refs = (if a_refs = 0 then b_refs - b_unit else b_refs);
             s \<leftarrow> (if a_unit = 1 then set_ref a a_refs s else Some s);
             s \<leftarrow> (if b_unit = 1 then set_ref b b_refs s else Some s);
             s \<leftarrow> (if a_refs = 0 then delete_dependent a s else Some s);
             Some (b, s)
           }
       | _ \<Rightarrow> None
     }"

definition proxy_link :: "hptr \<Rightarrow> 'v fheap \<Rightarrow> (bptr \<times> lptr \<times> dependency_link) option" where
  "proxy_link a s =
     do {
       ah \<leftarrow> headers s a;
       case slot ah of
         Body_of b \<Rightarrow>
           do { bd \<leftarrow> bodies s b;
                case bd of Body_proxy l \<Rightarrow> do { k \<leftarrow> links s l; Some (b, l, k) } | _ \<Rightarrow> None }
       | _ \<Rightarrow> None
     }"

definition drop_for_proxied :: "hptr \<Rightarrow> 'v fheap \<Rightarrow> (hptr \<times> 'v fheap) option" where
  "drop_for_proxied a s =
     do {
       (a_body, l, k) \<leftarrow> proxy_link a s;
       let b = link_dep k;
       ah \<leftarrow> headers s a;
       bh \<leftarrow> headers s b;
       let b_unit = (if ref_n bh < 0 then 0 else 1);
       let a_refs = ref_n ah - 1;
       let b_refs = ref_n bh + b_unit;
       let b_refs = (if a_refs = 0 then b_refs - b_unit else b_refs);
       s \<leftarrow> set_ref a a_refs s;
       s \<leftarrow> (if b_unit = 1 then set_ref b b_refs s else Some s);
       s \<leftarrow> (if a_refs = 0 then
               do { s \<leftarrow> (if status ah = status_proxying then unlink l s else Some s);
                    delete_dependent a (delete_body a_body s) }
             else Some s);
       Some (b, s)
     }"

subsection \<open>Becoming ready\<close>

text \<open>
  \<open>entered_ready_with_sucs\<close> hands the result to the successors and appends those that became active to the
  active queue. When there is no active queue it begins one and depletes it at the end, which
  \<open>enter_ready\<close> of the engine below adds; this part is what both cases share.
\<close>

definition push_active :: "hptr \<Rightarrow> 'v fheap \<Rightarrow> 'v fheap option" where
  "push_active h s = do { q \<leftarrow> active s; Some (s\<lparr>active := Some (q @ [h])\<rparr>) }"

definition notify_suc :: "hptr \<Rightarrow> lptr \<Rightarrow> 'v fheap \<Rightarrow> 'v fheap option" where
  "notify_suc result l s =
     do {
       k \<leftarrow> links s l;
       suc \<leftarrow> link_suc k;
       let s = put_link l (k\<lparr>link_dep := result, link_suc := None\<rparr>) s;
       a \<leftarrow> headers s suc;
       let s = put_header suc (a\<lparr>status := status a - 1\<rparr>) s;
       if status a - 1 \<le> status_active then push_active suc s else Some s
     }"

fun notify_sucs :: "hptr \<Rightarrow> int \<Rightarrow> int \<Rightarrow> lptr list \<Rightarrow> int \<times> int \<Rightarrow> 'v fheap \<Rightarrow> ((int \<times> int) \<times> 'v fheap) option" where
  "notify_sucs result this_unit result_unit [] refs s = Some (refs, s)"
| "notify_sucs result this_unit result_unit (l # ls) refs s =
     do {
       s \<leftarrow> notify_suc result l s;
       notify_sucs result this_unit result_unit ls (fst refs - this_unit, snd refs + result_unit) s
     }"

definition entered_ready_with_sucs :: "hptr \<Rightarrow> hptr \<Rightarrow> lptr list \<Rightarrow> 'v fheap \<Rightarrow> 'v fheap option" where
  "entered_ready_with_sucs this result sucs_head s =
     do {
       th \<leftarrow> headers s this;
       if \<not> ref_n th > 0 then None else
       do {
         rh \<leftarrow> headers s result;
         let this_unit = (if result = this then 0 else 1);
         let result_unit = (if result = this \<or> ref_n rh < 0 then 0 else 1);
         let s = put_header this (th\<lparr>sucs := []\<rparr>) s;
         (refs, s) \<leftarrow> notify_sucs result this_unit result_unit sucs_head (ref_n th, ref_n rh) s;
         let this_refs = fst refs;
         let result_refs = (if this_refs = 0 then snd refs - result_unit else snd refs);
         s \<leftarrow> (if this_unit = 1 then set_ref this this_refs s else Some s);
         s \<leftarrow> (if result_unit = 1 then set_ref result result_refs s else Some s);
         if this_refs = 0 then delete_dependent this s else Some s
       }
     }"

definition enter_ready_queued :: "hptr \<Rightarrow> hptr \<Rightarrow> 'v fheap \<Rightarrow> 'v fheap option" where
  "enter_ready_queued this result s =
     do {
       th \<leftarrow> headers s this;
       let s = put_header this (th\<lparr>slot := Result_of result, status := status_ready\<rparr>) s;
       if sucs th \<noteq> [] then entered_ready_with_sucs this result (sucs th) s else Some s
     }"

subsection \<open>Proxying\<close>

text \<open>Successors that proxy \<open>this\<close> are moved to the front of the successors of \<open>proxied\<close>.\<close>

definition is_proxying_suc :: "lptr \<Rightarrow> 'v fheap \<Rightarrow> bool option" where
  "is_proxying_suc l s =
     do { k \<leftarrow> links s l; suc \<leftarrow> link_suc k; a \<leftarrow> headers s suc; Some (status a = status_proxying) }"

definition repoint :: "hptr \<Rightarrow> lptr \<Rightarrow> 'v fheap \<Rightarrow> 'v fheap option" where
  "repoint proxied l s =
     do {
       k \<leftarrow> links s l;
       suc \<leftarrow> link_suc k;
       (_, l', k') \<leftarrow> proxy_link suc s;
       let s = put_link l' (k'\<lparr>link_dep := proxied\<rparr>) s;
       p \<leftarrow> headers s proxied;
       Some (put_header proxied (p\<lparr>sucs := l # sucs p\<rparr>) s)
     }"

fun bypass_sucs :: "hptr \<Rightarrow> lptr list \<Rightarrow> int \<times> int \<Rightarrow> 'v fheap \<Rightarrow> (lptr list \<times> (int \<times> int) \<times> 'v fheap) option" where
  "bypass_sucs proxied [] refs s = Some ([], refs, s)"
| "bypass_sucs proxied (l # ls) refs s =
     do {
       p \<leftarrow> is_proxying_suc l s;
       if p then
         do { s \<leftarrow> repoint proxied l s; bypass_sucs proxied ls (fst refs - 1, snd refs + 1) s }
       else
         do { (keep, refs, s) \<leftarrow> bypass_sucs proxied ls refs s; Some (l # keep, refs, s) }
     }"

text \<open>
  \<open>enter_proxying\<close> with the proxy body already built in the storage \<open>body\<close>. The first part looks through a
  header that is itself a proxy.
\<close>

definition skip_proxied :: "hptr \<Rightarrow> bptr \<Rightarrow> hptr \<Rightarrow> 'v fheap \<Rightarrow> (bptr \<times> hptr \<times> 'v fheap) option" where
  "skip_proxied this body proxied s =
     do {
       p \<leftarrow> headers s proxied;
       if status p = status_proxying \<or> status p = status_proxying_active then
         do {
           (proxied_body, l, k) \<leftarrow> proxy_link proxied s;
           let proxied1 = link_dep k;
           s \<leftarrow> incref proxied1 1 s;
           (n, s) \<leftarrow> decref_fast proxied 1 s;
           if n = 0 then
             do {
               k \<leftarrow> links s l;
               let s = put_link l (k\<lparr>link_suc := Some this\<rparr>) s;
               s \<leftarrow> delete_dependent proxied (delete_body body s);
               Some (proxied_body, proxied1, s)
             }
           else Some (body, proxied1, s)
         }
       else Some (body, proxied, s)
     }"

definition start_proxying :: "hptr \<Rightarrow> bptr \<Rightarrow> hptr \<Rightarrow> 'v fheap \<Rightarrow> 'v fheap option" where
  "start_proxying this body proxied s =
     do {
       th \<leftarrow> headers s this;
       let s = put_header this (th\<lparr>status := status_proxying\<rparr>) s;
       p \<leftarrow> headers s proxied;
       (keep, refs, s) \<leftarrow> bypass_sucs proxied (sucs th) (ref_n th, ref_n p) s;
       th \<leftarrow> headers s this;
       let s = put_header this (th\<lparr>sucs := keep\<rparr>) s;
       let this_refs = fst refs;
       let proxied_refs = (if this_refs = 0 then snd refs - 1 else snd refs);
       s \<leftarrow> (if ref_n p \<ge> 0 then set_ref proxied proxied_refs s else Some s);
       if this_refs = 0 then delete_dependent this (delete_body body s)
       else
         do {
           bd \<leftarrow> bodies s body;
           case bd of
             Body_proxy l \<Rightarrow>
               do {
                 let s = put_link l \<lparr>link_dep = proxied, link_suc = Some this\<rparr> s;
                 p \<leftarrow> headers s proxied;
                 let s = put_header proxied (p\<lparr>sucs := l # sucs p\<rparr>) s;
                 th \<leftarrow> headers s this;
                 Some (put_header this (th\<lparr>ref_n := this_refs, slot := Body_of body\<rparr>) s)
               }
           | _ \<Rightarrow> None
         }
     }"

definition enter_proxying :: "hptr \<Rightarrow> bptr \<Rightarrow> hptr \<Rightarrow> 'v fheap \<Rightarrow> 'v fheap option" where
  "enter_proxying this body proxied s =
     do {
       (body, proxied, s) \<leftarrow> skip_proxied this body proxied s;
       p \<leftarrow> headers s proxied;
       if status p = status_ready then
         do {
           (n, s) \<leftarrow> decref_fast this 1 s;
           if n = 0 then None else
           do {
             (r, s) \<leftarrow> drop_for_result proxied s;
             s \<leftarrow> enter_ready_queued this r s;
             Some (delete_body body s)
           }
         }
       else start_proxying this body proxied s
     }"

end
