(* ===== verification/Future_Impl.thy ===== *)
theory Future_Impl
  imports Future_Core
begin

text \<open>
  Component futures, the kinds of futures and the engine that runs their bodies (src/future/impl_shref.hpp,
  impl_result.hpp, impl_when_all.hpp, impl_then_lazy.hpp, then.hpp, when_all.hpp, make_future.hpp, apply.hpp,
  future1.hpp and the rest of core.hpp, core.cpp). The templates choose code by the kind of a future; here
  the kind is a constructor. User callbacks are a parameter \<open>run\<close>: the number of the callback,
  its arguments and the heap give the future it returns and the heap it leaves.
\<close>

subsection \<open>Kinds of futures\<close>

text \<open>A counted reference to a header (its operations, and whether it is the only reference), values held
  inline, several futures joined, and a callback that is not registered yet (with \<open>must_materialize\<close>).\<close>

datatype 'v fut =
    F_shref header_ops bool nat hptr
  | F_result "'v list"
  | F_when_all "'v fut list"
  | F_then_lazy "'v fut" fn bool

type_synonym 'v callbacks = "nat \<Rightarrow> 'v list \<Rightarrow> 'v fheap \<Rightarrow> ('v fut \<times> 'v fheap) option"

text \<open>Whether the return type of a callback is trivially ready, and its number of values.\<close>

fun fn_trivial :: "fn \<Rightarrow> bool" where
  "fn_trivial (Fn i t n) = t"
| "fn_trivial (Fn_comp f g) = (fn_trivial f \<and> fn_trivial g)"

fun fn_arity :: "fn \<Rightarrow> nat" where
  "fn_arity (Fn i t n) = n"
| "fn_arity (Fn_comp f g) = fn_arity g"

fun fut_arity :: "'v fut \<Rightarrow> nat" where
  "fut_arity (F_shref ops unique n h) = n"
| "fut_arity (F_result vs) = length vs"
| "fut_arity (F_when_all fs) = sum_list (map fut_arity fs)"
| "fut_arity (F_then_lazy f g must) = fn_arity g"

fun future_is_trivially_ready :: "'v fut \<Rightarrow> bool" where
  "future_is_trivially_ready (F_shref ops unique n h) = is_trivially_ready_result ops"
| "future_is_trivially_ready (F_result vs) = True"
| "future_is_trivially_ready (F_when_all fs) = list_all future_is_trivially_ready fs"
| "future_is_trivially_ready (F_then_lazy f g must) = False"

text \<open>The operations of the header that \<open>steal_header\<close> yields.\<close>

fun fut_header_ops :: "'v fut \<Rightarrow> header_ops" where
  "fut_header_ops (F_shref ops unique n h) = ops"
| "fut_header_ops (F_result vs) = Ops_result_ready"
| "fut_header_ops (F_when_all fs) = Ops_general"
| "fut_header_ops (F_then_lazy f g must) = Ops_dependent"

definition results_of :: "hptr \<Rightarrow> 'v fheap \<Rightarrow> 'v list option" where
  "results_of h s = do { a \<leftarrow> headers s h; if arity a = 0 then Some [] else results a }"

text \<open>\<open>ready\<close> and the values; a lazy future implements neither.\<close>

fun fut_ready :: "'v fut \<Rightarrow> 'v fheap \<Rightarrow> bool option" where
  "fut_ready (F_shref ops unique n h) s =
     (if is_trivially_ready_result ops then Some True
      else do { a \<leftarrow> headers s h; Some (status a = status_ready) })"
| "fut_ready (F_result vs) s = Some True"
| "fut_ready (F_when_all fs) s =
     foldr (\<lambda>x rest. do { b \<leftarrow> x; c \<leftarrow> rest; Some (b \<and> c) }) (map (\<lambda>f. fut_ready f s) fs) (Some True)"
| "fut_ready (F_then_lazy f g must) s = None"

fun fut_values :: "'v fut \<Rightarrow> 'v fheap \<Rightarrow> 'v list option" where
  "fut_values (F_shref ops unique n h) s =
     do { a \<leftarrow> headers s h;
          case slot a of Result_of r \<Rightarrow> results_of r s | _ \<Rightarrow> None }"
| "fut_values (F_result vs) s = Some vs"
| "fut_values (F_when_all fs) s =
     foldr (\<lambda>x rest. do { vs \<leftarrow> x; ws \<leftarrow> rest; Some (vs @ ws) }) (map (\<lambda>f. fut_values f s) fs) (Some [])"
| "fut_values (F_then_lazy f g must) s = None"

text \<open>\<open>future1::result_tuple\<close>.\<close>

definition result_tuple :: "'v fut \<Rightarrow> 'v fheap \<Rightarrow> 'v list option" where
  "result_tuple f s = do { r \<leftarrow> fut_ready f s; if r then fut_values f s else None }"

subsection \<open>Dependencies\<close>

text \<open>\<open>future_dependency_shref_base\<close>: the link of \<open>suc_hdr\<close> in the successor list of \<open>arg_hdr\<close>, or to its result.\<close>

definition shref_dependency :: "header_ops \<Rightarrow> hptr \<Rightarrow> hptr \<Rightarrow> 'v fheap \<Rightarrow> ('v dep \<times> 'v fheap) option" where
  "shref_dependency ops suc_hdr arg_hdr s =
     (if is_trivially_ready_result ops then
        let (l, s) = new_link \<lparr>link_dep = arg_hdr, link_suc = None\<rparr> s in Some (Dep_link l, s)
      else
        do {
          a \<leftarrow> headers s arg_hdr;
          (arg_hdr, s) \<leftarrow>
            (if is_possibly_dependent ops \<and> (status a = status_proxying \<or> status a = status_proxying_active)
             then drop_for_proxied arg_hdr s else Some (arg_hdr, s));
          a \<leftarrow> headers s arg_hdr;
          if status a \<noteq> status_ready then
            if arg_hdr = the_nil then None
            else
              do {
                let (l, s) = new_link \<lparr>link_dep = arg_hdr, link_suc = Some suc_hdr\<rparr> s;
                let s = put_header arg_hdr (a\<lparr>sucs := l # sucs a\<rparr>) s;
                suc \<leftarrow> headers s suc_hdr;
                Some (Dep_link l, put_header suc_hdr (suc\<lparr>status := status suc + 1\<rparr>) s)
              }
          else
            do {
              (r, s) \<leftarrow> drop_for_result arg_hdr s;
              let (l, s) = new_link \<lparr>link_dep = r, link_suc = None\<rparr> s;
              Some (Dep_link l, s)
            }
        })"

text \<open>\<open>~future_dependency\<close>: the header that holds the result loses the reference of the link.\<close>

fun destroy_dep :: "'v dep \<Rightarrow> 'v fheap \<Rightarrow> 'v fheap option" where
  "destroy_dep (Dep_link l) s =
     do { k \<leftarrow> links s l; s \<leftarrow> result_ready_dropref (link_dep k) s; Some (delete_links [l] s) }"
| "destroy_dep (Dep_vals vs) s = Some s"
| "destroy_dep (Dep_all ds) s = fold (\<lambda>d r. do { s \<leftarrow> r; destroy_dep d s }) ds (Some s)"
| "destroy_dep (Dep_then d f) s = destroy_dep d s"

definition new_dependent :: "nat \<Rightarrow> 'v fheap \<Rightarrow> hptr \<times> bptr \<times> 'v fheap" where
  "new_dependent n s =
     (let b = fresh s;
          (h, s) = new_header (dependent_header n b) (s\<lparr>fresh := Suc (fresh s)\<rparr>)
      in (h, b, s))"

definition put_body :: "bptr \<Rightarrow> 'v body \<Rightarrow> 'v fheap \<Rightarrow> 'v fheap" where
  "put_body b bd s = s\<lparr>bodies := (bodies s)(b \<mapsto> bd)\<rparr>"

text \<open>
  \<open>steal_header\<close> and the construction of dependencies. Both may make a header that is active at once:
  \<open>ea\<close> is \<open>entered_active\<close>, given as an argument because it runs bodies, which steal headers in turn.
\<close>

definition finish_header :: "(hptr \<Rightarrow> 'v fheap \<Rightarrow> 'v fheap option) \<Rightarrow> hptr \<Rightarrow> 'v fheap \<Rightarrow> (hptr \<times> 'v fheap) option" where
  "finish_header ea h s =
     do { a \<leftarrow> headers s h;
          s \<leftarrow> (if status a = status_active then ea h s else Some s);
          Some (h, s) }"

text \<open>The index of the only argument that carries values, and the search for the only one not ready.\<close>

fun when_all_representative :: "nat \<Rightarrow> nat \<Rightarrow> 'v fut list \<Rightarrow> int" where
  "when_all_representative n i [] = - 1"
| "when_all_representative n i (f # fs) = (if fut_arity f = n then int i else when_all_representative n (Suc i) fs)"

fun find_empty_rep :: "(nat \<times> nat) list \<Rightarrow> nat \<times> nat" where
  "find_empty_rep [] = (0, 0)"
| "find_empty_rep (x # xs) =
     (let rest = find_empty_rep xs in (if snd rest \<noteq> 0 then fst rest else fst x, snd x + snd rest))"

fun all_ready :: "'v fut list \<Rightarrow> 'v fheap \<Rightarrow> bool list option" where
  "all_ready [] s = Some []"
| "all_ready (f # fs) s = do { r \<leftarrow> fut_ready f s; rs \<leftarrow> all_ready fs s; Some (r # rs) }"

definition when_all_steal_index :: "'v fut list \<Rightarrow> 'v fheap \<Rightarrow> int option" where
  "when_all_steal_index fs s =
     (let n = fut_arity (F_when_all fs)
      in if n = 0 \<and> fs \<noteq> [] then
           do { rs \<leftarrow> all_ready fs s;
                let ic = find_empty_rep (zip [0..<length fs] (map (\<lambda>r. if r then 0 else 1) rs));
                Some (if snd ic \<le> 1 then int (fst ic) else - 1) }
         else
           let rep = when_all_representative n 0 fs
           in if rep = - 1 then Some (- 1)
              else do { rs \<leftarrow> all_ready (take (nat rep) fs @ drop (Suc (nat rep)) fs) s;
                        Some (if list_all id rs then rep else - 1) })"

text \<open>
  Construction of the dependency of \<open>suc_hdr\<close> on a future, which it consumes. A lazy future whose callback
  returns a ready value is run inside the dependency; any other is materialized first.
\<close>

fun make_dep :: "(hptr \<Rightarrow> 'v fheap \<Rightarrow> 'v fheap option) \<Rightarrow> hptr \<Rightarrow> 'v fut \<Rightarrow> 'v fheap \<Rightarrow> ('v dep \<times> 'v fheap) option"
  and make_deps :: "(hptr \<Rightarrow> 'v fheap \<Rightarrow> 'v fheap option) \<Rightarrow> hptr \<Rightarrow> 'v fut list \<Rightarrow> 'v fheap \<Rightarrow> ('v dep list \<times> 'v fheap) option" where
  "make_dep ea suc_hdr (F_shref ops unique n h) s = shref_dependency ops suc_hdr h s"
| "make_dep ea suc_hdr (F_result vs) s = Some (Dep_vals vs, s)"
| "make_dep ea suc_hdr (F_when_all fs) s = do { (ds, s) \<leftarrow> make_deps ea suc_hdr fs s; Some (Dep_all ds, s) }"
| "make_dep ea suc_hdr (F_then_lazy f g must) s =
     (if \<not> must then None
      else if fn_trivial g then do { (d, s) \<leftarrow> make_dep ea suc_hdr f s; Some (Dep_then d g, s) }
      else
        do {
          let (h, b, s) = new_dependent (fn_arity g) s;
          (d, s) \<leftarrow> make_dep ea h f s;
          (h, s) \<leftarrow> finish_header ea h (put_body b (Body_then d g) s);
          shref_dependency Ops_dependent suc_hdr h s
        })"
| "make_deps ea suc_hdr [] s = Some ([], s)"
| "make_deps ea suc_hdr (f # fs) s =
     do { (d, s) \<leftarrow> make_dep ea suc_hdr f s; (ds, s) \<leftarrow> make_deps ea suc_hdr fs s; Some (d # ds, s) }"

text \<open>\<open>future_body_then::make_header\<close>, and the header of joined futures with an identity body.\<close>

definition make_then_header ::
  "(hptr \<Rightarrow> 'v fheap \<Rightarrow> 'v fheap option) \<Rightarrow> 'v fut \<Rightarrow> fn \<Rightarrow> 'v fheap \<Rightarrow> (hptr \<times> 'v fheap) option" where
  "make_then_header ea f g s =
     do {
       let (h, b, s) = new_dependent (fn_arity g) s;
       (d, s) \<leftarrow> make_dep ea h f s;
       finish_header ea h (put_body b (Body_then d g) s)
     }"

definition make_identity_header ::
  "(hptr \<Rightarrow> 'v fheap \<Rightarrow> 'v fheap option) \<Rightarrow> 'v fut list \<Rightarrow> 'v fheap \<Rightarrow> (hptr \<times> 'v fheap) option" where
  "make_identity_header ea fs s =
     do {
       let (h, b, s) = new_dependent (fut_arity (F_when_all fs)) s;
       (d, s) \<leftarrow> make_dep ea h (F_when_all fs) s;
       finish_header ea h (put_body b (Body_identity d) s)
     }"

text \<open>
  \<open>steal_header\<close> takes the reference out of a future. Stealing the header of one argument of joined futures
  leaves the others to be destroyed with the object; the model destroys them right away.
\<close>

fun destroy_shref :: "'v fut \<Rightarrow> 'v fheap \<Rightarrow> 'v fheap option" where
  "destroy_shref (F_shref ops unique n h) s = ops_dropref ops True h s"
| "destroy_shref (F_result vs) s = Some s"
| "destroy_shref (F_when_all fs) s = fold (\<lambda>f r. do { s \<leftarrow> r; destroy_shref f s }) fs (Some s)"
| "destroy_shref (F_then_lazy f g must) s = (if must then None else destroy_shref f s)"

fun steal_header :: "(hptr \<Rightarrow> 'v fheap \<Rightarrow> 'v fheap option) \<Rightarrow> 'v fut \<Rightarrow> 'v fheap \<Rightarrow> (hptr \<times> 'v fheap) option"
  and steal_index :: "(hptr \<Rightarrow> 'v fheap \<Rightarrow> 'v fheap option) \<Rightarrow> nat \<Rightarrow> 'v fut list \<Rightarrow> 'v fheap \<Rightarrow> (hptr \<times> 'v fheap) option" where
  "steal_header ea (F_shref ops unique n h) s = Some (h, s)"
| "steal_header ea (F_result vs) s =
     (if vs = [] then Some (the_always, s) else Some (new_result_ready vs s))"
| "steal_header ea (F_when_all fs) s =
     do {
       i \<leftarrow> when_all_steal_index fs s;
       if i = - 1 then make_identity_header ea fs s else steal_index ea (nat i) fs s
     }"
| "steal_header ea (F_then_lazy f g must) s = (if must then make_then_header ea f g s else None)"
| "steal_index ea i [] s = None"
| "steal_index ea i (f # fs) s =
     (if i = 0 then
        do { (h, s) \<leftarrow> steal_header ea f s;
             s \<leftarrow> destroy_shref (F_when_all fs) s;
             Some (h, s) }
      else do { s \<leftarrow> destroy_shref f s; steal_index ea (i - 1) fs s })"

text \<open>The destructor of a future: a lazy one registers its callback now.\<close>

fun destroy_fut :: "(hptr \<Rightarrow> 'v fheap \<Rightarrow> 'v fheap option) \<Rightarrow> 'v fut \<Rightarrow> 'v fheap \<Rightarrow> 'v fheap option" where
  "destroy_fut ea (F_shref ops unique n h) s = ops_dropref ops True h s"
| "destroy_fut ea (F_result vs) s = Some s"
| "destroy_fut ea (F_when_all fs) s = fold (\<lambda>f r. do { s \<leftarrow> r; destroy_fut ea f s }) fs (Some s)"
| "destroy_fut ea (F_then_lazy f g must) s =
     (if must then do { (h, s) \<leftarrow> make_then_header ea f g s; ops_dropref Ops_dependent False h s }
      else destroy_fut ea f s)"

subsection \<open>Running callbacks\<close>

text \<open>
  \<open>future_then\<close>: a callback on a trivially ready future runs at once; on a lazy future it is composed
  under the callback that is not registered yet.
\<close>

definition then_lazy_nontrivial :: "'v fut \<Rightarrow> fn \<Rightarrow> 'v fut option" where
  "then_lazy_nontrivial f g =
     (case f of
        F_then_lazy f' g' must \<Rightarrow> if must then Some (F_then_lazy f' (Fn_comp g' g) True) else None
      | _ \<Rightarrow> Some (F_then_lazy f g True))"

fun apply_fn :: "'v callbacks \<Rightarrow> fn \<Rightarrow> 'v list \<Rightarrow> 'v fheap \<Rightarrow> ('v fut \<times> 'v fheap) option" where
  "apply_fn run (Fn i t n) vs s = run i vs s"
| "apply_fn run (Fn_comp f g) vs s =
     do {
       (fu, s) \<leftarrow> apply_fn run f vs s;
       if future_is_trivially_ready fu then
         do { ws \<leftarrow> fut_values fu s;
              (fu', s) \<leftarrow> apply_fn run g ws s;
              s \<leftarrow> destroy_shref fu s;
              Some (fu', s) }
       else do { fu' \<leftarrow> then_lazy_nontrivial fu g; Some (fu', s) }
     }"

text \<open>The values of a dependency; a lazy callback inside it runs here.\<close>

fun dep_values :: "'v callbacks \<Rightarrow> 'v dep \<Rightarrow> 'v fheap \<Rightarrow> ('v list \<times> 'v fheap) option"
  and deps_values :: "'v callbacks \<Rightarrow> 'v dep list \<Rightarrow> 'v fheap \<Rightarrow> ('v list \<times> 'v fheap) option" where
  "dep_values run (Dep_link l) s = do { k \<leftarrow> links s l; vs \<leftarrow> results_of (link_dep k) s; Some (vs, s) }"
| "dep_values run (Dep_vals vs) s = Some (vs, s)"
| "dep_values run (Dep_all ds) s = deps_values run ds s"
| "dep_values run (Dep_then d g) s =
     do {
       (vs, s) \<leftarrow> dep_values run d s;
       (fu, s) \<leftarrow> apply_fn run g vs s;
       ws \<leftarrow> result_tuple fu s;
       s \<leftarrow> destroy_shref fu s;
       Some (ws, s)
     }"
| "deps_values run [] s = Some ([], s)"
| "deps_values run (d # ds) s =
     do { (vs, s) \<leftarrow> dep_values run d s; (ws, s) \<leftarrow> deps_values run ds s; Some (vs @ ws, s) }"

end
