(* ===== verification/Future_Engine.thy ===== *)
theory Future_Engine
  imports Future_Impl
begin

text \<open>
  Component futures, the engine (src/future/core.hpp, core.cpp, then.hpp, impl_when_all.hpp) and promises
  (src/future/promise.hpp): what each body does when its header leaves the active state, the depletion of
  the active queue, readying a header, and the operations on promises.
\<close>

subsection \<open>Bodies\<close>

text \<open>A body only runs while an active queue exists: what becomes active meanwhile is appended to it.\<close>

definition leave_active_proxy :: "hptr \<Rightarrow> bptr \<Rightarrow> lptr \<Rightarrow> 'v fheap \<Rightarrow> 'v fheap option" where
  "leave_active_proxy h b l s =
     do {
       k \<leftarrow> links s l;
       (n, s) \<leftarrow> decref_fast h 1 s;
       if n \<noteq> 0 then enter_ready_queued h (link_dep k) (delete_body b s)
       else do { s \<leftarrow> ops_dropref Ops_general True (link_dep k) s; delete_dependent h (delete_body b s) }
     }"

definition leave_active_identity :: "'v callbacks \<Rightarrow> hptr \<Rightarrow> bptr \<Rightarrow> 'v dep \<Rightarrow> 'v fheap \<Rightarrow> 'v fheap option" where
  "leave_active_identity run h b d s =
     do {
       (n, s) \<leftarrow> decref_fast h 1 s;
       if n = 0 then do { s \<leftarrow> destroy_dep d s; delete_dependent h (delete_body b s) }
       else
         do {
           (vs, s) \<leftarrow> dep_values run d s;
           let (r, s) = new_result_ready vs s;
           s \<leftarrow> destroy_dep d s;
           enter_ready_queued h r (delete_body b s)
         }
     }"

definition leave_active_into_proxy :: "hptr \<Rightarrow> bptr \<Rightarrow> 'v fut \<Rightarrow> 'v fheap \<Rightarrow> 'v fheap option" where
  "leave_active_into_proxy h b proxied s =
     do {
       a \<leftarrow> headers s h;
       if ref_n a = 1 then
         do { s \<leftarrow> delete_dependent h (delete_body b s);
              destroy_fut push_active proxied s }
       else
         do {
           (p, s) \<leftarrow> steal_header push_active proxied s;
           if is_trivially_ready_result (fut_header_ops proxied) then
             do { (n, s) \<leftarrow> decref_fast h 1 s; enter_ready_queued h p (delete_body b s) }
           else
             do {
               let (l, s) = new_link \<lparr>link_dep = the_nil, link_suc = None\<rparr> s;
               enter_proxying h b p (put_body b (Body_proxy l) s)
             }
         }
     }"

definition leave_active_then :: "'v callbacks \<Rightarrow> hptr \<Rightarrow> bptr \<Rightarrow> 'v dep \<Rightarrow> fn \<Rightarrow> 'v fheap \<Rightarrow> 'v fheap option" where
  "leave_active_then run h b d g s =
     do {
       (vs, s) \<leftarrow> dep_values run d s;
       (proxied, s) \<leftarrow> apply_fn run g vs s;
       s \<leftarrow> destroy_dep d s;
       leave_active_into_proxy h b proxied s
     }"

definition leave_active :: "'v callbacks \<Rightarrow> hptr \<Rightarrow> 'v fheap \<Rightarrow> 'v fheap option" where
  "leave_active run h s =
     do {
       a \<leftarrow> headers s h;
       case slot a of
         Body_of b \<Rightarrow>
           do {
             bd \<leftarrow> bodies s b;
             case bd of
               Body_proxy l \<Rightarrow> leave_active_proxy h b l s
             | Body_identity d \<Rightarrow> leave_active_identity run h b d s
             | Body_then d g \<Rightarrow> leave_active_then run h b d g s
           }
       | _ \<Rightarrow> None
     }"

subsection \<open>The active queue\<close>

text \<open>The loop that depletes the queue; callbacks may append to it, so it may run forever.\<close>

partial_function (option) deplete :: "'v callbacks \<Rightarrow> 'v fheap \<Rightarrow> 'v fheap option" where
  "deplete run s =
     (case active s of
        None \<Rightarrow> None
      | Some [] \<Rightarrow> Some s
      | Some (cur # rest) \<Rightarrow> do { s \<leftarrow> leave_active run cur (s\<lparr>active := Some rest\<rparr>); deplete run s })"

declare deplete.simps [code]

definition entered_active :: "'v callbacks \<Rightarrow> hptr \<Rightarrow> 'v fheap \<Rightarrow> 'v fheap option" where
  "entered_active run h s =
     (case active s of
        Some q \<Rightarrow> push_active h s
      | None \<Rightarrow>
          do {
            s \<leftarrow> leave_active run h (s\<lparr>active := Some []\<rparr>);
            s \<leftarrow> deplete run s;
            Some (s\<lparr>active := None\<rparr>)
          })"

definition enter_ready :: "'v callbacks \<Rightarrow> hptr \<Rightarrow> hptr \<Rightarrow> 'v fheap \<Rightarrow> 'v fheap option" where
  "enter_ready run h result s =
     (case active s of
        Some q \<Rightarrow> enter_ready_queued h result s
      | None \<Rightarrow>
          do {
            s \<leftarrow> enter_ready_queued h result (s\<lparr>active := Some []\<rparr>);
            s \<leftarrow> deplete run s;
            Some (s\<lparr>active := None\<rparr>)
          })"

subsection \<open>Results\<close>

definition readify :: "'v callbacks \<Rightarrow> hptr \<Rightarrow> 'v fheap \<Rightarrow> 'v fheap option" where
  "readify run h s =
     do {
       a \<leftarrow> headers s h;
       if status a = (if arity a = 0 then status_not_ready else status_results_yes) then enter_ready run h h s else None
     }"

definition results_constructible :: "hptr \<Rightarrow> 'v fheap \<Rightarrow> bool option" where
  "results_constructible h s = do { a \<leftarrow> headers s h; Some (arity a = 0 \<or> status a = status_results_no) }"

definition construct_results :: "hptr \<Rightarrow> 'v list \<Rightarrow> 'v fheap \<Rightarrow> 'v fheap option" where
  "construct_results h vs s =
     do {
       a \<leftarrow> headers s h;
       if length vs \<noteq> arity a then None
       else if arity a = 0 then Some s
       else if status a \<noteq> status_results_no then None
       else Some (put_header h (a\<lparr>results := Some vs, status := status_results_yes\<rparr>) s)
     }"

definition reconstruct_results :: "hptr \<Rightarrow> 'v list \<Rightarrow> 'v fheap \<Rightarrow> 'v fheap option" where
  "reconstruct_results h vs s =
     do {
       a \<leftarrow> headers s h;
       if length vs \<noteq> arity a then None
       else if arity a = 0 then Some s
       else if status a = status_results_no then None
       else Some (put_header h (a\<lparr>results := Some vs, status := status_results_yes\<rparr>) s)
     }"

subsection \<open>Promises\<close>

definition new_promise :: "nat \<Rightarrow> int \<Rightarrow> 'v fheap \<Rightarrow> (hptr \<times> 'v fheap) option" where
  "new_promise n deps s =
     (if deps \<ge> 1
      then Some (new_header ((result_header n (fresh s))\<lparr>pro_meta := Some \<lparr>countdown = deps, deferred_decrements = 0\<rparr>\<rparr>) s)
      else None)"

definition get_meta :: "hptr \<Rightarrow> 'v fheap \<Rightarrow> promise_meta option" where
  "get_meta h s = do { a \<leftarrow> headers s h; pro_meta a }"

definition put_meta :: "hptr \<Rightarrow> promise_meta \<Rightarrow> 'v fheap \<Rightarrow> 'v fheap option" where
  "put_meta h m s = do { a \<leftarrow> headers s h; Some (put_header h (a\<lparr>pro_meta := Some m\<rparr>) s) }"

definition promise_fulfill :: "'v callbacks \<Rightarrow> hptr \<Rightarrow> int \<Rightarrow> 'v fheap \<Rightarrow> 'v fheap option" where
  "promise_fulfill run h n s =
     do {
       m \<leftarrow> get_meta h s;
       if \<not> countdown m > 0 then None
       else if \<not> countdown m - n \<ge> 0 then None
       else
         do {
           s \<leftarrow> put_meta h (m\<lparr>countdown := countdown m - n\<rparr>) s;
           if countdown m - n = 0 then readify run h s else Some s
         }
     }"

definition promise_fulfill_result :: "'v callbacks \<Rightarrow> hptr \<Rightarrow> 'v list \<Rightarrow> 'v fheap \<Rightarrow> 'v fheap option" where
  "promise_fulfill_result run h vs s =
     do {
       c \<leftarrow> results_constructible h s;
       if \<not> c then None
       else do { s \<leftarrow> construct_results h vs s; promise_fulfill run h 1 s }
     }"

definition promise_require_anonymous :: "hptr \<Rightarrow> int \<Rightarrow> 'v fheap \<Rightarrow> 'v fheap option" where
  "promise_require_anonymous h n s =
     do {
       m \<leftarrow> get_meta h s;
       if \<not> countdown m > 0 then None
       else if \<not> n \<ge> 0 then None
       else put_meta h (m\<lparr>countdown := countdown m + n\<rparr>) s
     }"

definition promise_fulfill_anonymous :: "'v callbacks \<Rightarrow> hptr \<Rightarrow> int \<Rightarrow> 'v fheap \<Rightarrow> 'v fheap option" where
  "promise_fulfill_anonymous run h n s = (if \<not> n \<ge> 0 then None else promise_fulfill run h n s)"

definition promise_get_future :: "hptr \<Rightarrow> 'v fheap \<Rightarrow> ('v fut \<times> 'v fheap) option" where
  "promise_get_future h s =
     do { a \<leftarrow> headers s h; s \<leftarrow> incref_fast h 1 s; Some (F_shref Ops_general False (arity a) h, s) }"

definition promise_finalize :: "'v callbacks \<Rightarrow> hptr \<Rightarrow> 'v fheap \<Rightarrow> ('v fut \<times> 'v fheap) option" where
  "promise_finalize run h s = do { s \<leftarrow> promise_fulfill run h 1 s; promise_get_future h s }"

text \<open>What a promise does when it is executed as an lpc.\<close>

definition fulfill_deferred_and_drop :: "'v callbacks \<Rightarrow> hptr \<Rightarrow> 'v fheap \<Rightarrow> 'v fheap option" where
  "fulfill_deferred_and_drop run h s =
     do {
       m \<leftarrow> get_meta h s;
       let c = countdown m - deferred_decrements m;
       s \<leftarrow> put_meta h \<lparr>countdown = c, deferred_decrements = 0\<rparr> s;
       s \<leftarrow> (if c = 0 then readify run h s else Some s);
       ops_dropref Ops_promise False h s
     }"

subsection \<open>The operations of users\<close>

definition make_future :: "'v list \<Rightarrow> 'v fheap \<Rightarrow> 'v fut \<times> 'v fheap" where
  "make_future vs s =
     (if vs = [] then (F_shref Ops_general False 0 the_always, s)
      else let (h, s) = new_result_ready vs s in (F_shref Ops_general False (length vs) h, s))"

definition future_then :: "'v callbacks \<Rightarrow> 'v fut \<Rightarrow> fn \<Rightarrow> 'v fheap \<Rightarrow> ('v fut \<times> 'v fheap) option" where
  "future_then run f g s =
     (if future_is_trivially_ready f then
        do { vs \<leftarrow> fut_values f s;
             (fu, s) \<leftarrow> apply_fn run g vs s;
             s \<leftarrow> destroy_shref f s;
             Some (fu, s) }
      else
        (case f of
           F_then_lazy f' g' must \<Rightarrow>
             (if must then
                do { (h, s) \<leftarrow> make_then_header (entered_active run) f' (Fn_comp g' g) s;
                     Some (F_shref Ops_dependent False (fn_arity g) h, s) }
              else None)
         | _ \<Rightarrow>
             do { (h, s) \<leftarrow> make_then_header (entered_active run) f g s;
                  Some (F_shref Ops_dependent False (fn_arity g) h, s) }))"

definition when_all :: "'v callbacks \<Rightarrow> 'v fut list \<Rightarrow> 'v fheap \<Rightarrow> ('v fut \<times> 'v fheap) option" where
  "when_all run fs s =
     (case fs of
        [] \<Rightarrow> Some (F_result [], s)
      | [f] \<Rightarrow> Some (f, s)
      | _ \<Rightarrow>
          do { (h, s) \<leftarrow> steal_header (entered_active run) (F_when_all fs) s;
               Some (F_shref Ops_general False (fut_arity (F_when_all fs)) h, s) })"

definition future_copy :: "'v fut \<Rightarrow> 'v fheap \<Rightarrow> ('v fut \<times> 'v fheap) option" where
  "future_copy f s =
     (case f of
        F_shref ops unique n h \<Rightarrow>
          (if unique then None else do { s \<leftarrow> ops_incref ops h s; Some (F_shref ops unique n h, s) })
      | F_result vs \<Rightarrow> Some (f, s)
      | _ \<Rightarrow> None)"

definition future_destroy :: "'v callbacks \<Rightarrow> 'v fut \<Rightarrow> 'v fheap \<Rightarrow> 'v fheap option" where
  "future_destroy run f s = destroy_fut (entered_active run) f s"

text \<open>Assignment of a reference: the new header gains a reference before the old one loses its own; a move
  assignment swaps the two headers.\<close>

definition shref_assign :: "'v fut \<Rightarrow> 'v fut \<Rightarrow> 'v fheap \<Rightarrow> ('v fut \<times> 'v fheap) option" where
  "shref_assign this that s =
     (case (this, that) of
        (F_shref ops unique n this_hdr, F_shref ops1 unique1 n1 that_hdr) \<Rightarrow>
          (if unique \<or> unique1 then None
           else do { s \<leftarrow> ops_incref ops1 that_hdr s;
                     s \<leftarrow> ops_dropref ops True this_hdr s;
                     Some (F_shref ops unique n that_hdr, s) })
      | _ \<Rightarrow> None)"

definition shref_move_assign :: "'v fut \<Rightarrow> 'v fut \<Rightarrow> ('v fut \<times> 'v fut) option" where
  "shref_move_assign this that =
     (case (this, that) of
        (F_shref ops unique n h, F_shref ops1 unique1 n1 h1) \<Rightarrow>
          Some (F_shref ops unique n h1, F_shref ops1 unique1 n1 h)
      | _ \<Rightarrow> None)"

subsection \<open>Reading and waiting for results\<close>

text \<open>The element that \<open>result<i>()\<close> selects of \<open>n\<close> values: \<open>None\<close> for nothing, the whole list for -1.\<close>

definition result_index :: "int \<Rightarrow> nat \<Rightarrow> int" where
  "result_index i n =
     (if i \<ge> int n then int n else if i \<ge> 0 then i else if n > 1 then - 1 else 0)"

definition get_at :: "'v list \<Rightarrow> int \<Rightarrow> 'v list" where
  "get_at vs i =
     (if i = - 1 then vs else if i = int (length vs) then []
      else if 0 \<le> i \<and> i < int (length vs) then [vs ! nat i] else [])"

definition future_result :: "int \<Rightarrow> 'v fut \<Rightarrow> 'v fheap \<Rightarrow> 'v list option" where
  "future_result i f s =
     do { vs \<leftarrow> result_tuple f s; Some (get_at vs (result_index i (length vs))) }"

text \<open>\<open>UPCXXI_PROGRESS_UNTIL\<close>: \<open>progress\<close> is the progress engine of the runtime. It may never return.\<close>

partial_function (option) progress_until ::
  "('v fheap \<Rightarrow> 'v fheap option) \<Rightarrow> 'v fut \<Rightarrow> 'v fheap \<Rightarrow> 'v fheap option" where
  "progress_until progress f s =
     do { r \<leftarrow> fut_ready f s;
          if r then Some s else do { s \<leftarrow> progress s; progress_until progress f s } }"

declare progress_until.simps [code]

definition future_wait :: "('v fheap \<Rightarrow> 'v fheap option) \<Rightarrow> int \<Rightarrow> 'v fut \<Rightarrow> 'v fheap \<Rightarrow> ('v list \<times> 'v fheap) option" where
  "future_wait progress i f s =
     do { s \<leftarrow> progress_until progress f s; vs \<leftarrow> future_result i f s; Some (vs, s) }"

definition future_wait_tuple :: "('v fheap \<Rightarrow> 'v fheap option) \<Rightarrow> 'v fut \<Rightarrow> 'v fheap \<Rightarrow> ('v list \<times> 'v fheap) option" where
  "future_wait_tuple progress f s =
     do { s \<leftarrow> progress_until progress f s; vs \<leftarrow> result_tuple f s; Some (vs, s) }"

end
