(* ===== verification/Future_Refs.thy ===== *)
theory Future_Refs
  imports Future_Engine
begin

text \<open>
  Component futures, the invariant of the heap: every reference count equals the references that exist,
  the status of a dependent counts the links it waits for, and the successor lists hold exactly the links that
  wait on a header; and what becoming ready does to it.
\<close>

subsection \<open>Counting the entries of a map\<close>

definition pcount :: "('b \<Rightarrow> bool) \<Rightarrow> ('a \<rightharpoonup> 'b) \<Rightarrow> int" where
  "pcount P M = int (card {x. \<exists>v. M x = Some v \<and> P v})"

abbreviation bit_of :: "bool \<Rightarrow> int" where
  "bit_of b \<equiv> (if b then 1 else 0)"

lemma pcount_nonneg [simp]: "0 \<le> pcount P M"
  by (simp add: pcount_def)

lemma finite_pcount: "finite (dom M) \<Longrightarrow> finite {x. \<exists>v. M x = Some v \<and> P v}"
  by (rule finite_subset [of _ "dom M"]) auto

lemma pcount_del:
  assumes "finite (dom M)"
  shows "pcount P (M(x := None)) = pcount P M - (case M x of None \<Rightarrow> 0 | Some w \<Rightarrow> bit_of (P w))"
proof -
  define A where "A = {y. \<exists>w. M y = Some w \<and> P w}"
  have f: "finite A" unfolding A_def by (rule finite_pcount [OF assms])
  have "{y. \<exists>w. (M(x := None)) y = Some w \<and> P w} = A - {x}" by (auto simp: A_def)
  moreover have "x \<in> A \<longleftrightarrow> (case M x of None \<Rightarrow> False | Some w \<Rightarrow> P w)" by (auto simp: A_def split: option.splits)
  moreover have "x \<in> A \<Longrightarrow> 0 < card A" using f by (auto simp: card_gt_0_iff)
  ultimately show ?thesis using f by (auto simp: pcount_def A_def [symmetric] split: option.splits)
qed

lemma pcount_upd:
  assumes "finite (dom M)"
  shows "pcount P (M(x \<mapsto> v)) = pcount P M - (case M x of None \<Rightarrow> 0 | Some w \<Rightarrow> bit_of (P w)) + bit_of (P v)"
proof -
  let ?M = "M(x := None)"
  have f: "finite {y. \<exists>w. ?M y = Some w \<and> P w}" using finite_pcount [of ?M P] assms by simp
  have "{y. \<exists>w. (M(x \<mapsto> v)) y = Some w \<and> P w} = {y. \<exists>w. ?M y = Some w \<and> P w} \<union> (if P v then {x} else {})" by auto
  moreover have "x \<notin> {y. \<exists>w. ?M y = Some w \<and> P w}" by simp
  ultimately have "pcount P (M(x \<mapsto> v)) = pcount P ?M + bit_of (P v)"
    using f unfolding pcount_def by simp
  then show ?thesis by (simp add: pcount_del [OF assms])
qed

lemma pcount_pos: "finite (dom M) \<Longrightarrow> M x = Some v \<Longrightarrow> P v \<Longrightarrow> 0 < pcount P M"
  using finite_pcount [of M P] by (auto simp: pcount_def card_gt_0_iff)

lemma pcount_zero: "finite (dom M) \<Longrightarrow> pcount P M = 0 \<longleftrightarrow> (\<forall>x v. M x = Some v \<longrightarrow> \<not> P v)"
  using finite_pcount [of M P] by (auto simp: pcount_def)

subsection \<open>References\<close>

text \<open>Who refers to a header: dependency links, ready dependents through their result, and a dependent
  to itself until it is ready. The rest are references of users.\<close>

definition link_refs :: "'v fheap \<Rightarrow> hptr \<Rightarrow> int" where
  "link_refs s h = pcount (\<lambda>k. link_dep k = h) (links s)"

definition result_refs :: "'v fheap \<Rightarrow> hptr \<Rightarrow> int" where
  "result_refs s h = pcount (\<lambda>a. is_dependent a \<and> slot a = Result_of h) (headers s)"

definition self_ref :: "'v future_header \<Rightarrow> int" where
  "self_ref a = bit_of (is_dependent a \<and> status a \<noteq> status_ready)"

definition refs_eq :: "(hptr \<Rightarrow> int) \<Rightarrow> 'v fheap \<Rightarrow> bool" where
  "refs_eq ext s \<longleftrightarrow>
     finite (dom (headers s)) \<and> finite (dom (links s)) \<and>
     (\<forall>h. case headers s h of
        None \<Rightarrow> ext h + link_refs s h + result_refs s h = 0
      | Some a \<Rightarrow> ref_n a < 0 \<or> ref_n a = ext h + link_refs s h + result_refs s h + self_ref a)"

text \<open>Moving \<open>n\<close> references of users from \<open>r\<close> to \<open>t\<close>.\<close>

definition shift :: "(hptr \<Rightarrow> int) \<Rightarrow> hptr \<Rightarrow> hptr \<Rightarrow> int \<Rightarrow> hptr \<Rightarrow> int" where
  "shift ext t r n = (\<lambda>h. ext h + (if h = t then n else 0) - (if h = r then n else 0))"

abbreviation bump :: "(hptr \<Rightarrow> int) \<Rightarrow> hptr \<Rightarrow> int \<Rightarrow> hptr \<Rightarrow> int" where
  "bump ext h n \<equiv> ext(h := ext h + n)"

lemma shift_0 [simp]: "shift ext t r 0 = ext"
  by (simp add: shift_def)

lemma shift_shift [simp]: "shift (shift ext t r m) t r n = shift ext t r (m + n)"
  by (auto simp: shift_def fun_eq_iff)

lemma refs_eqD:
  assumes "refs_eq ext s"
  shows "finite (dom (headers s))" "finite (dom (links s))"
    "headers s h = None \<Longrightarrow> ext h + link_refs s h + result_refs s h = 0"
    "headers s h = Some a \<Longrightarrow> ref_n a < 0 \<or> ref_n a = ext h + link_refs s h + result_refs s h + self_ref a"
  using assms unfolding refs_eq_def by (auto dest: spec [of _ h])

lemma refs_eqI:
  assumes "finite (dom (headers s))" "finite (dom (links s))"
    "\<And>h. headers s h = None \<Longrightarrow> ext h + link_refs s h + result_refs s h = 0"
    "\<And>h a. headers s h = Some a \<Longrightarrow> ref_n a < 0 \<or> ref_n a = ext h + link_refs s h + result_refs s h + self_ref a"
  shows "refs_eq ext s"
  using assms unfolding refs_eq_def by (auto split: option.splits)

text \<open>Rewriting a header, a link, and deleting a header.\<close>

lemma refs_put_header:
  assumes r: "refs_eq ext s" and h: "headers s h = Some a"
    and k: "ref_n a \<ge> 0 \<and> n = ref_n a' - ref_n a \<or> ref_n a < 0 \<and> ref_n a' < 0"
    and ro: "\<And>x. is_dependent a' \<and> slot a' = Result_of x \<longleftrightarrow> is_dependent a \<and> slot a = Result_of x"
  shows "refs_eq (bump ext h (n + self_ref a - self_ref a')) (put_header h a' s)"
proof (rule refs_eqI)
  note f = refs_eqD(1,2) [OF r]
  show "finite (dom (headers (put_header h a' s)))" "finite (dom (links (put_header h a' s)))"
    using f by (simp_all add: put_header_def)
  have rr: "result_refs (put_header h a' s) x = result_refs s x" for x
    using h ro [of x] by (simp add: result_refs_def put_header_def pcount_upd [OF f(1)])
  have lr: "link_refs (put_header h a' s) x = link_refs s x" for x by (simp add: link_refs_def put_header_def)
  fix x
  show "(bump ext h (n + self_ref a - self_ref a')) x + link_refs (put_header h a' s) x + result_refs (put_header h a' s) x = 0"
    if "headers (put_header h a' s) x = None"
    using that refs_eqD(3) [OF r, of x] unfolding rr lr by (auto simp: put_header_def split: if_splits)
  fix b assume b: "headers (put_header h a' s) x = Some b"
  show "ref_n b < 0 \<or> ref_n b = (bump ext h (n + self_ref a - self_ref a')) x + link_refs (put_header h a' s) x +
      result_refs (put_header h a' s) x + self_ref b"
    using b k refs_eqD(4) [OF r, of x] h unfolding rr lr by (auto simp: put_header_def split: if_splits)
qed

lemma refs_put_same:
  assumes "refs_eq ext s" "headers s h = Some a" "ref_n a' = ref_n a" "self_ref a' = self_ref a"
    "is_dependent a' = is_dependent a" "slot a' = slot a"
  shows "refs_eq ext (put_header h a' s)"
proof -
  have "refs_eq (bump ext h (0 + self_ref a - self_ref a')) (put_header h a' s)"
    using assms(3-6) by (intro refs_put_header [OF assms(1,2)]) auto
  then show ?thesis using assms(4) by simp
qed

text \<open>A dependent becomes ready with the result \<open>r\<close>.\<close>

lemma refs_put_ready:
  assumes r: "refs_eq ext s" and h: "headers s h = Some a" "is_dependent a" "\<And>x. slot a \<noteq> Result_of x" "status a \<noteq> status_ready"
    and hr: "h \<noteq> r"
  shows "refs_eq (shift ext h r 1) (put_header h (a\<lparr>slot := Result_of r, status := status_ready\<rparr>) s)" (is "refs_eq _ ?s")
proof (rule refs_eqI)
  note f = refs_eqD(1,2) [OF r]
  show "finite (dom (headers ?s))" "finite (dom (links ?s))" using f by (simp_all add: put_header_def)
  have rr: "result_refs ?s x = result_refs s x + bit_of (x = r)" for x
    using h by (auto simp: result_refs_def put_header_def pcount_upd [OF f(1)])
  have lr: "link_refs ?s x = link_refs s x" for x by (simp add: link_refs_def put_header_def)
  fix x
  show "shift ext h r 1 x + link_refs ?s x + result_refs ?s x = 0" if "headers ?s x = None"
    using that refs_eqD(3) [OF r, of x] unfolding rr lr by (auto simp: put_header_def shift_def split: if_splits)
  fix b assume b: "headers ?s x = Some b"
  show "ref_n b < 0 \<or> ref_n b = shift ext h r 1 x + link_refs ?s x + result_refs ?s x + self_ref b"
    using b refs_eqD(4) [OF r, of x] h hr unfolding rr lr by (auto simp: put_header_def shift_def self_ref_def split: if_splits)
qed

lemma refs_put_link:
  assumes r: "refs_eq ext s" and l: "links s l = Some k"
  shows "refs_eq (shift ext (link_dep k) (link_dep k') 1) (put_link l k' s)" (is "refs_eq _ ?s")
proof (rule refs_eqI)
  note f = refs_eqD(1,2) [OF r]
  show "finite (dom (headers ?s))" "finite (dom (links ?s))" using f by (simp_all add: put_link_def)
  have rr: "result_refs ?s x = result_refs s x" for x by (simp add: result_refs_def put_link_def)
  have lr: "link_refs ?s x = link_refs s x - bit_of (link_dep k = x) + bit_of (link_dep k' = x)" for x
    using l by (simp add: link_refs_def put_link_def pcount_upd [OF f(2)])
  fix x
  show "shift ext (link_dep k) (link_dep k') 1 x + link_refs ?s x + result_refs ?s x = 0" if "headers ?s x = None"
    using that refs_eqD(3) [OF r, of x] unfolding rr lr by (auto simp: put_link_def shift_def)
  fix b assume b: "headers ?s x = Some b"
  show "ref_n b < 0 \<or> ref_n b = shift ext (link_dep k) (link_dep k') 1 x + link_refs ?s x + result_refs ?s x + self_ref b"
    using b refs_eqD(4) [OF r, of x b] unfolding rr lr by (auto simp: put_link_def shift_def)
qed

lemma refs_new_link:
  assumes r: "refs_eq ext s" and l: "links s l = None"
  shows "refs_eq (bump ext (link_dep k) (- 1)) (s\<lparr>links := (links s)(l \<mapsto> k)\<rparr>)" (is "refs_eq _ ?s")
proof (rule refs_eqI)
  note f = refs_eqD(1,2) [OF r]
  show "finite (dom (headers ?s))" "finite (dom (links ?s))" using f by simp_all
  have rr: "result_refs ?s x = result_refs s x" for x by (simp add: result_refs_def)
  have lr: "link_refs ?s x = link_refs s x + bit_of (link_dep k = x)" for x
    using l by (simp add: link_refs_def pcount_upd [OF f(2)])
  fix x
  show "(bump ext (link_dep k) (- 1)) x + link_refs ?s x + result_refs ?s x = 0" if "headers ?s x = None"
    using that refs_eqD(3) [OF r, of x] unfolding rr lr by auto
  fix b assume b: "headers ?s x = Some b"
  show "ref_n b < 0 \<or> ref_n b = (bump ext (link_dep k) (- 1)) x + link_refs ?s x + result_refs ?s x + self_ref b"
    using b refs_eqD(4) [OF r, of x b] unfolding rr lr by auto
qed

lemma refs_delete_link:
  assumes r: "refs_eq ext s" and l: "links s l = Some k"
  shows "refs_eq (bump ext (link_dep k) 1) (delete_links [l] s)" (is "refs_eq _ ?s")
proof (rule refs_eqI)
  note f = refs_eqD(1,2) [OF r]
  have e: "links ?s = (links s)(l := None)" by (auto simp: delete_links_def fun_eq_iff)
  show "finite (dom (headers ?s))" "finite (dom (links ?s))" using f by (simp_all add: e) (simp add: delete_links_def)
  have rr: "result_refs ?s x = result_refs s x" for x by (simp add: result_refs_def delete_links_def)
  have lr: "link_refs ?s x = link_refs s x - bit_of (link_dep k = x)" for x
    using l by (simp add: link_refs_def e pcount_del [OF f(2)])
  have hd: "headers ?s = headers s" by (simp add: delete_links_def)
  fix x
  show "(bump ext (link_dep k) 1) x + link_refs ?s x + result_refs ?s x = 0" if "headers ?s x = None"
    using that refs_eqD(3) [OF r, of x] unfolding rr lr hd by auto
  fix b assume b: "headers ?s x = Some b"
  show "ref_n b < 0 \<or> ref_n b = (bump ext (link_dep k) 1) x + link_refs ?s x + result_refs ?s x + self_ref b"
    using b refs_eqD(4) [OF r, of x b] unfolding rr lr hd by auto
qed

text \<open>Deleting a header that nobody refers to; a ready dependent returns the reference to its result.\<close>

lemma refs_delete_header:
  assumes r: "refs_eq ext s" and h: "headers s h = Some a" "ref_n a = 0" "self_ref a = 0"
  shows "refs_eq (if is_dependent a then case slot a of Result_of x \<Rightarrow> bump ext x 1 | _ \<Rightarrow> ext else ext) (delete_header h s)"
    (is "refs_eq ?e ?s")
proof (rule refs_eqI)
  note f = refs_eqD(1,2) [OF r]
  show "finite (dom (headers ?s))" "finite (dom (links ?s))" using f by (simp_all add: delete_header_def)
  have rr: "result_refs ?s x = result_refs s x - bit_of (is_dependent a \<and> slot a = Result_of x)" for x
    using h by (simp add: result_refs_def delete_header_def pcount_del [OF f(1)])
  have lr: "link_refs ?s x = link_refs s x" for x by (simp add: link_refs_def delete_header_def)
  have e: "?e x = ext x + bit_of (is_dependent a \<and> slot a = Result_of x)" for x by (auto split: slot.splits)
  fix x
  show "?e x + link_refs ?s x + result_refs ?s x = 0" if "headers ?s x = None"
    using that refs_eqD(3) [OF r, of x] refs_eqD(4) [OF r h(1)] h unfolding rr lr e by (auto simp: delete_header_def split: if_splits)
  fix b assume b: "headers ?s x = Some b"
  show "ref_n b < 0 \<or> ref_n b = ?e x + link_refs ?s x + result_refs ?s x + self_ref b"
    using b refs_eqD(4) [OF r, of x b] unfolding rr lr e by (auto simp: delete_header_def split: if_splits)
qed

subsection \<open>Waiting and successors\<close>

text \<open>How many links wait on behalf of a header, and what its status says about it.\<close>

definition waiting :: "'v fheap \<Rightarrow> hptr \<Rightarrow> int" where
  "waiting s x = pcount (\<lambda>k. link_suc k = Some x) (links s)"

definition status_waits :: "int \<Rightarrow> int \<Rightarrow> bool" where
  "status_waits st n \<longleftrightarrow>
     st \<ge> status_active \<and> n = st \<or> st = status_proxying \<and> n = 1 \<or>
     (st = status_ready \<or> st = status_proxying_active) \<and> n = 0"

definition wait_ok :: "'v fheap \<Rightarrow> bool" where
  "wait_ok s \<longleftrightarrow>
     (\<forall>l k x. links s l = Some k \<longrightarrow> link_suc k = Some x \<longrightarrow> (\<exists>b. headers s x = Some b \<and> is_dependent b)) \<and>
     (\<forall>x b. headers s x = Some b \<longrightarrow> is_dependent b \<longrightarrow> status_waits (status b) (waiting s x))"

lemma wait_okD:
  assumes "wait_ok s"
  shows "links s l = Some k \<Longrightarrow> link_suc k = Some x \<Longrightarrow> \<exists>b. headers s x = Some b \<and> is_dependent b"
    and "headers s x = Some b \<Longrightarrow> is_dependent b \<Longrightarrow> status_waits (status b) (waiting s x)"
  using assms unfolding wait_ok_def by blast+

lemma wait_okI:
  assumes "\<And>l k x. links s l = Some k \<Longrightarrow> link_suc k = Some x \<Longrightarrow> \<exists>b. headers s x = Some b \<and> is_dependent b"
    and "\<And>x b. headers s x = Some b \<Longrightarrow> is_dependent b \<Longrightarrow> status_waits (status b) (waiting s x)"
  shows "wait_ok s"
  using assms unfolding wait_ok_def by blast

definition sucs_ok :: "'v fheap \<Rightarrow> bool" where
  "sucs_ok s \<longleftrightarrow>
     (\<forall>h a. headers s h = Some a \<longrightarrow> distinct (sucs a) \<and>
        (\<forall>l. l \<in> set (sucs a) \<longleftrightarrow> (\<exists>k. links s l = Some k \<and> link_dep k = h \<and> link_suc k \<noteq> None))) \<and>
     (\<forall>l k. links s l = Some k \<longrightarrow> link_suc k \<noteq> None \<longrightarrow> headers s (link_dep k) \<noteq> None)"

lemma fheap_cong:
  assumes "headers s' = headers s" "links s' = links s"
  shows "refs_eq ext s' = refs_eq ext s" "wait_ok s' = wait_ok s" "sucs_ok s' = sucs_ok s" "waiting s' = waiting s"
proof -
  have e: "link_refs s' = link_refs s" "result_refs s' = result_refs s" "waiting s' = waiting s"
    by (simp_all add: fun_eq_iff link_refs_def result_refs_def waiting_def assms)
  show "refs_eq ext s' = refs_eq ext s" unfolding refs_eq_def assms e by (rule refl)
  show "wait_ok s' = wait_ok s" "sucs_ok s' = sucs_ok s" unfolding wait_ok_def sucs_ok_def assms e by (rule refl)+
  show "waiting s' = waiting s" by (rule e)
qed

lemma waiting_pos:
  "finite (dom (links s)) \<Longrightarrow> links s l = Some k \<Longrightarrow> link_suc k = Some x \<Longrightarrow> 0 < waiting s x"
  unfolding waiting_def by (rule pcount_pos) auto

lemma wait_ok_suc:
  assumes w: "wait_ok s" and f: "finite (dom (links s))" and l: "links s l = Some k" "link_suc k = Some x"
  obtains b where "headers s x = Some b" "is_dependent b" "status b > status_active \<and> waiting s x = status b \<or>
    status b = status_proxying \<and> waiting s x = 1"
proof -
  obtain b where b: "headers s x = Some b" "is_dependent b" using wait_okD(1) [OF w l] by blast
  from wait_okD(2) [OF w b] waiting_pos [OF f l] that b show ?thesis by (auto simp: status_defs status_waits_def)
qed

lemma link_settle: "k\<lparr>link_dep := r, link_suc := None\<rparr> = \<lparr>link_dep = r, link_suc = None\<rparr>" for k :: dependency_link
  by (cases k) simp

lemma notify_suc_ok:
  assumes w: "wait_ok s" and r: "refs_eq ext s" and l: "links s l = Some k" "link_suc k = Some x" and q: "active s = Some q"
  shows "\<exists>s' b. notify_suc rs l s = Some s' \<and> headers s x = Some b \<and> wait_ok s' \<and> refs_eq (shift ext (link_dep k) rs 1) s' \<and>
     headers s' = (headers s)(x \<mapsto> b\<lparr>status := status b - 1\<rparr>) \<and>
     links s' = (links s)(l \<mapsto> \<lparr>link_dep = rs, link_suc = None\<rparr>) \<and> bodies s' = bodies s \<and> fresh s' = fresh s \<and>
     active s' = Some (q @ (if waiting s' x = 0 then [x] else []))"
proof -
  note f = refs_eqD(1,2) [OF r]
  obtain b where b: "headers s x = Some b" "is_dependent b" "status b > status_active \<and> waiting s x = status b \<or>
    status b = status_proxying \<and> waiting s x = 1" using wait_ok_suc [OF w f(2) l] by blast
  let ?k = "\<lparr>link_dep = rs, link_suc = None\<rparr>"
  define s1 where "s1 = put_link l ?k s"
  define s2 where "s2 = put_header x (b\<lparr>status := status b - 1\<rparr>) s1"
  have h1: "headers s1 x = Some b" using b(1) by (simp add: s1_def put_link_def)
  have r1: "refs_eq (shift ext (link_dep k) rs 1) s1" unfolding s1_def using refs_put_link [OF r l(1), of ?k] by simp
  have r2: "refs_eq (shift ext (link_dep k) rs 1) s2"
    unfolding s2_def using b(2,3) by (intro refs_put_same [OF r1 h1]) (auto simp: self_ref_def status_defs)
  have wt: "waiting s2 y = waiting s y - bit_of (y = x)" for y
    using l by (simp add: waiting_def s2_def s1_def put_header_def put_link_def pcount_upd [OF f(2)])
  have z: "waiting s2 x = 0 \<longleftrightarrow> status b - 1 \<le> status_active"
    using b(3) unfolding wt by (auto simp: status_defs)
  have hs: "headers s2 = (headers s)(x \<mapsto> b\<lparr>status := status b - 1\<rparr>)" and ls: "links s2 = (links s)(l \<mapsto> ?k)"
    by (simp_all add: s2_def s1_def put_header_def put_link_def)
  have w2: "wait_ok s2"
  proof (rule wait_okI)
    fix m k y assume "links s2 m = Some k" "link_suc k = Some y"
    then show "\<exists>b. headers s2 y = Some b \<and> is_dependent b"
      using wait_okD(1) [OF w, of m k y] b(2) by (auto simp: hs ls split: if_splits)
  next
    fix y c assume c: "headers s2 y = Some c" "is_dependent c"
    then show "status_waits (status c) (waiting s2 y)"
      using wait_okD(2) [OF w, of y c] b(3) unfolding wt by (auto simp: hs status_waits_def status_defs split: if_splits)
  qed
  have a2: "active s2 = Some q" using q by (simp add: s2_def s1_def put_header_def put_link_def)
  have "notify_suc rs l s = (if status b - 1 \<le> status_active then push_active x s2 else Some s2)"
    using l b(1) by (simp add: notify_suc_def s2_def s1_def Let_def put_link_def link_settle)
  also have "\<dots> = Some (s2\<lparr>active := Some (q @ (if waiting s2 x = 0 then [x] else []))\<rparr>)"
    using a2 z by (cases s2) (simp add: push_active_def)
  finally have n: "notify_suc rs l s = Some (s2\<lparr>active := Some (q @ (if waiting s2 x = 0 then [x] else []))\<rparr>)" (is "_ = Some ?s3") .
  have "wait_ok ?s3" "refs_eq (shift ext (link_dep k) rs 1) ?s3" "waiting ?s3 x = waiting s2 x"
    using w2 r2 fheap_cong [of ?s3 s2] by simp_all
  then show ?thesis
    using n b(1) hs ls by (intro exI [of _ ?s3] exI [of _ b]) (simp add: s2_def s1_def put_header_def put_link_def)
qed


text \<open>The loop over the successors: what it appends to the active queue are the headers that stopped waiting.\<close>

definition suc_of :: "'v fheap \<Rightarrow> lptr \<Rightarrow> hptr" where
  "suc_of s l = (case links s l of Some k \<Rightarrow> (case link_suc k of Some x \<Rightarrow> x | None \<Rightarrow> the_nil) | None \<Rightarrow> the_nil)"

definition settled :: "hptr \<Rightarrow> lptr list \<Rightarrow> 'v fheap \<Rightarrow> lptr \<rightharpoonup> dependency_link" where
  "settled r ls s = (\<lambda>l. if l \<in> set ls then Some \<lparr>link_dep = r, link_suc = None\<rparr> else links s l)"

definition notified :: "lptr list \<Rightarrow> 'v fheap \<Rightarrow> hptr \<rightharpoonup> 'v future_header" where
  "notified ls s = (\<lambda>x. map_option (\<lambda>b. b\<lparr>status := status b - int (count_list (map (suc_of s) ls) x)\<rparr>) (headers s x))"

lemma waiting_settle:
  assumes "finite (dom (links s))" "links s l = Some k" "link_suc k = Some x" "links s1 = (links s)(l \<mapsto> \<lparr>link_dep = r, link_suc = None\<rparr>)"
  shows "waiting s1 y = waiting s y - bit_of (y = x)"
  using assms by (simp add: waiting_def pcount_upd)

lemma notify_sucs_ok:
  assumes "wait_ok s" "refs_eq ext s" "active s = Some q" "distinct ls"
    "\<forall>l \<in> set ls. \<exists>k. links s l = Some k \<and> link_dep k = t \<and> link_suc k \<noteq> None"
  shows "\<exists>s' q'. notify_sucs r tu ru ls (n, m) s = Some ((n - tu * int (length ls), m + ru * int (length ls)), s') \<and>
     wait_ok s' \<and> refs_eq (shift ext t r (int (length ls))) s' \<and> links s' = settled r ls s \<and> headers s' = notified ls s \<and>
     bodies s' = bodies s \<and> fresh s' = fresh s \<and> active s' = Some (q @ q') \<and> distinct q' \<and>
     set q' = {x \<in> set (map (suc_of s) ls). waiting s' x = 0} \<and>
     (\<forall>y. waiting s' y = waiting s y - int (count_list (map (suc_of s) ls) y))"
  using assms
proof (induction ls arbitrary: s ext q n m)
  case Nil
  have "notified [] s = headers s" by (auto simp: notified_def fun_eq_iff option.map_ident)
  with Nil show ?case by (simp add: settled_def)
next
  case (Cons l ls)
  note f = refs_eqD(2) [OF Cons.prems(2)]
  obtain k x where k: "links s l = Some k" "link_dep k = t" "link_suc k = Some x" using Cons.prems(5) by auto
  obtain s1 b where s1: "notify_suc r l s = Some s1" "headers s x = Some b" "wait_ok s1" "refs_eq (shift ext t r 1) s1"
      "headers s1 = (headers s)(x \<mapsto> b\<lparr>status := status b - 1\<rparr>)" "links s1 = (links s)(l \<mapsto> \<lparr>link_dep = r, link_suc = None\<rparr>)"
      "bodies s1 = bodies s" "fresh s1 = fresh s" "active s1 = Some (q @ (if waiting s1 x = 0 then [x] else []))"
    using notify_suc_ok [OF Cons.prems(1,2) k(1,3) Cons.prems(3), of r] k(2) by (elim exE conjE) (rule that, simp_all)
  have ds: "distinct ls" "l \<notin> set ls" using Cons.prems(4) by simp_all
  have ld: "\<forall>l' \<in> set ls. \<exists>k. links s1 l' = Some k \<and> link_dep k = t \<and> link_suc k \<noteq> None"
    using Cons.prems(5) ds(2) by (auto simp: s1(6))
  obtain s' q' where
    s': "notify_sucs r tu ru ls (n - tu, m + ru) s1 = Some ((n - tu - tu * int (length ls), m + ru + ru * int (length ls)), s')"
     "wait_ok s'" "refs_eq (shift (shift ext t r 1) t r (int (length ls))) s'" "links s' = settled r ls s1" "headers s' = notified ls s1"
     "bodies s' = bodies s1" "fresh s' = fresh s1" "active s' = Some ((q @ (if waiting s1 x = 0 then [x] else [])) @ q')" "distinct q'"
     "set q' = {y \<in> set (map (suc_of s1) ls). waiting s' y = 0}"
     "\<forall>y. waiting s' y = waiting s1 y - int (count_list (map (suc_of s1) ls) y)"
    using Cons.IH [OF s1(3,4,9) ds(1) ld, of "n - tu" "m + ru"] by (elim exE conjE) (rule that)
  have so: "map (suc_of s1) ls = map (suc_of s) ls" using ds(2) by (auto simp: suc_of_def s1(6))
  have sl: "suc_of s l = x" using k by (simp add: suc_of_def)
  have w1: "waiting s1 y = waiting s y - bit_of (y = x)" for y by (rule waiting_settle [OF f k(1,3) s1(6)])
  have nx: "x \<notin> set (map (suc_of s1) ls)" if "waiting s1 x = 0"
  proof
    assume "x \<in> set (map (suc_of s1) ls)"
    then obtain l' k' where "l' \<in> set ls" "links s1 l' = Some k'" "link_suc k' = Some x"
      using ld by (auto simp: suc_of_def)
    then show False using waiting_pos [OF refs_eqD(2) [OF s1(4)]] that by fastforce
  qed
  then have nc: "waiting s1 x = 0 \<Longrightarrow> count_list (map (suc_of s1) ls) x = 0" by (simp add: count_list_0_iff)
  have "headers s' = notified (l # ls) s"
    unfolding s'(5) notified_def so s1(5) using s1(2) sl by (auto simp: fun_eq_iff)
  have "links s' = settled r (l # ls) s" unfolding s'(4) settled_def s1(6) by (auto simp: fun_eq_iff)
  have "set ((if waiting s1 x = 0 then [x] else []) @ q') = {y \<in> set (map (suc_of s) (l # ls)). waiting s' y = 0}"
  proof (cases "waiting s1 x = 0")
    case True
    then have "waiting s' x = 0" using s'(11) nc by simp
    then show ?thesis using True s'(10) so sl by auto
  next
    case False
    have "x \<in> set (map (suc_of s1) ls)" if "waiting s' x = 0"
      using s'(11) that False count_notin [of x "map (suc_of s1) ls"] by fastforce
    then show ?thesis using False s'(10) so sl by auto
  qed
  have "distinct ((if waiting s1 x = 0 then [x] else []) @ q')" using s'(9,10) nx by auto
  have "waiting s' y = waiting s y - int (count_list (map (suc_of s) (l # ls)) y)" for y
    using s'(11) w1 so sl by simp
  have "notify_sucs r tu ru (l # ls) (n, m) s = Some ((n - tu * int (length (l # ls)), m + ru * int (length (l # ls))), s')"
    using s1(1) s'(1) by (simp add: algebra_simps)
  have "refs_eq (shift ext t r (int (length (l # ls)))) s'" using s'(3) by simp
  have "active s' = Some (q @ (if waiting s1 x = 0 then [x] else []) @ q')" "bodies s' = bodies s" "fresh s' = fresh s"
    using s'(6-8) s1(7,8) by simp_all
  show ?case
    by (intro exI [of _ s'] exI [of _ "(if waiting s1 x = 0 then [x] else []) @ q'"] conjI allI; fact)
qed

definition future_ok :: "(hptr \<Rightarrow> int) \<Rightarrow> 'v fheap \<Rightarrow> bool" where
  "future_ok ext s \<longleftrightarrow> refs_eq ext s \<and> wait_ok s \<and> sucs_ok s"

lemma refs_static: "refs_eq ext s \<Longrightarrow> headers s r = Some b \<Longrightarrow> ref_n b < 0 \<Longrightarrow> refs_eq (ext(r := v)) s"
  by (rule refs_eqI) (auto dest: refs_eqD(1,2,3) refs_eqD(4))

lemma wait_ok_put:
  assumes "wait_ok s" "headers s h = Some a" "is_dependent a' = is_dependent a"
    "is_dependent a \<Longrightarrow> status a' = status a \<or> status a' = status_ready \<and> waiting s h = 0"
  shows "wait_ok (put_header h a' s)"
proof -
  have "waiting (put_header h a' s) = waiting s" by (auto simp: waiting_def put_header_def)
  moreover have "headers (put_header h a' s) = (headers s)(h \<mapsto> a')" "links (put_header h a' s) = links s"
    by (simp_all add: put_header_def)
  ultimately show ?thesis
    using wait_okD(1) [OF assms(1)] wait_okD(2) [OF assms(1)] assms(2-4)
    by (intro wait_okI) (fastforce simp: status_waits_def split: if_splits)+
qed

lemma length_le_link_refs:
  assumes "finite (dom (links s))" "distinct ls" "\<forall>l \<in> set ls. \<exists>k. links s l = Some k \<and> link_dep k = h"
  shows "int (length ls) \<le> link_refs s h"
proof -
  have "card (set ls) \<le> card {l. \<exists>k. links s l = Some k \<and> link_dep k = h}"
    using assms by (intro card_mono finite_pcount) auto
  then show ?thesis using assms(2) by (simp add: link_refs_def pcount_def distinct_card)
qed

text \<open>
  The middle of \<open>entered_ready_with_sucs\<close>, after \<open>this\<close> was marked ready and its list was cleared: the
  successors are notified, and everything that waited on \<open>this\<close> holds the result.
\<close>

lemma sucs_ok_notified:
  assumes so: "sucs_ok s" and h: "headers s h = Some a"
    and hs: "\<And>x b. H x = Some b \<Longrightarrow> \<exists>c. headers s x = Some c \<and> sucs b = (if x = h then [] else sucs c)"
    and dm: "\<And>x. x \<noteq> h \<Longrightarrow> headers s x \<noteq> None \<Longrightarrow> H x \<noteq> None"
    and s': "headers s' = H" "links s' = settled r (sucs a) s"
  shows "sucs_ok s'"
proof -
  have ls: "l \<in> set (sucs a) \<longleftrightarrow> (\<exists>k. links s l = Some k \<and> link_dep k = h \<and> link_suc k \<noteq> None)" for l
    using so h by (simp add: sucs_ok_def)
  have lk: "links s' l = Some k \<and> link_suc k \<noteq> None \<longleftrightarrow> links s l = Some k \<and> link_suc k \<noteq> None \<and> link_dep k \<noteq> h" for l k
    using ls [of l] unfolding s'(2) settled_def by (cases k) auto
  show ?thesis
    unfolding sucs_ok_def s'(1)
  proof (intro conjI allI impI)
    fix x b assume b: "H x = Some b"
    then obtain c where c: "headers s x = Some c" "sucs b = (if x = h then [] else sucs c)" using hs by blast
    then show "distinct (sucs b)" using so by (auto simp: sucs_ok_def)
    fix l
    have "l \<in> set (sucs c) \<longleftrightarrow> (\<exists>k. links s l = Some k \<and> link_dep k = x \<and> link_suc k \<noteq> None)"
      using so c(1) by (simp add: sucs_ok_def)
    then have "(\<exists>k. links s' l = Some k \<and> link_dep k = x \<and> link_suc k \<noteq> None) \<longleftrightarrow> l \<in> set (sucs c) \<and> x \<noteq> h"
      using lk [of l] by blast
    then show "(l \<in> set (sucs b)) = (\<exists>k. links s' l = Some k \<and> link_dep k = x \<and> link_suc k \<noteq> None)"
      using c(2) by simp
  next
    fix l k assume "links s' l = Some k" "link_suc k \<noteq> None"
    then show "H (link_dep k) \<noteq> None" using lk [of l k] so dm unfolding sucs_ok_def by blast
  qed
qed

lemma suc_of_dependent:
  assumes "wait_ok s" "\<forall>l \<in> set ls. \<exists>k. links s l = Some k \<and> link_dep k = t \<and> link_suc k \<noteq> None" "x \<in> set (map (suc_of s) ls)"
  shows "\<exists>b. headers s x = Some b \<and> is_dependent b"
  using assms unfolding wait_ok_def suc_of_def by fastforce

lemma notified_other: "x \<notin> set (map (suc_of s) ls) \<Longrightarrow> notified ls s x = headers s x"
  by (cases "headers s x") (simp_all add: notified_def)


text \<open>What readying \<open>h\<close> with the result \<open>r\<close> does to links, queue and statuses.\<close>

definition readied :: "hptr \<Rightarrow> hptr \<Rightarrow> lptr list \<Rightarrow> 'v fheap \<Rightarrow> 'v fheap \<Rightarrow> bool" where
  "readied h r ls s s' \<longleftrightarrow>
     links s' = settled r ls s \<and> bodies s' = bodies s \<and>
     (\<exists>q q'. active s = Some q \<and> active s' = Some (q @ q') \<and> distinct q' \<and>
        set q' = {x \<in> set (map (suc_of s) ls). waiting s' x = 0}) \<and>
     (\<forall>x b. x \<noteq> h \<longrightarrow> x \<noteq> r \<longrightarrow> headers s x = Some b \<longrightarrow>
        headers s' x = Some (b\<lparr>status := status b - int (count_list (map (suc_of s) ls) x)\<rparr>))"

lemma sucs_links:
  "sucs_ok s \<Longrightarrow> headers s h = Some a \<Longrightarrow>
     distinct (sucs a) \<and> (\<forall>l \<in> set (sucs a). \<exists>k. links s l = Some k \<and> link_dep k = h \<and> link_suc k \<noteq> None)"
  unfolding sucs_ok_def by blast

lemma suc_of_cong: "links s' = links s \<Longrightarrow> suc_of s' = suc_of s"
  by (simp add: suc_of_def fun_eq_iff)

lemma slot_same: "slot a = v \<Longrightarrow> a\<lparr>slot := v\<rparr> = a" for a :: "'v future_header"
  by (cases a) simp

lemma settled_cong: "links s' = links s \<Longrightarrow> settled r ls s' = settled r ls s"
  by (simp add: settled_def cong: if_cong)

lemma enter_ready_own:
  assumes ok: "future_ok ext s" and h: "headers s h = Some a" "\<not> is_dependent a" "slot a = Result_of h" "0 < ref_n a"
    and q: "active s = Some q"
  shows "\<exists>s'. enter_ready_queued h h s = Some s' \<and> future_ok ext s' \<and> readied h h (sucs a) s s' \<and>
     headers s' h = Some (a\<lparr>status := status_ready, sucs := []\<rparr>)"
proof -
  have r: "refs_eq ext s" and w: "wait_ok s" and so: "sucs_ok s" using ok by (simp_all add: future_ok_def)
  note sl = sucs_links [OF so h(1)]
  define s1 where "s1 = put_header h (a\<lparr>slot := Result_of h, status := status_ready\<rparr>) s"
  define s2 where "s2 = put_header h (a\<lparr>slot := Result_of h, status := status_ready, sucs := []\<rparr>) s1"
  have r1: "refs_eq ext s1" unfolding s1_def using h by (intro refs_put_same [OF r h(1)]) (auto simp: self_ref_def)
  have h1: "headers s1 h = Some (a\<lparr>slot := Result_of h, status := status_ready\<rparr>)" by (simp add: s1_def put_header_def)
  have r2: "refs_eq ext s2" unfolding s2_def using h by (intro refs_put_same [OF r1 h1]) (auto simp: self_ref_def)
  have w2: "wait_ok s2"
    unfolding s2_def using h by (intro wait_ok_put [OF _ h1]) (auto simp: s1_def intro!: wait_ok_put [OF w h(1)])
  have l2: "links s2 = links s" "active s2 = Some q" "bodies s2 = bodies s"
      "headers s2 = (headers s)(h \<mapsto> a\<lparr>status := status_ready, sucs := []\<rparr>)"
    using q by (simp_all add: s2_def s1_def put_header_def slot_same [OF h(3)])
  have ld: "\<forall>l \<in> set (sucs a). \<exists>k. links s2 l = Some k \<and> link_dep k = h \<and> link_suc k \<noteq> None" using sl l2(1) by simp
  obtain s' q' where s': "notify_sucs h 0 0 (sucs a) (ref_n a, ref_n a) s2 = Some ((ref_n a, ref_n a), s')"
     "wait_ok s'" "refs_eq ext s'" "links s' = settled h (sucs a) s2" "headers s' = notified (sucs a) s2"
     "bodies s' = bodies s2" "active s' = Some (q @ q')" "distinct q'"
     "set q' = {x \<in> set (map (suc_of s2) (sucs a)). waiting s' x = 0}"
    using notify_sucs_ok [OF w2 r2 l2(2) _ ld, of h 0 0 "ref_n a" "ref_n a"] sl by (auto simp: shift_def)
  have nh: "h \<notin> set (map (suc_of s2) (sucs a))" using suc_of_dependent [OF w2 ld, of h] h l2(4) by auto
  have hh: "headers s' h = Some (a\<lparr>status := status_ready, sucs := []\<rparr>)"
    unfolding s'(5) notified_other [OF nh] by (simp add: l2(4))
  have e: "enter_ready_queued h h s = Some s'"
  proof (cases "sucs a = []")
    case True
    then have "s' = s2" using s'(1) by simp
    moreover have "s2 = s1" using True by (cases a) (simp add: s2_def s1_def put_header_def)
    ultimately show ?thesis using True h(1) by (simp add: enter_ready_queued_def s1_def Let_def)
  next
    case False
    have "entered_ready_with_sucs h h (sucs a) s1 = Some s'"
      using h1 h(4) s'(1) by (simp add: entered_ready_with_sucs_def Let_def s2_def)
    then show ?thesis using False h(1) by (simp add: enter_ready_queued_def s1_def Let_def)
  qed
  have "sucs_ok s'"
  proof (rule sucs_ok_notified [OF so h(1), of "headers s'" s' h])
    show "links s' = settled h (sucs a) s" using s'(4) settled_cong [OF l2(1)] by simp
    show "headers s' x \<noteq> None" if "x \<noteq> h" "headers s x \<noteq> None" for x
      using that by (auto simp: s'(5) notified_def l2(4))
    show "\<exists>c. headers s x = Some c \<and> sucs b = (if x = h then [] else sucs c)" if "headers s' x = Some b" for x b
      using that h(1) by (auto simp: s'(5) notified_def l2(4) split: if_splits)
  qed simp
  moreover have "readied h h (sucs a) s s'"
    using s' l2 q suc_of_cong [OF l2(1)] settled_cong [OF l2(1)] by (auto simp: readied_def notified_def)
  ultimately show ?thesis using e hh s'(2,3) by (auto simp: future_ok_def)
qed

text \<open>The counts written back at the end, and the deletion of a header that lost its last reference.\<close>

lemma settle_counts:
  assumes r3: "refs_eq (shift ext h r (1 + n)) s" and w3: "wait_ok s"
    and h: "headers s h = Some a" "is_dependent a" "status a = status_ready" "slot a = Result_of r" "ref_n a = m + n" "0 \<le> m" "0 \<le> n"
    and r: "headers s r = Some c" "\<not> is_dependent c" "ru = (if ref_n c < 0 then 0 else 1)"
  shows "\<exists>s'. do { s \<leftarrow> set_ref h m s;
                 s \<leftarrow> (if ru = 1 then set_ref r (if m = 0 then ref_n c + ru * n - ru else ref_n c + ru * n) s else Some s);
                 if m = 0 then delete_dependent h s else Some s } = Some s' \<and>
     refs_eq (shift ext h r 1) s' \<and> wait_ok s' \<and> links s' = links s \<and> bodies s' = bodies s \<and> active s' = active s \<and>
     (\<forall>x. x \<noteq> h \<longrightarrow> x \<noteq> r \<longrightarrow> headers s' x = headers s x) \<and>
     headers s' h = (if m = 0 then None else Some (a\<lparr>ref_n := m\<rparr>)) \<and>
     (\<exists>k. headers s' r = Some (c\<lparr>ref_n := k\<rparr>))"
proof -
  have hr: "h \<noteq> r" using h r by auto
  let ?z = "bit_of (m = 0)"
  define s4 where "s4 = put_header h (a\<lparr>ref_n := m\<rparr>) s"
  define s5 where "s5 = (if ru = 1 then put_header r (c\<lparr>ref_n := ref_n c + n - ?z\<rparr>) s4 else s4)"
  define s6 where "s6 = (if m = 0 then delete_header h s5 else s5)"
  have r4: "refs_eq (shift (bump ext r (- n)) h r 1) s4"
  proof -
    have "refs_eq (bump (shift ext h r (1 + n)) h (- n + self_ref a - self_ref (a\<lparr>ref_n := m\<rparr>))) s4"
      unfolding s4_def using h(5-7) by (intro refs_put_header [OF r3 h(1)]) auto
    moreover have "bump (shift ext h r (1 + n)) h (- n + self_ref a - self_ref (a\<lparr>ref_n := m\<rparr>)) = shift (bump ext r (- n)) h r 1"
      using hr by (auto simp: shift_def self_ref_def fun_eq_iff)
    ultimately show ?thesis by simp
  qed
  have h4: "headers s4 r = Some c" "headers s4 h = Some (a\<lparr>ref_n := m\<rparr>)" using hr r by (simp_all add: s4_def put_header_def)
  have r5: "refs_eq (shift (bump ext r (- ?z)) h r 1) s5"
  proof (cases "ru = 1")
    case True
    have "refs_eq (bump (shift (bump ext r (- n)) h r 1) r (n - ?z + self_ref c - self_ref (c\<lparr>ref_n := ref_n c + n - ?z\<rparr>)))
        (put_header r (c\<lparr>ref_n := ref_n c + n - ?z\<rparr>) s4)"
      using True r(3) by (intro refs_put_header [OF r4 h4(1)]) (auto split: if_splits)
    moreover have "bump (shift (bump ext r (- n)) h r 1) r (n - ?z + self_ref c - self_ref (c\<lparr>ref_n := ref_n c + n - ?z\<rparr>)) =
        shift (bump ext r (- ?z)) h r 1"
      using hr by (auto simp: shift_def self_ref_def fun_eq_iff)
    ultimately show ?thesis using True by (simp add: s5_def)
  next
    case False
    then have "ref_n c < 0" using r(3) by (auto split: if_splits)
    then have "refs_eq ((shift (bump ext r (- n)) h r 1)(r := ext r - ?z - 1)) s4" by (rule refs_static [OF r4 h4(1)])
    moreover have "(shift (bump ext r (- n)) h r 1)(r := ext r - ?z - 1) = shift (bump ext r (- ?z)) h r 1"
      using hr by (auto simp: shift_def fun_eq_iff)
    ultimately show ?thesis using False by (simp add: s5_def)
  qed
  have h5: "headers s5 h = Some (a\<lparr>ref_n := m\<rparr>)" using hr h4 by (simp add: s5_def put_header_def)
  have r6: "refs_eq (shift ext h r 1) s6"
  proof (cases "m = 0")
    case True
    have "refs_eq (bump (shift (bump ext r (- 1)) h r 1) r 1) (delete_header h s5)"
      using refs_delete_header [OF r5 h5] h True by (simp add: self_ref_def)
    moreover have "bump (shift (bump ext r (- 1)) h r 1) r 1 = shift ext h r 1" using hr by (auto simp: shift_def fun_eq_iff)
    ultimately show ?thesis using True by (simp add: s6_def)
  next
    case False
    then show ?thesis using r5 by (simp add: s6_def)
  qed
  have w5: "wait_ok s5"
    using wait_ok_put [OF w3 h(1), of "a\<lparr>ref_n := m\<rparr>"] wait_ok_put [OF _ h4(1), of "c\<lparr>ref_n := ref_n c + n - ?z\<rparr>"]
    by (simp add: s5_def s4_def)
  have w6: "wait_ok s6"
  proof (cases "m = 0")
    case True
    have wt: "waiting s6 = waiting s5" using True by (simp add: waiting_def s6_def delete_header_def fun_eq_iff)
    have lk: "links s6 = links s5" "headers s6 = (headers s5)(h := None)" using True by (simp_all add: s6_def delete_header_def)
    have f: "finite (dom (links s5))" using refs_eqD(2) [OF r5] .
    have "waiting s5 h = 0" using wait_okD(2) [OF w5 h5] h by (simp add: status_waits_def status_defs)
    then have nl: "link_suc k \<noteq> Some h" if "links s5 l = Some k" for l k using waiting_pos [OF f that] by fastforce
    show ?thesis
    proof (rule wait_okI)
      show "\<exists>b. headers s6 x = Some b \<and> is_dependent b" if "links s6 l = Some k" "link_suc k = Some x" for l k x
        using that wait_okD(1) [OF w5, of l k x] nl [of l k] by (auto simp: lk)
      show "status_waits (status b) (waiting s6 x)" if "headers s6 x = Some b" "is_dependent b" for x b
        using that wait_okD(2) [OF w5, of x b] by (auto simp: lk wt split: if_splits)
    qed
  next
    case False
    then show ?thesis using w5 by (simp add: s6_def)
  qed
  have "set_ref h m s = Some s4" using h(1) by (simp add: set_ref_def s4_def)
  moreover have "(if ru = 1 then set_ref r (if m = 0 then ref_n c + ru * n - ru else ref_n c + ru * n) s4 else Some s4) = Some s5"
    using h4(1) by (simp add: set_ref_def s5_def)
  moreover have "(if m = 0 then delete_dependent h s5 else Some s5) = Some s6"
    using h5 h(2) by (simp add: delete_dependent_def s6_def)
  moreover have "links s6 = links s" "bodies s6 = bodies s" "active s6 = active s"
    by (simp_all add: s6_def s5_def s4_def delete_header_def put_header_def)
  moreover have "\<forall>x. x \<noteq> h \<longrightarrow> x \<noteq> r \<longrightarrow> headers s6 x = headers s x"
    by (simp add: s6_def s5_def s4_def delete_header_def put_header_def)
  moreover have "headers s6 h = (if m = 0 then None else Some (a\<lparr>ref_n := m\<rparr>))" using h5 by (simp add: s6_def delete_header_def)
  moreover have "\<exists>k. headers s6 r = Some (c\<lparr>ref_n := k\<rparr>)"
  proof (cases "ru = 1")
    case True
    then show ?thesis using hr by (auto simp: s6_def s5_def delete_header_def put_header_def)
  next
    case False
    then have "headers s6 r = Some (c\<lparr>ref_n := ref_n c\<rparr>)" using hr h4 by (simp add: s6_def s5_def delete_header_def)
    then show ?thesis by blast
  qed
  ultimately show ?thesis using r6 w6 by auto
qed

lemma enter_ready_dependent:
  assumes ok: "future_ok ext s" and h: "headers s h = Some a" "is_dependent a" "slot a = Body_of b" "0 < ref_n a"
      "waiting s h = 0" "status a \<noteq> status_ready"
    and r: "headers s r = Some c" "\<not> is_dependent c" "- 1 \<le> ext h"
    and q: "active s = Some q"
  shows "\<exists>s'. enter_ready_queued h r s = Some s' \<and> future_ok (shift ext h r 1) s' \<and> readied h r (sucs a) s s' \<and>
     (headers s' h = None \<or> (\<exists>a'. headers s' h = Some a' \<and> status a' = status_ready \<and> slot a' = Result_of r \<and> sucs a' = []))"
proof -
  have re: "refs_eq ext s" and w: "wait_ok s" and so: "sucs_ok s" using ok by (simp_all add: future_ok_def)
  have hr: "h \<noteq> r" using h(1,2) r(1,2) by auto
  note sl = sucs_links [OF so h(1)]
  let ?n = "int (length (sucs a))"
  let ?a1 = "a\<lparr>slot := Result_of r, status := status_ready\<rparr>"
  define s1 where "s1 = put_header h ?a1 s"
  define s2 where "s2 = put_header h (?a1\<lparr>sucs := []\<rparr>) s1"
  have r1: "refs_eq (shift ext h r 1) s1" unfolding s1_def using h hr by (intro refs_put_ready [OF re]) auto
  have h1: "headers s1 h = Some ?a1" "headers s1 r = Some c" using hr r by (simp_all add: s1_def put_header_def)
  have r2: "refs_eq (shift ext h r 1) s2" unfolding s2_def by (intro refs_put_same [OF r1 h1(1)]) (auto simp: self_ref_def)
  have w1: "wait_ok s1" unfolding s1_def using h by (intro wait_ok_put [OF w h(1)]) auto
  have w2: "wait_ok s2" unfolding s2_def by (intro wait_ok_put [OF w1 h1(1)]) auto
  have l2: "links s2 = links s" "active s2 = Some q" "bodies s2 = bodies s" "headers s2 = (headers s)(h \<mapsto> ?a1\<lparr>sucs := []\<rparr>)"
    using q by (simp_all add: s2_def s1_def put_header_def)
  have ld: "\<forall>l \<in> set (sucs a). \<exists>k. links s2 l = Some k \<and> link_dep k = h \<and> link_suc k \<noteq> None" using sl l2(1) by simp
  define ru where "ru = (if ref_n c < 0 then 0 else 1 :: int)"
  obtain s3 q' where s3: "notify_sucs r 1 ru (sucs a) (ref_n a, ref_n c) s2 = Some ((ref_n a - ?n, ref_n c + ru * ?n), s3)"
     "wait_ok s3" "refs_eq (shift ext h r (1 + ?n)) s3" "links s3 = settled r (sucs a) s2" "headers s3 = notified (sucs a) s2"
     "bodies s3 = bodies s2" "active s3 = Some (q @ q')" "distinct q'"
     "set q' = {x \<in> set (map (suc_of s2) (sucs a)). waiting s3 x = 0}"
     "\<forall>y. waiting s3 y = waiting s2 y - int (count_list (map (suc_of s2) (sucs a)) y)"
    using notify_sucs_ok [OF w2 r2 l2(2) _ ld, of r 1 ru "ref_n a" "ref_n c"] sl by auto
  have sc: "suc_of s2 = suc_of s" by (rule suc_of_cong [OF l2(1)])
  have nh: "h \<notin> set (map (suc_of s2) (sucs a))"
  proof
    assume "h \<in> set (map (suc_of s2) (sucs a))"
    then obtain l k where "links s l = Some k" "link_suc k = Some h" using sl by (auto simp: sc suc_of_def)
    then show False using waiting_pos [OF refs_eqD(2) [OF re]] h(5) by fastforce
  qed
  have nr: "r \<notin> set (map (suc_of s2) (sucs a))" using suc_of_dependent [OF w2 ld, of r] r hr l2(4) by auto
  have h3: "headers s3 h = Some (?a1\<lparr>sucs := []\<rparr>)" "headers s3 r = Some c"
    unfolding s3(5) notified_other [OF nh] notified_other [OF nr] using hr r by (simp_all add: l2(4))
  have n: "0 \<le> ref_n a - ?n"
  proof -
    have "?n \<le> link_refs s h" using length_le_link_refs [OF refs_eqD(2) [OF re], of "sucs a" h] sl by blast
    moreover have "ref_n a = ext h + link_refs s h + result_refs s h + 1" using refs_eqD(4) [OF re h(1)] h(2,4,6) by (simp add: self_ref_def)
    moreover have "0 \<le> result_refs s h" by (simp add: result_refs_def)
    ultimately show ?thesis using r(3) by linarith
  qed
  have sx: "settled r (sucs a) s2 = settled r (sucs a) s" by (rule settled_cong [OF l2(1)])
  show ?thesis
  proof (cases "sucs a = []")
    case True
    then have e: "enter_ready_queued h r s = Some s1" using h(1) by (simp add: enter_ready_queued_def s1_def Let_def)
    have "sucs_ok s1"
    proof (rule sucs_ok_notified [OF so h(1), of "headers s1" s1 r])
      show "links s1 = settled r (sucs a) s" using True by (simp add: settled_def s1_def put_header_def)
    qed (use True h(1) in \<open>auto simp: s1_def put_header_def split: if_splits\<close>)
    moreover have "readied h r (sucs a) s s1"
      using True q by (auto simp: readied_def settled_def s1_def put_header_def)
    ultimately show ?thesis using e r1 w1 h1 True by (auto simp: future_ok_def)
  next
    case False
    obtain s' where s': "do { s \<leftarrow> set_ref h (ref_n a - ?n) s3;
           s \<leftarrow> (if ru = 1 then set_ref r (if ref_n a - ?n = 0 then ref_n c + ru * ?n - ru else ref_n c + ru * ?n) s else Some s);
           if ref_n a - ?n = 0 then delete_dependent h s else Some s } = Some s'"
        "refs_eq (shift ext h r 1) s'" "wait_ok s'" "links s' = links s3" "bodies s' = bodies s3" "active s' = active s3"
        "\<forall>x. x \<noteq> h \<longrightarrow> x \<noteq> r \<longrightarrow> headers s' x = headers s3 x"
        "headers s' h = (if ref_n a - ?n = 0 then None else Some (?a1\<lparr>sucs := [], ref_n := ref_n a - ?n\<rparr>))"
        "\<exists>k. headers s' r = Some (c\<lparr>ref_n := k\<rparr>)"
      using settle_counts [OF s3(3,2) h3(1) _ _ _ _ _ _ h3(2) r(2) ru_def, of "ref_n a - ?n"] h(2) n by auto
    have "entered_ready_with_sucs h r (sucs a) s1 = Some s'"
      using h1 h(4) s3(1) s'(1) hr
      by (cases "ref_n c < 0"; cases "ref_n a = ?n") (simp_all add: entered_ready_with_sucs_def Let_def s2_def ru_def)
    then have e: "enter_ready_queued h r s = Some s'" using False h(1) by (simp add: enter_ready_queued_def s1_def Let_def)
    have lk: "links s' = settled r (sucs a) s" using s'(4) s3(4) sx by simp
    have hx: "headers s' x = notified (sucs a) s2 x" if "x \<noteq> h" "x \<noteq> r" for x using s'(7) s3(5) that by simp
    have "sucs_ok s'"
    proof (rule sucs_ok_notified [OF so h(1) _ _ refl lk])
      show "headers s' x \<noteq> None" if "x \<noteq> h" "headers s x \<noteq> None" for x
        using that hx [of x] s'(9) by (cases "x = r") (auto simp: notified_def l2(4))
      show "\<exists>d. headers s x = Some d \<and> sucs b = (if x = h then [] else sucs d)" if "headers s' x = Some b" for x b
      proof (cases "x = h \<or> x = r")
        case True
        then show ?thesis using that s'(8,9) h(1) r(1) hr by (auto split: if_splits)
      next
        case False
        then show ?thesis using that hx [of x] by (auto simp: notified_def l2(4))
      qed
    qed
    moreover have "readied h r (sucs a) s s'"
      unfolding readied_def
    proof (intro conjI)
      have "waiting s' = waiting s3" by (rule ext) (simp add: waiting_def s'(4))
      then show "\<exists>q q'. active s = Some q \<and> active s' = Some (q @ q') \<and> distinct q' \<and>
          set q' = {x \<in> set (map (suc_of s) (sucs a)). waiting s' x = 0}"
        using q s'(6) s3(7-9) sc by auto
      show "\<forall>x b. x \<noteq> h \<longrightarrow> x \<noteq> r \<longrightarrow> headers s x = Some b \<longrightarrow>
          headers s' x = Some (b\<lparr>status := status b - int (count_list (map (suc_of s) (sucs a)) x)\<rparr>)"
        using hx sc by (auto simp: notified_def l2(4))
    qed (use lk s'(5) s3(6) l2(3) in simp_all)
    moreover have "headers s' h = None \<or> (\<exists>a'. headers s' h = Some a' \<and> status a' = status_ready \<and> slot a' = Result_of r \<and> sucs a' = [])"
      using s'(8) by simp
    ultimately show ?thesis using e s'(2,3) by (auto simp: future_ok_def)
  qed
qed

subsection \<open>Exchanging a reference\<close>

lemma sucs_okD:
  assumes "sucs_ok s"
  shows "headers s h = Some a \<Longrightarrow> distinct (sucs a)"
    and "headers s h = Some a \<Longrightarrow> l \<in> set (sucs a) \<longleftrightarrow> (\<exists>k. links s l = Some k \<and> link_dep k = h \<and> link_suc k \<noteq> None)"
    and "links s l = Some k \<Longrightarrow> link_suc k \<noteq> None \<Longrightarrow> headers s (link_dep k) \<noteq> None"
  using assms unfolding sucs_ok_def by blast+

lemma sucs_ok_sub:
  assumes so: "sucs_ok s" and l: "links s' = links s"
    and h: "\<And>x b. headers s' x = Some b \<Longrightarrow> \<exists>c. headers s x = Some c \<and> sucs c = sucs b"
    and d: "\<And>x. headers s' x = None \<Longrightarrow> headers s x = None \<or> (\<exists>c. headers s x = Some c \<and> sucs c = [])"
  shows "sucs_ok s'"
  unfolding sucs_ok_def l
proof (intro conjI allI impI)
  fix x b assume "headers s' x = Some b"
  then obtain c where c: "headers s x = Some c" "sucs c = sucs b" using h by blast
  show "distinct (sucs b)" using sucs_okD(1) [OF so c(1)] c(2) by simp
  fix l show "(l \<in> set (sucs b)) = (\<exists>k. links s l = Some k \<and> link_dep k = x \<and> link_suc k \<noteq> None)"
    using sucs_okD(2) [OF so c(1)] c(2) by simp
next
  fix l k assume k: "links s l = Some k" "link_suc k \<noteq> None"
  show "headers s' (link_dep k) \<noteq> None"
  proof
    assume "headers s' (link_dep k) = None"
    then obtain c where "headers s (link_dep k) = Some c" "sucs c = []" using d [of "link_dep k"] sucs_okD(3) [OF so k] by blast
    then show False using sucs_okD(2) [OF so, of "link_dep k" c l] k by auto
  qed
qed

lemma sucs_ok_same:
  assumes "sucs_ok s" "links s' = links s" "\<And>x. map_option sucs (headers s' x) = map_option sucs (headers s x)"
  shows "sucs_ok s'"
proof (rule sucs_ok_sub [OF assms(1,2)])
  fix x
  show "\<exists>c. headers s x = Some c \<and> sucs c = sucs b" if "headers s' x = Some b" for b
    using that assms(3) [of x] by (cases "headers s x") auto
  show "headers s x = None \<or> (\<exists>c. headers s x = Some c \<and> sucs c = [])" if "headers s' x = None"
    using that assms(3) [of x] by (cases "headers s x") auto
qed

lemma sucs_ok_delete:
  assumes so: "sucs_ok s" and h: "headers s h = Some a" "sucs a = []" and s': "links s' = links s" "headers s' h = None"
      "\<And>x. x \<noteq> h \<Longrightarrow> map_option sucs (headers s' x) = map_option sucs (headers s x)"
  shows "sucs_ok s'"
proof (rule sucs_ok_sub [OF so s'(1)])
  fix x
  show "\<exists>c. headers s x = Some c \<and> sucs c = sucs b" if "headers s' x = Some b" for b
    using that s'(2) s'(3) [of x] by (cases "x = h"; cases "headers s x") auto
  show "headers s x = None \<or> (\<exists>c. headers s x = Some c \<and> sucs c = [])" if "headers s' x = None"
    using that h s'(3) [of x] by (cases "x = h"; cases "headers s x") auto
qed

end
