(* ===== verification/Future_Correct.thy ===== *)
theory Future_Correct
  imports Future_Refs
begin

text \<open>
  Component futures, the properties of the engine: readiness, exchange of references, promises.
\<close>

text \<open>
  (C30) \<open>drop_for_result\<close> turns the caller's reference to a ready header into a reference to the header that
  holds its result: the counts stay equal to the references that exist, and a dependent that loses
  its last reference is deleted together with its own reference to the result.
\<close>

theorem drop_for_result_correct:
  assumes ok: "future_ok ext s" and a: "headers s a = Some ah" "status ah = status_ready" "slot ah = Result_of b" "sucs ah = []"
    and ab: "a = b \<and> ref_n ah \<noteq> 0 \<or> is_dependent ah \<and> 0 \<le> ref_n ah \<and> 1 \<le> ext a \<and> (\<exists>bh. headers s b = Some bh \<and> \<not> is_dependent bh)"
  shows "\<exists>s'. drop_for_result a s = Some (b, s') \<and> future_ok (shift ext b a 1) s' \<and>
    (headers s' a = None \<longrightarrow> ext a = 1 \<and> link_refs s a = 0 \<and> result_refs s a = 0)"
proof (cases "a = b")
  case True
  have "shift ext a a 1 = ext" by (simp add: shift_def)
  moreover have "ref_n ah \<noteq> 0" using ab True a(1) by auto
  ultimately show ?thesis using True a ok by (simp add: drop_for_result_def)
next
  case False
  then obtain bh where d: "is_dependent ah" "0 \<le> ref_n ah" "1 \<le> ext a" "headers s b = Some bh" "\<not> is_dependent bh" using ab by blast
  have re: "refs_eq ext s" and w: "wait_ok s" and so: "sucs_ok s" using ok by (simp_all add: future_ok_def)
  have cnt: "ref_n ah = ext a + link_refs s a + result_refs s a" using refs_eqD(4) [OF re a(1)] d(2) a(2) by (simp add: self_ref_def)
  have nn: "0 \<le> link_refs s a" "0 \<le> result_refs s a" by (simp_all add: link_refs_def result_refs_def)
  define ru where "ru = (if ref_n bh < 0 then 0 else 1 :: int)"
  have e2: "refs_eq (shift (shift ext a b (- 2)) a b (1 + 1)) s" using re by simp
  have m: "ref_n ah = ref_n ah - 1 + 1" "0 \<le> ref_n ah - 1" using cnt nn d(3) by simp_all
  obtain s' where s': "do { s \<leftarrow> set_ref a (ref_n ah - 1) s;
                 s \<leftarrow> (if ru = 1 then set_ref b (if ref_n ah - 1 = 0 then ref_n bh + ru * 1 - ru else ref_n bh + ru * 1) s else Some s);
                 if ref_n ah - 1 = 0 then delete_dependent a s else Some s } = Some s'"
     "refs_eq (shift (shift ext a b (- 2)) a b 1) s'" "wait_ok s'" "links s' = links s"
     "\<forall>x. x \<noteq> a \<longrightarrow> x \<noteq> b \<longrightarrow> headers s' x = headers s x"
     "headers s' a = (if ref_n ah - 1 = 0 then None else Some (ah\<lparr>ref_n := ref_n ah - 1\<rparr>))"
     "\<exists>k. headers s' b = Some (bh\<lparr>ref_n := k\<rparr>)"
    using settle_counts [OF e2 w a(1) d(1) a(2,3) m(1) m(2) _ d(4,5) ru_def] by auto
  have "drop_for_result a s = Some (b, s')"
    using a(1,3) d(2,4) s'(1) False
    by (cases "ref_n bh < 0"; cases "ref_n ah = 1") (auto simp: drop_for_result_def Let_def ru_def Option.bind_eq_Some_conv)
  moreover have "shift (shift ext a b (- 2)) a b 1 = shift ext b a 1" by (auto simp: shift_def fun_eq_iff)
  moreover have "sucs_ok s'"
  proof (cases "ref_n ah - 1 = 0")
    case True
    show ?thesis
    proof (rule sucs_ok_delete [OF so a(1,4) s'(4)])
      show "headers s' a = None" using s'(6) True by simp
      show "map_option sucs (headers s' x) = map_option sucs (headers s x)" if "x \<noteq> a" for x
        using that s'(5,7) d(4) by (cases "x = b") auto
    qed
  next
    case nz: False
    show ?thesis
    proof (rule sucs_ok_same [OF so s'(4)])
      show "map_option sucs (headers s' x) = map_option sucs (headers s x)" for x
        using s'(5,6,7) d(4) a(1) nz by (cases "x = b"; cases "x = a") auto
    qed
  qed
  moreover have "headers s' a = None \<longrightarrow> ext a = 1 \<and> link_refs s a = 0 \<and> result_refs s a = 0"
    using s'(6) cnt nn d(3) by (auto split: if_splits)
  ultimately show ?thesis using s'(2,3) by (auto simp: future_ok_def)
qed


text \<open>
  \<open>drop_for_proxied\<close> turns the caller's reference to a proxy into a reference to the header it proxies. The
  proxy always survives: it is not ready, so it still holds the reference to itself, and the branch that
  unlinks and deletes it never runs.
\<close>

theorem drop_for_proxied_correct:
  assumes ok: "future_ok ext s" and a: "headers s a = Some ah" "is_dependent ah" "0 \<le> ref_n ah" "1 \<le> ext a"
      "status ah = status_proxying \<or> status ah = status_proxying_active" "slot ah = Body_of bd"
    and p: "bodies s bd = Some (Body_proxy l)" "links s l = Some k" "headers s (link_dep k) = Some bh" "link_dep k \<noteq> a"
  shows "\<exists>s'. drop_for_proxied a s = Some (link_dep k, s') \<and> future_ok (shift ext (link_dep k) a 1) s' \<and>
    headers s' a = Some (ah\<lparr>ref_n := ref_n ah - 1\<rparr>) \<and> links s' = links s \<and> bodies s' = bodies s"
proof -
  have re: "refs_eq ext s" and w: "wait_ok s" and so: "sucs_ok s" using ok by (simp_all add: future_ok_def)
  let ?b = "link_dep k"
  have sr: "self_ref ah = 1" using a(2,5) by (auto simp: self_ref_def status_defs)
  have cnt: "ref_n ah - 1 \<noteq> 0"
    using refs_eqD(4) [OF re a(1)] a(3,4) sr pcount_nonneg by (fastforce simp: link_refs_def result_refs_def add_nonneg_eq_0_iff)
  define bu where "bu = (if ref_n bh < 0 then 0 else 1 :: int)"
  define s1 where "s1 = put_header a (ah\<lparr>ref_n := ref_n ah - 1\<rparr>) s"
  define s2 where "s2 = (if bu = 1 then put_header ?b (bh\<lparr>ref_n := ref_n bh + 1\<rparr>) s1 else s1)"
  have h1: "headers s1 ?b = Some bh" using p(3,4) by (simp add: s1_def put_header_def)
  have r1: "refs_eq (bump ext a (- 1)) s1"
    using refs_put_header [OF re a(1), of "- 1" "ah\<lparr>ref_n := ref_n ah - 1\<rparr>"] a(3) by (simp add: s1_def self_ref_def)
  have r2: "refs_eq (shift ext ?b a 1) s2"
  proof (cases "ref_n bh < 0")
    case True
    then have "refs_eq ((bump ext a (- 1))(?b := ext ?b + 1)) s1" by (rule refs_static [OF r1 h1])
    moreover have "(bump ext a (- 1))(?b := ext ?b + 1) = shift ext ?b a 1" using p(4) by (auto simp: shift_def fun_eq_iff)
    ultimately show ?thesis using True by (simp add: s2_def bu_def)
  next
    case False
    then have "refs_eq (bump (bump ext a (- 1)) ?b 1) s2"
      using refs_put_header [OF r1 h1, of 1 "bh\<lparr>ref_n := ref_n bh + 1\<rparr>"] by (simp add: s2_def bu_def self_ref_def)
    moreover have "bump (bump ext a (- 1)) ?b 1 = shift ext ?b a 1" using p(4) by (auto simp: shift_def fun_eq_iff)
    ultimately show ?thesis by simp
  qed
  have w2: "wait_ok s2"
    using wait_ok_put [OF w a(1), of "ah\<lparr>ref_n := ref_n ah - 1\<rparr>"] wait_ok_put [OF _ h1, of "bh\<lparr>ref_n := ref_n bh + 1\<rparr>"]
    by (simp add: s2_def s1_def)
  have so2: "sucs_ok s2"
    using p(3) a(1) p(4) by (intro sucs_ok_same [OF so]) (auto simp: s2_def s1_def put_header_def)
  have "drop_for_proxied a s = Some (?b, s2)"
    using a(1,6) p cnt h1
    by (auto simp: drop_for_proxied_def proxy_link_def Let_def set_ref_def s2_def s1_def bu_def)
  then show ?thesis
    using r2 w2 so2 p(4) by (auto simp: future_ok_def s2_def s1_def put_header_def)
qed

text \<open>
  \<open>enter_proxying\<close> on a header that is itself a proxy looks through it and never steals its body: the proxy
  keeps the reference to itself.
\<close>

theorem skip_proxied_never_steals:
  assumes ok: "future_ok ext s" and a: "headers s a = Some ah" "is_dependent ah" "0 \<le> ref_n ah" "1 \<le> ext a"
      "status ah = status_proxying \<or> status ah = status_proxying_active" "slot ah = Body_of bd"
    and p: "bodies s bd = Some (Body_proxy l)" "links s l = Some k" "headers s (link_dep k) = Some bh" "link_dep k \<noteq> a"
  shows "\<exists>s'. skip_proxied this body a s = Some (body, link_dep k, s') \<and> future_ok (shift ext (link_dep k) a 1) s' \<and>
    headers s' a = Some (ah\<lparr>ref_n := ref_n ah - 1\<rparr>)"
proof -
  have re: "refs_eq ext s" and w: "wait_ok s" and so: "sucs_ok s" using ok by (simp_all add: future_ok_def)
  let ?b = "link_dep k"
  have sr: "self_ref ah = 1" using a(2,5) by (auto simp: self_ref_def status_defs)
  have cnt: "ref_n ah - 1 \<noteq> 0"
    using refs_eqD(4) [OF re a(1)] a(3,4) sr pcount_nonneg by (fastforce simp: link_refs_def result_refs_def add_nonneg_eq_0_iff)
  define s1 where "s1 = (if ref_n bh \<ge> 0 then put_header ?b (bh\<lparr>ref_n := ref_n bh + 1\<rparr>) s else s)"
  define s2 where "s2 = put_header a (ah\<lparr>ref_n := ref_n ah - 1\<rparr>) s1"
  have r1: "refs_eq (bump ext ?b 1) s1"
    using refs_put_header [OF re p(3), of 1 "bh\<lparr>ref_n := ref_n bh + 1\<rparr>"] refs_static [OF re p(3), of "ext ?b + 1"]
    by (auto simp: s1_def self_ref_def)
  have h1: "headers s1 a = Some ah" using a(1) p(4) by (simp add: s1_def put_header_def)
  have "refs_eq (bump (bump ext ?b 1) a (- 1)) s2"
    using refs_put_header [OF r1 h1, of "- 1" "ah\<lparr>ref_n := ref_n ah - 1\<rparr>"] a(3) by (simp add: s2_def self_ref_def)
  moreover have "bump (bump ext ?b 1) a (- 1) = shift ext ?b a 1" using p(4) by (auto simp: shift_def fun_eq_iff)
  moreover have "wait_ok s2"
    using wait_ok_put [OF w p(3), of "bh\<lparr>ref_n := ref_n bh + 1\<rparr>"] wait_ok_put [OF _ h1, of "ah\<lparr>ref_n := ref_n ah - 1\<rparr>"] w
    by (simp add: s2_def s1_def split: if_splits)
  moreover have "sucs_ok s2"
    using p(3) a(1) p(4) by (intro sucs_ok_same [OF so]) (auto simp: s2_def s1_def put_header_def)
  moreover have "skip_proxied this body a s = Some (body, ?b, s2)"
    using a p cnt h1 by (auto simp: skip_proxied_def proxy_link_def Let_def incref_def decref_fast_def s2_def s1_def)
  moreover have "headers s2 a = Some (ah\<lparr>ref_n := ref_n ah - 1\<rparr>)" by (simp add: s2_def put_header_def)
  ultimately show ?thesis by (auto simp: future_ok_def)
qed


subsection \<open>Example heaps\<close>

lemma pcount_empty [simp]: "pcount P Map.empty = 0"
  by (simp add: pcount_def)

text \<open>A promise 2 with the value 7, on which the dependent 3 waits through the link 10.\<close>

definition pending_promise :: "int future_header" where
  "pending_promise =
     \<lparr>ref_n = 2, status = status_results_yes, sucs = [10], slot = Result_of 2, is_dependent = False,
      arity = 1, results = Some [7], pro_meta = Some \<lparr>countdown = 2, deferred_decrements = 0\<rparr>\<rparr>"

definition pending_dependent :: "int \<Rightarrow> int future_header" where
  "pending_dependent st =
     \<lparr>ref_n = 2, status = st, sucs = [], slot = Body_of 20, is_dependent = True, arity = 1,
      results = None, pro_meta = None\<rparr>"

definition pending_heap :: "int \<Rightarrow> int body \<Rightarrow> int fheap" where
  "pending_heap st bd =
     \<lparr>headers = [2 \<mapsto> pending_promise, 3 \<mapsto> pending_dependent st],
      links = [10 \<mapsto> \<lparr>link_dep = 2, link_suc = Some 3\<rparr>], bodies = [20 \<mapsto> bd], fresh = 30, active = Some []\<rparr>"

text \<open>A ready dependent 3 whose result is in the header 2.\<close>

definition ready_result :: "int future_header" where
  "ready_result =
     \<lparr>ref_n = 2, status = status_ready, sucs = [], slot = Result_of 2, is_dependent = False,
      arity = 1, results = Some [7], pro_meta = None\<rparr>"

definition ready_dependent :: "int future_header" where
  "ready_dependent =
     \<lparr>ref_n = 1, status = status_ready, sucs = [], slot = Result_of 2, is_dependent = True, arity = 1,
      results = None, pro_meta = None\<rparr>"

definition ready_heap :: "int fheap" where
  "ready_heap =
     \<lparr>headers = [2 \<mapsto> ready_result, 3 \<mapsto> ready_dependent],
      links = Map.empty, bodies = Map.empty, fresh = 30, active = Some []\<rparr>"

definition one_each :: "hptr \<Rightarrow> int" where
  "one_each h = (if h = 2 \<or> h = 3 then 1 else 0)"

lemmas example_heaps =
  pending_promise_def pending_dependent_def pending_heap_def ready_result_def ready_dependent_def ready_heap_def one_each_def

lemma pending_heap_headers:
  "headers (pending_heap st bd) 2 = Some pending_promise" "headers (pending_heap st bd) 3 = Some (pending_dependent st)"
  "active (pending_heap st bd) = Some []" "bodies (pending_heap st bd) 20 = Some bd"
  "links (pending_heap st bd) 10 = Some \<lparr>link_dep = 2, link_suc = Some 3\<rparr>"
  by (simp_all add: pending_heap_def)

lemma ready_heap_headers: "headers ready_heap 2 = Some ready_result" "headers ready_heap 3 = Some ready_dependent"
  by (simp_all add: ready_heap_def)

lemma pending_heap_ok:
  assumes "st = 1 \<or> st = - 2"
  shows "future_ok one_each (pending_heap st bd)"
proof -
  have "refs_eq one_each (pending_heap st bd)"
    using assms by (intro refs_eqI)
      (auto simp: example_heaps link_refs_def result_refs_def self_ref_def pcount_upd status_defs split: if_splits)
  moreover have "wait_ok (pending_heap st bd)"
    using assms by (intro wait_okI)
      (auto simp: example_heaps waiting_def status_waits_def pcount_upd status_defs split: if_splits)
  moreover have "sucs_ok (pending_heap st bd)"
    unfolding sucs_ok_def by (auto simp: example_heaps split: if_splits)
  ultimately show ?thesis by (simp add: future_ok_def)
qed

lemma ready_heap_ok: "future_ok one_each ready_heap"
proof -
  have "refs_eq one_each ready_heap"
    by (intro refs_eqI)
      (auto simp: example_heaps link_refs_def result_refs_def self_ref_def pcount_upd status_defs split: if_splits)
  moreover have "wait_ok ready_heap"
    by (intro wait_okI) (auto simp: example_heaps waiting_def status_waits_def status_defs split: if_splits)
  moreover have "sucs_ok ready_heap" unfolding sucs_ok_def by (auto simp: example_heaps split: if_splits)
  ultimately show ?thesis by (simp add: future_ok_def)
qed

theorem drop_for_result_correct_witness:
  "\<exists>s'. drop_for_result 3 ready_heap = Some (2, s') \<and> future_ok (shift one_each 2 3 1) s' \<and> headers s' 3 = None"
proof -
  obtain s' where "drop_for_result 3 ready_heap = Some (2, s')" "future_ok (shift one_each 2 3 1) s'"
    using drop_for_result_correct [OF ready_heap_ok ready_heap_headers(2), of 2] ready_heap_headers(1)
    by (auto simp: ready_dependent_def ready_result_def one_each_def)
  then show ?thesis
    by (auto simp: drop_for_result_def example_heaps Let_def set_ref_def put_header_def delete_dependent_def delete_header_def)
qed

theorem drop_for_proxied_correct_witness:
  "\<exists>s'. drop_for_proxied 3 (pending_heap (- 2) (Body_proxy 10)) = Some (2, s') \<and> future_ok (shift one_each 2 3 1) s'"
  using drop_for_proxied_correct [OF pending_heap_ok pending_heap_headers(2) _ _ _ _ _ pending_heap_headers(4,5), of "- 2" pending_promise]
  by (auto simp: pending_dependent_def pending_heap_headers one_each_def status_defs)

theorem skip_proxied_never_steals_witness:
  "\<exists>s'. skip_proxied 4 21 3 (pending_heap (- 2) (Body_proxy 10)) = Some (21, 2, s') \<and> future_ok (shift one_each 2 3 1) s'"
  using skip_proxied_never_steals [OF pending_heap_ok pending_heap_headers(2) _ _ _ _ _ pending_heap_headers(4,5), of "- 2" pending_promise 4 21]
  by (auto simp: pending_dependent_def pending_heap_headers one_each_def status_defs)

text \<open>
  (C26) A header that becomes ready hands its result to every successor exactly once: each link of the successor
  list then refers to the result and waits no more, the successors that waited for nothing else are appended
  once to the active queue, in no header but the two involved does anything but the status change, and the
  reference counts stay exact; a header to which only its successors referred is deleted.
\<close>

theorem enter_ready_notifies:
  assumes "future_ok ext s" "headers s h = Some a" "0 < ref_n a" "active s = Some q"
    and "\<not> is_dependent a \<and> slot a = Result_of h \<and> r = h \<or>
      is_dependent a \<and> slot a = Body_of b \<and> waiting s h = 0 \<and> status a \<noteq> status_ready \<and> - 1 \<le> ext h \<and>
        (\<exists>c. headers s r = Some c \<and> \<not> is_dependent c)"
  shows "\<exists>s'. enter_ready_queued h r s = Some s' \<and> future_ok (shift ext h r 1) s' \<and> readied h r (sucs a) s s' \<and>
     (headers s' h = None \<or> (\<exists>a'. headers s' h = Some a' \<and> status a' = status_ready \<and> slot a' = Result_of r \<and> sucs a' = []))"
proof (cases "is_dependent a")
  case True
  then obtain c where "slot a = Body_of b" "waiting s h = 0" "status a \<noteq> status_ready" "- 1 \<le> ext h"
      "headers s r = Some c" "\<not> is_dependent c" using assms(5) by blast
  then show ?thesis using enter_ready_dependent [OF assms(1,2) True _ assms(3)] assms(4) by blast
next
  case False
  then have r: "slot a = Result_of h" "r = h" using assms(5) by auto
  have e: "shift ext h h 1 = ext" by (simp add: shift_def)
  show ?thesis using enter_ready_own [OF assms(1,2) False r(1) assms(3,4)] r by (auto simp: e)
qed

theorem enter_ready_notifies_witness:
  "\<exists>s'. enter_ready_queued 2 2 (pending_heap 1 (Body_proxy 10)) = Some s' \<and> future_ok (shift one_each 2 2 1) s' \<and> active s' = Some [3]"
proof -
  obtain s' where "enter_ready_queued 2 2 (pending_heap 1 (Body_proxy 10)) = Some s'" "future_ok (shift one_each 2 2 1) s'"
    using enter_ready_notifies [OF pending_heap_ok pending_heap_headers(1) _ pending_heap_headers(3), of 1 2]
    by (auto simp: pending_promise_def)
  then show ?thesis
    by (auto simp: enter_ready_queued_def entered_ready_with_sucs_def example_heaps Let_def put_header_def notify_suc_def
        put_link_def push_active_def status_defs)
qed

subsection \<open>Promises\<close>

lemma future_ok_put_same:
  assumes ok: "future_ok ext s" and h: "headers s h = Some a" and a': "ref_n a' = ref_n a" "status a' = status a"
    "is_dependent a' = is_dependent a" "slot a' = slot a" "sucs a' = sucs a"
  shows "future_ok ext (put_header h a' s)"
proof -
  have re: "refs_eq ext s" and w: "wait_ok s" and so: "sucs_ok s" using ok by (simp_all add: future_ok_def)
  have "refs_eq ext (put_header h a' s)" by (rule refs_put_same [OF re h]) (simp_all add: self_ref_def a')
  moreover have "wait_ok (put_header h a' s)" by (rule wait_ok_put [OF w h]) (simp_all add: a')
  moreover have "sucs_ok (put_header h a' s)" by (rule sucs_ok_same [OF so]) (auto simp: put_header_def h a')
  ultimately show ?thesis by (simp add: future_ok_def)
qed

lemma readied_put:
  assumes "readied h r ls (put_header h a s) s'"
  shows "readied h r ls s s'"
proof -
  have l: "links (put_header h a s) = links s" by (simp add: put_header_def)
  show ?thesis
    using assms unfolding readied_def settled_cong [OF l] suc_of_cong [OF l] by (simp add: put_header_def)
qed

lemma future_ok_active [simp]: "future_ok ext (s\<lparr>active := q\<rparr>) = future_ok ext s"
proof -
  have e: "headers (s\<lparr>active := q\<rparr>) = headers s" "links (s\<lparr>active := q\<rparr>) = links s" by simp_all
  show ?thesis unfolding future_ok_def fheap_cong [OF e] ..
qed

definition queue_of :: "'v fheap \<Rightarrow> hptr list" where
  "queue_of s = (case active s of None \<Rightarrow> [] | Some q \<Rightarrow> q)"

text \<open>
  (C27) Fulfilling \<open>n\<close> dependencies of a promise fails its assertion when the promise is ready already or fewer than \<open>n\<close>
  remain, lowers the counter by \<open>n\<close> and changes nothing else while some remain, and with the last one fails
  when the promise has no values yet; else the promise becomes ready, keeps its values, and hands them to all its
  successors, and those that wait for nothing else are queued. When the thread is running a queue already
  that is all; when it is not, a queue is put up for this call and depleted before it returns.
\<close>

theorem promise_fulfill_correct:
  assumes ok: "future_ok ext s" and h: "headers s h = Some a" "\<not> is_dependent a" "slot a = Result_of h" "0 < ref_n a"
      "pro_meta a = Some m"
  shows "if countdown m \<le> 0 \<or> n > countdown m then promise_fulfill run h n s = None
    else if n < countdown m then
      promise_fulfill run h n s = Some (put_header h (a\<lparr>pro_meta := Some (m\<lparr>countdown := countdown m - n\<rparr>)\<rparr>) s)
    else if status a \<noteq> (if arity a = 0 then status_not_ready else status_results_yes) then promise_fulfill run h n s = None
    else
      \<exists>s'. future_ok ext s' \<and> readied h h (sucs a) (s\<lparr>active := Some (queue_of s)\<rparr>) s' \<and>
        headers s' h = Some (a\<lparr>pro_meta := Some (m\<lparr>countdown := 0\<rparr>), status := status_ready, sucs := []\<rparr>) \<and>
        promise_fulfill run h n s =
          (case active s of Some q \<Rightarrow> Some s' | None \<Rightarrow> map_option (\<lambda>s. s\<lparr>active := None\<rparr>) (deplete run s'))"
proof (cases "0 < countdown m \<and> n = countdown m")
  case False
  then show ?thesis using h(1,5) by (auto simp: promise_fulfill_def get_meta_def put_meta_def)
next
  case True
  let ?a = "a\<lparr>pro_meta := Some (m\<lparr>countdown := 0\<rparr>)\<rparr>"
  let ?s = "put_header h ?a s"
  have f: "promise_fulfill run h n s = readify run h ?s"
    using True h(1,5) by (simp add: promise_fulfill_def get_meta_def put_meta_def)
  have h': "headers ?s h = Some ?a" "active ?s = active s" by (simp_all add: put_header_def)
  show ?thesis
  proof (cases "status a = (if arity a = 0 then status_not_ready else status_results_yes)")
    case False
    then have "promise_fulfill run h n s = None" unfolding f readify_def using h'(1) by simp
    then show ?thesis using False True by simp
  next
    case st: True
    let ?z = "s\<lparr>active := Some (queue_of s)\<rparr>"
    have ok': "future_ok ext (put_header h ?a ?z)"
    proof (rule future_ok_put_same)
      show "future_ok ext ?z" using ok by simp
    qed (simp_all add: h(1))
    have h0: "headers (put_header h ?a ?z) h = Some ?a" "active (put_header h ?a ?z) = Some (queue_of s)" by (simp_all add: put_header_def)
    obtain s' where s': "enter_ready_queued h h (put_header h ?a ?z) = Some s'" "future_ok ext s'" "readied h h (sucs a) (put_header h ?a ?z) s'"
        "headers s' h = Some (?a\<lparr>status := status_ready, sucs := []\<rparr>)"
      using enter_ready_own [OF ok' h0(1) _ _ _ h0(2)] h(2,3,4) by auto
    have e: "put_header h ?a ?z = (put_header h ?a s)\<lparr>active := Some (queue_of s)\<rparr>" by (cases s) (simp add: put_header_def)
    have "readify run h ?s = enter_ready run h h ?s" unfolding readify_def using h'(1) st by simp
    also have "\<dots> = (case active s of Some q \<Rightarrow> Some s' | None \<Rightarrow> map_option (\<lambda>s. s\<lparr>active := None\<rparr>) (deplete run s'))"
    proof (cases "active s")
      case None
      then have "queue_of s = []" by (simp add: queue_of_def)
      then show ?thesis using None s'(1) h'(2) unfolding e enter_ready_def by (simp add: map_option_case Option.bind_eq_Some_conv split: option.split)
    next
      case (Some q)
      then have "?s\<lparr>active := Some (queue_of s)\<rparr> = ?s" by (simp add: queue_of_def put_header_def)
      then show ?thesis using Some s'(1) h'(2) unfolding e enter_ready_def by simp
    qed
    finally have "promise_fulfill run h n s = (case active s of Some q \<Rightarrow> Some s' | None \<Rightarrow> map_option (\<lambda>s. s\<lparr>active := None\<rparr>) (deplete run s'))"
      unfolding f .
    then show ?thesis using True st s'(2,4) readied_put [OF s'(3)] by auto
  qed
qed

theorem promise_fulfill_correct_witness:
  "(\<exists>s'. promise_fulfill (\<lambda>_ _ _. None) 2 2 (pending_heap 1 (Body_proxy 10)) = Some s' \<and> future_ok one_each s' \<and>
      promise_fulfill (\<lambda>_ _ _. None) 2 1 s' = None) \<and>
   promise_fulfill (\<lambda>_ _ _. None) 2 3 (pending_heap 1 (Body_proxy 10)) = None \<and>
   (\<exists>s'. promise_fulfill (\<lambda>_ _ _. None) 2 2 ((pending_heap 1 (Body_proxy 10))\<lparr>active := None\<rparr>) =
      map_option (\<lambda>s. s\<lparr>active := None\<rparr>) (deplete (\<lambda>_ _ _. None) s') \<and> future_ok one_each s')"
proof -
  let ?h = "pending_heap 1 (Body_proxy 10)" and ?run = "\<lambda>_ _ _. None"
  note pr = pending_promise_def
  have ok: "future_ok one_each ?h" by (rule pending_heap_ok) simp_all
  have ok0: "future_ok one_each (?h\<lparr>active := None\<rparr>)" using ok by simp
  have h0: "headers (?h\<lparr>active := None\<rparr>) 2 = Some pending_promise" by (simp add: pending_heap_headers)
  obtain s' where s': "promise_fulfill ?run 2 2 ?h = Some s'" "future_ok one_each s'"
      "headers s' 2 = Some (pending_promise\<lparr>pro_meta := Some \<lparr>countdown = 0, deferred_decrements = 0\<rparr>, status := status_ready, sucs := []\<rparr>)"
    using promise_fulfill_correct [OF ok pending_heap_headers(1), of "\<lparr>countdown = 2, deferred_decrements = 0\<rparr>" 2 ?run]
    by (auto simp: pr pending_heap_headers)
  have "promise_fulfill ?run 2 1 s' = None"
    using promise_fulfill_correct [OF s'(2,3), of "\<lparr>countdown = 0, deferred_decrements = 0\<rparr>" 1 ?run] by (simp add: pr)
  moreover have "promise_fulfill ?run 2 3 ?h = None"
    using promise_fulfill_correct [OF ok pending_heap_headers(1), of "\<lparr>countdown = 2, deferred_decrements = 0\<rparr>" 3 ?run] by (simp add: pr)
  moreover have "\<exists>s'. promise_fulfill ?run 2 2 (?h\<lparr>active := None\<rparr>) =
      map_option (\<lambda>s. s\<lparr>active := None\<rparr>) (deplete ?run s') \<and> future_ok one_each s'"
    using promise_fulfill_correct [OF ok0 h0, of "\<lparr>countdown = 2, deferred_decrements = 0\<rparr>" 2 ?run] by (auto simp: pr)
  ultimately show ?thesis using s'(1,2) by blast
qed

subsection \<open>Dropping references\<close>

lemma future_okD:
  assumes "future_ok ext s"
  shows "refs_eq ext s" "wait_ok s" "sucs_ok s"
  using assms by (simp_all add: future_ok_def)


lemma future_ok_ref:
  assumes ok: "future_ok ext s" and h: "headers s h = Some a" "0 \<le> ref_n a"
  shows "future_ok (bump ext h n) (put_header h (a\<lparr>ref_n := ref_n a + n\<rparr>) s)"
proof -
  have "refs_eq (bump ext h n) (put_header h (a\<lparr>ref_n := ref_n a + n\<rparr>) s)"
    using refs_put_header [OF future_okD(1) [OF ok] h(1), of n "a\<lparr>ref_n := ref_n a + n\<rparr>"] h(2) by (simp add: self_ref_def)
  moreover have "wait_ok (put_header h (a\<lparr>ref_n := ref_n a + n\<rparr>) s)"
    by (rule wait_ok_put [OF future_okD(2) [OF ok] h(1)]) simp_all
  moreover have "sucs_ok (put_header h (a\<lparr>ref_n := ref_n a + n\<rparr>) s)"
    by (rule sucs_ok_same [OF future_okD(3) [OF ok]]) (auto simp: put_header_def h(1))
  ultimately show ?thesis by (simp add: future_ok_def)
qed

lemma future_ok_delete:
  assumes ok: "future_ok ext s" and h: "headers s h = Some a" "ref_n a = 0" "self_ref a = 0" "sucs a = []"
  shows "future_ok (if is_dependent a then case slot a of Result_of x \<Rightarrow> bump ext x 1 | _ \<Rightarrow> ext else ext) (delete_header h s)"
proof -
  have nw: "link_suc k \<noteq> Some h" if "links s l = Some k" for l k
  proof
    assume k: "link_suc k = Some h"
    then have d: "is_dependent a" using wait_okD(1) [OF future_okD(2) [OF ok] that] h(1) by auto
    have "0 < waiting s h" using waiting_pos [OF refs_eqD(2) [OF future_okD(1) [OF ok]] that k] .
    then show False using wait_okD(2) [OF future_okD(2) [OF ok] h(1) d] h(3) d by (auto simp: self_ref_def status_waits_def status_defs)
  qed
  have wt: "waiting (delete_header h s) = waiting s" by (simp add: waiting_def delete_header_def fun_eq_iff)
  have "wait_ok (delete_header h s)"
  proof (rule wait_okI)
    show "\<exists>b. headers (delete_header h s) x = Some b \<and> is_dependent b" if "links (delete_header h s) l = Some k" "link_suc k = Some x" for l k x
      using that wait_okD(1) [OF future_okD(2) [OF ok], of l k x] nw [of l k] by (auto simp: delete_header_def)
    show "status_waits (status b) (waiting (delete_header h s) x)" if "headers (delete_header h s) x = Some b" "is_dependent b" for x b
      using that wait_okD(2) [OF future_okD(2) [OF ok], of x b] unfolding wt by (auto simp: delete_header_def split: if_splits)
  qed
  moreover have "sucs_ok (delete_header h s)"
    by (rule sucs_ok_delete [OF future_okD(3) [OF ok] h(1,4)]) (simp_all add: delete_header_def)
  ultimately show ?thesis using refs_delete_header [OF future_okD(1) [OF ok] h(1-3)] by (simp add: future_ok_def)
qed

text \<open>A header of the kind that holds its own values, as \<open>delete_me\<close> expects it.\<close>

definition own_values :: "hptr \<Rightarrow> 'v future_header \<Rightarrow> bool" where
  "own_values h a \<longleftrightarrow> \<not> is_dependent a \<and> slot a = Result_of h \<and>
     (status a = status_ready \<or> status a = status_results_yes \<longrightarrow> results a \<noteq> None)"

lemma result_ready_dropref_ok:
  assumes ok: "future_ok ext s" and h: "headers s h = Some a" "\<not> is_dependent a" "results a \<noteq> None"
    and n: "ref_n a < 0 \<or> 1 < ref_n a \<or> ref_n a = 1 \<and> sucs a = []"
  shows "\<exists>s'. result_ready_dropref h s = Some s' \<and> future_ok (bump ext h (- 1)) s' \<and> (\<forall>x. x \<noteq> h \<longrightarrow> headers s' x = headers s x) \<and>
     links s' = links s \<and> bodies s' = bodies s \<and> active s' = active s \<and> (headers s' h = None \<longleftrightarrow> ref_n a = 1)"
proof (cases "ref_n a < 0")
  case True
  then have "refs_eq (bump ext h (- 1)) s" by (rule refs_static [OF future_okD(1) [OF ok] h(1)])
  then have "future_ok (bump ext h (- 1)) s" using ok by (simp add: future_ok_def)
  then show ?thesis using True h by (auto simp: result_ready_dropref_def decref_def)
next
  case False
  let ?s = "put_header h (a\<lparr>ref_n := ref_n a - 1\<rparr>) s"
  have ok1: "future_ok (bump ext h (- 1)) ?s" using future_ok_ref [OF ok h(1), of "- 1"] False by simp
  have h1: "headers ?s h = Some (a\<lparr>ref_n := ref_n a - 1\<rparr>)" by (simp add: put_header_def)
  show ?thesis
  proof (cases "ref_n a = 1")
    case True
    have "future_ok (bump ext h (- 1)) (delete_header h ?s)"
      using future_ok_delete [OF ok1 h1] n h(2) True by (simp add: self_ref_def)
    then show ?thesis using True h h1
      by (auto simp: result_ready_dropref_def decref_def delete_me_ready_def delete_header_def put_header_def)
  next
    case nz: False
    then show ?thesis using ok1 False n h by (auto simp: result_ready_dropref_def decref_def put_header_def)
  qed
qed

lemma count_pos:
  assumes ok: "future_ok ext s" and h: "headers s h = Some a" "0 \<le> ref_n a" and e: "1 \<le> ext h"
  shows "1 \<le> ref_n a" "ref_n a = 1 \<Longrightarrow> sucs a = [] \<and> self_ref a = 0"
proof -
  note re = refs_eqD [OF future_okD(1) [OF ok]]
  have c: "ref_n a = ext h + link_refs s h + result_refs s h + self_ref a" using re(4) [OF h(1)] h(2) by simp
  have nn: "0 \<le> link_refs s h" "0 \<le> result_refs s h" "0 \<le> self_ref a" by (simp_all add: link_refs_def result_refs_def self_ref_def)
  show "1 \<le> ref_n a" using c nn e by linarith
  assume "ref_n a = 1"
  then have z: "link_refs s h = 0" "self_ref a = 0" using c nn e by linarith+
  have "int (length (sucs a)) \<le> link_refs s h"
    using length_le_link_refs [OF re(2), of "sucs a" h] sucs_links [OF future_okD(3) [OF ok] h(1)] by blast
  then show "sucs a = [] \<and> self_ref a = 0" using z by simp
qed

text \<open>
  (C29) Dropping a reference keeps the counts exact and never leaks: the header is deleted exactly when the reference
  was the last one, and a ready dependent that is deleted gives back its reference to the header with its result.
\<close>

theorem general_dropref_correct:
  assumes ok: "future_ok ext s" and h: "headers s h = Some a" "0 \<le> ref_n a" "1 \<le> ext h"
    and v: "own_values h a \<or> is_dependent a \<and> (status a = status_ready \<longrightarrow>
        (\<exists>r c. slot a = Result_of r \<and> headers s r = Some c \<and> status c = status_ready \<and> own_values r c \<and> sucs c = [] \<and> 0 \<le> ext r))"
  shows "\<exists>s'. ops_dropref Ops_general nil h s = Some s' \<and> future_ok (bump ext h (- 1)) s' \<and> links s' = links s \<and>
     bodies s' = bodies s \<and> active s' = active s \<and> (headers s' h = None \<longleftrightarrow> ref_n a = 1)"
proof -
  let ?a = "a\<lparr>ref_n := ref_n a - 1\<rparr>"
  let ?s = "put_header h ?a s"
  have ok1: "future_ok (bump ext h (- 1)) ?s" using future_ok_ref [OF ok h(1,2), of "- 1"] by simp
  have h1: "headers ?s h = Some ?a" by (simp add: put_header_def)
  note p = count_pos [OF ok h]
  have op: "ops_dropref Ops_general nil h s = (if ref_n a = 1 then general_delete1 h ?s else Some ?s)"
    using h(1,2) by (simp add: ops_dropref_def decref_def)
  consider (keep) "ref_n a \<noteq> 1" | (own) "ref_n a = 1" "own_values h a" | (dep) "ref_n a = 1" "is_dependent a" using v by blast
  then show ?thesis
  proof cases
    case keep
    then show ?thesis using op ok1 by (simp add: put_header_def)
  next
    case own
    have "future_ok (bump ext h (- 1)) (delete_header h ?s)"
      using future_ok_delete [OF ok1 h1] p(2) own by (simp add: self_ref_def own_values_def)
    moreover have "general_delete1 h ?s = Some (delete_header h ?s)"
      using own h1 by (auto simp: general_delete1_def delete_me_ready_def delete_me_def own_values_def)
    ultimately show ?thesis using op own by (simp add: put_header_def delete_header_def)
  next
    case dep
    then have rd: "status a = status_ready" using p(2) by (auto simp: self_ref_def split: if_splits)
    then obtain r c where r: "slot a = Result_of r" "headers s r = Some c" "own_values r c" "sucs c = []" "0 \<le> ext r" "status c = status_ready"
      using v dep(2) by (auto simp: own_values_def)
    have hr: "h \<noteq> r" using h(1) r dep(2) by (auto simp: own_values_def)
    have r1: "headers ?s r = Some c" using hr r(2) by (simp add: put_header_def)
    have "0 < result_refs ?s r"
      unfolding result_refs_def using pcount_pos [OF refs_eqD(1) [OF future_okD(1) [OF ok1]] h1] dep(2) r(1) by simp
    moreover have "0 \<le> link_refs ?s r" "0 \<le> self_ref c" by (simp_all add: link_refs_def self_ref_def)
    ultimately have "ref_n c < 0 \<or> 1 \<le> ref_n c"
      using refs_eqD(4) [OF future_okD(1) [OF ok1] r1] r(5) hr by auto
    then have "ref_n c < 0 \<or> 1 < ref_n c \<or> ref_n c = 1 \<and> sucs c = []" using r(4) by linarith
    then obtain s2 where s2: "result_ready_dropref r ?s = Some s2" "future_ok (bump (bump ext h (- 1)) r (- 1)) s2"
        "\<forall>x. x \<noteq> r \<longrightarrow> headers s2 x = headers ?s x" "links s2 = links ?s" "bodies s2 = bodies ?s" "active s2 = active ?s"
      using result_ready_dropref_ok [OF ok1 r1] r(3,6) unfolding own_values_def by blast
    have h2: "headers s2 h = Some ?a" using s2(3) hr h1 by simp
    have "future_ok (bump (bump (bump ext h (- 1)) r (- 1)) r 1) (delete_header h s2)"
      using future_ok_delete [OF s2(2) h2] p(2) dep r(1) by (simp add: self_ref_def)
    moreover have "bump (bump (bump ext h (- 1)) r (- 1)) r 1 = bump ext h (- 1)" by (simp add: fun_eq_iff)
    ultimately have "future_ok (bump ext h (- 1)) (delete_header h s2)" by simp
    moreover have "general_delete1 h ?s = Some (delete_header h s2)"
      using h1 rd r(1) hr s2(1) h2 dep(2) by (simp add: general_delete1_def delete_dependent_def)
    ultimately show ?thesis using op dep(1) s2(4-6) by (simp add: put_header_def delete_header_def)
  qed
qed

theorem general_dropref_correct_witness:
  "\<exists>s'. ops_dropref Ops_general True 3 ready_heap = Some s' \<and> future_ok (bump one_each 3 (- 1)) s' \<and> headers s' 3 = None"
  using general_dropref_correct [OF ready_heap_ok ready_heap_headers(2), of True] ready_heap_headers(1)
  by (auto simp: ready_dependent_def ready_result_def one_each_def own_values_def)

subsection \<open>Registering a successor\<close>




subsection \<open>Proxies\<close>

lemma future_ok_drop_link:
  assumes ok: "future_ok ext s" and l: "links s l = Some k" "link_suc k = None"
  shows "future_ok (bump ext (link_dep k) 1) (delete_links [l] s)"
proof -
  have e: "links (delete_links [l] s) = (links s)(l := None)" "headers (delete_links [l] s) = headers s"
    by (auto simp: delete_links_def)
  have wt: "waiting (delete_links [l] s) = waiting s"
    using l by (simp add: waiting_def e fun_eq_iff pcount_del [OF refs_eqD(2) [OF future_okD(1) [OF ok]]])
  have "wait_ok (delete_links [l] s)"
    using wait_okD [OF future_okD(2) [OF ok]] by (intro wait_okI) (auto simp: wt e(1) e(2) split: if_splits)
  moreover have "sucs_ok (delete_links [l] s)"
    unfolding sucs_ok_def e using sucs_okD [OF future_okD(3) [OF ok]] l by auto
  ultimately show ?thesis using refs_delete_link [OF future_okD(1) [OF ok] l(1)] by (simp add: future_ok_def)
qed

lemma future_ok_bodies: "future_ok ext s \<Longrightarrow> future_ok ext (s\<lparr>bodies := B\<rparr>)"
  by (auto simp: future_ok_def refs_eq_def link_refs_def result_refs_def wait_ok_def waiting_def sucs_ok_def cong: option.case_cong)

text \<open>
  A proxy whose proxied header is ready becomes ready with the same result when it leaves the active queue: the
  reference of its body moves to its result, its successors get the result, and the body is gone.
\<close>

theorem leave_active_proxy_correct:
  assumes ok: "future_ok ext s" and h: "headers s h = Some a" "is_dependent a" "status a = status_proxying_active"
      "slot a = Body_of b" "0 \<le> ref_n a" "0 \<le> ext h" "2 \<le> ref_n a"
    and b: "bodies s b = Some (Body_proxy l)" "links s l = Some k" "link_suc k = None"
    and r: "headers s (link_dep k) = Some c" "\<not> is_dependent c"
    and q: "active s = Some q"
  shows "\<exists>s'. leave_active run h s = Some s' \<and> future_ok ext s' \<and> links s' l = None \<and> bodies s' = (bodies s)(b := None) \<and>
     (headers s' h = None \<or> (\<exists>a'. headers s' h = Some a' \<and> status a' = status_ready \<and> slot a' = Result_of (link_dep k) \<and> sucs a' = []))"
proof -
  let ?r = "link_dep k"
  let ?a = "a\<lparr>ref_n := ref_n a - 1\<rparr>"
  have hr: "h \<noteq> ?r" using h r by auto
  define s1 where "s1 = put_header h ?a s"
  define s2 where "s2 = delete_links [l] s1"
  define s3 where "s3 = s2\<lparr>bodies := (bodies s)(b := None)\<rparr>"
  have ok1: "future_ok (bump ext h (- 1)) s1" using future_ok_ref [OF ok h(1,5), of "- 1"] by (simp add: s1_def)
  have l1: "links s1 l = Some k" using b(2) by (simp add: s1_def put_header_def)
  have ok3: "future_ok (bump (bump ext h (- 1)) ?r 1) s3"
    unfolding s3_def s2_def by (rule future_ok_bodies [OF future_ok_drop_link [OF ok1 l1 b(3)]])
  have h3: "headers s3 h = Some ?a" "headers s3 ?r = Some c" "active s3 = Some q"
    using hr r q by (simp_all add: s3_def s2_def s1_def delete_links_def put_header_def)
  have "status_waits (status ?a) (waiting s3 h)"
    using wait_okD(2) [OF future_okD(2) [OF ok3] h3(1)] h(2) by simp
  then have w: "waiting s3 h = 0" using h(3) by (simp add: status_waits_def status_defs)
  have db: "delete_body b s1 = s3"
    using b(1) by (simp add: delete_body_def s3_def s2_def s1_def put_header_def delete_links_def)
  obtain s' where s': "enter_ready_queued h ?r s3 = Some s'" "future_ok (shift (bump (bump ext h (- 1)) ?r 1) h ?r 1) s'"
      "readied h ?r (sucs ?a) s3 s'"
      "headers s' h = None \<or> (\<exists>a'. headers s' h = Some a' \<and> status a' = status_ready \<and> slot a' = Result_of ?r \<and> sucs a' = [])"
    using enter_ready_dependent [OF ok3 h3(1) _ _ _ w _ h3(2) r(2) _ h3(3), of b] h(2,3,4,6,7) hr by (auto simp: status_defs)
  have "shift (bump (bump ext h (- 1)) ?r 1) h ?r 1 = ext" using hr by (auto simp: shift_def fun_eq_iff)
  moreover have "leave_active run h s = Some s'"
    using h(1,4,7) b(1,2) s'(1) db by (simp add: leave_active_def leave_active_proxy_def decref_fast_def s1_def)
  moreover have "links s' l = None" "bodies s' = (bodies s)(b := None)"
  proof -
    have "l \<notin> set (sucs a)"
      using sucs_links [OF future_okD(3) [OF ok] h(1)] b(2,3) by auto
    then show "links s' l = None" "bodies s' = (bodies s)(b := None)"
      using s'(3) by (auto simp: readied_def settled_def s3_def s2_def delete_links_def)
  qed
  ultimately show ?thesis using s'(2,4) by auto
qed

text \<open>A proxy 3 of the ready header 2.\<close>

definition proxied_heap :: "int fheap" where
  "proxied_heap =
     \<lparr>headers = [2 \<mapsto> ready_result, 3 \<mapsto> pending_dependent status_proxying_active],
      links = [10 \<mapsto> \<lparr>link_dep = 2, link_suc = None\<rparr>], bodies = [20 \<mapsto> Body_proxy 10], fresh = 30, active = Some []\<rparr>"

lemma proxied_heap_headers:
  "headers proxied_heap 2 = Some ready_result" "headers proxied_heap 3 = Some (pending_dependent status_proxying_active)"
  "active proxied_heap = Some []" "bodies proxied_heap 20 = Some (Body_proxy 10)"
  "links proxied_heap 10 = Some \<lparr>link_dep = 2, link_suc = None\<rparr>"
  by (simp_all add: proxied_heap_def)

lemma proxied_heap_ok: "future_ok one_each proxied_heap"
proof -
  have "refs_eq one_each proxied_heap"
    by (intro refs_eqI)
      (auto simp: proxied_heap_def example_heaps link_refs_def result_refs_def self_ref_def pcount_upd status_defs split: if_splits)
  moreover have "wait_ok proxied_heap"
    by (intro wait_okI)
      (auto simp: proxied_heap_def example_heaps waiting_def status_waits_def pcount_upd status_defs split: if_splits)
  moreover have "sucs_ok proxied_heap"
    unfolding sucs_ok_def by (auto simp: proxied_heap_def example_heaps split: if_splits)
  ultimately show ?thesis by (simp add: future_ok_def)
qed

theorem leave_active_proxy_correct_witness:
  "\<exists>s'. leave_active (\<lambda>_ _ _. None) 3 proxied_heap = Some s' \<and> future_ok one_each s'"
  using leave_active_proxy_correct
    [OF proxied_heap_ok proxied_heap_headers(2) _ _ _ _ _ _ proxied_heap_headers(4,5) _ _ _ proxied_heap_headers(3),
     of ready_result "\<lambda>_ _ _. None"]
  by (auto simp: pending_dependent_def proxied_heap_headers ready_result_def one_each_def)


end
