(* ===== verification/Persona.thy ===== *)
theory Persona
  imports Future_Engine
begin

text \<open>
  Component personas (src/persona.hpp, src/lpc.hpp, src/lpc_dormant.hpp): the stack of persona scopes of each thread,
  the inboxes of each persona, and the delivery of local procedure calls and deferred promises. Objects live
  at addresses; a pointer kept as an exclusive or with another address is kept so here. An inbox is the
  list of its calls, which the theories on intrusive queues justify. The result \<open>None\<close> is a failed
  assertion, a dangling address, or a lock that is not free.
\<close>

subsection \<open>State\<close>

datatype progress_level = Internal | User

definition level_bit :: "progress_level \<Rightarrow> u32" where
  "level_bit lev = (case lev of Internal \<Rightarrow> 1 | User \<Rightarrow> 2)"

text \<open>
  What an inbox holds: a user function, the call made by \<open>persona::lpc\<close> (initiator, promise, user function), a
  promise with deferred decrements, and a woken dormant call with its arguments.
\<close>

datatype 'v lpc_base =
    Lpc_fn nat
  | Lpc_execute u64 hptr nat
  | Lpc_promise hptr
  | Lpc_woken nat "'v list"

record 'v persona =
  owner_xor_this :: u64
  peer_inbox :: "progress_level \<Rightarrow> 'v lpc_base list"
  self_inbox :: "progress_level \<Rightarrow> 'v lpc_base list"
  pros_deferred_trivial :: "'v lpc_base list"
  undischarged_n :: int

record persona_scope_raw =
  next_scope :: u64
  persona_xor_default :: u64
  next_unique :: u64
  scope_tls :: nat
  scope_lock :: u64
  restore_top_persona :: u64
  unlocker :: bool

record persona_tls =
  progressing_add_1 :: int
  burstable_bits :: u32
  is_primordial_thread :: bool
  default_persona :: u64
  default_scope_raw :: u64
  top_xor_default :: u64
  top_unique_xor_default :: u64
  top_persona_xor_default :: u64

text \<open>The whole program: the future heap, objects by address, the threads, the mutexes that are held, and two
  settings of the runtime that \<open>activate\<close> reads.\<close>

record 'v pworld =
  heap :: "'v fheap"
  personas :: "u64 \<rightharpoonup> 'v persona"
  scopes :: "u64 \<rightharpoonup> persona_scope_raw"
  threads :: "nat \<rightharpoonup> persona_tls"
  lock_held :: "u64 \<Rightarrow> bool"
  threadmode_seq :: bool
  master_persona :: u64

definition put_persona :: "u64 \<Rightarrow> 'v persona \<Rightarrow> 'v pworld \<Rightarrow> 'v pworld" where
  "put_persona p per w = w\<lparr>personas := (personas w)(p \<mapsto> per)\<rparr>"

definition put_scope :: "u64 \<Rightarrow> persona_scope_raw \<Rightarrow> 'v pworld \<Rightarrow> 'v pworld" where
  "put_scope sc x w = w\<lparr>scopes := (scopes w)(sc \<mapsto> x)\<rparr>"

definition delete_scope :: "u64 \<Rightarrow> 'v pworld \<Rightarrow> 'v pworld" where
  "delete_scope sc w = w\<lparr>scopes := (scopes w)(sc := None)\<rparr>"

definition put_tls :: "nat \<Rightarrow> persona_tls \<Rightarrow> 'v pworld \<Rightarrow> 'v pworld" where
  "put_tls t x w = w\<lparr>threads := (threads w)(t \<mapsto> x)\<rparr>"

subsection \<open>Construction and encoded fields\<close>

definition default_persona_init :: "'v persona" where
  "default_persona_init =
     \<lparr>owner_xor_this = 0, peer_inbox = \<lambda>_. [], self_inbox = \<lambda>_. [], pros_deferred_trivial = [], undischarged_n = 0\<rparr>"

definition persona_init :: "u64 \<Rightarrow> 'v persona" where
  "persona_init this =
     \<lparr>owner_xor_this = this, peer_inbox = \<lambda>_. [], self_inbox = \<lambda>_. [], pros_deferred_trivial = [], undischarged_n = 0\<rparr>"

definition persona_scope_raw_init :: persona_scope_raw where
  "persona_scope_raw_init =
     \<lparr>next_scope = 0, persona_xor_default = 0, next_unique = 0, scope_tls = 0, scope_lock = 0,
      restore_top_persona = 0, unlocker = False\<rparr>"

definition persona_tls_init :: "u64 \<Rightarrow> u64 \<Rightarrow> persona_tls" where
  "persona_tls_init dp ds =
     \<lparr>progressing_add_1 = 0, burstable_bits = 0, is_primordial_thread = False, default_persona = dp,
      default_scope_raw = ds, top_xor_default = 0, top_unique_xor_default = 0, top_persona_xor_default = 0\<rparr>"

definition get_progressing :: "persona_tls \<Rightarrow> int" where
  "get_progressing tls = progressing_add_1 tls - 1"

definition set_progressing :: "int \<Rightarrow> persona_tls \<Rightarrow> persona_tls" where
  "set_progressing v tls = tls\<lparr>progressing_add_1 := v + 1\<rparr>"

definition is_burstable :: "progress_level \<Rightarrow> persona_tls \<Rightarrow> bool" where
  "is_burstable lev tls \<longleftrightarrow> (burstable_bits tls OR 1) AND level_bit lev \<noteq> 0"

definition flip_burstable :: "progress_level \<Rightarrow> persona_tls \<Rightarrow> persona_tls" where
  "flip_burstable lev tls = tls\<lparr>burstable_bits := burstable_bits tls XOR level_bit lev\<rparr>"

definition get_top_scope :: "persona_tls \<Rightarrow> u64" where
  "get_top_scope tls = top_xor_default tls XOR default_scope_raw tls"

definition set_top_scope :: "u64 \<Rightarrow> persona_tls \<Rightarrow> persona_tls" where
  "set_top_scope v tls = tls\<lparr>top_xor_default := default_scope_raw tls XOR v\<rparr>"

definition get_top_unique_scope :: "persona_tls \<Rightarrow> u64" where
  "get_top_unique_scope tls = top_unique_xor_default tls XOR default_scope_raw tls"

definition set_top_unique_scope :: "u64 \<Rightarrow> persona_tls \<Rightarrow> persona_tls" where
  "set_top_unique_scope v tls = tls\<lparr>top_unique_xor_default := default_scope_raw tls XOR v\<rparr>"

definition get_top_persona :: "persona_tls \<Rightarrow> u64" where
  "get_top_persona tls = top_persona_xor_default tls XOR default_persona tls"

definition set_top_persona :: "u64 \<Rightarrow> persona_tls \<Rightarrow> persona_tls" where
  "set_top_persona v tls = tls\<lparr>top_persona_xor_default := default_persona tls XOR v\<rparr>"

definition get_owner :: "u64 \<Rightarrow> 'v persona \<Rightarrow> u64" where
  "get_owner this per = owner_xor_this per XOR this"

definition set_owner :: "u64 \<Rightarrow> u64 \<Rightarrow> 'v persona \<Rightarrow> 'v persona" where
  "set_owner this v per = per\<lparr>owner_xor_this := v XOR this\<rparr>"

definition active_with_caller :: "persona_tls \<Rightarrow> u64 \<Rightarrow> 'v persona \<Rightarrow> bool" where
  "active_with_caller tls this per \<longleftrightarrow> get_owner this per = default_persona tls"

definition persona_active :: "u64 \<Rightarrow> 'v persona \<Rightarrow> bool" where
  "persona_active this per \<longleftrightarrow> get_owner this per \<noteq> 0"

definition get_persona :: "persona_tls \<Rightarrow> persona_scope_raw \<Rightarrow> u64" where
  "get_persona tls sc = persona_xor_default sc XOR default_persona tls"

definition set_persona :: "u64 \<Rightarrow> persona_tls \<Rightarrow> persona_scope_raw \<Rightarrow> persona_scope_raw" where
  "set_persona v tls sc = sc\<lparr>persona_xor_default := v XOR default_persona tls\<rparr>"

subsection \<open>Scopes\<close>

text \<open>Scopes are built at the address \<open>sc\<close> by the thread \<open>t\<close>.\<close>

definition persona_scope_redundant :: "nat \<Rightarrow> u64 \<Rightarrow> u64 \<Rightarrow> 'v pworld \<Rightarrow> 'v pworld option" where
  "persona_scope_redundant t sc p w =
     do {
       tls \<leftarrow> threads w t;
       let x = (set_persona p tls persona_scope_raw_init)
                 \<lparr>scope_tls := t, next_scope := get_top_scope tls, restore_top_persona := get_top_persona tls\<rparr>;
       Some (put_tls t (set_top_persona p (set_top_scope sc tls)) (put_scope sc x w))
     }"

definition persona_scope_redundant_destroy :: "u64 \<Rightarrow> 'v pworld \<Rightarrow> 'v pworld option" where
  "persona_scope_redundant_destroy sc w =
     do {
       x \<leftarrow> scopes w sc;
       tls \<leftarrow> threads w (scope_tls x);
       if sc \<noteq> get_top_scope tls then None
       else Some (delete_scope sc
              (put_tls (scope_tls x) (set_top_persona (restore_top_persona x) (set_top_scope (next_scope x) tls)) w))
     }"

definition activate :: "nat \<Rightarrow> u64 \<Rightarrow> u64 \<Rightarrow> 'v pworld \<Rightarrow> 'v pworld option" where
  "activate t sc p w =
     do {
       tls \<leftarrow> threads w t;
       per \<leftarrow> personas w p;
       x \<leftarrow> scopes w sc;
       let was_active = persona_active p per;
       if was_active \<and> \<not> active_with_caller tls p per then None
       else if threadmode_seq w \<and> p = master_persona w \<and> \<not> is_primordial_thread tls then None
       else
         let x = set_persona p tls x;
             per = set_owner p (default_persona tls) per;
             x = x\<lparr>next_scope := get_top_scope tls\<rparr>;
             tls' = set_top_persona p (set_top_scope sc tls);
             x = x\<lparr>next_unique := if \<not> was_active then get_top_unique_scope tls else 1\<rparr>;
             tls' = (if \<not> was_active then set_top_unique_scope sc tls' else tls')
         in Some (put_tls t tls' (put_persona p per (put_scope sc x w)))
     }"

definition persona_scope :: "nat \<Rightarrow> u64 \<Rightarrow> u64 \<Rightarrow> 'v pworld \<Rightarrow> 'v pworld option" where
  "persona_scope t sc p w =
     activate t sc p (put_scope sc (persona_scope_raw_init\<lparr>scope_lock := 0, unlocker := False\<rparr>) w)"

definition persona_scope_locked :: "nat \<Rightarrow> u64 \<Rightarrow> u64 \<Rightarrow> u64 \<Rightarrow> 'v pworld \<Rightarrow> 'v pworld option" where
  "persona_scope_locked t sc lock p w =
     (if lock_held w lock then None
      else activate t sc p
             (put_scope sc (persona_scope_raw_init\<lparr>scope_lock := lock, unlocker := True\<rparr>)
               (w\<lparr>lock_held := (lock_held w)(lock := True)\<rparr>)))"

definition persona_scope_destroy :: "nat \<Rightarrow> u64 \<Rightarrow> 'v pworld \<Rightarrow> 'v pworld option" where
  "persona_scope_destroy t sc w =
     do {
       x \<leftarrow> scopes w sc;
       if next_scope x = 1 then Some (delete_scope sc w)
       else
         do {
           tls \<leftarrow> threads w t;
           if sc \<noteq> get_top_scope tls then None
           else
             do {
               nx \<leftarrow> scopes w (next_scope x);
               let tls' = set_top_persona (get_persona tls nx) (set_top_scope (next_scope x) tls);
               w \<leftarrow> (if next_unique x \<noteq> 1 then
                       do { per \<leftarrow> personas w (get_persona tls x);
                            Some (put_tls t (set_top_unique_scope (next_unique x) tls')
                              (put_persona (get_persona tls x) (set_owner (get_persona tls x) 0 per) w)) }
                     else Some (put_tls t tls' w));
               let w = (if unlocker x then w\<lparr>lock_held := (lock_held w)(scope_lock x := False)\<rparr> else w);
               Some (delete_scope sc w)
             }
         }
     }"

definition persona_scope_move :: "u64 \<Rightarrow> u64 \<Rightarrow> 'v pworld \<Rightarrow> 'v pworld option" where
  "persona_scope_move this that w =
     do { x \<leftarrow> scopes w that; Some (put_scope that (x\<lparr>next_scope := 1\<rparr>) (put_scope this x w)) }"

definition current_persona :: "nat \<Rightarrow> 'v pworld \<Rightarrow> u64 option" where
  "current_persona t w = do { tls \<leftarrow> threads w t; Some (get_top_persona tls) }"

text \<open>\<open>dummy\<close> is the address of \<open>the_default_dummy_\<close>, which stands for the default scope of every thread.\<close>

definition top_persona_scope :: "u64 \<Rightarrow> nat \<Rightarrow> 'v pworld \<Rightarrow> u64 option" where
  "top_persona_scope dummy t w =
     do { tls \<leftarrow> threads w t;
          Some (if get_top_scope tls = default_scope_raw tls then dummy else get_top_scope tls) }"

end
