(* ===== verification/Persona_Lpc.thy ===== *)
theory Persona_Lpc
  imports Persona
begin

text \<open>
  Component personas, delivery (the operations of \<open>persona_tls\<close> in src/persona.hpp, the inboxes of src/lpc.hpp and
  the dormant calls of src/lpc_dormant.hpp). User code is a parameter \<open>user\<close>: thread, number of the function,
  arguments and world give its results and the world it leaves; \<open>run\<close> are the callbacks of futures. A lambda
  that returns a future instead of plain values is outside the model. The addresses of the temporary
  scopes on the C++ stack are an argument \<open>sc\<close>, and \<open>trivial\<close> says which promises have only trivially
  destructible values.
\<close>

type_synonym 'v user_code = "nat \<Rightarrow> nat \<Rightarrow> 'v list \<Rightarrow> 'v pworld \<Rightarrow> ('v list \<times> 'v pworld) option"

subsection \<open>Inboxes\<close>

definition enqueue_self :: "u64 \<Rightarrow> progress_level \<Rightarrow> 'v lpc_base \<Rightarrow> 'v pworld \<Rightarrow> 'v pworld option" where
  "enqueue_self p lev m w =
     do { per \<leftarrow> personas w p;
          Some (put_persona p (per\<lparr>self_inbox := (self_inbox per)(lev := self_inbox per lev @ [m])\<rparr>) w) }"

definition enqueue_peer :: "u64 \<Rightarrow> progress_level \<Rightarrow> 'v lpc_base \<Rightarrow> 'v pworld \<Rightarrow> 'v pworld option" where
  "enqueue_peer p lev m w =
     do { per \<leftarrow> personas w p;
          Some (put_persona p (per\<lparr>peer_inbox := (peer_inbox per)(lev := peer_inbox per lev @ [m])\<rparr>) w) }"

definition enqueue_deferred :: "u64 \<Rightarrow> 'v lpc_base \<Rightarrow> 'v pworld \<Rightarrow> 'v pworld option" where
  "enqueue_deferred p m w =
     do { per \<leftarrow> personas w p;
          Some (put_persona p (per\<lparr>pros_deferred_trivial := pros_deferred_trivial per @ [m]\<rparr>) w) }"

definition is_active_with :: "nat \<Rightarrow> u64 \<Rightarrow> 'v pworld \<Rightarrow> bool option" where
  "is_active_with t p w =
     do { tls \<leftarrow> threads w t; per \<leftarrow> personas w p; Some (active_with_caller tls p per) }"

text \<open>\<open>persona_tls::enqueue\<close>.\<close>

definition tls_enqueue :: "nat \<Rightarrow> u64 \<Rightarrow> progress_level \<Rightarrow> 'v lpc_base \<Rightarrow> bool \<Rightarrow> 'v pworld \<Rightarrow> 'v pworld option" where
  "tls_enqueue t p lev m known_active w =
     do { a \<leftarrow> is_active_with t p w;
          if known_active \<or> a then enqueue_self p lev m w else enqueue_peer p lev m w }"

definition persona_defer :: "nat \<Rightarrow> u64 \<Rightarrow> progress_level \<Rightarrow> nat \<Rightarrow> bool \<Rightarrow> 'v pworld \<Rightarrow> 'v pworld option" where
  "persona_defer t p lev fn known_active w =
     do { a \<leftarrow> is_active_with t p w;
          if known_active \<or> a then enqueue_self p lev (Lpc_fn fn) w else enqueue_peer p lev (Lpc_fn fn) w }"

definition lpc_ff :: "nat \<Rightarrow> u64 \<Rightarrow> 'v lpc_base \<Rightarrow> 'v pworld \<Rightarrow> 'v pworld option" where
  "lpc_ff t p m w =
     do { a \<leftarrow> is_active_with t p w;
          if a then enqueue_self p User m w else enqueue_peer p User m w }"

definition persona_lpc :: "nat \<Rightarrow> u64 \<Rightarrow> nat \<Rightarrow> nat \<Rightarrow> 'v pworld \<Rightarrow> ('v fut \<times> 'v pworld) option" where
  "persona_lpc t p fn n w =
     do {
       tls \<leftarrow> threads w t;
       (pro, s) \<leftarrow> new_promise n 1 (heap w);
       (ans, s) \<leftarrow> promise_get_future pro s;
       w \<leftarrow> lpc_ff t p (Lpc_execute (get_top_persona tls) pro fn) (w\<lparr>heap := s\<rparr>);
       Some (ans, w)
     }"

definition enqueue_quiesced_promise ::
  "(hptr \<Rightarrow> bool) \<Rightarrow> nat \<Rightarrow> u64 \<Rightarrow> progress_level \<Rightarrow> hptr \<Rightarrow> int \<Rightarrow> bool \<Rightarrow> 'v pworld \<Rightarrow> 'v pworld option" where
  "enqueue_quiesced_promise trivial t target lev pro result_plus_anon known_active w =
     do {
       m \<leftarrow> get_meta pro (heap w);
       if deferred_decrements m \<noteq> 0 then None
       else
         do {
           s \<leftarrow> put_meta pro (m\<lparr>deferred_decrements := result_plus_anon\<rparr>) (heap w);
           let w = w\<lparr>heap := s\<rparr>;
           a \<leftarrow> is_active_with t target w;
           if known_active \<or> a then
             if lev = User \<and> trivial pro then enqueue_deferred target (Lpc_promise pro) w
             else enqueue_self target lev (Lpc_promise pro) w
           else enqueue_peer target lev (Lpc_promise pro) w
         }
     }"

definition fulfill_during_user_of_active ::
  "(hptr \<Rightarrow> bool) \<Rightarrow> nat \<Rightarrow> u64 \<Rightarrow> hptr \<Rightarrow> int \<Rightarrow> 'v pworld \<Rightarrow> 'v pworld option" where
  "fulfill_during_user_of_active trivial t p pro deps w =
     do {
       a \<leftarrow> is_active_with t p w;
       if \<not> a then None
       else
         do {
           m \<leftarrow> get_meta pro (heap w);
           s \<leftarrow> put_meta pro (m\<lparr>deferred_decrements := deferred_decrements m + deps\<rparr>) (heap w);
           if deps = deferred_decrements m + deps then
             if trivial pro then enqueue_deferred p (Lpc_promise pro) (w\<lparr>heap := s\<rparr>)
             else enqueue_self p User (Lpc_promise pro) (w\<lparr>heap := s\<rparr>)
           else do { s \<leftarrow> ops_dropref Ops_promise False pro s; Some (w\<lparr>heap := s\<rparr>) }
         }
     }"

subsection \<open>Execution\<close>

definition execute_and_delete ::
  "'v callbacks \<Rightarrow> 'v user_code \<Rightarrow> (hptr \<Rightarrow> bool) \<Rightarrow> nat \<Rightarrow> 'v lpc_base \<Rightarrow> 'v pworld \<Rightarrow> 'v pworld option" where
  "execute_and_delete run user trivial t m w =
     (case m of
        Lpc_fn fn \<Rightarrow> do { (_, w) \<leftarrow> user t fn [] w; Some w }
      | Lpc_execute initiator pro fn \<Rightarrow>
          do { (vs, w) \<leftarrow> user t fn [] w;
               s \<leftarrow> construct_results pro vs (heap w);
               enqueue_quiesced_promise trivial t initiator User pro 1 False (w\<lparr>heap := s\<rparr>) }
      | Lpc_promise pro \<Rightarrow> do { s \<leftarrow> fulfill_deferred_and_drop run pro (heap w); Some (w\<lparr>heap := s\<rparr>) }
      | Lpc_woken fn vs \<Rightarrow> do { (_, w) \<leftarrow> user t fn vs w; Some w })"

text \<open>\<open>exec\<close> executes one call.\<close>

type_synonym 'v executor = "'v lpc_base \<Rightarrow> 'v pworld \<Rightarrow> 'v pworld option"

fun exec_all :: "'v executor \<Rightarrow> 'v lpc_base list \<Rightarrow> 'v pworld \<Rightarrow> 'v pworld option" where
  "exec_all exec [] w = Some w"
| "exec_all exec (m # ms) w = do { w \<leftarrow> exec m w; exec_all exec ms w }"

text \<open>The queue without thread safety is detached before it runs; what is left goes in front of what was
  added meanwhile.\<close>

definition burst_self :: "'v executor \<Rightarrow> u64 \<Rightarrow> progress_level \<Rightarrow> nat \<Rightarrow> 'v pworld \<Rightarrow> (nat \<times> 'v pworld) option" where
  "burst_self exec p lev max_n w =
     do {
       per \<leftarrow> personas w p;
       let q = self_inbox per lev;
       w \<leftarrow> exec_all exec (take max_n q) (put_persona p (per\<lparr>self_inbox := (self_inbox per)(lev := [])\<rparr>) w);
       per \<leftarrow> personas w p;
       Some (min max_n (length q),
             put_persona p (per\<lparr>self_inbox := (self_inbox per)(lev := drop max_n q @ self_inbox per lev)\<rparr>) w)
     }"

definition burst_deferred :: "'v executor \<Rightarrow> u64 \<Rightarrow> 'v pworld \<Rightarrow> (nat \<times> 'v pworld) option" where
  "burst_deferred exec p w =
     do {
       per \<leftarrow> personas w p;
       w \<leftarrow> exec_all exec (pros_deferred_trivial per) (put_persona p (per\<lparr>pros_deferred_trivial := []\<rparr>) w);
       Some (length (pros_deferred_trivial per), w)
     }"

text \<open>The lock-free queue runs the elements that have a successor, and the last one only if it was the first.\<close>

fun burst_peer_loop :: "'v executor \<Rightarrow> u64 \<Rightarrow> progress_level \<Rightarrow> nat \<Rightarrow> nat \<Rightarrow> 'v pworld \<Rightarrow> (nat \<times> 'v pworld) option" where
  "burst_peer_loop exec p lev 0 exec_n w = Some (exec_n, w)"
| "burst_peer_loop exec p lev (Suc n) exec_n w =
     do {
       per \<leftarrow> personas w p;
       case peer_inbox per lev of
         [] \<Rightarrow> Some (exec_n, w)
       | m # ms \<Rightarrow>
           if ms = [] \<and> exec_n \<noteq> 0 then Some (exec_n, w)
           else
             do {
               w \<leftarrow> exec m (put_persona p (per\<lparr>peer_inbox := (peer_inbox per)(lev := ms)\<rparr>) w);
               if ms = [] then Some (exec_n + 1, w) else burst_peer_loop exec p lev n (exec_n + 1) w
             }
     }"

definition burst_peer :: "'v executor \<Rightarrow> u64 \<Rightarrow> progress_level \<Rightarrow> nat \<Rightarrow> 'v pworld \<Rightarrow> (nat \<times> 'v pworld) option" where
  "burst_peer exec p lev max_n w = burst_peer_loop exec p lev max_n 0 w"

definition burst_internal :: "'v executor \<Rightarrow> u64 \<Rightarrow> 'v pworld \<Rightarrow> (nat \<times> 'v pworld) option" where
  "burst_internal exec p w =
     do {
       (a, w) \<leftarrow> burst_peer exec p Internal 100 w;
       (b, w) \<leftarrow> burst_self exec p Internal 100 w;
       Some (a + b, w)
     }"

definition burst_user :: "'v executor \<Rightarrow> u64 \<Rightarrow> 'v pworld \<Rightarrow> (nat \<times> 'v pworld) option" where
  "burst_user exec p w =
     do {
       (a, w) \<leftarrow> burst_peer exec p User 100 w;
       (b, w) \<leftarrow> burst_self exec p User 100 w;
       (c, w) \<leftarrow> burst_deferred exec p w;
       Some (a + b + c, w)
     }"

subsection \<open>Progress\<close>

definition upd_tls :: "nat \<Rightarrow> (persona_tls \<Rightarrow> persona_tls) \<Rightarrow> 'v pworld \<Rightarrow> 'v pworld option" where
  "upd_tls t f w = do { tls \<leftarrow> threads w t; Some (put_tls t (f tls) w) }"

definition during ::
  "'v executor \<Rightarrow> nat \<Rightarrow> u64 \<Rightarrow> u64 \<Rightarrow> progress_level \<Rightarrow> nat \<Rightarrow> bool \<Rightarrow> 'v pworld \<Rightarrow> 'v pworld option" where
  "during exec t sc p lev fn known_active w =
     do {
       a \<leftarrow> is_active_with t p w;
       if known_active \<or> a then
         do {
           tls \<leftarrow> threads w t;
           if is_burstable lev tls then
             do {
               w \<leftarrow> upd_tls t (flip_burstable lev) w;
               w \<leftarrow> persona_scope_redundant t sc p w;
               w \<leftarrow> exec (Lpc_fn fn) w;
               w \<leftarrow> persona_scope_redundant_destroy sc w;
               upd_tls t (flip_burstable lev) w
             }
           else enqueue_self p lev (Lpc_fn fn) w
         }
       else enqueue_peer p lev (Lpc_fn fn) w
     }"

text \<open>Loops over the linked scopes; they end because the stack does.\<close>

partial_function (option) progress_required_from :: "persona_tls \<Rightarrow> u64 \<Rightarrow> u64 \<Rightarrow> 'v pworld \<Rightarrow> bool option" where
  "progress_required_from tls bottom ps w =
     do {
       x \<leftarrow> scopes w ps;
       per \<leftarrow> personas w (get_persona tls x);
       if undischarged_n per \<noteq> 0 then Some True
       else if ps = bottom then Some False
       else progress_required_from tls bottom (next_scope x) w
     }"

declare progress_required_from.simps [code]

definition progress_required :: "u64 \<Rightarrow> nat \<Rightarrow> u64 \<Rightarrow> 'v pworld \<Rightarrow> bool option" where
  "progress_required dummy t bottom w =
     do {
       tls \<leftarrow> threads w t;
       progress_required_from tls (if bottom = dummy then default_scope_raw tls else bottom) (get_top_scope tls) w
     }"

partial_function (option) foreach_active_from ::
  "nat \<Rightarrow> u64 \<Rightarrow> (u64 \<Rightarrow> 'v pworld \<Rightarrow> (nat \<times> 'v pworld) option) \<Rightarrow> u64 \<Rightarrow> nat \<Rightarrow> 'v pworld \<Rightarrow> (nat \<times> 'v pworld) option" where
  "foreach_active_from t sc fn ps acc w =
     do {
       tls \<leftarrow> threads w t;
       x \<leftarrow> scopes w ps;
       w \<leftarrow> persona_scope_redundant t sc (get_persona tls x) w;
       (n, w) \<leftarrow> fn (get_persona tls x) w;
       x \<leftarrow> scopes w ps;
       w \<leftarrow> persona_scope_redundant_destroy sc w;
       if next_unique x = 0 then Some (acc + n, w) else foreach_active_from t sc fn (next_unique x) (acc + n) w
     }"

declare foreach_active_from.simps [code]

definition foreach_active_as_top ::
  "nat \<Rightarrow> u64 \<Rightarrow> (u64 \<Rightarrow> 'v pworld \<Rightarrow> (nat \<times> 'v pworld) option) \<Rightarrow> 'v pworld \<Rightarrow> (nat \<times> 'v pworld) option" where
  "foreach_active_as_top t sc fn w =
     do { tls \<leftarrow> threads w t; foreach_active_from t sc fn (get_top_unique_scope tls) 0 w }"

definition persona_only_progress :: "'v executor \<Rightarrow> nat \<Rightarrow> u64 \<Rightarrow> 'v pworld \<Rightarrow> (nat \<times> 'v pworld) option" where
  "persona_only_progress exec t sc w =
     do {
       tls \<leftarrow> threads w t;
       if get_progressing tls \<noteq> - 1 then Some (0, w)
       else
         do {
           w \<leftarrow> upd_tls t (set_progressing 1) w;
           tls \<leftarrow> threads w t;
           if is_burstable User tls then None
           else
             do {
               w \<leftarrow> upd_tls t (flip_burstable User) w;
               (n, w) \<leftarrow> foreach_active_as_top t sc
                 (\<lambda>p w. do {
                    (a, w) \<leftarrow> burst_internal exec p w;
                    w \<leftarrow> upd_tls t (flip_burstable User) w;
                    (b, w) \<leftarrow> burst_user exec p w;
                    w \<leftarrow> upd_tls t (flip_burstable User) w;
                    Some (a + b, w) }) w;
               w \<leftarrow> upd_tls t (flip_burstable User) w;
               w \<leftarrow> upd_tls t (set_progressing (- 1)) w;
               Some (n, w)
             }
         }
     }"

subsection \<open>Dormant calls\<close>

text \<open>A dormant call knows its target and level; the list is the chain through \<open>intruder\<close>. It enqueues a quiesced
  promise or a function, which has another function to run when it is cancelled.\<close>

datatype dormant_kind = Dormant_promise hptr | Dormant_fn nat nat

record lpc_dormant =
  dormant_target :: u64
  dormant_level :: progress_level
  dormant_what :: dormant_kind

definition make_lpc_dormant :: "u64 \<Rightarrow> progress_level \<Rightarrow> nat \<Rightarrow> nat \<Rightarrow> lpc_dormant list \<Rightarrow> lpc_dormant list" where
  "make_lpc_dormant target lev fn cancel tail_list =
     \<lparr>dormant_target = target, dormant_level = lev, dormant_what = Dormant_fn fn cancel\<rparr> # tail_list"

definition make_lpc_dormant_quiesced_promise :: "u64 \<Rightarrow> progress_level \<Rightarrow> hptr \<Rightarrow> lpc_dormant list \<Rightarrow> lpc_dormant list" where
  "make_lpc_dormant_quiesced_promise target lev pro tail_list =
     \<lparr>dormant_target = target, dormant_level = lev, dormant_what = Dormant_promise pro\<rparr> # tail_list"

definition awaken_one ::
  "(hptr \<Rightarrow> bool) \<Rightarrow> bool \<Rightarrow> nat \<Rightarrow> 'v list \<Rightarrow> lpc_dormant \<Rightarrow> 'v pworld \<Rightarrow> 'v pworld option" where
  "awaken_one trivial seq t vs d w =
     (case dormant_what d of
        Dormant_promise pro \<Rightarrow>
          do { s \<leftarrow> construct_results pro vs (heap w);
               enqueue_quiesced_promise trivial t (dormant_target d) (dormant_level d) pro 1 seq (w\<lparr>heap := s\<rparr>) }
      | Dormant_fn fn cancel \<Rightarrow>
          tls_enqueue t (dormant_target d) (dormant_level d) (Lpc_woken fn vs) seq w)"

text \<open>\<open>vs\<close> are the values read from the message; \<open>copyable\<close> whether they may be given to several calls.\<close>

fun awaken ::
  "(hptr \<Rightarrow> bool) \<Rightarrow> bool \<Rightarrow> bool \<Rightarrow> nat \<Rightarrow> 'v list \<Rightarrow> lpc_dormant list \<Rightarrow> 'v pworld \<Rightarrow> 'v pworld option" where
  "awaken trivial seq copyable t vs [] w = None"
| "awaken trivial seq copyable t vs (d # ds) w =
     do {
       w \<leftarrow> awaken_one trivial seq t vs d w;
       if ds = [] then Some w
       else if \<not> copyable then None
       else awaken trivial seq copyable t vs ds w
     }"

definition cancel_one :: "'v callbacks \<Rightarrow> 'v user_code \<Rightarrow> nat \<Rightarrow> lpc_dormant \<Rightarrow> 'v pworld \<Rightarrow> 'v pworld option" where
  "cancel_one run user t d w =
     (case dormant_what d of
        Dormant_promise pro \<Rightarrow>
          do {
            m \<leftarrow> get_meta pro (heap w);
            if countdown m > 1 then
              do { s \<leftarrow> promise_fulfill_anonymous run pro 1 (heap w);
                   s \<leftarrow> ops_dropref Ops_promise False pro s;
                   Some (w\<lparr>heap := s\<rparr>) }
            else if countdown m \<noteq> 1 then None
            else do { s \<leftarrow> ops_dropref Ops_promise False pro (heap w); Some (w\<lparr>heap := s\<rparr>) }
          }
      | Dormant_fn fn cancel \<Rightarrow> do { (_, w) \<leftarrow> user t cancel [] w; Some w })"

fun cancel_list :: "'v callbacks \<Rightarrow> 'v user_code \<Rightarrow> nat \<Rightarrow> lpc_dormant list \<Rightarrow> 'v pworld \<Rightarrow> 'v pworld option" where
  "cancel_list run user t [] w = None"
| "cancel_list run user t (d # ds) w =
     do { w \<leftarrow> cancel_one run user t d w; if ds = [] then Some w else cancel_list run user t ds w }"

end
