(* ===== verification/Persona_Correct.thy ===== *)
theory Persona_Correct
  imports Persona_Lpc Future_Correct
begin

text \<open>
  Component personas, the properties: the stacks of scopes of all threads stay well formed and hold disjoint sets of
  personas, scopes are undone exactly, and calls and deferred promises are delivered in order and once.
\<close>

subsection \<open>Encoded fields\<close>

lemma xor64 [simp]: "(a :: u64) XOR (a XOR b) = b" "(a XOR b) XOR a = b" "(b XOR a) XOR a = b" "a XOR (b XOR a) = b"
  by (simp_all add: xor.left_commute xor.commute)

lemma tls_get_set [simp]:
  "get_top_scope (set_top_scope v tls) = v" "get_top_scope (set_top_persona v tls) = get_top_scope tls"
  "get_top_scope (set_top_unique_scope v tls) = get_top_scope tls"
  "get_top_persona (set_top_persona v tls) = v" "get_top_persona (set_top_scope v tls) = get_top_persona tls"
  "get_top_persona (set_top_unique_scope v tls) = get_top_persona tls"
  "get_top_unique_scope (set_top_unique_scope v tls) = v" "get_top_unique_scope (set_top_scope v tls) = get_top_unique_scope tls"
  "get_top_unique_scope (set_top_persona v tls) = get_top_unique_scope tls"
  "default_persona (set_top_scope v tls) = default_persona tls" "default_persona (set_top_persona v tls) = default_persona tls"
  "default_persona (set_top_unique_scope v tls) = default_persona tls"
  "default_scope_raw (set_top_scope v tls) = default_scope_raw tls" "default_scope_raw (set_top_persona v tls) = default_scope_raw tls"
  "default_scope_raw (set_top_unique_scope v tls) = default_scope_raw tls"
  by (simp_all add: get_top_scope_def set_top_scope_def get_top_persona_def set_top_persona_def
      get_top_unique_scope_def set_top_unique_scope_def)

lemma get_set_owner [simp]: "get_owner p (set_owner p v per) = v"
  by (simp add: get_owner_def set_owner_def)

lemma get_set_persona [simp]: "get_persona tls (set_persona v tls x) = v"
  by (simp add: get_persona_def set_persona_def)

lemma get_persona_cong [simp]:
  "get_persona (set_top_scope v tls) = get_persona tls" "get_persona (set_top_persona v tls) = get_persona tls"
  "get_persona (set_top_unique_scope v tls) = get_persona tls"
  by (simp_all add: get_persona_def fun_eq_iff)

lemma get_persona_upd [simp]:
  "get_persona tls (x\<lparr>next_scope := a\<rparr>) = get_persona tls x" "get_persona tls (x\<lparr>next_unique := a\<rparr>) = get_persona tls x"
  "get_persona tls (x\<lparr>scope_tls := t\<rparr>) = get_persona tls x" "get_persona tls (x\<lparr>restore_top_persona := a\<rparr>) = get_persona tls x"
  by (simp_all add: get_persona_def)

text \<open>Writing back what was read restores the record.\<close>

lemma tls_restore:
  "set_top_persona (get_top_persona tls) (set_top_scope (get_top_scope tls) (set_top_persona p (set_top_scope sc tls))) = tls"
  "set_top_unique_scope (get_top_unique_scope tls)
     (set_top_persona (get_top_persona tls) (set_top_scope (get_top_scope tls)
       (set_top_unique_scope sc (set_top_persona p (set_top_scope sc tls))))) = tls"
  by (simp_all add: get_top_scope_def set_top_scope_def get_top_persona_def set_top_persona_def
      get_top_unique_scope_def set_top_unique_scope_def)

lemma owner_restore: "get_owner p per = v \<Longrightarrow> set_owner p v (set_owner p u per) = per"
  by (auto simp: get_owner_def set_owner_def)

lemma set_owner_same: "get_owner p per = v \<Longrightarrow> set_owner p v per = per"
  by (auto simp: get_owner_def set_owner_def)

subsection \<open>The stacks of scopes\<close>

fun chain :: "('a \<Rightarrow> u64) \<Rightarrow> (u64 \<rightharpoonup> 'a) \<Rightarrow> u64 \<Rightarrow> u64 list \<Rightarrow> bool" where
  "chain nx S p [] \<longleftrightarrow> p = 0"
| "chain nx S p (x # xs) \<longleftrightarrow> p = x \<and> x \<noteq> 0 \<and> x \<noteq> 1 \<and> (\<exists>k. S x = Some k \<and> chain nx S (nx k) xs)"

definition is_unique :: "'v pworld \<Rightarrow> u64 \<Rightarrow> bool" where
  "is_unique w x \<longleftrightarrow> (\<exists>k. scopes w x = Some k \<and> next_unique k \<noteq> 1)"

definition scope_persona :: "'v pworld \<Rightarrow> persona_tls \<Rightarrow> u64 \<Rightarrow> u64" where
  "scope_persona w tls x = (case scopes w x of None \<Rightarrow> 0 | Some k \<Rightarrow> get_persona tls k)"

definition owned :: "'v pworld \<Rightarrow> u64 \<Rightarrow> u64 set" where
  "owned w d = {p. \<exists>per. personas w p = Some per \<and> get_owner p per = d}"

text \<open>The scope that made a persona active lies below all its other scopes.\<close>

fun nested :: "'v pworld \<Rightarrow> persona_tls \<Rightarrow> u64 list \<Rightarrow> bool" where
  "nested w tls [] \<longleftrightarrow> True"
| "nested w tls (x # xs) \<longleftrightarrow> (is_unique w x \<longleftrightarrow> scope_persona w tls x \<notin> scope_persona w tls ` set xs) \<and> nested w tls xs"

definition thread_ok :: "'v pworld \<Rightarrow> persona_tls \<Rightarrow> u64 list \<Rightarrow> bool" where
  "thread_ok w tls st \<longleftrightarrow>
     chain next_scope (scopes w) (get_top_scope tls) st \<and> st \<noteq> [] \<and> distinct st \<and> last st = default_scope_raw tls \<and>
     default_persona tls \<noteq> 0 \<and>
     get_top_persona tls = scope_persona w tls (hd st) \<and>
     chain next_unique (scopes w) (get_top_unique_scope tls) (filter (is_unique w) st) \<and>
     nested w tls st \<and> scope_persona w tls ` set st = owned w (default_persona tls)"

definition world_ok :: "'v pworld \<Rightarrow> (nat \<Rightarrow> u64 list) \<Rightarrow> bool" where
  "world_ok w st \<longleftrightarrow>
     (\<forall>t tls. threads w t = Some tls \<longrightarrow> thread_ok w tls (st t)) \<and>
     (\<forall>t u x y. threads w t = Some x \<longrightarrow> threads w u = Some y \<longrightarrow> t \<noteq> u \<longrightarrow>
        default_persona x \<noteq> default_persona y \<and> set (st t) \<inter> set (st u) = {})"

lemma chain_frame: "x \<notin> set xs \<Longrightarrow> chain nx (S(x := v)) p xs = chain nx S p xs"
  by (induction xs arbitrary: p) auto

lemma nested_unique_image: "nested w tls st \<Longrightarrow> scope_persona w tls ` set (filter (is_unique w) st) = scope_persona w tls ` set st"
  by (induction st) auto

lemma nested_distinct: "nested w tls st \<Longrightarrow> distinct (map (scope_persona w tls) (filter (is_unique w) st))"
  by (induction st) (auto simp: image_iff)

lemma nested_cong:
  "(\<And>x. x \<in> set st \<Longrightarrow> is_unique w' x = is_unique w x \<and> scope_persona w' tls' x = scope_persona w tls x) \<Longrightarrow>
    nested w' tls' st = nested w tls st"
proof (induction st)
  case (Cons x xs)
  have "scope_persona w' tls' ` set xs = scope_persona w tls ` set xs" using Cons.prems by (intro image_cong) auto
  then show ?case using Cons by simp
qed simp

lemma chain_cong: "(\<And>x. x \<in> set xs \<Longrightarrow> S x = S' x) \<Longrightarrow> chain nx S p xs = chain nx S' p xs"
  by (induction xs arbitrary: p) auto

lemma chain_mem: "chain nx S p xs \<Longrightarrow> x \<in> set xs \<Longrightarrow> S x \<noteq> None"
  by (induction xs arbitrary: p) auto

lemma thread_okD:
  assumes "thread_ok w tls st"
  shows "chain next_scope (scopes w) (get_top_scope tls) st" "st \<noteq> []" "distinct st" "last st = default_scope_raw tls"
    "default_persona tls \<noteq> 0" "get_top_persona tls = scope_persona w tls (hd st)"
    "chain next_unique (scopes w) (get_top_unique_scope tls) (filter (is_unique w) st)"
    "nested w tls st" "scope_persona w tls ` set st = owned w (default_persona tls)"
  using assms by (simp_all add: thread_ok_def)

lemma world_okD:
  assumes "world_ok w st" "threads w t = Some tls"
  shows "thread_ok w tls (st t)"
    "threads w u = Some y \<Longrightarrow> t \<noteq> u \<Longrightarrow> default_persona tls \<noteq> default_persona y \<and> set (st t) \<inter> set (st u) = {}"
  using assms unfolding world_ok_def by blast+

text \<open>A change to a scope outside the stack of a thread, and to the owner of a persona that is not its own.\<close>

lemma thread_ok_other:
  assumes ok: "thread_ok w tls st" and s: "sc \<notin> set st" "scopes w' = (scopes w)(sc := v)"
    and o: "owned w' (default_persona tls) = owned w (default_persona tls)"
  shows "thread_ok w' tls st"
proof -
  have e: "scopes w' x = scopes w x" if "x \<in> set st" for x using that s by auto
  have u: "is_unique w' x = is_unique w x" "scope_persona w' tls x = scope_persona w tls x" if "x \<in> set st" for x
    using e [OF that] by (simp_all add: is_unique_def scope_persona_def)
  have f: "filter (is_unique w') st = filter (is_unique w) st" using u(1) by (auto intro: filter_cong)
  have m: "nested w' tls st = nested w tls st" using u by (intro nested_cong) simp
  have c: "chain nx (scopes w') p xs = chain nx (scopes w) p xs" if "set xs \<subseteq> set st" for nx p xs
    unfolding s(2) using that s(1) by (intro chain_frame) auto
  have i: "scope_persona w' tls ` A = scope_persona w tls ` A" if "A \<subseteq> set st" for A using u(2) that by (intro image_cong) auto
  have h: "scope_persona w' tls (hd st) = scope_persona w tls (hd st)" using u(2) thread_okD(2) [OF ok] by simp
  show ?thesis
    using ok unfolding thread_ok_def f m o h by (simp add: c i)
qed

lemma chain_not_one: "chain nx S p xs \<Longrightarrow> p \<noteq> 1"
  by (cases xs) auto

lemma scope_persona_cong: "scopes w' x = scopes w x \<Longrightarrow> scope_persona w' tls x = scope_persona w tls x"
  by (simp add: scope_persona_def)

lemma owned_set_owner:
  assumes "personas w p = Some per"
  shows "personas w' = (personas w)(p \<mapsto> set_owner p d per) \<Longrightarrow>
    owned w' e = (if e = d then insert p (owned w e) else owned w e - {p})"
  using assms by (auto simp: owned_def)

text \<open>Pushing a scope \<open>k\<close> for the persona \<open>p\<close>.\<close>

lemma thread_ok_push:
  assumes ok: "thread_ok w tls st" and sc: "sc \<notin> set st" "sc \<noteq> 0" "sc \<noteq> 1"
    and s: "scopes w' = (scopes w)(sc \<mapsto> k)" "next_scope k = get_top_scope tls" "get_persona tls k = p"
    and u: "next_unique k = (if p \<in> owned w (default_persona tls) then 1 else get_top_unique_scope tls)"
    and o: "owned w' (default_persona tls) = insert p (owned w (default_persona tls))"
    and tls': "get_top_scope tls' = sc" "get_top_persona tls' = p" "default_persona tls' = default_persona tls"
      "default_scope_raw tls' = default_scope_raw tls" "get_persona tls' = get_persona tls"
      "get_top_unique_scope tls' = (if p \<in> owned w (default_persona tls) then get_top_unique_scope tls else sc)"
  shows "thread_ok w' tls' (sc # st)"
proof -
  note d = thread_okD [OF ok]
  have e: "scopes w' x = scopes w x" if "x \<in> set st" for x using that s sc(1) by auto
  have sp: "scope_persona w' tls' x = scope_persona w tls x" if "x \<in> set st" for x
    using e [OF that] tls'(5) by (simp add: scope_persona_def split: option.splits)
  have spk: "scope_persona w' tls' sc = p" using s tls'(5) by (simp add: scope_persona_def)
  have uk: "is_unique w' sc \<longleftrightarrow> p \<notin> owned w (default_persona tls)"
    using s(1) u chain_not_one [OF d(7)] by (auto simp: is_unique_def)
  have f: "filter (is_unique w') st = filter (is_unique w) st" using e by (auto simp: is_unique_def intro: filter_cong)
  have c: "chain nx (scopes w') q xs = chain nx (scopes w) q xs" if "set xs \<subseteq> set st" for nx q xs
    unfolding s(1) using that sc(1) by (intro chain_frame) auto
  have i: "scope_persona w' tls' ` A = scope_persona w tls ` A" if "A \<subseteq> set st" for A using sp that by (intro image_cong) auto
  have fu: "filter (is_unique w') (sc # st) = (if p \<in> owned w (default_persona tls) then filter (is_unique w) st else sc # filter (is_unique w) st)"
    by (simp add: uk f)
  have cu: "chain next_unique (scopes w') (get_top_unique_scope tls') (filter (is_unique w') (sc # st))"
    unfolding fu using d(7) s(1) sc u tls'(6) c [of "filter (is_unique w) st"] by auto
  have ne: "nested w' tls' (sc # st)"
  proof -
    have "nested w' tls' st = nested w tls st" using sp e by (intro nested_cong) (auto simp: is_unique_def)
    then show ?thesis using d(8,9) spk uk i [of "set st"] by simp
  qed
  have si: "scope_persona w' tls' ` set (sc # st) = owned w' (default_persona tls')"
    using d(9) spk i [of "set st"] by (simp add: o tls'(3))
  show ?thesis
    unfolding thread_ok_def using d(1-5) sc s(1,2) tls' spk cu ne si c [of st] by simp
qed

lemma persona_scope_unfold:
  assumes "persona_scope t sc p w = Some w'"
  obtains tls per k where "threads w t = Some tls" "personas w p = Some per"
    "persona_active p per \<longrightarrow> active_with_caller tls p per"
    "k = (set_persona p tls (persona_scope_raw_init))\<lparr>next_scope := get_top_scope tls,
       next_unique := if persona_active p per then 1 else get_top_unique_scope tls\<rparr>"
    "w' = put_tls t (if persona_active p per then set_top_persona p (set_top_scope sc tls)
        else set_top_unique_scope sc (set_top_persona p (set_top_scope sc tls)))
      (put_persona p (set_owner p (default_persona tls) per) (put_scope sc k w))"
proof -
  have i: "persona_scope_raw_init\<lparr>scope_lock := 0, unlocker := False\<rparr> = persona_scope_raw_init"
    by (simp add: persona_scope_raw_init_def)
  obtain tls per where h: "threads w t = Some tls" "personas w p = Some per"
    using assms unfolding persona_scope_def activate_def by (auto simp: put_scope_def Option.bind_eq_Some_conv)
  have a: "persona_active p per \<longrightarrow> active_with_caller tls p per"
    using assms h unfolding persona_scope_def activate_def by (auto simp: put_scope_def Let_def split: if_splits)
  show thesis
  proof (rule that [OF h a refl])
    show "w' = put_tls t (if persona_active p per then set_top_persona p (set_top_scope sc tls)
        else set_top_unique_scope sc (set_top_persona p (set_top_scope sc tls)))
      (put_persona p (set_owner p (default_persona tls) per)
        (put_scope sc ((set_persona p tls persona_scope_raw_init)\<lparr>next_scope := get_top_scope tls,
           next_unique := if persona_active p per then 1 else get_top_unique_scope tls\<rparr>) w))"
      using assms h a unfolding persona_scope_def i activate_def
      by (cases "persona_active p per") (auto simp: put_scope_def put_persona_def put_tls_def Let_def split: if_splits)
  qed
qed

lemma persona_scope_pushes:
  assumes ok: "world_ok w st" and pw: "persona_scope t sc p w = Some w'"
    and sc: "scopes w sc = None" "sc \<noteq> 0" "sc \<noteq> 1"
  shows "world_ok w' (st(t := sc # st t)) \<and> current_persona t w' = Some p"
proof -
  obtain tls per k where h: "threads w t = Some tls" "personas w p = Some per"
    "persona_active p per \<longrightarrow> active_with_caller tls p per"
    "k = (set_persona p tls (persona_scope_raw_init))\<lparr>next_scope := get_top_scope tls,
       next_unique := if persona_active p per then 1 else get_top_unique_scope tls\<rparr>"
    "w' = put_tls t (if persona_active p per then set_top_persona p (set_top_scope sc tls)
        else set_top_unique_scope sc (set_top_persona p (set_top_scope sc tls)))
      (put_persona p (set_owner p (default_persona tls) per) (put_scope sc k w))"
    by (rule persona_scope_unfold [OF pw])
  let ?d = "default_persona tls"
  define tls' where "tls' = (if persona_active p per then set_top_persona p (set_top_scope sc tls)
        else set_top_unique_scope sc (set_top_persona p (set_top_scope sc tls)))"
  have w': "scopes w' = (scopes w)(sc \<mapsto> k)" "personas w' = (personas w)(p \<mapsto> set_owner p ?d per)"
      "threads w' = (threads w)(t \<mapsto> tls')"
    by (simp_all add: h(5) put_tls_def put_persona_def put_scope_def tls'_def)
  note tok = world_okD(1) [OF ok h(1)]
  have ns: "sc \<notin> set (st u)" if "threads w u = Some y" for u y
    using chain_mem [OF thread_okD(1) [OF world_okD(1) [OF ok that]], of sc] sc(1) by auto
  have pa: "persona_active p per \<longleftrightarrow> p \<in> owned w ?d"
    using h(2,3) thread_okD(5) [OF tok] by (auto simp: owned_def persona_active_def active_with_caller_def)
  have ow: "owned w' e = (if e = ?d then insert p (owned w e) else owned w e - {p})" for e
    by (rule owned_set_owner [OF h(2) w'(2)])
  have new: "thread_ok w' tls' (sc # st t)"
    by (rule thread_ok_push [OF tok ns [OF h(1)] sc(2,3) w'(1), of p]) (auto simp: h(4) ow pa tls'_def)
  have other: "thread_ok w' y (st u)" if y: "threads w u = Some y" "u \<noteq> t" for u y
  proof (rule thread_ok_other [OF world_okD(1) [OF ok y(1)] ns [OF y(1)] w'(1)])
    have ne: "default_persona y \<noteq> ?d" using world_okD(2) [OF ok h(1) y(1)] y(2) by auto
    have "p \<notin> owned w (default_persona y)"
      using h(2,3) ne thread_okD(5) [OF world_okD(1) [OF ok y(1)]]
      by (auto simp: owned_def persona_active_def active_with_caller_def)
    then show "owned w' (default_persona y) = owned w (default_persona y)" using ne by (simp add: ow)
  qed
  have dt: "default_persona tls' = ?d" by (simp add: tls'_def)
  have "world_ok w' (st(t := sc # st t))"
    unfolding world_ok_def w'(3)
  proof (intro conjI allI impI)
    fix u y assume "((threads w)(t \<mapsto> tls')) u = Some y"
    then show "thread_ok w' y ((st(t := sc # st t)) u)" using new other by (auto split: if_splits)
  next
    fix u v x y assume a: "((threads w)(t \<mapsto> tls')) u = Some x" "((threads w)(t \<mapsto> tls')) v = Some y" "u \<noteq> v"
    then show "default_persona x \<noteq> default_persona y"
      using world_okD(2) [OF ok] h(1) dt by (auto split: if_splits)
    show "set ((st(t := sc # st t)) u) \<inter> set ((st(t := sc # st t)) v) = {}"
      using a world_okD(2) [OF ok, of u _ v] world_okD(2) [OF ok, of v _ u] h(1) ns by (fastforce split: if_splits)
  qed
  moreover have "current_persona t w' = Some p" by (simp add: current_persona_def w'(3) tls'_def)
  ultimately show ?thesis ..
qed

text \<open>
  (C31) Constructing a persona scope pushes it on the stack of its thread and makes the persona active with that thread
  and no other: the stacks stay well formed, the chain of unique scopes lists every active persona once, and
  no persona is active in two threads.
\<close>

theorem persona_scope_correct:
  assumes ok: "world_ok w st" and pw: "persona_scope t sc p w = Some w'"
    and sc: "scopes w sc = None" "sc \<noteq> 0" "sc \<noteq> 1"
  shows "world_ok w' (st(t := sc # st t)) \<and> current_persona t w' = Some p"
  by (rule persona_scope_pushes [OF ok pw sc])

text \<open>Popping the top scope.\<close>

lemma thread_ok_pop:
  assumes ok: "thread_ok w tls (sc # st)" and st: "st \<noteq> []"
    and s: "scopes w' = (scopes w)(sc := None)" "scopes w sc = Some k"
    and o: "owned w' (default_persona tls) =
        (if next_unique k \<noteq> 1 then owned w (default_persona tls) - {get_persona tls k} else owned w (default_persona tls))"
    and tls': "get_top_scope tls' = next_scope k" "get_top_persona tls' = scope_persona w tls (hd st)" "default_persona tls' = default_persona tls"
      "default_scope_raw tls' = default_scope_raw tls" "get_persona tls' = get_persona tls"
      "get_top_unique_scope tls' = (if next_unique k \<noteq> 1 then next_unique k else get_top_unique_scope tls)"
  shows "thread_ok w' tls' st"
proof -
  note d = thread_okD [OF ok]
  have n: "sc \<notin> set st" using d(3) by simp
  have e: "scopes w' x = scopes w x" if "x \<in> set st" for x using that s(1) n by auto
  have sp: "scope_persona w' tls' x = scope_persona w tls x" if "x \<in> set st" for x
    using e [OF that] tls'(5) by (simp add: scope_persona_def split: option.splits)
  have spk: "scope_persona w tls sc = get_persona tls k" using s(2) by (simp add: scope_persona_def)
  have uk: "is_unique w sc \<longleftrightarrow> next_unique k \<noteq> 1" using s(2) by (simp add: is_unique_def)
  have f: "filter (is_unique w') st = filter (is_unique w) st" using e by (auto simp: is_unique_def intro: filter_cong)
  have c: "chain nx (scopes w') q xs = chain nx (scopes w) q xs" if "set xs \<subseteq> set st" for nx q xs
    unfolding s(1) using that n by (intro chain_frame) auto
  have i: "scope_persona w' tls' ` set st = scope_persona w tls ` set st" using sp by (intro image_cong) auto
  have cu: "chain next_unique (scopes w') (get_top_unique_scope tls') (filter (is_unique w') st)"
    unfolding f using d(7) uk s(2) tls'(6) c [of "filter (is_unique w) st"] by (cases "next_unique k = 1") auto
  have ne: "nested w' tls' st"
    using d(8) nested_cong [of st w' w tls' tls] sp e by (auto simp: is_unique_def)
  have si: "scope_persona w' tls' ` set st = owned w' (default_persona tls')"
  proof (cases "next_unique k = 1")
    case False
    then have "get_persona tls k \<notin> scope_persona w tls ` set st" using d(8) uk spk by simp
    moreover have "owned w (default_persona tls) = insert (get_persona tls k) (scope_persona w tls ` set st)"
      using d(9) spk by simp
    ultimately have "owned w (default_persona tls) - {get_persona tls k} = scope_persona w tls ` set st"
      by (simp only: Diff_insert_absorb not_False_eq_True)
    then show ?thesis using False i by (simp add: o tls'(3))
  qed (use d(8,9) spk uk i in \<open>auto simp: o tls'(3)\<close>)
  have ch: "chain next_scope (scopes w') (get_top_scope tls') st" using d(1) s(2) tls'(1) c [of st] by auto
  have hd1: "get_top_persona tls' = scope_persona w' tls' (hd st)" using sp [of "hd st"] st tls'(2) by simp
  show ?thesis
    unfolding thread_ok_def using ch st d(3,4,5) hd1 cu ne si tls'(3,4) by simp
qed


text \<open>
  (C33) Destroying the top scope of a thread never fails and pops it: the thread's previous persona is on top again, the
  persona of the scope is released exactly if this was the scope that made it active, and the mutex of the
  scope is unlocked.
\<close>

theorem persona_scope_destroy_correct:
  assumes ok: "world_ok w st" and t: "threads w t = Some tls" "st t = sc # rest" "rest \<noteq> []"
    and k: "scopes w sc = Some k"
  shows "\<exists>w'. persona_scope_destroy t sc w = Some w' \<and> world_ok w' (st(t := rest)) \<and>
    current_persona t w' = Some (scope_persona w tls (hd rest)) \<and>
    owned w' (default_persona tls) = owned w (default_persona tls) - (if next_unique k \<noteq> 1 then {get_persona tls k} else {}) \<and>
    lock_held w' = (if unlocker k then (lock_held w)(scope_lock k := False) else lock_held w)"
proof -
  let ?d = "default_persona tls" and ?p = "get_persona tls k"
  note tok = world_okD(1) [OF ok t(1), unfolded t(2)]
  note d = thread_okD [OF tok]
  have "chain next_scope (scopes w) (next_scope k) rest" using d(1) k by simp
  then obtain nk where nk: "next_scope k = hd rest" "scopes w (hd rest) = Some nk" "next_scope k \<noteq> 1"
    using t(3) by (cases rest) auto
  have "?p \<in> owned w ?d" using d(9) k by (auto simp: scope_persona_def)
  then obtain per where per: "personas w ?p = Some per" "get_owner ?p per = ?d" by (auto simp: owned_def)
  have top: "get_top_scope tls = sc" using d(1) by simp
  define tls1 where "tls1 = set_top_persona (get_persona tls nk) (set_top_scope (next_scope k) tls)"
  define tls' where "tls' = (if next_unique k \<noteq> 1 then set_top_unique_scope (next_unique k) tls1 else tls1)"
  define w1 where "w1 = put_tls t tls' (if next_unique k \<noteq> 1 then put_persona ?p (set_owner ?p 0 per) w else w)"
  define w' where "w' = delete_scope sc (if unlocker k then w1\<lparr>lock_held := (lock_held w1)(scope_lock k := False)\<rparr> else w1)"
  have e: "persona_scope_destroy t sc w = Some w'"
    using k nk t(1) top per(1)
    by (simp add: persona_scope_destroy_def w'_def w1_def tls'_def tls1_def Let_def)
  have w': "scopes w' = (scopes w)(sc := None)" "threads w' = (threads w)(t \<mapsto> tls')"
      "personas w' = (if next_unique k \<noteq> 1 then (personas w)(?p \<mapsto> set_owner ?p 0 per) else personas w)"
      "lock_held w' = (if unlocker k then (lock_held w)(scope_lock k := False) else lock_held w)"
    by (simp_all add: w'_def w1_def delete_scope_def put_tls_def put_persona_def)
  have ow: "owned w' x = (if next_unique k \<noteq> 1 then owned w x - {?p} else owned w x)" if "x \<noteq> 0" for x
    using owned_set_owner [OF per(1), of w' 0 x] that w'(3) by (auto simp: owned_def split: if_splits)
  have new: "thread_ok w' tls' rest"
    using ow [OF d(5)] nk
    by (intro thread_ok_pop [OF tok t(3) w'(1) k]) (auto simp: tls'_def tls1_def scope_persona_def)
  have other: "thread_ok w' y (st u)" if y: "threads w u = Some y" "u \<noteq> t" for u y
  proof (rule thread_ok_other [OF world_okD(1) [OF ok y(1)] _ w'(1)])
    note dis = world_okD(2) [OF ok t(1) y(1)]
    show "sc \<notin> set (st u)" using dis y(2) t(2) by auto
    have "?p \<notin> owned w (default_persona y)" using dis y(2) per by (auto simp: owned_def)
    then show "owned w' (default_persona y) = owned w (default_persona y)"
      using ow [OF thread_okD(5) [OF world_okD(1) [OF ok y(1)]]] by simp
  qed
  have dt: "default_persona tls' = ?d" by (simp add: tls'_def tls1_def)
  have "world_ok w' (st(t := rest))"
    unfolding world_ok_def w'(2)
  proof (intro conjI allI impI)
    fix u y assume "((threads w)(t \<mapsto> tls')) u = Some y"
    then show "thread_ok w' y ((st(t := rest)) u)" using new other by (auto split: if_splits)
  next
    fix u v x y assume a: "((threads w)(t \<mapsto> tls')) u = Some x" "((threads w)(t \<mapsto> tls')) v = Some y" "u \<noteq> v"
    then show "default_persona x \<noteq> default_persona y" using world_okD(2) [OF ok] t(1) dt by (auto split: if_splits)
    show "set ((st(t := rest)) u) \<inter> set ((st(t := rest)) v) = {}"
      using a world_okD(2) [OF ok, of u _ v] world_okD(2) [OF ok, of v _ u] t(1,2) by (fastforce split: if_splits)
  qed
  moreover have "current_persona t w' = Some (scope_persona w tls (hd rest))"
    using nk(2) by (simp add: current_persona_def w'(2) tls'_def tls1_def scope_persona_def)
  moreover have "owned w' ?d = owned w ?d - (if next_unique k \<noteq> 1 then {?p} else {})" using ow [OF d(5)] by simp
  ultimately show ?thesis using e w'(4) by blast
qed

text \<open>
  (C32) A persona is active with at most one thread, and a thread that tries to acquire a persona that another one holds
  fails.
\<close>

theorem persona_exclusive:
  assumes ok: "world_ok w st" and t: "threads w t = Some x" "threads w u = Some y" "t \<noteq> u"
    and p: "p \<in> scope_persona w x ` set (st t)"
  shows "p \<notin> scope_persona w y ` set (st u) \<and> persona_scope u sc p w = None"
proof -
  have px: "p \<in> owned w (default_persona x)" using p thread_okD(9) [OF world_okD(1) [OF ok t(1)]] by simp
  have ne: "default_persona x \<noteq> default_persona y" using world_okD(2) [OF ok t(1,2)] t(3) by simp
  have "p \<notin> owned w (default_persona y)" using px ne by (auto simp: owned_def)
  moreover have "persona_scope u sc p w = None"
  proof (rule ccontr)
    assume "persona_scope u sc p w \<noteq> None"
    then obtain w' where "persona_scope u sc p w = Some w'" by auto
    then obtain tls per where "threads w u = Some tls" "personas w p = Some per" "persona_active p per \<longrightarrow> active_with_caller tls p per"
      by (rule persona_scope_unfold)
    then show False using px ne t(2) thread_okD(5) [OF world_okD(1) [OF ok t(1)]]
      by (auto simp: owned_def persona_active_def active_with_caller_def)
  qed
  ultimately show ?thesis using thread_okD(9) [OF world_okD(1) [OF ok t(2)]] by auto
qed

subsection \<open>Scopes undone\<close>

lemma tls_same [simp]: "put_tls t x (put_tls t y w) = put_tls t x w"
  by (simp add: put_tls_def)

lemma put_tls_id: "threads w t = Some x \<Longrightarrow> put_tls t x w = w"
  by (cases w) (auto simp: put_tls_def fun_eq_iff)

lemma put_persona_id: "personas w p = Some x \<Longrightarrow> put_persona p x w = w"
  by (cases w) (auto simp: put_persona_def fun_eq_iff)

lemma delete_put_scope: "scopes w sc = None \<Longrightarrow> delete_scope sc (put_scope sc x w) = w"
  by (cases w) (auto simp: put_scope_def delete_scope_def fun_eq_iff)

text \<open>The program with the redundant scope at \<open>sc\<close> pushed, and what its destructor does.\<close>

definition as_top :: "nat \<Rightarrow> u64 \<Rightarrow> u64 \<Rightarrow> persona_tls \<Rightarrow> 'v pworld \<Rightarrow> 'v pworld" where
  "as_top t sc p tls w = put_tls t (set_top_persona p (set_top_scope sc tls))
     (put_scope sc ((set_persona p tls persona_scope_raw_init)
        \<lparr>scope_tls := t, next_scope := get_top_scope tls, restore_top_persona := get_top_persona tls\<rparr>) w)"

lemma redundant_as_top: "threads w t = Some tls \<Longrightarrow> persona_scope_redundant t sc p w = Some (as_top t sc p tls w)"
  by (simp add: persona_scope_redundant_def as_top_def Let_def)

lemma as_top_simps [simp]:
  "threads (as_top t sc p tls w) t = Some (set_top_persona p (set_top_scope sc tls))"
  "x \<noteq> sc \<Longrightarrow> scopes (as_top t sc p tls w) x = scopes w x"
  "personas (as_top t sc p tls w) = personas w" "heap (as_top t sc p tls w) = heap w"
  by (simp_all add: as_top_def put_tls_def put_scope_def)

lemma redundant_undone:
  assumes "threads w2 t = threads (as_top t sc p tls w) t" "scopes w2 sc = scopes (as_top t sc p tls w) sc"
  shows "persona_scope_redundant_destroy sc w2 = Some (delete_scope sc (put_tls t tls w2))"
proof -
  define x where "x = (set_persona p tls persona_scope_raw_init)
                 \<lparr>scope_tls := t, next_scope := get_top_scope tls, restore_top_persona := get_top_persona tls\<rparr>"
  have "scopes w2 sc = Some x" using assms(2) by (simp add: as_top_def put_tls_def put_scope_def x_def)
  moreover have "threads w2 t = Some (set_top_persona p (set_top_scope sc tls))" using assms(1) by simp
  ultimately show ?thesis by (simp add: persona_scope_redundant_destroy_def x_def tls_restore)
qed

lemma thread_ok_top:
  assumes "thread_ok w tls st"
  shows "\<exists>k. scopes w (get_top_scope tls) = Some k \<and> get_top_scope tls \<noteq> 1 \<and> get_persona tls k = get_top_persona tls"
proof -
  note d = thread_okD [OF assms]
  obtain y ys where st: "st = y # ys" using d(2) by (cases st) simp_all
  obtain k where k: "get_top_scope tls = y" "y \<noteq> 1" "scopes w y = Some k" using d(1) unfolding st chain.simps by blast
  have "get_top_persona tls = get_persona tls k" using d(6) k(3) by (simp add: st scope_persona_def)
  then show ?thesis using k by simp
qed

text \<open>
  A persona scope is undone exactly: constructing it and destroying it leaves the whole
  program as it was, whether or not the persona was active already.
\<close>

theorem persona_scope_roundtrip:
  assumes ok: "world_ok w st" and sc: "scopes w sc = None" "sc \<noteq> 0" "sc \<noteq> 1"
    and w1: "persona_scope t sc p w = Some w1"
  shows "persona_scope_destroy t sc w1 = Some w"
proof -
  obtain tls per k where h: "threads w t = Some tls" "personas w p = Some per"
    "persona_active p per \<longrightarrow> active_with_caller tls p per"
    "k = (set_persona p tls (persona_scope_raw_init))\<lparr>next_scope := get_top_scope tls,
       next_unique := if persona_active p per then 1 else get_top_unique_scope tls\<rparr>"
    "w1 = put_tls t (if persona_active p per then set_top_persona p (set_top_scope sc tls)
        else set_top_unique_scope sc (set_top_persona p (set_top_scope sc tls)))
      (put_persona p (set_owner p (default_persona tls) per) (put_scope sc k w))"
    by (rule persona_scope_unfold [OF w1])
  note d = thread_okD [OF world_okD(1) [OF ok h(1)]]
  obtain top where top: "scopes w (get_top_scope tls) = Some top" "get_top_scope tls \<noteq> 1" "get_persona tls top = get_top_persona tls"
    using thread_ok_top [OF world_okD(1) [OF ok h(1)]] by blast
  have ts: "sc \<noteq> get_top_scope tls" using sc(1) top(1) by (metis option.distinct(1))
  have nu: "get_top_unique_scope tls \<noteq> 1" by (rule chain_not_one [OF d(7)])
  have kk: "get_persona tls k = p" "next_scope k = get_top_scope tls" "\<not> unlocker k"
    by (simp_all add: h(4) persona_scope_raw_init_def set_persona_def get_persona_def)
  show ?thesis
  proof (cases "persona_active p per")
    case True
    let ?tls = "set_top_persona p (set_top_scope sc tls)"
    have so: "set_owner p (default_persona tls) per = per"
      by (rule set_owner_same) (use h(3) True in \<open>simp add: active_with_caller_def\<close>)
    have pid: "put_persona p per (put_scope sc k w) = put_scope sc k w"
      by (rule put_persona_id) (simp add: put_scope_def h(2))
    have w1': "w1 = put_tls t ?tls (put_scope sc k w)" using True by (simp add: h(5) so pid)
    have s1: "scopes w1 sc = Some k" "scopes w1 (get_top_scope tls) = Some top" "threads w1 t = Some ?tls"
      using ts top(1) by (simp_all add: w1' put_tls_def put_scope_def)
    have u1: "next_unique k = 1" using True by (simp add: h(4))
    have "persona_scope_destroy t sc w1 = Some (delete_scope sc (put_tls t tls w1))"
      using s1 kk u1 top(2,3) tls_restore(1) [of tls p sc] by (simp add: persona_scope_destroy_def Let_def)
    also have "delete_scope sc (put_tls t tls w1) = w"
      using delete_put_scope [OF sc(1), of k] put_tls_id [of "delete_scope sc (put_scope sc k w)" t tls] h(1)
      by (simp add: w1' delete_scope_def put_tls_def put_scope_def)
    finally show ?thesis .
  next
    case False
    let ?tls = "set_top_unique_scope sc (set_top_persona p (set_top_scope sc tls))"
    let ?per = "set_owner p (default_persona tls) per"
    have o: "get_owner p per = 0" using False by (simp add: persona_active_def)
    have w1': "w1 = put_tls t ?tls (put_persona p ?per (put_scope sc k w))" using False by (simp add: h(5))
    have s1: "scopes w1 sc = Some k" "scopes w1 (get_top_scope tls) = Some top" "threads w1 t = Some ?tls" "personas w1 p = Some ?per"
      using ts top(1) by (simp_all add: w1' put_tls_def put_scope_def put_persona_def)
    have u1: "next_unique k = get_top_unique_scope tls" using False by (simp add: h(4))
    have "persona_scope_destroy t sc w1 = Some (delete_scope sc (put_tls t tls (put_persona p per w1)))"
      using s1 kk u1 nu top(2,3) tls_restore(2) [of tls sc p] owner_restore [OF o]
      by (simp add: persona_scope_destroy_def Let_def)
    also have "delete_scope sc (put_tls t tls (put_persona p per w1)) = w"
      using delete_put_scope [OF sc(1), of k] put_tls_id [of w t tls] put_persona_id [of w p per] h(1,2)
      by (simp add: w1' delete_scope_def put_tls_def put_scope_def put_persona_def)
    finally show ?thesis .
  qed
qed

text \<open>
  Moving a scope that is on the stack breaks the stack: the thread still refers to the scope that was moved from,
  and the destructor of the new scope fails its assertion.
\<close>

theorem persona_scope_move_breaks:
  assumes w1: "persona_scope t sc p w = Some w1" and sc: "sc' \<noteq> sc" "scopes w sc' = None"
    and top: "\<And>tls. threads w t = Some tls \<Longrightarrow> get_top_scope tls \<noteq> 1"
  shows "\<exists>w2. persona_scope_move sc' sc w1 = Some w2 \<and> persona_scope_destroy t sc' w2 = None"
proof -
  obtain tls per k where h: "threads w t = Some tls" "personas w p = Some per"
    "k = (set_persona p tls (persona_scope_raw_init))\<lparr>next_scope := get_top_scope tls,
       next_unique := if persona_active p per then 1 else get_top_unique_scope tls\<rparr>"
    "w1 = put_tls t (if persona_active p per then set_top_persona p (set_top_scope sc tls)
        else set_top_unique_scope sc (set_top_persona p (set_top_scope sc tls)))
      (put_persona p (set_owner p (default_persona tls) per) (put_scope sc k w))"
    by (rule persona_scope_unfold [OF w1])
  have k: "next_scope k \<noteq> 1" using top h(1) by (simp add: h(3))
  have s1: "scopes w1 sc = Some k" "threads w1 t = Some (if persona_active p per then set_top_persona p (set_top_scope sc tls)
        else set_top_unique_scope sc (set_top_persona p (set_top_scope sc tls)))"
    by (simp_all add: h(4) put_tls_def put_persona_def put_scope_def)
  show ?thesis
    using s1 k sc(1)
    by (auto simp: persona_scope_move_def persona_scope_destroy_def put_scope_def)
qed

subsection \<open>Every active persona\<close>

text \<open>
  The visit of a list of personas: the callback runs on each with a redundant scope pushed for it, and the scope is
  popped again.
\<close>

fun visit ::
  "nat \<Rightarrow> u64 \<Rightarrow> (u64 \<Rightarrow> 'v pworld \<Rightarrow> (nat \<times> 'v pworld) option) \<Rightarrow> u64 list \<Rightarrow> 'v pworld \<Rightarrow> (nat \<times> 'v pworld) option" where
  "visit t sc fn [] w = Some (0, w)"
| "visit t sc fn (p # ps) w =
     do {
       tls \<leftarrow> threads w t;
       (n, w1) \<leftarrow> fn p (as_top t sc p tls w);
       (k, w2) \<leftarrow> visit t sc fn ps (delete_scope sc (put_tls t tls w1));
       Some (n + k, w2)
     }"

text \<open>A callback leaves the stack of its thread and the temporary scope as it found them.\<close>

definition keeps_stack :: "nat \<Rightarrow> u64 set \<Rightarrow> (u64 \<Rightarrow> 'v pworld \<Rightarrow> (nat \<times> 'v pworld) option) \<Rightarrow> bool" where
  "keeps_stack t S fn \<longleftrightarrow> (\<forall>p w n w'. fn p w = Some (n, w') \<longrightarrow> threads w' t = threads w t \<and> (\<forall>x \<in> S. scopes w' x = scopes w x))"

lemma keeps_stackD: "keeps_stack t S fn \<Longrightarrow> fn p w = Some (n, w') \<Longrightarrow> threads w' t = threads w t \<and> (\<forall>x \<in> S. scopes w' x = scopes w x)"
  unfolding keeps_stack_def by blast

lemma visit_step:
  assumes "keeps_stack t (insert sc S) fn" "sc \<notin> S" "fn p (as_top t sc p tls w) = Some (n, w1)"
  defines "w2 \<equiv> delete_scope sc (put_tls t tls w1)"
  shows "persona_scope_redundant_destroy sc w1 = Some w2" "threads w2 t = Some tls" "scopes w2 sc = None"
    "\<forall>x \<in> S. scopes w1 x = scopes w x" "\<forall>x \<in> S. scopes w2 x = scopes w x"
proof -
  have k: "threads w1 t = threads (as_top t sc p tls w) t" "\<forall>x \<in> insert sc S. scopes w1 x = scopes (as_top t sc p tls w) x"
    using keeps_stackD [OF assms(1,3)] by simp_all
  show "persona_scope_redundant_destroy sc w1 = Some w2" unfolding w2_def using k by (intro redundant_undone) simp_all
  show "threads w2 t = Some tls" "scopes w2 sc = None" by (simp_all add: w2_def delete_scope_def put_tls_def)
  have ne: "x \<noteq> sc" if "x \<in> S" for x using that assms(2) by blast
  show e: "\<forall>x \<in> S. scopes w1 x = scopes w x" using k(2) ne by simp
  then show "\<forall>x \<in> S. scopes w2 x = scopes w x" using ne by (simp add: w2_def delete_scope_def put_tls_def)
qed

lemma visit_keeps:
  assumes "keeps_stack t (insert sc S) fn" "sc \<notin> S"
  shows "threads w t = Some tls \<Longrightarrow> scopes w sc = None \<Longrightarrow> visit t sc fn ps w = Some (n, w') \<Longrightarrow>
    threads w' t = Some tls \<and> scopes w' sc = None \<and> (\<forall>x \<in> S. scopes w' x = scopes w x)"
proof (induction ps arbitrary: w n)
  case (Cons p ps)
  from Cons.prems obtain a w1 k where a: "fn p (as_top t sc p tls w) = Some (a, w1)"
      "visit t sc fn ps (delete_scope sc (put_tls t tls w1)) = Some (k, w')"
    by (auto simp: Option.bind_eq_Some_conv)
  note st = visit_step [OF assms a(1)]
  from Cons.IH [OF st(2,3) a(2)] st(5) show ?case by simp
qed simp

lemma foreach_from:
  assumes fn: "keeps_stack t (insert sc S) fn" "sc \<notin> S"
  shows "chain next_unique (scopes w) ps xs \<Longrightarrow> xs \<noteq> [] \<Longrightarrow> set xs \<subseteq> S \<Longrightarrow> threads w t = Some tls \<Longrightarrow>
    foreach_active_from t sc fn ps acc w = map_option (apfst ((+) acc)) (visit t sc fn (map (scope_persona w tls) xs) w)"
proof (induction xs arbitrary: ps acc w)
  case (Cons x xs)
  obtain k where k: "ps = x" "scopes w x = Some k" "chain next_unique (scopes w) (next_unique k) xs" using Cons.prems(1) by auto
  let ?p = "get_persona tls k"
  have sp: "scope_persona w tls x = ?p" using k(2) by (simp add: scope_persona_def)
  note red = redundant_as_top [OF Cons.prems(4), of sc ?p]
  show ?case
  proof (cases "fn ?p (as_top t sc ?p tls w)")
    case None
    then show ?thesis by (subst foreach_active_from.simps) (simp add: k Cons.prems(4) red sp)
  next
    case (Some r)
    obtain n w1 where r: "r = (n, w1)" by (cases r)
    let ?w2 = "delete_scope sc (put_tls t tls w1)"
    note st = visit_step [OF fn Some [unfolded r]]
    have x1: "scopes w1 x = Some k" using st(4) k(2) Cons.prems(3) by simp
    have step: "foreach_active_from t sc fn ps acc w =
        (if next_unique k = 0 then Some (acc + n, ?w2) else foreach_active_from t sc fn (next_unique k) (acc + n) ?w2)"
      by (subst foreach_active_from.simps) (simp add: k(1,2) Cons.prems(4) red Some r x1 st(1))
    have vis: "visit t sc fn (map (scope_persona w tls) (x # xs)) w =
        map_option (apfst ((+) n)) (visit t sc fn (map (scope_persona w tls) xs) ?w2)"
      by (simp add: Cons.prems(4) sp Some r map_option_case split: option.split)
    show ?thesis
    proof (cases "xs = []")
      case True
      then show ?thesis using k(3) vis by (simp add: step)
    next
      case False
      have s: "\<forall>y \<in> set xs. scopes ?w2 y = scopes w y" using st(5) Cons.prems(3) by auto
      have "chain next_unique (scopes ?w2) (next_unique k) xs" using chain_cong [of xs "scopes ?w2" "scopes w"] s k(3) by simp
      moreover have m: "map (scope_persona ?w2 tls) xs = map (scope_persona w tls) xs" using s by (simp add: scope_persona_def)
      moreover have "next_unique k \<noteq> 0" using k(3) False by (cases xs) auto
      ultimately have "foreach_active_from t sc fn ps acc w =
          map_option (apfst ((+) (acc + n))) (visit t sc fn (map (scope_persona w tls) xs) ?w2)"
        using Cons.IH [of ?w2 "next_unique k" "acc + n", unfolded m] False Cons.prems(3) st(2) by (simp add: step)
      also have "apfst ((+) (acc + n)) = apfst ((+) acc) \<circ> apfst ((+) n)" for acc n :: nat
        by (simp add: fun_eq_iff)
      finally show ?thesis unfolding vis by (simp only: option.map_comp)
    qed
  qed
qed simp

text \<open>
  (C34) The loop over the active personas of a thread ends and visits each of them exactly once, whatever the callback does to
  personas, inboxes and futures, as long as it leaves the stack of the thread as it found it: the callback runs with that persona as
  the current one, on the program as the calls before it left it, and after each call the scope is popped, so
  that the stack is what it was. A callback that fails makes the loop fail.
\<close>

theorem foreach_active_exactly_once:
  assumes ok: "world_ok w st" and t: "threads w t = Some tls" and sc: "scopes w sc = None"
    and fn: "keeps_stack t (insert sc (set (st t))) fn"
  shows "\<exists>ps. distinct ps \<and> set ps = owned w (default_persona tls) \<and>
     foreach_active_as_top t sc fn w = visit t sc fn ps w \<and>
     (\<forall>p v. current_persona t (as_top t sc p tls v) = Some p \<and> personas (as_top t sc p tls v) = personas v \<and>
        heap (as_top t sc p tls v) = heap v) \<and>
     (\<forall>n w'. foreach_active_as_top t sc fn w = Some (n, w') \<longrightarrow>
        threads w' t = Some tls \<and> scopes w' sc = None \<and> (\<forall>x \<in> set (st t). scopes w' x = scopes w x))"
proof -
  note d = thread_okD [OF world_okD(1) [OF ok t]]
  let ?u = "filter (is_unique w) (st t)"
  let ?ps = "map (scope_persona w tls) ?u"
  have im: "set ?ps = owned w (default_persona tls)" using nested_unique_image [OF d(8)] d(9) by simp
  have ns: "sc \<notin> set (st t)" using chain_mem [OF d(1), of sc] sc by auto
  have "?u \<noteq> []"
  proof
    assume "?u = []"
    then have "scope_persona w tls ` set (st t) = {}" using nested_unique_image [OF d(8)] by simp
    then show False using d(2) by simp
  qed
  then have e: "foreach_active_as_top t sc fn w = visit t sc fn ?ps w"
    using foreach_from [OF fn ns d(7), of tls 0] t by (simp add: foreach_active_as_top_def apfst_def map_prod_def option.map_id0 case_prod_beta)
  have "\<forall>n w'. foreach_active_as_top t sc fn w = Some (n, w') \<longrightarrow>
      threads w' t = Some tls \<and> scopes w' sc = None \<and> (\<forall>x \<in> set (st t). scopes w' x = scopes w x)"
    unfolding e using visit_keeps [OF fn ns t sc] by blast
  moreover have "\<forall>p v. current_persona t (as_top t sc p tls v) = Some p \<and> personas (as_top t sc p tls v) = personas v \<and>
        heap (as_top t sc p tls v) = heap v" by (simp add: current_persona_def)
  ultimately show ?thesis using nested_distinct [OF d(8)] im e by blast
qed

subsection \<open>An example\<close>

text \<open>Two threads with their default personas, and a third persona that nobody holds.\<close>

definition two_threads :: "int pworld" where
  "two_threads =
     \<lparr>heap = pending_heap 1 (Body_proxy 10),
      personas = [100 \<mapsto> default_persona_init, 110 \<mapsto> default_persona_init, 300 \<mapsto> persona_init 300],
      scopes = [200 \<mapsto> persona_scope_raw_init, 210 \<mapsto> persona_scope_raw_init],
      threads = [0 \<mapsto> persona_tls_init 100 200, 1 \<mapsto> persona_tls_init 110 210],
      lock_held = \<lambda>_. False, threadmode_seq = False, master_persona = 100\<rparr>"

definition two_stacks :: "nat \<Rightarrow> u64 list" where
  "two_stacks t = (if t = 0 then [200] else [210])"

lemma two_threads_owned: "owned two_threads 100 = {100}" "owned two_threads 110 = {110}"
  by (auto simp: owned_def two_threads_def default_persona_init_def persona_init_def get_owner_def split: if_splits)

lemma two_threads_ok: "world_ok two_threads two_stacks"
proof -
  have "thread_ok two_threads (persona_tls_init 100 200) [200]"
    unfolding thread_ok_def
    using two_threads_owned
    by (simp add: persona_tls_init_def get_top_scope_def get_top_unique_scope_def get_top_persona_def scope_persona_def
        is_unique_def two_threads_def persona_scope_raw_init_def get_persona_def)
  moreover have "thread_ok two_threads (persona_tls_init 110 210) [210]"
    unfolding thread_ok_def
    using two_threads_owned
    by (simp add: persona_tls_init_def get_top_scope_def get_top_unique_scope_def get_top_persona_def scope_persona_def
        is_unique_def two_threads_def persona_scope_raw_init_def get_persona_def)
  ultimately show ?thesis
    unfolding world_ok_def by (auto simp: two_threads_def two_stacks_def persona_tls_init_def split: if_splits)
qed

lemma two_threads_scope:
  "\<exists>w'. persona_scope 0 220 300 two_threads = Some w'" "scopes two_threads 220 = None" "threads two_threads 0 = Some (persona_tls_init 100 200)"
  by (simp_all add: persona_scope_def activate_def put_scope_def two_threads_def persona_active_def get_owner_def persona_init_def Let_def)

theorem persona_scope_correct_witness:
  "\<exists>w'. persona_scope 0 220 300 two_threads = Some w' \<and> world_ok w' (two_stacks(0 := [220, 200]))"
proof -
  obtain w' where w': "persona_scope 0 220 300 two_threads = Some w'" using two_threads_scope(1) by blast
  then show ?thesis
    using persona_scope_correct [OF two_threads_ok w' two_threads_scope(2)] by (simp add: two_stacks_def)
qed

theorem persona_scope_destroy_correct_witness:
  "\<exists>w w' :: int pworld. persona_scope_destroy 0 220 w = Some w' \<and> world_ok w' two_stacks"
proof -
  obtain w where w: "persona_scope 0 220 300 two_threads = Some w" using two_threads_scope(1) by blast
  have ok: "world_ok w (two_stacks(0 := [220, 200]))"
    using persona_scope_pushes [OF two_threads_ok w two_threads_scope(2)] by (simp add: two_stacks_def)
  obtain tls per k where h: "threads two_threads 0 = Some tls"
    "w = put_tls 0 (if persona_active 300 per then set_top_persona 300 (set_top_scope 220 tls)
        else set_top_unique_scope 220 (set_top_persona 300 (set_top_scope 220 tls)))
      (put_persona 300 (set_owner 300 (default_persona tls) per) (put_scope 220 k two_threads))"
    by (rule persona_scope_unfold [OF w])
  then have "\<exists>y. threads w 0 = Some y" "scopes w 220 = Some k" by (simp_all add: put_tls_def put_persona_def put_scope_def)
  then obtain y where y: "threads w 0 = Some y" "scopes w 220 = Some k" by blast
  have e: "two_stacks(0 := [200]) = two_stacks" by (auto simp: two_stacks_def fun_eq_iff)
  show ?thesis
    using persona_scope_destroy_correct [OF ok y(1) _ _ y(2), of "[200]"] by (auto simp: e)
qed

theorem persona_exclusive_witness:
  "110 \<in> scope_persona two_threads (persona_tls_init 110 210) ` set (two_stacks 1) \<and> persona_scope 0 220 110 two_threads = None"
proof -
  have "110 \<in> scope_persona two_threads (persona_tls_init 110 210) ` set (two_stacks 1)"
    by (simp add: two_stacks_def scope_persona_def two_threads_def persona_scope_raw_init_def get_persona_def persona_tls_init_def)
  then show ?thesis
    using persona_exclusive [OF two_threads_ok, of 1 "persona_tls_init 110 210" 0 "persona_tls_init 100 200" 110 220]
    by (simp add: two_threads_def)
qed

theorem persona_scope_roundtrip_witness:
  "\<exists>w1. persona_scope 0 220 300 two_threads = Some w1 \<and> persona_scope_destroy 0 220 w1 = Some two_threads"
proof -
  obtain w1 where w1: "persona_scope 0 220 300 two_threads = Some w1" using two_threads_scope(1) by blast
  then show ?thesis using persona_scope_roundtrip [OF two_threads_ok two_threads_scope(2) _ _ w1] by simp
qed

theorem persona_scope_move_breaks_witness:
  "\<exists>w1 w2. persona_scope 0 220 300 two_threads = Some w1 \<and> persona_scope_move 230 220 w1 = Some w2 \<and> persona_scope_destroy 0 230 w2 = None"
proof -
  obtain w1 where w1: "persona_scope 0 220 300 two_threads = Some w1" using two_threads_scope(1) by blast
  have "\<exists>w2. persona_scope_move 230 220 w1 = Some w2 \<and> persona_scope_destroy 0 230 w2 = None"
    by (rule persona_scope_move_breaks [OF w1]) (auto simp: two_threads_def persona_tls_init_def get_top_scope_def)
  then show ?thesis using w1 by blast
qed

text \<open>A callback that sends a call to the persona that is current when it runs.\<close>

definition sends_current :: "u64 \<Rightarrow> int pworld \<Rightarrow> (nat \<times> int pworld) option" where
  "sends_current p w = do { q \<leftarrow> current_persona 0 w; w \<leftarrow> enqueue_self q User (Lpc_fn 7) w; Some (1, w) }"

theorem foreach_active_exactly_once_witness:
  "\<exists>w'. foreach_active_as_top 0 220 sends_current two_threads = Some (1, w') \<and>
     personas w' 100 = Some (default_persona_init\<lparr>self_inbox := (\<lambda>_. [])(User := [Lpc_fn 7])\<rparr>)"
proof -
  have k: "keeps_stack 0 (insert 220 (set (two_stacks 0))) sends_current"
    by (auto simp: keeps_stack_def sends_current_def enqueue_self_def put_persona_def Option.bind_eq_Some_conv)
  obtain ps where ps: "distinct ps" "set ps = owned two_threads (default_persona (persona_tls_init 100 200))"
      "foreach_active_as_top 0 220 sends_current two_threads = visit 0 220 sends_current ps two_threads"
    using foreach_active_exactly_once [OF two_threads_ok two_threads_scope(3,2) k] by blast
  have "set ps = {100}" using ps(2) two_threads_owned by (simp add: persona_tls_init_def)
  then have "ps = [100]" using ps(1) by (cases ps; cases "tl ps") auto
  then show ?thesis unfolding ps(3)
    using two_threads_scope(3)
    by (simp add: sends_current_def current_persona_def enqueue_self_def)
      (simp add: two_threads_def default_persona_init_def put_persona_def delete_scope_def put_tls_def)
qed

subsection \<open>Deferred fulfilment of promises\<close>

fun fulfill_calls :: "(hptr \<Rightarrow> bool) \<Rightarrow> nat \<Rightarrow> u64 \<Rightarrow> hptr \<Rightarrow> int list \<Rightarrow> 'v pworld \<Rightarrow> 'v pworld option" where
  "fulfill_calls trivial t p pro [] w = Some w"
| "fulfill_calls trivial t p pro (d # ds) w =
     do { w \<leftarrow> fulfill_during_user_of_active trivial t p pro d w; fulfill_calls trivial t p pro ds w }"

definition promise_queued :: "(hptr \<Rightarrow> bool) \<Rightarrow> u64 \<Rightarrow> hptr \<Rightarrow> 'v persona \<Rightarrow> 'v pworld \<Rightarrow> 'v pworld" where
  "promise_queued trivial p pro per w =
     put_persona p
       (if trivial pro then per\<lparr>pros_deferred_trivial := pros_deferred_trivial per @ [Lpc_promise pro]\<rparr>
        else per\<lparr>self_inbox := (self_inbox per)(User := self_inbox per User @ [Lpc_promise pro])\<rparr>) w"

lemma fulfill_more:
  assumes "is_active_with t p w = Some True" "headers (heap w) pro = Some a" "pro_meta a = Some m" "0 < deferred_decrements m"
    "\<forall>d \<in> set ds. 0 < d" "int (length ds) < ref_n a"
  shows "fulfill_calls trivial t p pro ds w =
     Some (w\<lparr>heap := (if ds = [] then heap w else put_header pro (a\<lparr>ref_n := ref_n a - int (length ds),
       pro_meta := Some (m\<lparr>deferred_decrements := deferred_decrements m + sum_list ds\<rparr>)\<rparr>) (heap w))\<rparr>)"
  using assms
proof (induction ds arbitrary: w a m)
  case (Cons d ds)
  let ?m = "m\<lparr>deferred_decrements := deferred_decrements m + d\<rparr>"
  let ?a = "a\<lparr>ref_n := ref_n a - 1, pro_meta := Some ?m\<rparr>"
  let ?w = "w\<lparr>heap := put_header pro ?a (heap w)\<rparr>"
  have step: "fulfill_during_user_of_active trivial t p pro d w = Some ?w"
    using Cons.prems
    by (cases a) (simp add: fulfill_during_user_of_active_def get_meta_def put_meta_def ops_dropref_def decref_fast_def put_header_def)
  have "fulfill_calls trivial t p pro ds ?w =
     Some (?w\<lparr>heap := (if ds = [] then heap ?w else put_header pro (?a\<lparr>ref_n := ref_n ?a - int (length ds),
       pro_meta := Some (?m\<lparr>deferred_decrements := deferred_decrements ?m + sum_list ds\<rparr>)\<rparr>) (heap ?w))\<rparr>)"
    using Cons.prems by (intro Cons.IH) (auto simp: is_active_with_def put_header_def)
  then show ?case by (auto simp: step put_header_def algebra_simps)
qed simp

text \<open>
  (C35) However often a quiet promise is fulfilled during the user progress of an active persona, it is queued exactly
  once, with all its decrements added up, and it keeps exactly one of the references it was given.
\<close>

theorem fulfill_during_queues_once:
  assumes act: "is_active_with t p w = Some True" "personas w p = Some per"
    and h: "headers (heap w) pro = Some a" "pro_meta a = Some m" "deferred_decrements m = 0"
    and ds: "ds \<noteq> []" "\<forall>d \<in> set ds. 0 < d" "int (length ds) \<le> ref_n a"
  shows "fulfill_calls trivial t p pro ds w =
     Some (promise_queued trivial p pro per (w\<lparr>heap := put_header pro (a\<lparr>ref_n := ref_n a - int (length ds - 1),
       pro_meta := Some (m\<lparr>deferred_decrements := sum_list ds\<rparr>)\<rparr>) (heap w)\<rparr>))"
proof -
  obtain d es where de: "ds = d # es" using ds(1) by (cases ds) auto
  let ?m = "m\<lparr>deferred_decrements := d\<rparr>"
  let ?a = "a\<lparr>pro_meta := Some ?m\<rparr>"
  let ?w = "promise_queued trivial p pro per (w\<lparr>heap := put_header pro ?a (heap w)\<rparr>)"
  have step: "fulfill_during_user_of_active trivial t p pro d w = Some ?w"
    using act h by (simp add: fulfill_during_user_of_active_def get_meta_def put_meta_def enqueue_deferred_def enqueue_self_def
        promise_queued_def put_header_def)
  have act': "is_active_with t p ?w = Some True"
    using act by (auto simp: is_active_with_def promise_queued_def put_persona_def active_with_caller_def get_owner_def Option.bind_eq_Some_conv)
  have hd: "headers (heap ?w) pro = Some ?a" by (simp add: promise_queued_def put_persona_def put_header_def)
  have "fulfill_calls trivial t p pro es ?w =
     Some (?w\<lparr>heap := (if es = [] then heap ?w else put_header pro (?a\<lparr>ref_n := ref_n ?a - int (length es),
       pro_meta := Some (?m\<lparr>deferred_decrements := deferred_decrements ?m + sum_list es\<rparr>)\<rparr>) (heap ?w))\<rparr>)"
    using ds by (intro fulfill_more [OF act' hd]) (auto simp: de)
  then show ?thesis
    using ds by (auto simp: de step promise_queued_def put_persona_def put_header_def)
qed

theorem fulfill_during_queues_once_witness:
  "fulfill_calls (\<lambda>_. True) 0 100 2 [1, 1] two_threads =
     Some (promise_queued (\<lambda>_. True) 100 2 default_persona_init (two_threads\<lparr>heap := put_header 2 (pending_promise\<lparr>ref_n := 1,
       pro_meta := Some \<lparr>countdown = 2, deferred_decrements = 2\<rparr>\<rparr>) (heap two_threads)\<rparr>))"
proof -
  have a: "is_active_with 0 100 two_threads = Some True" "personas two_threads 100 = Some default_persona_init"
      "headers (heap two_threads) 2 = Some pending_promise"
    by (simp_all add: is_active_with_def two_threads_def active_with_caller_def get_owner_def default_persona_init_def persona_tls_init_def
        pending_heap_headers)
  show ?thesis
    using fulfill_during_queues_once [OF a, of "\<lparr>countdown = 2, deferred_decrements = 0\<rparr>" "[1, 1]" "\<lambda>_. True"]
    by (simp add: pending_promise_def del: fulfill_calls.simps)
qed

end
