(* ===== verification/Serialization.thy ===== *)
theory Serialization
  imports Prelude "HOL-Library.Monad_Syntax"
begin

text \<open>
  Component serialization (src/serialization.hpp): storage sizes, the writer into a buffer of known size, the
  reader, and the serialization of types: trivially copied ones, classes with listed fields or values, tuples, pairs,
  arrays, strings and sequence containers. A C++ type is a value of \<open>ty\<close>; each function of
  \<open>serialization_traits\<close> is a function on \<open>ty\<close>. Addresses and sizes are words that wrap. The result
  \<open>None\<close> is a failed assertion.
\<close>

unbundle bit_operations_syntax

subsection \<open>Storage sizes\<close>

text \<open>The template parameters of \<open>storage_size\<close>, and the members \<open>size\<close> and \<open>align\<close>. The size
  \<open>-1\<close> is an invalid storage size, \<open>-2\<close> one that is known only at run time.\<close>

type_synonym ss_type = "u64 \<times> u64"

record storage_size =
  ss_type :: ss_type
  ss_size :: u64
  ss_align :: u64

definition make_storage_size :: "ss_type \<Rightarrow> u64 \<Rightarrow> u64 \<Rightarrow> storage_size" where
  "make_storage_size p dyn_size dyn_align =
     \<lparr>ss_type = p, ss_size = (if fst p = - 2 then dyn_size else fst p),
      ss_align = (if fst p = - 2 then dyn_align else snd p)\<rparr>"

definition invalid_storage_size :: storage_size where
  "invalid_storage_size = make_storage_size (- 1, - 1) (- 1) (- 1)"

definition empty_storage_size :: storage_size where
  "empty_storage_size = make_storage_size (0, 1) 0 1"

definition storage_size_of :: "u64 \<Rightarrow> u64 \<Rightarrow> storage_size" where
  "storage_size_of sz al = make_storage_size (sz, al) sz al"

definition ss_is_valid :: "ss_type \<Rightarrow> bool" where
  "ss_is_valid p \<longleftrightarrow> fst p \<noteq> - 1"

definition static_otherwise_invalid_t :: "ss_type \<Rightarrow> ss_type" where
  "static_otherwise_invalid_t p = (if fst p = - 1 \<or> fst p = - 2 then (- 1, - 1) else p)"

definition align_up :: "u64 \<Rightarrow> u64 \<Rightarrow> u64" where
  "align_up x a = (x + a - 1) AND - a"

definition size_aligned :: "storage_size \<Rightarrow> u64 \<Rightarrow> u64" where
  "size_aligned s min_align =
     align_up (ss_size s) (if min_align > ss_align s then min_align else ss_align s)"

definition cat_return_t :: "ss_type \<Rightarrow> ss_type \<Rightarrow> ss_type" where
  "cat_return_t p q =
     (if fst p \<ge> - 2 \<or> fst q \<ge> - 2 then (if fst p > fst q then fst p else fst q)
      else align_up (fst p) (snd q) + fst q,
      if snd p > snd q then snd p else snd q)"

definition cat_help :: "storage_size \<Rightarrow> ss_type \<Rightarrow> u64 \<Rightarrow> u64 \<Rightarrow> storage_size" where
  "cat_help s q size1 align1 =
     make_storage_size (cat_return_t (ss_type s) q)
       (align_up (ss_size s) align1 + size1) (if ss_align s > align1 then ss_align s else align1)"

definition cat :: "storage_size \<Rightarrow> storage_size \<Rightarrow> storage_size" where
  "cat s that = cat_help s (ss_type that) (ss_size that) (ss_align that)"

definition cat_size_of :: "storage_size \<Rightarrow> u64 \<Rightarrow> u64 \<Rightarrow> storage_size" where
  "cat_size_of s sz al = cat s (storage_size_of sz al)"

text \<open>\<open>arrayed(n)\<close>, with its return type, and \<open>arrayed<n>()\<close>.\<close>

definition arrayed_t :: "ss_type \<Rightarrow> ss_type" where
  "arrayed_t p = (if - fst p = 1 then (- 1, - 1) else (- 2, snd p))"

definition arrayed :: "storage_size \<Rightarrow> u64 \<Rightarrow> storage_size" where
  "arrayed s n =
     make_storage_size (arrayed_t (ss_type s))
       (if n = 1 then ss_size s else n * size_aligned s 1) (if n = 0 then 1 else ss_align s)"

definition arrayed_static_t :: "ss_type \<Rightarrow> u64 \<Rightarrow> ss_type" where
  "arrayed_static_t p n =
     (if n = 0 then 0 else if - fst p = 1 then - 1 else if - fst p = 2 then - 2
      else if n = 1 then fst p else n * align_up (fst p) (snd p),
      if n = 0 then 1 else if - snd p = 1 then - 1 else snd p)"

definition arrayed_static :: "storage_size \<Rightarrow> u64 \<Rightarrow> storage_size" where
  "arrayed_static s n =
     make_storage_size (arrayed_static_t (ss_type s) n)
       (if n = 1 then ss_size s else n * size_aligned s 1) (if n = 0 then 1 else ss_align s)"

subsection \<open>Memory\<close>

type_synonym bytes = "u64 \<Rightarrow> u8"

definition store :: "u64 \<Rightarrow> u8 list \<Rightarrow> bytes \<Rightarrow> bytes" where
  "store a bs m = (\<lambda>x. if x - a < word_of_nat (length bs) then bs ! unat (x - a) else m x)"

definition load :: "bytes \<Rightarrow> u64 \<Rightarrow> nat \<Rightarrow> u8 list" where
  "load m a n = map (\<lambda>i. m (a + word_of_nat i)) [0..<n]"

text \<open>The bytes of a \<open>size_t\<close>, the low one first.\<close>

primrec le_bytes :: "nat \<Rightarrow> u64 \<Rightarrow> u8 list" where
  "le_bytes 0 x = []"
| "le_bytes (Suc k) x = ucast x # le_bytes k (drop_bit 8 x)"

primrec of_le_bytes :: "u8 list \<Rightarrow> u64" where
  "of_le_bytes [] = 0"
| "of_le_bytes (b # bs) = ucast b OR push_bit 8 (of_le_bytes bs)"

definition is_aligned :: "u64 \<Rightarrow> u64 \<Rightarrow> bool" where
  "is_aligned x al \<longleftrightarrow> x AND (al - 1) = 0"

subsection \<open>The writer into a buffer of known size\<close>

record bwriter =
  bw_mem :: bytes
  bw_buf :: u64
  bw_size :: u64
  bw_align :: u64

definition bwriter_init :: "bytes \<Rightarrow> u64 \<Rightarrow> bwriter" where
  "bwriter_init m buf = \<lparr>bw_mem = m, bw_buf = buf, bw_size = 0, bw_align = 1\<rparr>"

definition place :: "u64 \<Rightarrow> u64 \<Rightarrow> bwriter \<Rightarrow> (u64 \<times> bwriter) option" where
  "place obj_size obj_align w =
     (if is_aligned (bw_buf w) obj_align
      then let size0 = align_up (bw_size w) obj_align
           in Some (bw_buf w + size0,
                w\<lparr>bw_size := size0 + obj_size,
                  bw_align := (if obj_align > bw_align w then obj_align else bw_align w)\<rparr>)
      else None)"

definition write_trivial :: "u64 \<Rightarrow> u64 \<Rightarrow> u8 list \<Rightarrow> bwriter \<Rightarrow> bwriter option" where
  "write_trivial sz al bs w =
     do { (spot, w) \<leftarrow> place sz al w; Some (w\<lparr>bw_mem := store spot (take (unat sz) bs) (bw_mem w)\<rparr>) }"

definition bw_compact :: "u64 \<Rightarrow> bwriter \<Rightarrow> bytes" where
  "bw_compact buf w = store buf (load (bw_mem w) (bw_buf w) (unat (bw_size w))) (bw_mem w)"

subsection \<open>Types and their values\<close>

text \<open>
  A trivially serializable type by its \<open>sizeof\<close> and \<open>alignof\<close>; an empty one; a class with
  \<open>UPCXX_SERIALIZED_FIELDS\<close> or \<open>UPCXX_SERIALIZED_VALUES\<close>; \<open>std::tuple\<close>, \<open>std::pair\<close> and \<open>std::array\<close> where some
  component is not trivially serializable; \<open>std::basic_string\<close> with the size of its characters;
  \<open>std::vector\<close>, \<open>deque\<close> and \<open>list\<close>, with whether the iterators are contiguous; \<open>std::forward_list\<close>.
  Allocators are \<open>std::allocator\<close>, which is empty.
\<close>

datatype ty =
    Ty_trivial u64 u64
  | Ty_empty
  | Ty_fields "ty list"
  | Ty_values "ty list"
  | Ty_tuple "ty list"
  | Ty_pair ty ty
  | Ty_array u64 ty
  | Ty_string u64
  | Ty_sequence bool ty
  | Ty_forward_list ty

datatype val = V_bytes "u8 list" | V_list "val list"

primrec raw :: "val \<Rightarrow> u8 list" where
  "raw (V_bytes bs) = bs"
| "raw (V_list vs) = []"

primrec elts :: "val \<Rightarrow> val list" where
  "elts (V_bytes bs) = []"
| "elts (V_list vs) = vs"

fun is_actually_trivially_serializable :: "ty \<Rightarrow> bool" where
  "is_actually_trivially_serializable (Ty_trivial sz al) = True"
| "is_actually_trivially_serializable t = False"

fun sizeof :: "ty \<Rightarrow> u64" where
  "sizeof (Ty_trivial sz al) = sz"
| "sizeof t = 0"

fun alignof :: "ty \<Rightarrow> u64" where
  "alignof (Ty_trivial sz al) = al"
| "alignof t = 1"

subsection \<open>Bounds on the serialized size\<close>

text \<open>The type of \<open>ubound(pre, x)\<close>, which the templates compute from the type of \<open>pre\<close> alone.\<close>

fun ubound_each_t :: "(ss_type \<Rightarrow> ss_type) list \<Rightarrow> ss_type \<Rightarrow> ss_type" where
  "ubound_each_t [] p = p"
| "ubound_each_t (f # fs) p = ubound_each_t fs (f p)"

primrec ubound_t :: "ty \<Rightarrow> ss_type \<Rightarrow> ss_type" where
  "ubound_t (Ty_trivial sz al) = (\<lambda>p. cat_return_t p (sz, al))"
| "ubound_t Ty_empty = (\<lambda>p. p)"
| "ubound_t (Ty_fields ts) = ubound_each_t (map ubound_t ts)"
| "ubound_t (Ty_values ts) = ubound_each_t (map ubound_t ts)"
| "ubound_t (Ty_tuple ts) = ubound_each_t (map ubound_t ts)"
| "ubound_t (Ty_pair t u) = (\<lambda>p. ubound_t u (ubound_t t p))"
| "ubound_t (Ty_array n t) =
     (\<lambda>p. cat_return_t p (arrayed_static_t (static_otherwise_invalid_t (ubound_t t (0, 1))) n))"
| "ubound_t (Ty_string c) = (\<lambda>p. cat_return_t (cat_return_t p (8, 8)) (arrayed_t (c, c)))"
| "ubound_t (Ty_sequence contig t) =
     (\<lambda>p. cat_return_t (cat_return_t p (8, 8)) (arrayed_t (static_otherwise_invalid_t (ubound_t t (0, 1)))))"
| "ubound_t (Ty_forward_list t) = (\<lambda>p. (- 1, - 1))"

definition static_ubound_t :: "ty \<Rightarrow> ss_type" where
  "static_ubound_t t = static_otherwise_invalid_t (ubound_t t (0, 1))"

definition static_ubound :: "ty \<Rightarrow> storage_size" where
  "static_ubound t = make_storage_size (static_ubound_t t) (fst (static_ubound_t t)) (snd (static_ubound_t t))"

fun ubound_each :: "(val \<Rightarrow> storage_size \<Rightarrow> storage_size) list \<Rightarrow> val list \<Rightarrow> storage_size \<Rightarrow> storage_size" where
  "ubound_each (f # fs) (v # vs) pre = ubound_each fs vs (f v pre)"
| "ubound_each _ _ pre = pre"

definition ubound_pair ::
  "(val \<Rightarrow> storage_size \<Rightarrow> storage_size) \<Rightarrow> (val \<Rightarrow> storage_size \<Rightarrow> storage_size) \<Rightarrow> val list \<Rightarrow>
     storage_size \<Rightarrow> storage_size" where
  "ubound_pair f g vs pre = (case vs of [x, y] \<Rightarrow> g y (f x pre) | _ \<Rightarrow> pre)"

definition ubound_array :: "u64 \<Rightarrow> ty \<Rightarrow> storage_size \<Rightarrow> storage_size" where
  "ubound_array n t pre = cat pre (arrayed_static (static_ubound t) n)"

definition ubound_string :: "u64 \<Rightarrow> val list \<Rightarrow> storage_size \<Rightarrow> storage_size" where
  "ubound_string c vs pre =
     (let n = word_of_nat (length vs) in cat (cat_size_of pre 8 8) (arrayed (storage_size_of c c) n))"

definition ubound_sequence :: "ty \<Rightarrow> val list \<Rightarrow> storage_size \<Rightarrow> storage_size" where
  "ubound_sequence t vs pre =
     (let n = word_of_nat (length vs) in cat (cat_size_of pre 8 8) (arrayed (static_ubound t) n))"

primrec ubound :: "ty \<Rightarrow> val \<Rightarrow> storage_size \<Rightarrow> storage_size" where
  "ubound (Ty_trivial sz al) = (\<lambda>v pre. cat_size_of pre sz al)"
| "ubound Ty_empty = (\<lambda>v pre. pre)"
| "ubound (Ty_fields ts) = (\<lambda>v. ubound_each (map ubound ts) (elts v))"
| "ubound (Ty_values ts) = (\<lambda>v. ubound_each (map ubound ts) (elts v))"
| "ubound (Ty_tuple ts) = (\<lambda>v. ubound_each (map ubound ts) (elts v))"
| "ubound (Ty_pair t u) = (\<lambda>v. ubound_pair (ubound t) (ubound u) (elts v))"
| "ubound (Ty_array n t) = (\<lambda>v. ubound_array n t)"
| "ubound (Ty_string c) = (\<lambda>v. ubound_string c (elts v))"
| "ubound (Ty_sequence contig t) = (\<lambda>v. ubound_sequence t (elts v))"
| "ubound (Ty_forward_list t) = (\<lambda>v pre. invalid_storage_size)"

subsection \<open>Writing\<close>

type_synonym serializer = "val \<Rightarrow> bwriter \<Rightarrow> bwriter option"

fun write_each :: "serializer \<Rightarrow> val list \<Rightarrow> bwriter \<Rightarrow> bwriter option" where
  "write_each f [] w = Some w"
| "write_each f (v # vs) w = do { w \<leftarrow> f v w; write_each f vs w }"

definition write_sequence_trivial :: "u64 \<Rightarrow> u64 \<Rightarrow> val list \<Rightarrow> bwriter \<Rightarrow> bwriter option" where
  "write_sequence_trivial sz al vs w =
     (let n = word_of_nat (length vs); ss = arrayed (storage_size_of sz al) n
      in do { (spot, w) \<leftarrow> place (ss_size ss) (ss_align ss) w;
              Some (w\<lparr>bw_mem := store spot (take (unat (n * sz)) (concat (map raw vs))) (bw_mem w)\<rparr>) })"

text \<open>The number of elements written, and the writer.\<close>

definition write_sequence :: "bool \<Rightarrow> ty \<Rightarrow> serializer \<Rightarrow> val list \<Rightarrow> bwriter \<Rightarrow> (u64 \<times> bwriter) option" where
  "write_sequence contig t f vs w =
     do { w \<leftarrow> (if is_actually_trivially_serializable t \<and> contig
                 then write_sequence_trivial (sizeof t) (alignof t) vs w
                 else write_each f vs w);
          Some (word_of_nat (length vs), w) }"

fun serialize_each :: "serializer list \<Rightarrow> val list \<Rightarrow> bwriter \<Rightarrow> bwriter option" where
  "serialize_each [] [] w = Some w"
| "serialize_each (f # fs) (v # vs) w = do { w \<leftarrow> f v w; serialize_each fs vs w }"
| "serialize_each _ _ w = None"

definition serialize_pair :: "serializer \<Rightarrow> serializer \<Rightarrow> val list \<Rightarrow> bwriter \<Rightarrow> bwriter option" where
  "serialize_pair f g vs w =
     (case vs of [x, y] \<Rightarrow> do { w \<leftarrow> f x w; g y w } | _ \<Rightarrow> None)"

definition serialize_array :: "ty \<Rightarrow> serializer \<Rightarrow> val list \<Rightarrow> bwriter \<Rightarrow> bwriter option" where
  "serialize_array t f vs w = do { (_, w) \<leftarrow> write_sequence True t f vs w; Some w }"

definition serialize_sequence :: "bool \<Rightarrow> ty \<Rightarrow> serializer \<Rightarrow> val list \<Rightarrow> bwriter \<Rightarrow> bwriter option" where
  "serialize_sequence contig t f vs w =
     do { w \<leftarrow> write_trivial 8 8 (le_bytes 8 (word_of_nat (length vs))) w;
          (_, w) \<leftarrow> write_sequence contig t f vs w;
          Some w }"

definition serialize_string :: "u64 \<Rightarrow> val list \<Rightarrow> bwriter \<Rightarrow> bwriter option" where
  "serialize_string c vs w =
     do { w \<leftarrow> write_trivial 8 8 (le_bytes 8 (word_of_nat (length vs))) w;
          (_, w) \<leftarrow> write_sequence True (Ty_trivial c c) (\<lambda>v. write_trivial c c (raw v)) vs w;
          Some w }"

definition serialize_forward_list :: "ty \<Rightarrow> serializer \<Rightarrow> val list \<Rightarrow> bwriter \<Rightarrow> bwriter option" where
  "serialize_forward_list t f vs w =
     do { (n_spot, w) \<leftarrow> place 8 8 w;
          (n, w) \<leftarrow> write_sequence False t f vs w;
          Some (w\<lparr>bw_mem := store n_spot (le_bytes 8 n) (bw_mem w)\<rparr>) }"

primrec serialize :: "ty \<Rightarrow> serializer" where
  "serialize (Ty_trivial sz al) = (\<lambda>v. write_trivial sz al (raw v))"
| "serialize Ty_empty = (\<lambda>v w. Some w)"
| "serialize (Ty_fields ts) = (\<lambda>v. serialize_each (map serialize ts) (elts v))"
| "serialize (Ty_values ts) = (\<lambda>v. serialize_each (map serialize ts) (elts v))"
| "serialize (Ty_tuple ts) = (\<lambda>v. serialize_each (map serialize ts) (elts v))"
| "serialize (Ty_pair t u) = (\<lambda>v. serialize_pair (serialize t) (serialize u) (elts v))"
| "serialize (Ty_array n t) = (\<lambda>v. serialize_array t (serialize t) (elts v))"
| "serialize (Ty_string c) = (\<lambda>v. serialize_string c (elts v))"
| "serialize (Ty_sequence contig t) = (\<lambda>v. serialize_sequence contig t (serialize t) (elts v))"
| "serialize (Ty_forward_list t) = (\<lambda>v. serialize_forward_list t (serialize t) (elts v))"

subsection \<open>Reading\<close>

record sreader =
  rd_mem :: bytes
  rd_head :: u64

type_synonym deserializer = "sreader \<Rightarrow> val \<times> sreader"

definition sreader_init :: "bytes \<Rightarrow> u64 \<Rightarrow> sreader" where
  "sreader_init m buf = \<lparr>rd_mem = m, rd_head = buf\<rparr>"

definition jump :: "u64 \<Rightarrow> sreader \<Rightarrow> sreader" where
  "jump delta r = r\<lparr>rd_head := rd_head r + delta\<rparr>"

definition unplace :: "u64 \<Rightarrow> u64 \<Rightarrow> sreader \<Rightarrow> u64 \<times> sreader" where
  "unplace obj_size obj_align r =
     (let ans = align_up (rd_head r) obj_align in (ans, r\<lparr>rd_head := ans + obj_size\<rparr>))"

definition read_trivial :: "u64 \<Rightarrow> u64 \<Rightarrow> sreader \<Rightarrow> u8 list \<times> sreader" where
  "read_trivial sz al r = (let (p, r) = unplace sz al r in (load (rd_mem r) p (unat sz), r))"

definition read_size_t :: "sreader \<Rightarrow> u64 \<times> sreader" where
  "read_size_t r = (let (bs, r) = read_trivial 8 8 r in (of_le_bytes bs, r))"

text \<open>\<open>n\<close> objects of \<open>sz\<close> bytes that lie one after the other.\<close>

definition load_objects :: "bytes \<Rightarrow> u64 \<Rightarrow> u64 \<Rightarrow> nat \<Rightarrow> val list" where
  "load_objects m a sz n = map (\<lambda>i. V_bytes (load m (a + word_of_nat i * sz) (unat sz))) [0..<n]"

definition read_sequence_trivial :: "u64 \<Rightarrow> u64 \<Rightarrow> u64 \<Rightarrow> sreader \<Rightarrow> val list \<times> sreader" where
  "read_sequence_trivial sz al n r =
     (let ss = arrayed (storage_size_of sz al) n; (p, r) = unplace (ss_size ss) (ss_align ss) r
      in (load_objects (rd_mem r) p sz (unat n), r))"

primrec read_each :: "deserializer \<Rightarrow> nat \<Rightarrow> sreader \<Rightarrow> val list \<times> sreader" where
  "read_each f 0 r = ([], r)"
| "read_each f (Suc n) r = (let (v, r) = f r; (vs, r) = read_each f n r in (v # vs, r))"

definition read_sequence_into :: "ty \<Rightarrow> deserializer \<Rightarrow> u64 \<Rightarrow> sreader \<Rightarrow> val list \<times> sreader" where
  "read_sequence_into t f n r =
     (if is_actually_trivially_serializable t then read_sequence_trivial (sizeof t) (alignof t) n r
      else read_each f (unat n) r)"

fun deserialize_each :: "deserializer list \<Rightarrow> sreader \<Rightarrow> val list \<times> sreader" where
  "deserialize_each [] r = ([], r)"
| "deserialize_each (f # fs) r = (let (v, r) = f r; (vs, r) = deserialize_each fs r in (v # vs, r))"

definition deserialize_pair :: "deserializer \<Rightarrow> deserializer \<Rightarrow> sreader \<Rightarrow> val list \<times> sreader" where
  "deserialize_pair f g r = (let (a, r) = f r; (b, r) = g r in ([a, b], r))"

definition deserialize_string :: "u64 \<Rightarrow> sreader \<Rightarrow> val list \<times> sreader" where
  "deserialize_string c r =
     (let (n, r) = read_size_t r; ss = arrayed (storage_size_of c c) n; (p, r) = unplace (ss_size ss) (ss_align ss) r
      in (load_objects (rd_mem r) p c (unat n), r))"

definition deserialize_sequence :: "deserializer \<Rightarrow> sreader \<Rightarrow> val list \<times> sreader" where
  "deserialize_sequence f r = (let (n, r) = read_size_t r in read_each f (unat n) r)"

definition deserialize_forward_list :: "deserializer \<Rightarrow> sreader \<Rightarrow> val list \<times> sreader" where
  "deserialize_forward_list f r =
     (let (n, r) = read_size_t r
      in if n \<noteq> 0 then let (v, r) = f r; (vs, r) = read_each f (unat (n - 1)) r in (v # vs, r)
         else ([], r))"

primrec deserialize :: "ty \<Rightarrow> deserializer" where
  "deserialize (Ty_trivial sz al) = (\<lambda>r. apfst V_bytes (read_trivial sz al r))"
| "deserialize Ty_empty = (\<lambda>r. (V_list [], r))"
| "deserialize (Ty_fields ts) = (\<lambda>r. apfst V_list (deserialize_each (map deserialize ts) r))"
| "deserialize (Ty_values ts) = (\<lambda>r. apfst V_list (deserialize_each (map deserialize ts) r))"
| "deserialize (Ty_tuple ts) = (\<lambda>r. apfst V_list (deserialize_each (map deserialize ts) r))"
| "deserialize (Ty_pair t u) = (\<lambda>r. apfst V_list (deserialize_pair (deserialize t) (deserialize u) r))"
| "deserialize (Ty_array n t) = (\<lambda>r. apfst V_list (read_sequence_into t (deserialize t) n r))"
| "deserialize (Ty_string c) = (\<lambda>r. apfst V_list (deserialize_string c r))"
| "deserialize (Ty_sequence contig t) = (\<lambda>r. apfst V_list (deserialize_sequence (deserialize t) r))"
| "deserialize (Ty_forward_list t) = (\<lambda>r. apfst V_list (deserialize_forward_list (deserialize t) r))"

subsection \<open>Skipping\<close>

primrec skip_n :: "(sreader \<Rightarrow> sreader) \<Rightarrow> nat \<Rightarrow> sreader \<Rightarrow> sreader" where
  "skip_n f 0 r = r"
| "skip_n f (Suc n) r = skip_n f n (f r)"

text \<open>The distance between elements: the growth of the bound after one element is there.\<close>

definition skip_delta :: "ty \<Rightarrow> u64" where
  "skip_delta t = fst (ubound_t t (static_ubound_t t)) - fst (static_ubound_t t)"

definition skip_sequence :: "ty \<Rightarrow> (sreader \<Rightarrow> sreader) \<Rightarrow> u64 \<Rightarrow> sreader \<Rightarrow> sreader" where
  "skip_sequence t f n r =
     (if n \<noteq> 0
      then let r = f r; n = n - 1
           in if ss_is_valid (static_ubound_t t) then jump (n * skip_delta t) r
              else skip_n f (unat n) r
      else r)"

fun skip_each :: "(sreader \<Rightarrow> sreader) list \<Rightarrow> sreader \<Rightarrow> sreader" where
  "skip_each [] r = r"
| "skip_each (f # fs) r = skip_each fs (f r)"

definition skip_string :: "u64 \<Rightarrow> sreader \<Rightarrow> sreader" where
  "skip_string c r =
     (let (n, r) = read_size_t r; ss = arrayed (storage_size_of c c) n in snd (unplace (ss_size ss) (ss_align ss) r))"

definition skip_container :: "ty \<Rightarrow> (sreader \<Rightarrow> sreader) \<Rightarrow> sreader \<Rightarrow> sreader" where
  "skip_container t f r = (let (n, r) = read_size_t r in skip_sequence t f n r)"

primrec skip :: "ty \<Rightarrow> sreader \<Rightarrow> sreader" where
  "skip (Ty_trivial sz al) = (\<lambda>r. snd (unplace sz al r))"
| "skip Ty_empty = (\<lambda>r. r)"
| "skip (Ty_fields ts) = skip_each (map skip ts)"
| "skip (Ty_values ts) = skip_each (map skip ts)"
| "skip (Ty_tuple ts) = skip_each (map skip ts)"
| "skip (Ty_pair t u) = (\<lambda>r. skip u (skip t r))"
| "skip (Ty_array n t) = skip_sequence t (skip t) n"
| "skip (Ty_string c) = skip_string c"
| "skip (Ty_sequence contig t) = skip_container t (skip t)"
| "skip (Ty_forward_list t) = skip_container t (skip t)"

end
