(* ===== verification/Serialization_Layout.thy ===== *)
theory Serialization_Layout
  imports Serialization
begin

text \<open>
  Component serialization, the layout: which types and values are considered, the offsets a value occupies as
  natural numbers, and the predicate \<open>codec\<close>, by which a writing step lays its bytes out in place and
  whoever reads these bytes finds the value.
\<close>

unbundle bit_operations_syntax

subsection \<open>Well-formed types and values\<close>

definition good_align :: "u64 \<Rightarrow> bool" where
  "good_align al \<longleftrightarrow> al \<in> {1, 2, 4, 8, 16, 32, 64}"

definition good_object :: "u64 \<Rightarrow> u64 \<Rightarrow> bool" where
  "good_object sz al \<longleftrightarrow> good_align al \<and> sz \<noteq> 0 \<and> sz < 2 ^ 63 \<and> sz mod al = 0"

text \<open>C++ guarantees that \<open>sizeof\<close> is a positive multiple of \<open>alignof\<close> and fits \<open>ptrdiff_t\<close>; alignments are at most
  \<open>serialization_align_max\<close>.\<close>

primrec wf_ty :: "ty \<Rightarrow> bool" where
  "wf_ty (Ty_trivial sz al) = good_object sz al"
| "wf_ty Ty_empty = True"
| "wf_ty (Ty_fields ts) = list_all (\<lambda>x. x) (map wf_ty ts)"
| "wf_ty (Ty_values ts) = list_all (\<lambda>x. x) (map wf_ty ts)"
| "wf_ty (Ty_tuple ts) = list_all (\<lambda>x. x) (map wf_ty ts)"
| "wf_ty (Ty_pair t u) = (wf_ty t \<and> wf_ty u)"
| "wf_ty (Ty_array n t) = wf_ty t"
| "wf_ty (Ty_string c) = good_object c c"
| "wf_ty (Ty_sequence contig t) = wf_ty t"
| "wf_ty (Ty_forward_list t) = wf_ty t"

fun is_bytes :: "nat \<Rightarrow> val \<Rightarrow> bool" where
  "is_bytes n (V_bytes bs) = (length bs = n)"
| "is_bytes n (V_list vs) = False"

fun is_elts :: "(val list \<Rightarrow> bool) \<Rightarrow> val \<Rightarrow> bool" where
  "is_elts P (V_bytes bs) = False"
| "is_elts P (V_list vs) = P vs"

primrec has_type :: "ty \<Rightarrow> val \<Rightarrow> bool" where
  "has_type (Ty_trivial sz al) = is_bytes (unat sz)"
| "has_type Ty_empty = is_elts (\<lambda>vs. vs = [])"
| "has_type (Ty_fields ts) = is_elts (list_all2 (\<lambda>p v. p v) (map has_type ts))"
| "has_type (Ty_values ts) = is_elts (list_all2 (\<lambda>p v. p v) (map has_type ts))"
| "has_type (Ty_tuple ts) = is_elts (list_all2 (\<lambda>p v. p v) (map has_type ts))"
| "has_type (Ty_pair t u) = is_elts (list_all2 (\<lambda>p v. p v) [has_type t, has_type u])"
| "has_type (Ty_array n t) = is_elts (\<lambda>vs. length vs = unat n \<and> list_all (has_type t) vs)"
| "has_type (Ty_string c) = is_elts (\<lambda>vs. length vs < 2 ^ 64 \<and> list_all (is_bytes (unat c)) vs)"
| "has_type (Ty_sequence contig t) = is_elts (\<lambda>vs. length vs < 2 ^ 64 \<and> list_all (has_type t) vs)"
| "has_type (Ty_forward_list t) = is_elts (\<lambda>vs. length vs < 2 ^ 64 \<and> list_all (has_type t) vs)"

subsection \<open>Offsets\<close>

definition up :: "nat \<Rightarrow> nat \<Rightarrow> nat" where
  "up x a = (x + a - 1) - (x + a - 1) mod a"

definition after :: "u64 \<Rightarrow> u64 \<Rightarrow> nat \<Rightarrow> nat" where
  "after sz al x = up x (unat al) + unat sz"

fun lay_each :: "(val \<Rightarrow> nat \<Rightarrow> nat) list \<Rightarrow> val list \<Rightarrow> nat \<Rightarrow> nat" where
  "lay_each (f # fs) (v # vs) x = lay_each fs vs (f v x)"
| "lay_each _ _ x = x"

text \<open>Where the writer stands after a value, when it stood at \<open>x\<close> before.\<close>

primrec lay :: "ty \<Rightarrow> val \<Rightarrow> nat \<Rightarrow> nat" where
  "lay (Ty_trivial sz al) = (\<lambda>v. after sz al)"
| "lay Ty_empty = (\<lambda>v x. x)"
| "lay (Ty_fields ts) = (\<lambda>v. lay_each (map lay ts) (elts v))"
| "lay (Ty_values ts) = (\<lambda>v. lay_each (map lay ts) (elts v))"
| "lay (Ty_tuple ts) = (\<lambda>v. lay_each (map lay ts) (elts v))"
| "lay (Ty_pair t u) = (\<lambda>v. lay_each [lay t, lay u] (elts v))"
| "lay (Ty_array n t) = (\<lambda>v. fold (lay t) (elts v))"
| "lay (Ty_string c) = (\<lambda>v x. fold (\<lambda>_. after c c) (elts v) (after 8 8 x))"
| "lay (Ty_sequence contig t) = (\<lambda>v x. fold (lay t) (elts v) (after 8 8 x))"
| "lay (Ty_forward_list t) = (\<lambda>v x. fold (lay t) (elts v) (after 8 8 x))"

lemma up_ge: "0 < a \<Longrightarrow> x \<le> up x a"
  unfolding up_def by (rule align_up_bounds)

lemma up_lt: "0 < a \<Longrightarrow> up x a < x + a"
  unfolding up_def by (rule align_up_bounds)

lemma up_mod: "0 < a \<Longrightarrow> up x a mod a = 0"
  unfolding up_def by (rule align_up_bounds)

lemma up_unique: "0 < a \<Longrightarrow> y mod a = 0 \<Longrightarrow> x \<le> y \<Longrightarrow> y < x + a \<Longrightarrow> up x a = y"
proof -
  assume a: "0 < a" "y mod a = 0" "x \<le> y" "y < x + a"
  obtain k where k: "y = a * k" using a(2) by auto
  obtain j where j: "up x a = a * j" using up_mod [OF a(1)] by auto
  have "x \<le> a * j" "a * j < x + a" using up_ge up_lt a(1) j by metis+
  then have "a * j < a * (k + 1)" "a * k < a * (j + 1)" using a(3,4) k by (simp_all add: algebra_simps)
  then have "j < k + 1" "k < j + 1" using a(1) by (simp_all only: mult_less_cancel1)
  then show ?thesis using j k by simp
qed

lemma up_same: "0 < a \<Longrightarrow> x mod a = 0 \<Longrightarrow> up x a = x"
  by (rule up_unique) simp_all

lemma up_mono: "0 < a \<Longrightarrow> x \<le> y \<Longrightarrow> up x a \<le> up y a"
proof (rule ccontr)
  assume a: "0 < a" "x \<le> y" "\<not> up x a \<le> up y a"
  have "up x a = up y a"
    using a up_mod [of a y] up_ge [of a y] up_lt [of a x] by (intro up_unique) auto
  then show False using a by simp
qed

lemma up_shift: "0 < a \<Longrightarrow> k mod a = 0 \<Longrightarrow> up (x + k) a = up x a + k"
  using up_ge [of a x] up_lt [of a x] up_mod [of a x] by (intro up_unique) (auto simp: mod_add_eq mod_eq_0_iff_dvd)

lemma good_align_cases:
  "good_align al \<Longrightarrow> \<exists>k \<le> 6. al = 2 ^ k \<and> unat al = 2 ^ k"
proof -
  assume "good_align al"
  then consider "al = 2 ^ 0" | "al = 2 ^ 1" | "al = 2 ^ 2" | "al = 2 ^ 3" | "al = 2 ^ 4" | "al = 2 ^ 5" | "al = 2 ^ 6"
    unfolding good_align_def by fastforce
  then have "\<exists>k \<le> 6. al = 2 ^ k"
    by cases (rule exI, rule conjI [rotated], assumption, simp)+
  then obtain k where k: "k \<le> 6" "al = 2 ^ k" by blast
  have "unat (word_of_nat (2 ^ k) :: u64) = 2 ^ k"
    using k(1) by (intro unat_word_of_nat64 power_strict_increasing) simp_all
  then show ?thesis using k by (intro exI [of _ k]) simp
qed

lemma unat_align_up:
  assumes "good_align al" "up (unat x) (unat al) < 2 ^ 64"
  shows "unat (align_up x al) = up (unat x) (unat al)"
proof -
  obtain k where k: "k \<le> 6" "al = 2 ^ k" "unat al = 2 ^ k" using good_align_cases assms(1) by blast
  have p: "(0::nat) < 2 ^ k" by simp
  have d: "(2::nat) ^ 64 = 2 ^ k * 2 ^ (64 - k)" using k(1) by (simp flip: power_add)
  obtain j where j: "up (unat x) (2 ^ k) = 2 ^ k * j" using up_mod [OF p] by auto
  have "j < 2 ^ (64 - k)" using assms(2) unfolding k(3) j d by (simp only: mult_less_cancel1)
  then have "2 ^ k * (j + 1) \<le> (2::nat) ^ 64" unfolding d by (intro mult_le_mono2) simp
  then have w: "unat x + 2 ^ k - 1 < 2 ^ 64"
    using up_ge [OF p, of "unat x"] j p by (simp add: algebra_simps)
  have "unat (al - 1) = 2 ^ k - 1" using k(3) p by (simp add: unat_sub word_le_nat_alt)
  then have "unat (x + (al - 1)) = unat x + 2 ^ k - 1"
    using w p by (subst unat_add_no_wrap) simp_all
  then have "unat (x + al - 1) = unat x + 2 ^ k - 1" by (simp add: algebra_simps)
  moreover have "unat (align_up x al) = unat (x + al - 1) - unat (x + al - 1) mod 2 ^ k"
    unfolding align_up_def by (simp only: unat_and_uminus_power k(2))
  ultimately show ?thesis unfolding up_def k(3) by simp
qed

subsection \<open>Steps that write and what a reader finds\<close>

text \<open>A buffer is aligned for every type and lies, up to the offset \<open>e\<close>, in the lower half of the address space.\<close>

definition in_buf :: "u64 \<Rightarrow> nat \<Rightarrow> bool" where
  "in_buf B e \<longleftrightarrow> unat B mod 64 = 0 \<and> unat B + e < 2 ^ 63"

definition agree :: "u64 \<Rightarrow> nat \<Rightarrow> nat \<Rightarrow> bytes \<Rightarrow> bytes \<Rightarrow> bool" where
  "agree B s e m m' \<longleftrightarrow> (\<forall>i. s \<le> i \<and> i < e \<longrightarrow> m (B + word_of_nat i) = m' (B + word_of_nat i))"

definition same_outside :: "u64 \<Rightarrow> nat \<Rightarrow> nat \<Rightarrow> bytes \<Rightarrow> bytes \<Rightarrow> bool" where
  "same_outside B s e m m' \<longleftrightarrow> (\<forall>x. \<not> (unat B + s \<le> unat x \<and> unat x < unat B + e) \<longrightarrow> m x = m' x)"

definition codec :: "(bwriter \<Rightarrow> bwriter option) \<Rightarrow> (nat \<Rightarrow> nat) \<Rightarrow> (bytes \<Rightarrow> u64 \<Rightarrow> nat \<Rightarrow> bool) \<Rightarrow> bool" where
  "codec f l P \<longleftrightarrow>
     (\<forall>x. x \<le> l x) \<and>
     (\<forall>w. in_buf (bw_buf w) (l (unat (bw_size w))) \<longrightarrow>
        (\<exists>w'. f w = Some w' \<and> bw_buf w' = bw_buf w \<and> unat (bw_size w') = l (unat (bw_size w)) \<and>
           same_outside (bw_buf w) (unat (bw_size w)) (l (unat (bw_size w))) (bw_mem w) (bw_mem w') \<and>
           (\<forall>m. agree (bw_buf w) (unat (bw_size w)) (l (unat (bw_size w))) m (bw_mem w') \<longrightarrow>
              P m (bw_buf w) (unat (bw_size w)))))"

lemma codecI:
  assumes "\<And>x. x \<le> l x"
    and "\<And>w. in_buf (bw_buf w) (l (unat (bw_size w))) \<Longrightarrow>
        \<exists>w'. f w = Some w' \<and> bw_buf w' = bw_buf w \<and> unat (bw_size w') = l (unat (bw_size w)) \<and>
           same_outside (bw_buf w) (unat (bw_size w)) (l (unat (bw_size w))) (bw_mem w) (bw_mem w') \<and>
           (\<forall>m. agree (bw_buf w) (unat (bw_size w)) (l (unat (bw_size w))) m (bw_mem w') \<longrightarrow>
              P m (bw_buf w) (unat (bw_size w)))"
  shows "codec f l P"
  unfolding codec_def using assms by blast

lemma codec_le: "codec f l P \<Longrightarrow> x \<le> l x"
  unfolding codec_def by blast

lemma codecE:
  assumes "codec f l P" "in_buf (bw_buf w) (l (unat (bw_size w)))"
  obtains w' where "f w = Some w'" "bw_buf w' = bw_buf w" "unat (bw_size w') = l (unat (bw_size w))"
    "same_outside (bw_buf w) (unat (bw_size w)) (l (unat (bw_size w))) (bw_mem w) (bw_mem w')"
    "\<And>m. agree (bw_buf w) (unat (bw_size w)) (l (unat (bw_size w))) m (bw_mem w') \<Longrightarrow>
       P m (bw_buf w) (unat (bw_size w))"
  using assms unfolding codec_def by blast

lemma codec_weaken:
  assumes "codec f l P" "\<And>m B s. in_buf B (l s) \<Longrightarrow> P m B s \<Longrightarrow> Q m B s"
  shows "codec f l Q"
proof (rule codecI)
  show "x \<le> l x" for x using assms(1) by (rule codec_le)
  fix w :: bwriter assume b: "in_buf (bw_buf w) (l (unat (bw_size w)))"
  show "\<exists>w'. f w = Some w' \<and> bw_buf w' = bw_buf w \<and> unat (bw_size w') = l (unat (bw_size w)) \<and>
           same_outside (bw_buf w) (unat (bw_size w)) (l (unat (bw_size w))) (bw_mem w) (bw_mem w') \<and>
           (\<forall>m. agree (bw_buf w) (unat (bw_size w)) (l (unat (bw_size w))) m (bw_mem w') \<longrightarrow>
              Q m (bw_buf w) (unat (bw_size w)))"
    using codecE [OF assms(1) b] assms(2) [OF b] by metis
qed

lemma codec_return: "codec Some (\<lambda>x. x) (\<lambda>m B s. True)"
  by (rule codecI) (auto simp: same_outside_def)

lemma in_buf_le: "in_buf B e \<Longrightarrow> e' \<le> e \<Longrightarrow> in_buf B e'"
  unfolding in_buf_def by simp

lemma unat_in_buf: "in_buf B e \<Longrightarrow> i \<le> e \<Longrightarrow> unat (B + word_of_nat i) = unat B + i"
proof -
  assume a: "in_buf B e" "i \<le> e"
  then have "unat B + i < 2 ^ 64" unfolding in_buf_def by simp
  then have "unat (word_of_nat i :: u64) = i" by (simp add: unat_word_of_nat64)
  then show ?thesis using \<open>unat B + i < 2 ^ 64\<close> by (subst unat_add_no_wrap) simp_all
qed

lemma agree_after_outside:
  assumes "agree B s e m m2" "same_outside B e e' m2' m2" "s \<le> e" "in_buf B e"
  shows "agree B s e m m2'"
  unfolding agree_def
proof (intro allI impI)
  fix i assume i: "s \<le> i \<and> i < e"
  then have "m2' (B + word_of_nat i) = m2 (B + word_of_nat i)"
    using assms(2,4) unat_in_buf [OF assms(4), of i] unfolding same_outside_def by simp
  then show "m (B + word_of_nat i) = m2' (B + word_of_nat i)" using assms(1) i unfolding agree_def by simp
qed

lemma codec_bind:
  assumes f: "codec f l P" and g: "codec g k Q"
  shows "codec (\<lambda>w. f w \<bind> g) (\<lambda>x. k (l x)) (\<lambda>m B s. P m B s \<and> Q m B (l s))"
proof (rule codecI)
  show "x \<le> k (l x)" for x using codec_le [OF f, of x] codec_le [OF g, of "l x"] by simp
  fix w :: bwriter let ?s = "unat (bw_size w)" let ?B = "bw_buf w"
  assume b: "in_buf ?B (k (l ?s))"
  have b1: "in_buf ?B (l ?s)" using b codec_le [OF g] in_buf_le by blast
  obtain w1 where w1: "f w = Some w1" "bw_buf w1 = ?B" "unat (bw_size w1) = l ?s"
    "same_outside ?B ?s (l ?s) (bw_mem w) (bw_mem w1)"
    "\<And>m. agree ?B ?s (l ?s) m (bw_mem w1) \<Longrightarrow> P m ?B ?s"
    using codecE [OF f b1] by blast
  have b2: "in_buf (bw_buf w1) (k (unat (bw_size w1)))" using b w1(2,3) by simp
  obtain w2 where w2: "g w1 = Some w2" "bw_buf w2 = ?B" "unat (bw_size w2) = k (l ?s)"
    "same_outside ?B (l ?s) (k (l ?s)) (bw_mem w1) (bw_mem w2)"
    "\<And>m. agree ?B (l ?s) (k (l ?s)) m (bw_mem w2) \<Longrightarrow> Q m ?B (l ?s)"
    using codecE [OF g b2] w1(2,3) by (metis (no_types, lifting))
  have "same_outside ?B ?s (k (l ?s)) (bw_mem w) (bw_mem w2)"
    using w1(4) w2(4) codec_le [OF f, of ?s] codec_le [OF g, of "l ?s"] unfolding same_outside_def by force
  moreover have "P m ?B ?s \<and> Q m ?B (l ?s)" if "agree ?B ?s (k (l ?s)) m (bw_mem w2)" for m
  proof -
    have a: "agree ?B ?s (l ?s) m (bw_mem w2)" "agree ?B (l ?s) (k (l ?s)) m (bw_mem w2)"
      using that codec_le [OF f, of ?s] codec_le [OF g, of "l ?s"] unfolding agree_def by auto
    show ?thesis
      using agree_after_outside [OF a(1) w2(4) codec_le [OF f] b1] w1(5) a(2) w2(5) by blast
  qed
  ultimately show "\<exists>w'. f w \<bind> g = Some w' \<and> bw_buf w' = ?B \<and> unat (bw_size w') = k (l ?s) \<and>
      same_outside ?B ?s (k (l ?s)) (bw_mem w) (bw_mem w') \<and>
      (\<forall>m. agree ?B ?s (k (l ?s)) m (bw_mem w') \<longrightarrow> P m ?B ?s \<and> Q m ?B (l ?s))"
    using w1(1) w2(1-3) by (intro exI [of _ w2]) simp
qed

subsection \<open>Objects in place\<close>

lemma good_align_pos: "good_align al \<Longrightarrow> 0 < unat al"
  using good_align_cases by fastforce

lemma good_align_dvd: "good_align al \<Longrightarrow> unat al dvd 64"
proof -
  assume "good_align al"
  then obtain k where k: "k \<le> 6" "unat al = 2 ^ k" using good_align_cases by blast
  have "(64::nat) = 2 ^ 6" by simp
  then show ?thesis unfolding k(2) using k(1) by (simp only: le_imp_power_dvd)
qed

lemma in_buf_mod: "in_buf B e \<Longrightarrow> good_align al \<Longrightarrow> unat B mod unat al = 0"
  using good_align_dvd unfolding in_buf_def by (meson dvd_imp_mod_0 dvd_trans mod_0_imp_dvd)

lemma is_aligned_in_buf: "in_buf B e \<Longrightarrow> good_align al \<Longrightarrow> is_aligned B al"
proof -
  assume a: "in_buf B e" "good_align al"
  then obtain k where k: "k \<le> 6" "al = 2 ^ k" "unat al = 2 ^ k" using good_align_cases by blast
  have "unat (take_bit k B) = unat B mod 2 ^ k"
    by (simp only: unsigned_take_bit_eq) (simp only: take_bit_eq_mod)
  then have "take_bit k B = 0" using in_buf_mod [OF a] k(3) by (simp add: unat_eq_zero)
  then show ?thesis unfolding is_aligned_def k(2) by (simp add: take_bit_eq_mask mask_eq_exp_minus_1)
qed

lemma align_up_in_buf:
  assumes "in_buf B (up s (unat al))" "good_align al"
  shows "align_up (B + word_of_nat s) al = B + word_of_nat (up s (unat al))"
proof -
  have le: "s \<le> up s (unat al)" using up_ge good_align_pos assms(2) by blast
  have "up (unat B + s) (unat al) = unat B + up s (unat al)"
    using up_shift [OF good_align_pos [OF assms(2)] in_buf_mod [OF assms], of s] by (simp add: add.commute)
  moreover from this have "up (unat (B + word_of_nat s)) (unat al) < 2 ^ 64"
    using assms(1) unat_in_buf [OF assms(1) le] unfolding in_buf_def by simp
  ultimately have "unat (align_up (B + word_of_nat s) al) = unat (B + word_of_nat (up s (unat al)))"
    using unat_align_up [OF assms(2)] unat_in_buf [OF assms(1)] le by simp
  then show ?thesis by (rule unsigned_word_eqI)
qed

lemma after_ge: "good_align al \<Longrightarrow> up s (unat al) \<le> after sz al s" "good_align al \<Longrightarrow> s \<le> after sz al s"
  using up_ge [OF good_align_pos, of al s] unfolding after_def by simp_all

lemma unplace_in_buf:
  assumes "in_buf B (after sz al s)" "good_align al"
  shows "unplace sz al \<lparr>rd_mem = m, rd_head = B + word_of_nat s\<rparr> =
    (B + word_of_nat (up s (unat al)), \<lparr>rd_mem = m, rd_head = B + word_of_nat (after sz al s)\<rparr>)"
  using align_up_in_buf [OF in_buf_le [OF assms(1) after_ge(1) [OF assms(2)]] assms(2)]
  unfolding unplace_def after_def by (simp add: add.assoc)

lemma place_in_buf:
  assumes "in_buf (bw_buf w) (after sz al (unat (bw_size w)))" "good_align al"
  shows "\<exists>w'. place sz al w = Some (bw_buf w + word_of_nat (up (unat (bw_size w)) (unat al)), w') \<and>
    bw_buf w' = bw_buf w \<and> unat (bw_size w') = after sz al (unat (bw_size w)) \<and> bw_mem w' = bw_mem w"
proof -
  have lt: "after sz al (unat (bw_size w)) < 2 ^ 64" using assms(1) unfolding in_buf_def by simp
  then have "up (unat (bw_size w)) (unat al) < 2 ^ 64" unfolding after_def by simp
  then have u: "unat (align_up (bw_size w) al) = up (unat (bw_size w)) (unat al)"
    using unat_align_up [OF assms(2)] by blast
  then have "unat (align_up (bw_size w) al + sz) = after sz al (unat (bw_size w))"
    using lt unfolding after_def by (subst unat_add_no_wrap) simp_all
  moreover have "align_up (bw_size w) al = word_of_nat (up (unat (bw_size w)) (unat al))"
    using u word_of_nat_unat64 by metis
  ultimately show ?thesis
    unfolding place_def using is_aligned_in_buf [OF assms] by (simp add: Let_def)
qed

lemma store_at:
  "length bs < 2 ^ 64 \<Longrightarrow> i < length bs \<Longrightarrow> store a bs m (a + word_of_nat i) = bs ! i"
  unfolding store_def by (simp add: word_less_nat_alt unat_word_of_nat64)

lemma store_outside:
  assumes "in_buf B (e + length bs)"
  shows "same_outside B e (e + length bs) m (store (B + word_of_nat e) bs m)"
  unfolding same_outside_def store_def
proof (intro allI impI)
  fix x :: u64
  assume x: "\<not> (unat B + e \<le> unat x \<and> unat x < unat B + (e + length bs))"
  have len: "unat (word_of_nat (length bs) :: u64) = length bs"
    using assms unfolding in_buf_def by (simp add: unat_word_of_nat64)
  have a: "unat (B + word_of_nat e) = unat B + e" using unat_in_buf [OF assms] by simp
  have "\<not> x - (B + word_of_nat e) < word_of_nat (length bs)"
  proof
    assume lt: "x - (B + word_of_nat e) < word_of_nat (length bs)"
    then have "unat (x - (B + word_of_nat e)) < length bs" using len by (simp add: word_less_nat_alt)
    moreover have "unat (x - (B + word_of_nat e) + (B + word_of_nat e)) =
        unat (x - (B + word_of_nat e)) + (unat B + e)"
      using assms calculation a unfolding in_buf_def by (subst unat_add_no_wrap) simp_all
    ultimately show False using x by simp
  qed
  then show "m x = (if x - (B + word_of_nat e) < word_of_nat (length bs)
      then bs ! unat (x - (B + word_of_nat e)) else m x)" by simp
qed

lemma load_agree:
  assumes "agree B s (e + length bs) m (store (B + word_of_nat e) bs m')" "s \<le> e" "length bs < 2 ^ 64"
  shows "load m (B + word_of_nat e) (length bs) = bs"
proof (rule nth_equalityI)
  fix i assume "i < length (load m (B + word_of_nat e) (length bs))"
  then have i: "i < length bs" by (simp add: load_def)
  have "m (B + word_of_nat (e + i)) = store (B + word_of_nat e) bs m' (B + word_of_nat (e + i))"
    using assms(1,2) i unfolding agree_def by (metis nat_add_left_cancel_less trans_le_add1)
  then show "load m (B + word_of_nat e) (length bs) ! i = bs ! i"
    using store_at [OF assms(3) i, of "B + word_of_nat e"] i by (simp add: load_def add.assoc)
qed (simp add: load_def)

definition write_at :: "u64 \<Rightarrow> u64 \<Rightarrow> u8 list \<Rightarrow> bwriter \<Rightarrow> bwriter option" where
  "write_at sz al bs w =
     do { (spot, w) \<leftarrow> place sz al w; Some (w\<lparr>bw_mem := store spot bs (bw_mem w)\<rparr>) }"

lemma codec_write_at:
  assumes "good_align al" "length bs = unat sz"
  shows "codec (write_at sz al bs) (after sz al) (\<lambda>m B s. load m (B + word_of_nat (up s (unat al))) (unat sz) = bs)"
proof (rule codecI)
  show "x \<le> after sz al x" for x using after_ge(2) assms(1) by blast
  fix w :: bwriter let ?s = "unat (bw_size w)" let ?B = "bw_buf w" let ?e = "up ?s (unat al)"
  assume b: "in_buf ?B (after sz al ?s)"
  have e: "after sz al ?s = ?e + length bs" using assms(2) by (simp add: after_def)
  have le: "?s \<le> ?e" using up_ge good_align_pos assms(1) by blast
  have len: "length bs < 2 ^ 64" using assms(2) by simp
  obtain w1 where w1: "place sz al w = Some (?B + word_of_nat ?e, w1)" "bw_buf w1 = ?B"
    "unat (bw_size w1) = after sz al ?s" "bw_mem w1 = bw_mem w"
    using place_in_buf [OF b assms(1)] by blast
  have "same_outside ?B ?s (after sz al ?s) (bw_mem w) (store (?B + word_of_nat ?e) bs (bw_mem w))"
    using store_outside [of ?B ?e bs "bw_mem w"] b le unfolding e same_outside_def by force
  moreover have "load m (?B + word_of_nat ?e) (unat sz) = bs"
    if "agree ?B ?s (after sz al ?s) m (store (?B + word_of_nat ?e) bs (bw_mem w))" for m
    using load_agree [OF that [unfolded e] le len] assms(2) by simp
  ultimately show "\<exists>w'. write_at sz al bs w = Some w' \<and> bw_buf w' = ?B \<and> unat (bw_size w') = after sz al ?s \<and>
      same_outside ?B ?s (after sz al ?s) (bw_mem w) (bw_mem w') \<and>
      (\<forall>m. agree ?B ?s (after sz al ?s) m (bw_mem w') \<longrightarrow> load m (?B + word_of_nat ?e) (unat sz) = bs)"
    using w1 unfolding write_at_def by simp
qed

end
