(* ===== verification/Serialization_Correct.thy ===== *)
theory Serialization_Correct
  imports Serialization_Layout
begin

text \<open>
  Component serialization, the properties: reading gives back what was written, skipping ends where
  reading ends, and the bound covers every byte written.
\<close>

unbundle bit_operations_syntax

subsection \<open>Readers\<close>

abbreviation rd :: "bytes \<Rightarrow> u64 \<Rightarrow> nat \<Rightarrow> sreader" where
  "rd m B s \<equiv> \<lparr>rd_mem = m, rd_head = B + word_of_nat s\<rparr>"

definition reads :: "(sreader \<Rightarrow> 'a \<times> sreader) \<Rightarrow> 'a \<Rightarrow> (nat \<Rightarrow> nat) \<Rightarrow> bytes \<Rightarrow> u64 \<Rightarrow> nat \<Rightarrow> bool" where
  "reads g v l m B s \<longleftrightarrow> g (rd m B s) = (v, rd m B (l s))"

lemma of_le_bytes_le_bytes: "of_le_bytes (le_bytes k x) = take_bit (8 * k) x"
proof (induction k arbitrary: x)
  case (Suc k)
  have "of_le_bytes (le_bytes (Suc k) x) = ucast (ucast x :: u8) OR push_bit 8 (take_bit (8 * k) (drop_bit 8 x))"
    by (simp add: Suc.IH)
  also have "\<dots> = take_bit (8 * Suc k) x"
    by (rule bit_eqI) (auto simp: bit_simps)
  finally show ?case .
qed simp

lemma length_le_bytes [simp]: "length (le_bytes k x) = k"
  by (induction k arbitrary: x) simp_all

lemma codec_write_trivial:
  assumes "good_align al" "length bs = unat sz"
  shows "codec (write_trivial sz al bs) (after sz al) (reads (read_trivial sz al) bs (after sz al))"
proof -
  have "write_trivial sz al bs = write_at sz al bs"
    using assms(2) by (intro ext) (simp add: write_trivial_def write_at_def)
  then show ?thesis
    using codec_weaken [OF codec_write_at [OF assms]] unplace_in_buf assms(1)
    by (simp add: reads_def read_trivial_def)
qed

lemma good_align8 [simp]: "good_align 8"
  by (simp add: good_align_def)

lemma codec_write_size_t:
  "codec (write_trivial 8 8 (le_bytes 8 n)) (after 8 8) (reads read_size_t n (after 8 8))"
proof -
  have "take_bit 64 n = n" by (simp add: take_bit_word_eq_self)
  then have "of_le_bytes (le_bytes 8 n) = n" by (simp add: of_le_bytes_le_bytes)
  then show ?thesis
    using codec_weaken [OF codec_write_trivial [of 8 "le_bytes 8 n" 8]]
    by (simp add: reads_def read_size_t_def)
qed

lemma codec_ge_half: "(\<And>x. x \<le> l x) \<Longrightarrow> (\<And>x. 2 ^ 63 \<le> l x) \<Longrightarrow> codec f l P"
proof (rule codecI)
  assume "\<And>x. 2 ^ 63 \<le> l x"
  then have "\<not> in_buf B (l x)" for B x unfolding in_buf_def by (metis add_lessD1 add.commute not_le)
  moreover fix w :: bwriter assume "in_buf (bw_buf w) (l (unat (bw_size w)))"
  ultimately show "\<exists>w'. f w = Some w' \<and> bw_buf w' = bw_buf w \<and> unat (bw_size w') = l (unat (bw_size w)) \<and>
           same_outside (bw_buf w) (unat (bw_size w)) (l (unat (bw_size w))) (bw_mem w) (bw_mem w') \<and>
           (\<forall>m. agree (bw_buf w) (unat (bw_size w)) (l (unat (bw_size w))) m (bw_mem w') \<longrightarrow>
              P m (bw_buf w) (unat (bw_size w)))" by blast
qed

lemma fold_ge: "(\<And>v x. v \<in> set vs \<Longrightarrow> x \<le> l v x) \<Longrightarrow> x \<le> fold l vs (x :: nat)"
  by (induction vs arbitrary: x) (force intro: order.trans)+

lemma codec_write_each:
  assumes "\<And>v. v \<in> set vs \<Longrightarrow> codec (f v) (l v) (reads g v (l v))"
  shows "codec (write_each f vs) (fold l vs) (reads (read_each g (length vs)) vs (fold l vs))"
  using assms
proof (induction vs)
  case Nil
  have "write_each f [] = Some" by auto
  then show ?case using codec_weaken [OF codec_return] by (simp add: reads_def id_def)
next
  case (Cons v vs)
  have e: "write_each f (v # vs) = (\<lambda>w. f v w \<bind> write_each f vs)" by auto
  have l: "fold l (v # vs) = (\<lambda>x. fold l vs (l v x))" by auto
  show ?case
    unfolding e l using Cons
    by (intro codec_weaken [OF codec_bind [OF Cons.prems [of v] Cons.IH]]) (auto simp: reads_def)
qed

subsection \<open>Objects written in bulk\<close>

lemma good_object_align: "good_object sz al \<Longrightarrow> good_align al"
  by (simp add: good_object_def)

lemma good_object_mod: "good_object sz al \<Longrightarrow> unat sz mod unat al = 0"
  unfolding good_object_def by (metis unat_0 unat_mod_distrib)

lemma up_after:
  "good_object sz al \<Longrightarrow> up (after sz al x) (unat al) = after sz al x"
  using up_mod [of "unat al" x] good_object_mod [of sz al] good_align_pos [OF good_object_align]
  unfolding after_def by (intro up_same) (auto simp: mod_eq_0_iff_dvd)

lemma fold_after:
  assumes "good_object sz al"
  shows "fold (\<lambda>_. after sz al) vs x = (if vs = [] then x else up x (unat al) + length vs * unat sz)"
proof (induction vs arbitrary: x)
  case (Cons v vs)
  then show ?case
    using up_after [OF assms, of x] by (simp add: after_def)
qed simp

lemma align_up_good_object: "good_object sz al \<Longrightarrow> align_up sz al = sz"
proof -
  assume a: "good_object sz al"
  have "up (unat sz) (unat al) = unat sz"
    by (rule up_same [OF good_align_pos [OF good_object_align [OF a]] good_object_mod [OF a]])
  moreover from this have "up (unat sz) (unat al) < 2 ^ 64" by (simp only: unat_lt_two_power) simp
  ultimately have "unat (align_up sz al) = unat sz"
    using unat_align_up [OF good_object_align [OF a], of sz] by metis
  then show ?thesis by (rule unsigned_word_eqI)
qed

lemma good_object_static: "good_object sz al \<Longrightarrow> sz \<noteq> - 1 \<and> sz \<noteq> - 2 \<and> al \<noteq> 0"
proof -
  assume a: "good_object sz al"
  have "\<not> (- 1 :: u64) < 2 ^ 63" "\<not> (- 2 :: u64) < 2 ^ 63" by simp_all
  moreover have "al \<noteq> 0" using good_align_pos [OF good_object_align [OF a]] by auto
  ultimately show ?thesis using a unfolding good_object_def by auto
qed

lemma arrayed_good_object:
  assumes "good_object sz al"
  shows "ss_size (arrayed (storage_size_of sz al) n) = n * sz"
    "ss_align (arrayed (storage_size_of sz al) n) = (if n = 0 then 1 else al)"
proof -
  have n: "- sz \<noteq> 1" using good_object_static [OF assms] by (metis minus_minus)
  have m: "\<not> 1 > al" using good_object_static [OF assms] by simp
  show "ss_size (arrayed (storage_size_of sz al) n) = n * sz"
    using n m good_object_static [OF assms] align_up_good_object [OF assms]
    by (simp add: arrayed_def arrayed_t_def make_storage_size_def storage_size_of_def size_aligned_def)
  show "ss_align (arrayed (storage_size_of sz al) n) = (if n = 0 then 1 else al)"
    using n good_object_static [OF assms]
    by (simp add: arrayed_def arrayed_t_def make_storage_size_def storage_size_of_def)
qed

lemma length_concat_bytes:
  "list_all (is_bytes n) vs \<Longrightarrow> length (concat (map raw vs)) = length vs * n"
proof (induction vs)
  case (Cons v vs)
  then show ?case by (cases v) simp_all
qed simp

definition objects_at :: "u64 \<Rightarrow> val list \<Rightarrow> bytes \<Rightarrow> u64 \<Rightarrow> nat \<Rightarrow> bool" where
  "objects_at sz vs m B e \<longleftrightarrow>
     load m (B + word_of_nat e) (length vs * unat sz) = concat (map raw vs)"

lemma codec_write_sequence_trivial:
  assumes o: "good_object sz al" and vs: "list_all (is_bytes (unat sz)) vs"
  shows "codec (write_sequence_trivial sz al vs) (fold (\<lambda>_. after sz al) vs)
    (\<lambda>m B s. vs \<noteq> [] \<longrightarrow> objects_at sz vs m B (up s (unat al)))"
proof (cases "length vs * unat sz < 2 ^ 63")
  case True
  let ?n = "word_of_nat (length vs) :: u64"
  have "0 < unat sz" using o by (simp add: good_object_def unat_gt_0)
  then have "length vs * 1 \<le> length vs * unat sz" by (intro mult_le_mono2) simp
  then have "length vs \<le> length vs * unat sz" by simp
  then have "length vs < 2 ^ 63" using True by (rule le_less_trans)
  then have n: "unat ?n = length vs" by (intro unat_word_of_nat64) simp
  have nz: "unat (?n * sz) = length vs * unat sz" using True n by (subst unat_mult_no_wrap) simp_all
  have z: "?n = 0 \<longleftrightarrow> vs = []" using n by (metis length_0_conv unat_eq_zero)
  have eq: "write_sequence_trivial sz al vs = write_at (?n * sz) (if vs = [] then 1 else al) (concat (map raw vs))"
    using length_concat_bytes [OF vs] nz z
    by (intro ext) (simp add: write_sequence_trivial_def write_at_def arrayed_good_object [OF o] Let_def)
  have l: "fold (\<lambda>_. after sz al) vs = after (?n * sz) (if vs = [] then 1 else al)"
    using nz fold_after [OF o, of vs] z by (intro ext) (simp add: after_def up_same)
  have g: "good_align (if vs = [] then 1 else al)" using good_object_align [OF o] by (simp add: good_align_def)
  show ?thesis
    unfolding eq l using length_concat_bytes [OF vs] nz
    by (intro codec_weaken [OF codec_write_at [OF g]]) (auto simp: objects_at_def)
next
  case False
  then have "vs \<noteq> []" by auto
  then show ?thesis
    using False fold_after [OF o, of vs] after_ge(2) [OF good_object_align [OF o]]
    by (intro codec_ge_half fold_ge) (auto simp: not_less intro: trans_le_add2)
qed

lemma load_append: "load m a (n + k) = load m a n @ load m (a + word_of_nat n) k"
proof (rule nth_equalityI)
  fix i assume "i < length (load m a (n + k))"
  then have "i < n + k" by (simp add: load_def)
  then show "load m a (n + k) ! i = (load m a n @ load m (a + word_of_nat n) k) ! i"
    by (cases "i < n") (simp_all add: load_def nth_append add.assoc less_diff_conv2 of_nat_diff)
qed (simp add: load_def)

lemma length_load [simp]: "length (load m a n) = n"
  by (simp add: load_def)

lemma objects_at_Cons:
  assumes "objects_at sz (v # vs) m B e" "is_bytes (unat sz) v"
  shows "load m (B + word_of_nat e) (unat sz) = raw v" "objects_at sz vs m B (e + unat sz)"
proof -
  have "length (raw v) = unat sz" using assms(2) by (cases v) simp_all
  then show "load m (B + word_of_nat e) (unat sz) = raw v" "objects_at sz vs m B (e + unat sz)"
    using assms(1) unfolding objects_at_def by (simp_all add: load_append add.assoc)
qed

lemma is_bytes_raw: "is_bytes n v \<Longrightarrow> V_bytes (raw v) = v"
  by (cases v) simp_all

lemma load_objects_Suc:
  "load_objects m a sz (Suc n) = V_bytes (load m a (unat sz)) # load_objects m (a + sz) sz n"
  unfolding load_objects_def by (simp only: upt_conv_Cons map_Suc_upt [symmetric]) (simp add: distrib_right add.assoc)

lemma load_objects_at:
  assumes "objects_at sz vs m B e" "list_all (is_bytes (unat sz)) vs"
  shows "load_objects m (B + word_of_nat e) sz (length vs) = vs"
  using assms
proof (induction vs arbitrary: e)
  case (Cons v vs)
  have i: "is_bytes (unat sz) v" using Cons.prems(2) by simp
  have "load_objects m (B + word_of_nat (e + unat sz)) sz (length vs) = vs"
    using Cons.IH [OF objects_at_Cons(2) [OF Cons.prems(1) i]] Cons.prems(2) by simp
  then show ?case
    using objects_at_Cons(1) [OF Cons.prems(1) i] is_bytes_raw [OF i]
    by (simp add: load_objects_Suc add.assoc)
qed (simp add: load_objects_def)

lemma reads_trivial_at:
  assumes "in_buf B (after sz al s)" "good_align al" "load m (B + word_of_nat (up s (unat al))) (unat sz) = raw v"
    "is_bytes (unat sz) v"
  shows "reads (deserialize (Ty_trivial sz al)) v (after sz al) m B s"
  using unplace_in_buf [OF assms(1,2)] assms(3) is_bytes_raw [OF assms(4)]
  by (simp add: reads_def read_trivial_def)

lemma reads_each_objects:
  assumes "good_object sz al" "list_all (is_bytes (unat sz)) vs"
    and "in_buf B (fold (\<lambda>_. after sz al) vs s)" "vs \<noteq> [] \<longrightarrow> objects_at sz vs m B (up s (unat al))"
  shows "reads (read_each (deserialize (Ty_trivial sz al)) (length vs)) vs (fold (\<lambda>_. after sz al) vs) m B s"
  using assms(2-4)
proof (induction vs arbitrary: s)
  case Nil
  then show ?case by (simp add: reads_def)
next
  case (Cons v vs)
  have g: "good_align al" using good_object_align [OF assms(1)] .
  have o: "objects_at sz (v # vs) m B (up s (unat al))" using Cons.prems by simp
  have i: "is_bytes (unat sz) v" using Cons.prems by simp
  have "in_buf B (after sz al s)"
    using Cons.prems(2) fold_ge [of vs "\<lambda>_. after sz al" "after sz al s"] after_ge(2) [OF g]
    by (auto intro: in_buf_le)
  then have 1: "reads (deserialize (Ty_trivial sz al)) v (after sz al) m B s"
    using reads_trivial_at [OF _ g objects_at_Cons(1) [OF o i] i] by blast
  have "objects_at sz vs m B (up (after sz al s) (unat al))"
    using objects_at_Cons(2) [OF o i] up_after [OF assms(1), of s] by (simp add: after_def)
  then have "reads (read_each (deserialize (Ty_trivial sz al)) (length vs)) vs (fold (\<lambda>_. after sz al) vs) m B (after sz al s)"
    using Cons by simp
  with 1 show ?case by (simp add: reads_def)
qed

lemma reads_bulk_objects:
  assumes o: "good_object sz al" and vs: "list_all (is_bytes (unat sz)) vs" and n: "length vs = unat n"
    and b: "in_buf B (fold (\<lambda>_. after sz al) vs s)" and at: "vs \<noteq> [] \<longrightarrow> objects_at sz vs m B (up s (unat al))"
  shows "reads (read_sequence_trivial sz al n) vs (fold (\<lambda>_. after sz al) vs) m B s"
proof -
  have z: "n = 0 \<longleftrightarrow> vs = []" using n by (metis length_0_conv unat_eq_zero)
  have "vs \<noteq> [] \<Longrightarrow> length vs * unat sz < 2 ^ 64"
    using b fold_after [OF o, of vs s] unfolding in_buf_def by simp
  then have nz: "unat (n * sz) = length vs * unat sz"
    using n by (cases "vs = []") (simp_all add: unat_mult_no_wrap)
  have g: "good_align (if n = 0 then 1 else al)" using good_object_align [OF o] by (simp add: good_align_def)
  have l: "fold (\<lambda>_. after sz al) vs = after (n * sz) (if n = 0 then 1 else al)"
    using nz fold_after [OF o, of vs] z by (intro ext) (simp add: after_def up_same)
  have e: "load_objects m (B + word_of_nat (up s (unat (if n = 0 then 1 else al :: u64)))) sz (unat n) = vs"
    using at load_objects_at [OF _ vs] z n [symmetric] by (cases "vs = []") (simp_all add: load_objects_def)
  show ?thesis
    using unplace_in_buf [OF b [unfolded l] g, of m] e
    by (simp add: reads_def read_sequence_trivial_def arrayed_good_object [OF o] l)
qed

subsection \<open>Round trip\<close>

abbreviation rt :: "ty \<Rightarrow> val \<Rightarrow> bool" where
  "rt t v \<equiv> codec (serialize t v) (lay t v) (reads (deserialize t) v (lay t v))"

definition write_seq :: "bool \<Rightarrow> ty \<Rightarrow> val list \<Rightarrow> bwriter \<Rightarrow> bwriter option" where
  "write_seq contig t vs w = Option.bind (write_sequence contig t (serialize t) vs w) (\<lambda>p. Some (snd p))"

lemma write_seq_each:
  "\<not> (is_actually_trivially_serializable t \<and> contig) \<Longrightarrow> write_seq contig t vs = write_each (serialize t) vs"
  by (intro ext) (auto simp: write_seq_def write_sequence_def split: Option.bind_splits)

lemma write_seq_bulk:
  "write_seq True (Ty_trivial sz al) vs = write_sequence_trivial sz al vs"
  by (intro ext) (simp add: write_seq_def write_sequence_def split: Option.bind_splits)

lemma triv_cases:
  assumes "is_actually_trivially_serializable t \<and> contig"
  obtains sz al where "t = Ty_trivial sz al" "contig = True"
  using assms by (cases t) simp_all

lemma codec_write_seq:
  assumes "wf_ty t" "list_all (has_type t) vs" "\<And>v. v \<in> set vs \<Longrightarrow> rt t v"
  shows "codec (write_seq contig t vs) (fold (lay t) vs) (reads (read_each (deserialize t) (length vs)) vs (fold (lay t) vs))"
proof (cases "is_actually_trivially_serializable t \<and> contig")
  case True
  then obtain sz al where t: "t = Ty_trivial sz al" "contig = True" by (rule triv_cases)
  have o: "good_object sz al" and vs: "list_all (is_bytes (unat sz)) vs" using assms t by simp_all
  show ?thesis
    unfolding t write_seq_bulk lay.simps
    using reads_each_objects [OF o vs] by (rule codec_weaken [OF codec_write_sequence_trivial [OF o vs]])
next
  case False
  then show ?thesis using codec_write_each [of vs, OF assms(3)] by (simp only: write_seq_each not_False_eq_True)
qed

lemma codec_write_array:
  assumes "wf_ty t" "list_all (has_type t) vs" "\<And>v. v \<in> set vs \<Longrightarrow> rt t v" "length vs = unat n"
  shows "codec (write_seq True t vs) (fold (lay t) vs) (reads (read_sequence_into t (deserialize t) n) vs (fold (lay t) vs))"
proof (cases "is_actually_trivially_serializable t")
  case True
  then obtain sz al where t: "t = Ty_trivial sz al" by (cases t) simp_all
  have o: "good_object sz al" and vs: "list_all (is_bytes (unat sz)) vs" using assms(1,2) t by simp_all
  have "reads (read_sequence_into (Ty_trivial sz al) (deserialize (Ty_trivial sz al)) n) vs l m B s"
    if "reads (read_sequence_trivial sz al n) vs l m B s" for l m B s
    using that by (simp add: reads_def read_sequence_into_def)
  then show ?thesis
    unfolding t write_seq_bulk lay.simps
    using reads_bulk_objects [OF o vs assms(4)]
    by (intro codec_weaken [OF codec_write_sequence_trivial [OF o vs]]) blast
next
  case False
  then have "reads (read_sequence_into t (deserialize t) n) vs l m B s"
    if "reads (read_each (deserialize t) (length vs)) vs l m B s" for l m B s
    using assms(4) that by (simp add: reads_def read_sequence_into_def)
  then show ?thesis by (intro codec_weaken [OF codec_write_seq [OF assms(1-3)]]) blast
qed

lemma codec_serialize_each:
  assumes "list_all2 (\<lambda>p v. p v) (map has_type ts) vs" "\<And>t v. t \<in> set ts \<Longrightarrow> has_type t v \<Longrightarrow> rt t v"
  shows "codec (serialize_each (map serialize ts) vs) (lay_each (map lay ts) vs)
    (reads (deserialize_each (map deserialize ts)) vs (lay_each (map lay ts) vs))"
  using assms
proof (induction ts arbitrary: vs)
  case Nil
  have "serialize_each [] [] = Some" "lay_each [] [] = (\<lambda>x. x)" by auto
  then show ?case using Nil codec_weaken [OF codec_return] by (simp add: reads_def)
next
  case (Cons t ts)
  then obtain v us where v: "vs = v # us" "has_type t v" "list_all2 (\<lambda>p v. p v) (map has_type ts) us"
    by (cases vs) auto
  have e: "serialize_each (map serialize (t # ts)) vs = (\<lambda>w. serialize t v w \<bind> serialize_each (map serialize ts) us)"
    "lay_each (map lay (t # ts)) vs = (\<lambda>x. lay_each (map lay ts) us (lay t v x))" using v(1) by auto
  show ?case
    unfolding e using Cons.IH [OF v(3)] Cons.prems(2) v(1,2)
    by (intro codec_weaken [OF codec_bind]) (auto simp: reads_def)
qed

lemma codec_counted:
  assumes "codec f l (reads (g (word_of_nat (length vs))) vs l)"
  shows "codec (\<lambda>w. write_trivial 8 8 (le_bytes 8 (word_of_nat (length vs))) w \<bind> f) (\<lambda>x. l (after 8 8 x))
    (reads (\<lambda>r. apfst V_list (let (n, r) = read_size_t r in g n r)) (V_list vs) (\<lambda>x. l (after 8 8 x)))"
  by (rule codec_weaken [OF codec_bind [OF codec_write_size_t assms]]) (simp add: reads_def)

lemma codec_reserved:
  assumes f: "codec f l (reads (g n) vs l)"
  shows "codec (\<lambda>w. place 8 8 w \<bind> (\<lambda>(spot, w). f w \<bind> (\<lambda>w. Some (w\<lparr>bw_mem := store spot (le_bytes 8 n) (bw_mem w)\<rparr>))))
    (\<lambda>x. l (after 8 8 x)) (reads (\<lambda>r. let (n, r) = read_size_t r in g n r) vs (\<lambda>x. l (after 8 8 x)))"
proof (rule codecI)
  have ge: "x \<le> after 8 8 x" for x using after_ge(2) good_align8 by blast
  then show "x \<le> l (after 8 8 x)" for x using codec_le [OF f] order.trans by blast
  fix w :: bwriter let ?s = "unat (bw_size w)" let ?B = "bw_buf w" let ?a = "after 8 8 ?s" let ?e = "up ?s 8"
  assume b: "in_buf ?B (l ?a)"
  have b1: "in_buf ?B ?a" using in_buf_le [OF b codec_le [OF f]] .
  have a: "?a = ?e + length (le_bytes 8 n)" "?s \<le> ?e" by (simp_all add: after_def up_ge)
  obtain w1 where w1: "place 8 8 w = Some (?B + word_of_nat ?e, w1)" "bw_buf w1 = ?B" "unat (bw_size w1) = ?a"
    "bw_mem w1 = bw_mem w"
    using place_in_buf [OF b1 good_align8] by auto
  have b2: "in_buf (bw_buf w1) (l (unat (bw_size w1)))" using b w1 by simp
  obtain w2 where w2: "f w1 = Some w2" "bw_buf w2 = ?B" "unat (bw_size w2) = l ?a"
    "same_outside ?B ?a (l ?a) (bw_mem w) (bw_mem w2)"
    "\<And>m. agree ?B ?a (l ?a) m (bw_mem w2) \<Longrightarrow> reads (g n) vs l m ?B ?a"
    using codecE [OF f b2] w1 by (metis (no_types, lifting))
  let ?m = "store (?B + word_of_nat ?e) (le_bytes 8 n) (bw_mem w2)"
  have st: "same_outside ?B ?e ?a (bw_mem w2) ?m" using store_outside [of ?B ?e "le_bytes 8 n"] b1 unfolding a(1) by blast
  have "same_outside ?B ?s (l ?a) (bw_mem w) ?m"
    using w2(4) st a(2) codec_le [OF f, of ?a] ge [of ?s] unfolding same_outside_def by force
  moreover have "reads (\<lambda>r. let (n, r) = read_size_t r in g n r) vs (\<lambda>x. l (after 8 8 x)) m ?B ?s"
    if m: "agree ?B ?s (l ?a) m ?m" for m
  proof -
    have "agree ?B ?s ?a m ?m" using m codec_le [OF f, of ?a] unfolding agree_def by auto
    then have "load m (?B + word_of_nat ?e) 8 = le_bytes 8 n" using load_agree [of ?B ?s ?e "le_bytes 8 n" m] a by simp
    moreover have "take_bit 64 n = n" by (simp add: take_bit_word_eq_self)
    ultimately have 1: "reads read_size_t n (after 8 8) m ?B ?s"
      using unplace_in_buf [OF b1 good_align8] by (simp add: reads_def read_size_t_def read_trivial_def of_le_bytes_le_bytes)
    have "agree ?B ?a (l ?a) m (bw_mem w2)"
      unfolding agree_def
    proof (intro allI impI)
      fix i assume i: "?a \<le> i \<and> i < l ?a"
      then have "bw_mem w2 (?B + word_of_nat i) = ?m (?B + word_of_nat i)"
        using st unat_in_buf [OF b, of i] unfolding same_outside_def by simp
      then show "m (?B + word_of_nat i) = bw_mem w2 (?B + word_of_nat i)"
        using m i ge [of ?s] unfolding agree_def by simp
    qed
    with 1 w2(5) show ?thesis by (simp add: reads_def)
  qed
  ultimately show "\<exists>w'. place 8 8 w \<bind> (\<lambda>(spot, w). f w \<bind> (\<lambda>w. Some (w\<lparr>bw_mem := store spot (le_bytes 8 n) (bw_mem w)\<rparr>))) =
      Some w' \<and> bw_buf w' = ?B \<and> unat (bw_size w') = l ?a \<and> same_outside ?B ?s (l ?a) (bw_mem w) (bw_mem w') \<and>
      (\<forall>m. agree ?B ?s (l ?a) m (bw_mem w') \<longrightarrow>
        reads (\<lambda>r. let (n, r) = read_size_t r in g n r) vs (\<lambda>x. l (after 8 8 x)) m ?B ?s)"
    using w1(1) w2(1-3) by simp
qed

lemma reads_V_list: "reads g vs l m B s \<Longrightarrow> reads (\<lambda>r. apfst V_list (g r)) (V_list vs) l m B s"
  by (simp add: reads_def)

lemma serialize_array_eq: "serialize_array t (serialize t) vs = write_seq True t vs"
  by (intro ext) (simp add: serialize_array_def write_seq_def split_beta')

lemma serialize_sequence_eq:
  "serialize_sequence contig t (serialize t) vs =
     (\<lambda>w. write_trivial 8 8 (le_bytes 8 (word_of_nat (length vs))) w \<bind> write_seq contig t vs)"
  by (intro ext) (simp add: serialize_sequence_def write_seq_def [abs_def] split_beta')

lemma serialize_string_eq:
  "serialize_string c vs =
     (\<lambda>w. write_trivial 8 8 (le_bytes 8 (word_of_nat (length vs))) w \<bind> write_seq True (Ty_trivial c c) vs)"
  by (intro ext) (simp add: serialize_string_def write_seq_def [abs_def] split_beta')

lemma serialize_forward_list_eq:
  "serialize_forward_list t (serialize t) vs =
     (\<lambda>w. place 8 8 w \<bind> (\<lambda>(spot, w). write_seq False t vs w \<bind>
        (\<lambda>w. Some (w\<lparr>bw_mem := store spot (le_bytes 8 (word_of_nat (length vs))) (bw_mem w)\<rparr>))))"
  by (intro ext) (simp add: serialize_forward_list_def write_seq_def write_sequence_def split_beta')

lemma deserialize_forward_list_eq:
  "deserialize_forward_list f r = (let (n, r) = read_size_t r in read_each f (unat n) r)"
proof (cases "read_size_t r")
  case (Pair n r')
  show ?thesis
  proof (cases "unat n")
    case 0
    then show ?thesis using Pair by (simp add: deserialize_forward_list_def unat_eq_zero)
  next
    case (Suc k)
    then have n: "n \<noteq> 0" by auto
    then have "unat (n - 1) = k" using Suc by (subst unat_minus_one) simp_all
    then show ?thesis using Pair Suc n by (simp add: deserialize_forward_list_def)
  qed
qed

lemma deserialize_string_eq:
  "deserialize_string c r = (let (n, r) = read_size_t r in read_sequence_into (Ty_trivial c c) g n r)"
  by (simp add: deserialize_string_def read_sequence_into_def read_sequence_trivial_def Let_def split_beta')

lemma length_in_word:
  "length vs < 2 ^ 64 \<Longrightarrow> length vs = unat (word_of_nat (length vs) :: u64)"
  by (simp add: unat_word_of_nat64)

lemma rt_sequence:
  assumes "wf_ty t" "list_all (has_type t) vs" "length vs < 2 ^ 64" "\<And>v. v \<in> set vs \<Longrightarrow> rt t v"
  shows "rt (Ty_sequence contig t) (V_list vs)"
  using codec_counted [where g = "\<lambda>n. read_each (deserialize t) (unat n)" and vs = vs, folded length_in_word [OF assms(3)],
      OF codec_write_seq [OF assms(1,2,4), of contig]]
  by (simp add: serialize_sequence_eq deserialize_sequence_def [abs_def])

lemma rt_string:
  assumes "good_object c c" "list_all (is_bytes (unat c)) vs" "length vs < 2 ^ 64"
  shows "rt (Ty_string c) (V_list vs)"
proof -
  have "rt (Ty_trivial c c) v" if "v \<in> set vs" for v
    using codec_weaken [OF codec_write_trivial [OF good_object_align [OF assms(1)]], of "raw v" c]
      that assms(2) by (cases v) (auto simp: reads_def list_all_iff)
  then have "codec (write_seq True (Ty_trivial c c) vs) (fold (lay (Ty_trivial c c)) vs)
      (reads (read_sequence_into (Ty_trivial c c) (deserialize (Ty_trivial c c)) (word_of_nat (length vs))) vs
        (fold (lay (Ty_trivial c c)) vs))"
    using assms length_in_word by (intro codec_write_array) simp_all
  from codec_counted [where g = "read_sequence_into (Ty_trivial c c) (deserialize (Ty_trivial c c))", OF this]
  show ?thesis
    by (simp add: serialize_string_eq flip: deserialize_string_eq)
qed

lemma rt_forward_list:
  assumes "wf_ty t" "list_all (has_type t) vs" "length vs < 2 ^ 64" "\<And>v. v \<in> set vs \<Longrightarrow> rt t v"
  shows "rt (Ty_forward_list t) (V_list vs)"
proof -
  have "codec (write_seq False t vs) (fold (lay t) vs)
      (reads (read_each (deserialize t) (unat (word_of_nat (length vs) :: u64))) vs (fold (lay t) vs))"
    using codec_write_seq [OF assms(1,2,4), of False] length_in_word [OF assms(3)] by simp
  from codec_weaken [OF codec_reserved [where g = "\<lambda>n. read_each (deserialize t) (unat n)", OF this] reads_V_list]
  show ?thesis
    by (simp add: serialize_forward_list_eq flip: deserialize_forward_list_eq)
qed

lemma rt_each:
  assumes "list_all2 (\<lambda>p v. p v) (map has_type ts) vs" "\<And>t v. t \<in> set ts \<Longrightarrow> has_type t v \<Longrightarrow> rt t v"
  shows "codec (serialize_each (map serialize ts) vs) (lay_each (map lay ts) vs)
    (reads (\<lambda>r. apfst V_list (deserialize_each (map deserialize ts) r)) (V_list vs) (lay_each (map lay ts) vs))"
  by (rule codec_weaken [OF codec_serialize_each [OF assms] reads_V_list])

lemma is_elts_cases:
  assumes "is_elts P v" obtains vs where "v = V_list vs" "P vs"
  using assms by (cases v) simp_all

lemma serialize_round_trip_codec:
  "wf_ty t \<Longrightarrow> has_type t v \<Longrightarrow> rt t v"
proof (induction t arbitrary: v)
  case (Ty_trivial sz al)
  then show ?case
    using codec_weaken [OF codec_write_trivial [OF good_object_align, of sz al "raw v"]]
    by (cases v) (auto simp: reads_def)
next
  case Ty_empty
  then show ?case using codec_weaken [OF codec_return] by (auto simp: reads_def elim: is_elts_cases)
next
  case (Ty_fields ts)
  then show ?case using rt_each [of ts] by (auto simp: list_all_iff elim!: is_elts_cases)
next
  case (Ty_values ts)
  then show ?case using rt_each [of ts] by (auto simp: list_all_iff elim!: is_elts_cases)
next
  case (Ty_tuple ts)
  then show ?case using rt_each [of ts] by (auto simp: list_all_iff elim!: is_elts_cases)
next
  case (Ty_pair t u)
  obtain x y where v: "v = V_list [x, y]" "has_type t x" "has_type u y"
    using Ty_pair.prems(2) by (auto simp: list_all2_Cons1 elim!: is_elts_cases)
  have "serialize_each [serialize u] [y] = serialize u y" by (intro ext) (simp split: Option.bind_splits)
  then have "serialize_pair (serialize t) (serialize u) [x, y] = serialize_each (map serialize [t, u]) [x, y]"
    by (intro ext) (simp add: serialize_pair_def)
  moreover have "deserialize_pair (deserialize t) (deserialize u) = deserialize_each (map deserialize [t, u])"
    by (intro ext) (simp add: deserialize_pair_def split_beta' Let_def)
  moreover have "codec (serialize_each (map serialize [t, u]) [x, y]) (lay_each (map lay [t, u]) [x, y])
      (reads (\<lambda>r. apfst V_list (deserialize_each (map deserialize [t, u]) r)) (V_list [x, y]) (lay_each (map lay [t, u]) [x, y]))"
    using Ty_pair v by (intro rt_each) auto
  ultimately show ?case
    unfolding v(1) serialize.simps deserialize.simps lay.simps elts.simps list.map by (simp only:)
next
  case (Ty_array n t)
  then obtain vs where v: "v = V_list vs" "length vs = unat n" "list_all (has_type t) vs"
    by (auto elim!: is_elts_cases)
  then have "rt t x" if "x \<in> set vs" for x using that Ty_array by (simp add: list_all_iff)
  then show ?case
    using codec_weaken [OF codec_write_array [OF _ v(3) _ v(2)] reads_V_list] Ty_array.prems(1) v(1)
    by (simp add: serialize_array_eq)
next
  case (Ty_string c)
  then show ?case using rt_string by (auto elim!: is_elts_cases)
next
  case (Ty_sequence contig t)
  then obtain vs where v: "v = V_list vs" "length vs < 2 ^ 64" "list_all (has_type t) vs"
    by (auto elim!: is_elts_cases)
  then show ?case using rt_sequence [OF _ v(3,2)] Ty_sequence by (simp add: list_all_iff)
next
  case (Ty_forward_list t)
  then obtain vs where v: "v = V_list vs" "length vs < 2 ^ 64" "list_all (has_type t) vs"
    by (auto elim!: is_elts_cases)
  then show ?case using rt_forward_list [OF _ v(3,2)] Ty_forward_list by (simp add: list_all_iff)
qed

text \<open>
  (C9) Reading gives back what was written. For every well-formed type, a value of it that a writer
  puts into an aligned buffer is written without a failed assertion, the writer advances by the layout of the
  value, no byte outside the occupied part changes, and a reader that starts where the writer stood
  returns the value and stops where the writer stops.
\<close>

theorem serialize_round_trip:
  assumes "wf_ty t" "has_type t v" "in_buf (bw_buf w) (lay t v (unat (bw_size w)))"
  shows "\<exists>w'. serialize t v w = Some w' \<and> bw_buf w' = bw_buf w \<and> unat (bw_size w') = lay t v (unat (bw_size w)) \<and>
    (\<forall>x. bw_mem w' x \<noteq> bw_mem w x \<longrightarrow>
       unat (bw_buf w) + unat (bw_size w) \<le> unat x \<and> unat x < unat (bw_buf w) + unat (bw_size w')) \<and>
    deserialize t (sreader_init (bw_mem w') (bw_buf w + bw_size w)) =
      (v, sreader_init (bw_mem w') (bw_buf w + bw_size w'))"
proof -
  obtain w' where w': "serialize t v w = Some w'" "bw_buf w' = bw_buf w" "unat (bw_size w') = lay t v (unat (bw_size w))"
    "same_outside (bw_buf w) (unat (bw_size w)) (lay t v (unat (bw_size w))) (bw_mem w) (bw_mem w')"
    and rd: "\<And>m. agree (bw_buf w) (unat (bw_size w)) (lay t v (unat (bw_size w))) m (bw_mem w') \<Longrightarrow>
      reads (deserialize t) v (lay t v) m (bw_buf w) (unat (bw_size w))"
    using codecE [OF serialize_round_trip_codec [OF assms(1,2)] assms(3)] by blast
  have r: "reads (deserialize t) v (lay t v) (bw_mem w') (bw_buf w) (unat (bw_size w))"
    by (rule rd) (simp add: agree_def)
  have "bw_size w' = word_of_nat (lay t v (unat (bw_size w)))" using w'(3) by (metis word_of_nat_unat64)
  then have "deserialize t (sreader_init (bw_mem w') (bw_buf w + bw_size w)) =
      (v, sreader_init (bw_mem w') (bw_buf w + bw_size w'))"
    using r by (simp add: reads_def sreader_init_def)
  moreover have "unat (bw_buf w) + unat (bw_size w) \<le> unat x \<and> unat x < unat (bw_buf w) + unat (bw_size w')"
    if "bw_mem w' x \<noteq> bw_mem w x" for x
    using w'(3,4) that unfolding same_outside_def by metis
  ultimately show ?thesis using w'(1-3) by blast
qed

text \<open>A vector of two classes with a 4-byte field and a string.\<close>

definition sample_ty :: ty where
  "sample_ty = Ty_sequence True (Ty_fields [Ty_trivial 4 4, Ty_string 1])"

definition sample_val :: val where
  "sample_val = V_list [V_list [V_bytes [1, 2, 3, 4], V_list [V_bytes [7], V_bytes [8], V_bytes [9]]],
                        V_list [V_bytes [5, 6, 7, 8], V_list []]]"

lemma sample_wf: "wf_ty sample_ty"
  by code_simp

lemma sample_typed: "has_type sample_ty sample_val"
  by (simp add: sample_ty_def sample_val_def)

lemma sample_lay: "lay sample_ty sample_val 0 = 40"
  by code_simp

theorem serialize_round_trip_witness:
  "\<exists>w'. serialize sample_ty sample_val (bwriter_init (\<lambda>_. 0) 64) = Some w' \<and> unat (bw_size w') = 40 \<and>
    deserialize sample_ty (sreader_init (bw_mem w') 64) = (sample_val, sreader_init (bw_mem w') (64 + bw_size w'))"
  using serialize_round_trip [OF sample_wf sample_typed, of "bwriter_init (\<lambda>_. 0) 64"] sample_lay
  by (auto simp: bwriter_init_def in_buf_def)

end
