(* ===== verification/Serialization_Skip.thy ===== *)
theory Serialization_Skip
  imports Serialization_Correct
begin

text \<open>
  Component serialization, skipping: when the jump over the elements of a sequence in one step lands where
  reading them lands, and when it does not.
\<close>

unbundle bit_operations_syntax

subsection \<open>Types with an exact static bound\<close>

primrec exact :: "ty \<Rightarrow> bool" where
  "exact (Ty_trivial sz al) = True"
| "exact Ty_empty = True"
| "exact (Ty_fields ts) = list_all (\<lambda>x. x) (map exact ts)"
| "exact (Ty_values ts) = list_all (\<lambda>x. x) (map exact ts)"
| "exact (Ty_tuple ts) = list_all (\<lambda>x. x) (map exact ts)"
| "exact (Ty_pair t u) = (exact t \<and> exact u)"
| "exact (Ty_array n t) = False"
| "exact (Ty_string c) = False"
| "exact (Ty_sequence contig t) = False"
| "exact (Ty_forward_list t) = False"

text \<open>Types without a static bound.\<close>

primrec dynamic :: "ty \<Rightarrow> bool" where
  "dynamic (Ty_trivial sz al) = False"
| "dynamic Ty_empty = False"
| "dynamic (Ty_fields ts) = list_ex (\<lambda>x. x) (map dynamic ts)"
| "dynamic (Ty_values ts) = list_ex (\<lambda>x. x) (map dynamic ts)"
| "dynamic (Ty_tuple ts) = list_ex (\<lambda>x. x) (map dynamic ts)"
| "dynamic (Ty_pair t u) = (dynamic t \<or> dynamic u)"
| "dynamic (Ty_array n t) = (n \<noteq> 0 \<and> dynamic t)"
| "dynamic (Ty_string c) = True"
| "dynamic (Ty_sequence contig t) = True"
| "dynamic (Ty_forward_list t) = True"

text \<open>Every sequence has elements whose static bound is exact, or that have none.\<close>

primrec skippable :: "ty \<Rightarrow> bool" where
  "skippable (Ty_trivial sz al) = True"
| "skippable Ty_empty = True"
| "skippable (Ty_fields ts) = list_all (\<lambda>x. x) (map skippable ts)"
| "skippable (Ty_values ts) = list_all (\<lambda>x. x) (map skippable ts)"
| "skippable (Ty_tuple ts) = list_all (\<lambda>x. x) (map skippable ts)"
| "skippable (Ty_pair t u) = (skippable t \<and> skippable u)"
| "skippable (Ty_array n t) = (skippable t \<and> (exact t \<or> dynamic t))"
| "skippable (Ty_string c) = True"
| "skippable (Ty_sequence contig t) = (skippable t \<and> (exact t \<or> dynamic t))"
| "skippable (Ty_forward_list t) = (skippable t \<and> (exact t \<or> dynamic t))"

text \<open>The layout of a type with an exact bound does not depend on the value. \<open>talign\<close> is its largest alignment.\<close>

fun slay_each :: "(nat \<Rightarrow> nat) list \<Rightarrow> nat \<Rightarrow> nat" where
  "slay_each [] x = x"
| "slay_each (f # fs) x = slay_each fs (f x)"

primrec slay :: "ty \<Rightarrow> nat \<Rightarrow> nat" where
  "slay (Ty_trivial sz al) = after sz al"
| "slay Ty_empty = (\<lambda>x. x)"
| "slay (Ty_fields ts) = slay_each (map slay ts)"
| "slay (Ty_values ts) = slay_each (map slay ts)"
| "slay (Ty_tuple ts) = slay_each (map slay ts)"
| "slay (Ty_pair t u) = slay_each [slay t, slay u]"
| "slay (Ty_array n t) = (\<lambda>x. x)"
| "slay (Ty_string c) = (\<lambda>x. x)"
| "slay (Ty_sequence contig t) = (\<lambda>x. x)"
| "slay (Ty_forward_list t) = (\<lambda>x. x)"

definition max_align :: "nat list \<Rightarrow> nat" where
  "max_align as = foldr max as 1"

primrec talign :: "ty \<Rightarrow> nat" where
  "talign (Ty_trivial sz al) = unat al"
| "talign Ty_empty = 1"
| "talign (Ty_fields ts) = max_align (map talign ts)"
| "talign (Ty_values ts) = max_align (map talign ts)"
| "talign (Ty_tuple ts) = max_align (map talign ts)"
| "talign (Ty_pair t u) = max_align [talign t, talign u]"
| "talign (Ty_array n t) = 1"
| "talign (Ty_string c) = 1"
| "talign (Ty_sequence contig t) = 1"
| "talign (Ty_forward_list t) = 1"

definition pow2 :: "nat \<Rightarrow> bool" where
  "pow2 a \<longleftrightarrow> a \<in> {1, 2, 4, 8, 16, 32, 64}"

lemma pow2_dvd: "pow2 a \<Longrightarrow> pow2 b \<Longrightarrow> a \<le> b \<Longrightarrow> a dvd b"
  unfolding pow2_def by fastforce

lemma pow2_pos: "pow2 a \<Longrightarrow> 0 < a"
  unfolding pow2_def by auto

lemma pow2_max_align: "\<forall>a \<in> set as. pow2 a \<Longrightarrow> pow2 (max_align as)"
  by (induction as) (auto simp: max_align_def max_def pow2_def)

lemma max_align_Cons: "max_align (a # as) = max a (max_align as)"
  by (simp add: max_align_def)

lemma good_align_pow2: "good_align al \<Longrightarrow> pow2 (unat al)"
  unfolding good_align_def pow2_def by auto

text \<open>
  A step moves with its start by any multiple of its alignment, and where it ends is the same for all
  starts up to a multiple of the alignment.
\<close>

definition periodic :: "nat \<Rightarrow> (nat \<Rightarrow> nat) \<Rightarrow> bool" where
  "periodic a f \<longleftrightarrow> pow2 a \<and> mono f \<and> (\<forall>x. x \<le> f x) \<and> (\<forall>k x. a dvd k \<longrightarrow> f (x + k) = f x + k) \<and>
     (\<forall>x y. f x mod a = f y mod a)"

lemma periodicD:
  assumes "periodic a f"
  shows "pow2 a" "mono f" "x \<le> f x" "a dvd k \<Longrightarrow> f (x + k) = f x + k" "f x mod a = f y mod a"
  using assms unfolding periodic_def by blast+

lemma periodic_cong:
  assumes "periodic a f" "a dvd b" "x mod b = y mod b"
  shows "f x mod b = f y mod b"
  using assms(3)
proof (induction x y rule: linorder_wlog)
  case (le x y)
  obtain k where k: "y = x + b * k" using le by (metis le_add_diff_inverse dvdE mod_eq_dvd_iff_nat)
  have "f y = f x + b * k" unfolding k using periodicD(4) [OF assms(1)] assms(2) by (simp add: dvd_mult2)
  then show ?case by simp
next
  case (sym x y)
  then show ?case by simp
qed

lemma periodic_comp:
  assumes f: "periodic a f" and g: "periodic b g"
  shows "periodic (max a b) (\<lambda>x. g (f x))"
proof -
  have p: "pow2 a" "pow2 b" using periodicD(1) f g by blast+
  then have m: "pow2 (max a b)" "a dvd max a b" "b dvd max a b"
    using pow2_dvd by (auto simp: max_def)
  have "g (f x) mod max a b = g (f y) mod max a b" for x y
  proof (cases "a \<le> b")
    case True
    then have "max a b = b" by simp
    then show ?thesis using periodicD(5) [OF g] by metis
  next
    case False
    then have "max a b = a" by simp
    then have "f x mod max a b = f y mod max a b" using periodicD(5) [OF f] by metis
    then show ?thesis by (rule periodic_cong [OF g m(3)])
  qed
  moreover have "g (f (x + k)) = g (f x) + k" if "max a b dvd k" for x k
    using periodicD(4) [OF f dvd_trans [OF m(2) that]] periodicD(4) [OF g dvd_trans [OF m(3) that]] by simp
  moreover have "x \<le> g (f x)" for x using periodicD(3) [OF f] periodicD(3) [OF g] order.trans by blast
  moreover have "mono (\<lambda>x. g (f x))" using periodicD(2) [OF f] periodicD(2) [OF g] unfolding mono_def by blast
  ultimately show ?thesis using m(1) unfolding periodic_def by blast
qed

lemma periodic_id: "periodic 1 (\<lambda>x. x)"
  unfolding periodic_def by (simp add: pow2_def mono_def)

lemma periodic_after: "good_object sz al \<Longrightarrow> periodic (unat al) (after sz al)"
proof -
  assume o: "good_object sz al"
  have p: "0 < unat al" using good_align_pos good_object_align [OF o] by blast
  have "after sz al x mod unat al = 0" for x
    using up_mod [OF p, of x] good_object_mod [OF o] unfolding after_def by (simp add: mod_eq_0_iff_dvd)
  moreover have "after sz al (x + k) = after sz al x + k" if "unat al dvd k" for x k
    using up_shift [OF p, of k x] that unfolding after_def by simp
  moreover have "mono (after sz al)" using up_mono [OF p] unfolding after_def mono_def by simp
  ultimately show ?thesis
    using good_align_pow2 good_object_align [OF o] after_ge(2) unfolding periodic_def by simp
qed

lemma periodic_each:
  assumes "\<And>t. t \<in> set ts \<Longrightarrow> periodic (talign t) (slay t)"
  shows "periodic (max_align (map talign ts)) (slay_each (map slay ts))"
  using assms
proof (induction ts)
  case Nil
  have "slay_each [] = (\<lambda>x. x)" by auto
  then show ?case using periodic_id by (simp add: max_align_def)
next
  case (Cons t ts)
  have "slay_each (map slay (t # ts)) = (\<lambda>x. slay_each (map slay ts) (slay t x))" by auto
  then show ?case using periodic_comp [OF Cons.prems [of t] Cons.IH] Cons.prems by (simp add: max_align_Cons)
qed

lemma periodic_slay: "wf_ty t \<Longrightarrow> exact t \<Longrightarrow> periodic (talign t) (slay t)"
proof (induction t)
  case (Ty_pair t u)
  then have "periodic (max_align (map talign [t, u])) (slay_each (map slay [t, u]))"
    by (intro periodic_each) auto
  then show ?case by (simp only: talign.simps slay.simps list.map)
qed (auto simp: periodic_after periodic_id [simplified] list_all_iff intro!: periodic_each)

text \<open>After one element, each further element takes the same number of bytes.\<close>

definition stride :: "ty \<Rightarrow> nat" where
  "stride t = slay t (slay t 0) - slay t 0"

lemma slay_stride:
  assumes "wf_ty t" "exact t"
  shows "slay t (slay t s) = slay t s + stride t"
proof -
  have p: "\<And>k x. talign t dvd k \<Longrightarrow> slay t (x + k) = slay t x + k" "\<And>x y. slay t x mod talign t = slay t y mod talign t"
    "\<And>x. x \<le> slay t x"
    using periodicD(3-5) [OF periodic_slay [OF assms]] by blast+
  have step: "slay t b + a = slay t a + b" if "a \<le> b" "a mod talign t = b mod talign t" for a b
  proof -
    have "talign t dvd b - a" using that by (metis mod_eq_dvd_iff_nat)
    then have "slay t (a + (b - a)) = slay t a + (b - a)" by (rule p(1))
    then show ?thesis using that(1) by simp
  qed
  have "slay t (slay t s) + slay t 0 = slay t (slay t 0) + slay t s"
    using step [OF _ p(2), of s 0] step [OF _ p(2), of 0 s] by (cases "slay t 0 \<le> slay t s") simp_all
  then show ?thesis using p(3) [of "slay t 0"] unfolding stride_def by simp
qed

lemma fold_slay_stride:
  assumes "wf_ty t" "exact t"
  shows "fold (\<lambda>_. slay t) vs (slay t s) = slay t s + length vs * stride t"
proof (induction vs arbitrary: s)
  case (Cons v vs)
  have "fold (\<lambda>_. slay t) (v # vs) (slay t s) = slay t (slay t s) + length vs * stride t"
    using Cons.IH [of "slay t s"] by simp
  then show ?case using slay_stride [OF assms, of s] by simp
qed simp

subsection \<open>The bounds the templates compute\<close>

lemma lay_each_exact:
  assumes "list_all2 (\<lambda>p v. p v) (map has_type ts) vs" "\<And>t v. t \<in> set ts \<Longrightarrow> has_type t v \<Longrightarrow> lay t v = slay t"
  shows "lay_each (map lay ts) vs = slay_each (map slay ts)"
  using assms
proof (induction ts arbitrary: vs)
  case (Cons t ts)
  then obtain v us where v: "vs = v # us" "has_type t v" "list_all2 (\<lambda>p v. p v) (map has_type ts) us"
    by (cases vs) auto
  then show ?case using Cons by (intro ext) simp
qed (auto intro!: ext)

lemma lay_exact: "exact t \<Longrightarrow> has_type t v \<Longrightarrow> lay t v = slay t"
proof (induction t arbitrary: v)
  case (Ty_pair t u)
  then obtain vs where v: "v = V_list vs" "list_all2 (\<lambda>p v. p v) (map has_type [t, u]) vs"
    by (auto elim!: is_elts_cases)
  have "lay_each (map lay [t, u]) vs = slay_each (map slay [t, u])"
    using Ty_pair by (intro lay_each_exact [OF v(2)]) auto
  then show ?case unfolding v(1) by (simp only: lay.simps slay.simps elts.simps list.map)
qed (auto simp: list_all_iff intro!: lay_each_exact elim!: is_elts_cases)

lemma lay_each_ge: "(\<And>t v x. t \<in> set ts \<Longrightarrow> x \<le> f t v x) \<Longrightarrow> x \<le> lay_each (map f ts) vs x"
proof (induction ts arbitrary: vs x)
  case (Cons t ts)
  have "x \<le> f t v x" "f t v x \<le> lay_each (map f ts) us (f t v x)" for v us
    using Cons by simp_all
  then show ?case by (cases vs) (auto intro: order.trans)
qed simp

lemma lay_ge: "wf_ty t \<Longrightarrow> x \<le> lay t v x"
proof (induction t arbitrary: v x)
  case (Ty_trivial sz al)
  then show ?case using after_ge(2) good_object_align by simp
next
  case (Ty_pair t u)
  then have "x \<le> lay_each (map lay [t, u]) (elts v) x" by (intro lay_each_ge) auto
  then show ?case by simp
next
  case (Ty_string c)
  then have "after 8 8 x \<le> fold (\<lambda>_. after c c) (elts v) (after 8 8 x)"
    using after_ge(2) [OF good_object_align] by (intro fold_ge) simp
  then show ?case using after_ge(2) [OF good_align8, of x 8] by simp
next
  case (Ty_sequence contig t)
  then have "after 8 8 x \<le> fold (lay t) (elts v) (after 8 8 x)" by (intro fold_ge) simp
  then show ?case using after_ge(2) [OF good_align8, of x 8] by simp
next
  case (Ty_forward_list t)
  then have "after 8 8 x \<le> fold (lay t) (elts v) (after 8 8 x)" by (intro fold_ge) simp
  then show ?case using after_ge(2) [OF good_align8, of x 8] by simp
qed (auto simp: list_all_iff intro!: lay_each_ge fold_ge)

lemma below_half: "unat (x :: u64) < 2 ^ 63 \<Longrightarrow> \<not> x \<ge> - 2"
  by (simp add: word_le_nat_alt)

lemma ubound_t_object:
  assumes o: "good_object sz al" and lt: "after sz al (unat (fst p)) < 2 ^ 63"
  shows "unat (fst (cat_return_t p (sz, al))) = after sz al (unat (fst p))"
proof -
  have "unat (fst p) < 2 ^ 63" using after_ge(2) [OF good_object_align [OF o], of "unat (fst p)" sz] lt by simp
  moreover have "unat sz < 2 ^ 63" using o unfolding good_object_def by (simp add: word_less_nat_alt)
  ultimately have "fst (cat_return_t p (sz, al)) = align_up (fst p) al + sz"
    using below_half by (simp add: cat_return_t_def)
  moreover have "unat (align_up (fst p) al) = up (unat (fst p)) (unat al)"
    using lt unfolding after_def by (intro unat_align_up [OF good_object_align [OF o]]) simp
  ultimately show ?thesis
    using lt unfolding after_def by (simp add: unat_add_no_wrap)
qed

lemma slay_each_ge: "(\<And>t x. t \<in> set ts \<Longrightarrow> x \<le> slay t x) \<Longrightarrow> x \<le> slay_each (map slay ts) x"
proof (induction ts arbitrary: x)
  case (Cons t ts)
  have "x \<le> slay t x" using Cons.prems by simp
  also have "slay t x \<le> slay_each (map slay ts) (slay t x)" using Cons by simp
  finally show ?case by simp
qed simp

lemma ubound_t_each:
  assumes "\<And>t p. t \<in> set ts \<Longrightarrow> slay t (unat (fst p)) < 2 ^ 63 \<Longrightarrow> unat (fst (ubound_t t p)) = slay t (unat (fst p))"
    and "\<And>t x. t \<in> set ts \<Longrightarrow> x \<le> slay t x" and "slay_each (map slay ts) (unat (fst p)) < 2 ^ 63"
  shows "unat (fst (ubound_each_t (map ubound_t ts) p)) = slay_each (map slay ts) (unat (fst p))"
  using assms
proof (induction ts arbitrary: p)
  case (Cons t ts)
  have "slay t (unat (fst p)) < 2 ^ 63"
    using slay_each_ge [of ts "slay t (unat (fst p))"] Cons.prems(2,3) by simp
  then have "unat (fst (ubound_t t p)) = slay t (unat (fst p))" using Cons.prems(1) by simp
  then show ?case using Cons.IH [of "ubound_t t p"] Cons.prems by simp
qed simp

lemma ubound_t_exact:
  "wf_ty t \<Longrightarrow> exact t \<Longrightarrow> slay t (unat (fst p)) < 2 ^ 63 \<Longrightarrow> unat (fst (ubound_t t p)) = slay t (unat (fst p))"
proof (induction t arbitrary: p)
  case (Ty_pair t u)
  have "unat (fst (ubound_each_t (map ubound_t [t, u]) p)) = slay_each (map slay [t, u]) (unat (fst p))"
    using Ty_pair periodicD(3) [OF periodic_slay] by (intro ubound_t_each) auto
  then show ?case by simp
next
  case (Ty_fields ts)
  then show ?case using periodicD(3) [OF periodic_slay] by (auto simp: list_all_iff intro!: ubound_t_each)
next
  case (Ty_values ts)
  then show ?case using periodicD(3) [OF periodic_slay] by (auto simp: list_all_iff intro!: ubound_t_each)
next
  case (Ty_tuple ts)
  then show ?case using periodicD(3) [OF periodic_slay] by (auto simp: list_all_iff intro!: ubound_t_each)
qed (simp_all add: ubound_t_object)

lemma cat_return_t_sticky:
  "fst p \<ge> - 2 \<or> fst q \<ge> - 2 \<Longrightarrow> fst (cat_return_t p q) \<ge> - 2"
  unfolding cat_return_t_def by auto

lemma ubound_each_t_sticky:
  assumes "\<And>t p. t \<in> set ts \<Longrightarrow> dynamic t \<or> fst p \<ge> - 2 \<Longrightarrow> fst (ubound_t t p) \<ge> - 2"
  shows "list_ex dynamic ts \<or> fst p \<ge> - 2 \<Longrightarrow> fst (ubound_each_t (map ubound_t ts) p) \<ge> - 2"
  using assms
proof (induction ts arbitrary: p)
  case (Cons t ts)
  show ?case
    using Cons.IH [of "ubound_t t p"] Cons.prems by (cases "list_ex dynamic ts") auto
qed simp

lemma static_otherwise_invalid_dynamic: "fst q \<ge> - 2 \<Longrightarrow> static_otherwise_invalid_t q = (- 1, - 1)"
proof -
  assume "fst q \<ge> - 2"
  then have "unat (- 2 :: u64) \<le> unat (fst q)" by (simp only: word_le_nat_alt)
  moreover have "unat (- 2 :: u64) = 18446744073709551614" "unat (- 1 :: u64) = 18446744073709551615"
    by (simp_all add: unsigned_minus_1_eq_mask mask_eq_exp_minus_1)
  ultimately have "unat (fst q) = unat (- 2 :: u64) \<or> unat (fst q) = unat (- 1 :: u64)"
    using unat_lt64 [of "fst q"] by linarith
  then have "fst q = - 2 \<or> fst q = - 1" by (metis unsigned_word_eqI)
  then show ?thesis unfolding static_otherwise_invalid_t_def by auto
qed

lemma ubound_t_dynamic: "dynamic t \<or> fst p \<ge> - 2 \<Longrightarrow> fst (ubound_t t p) \<ge> - 2"
proof (induction t arbitrary: p)
  case (Ty_fields ts)
  then show ?case using ubound_each_t_sticky [of ts p] by (simp add: list_ex_iff)
next
  case (Ty_values ts)
  then show ?case using ubound_each_t_sticky [of ts p] by (simp add: list_ex_iff)
next
  case (Ty_tuple ts)
  then show ?case using ubound_each_t_sticky [of ts p] by (simp add: list_ex_iff)
next
  case (Ty_array n t)
  have "fst (arrayed_static_t (static_otherwise_invalid_t (ubound_t t (0, 1))) n) \<ge> - 2" if "n \<noteq> 0" "dynamic t"
    using static_otherwise_invalid_dynamic [OF Ty_array.IH] that by (simp add: arrayed_static_t_def)
  then show ?case using Ty_array.prems by (auto intro!: cat_return_t_sticky)
next
  case (Ty_pair t u)
  show ?case
    using Ty_pair.IH(1) [of p] Ty_pair.IH(2) [of "ubound_t t p"] Ty_pair.prems
    by (simp only: ubound_t.simps dynamic.simps) blast
next
  case (Ty_string c)
  show ?case by (auto simp: arrayed_t_def intro!: cat_return_t_sticky)
next
  case (Ty_sequence contig t)
  show ?case by (auto simp: arrayed_t_def intro!: cat_return_t_sticky)
qed (auto intro: cat_return_t_sticky)

subsection \<open>Where reading and skipping end\<close>

text \<open>Whatever the bytes are, what is read is a value of the type, and the reader ends where its layout ends.\<close>

definition ends_at :: "(sreader \<Rightarrow> 'a \<times> sreader) \<Rightarrow> ('a \<Rightarrow> nat \<Rightarrow> nat) \<Rightarrow> ('a \<Rightarrow> bool) \<Rightarrow> bool" where
  "ends_at g l P \<longleftrightarrow>
     (\<forall>v x. x \<le> l v x) \<and>
     (\<forall>m B s v r. g (rd m B s) = (v, r) \<longrightarrow> in_buf B (l v s) \<longrightarrow> P v \<and> r = rd m B (l v s))"

lemma ends_atI:
  assumes "\<And>v x. x \<le> l v x" "\<And>m B s v r. g (rd m B s) = (v, r) \<Longrightarrow> in_buf B (l v s) \<Longrightarrow> P v \<and> r = rd m B (l v s)"
  shows "ends_at g l P"
  using assms unfolding ends_at_def by blast

lemma ends_atD:
  assumes "ends_at g l P"
  shows "x \<le> l v x" "g (rd m B s) = (v, r) \<Longrightarrow> in_buf B (l v s) \<Longrightarrow> P v \<and> r = rd m B (l v s)"
  using assms unfolding ends_at_def by blast+

lemma ends_at_V_list:
  assumes "ends_at g l P"
  shows "ends_at (\<lambda>r. apfst V_list (g r)) (\<lambda>v. l (elts v)) (is_elts P)"
proof (rule ends_atI)
  show "x \<le> l (elts v) x" for v x using ends_atD(1) [OF assms] .
  fix m B s v r assume "apfst V_list (g (rd m B s)) = (v, r)" and b: "in_buf B (l (elts v) s)"
  then obtain vs where "g (rd m B s) = (vs, r)" "v = V_list vs" by (cases "g (rd m B s)") auto
  then show "is_elts P v \<and> r = rd m B (l (elts v) s)" using ends_atD(2) [OF assms] b by simp
qed

lemma ends_at_read_trivial:
  assumes "good_align al"
  shows "ends_at (read_trivial sz al) (\<lambda>_. after sz al) (\<lambda>bs. length bs = unat sz)"
proof (rule ends_atI)
  show "x \<le> after sz al x" for x using after_ge(2) assms by blast
  fix m B s bs r assume "read_trivial sz al (rd m B s) = (bs, r)" "in_buf B (after sz al s)"
  then show "length bs = unat sz \<and> r = rd m B (after sz al s)"
    using unplace_in_buf [OF _ assms] by (auto simp: read_trivial_def)
qed

lemma ends_at_read_size_t: "ends_at read_size_t (\<lambda>_. after 8 8) (\<lambda>_. True)"
proof (rule ends_atI)
  show "x \<le> after 8 8 x" for x using after_ge(2) good_align8 by blast
  fix m B s n r assume "read_size_t (rd m B s) = (n, r)" "in_buf B (after 8 8 s)"
  then show "True \<and> r = rd m B (after 8 8 s)"
    using ends_atD(2) [OF ends_at_read_trivial [OF good_align8], of 8 m B s] by (auto simp: read_size_t_def split_beta' Let_def prod_eq_iff)
qed

lemma ends_at_read_each:
  assumes "ends_at g l P"
  shows "ends_at (read_each g n) (fold l) (\<lambda>vs. length vs = n \<and> list_all P vs)"
proof (rule ends_atI)
  show "x \<le> fold l vs x" for vs x using ends_atD(1) [OF assms] by (intro fold_ge)
  fix m B s vs r assume "read_each g n (rd m B s) = (vs, r)" "in_buf B (fold l vs s)"
  then show "(length vs = n \<and> list_all P vs) \<and> r = rd m B (fold l vs s)"
  proof (induction n arbitrary: s vs)
    case (Suc n)
    obtain v r1 us where 1: "g (rd m B s) = (v, r1)" "read_each g n r1 = (us, r)" "vs = v # us"
      using Suc.prems(1) by (auto simp: Let_def split: prod.splits)
    have "l v s \<le> fold l us (l v s)" using ends_atD(1) [OF assms] by (intro fold_ge)
    then have "in_buf B (l v s)" using Suc.prems(2) 1(3) in_buf_le by simp
    then have 2: "P v" "r1 = rd m B (l v s)" using ends_atD(2) [OF assms 1(1)] by simp_all
    then show ?case using Suc.IH [of "l v s" us] Suc.prems(2) 1 by simp
  qed simp
qed

lemma ends_at_each:
  assumes "\<And>t. t \<in> set ts \<Longrightarrow> ends_at (deserialize t) (lay t) (has_type t)"
  shows "ends_at (deserialize_each (map deserialize ts)) (lay_each (map lay ts)) (list_all2 (\<lambda>p v. p v) (map has_type ts))"
proof (rule ends_atI)
  show "x \<le> lay_each (map lay ts) vs x" for vs x using ends_atD(1) [OF assms] by (rule lay_each_ge)
  fix m B s vs r assume "deserialize_each (map deserialize ts) (rd m B s) = (vs, r)" "in_buf B (lay_each (map lay ts) vs s)"
  then show "list_all2 (\<lambda>p v. p v) (map has_type ts) vs \<and> r = rd m B (lay_each (map lay ts) vs s)"
    using assms
  proof (induction ts arbitrary: s vs)
    case (Cons t ts)
    obtain v r1 us where 1: "deserialize t (rd m B s) = (v, r1)" "deserialize_each (map deserialize ts) r1 = (us, r)" "vs = v # us"
      using Cons.prems(1) by (auto simp: Let_def split: prod.splits)
    have t: "ends_at (deserialize t) (lay t) (has_type t)" using Cons.prems(3) by simp
    have "lay t v s \<le> lay_each (map lay ts) us (lay t v s)"
      using ends_atD(1) [OF Cons.prems(3)] by (intro lay_each_ge) simp
    then have "in_buf B (lay t v s)" using Cons.prems(2) 1(3) in_buf_le by simp
    then have 2: "has_type t v" "r1 = rd m B (lay t v s)" using ends_atD(2) [OF t 1(1)] by simp_all
    then show ?case using Cons.IH [of "lay t v s" us] Cons.prems(2,3) 1 by simp
  qed simp
qed

lemma ends_at_counted:
  assumes "\<And>n. ends_at (g n) l (\<lambda>vs. length vs = unat n \<and> list_all P vs)"
  shows "ends_at (\<lambda>r. let (n, r) = read_size_t r in g n r) (\<lambda>vs x. l vs (after 8 8 x)) (\<lambda>vs. length vs < 2 ^ 64 \<and> list_all P vs)"
proof (rule ends_atI)
  have a: "x \<le> after 8 8 x" for x using after_ge(2) good_align8 by blast
  then show "x \<le> l vs (after 8 8 x)" for vs x using ends_atD(1) [OF assms] order.trans by blast
  fix m B s vs r
  assume r: "(let (n, r) = read_size_t (rd m B s) in g n r) = (vs, r)" and b: "in_buf B (l vs (after 8 8 s))"
  obtain n r1 where 1: "read_size_t (rd m B s) = (n, r1)" "g n r1 = (vs, r)" using r by (auto split: prod.splits)
  have "in_buf B (after 8 8 s)" using b ends_atD(1) [OF assms] in_buf_le by blast
  then have "r1 = rd m B (after 8 8 s)" using ends_atD(2) [OF ends_at_read_size_t 1(1)] by simp
  then show "(length vs < 2 ^ 64 \<and> list_all P vs) \<and> r = rd m B (l vs (after 8 8 s))"
    using ends_atD(2) [OF assms, of n m B "after 8 8 s" vs r] 1(2) b by simp
qed

lemma load_objects_concat:
  "concat (map raw (load_objects m a sz n)) = load m a (n * unat sz)"
proof (induction n arbitrary: a)
  case (Suc n)
  then show ?case by (simp add: load_objects_Suc load_append)
qed (simp add: load_objects_def load_def)

lemma load_objects_typed: "list_all (is_bytes (unat sz)) (load_objects m a sz n)" "length (load_objects m a sz n) = n"
  by (auto simp: load_objects_def list_all_iff)

lemma read_sequence_into_each:
  assumes wf: "wf_ty t" and r: "read_sequence_into t (deserialize t) n (rd m B s) = (vs, r)"
    and b: "in_buf B (fold (lay t) vs s)"
  shows "read_each (deserialize t) (unat n) (rd m B s) = (vs, r)"
proof (cases "is_actually_trivially_serializable t")
  case True
  then obtain sz al where t: "t = Ty_trivial sz al" by (cases t) simp_all
  have o: "good_object sz al" using wf t by simp
  obtain p r1 where p: "unplace (n * sz) (if n = 0 then 1 else al) (rd m B s) = (p, r1)" by fastforce
  have "rd_mem r1 = m" using p by (auto simp: unplace_def Let_def)
  then have vs: "vs = load_objects m p sz (unat n)" "r = r1"
    using r p unfolding t by (simp_all add: read_sequence_into_def read_sequence_trivial_def arrayed_good_object [OF o])
  have ty: "list_all (is_bytes (unat sz)) vs" "length vs = unat n" using load_objects_typed vs(1) by simp_all
  have b1: "in_buf B (fold (\<lambda>_. after sz al) vs s)" using b t by simp
  have at: "objects_at sz vs m B (up s (unat al))" if "vs \<noteq> []"
  proof -
    have n0: "n \<noteq> 0" using that ty(2) by auto
    have "up s (unat al) \<le> fold (\<lambda>_. after sz al) vs s" using that fold_after [OF o, of vs s] by simp
    then have "in_buf B (up s (unat al))" using b1 in_buf_le by blast
    then have "p = B + word_of_nat (up s (unat al))"
      using p n0 align_up_in_buf [OF _ good_object_align [OF o]] by (simp add: unplace_def Let_def)
    then show ?thesis using vs(1) load_objects_concat [of m p sz "unat n"] ty(2) by (simp add: objects_at_def)
  qed
  have "reads (read_each (deserialize t) (length vs)) vs (fold (\<lambda>_. after sz al) vs) m B s"
    unfolding t by (rule reads_each_objects [OF o ty(1) b1]) (simp add: at)
  moreover have "reads (read_sequence_trivial sz al n) vs (fold (\<lambda>_. after sz al) vs) m B s"
    by (rule reads_bulk_objects [OF o ty b1]) (simp add: at)
  ultimately show ?thesis using r ty(2) unfolding reads_def t by (simp add: read_sequence_into_def)
next
  case False
  then show ?thesis using r by (simp add: read_sequence_into_def)
qed

lemma ends_at_read_sequence_into:
  assumes "wf_ty t" "ends_at (deserialize t) (lay t) (has_type t)"
  shows "ends_at (read_sequence_into t (deserialize t) n) (fold (lay t)) (\<lambda>vs. length vs = unat n \<and> list_all (has_type t) vs)"
proof (rule ends_atI)
  show "x \<le> fold (lay t) vs x" for vs x using ends_atD(1) [OF assms(2)] by (intro fold_ge)
  fix m B s vs r assume r: "read_sequence_into t (deserialize t) n (rd m B s) = (vs, r)" and b: "in_buf B (fold (lay t) vs s)"
  show "(length vs = unat n \<and> list_all (has_type t) vs) \<and> r = rd m B (fold (lay t) vs s)"
    using ends_atD(2) [OF ends_at_read_each [OF assms(2)] read_sequence_into_each [OF assms(1) r b] b] by simp
qed

lemma ends_at_trivial:
  assumes "good_object sz al"
  shows "ends_at (deserialize (Ty_trivial sz al)) (lay (Ty_trivial sz al)) (has_type (Ty_trivial sz al))"
proof (rule ends_atI)
  show "x \<le> lay (Ty_trivial sz al) v x" for v x using assms lay_ge [of "Ty_trivial sz al"] by simp
  fix m B s v r assume "deserialize (Ty_trivial sz al) (rd m B s) = (v, r)" "in_buf B (lay (Ty_trivial sz al) v s)"
  then show "has_type (Ty_trivial sz al) v \<and> r = rd m B (lay (Ty_trivial sz al) v s)"
    using unplace_in_buf [OF _ good_object_align [OF assms]] by (auto simp: read_trivial_def)
qed

lemma ends_at_deserialize: "wf_ty t \<Longrightarrow> ends_at (deserialize t) (lay t) (has_type t)"
proof (induction t)
  case (Ty_trivial sz al)
  then show ?case using ends_at_trivial by simp
next
  case Ty_empty
  show ?case by (rule ends_atI) auto
next
  case (Ty_fields ts)
  then show ?case using ends_at_V_list [OF ends_at_each, of ts] by (simp add: list_all_iff)
next
  case (Ty_values ts)
  then show ?case using ends_at_V_list [OF ends_at_each, of ts] by (simp add: list_all_iff)
next
  case (Ty_tuple ts)
  then show ?case using ends_at_V_list [OF ends_at_each, of ts] by (simp add: list_all_iff)
next
  case (Ty_pair t u)
  have "ends_at (\<lambda>r. apfst V_list (deserialize_each (map deserialize [t, u]) r)) (\<lambda>v. lay_each (map lay [t, u]) (elts v))
      (is_elts (list_all2 (\<lambda>p v. p v) (map has_type [t, u])))"
    using Ty_pair by (intro ends_at_V_list [OF ends_at_each]) auto
  moreover have "deserialize_pair (deserialize t) (deserialize u) = deserialize_each (map deserialize [t, u])"
    by (intro ext) (simp add: deserialize_pair_def split_beta' Let_def)
  ultimately show ?case by (simp only: deserialize.simps lay.simps has_type.simps list.map)
next
  case (Ty_array n t)
  then show ?case using ends_at_V_list [OF ends_at_read_sequence_into, of t] by simp
next
  case (Ty_string c)
  then have "good_object c c" by simp
  from ends_at_V_list [OF ends_at_counted [OF ends_at_read_sequence_into [OF _ ends_at_trivial [OF this]]]]
  show ?case using Ty_string by (simp flip: deserialize_string_eq)
next
  case (Ty_sequence contig t)
  then show ?case
    using ends_at_V_list [OF ends_at_counted [OF ends_at_read_each, where g1 = "\<lambda>_. deserialize t"]]
    by (simp add: deserialize_sequence_def [abs_def])
next
  case (Ty_forward_list t)
  then show ?case
    using ends_at_V_list [OF ends_at_counted [OF ends_at_read_each, where g1 = "\<lambda>_. deserialize t"]]
    by (simp flip: deserialize_forward_list_eq)
qed

subsection \<open>Skipping ends where reading ends\<close>

text \<open>\<open>k\<close> goes wherever the reader \<open>g\<close> goes.\<close>

definition skips :: "(sreader \<Rightarrow> sreader) \<Rightarrow> (sreader \<Rightarrow> 'a \<times> sreader) \<Rightarrow> ('a \<Rightarrow> nat \<Rightarrow> nat) \<Rightarrow> bool" where
  "skips k g l \<longleftrightarrow> (\<forall>m B s v r. g (rd m B s) = (v, r) \<longrightarrow> in_buf B (l v s) \<longrightarrow> k (rd m B s) = rd m B (l v s))"

lemma skipsI:
  "(\<And>m B s v r. g (rd m B s) = (v, r) \<Longrightarrow> in_buf B (l v s) \<Longrightarrow> k (rd m B s) = rd m B (l v s)) \<Longrightarrow> skips k g l"
  unfolding skips_def by blast

lemma skipsD: "skips k g l \<Longrightarrow> g (rd m B s) = (v, r) \<Longrightarrow> in_buf B (l v s) \<Longrightarrow> k (rd m B s) = rd m B (l v s)"
  unfolding skips_def by blast

lemma skips_V_list: "skips k g l \<Longrightarrow> skips k (\<lambda>r. apfst V_list (g r)) (\<lambda>v. l (elts v))"
  unfolding skips_def by (auto simp: apfst_def map_prod_def split: prod.splits)

lemma skips_n:
  assumes e: "ends_at g l P" and k: "skips k g l"
  shows "skips (skip_n k n) (read_each g n) (fold l)"
proof (rule skipsI)
  fix m B s vs r assume "read_each g n (rd m B s) = (vs, r)" "in_buf B (fold l vs s)"
  then show "skip_n k n (rd m B s) = rd m B (fold l vs s)"
  proof (induction n arbitrary: s vs)
    case (Suc n)
    obtain v r1 us where 1: "g (rd m B s) = (v, r1)" "read_each g n r1 = (us, r)" "vs = v # us"
      using Suc.prems(1) by (auto simp: Let_def split: prod.splits)
    have "l v s \<le> fold l us (l v s)" using ends_atD(1) [OF e] by (intro fold_ge)
    then have b: "in_buf B (l v s)" using Suc.prems(2) 1(3) in_buf_le by simp
    then have "r1 = rd m B (l v s)" using ends_atD(2) [OF e 1(1)] by simp
    then show ?case using Suc.IH [of "l v s" us] Suc.prems(2) 1 skipsD [OF k 1(1) b] by simp
  qed simp
qed

lemma skips_each:
  assumes "\<And>t. t \<in> set ts \<Longrightarrow> wf_ty t" "\<And>t. t \<in> set ts \<Longrightarrow> skips (skip t) (deserialize t) (lay t)"
  shows "skips (skip_each (map skip ts)) (deserialize_each (map deserialize ts)) (lay_each (map lay ts))"
proof (rule skipsI)
  fix m B s vs r assume "deserialize_each (map deserialize ts) (rd m B s) = (vs, r)" "in_buf B (lay_each (map lay ts) vs s)"
  then show "skip_each (map skip ts) (rd m B s) = rd m B (lay_each (map lay ts) vs s)"
    using assms
  proof (induction ts arbitrary: s vs)
    case (Cons t ts)
    obtain v r1 us where 1: "deserialize t (rd m B s) = (v, r1)" "deserialize_each (map deserialize ts) r1 = (us, r)" "vs = v # us"
      using Cons.prems(1) by (auto simp: Let_def split: prod.splits)
    have "lay t v s \<le> lay_each (map lay ts) us (lay t v s)"
      using lay_ge Cons.prems(3) by (intro lay_each_ge) simp
    then have b: "in_buf B (lay t v s)" using Cons.prems(2) 1(3) in_buf_le by simp
    have "r1 = rd m B (lay t v s)"
      using ends_atD(2) [OF ends_at_deserialize 1(1) b] Cons.prems(3) by simp
    then show ?case
      using Cons.IH [of "lay t v s" us] Cons.prems(2-4) 1 skipsD [OF Cons.prems(4) 1(1) b] by simp
  qed simp
qed

lemma fold_lay_exact:
  "exact t \<Longrightarrow> list_all (has_type t) vs \<Longrightarrow> fold (lay t) vs s = fold (\<lambda>_. slay t) vs s"
  by (induction vs arbitrary: s) (simp_all add: lay_exact)

lemma static_ubound_exact:
  assumes "wf_ty t" "exact t" "slay t 0 < 2 ^ 63"
  shows "ss_is_valid (static_ubound_t t)" "unat (fst (static_ubound_t t)) = slay t 0"
proof -
  have u: "unat (fst (ubound_t t (0, 1))) = slay t 0" using ubound_t_exact [OF assms(1,2), of "(0, 1)"] assms(3) by simp
  then have "\<not> fst (ubound_t t (0, 1)) \<ge> - 2" using assms(3) by (intro below_half) simp
  then have "fst (ubound_t t (0, 1)) \<noteq> - 1 \<and> fst (ubound_t t (0, 1)) \<noteq> - 2" by auto
  then show "ss_is_valid (static_ubound_t t)" "unat (fst (static_ubound_t t)) = slay t 0"
    using u by (simp_all add: static_ubound_t_def static_otherwise_invalid_t_def ss_is_valid_def)
qed

lemma skip_delta_exact:
  assumes "wf_ty t" "exact t" "slay t (slay t 0) < 2 ^ 63"
  shows "skip_delta t = word_of_nat (stride t)"
proof -
  have ge: "slay t 0 \<le> slay t (slay t 0)" using periodicD(3) [OF periodic_slay [OF assms(1,2)]] .
  then have u: "unat (fst (static_ubound_t t)) = slay t 0" using static_ubound_exact(2) [OF assms(1,2)] assms(3) by simp
  then have "unat (fst (ubound_t t (static_ubound_t t))) = slay t (slay t 0)"
    using ubound_t_exact [OF assms(1,2), of "static_ubound_t t"] assms(3) by simp
  then have "unat (skip_delta t) = stride t"
    using u ge unfolding skip_delta_def stride_def by (simp add: unat_sub word_le_nat_alt)
  then show ?thesis by (metis word_of_nat_unat64)
qed

lemma skips_sequence_exact:
  assumes wf: "wf_ty t" and ex: "exact t" and k: "skips (skip t) (deserialize t) (lay t)"
  shows "skips (skip_sequence t (skip t) n) (read_each (deserialize t) (unat n)) (fold (lay t))"
proof (rule skipsI)
  fix m B s vs r assume r: "read_each (deserialize t) (unat n) (rd m B s) = (vs, r)" and b: "in_buf B (fold (lay t) vs s)"
  have e: "ends_at (deserialize t) (lay t) (has_type t)" using ends_at_deserialize [OF wf] .
  have vs: "length vs = unat n" "list_all (has_type t) vs" using ends_atD(2) [OF ends_at_read_each [OF e] r b] by simp_all
  have mono: "mono (slay t)" using periodicD(2) [OF periodic_slay [OF wf ex]] .
  show "skip_sequence t (skip t) n (rd m B s) = rd m B (fold (lay t) vs s)"
  proof (cases vs)
    case Nil
    then show ?thesis using vs(1) by (simp add: skip_sequence_def unat_eq_zero)
  next
    case (Cons v us)
    then have n: "n \<noteq> 0" using vs(1) by auto
    then have n1: "unat (n - 1) = length us" using vs(1) Cons unat_minus_one [OF n] by simp
    have v: "has_type t v" "list_all (has_type t) us" using vs(2) Cons by simp_all
    have total: "fold (lay t) vs s = slay t s + length us * stride t"
      using fold_lay_exact [OF ex vs(2)] Cons fold_slay_stride [OF wf ex, of us s] by simp
    have "read_each (deserialize t) (Suc (length us)) (rd m B s) = (v # us, r)" using r vs(1) Cons by simp
    then obtain r1 where 1: "deserialize t (rd m B s) = (v, r1)" by (auto simp: Let_def split: prod.splits)
    have "in_buf B (lay t v s)" using b total lay_exact [OF ex v(1)] in_buf_le by simp
    then have first: "skip t (rd m B s) = rd m B (slay t s)" using skipsD [OF k 1] lay_exact [OF ex v(1)] by simp
    have "slay t 0 < 2 ^ 63" using b total monoD [OF mono, of 0 s] unfolding in_buf_def by simp
    then have valid: "ss_is_valid (static_ubound_t t)" using static_ubound_exact [OF wf ex] by blast
    have "(n - 1) * skip_delta t = word_of_nat (length us * stride t)"
    proof (cases "us = []")
      case True
      then show ?thesis using n1 by (simp add: unat_eq_zero)
    next
      case False
      then have "slay t (slay t s) \<le> fold (lay t) vs s" using total slay_stride [OF wf ex, of s] by (cases us) simp_all
      then have "slay t (slay t 0) < 2 ^ 63"
        using b monoD [OF mono monoD [OF mono], of 0 s] unfolding in_buf_def by simp
      then have "skip_delta t = word_of_nat (stride t)" by (rule skip_delta_exact [OF wf ex])
      moreover have "n - 1 = word_of_nat (length us)" using n1 by (metis word_of_nat_unat64)
      ultimately show ?thesis by simp
    qed
    then show ?thesis using n valid first total by (simp add: skip_sequence_def jump_def add.assoc)
  qed
qed

lemma skips_sequence_dynamic:
  assumes wf: "wf_ty t" and dyn: "dynamic t" and k: "skips (skip t) (deserialize t) (lay t)"
  shows "skips (skip_sequence t (skip t) n) (read_each (deserialize t) (unat n)) (fold (lay t))"
proof -
  have "\<not> ss_is_valid (static_ubound_t t)"
    using static_otherwise_invalid_dynamic [OF ubound_t_dynamic] dyn by (simp add: static_ubound_t_def ss_is_valid_def)
  then have "skip_sequence t (skip t) n = skip_n (skip t) (unat n)"
  proof (intro ext)
    fix r
    show "skip_sequence t (skip t) n r = skip_n (skip t) (unat n) r"
    proof (cases "unat n")
      case 0
      then show ?thesis by (simp add: skip_sequence_def unat_eq_zero)
    next
      case (Suc j)
      then have "n \<noteq> 0" by auto
      then have "unat (n - 1) = j" using Suc by (subst unat_minus_one) simp_all
      then show ?thesis using \<open>\<not> ss_is_valid (static_ubound_t t)\<close> \<open>n \<noteq> 0\<close> Suc by (simp add: skip_sequence_def)
    qed
  qed
  then show ?thesis using skips_n [OF ends_at_deserialize [OF wf] k] by simp
qed

lemma skips_counted:
  assumes "\<And>n. skips (k n) (g n) l" "\<And>n. ends_at (g n) l (P n)"
  shows "skips (\<lambda>r. let (n, r) = read_size_t r in k n r) (\<lambda>r. let (n, r) = read_size_t r in g n r) (\<lambda>vs x. l vs (after 8 8 x))"
proof (rule skipsI)
  fix m B s vs r
  assume r: "(let (n, r) = read_size_t (rd m B s) in g n r) = (vs, r)" and b: "in_buf B (l vs (after 8 8 s))"
  obtain n r1 where 1: "read_size_t (rd m B s) = (n, r1)" "g n r1 = (vs, r)" using r by (auto split: prod.splits)
  have "in_buf B (after 8 8 s)" using b ends_atD(1) [OF assms(2)] in_buf_le by blast
  then have "r1 = rd m B (after 8 8 s)" using ends_atD(2) [OF ends_at_read_size_t 1(1)] by simp
  then show "(let (n, r) = read_size_t (rd m B s) in k n r) = rd m B (l vs (after 8 8 s))"
    using skipsD [OF assms(1), of n m B "after 8 8 s" vs r] 1 b by simp
qed

lemma skips_sequence:
  "wf_ty t \<Longrightarrow> exact t \<or> dynamic t \<Longrightarrow> skips (skip t) (deserialize t) (lay t) \<Longrightarrow>
    skips (skip_sequence t (skip t) n) (read_each (deserialize t) (unat n)) (fold (lay t))"
  using skips_sequence_exact skips_sequence_dynamic by blast

lemma skips_container:
  assumes "wf_ty t" "exact t \<or> dynamic t" "skips (skip t) (deserialize t) (lay t)"
  shows "skips (skip_container t (skip t)) (\<lambda>r. let (n, r) = read_size_t r in read_each (deserialize t) (unat n) r)
    (\<lambda>vs x. fold (lay t) vs (after 8 8 x))"
  using skips_counted [where k = "\<lambda>n. skip_sequence t (skip t) n" and g = "\<lambda>n. read_each (deserialize t) (unat n)",
      OF skips_sequence [OF assms] ends_at_read_each [OF ends_at_deserialize [OF assms(1)]]]
  by (simp add: skip_container_def [abs_def])

lemma skips_string:
  assumes "good_object c c"
  shows "skips (skip_string c) (deserialize_string c) (\<lambda>vs x. fold (lay (Ty_trivial c c)) vs (after 8 8 x))"
proof (rule skipsI)
  fix m B s vs r
  assume r: "deserialize_string c (rd m B s) = (vs, r)" and b: "in_buf B (fold (lay (Ty_trivial c c)) vs (after 8 8 s))"
  have "skip_string c (rd m B s) = snd (deserialize_string c (rd m B s))"
    by (simp add: skip_string_def deserialize_string_def Let_def split_beta')
  moreover have "ends_at (deserialize (Ty_string c)) (lay (Ty_string c)) (has_type (Ty_string c))"
    using assms by (intro ends_at_deserialize) simp
  ultimately show "skip_string c (rd m B s) = rd m B (fold (lay (Ty_trivial c c)) vs (after 8 8 s))"
    using ends_atD(2) [of "deserialize (Ty_string c)" "lay (Ty_string c)" "has_type (Ty_string c)" m B s "V_list vs" r] r b
    by simp
qed

lemma skips_skip: "wf_ty t \<Longrightarrow> skippable t \<Longrightarrow> skips (skip t) (deserialize t) (lay t)"
proof (induction t)
  case (Ty_trivial sz al)
  then show ?case
    using unplace_in_buf [OF _ good_object_align, of _ sz al] by (auto simp: skips_def read_trivial_def)
next
  case Ty_empty
  show ?case by (simp add: skips_def)
next
  case (Ty_fields ts)
  then show ?case using skips_V_list [OF skips_each, of ts] by (simp add: list_all_iff)
next
  case (Ty_values ts)
  then show ?case using skips_V_list [OF skips_each, of ts] by (simp add: list_all_iff)
next
  case (Ty_tuple ts)
  then show ?case using skips_V_list [OF skips_each, of ts] by (simp add: list_all_iff)
next
  case (Ty_pair t u)
  have "skips (skip_each (map skip [t, u])) (\<lambda>r. apfst V_list (deserialize_each (map deserialize [t, u]) r))
      (\<lambda>v. lay_each (map lay [t, u]) (elts v))"
    using Ty_pair by (intro skips_V_list [OF skips_each]) auto
  moreover have "deserialize_pair (deserialize t) (deserialize u) = deserialize_each (map deserialize [t, u])"
    "skip (Ty_pair t u) = skip_each (map skip [t, u])"
    by (intro ext, simp add: deserialize_pair_def split_beta' Let_def) (intro ext, simp)
  ultimately show ?case by (simp only: deserialize.simps lay.simps list.map)
next
  case (Ty_array n t)
  then have "skips (skip_sequence t (skip t) n) (read_each (deserialize t) (unat n)) (fold (lay t))"
    by (intro skips_sequence) simp_all
  then have "skips (skip_sequence t (skip t) n) (read_sequence_into t (deserialize t) n) (fold (lay t))"
    unfolding skips_def using read_sequence_into_each Ty_array.prems(1) by (simp only: wf_ty.simps) blast
  then show ?case using skips_V_list by simp
next
  case (Ty_string c)
  then show ?case using skips_V_list [OF skips_string, of c] by simp
next
  case (Ty_sequence contig t)
  then show ?case using skips_V_list [OF skips_container, of t] by (simp add: deserialize_sequence_def [abs_def])
next
  case (Ty_forward_list t)
  then show ?case using skips_V_list [OF skips_container, of t] by (simp flip: deserialize_forward_list_eq)
qed

text \<open>An array of three classes with fields of 8 bytes and 1 byte.\<close>

definition sample_rec :: ty where
  "sample_rec = Ty_fields [Ty_trivial 8 8, Ty_trivial 1 1]"

definition sample_recs :: val where
  "sample_recs = V_list (let x = V_list [V_bytes (replicate 8 0), V_bytes [0]] in [x, x, x])"

lemma read_each_numeral [simp]:
  "read_each f (numeral k) r = (let (v, r) = f r; (vs, r) = read_each f (pred_numeral k) r in (v # vs, r))"
  by (simp add: numeral_eq_Suc)

lemma load_zero: "load (\<lambda>_. 0) a n = replicate n 0"
  by (simp add: load_def map_replicate_const)

lemma sample_recs_read:
  "deserialize (Ty_array 3 sample_rec) (sreader_init (\<lambda>_. 0) (64 + word_of_nat 3)) =
     (sample_recs, sreader_init (\<lambda>_. 0) 113)"
  by (simp add: sample_rec_def sample_recs_def sreader_init_def read_sequence_into_def unplace_def
      read_trivial_def align_up_def load_zero Let_def)

lemma sample_recs_facts:
  "wf_ty (Ty_array 3 sample_rec)" "skippable (Ty_array 3 sample_rec)" "lay (Ty_array 3 sample_rec) sample_recs 3 = 49"
  by (simp_all add: sample_rec_def sample_recs_def good_object_def good_align_def after_def up_def Let_def)

text \<open>
  (C36) Whatever bytes a reader meets, what \<open>deserialize\<close> returns is a value of the type it was asked for, and the
  reader stops exactly where the layout of that value ends.
\<close>

theorem deserialize_typed:
  assumes "wf_ty t" "deserialize t (sreader_init m (B + word_of_nat s)) = (v, r)" "in_buf B (lay t v s)"
  shows "has_type t v \<and> r = sreader_init m (B + word_of_nat (lay t v s))"
  using ends_atD(2) [OF ends_at_deserialize [OF assms(1)], of m B s v r] assms(2,3) by (simp add: sreader_init_def)

theorem deserialize_typed_witness:
  "has_type (Ty_array 3 sample_rec) sample_recs \<and>
   sreader_init (\<lambda>_. 0) 113 = sreader_init (\<lambda>_. 0) (64 + word_of_nat (lay (Ty_array 3 sample_rec) sample_recs 3))"
proof -
  have "in_buf 64 (lay (Ty_array 3 sample_rec) sample_recs 3)" unfolding sample_recs_facts(3) by (simp add: in_buf_def)
  then show ?thesis by (rule deserialize_typed [OF sample_recs_facts(1) sample_recs_read])
qed

text \<open>
  (C14) Skipping is reading without keeping the value: for every type whose sequences have elements with an
  exact static bound, or with none, \<open>skip\<close> leaves the reader exactly where \<open>deserialize\<close> leaves it,
  whatever the bytes are. This includes the jump over all but the first element of a sequence.
\<close>

theorem skip_ends_like_deserialize:
  assumes "wf_ty t" "skippable t" "deserialize t (sreader_init m (B + word_of_nat s)) = (v, r)" "in_buf B (lay t v s)"
  shows "skip t (sreader_init m (B + word_of_nat s)) = r"
  using skipsD [OF skips_skip [OF assms(1,2)], of m B s v r] ends_atD(2) [OF ends_at_deserialize [OF assms(1)], of m B s v r] assms(3,4)
  by (simp add: sreader_init_def)

theorem skip_ends_like_deserialize_witness:
  "skip (Ty_array 3 sample_rec) (sreader_init (\<lambda>_. 0) (64 + word_of_nat 3)) = sreader_init (\<lambda>_. 0) 113"
  using skip_ends_like_deserialize [OF sample_recs_facts(1,2) sample_recs_read] sample_recs_facts(3)
  by (simp add: in_buf_def)

definition sample_outer :: ty where
  "sample_outer = Ty_fields [Ty_array 2 sample_rec, Ty_trivial 1 1]"

text \<open>
  The jump relies on static bounds being exact, and they are not for a class that holds an array of classes: an
  array is bounded by whole aligned elements. For an array of two classes that each hold an array of two
  records of an 8-byte and a 1-byte field, and one more byte, reading advances by 58 bytes and skipping by 66.
\<close>

lemma skip_overshoots_nested_array:
  "wf_ty (Ty_array 2 sample_outer) \<and>
   rd_head (snd (deserialize (Ty_array 2 sample_outer) (sreader_init m 64))) = 64 + 58 \<and>
   rd_head (skip (Ty_array 2 sample_outer) (sreader_init m 64)) = 64 + 66"
proof -
  have d: "skip_delta sample_outer = 40" "skip_delta sample_rec = 16"
    "ss_is_valid (static_ubound_t sample_outer)" "ss_is_valid (static_ubound_t sample_rec)"
    by code_simp+
  show ?thesis
    using d by (simp add: skip_sequence_def jump_def sample_outer_def sample_rec_def good_object_def good_align_def
        sreader_init_def read_sequence_into_def unplace_def read_trivial_def align_up_def Let_def)
qed

end
