(* ===== verification/Serialization_Bound.thy ===== *)
theory Serialization_Bound
  imports Serialization_Skip
begin

text \<open>
  Component serialization, bounds: the storage size that \<open>ubound\<close> computes before a value is written covers every
  byte that \<open>serialize\<close> writes.
\<close>

unbundle bit_operations_syntax

subsection \<open>The bound as natural numbers\<close>

definition arr :: "nat \<Rightarrow> nat \<Rightarrow> nat \<Rightarrow> nat \<Rightarrow> nat" where
  "arr a z n x = (if n = 0 then x else up x a + (if n = 1 then z else n * up z a))"

text \<open>The alignment and the end of the static bound of a type that has one.\<close>

primrec sal :: "ty \<Rightarrow> nat" where
  "sal (Ty_trivial sz al) = unat al"
| "sal Ty_empty = 1"
| "sal (Ty_fields ts) = max_align (map sal ts)"
| "sal (Ty_values ts) = max_align (map sal ts)"
| "sal (Ty_tuple ts) = max_align (map sal ts)"
| "sal (Ty_pair t u) = max_align [sal t, sal u]"
| "sal (Ty_array n t) = (if n = 0 then 1 else sal t)"
| "sal (Ty_string c) = 1"
| "sal (Ty_sequence contig t) = 1"
| "sal (Ty_forward_list t) = 1"

primrec sub :: "ty \<Rightarrow> nat \<Rightarrow> nat" where
  "sub (Ty_trivial sz al) = after sz al"
| "sub Ty_empty = (\<lambda>x. x)"
| "sub (Ty_fields ts) = slay_each (map sub ts)"
| "sub (Ty_values ts) = slay_each (map sub ts)"
| "sub (Ty_tuple ts) = slay_each (map sub ts)"
| "sub (Ty_pair t u) = slay_each [sub t, sub u]"
| "sub (Ty_array n t) = arr (sal t) (sub t 0) (unat n)"
| "sub (Ty_string c) = (\<lambda>x. x)"
| "sub (Ty_sequence contig t) = (\<lambda>x. x)"
| "sub (Ty_forward_list t) = (\<lambda>x. x)"

primrec bnd :: "ty \<Rightarrow> val \<Rightarrow> nat \<Rightarrow> nat" where
  "bnd (Ty_trivial sz al) = (\<lambda>v. after sz al)"
| "bnd Ty_empty = (\<lambda>v x. x)"
| "bnd (Ty_fields ts) = (\<lambda>v. lay_each (map bnd ts) (elts v))"
| "bnd (Ty_values ts) = (\<lambda>v. lay_each (map bnd ts) (elts v))"
| "bnd (Ty_tuple ts) = (\<lambda>v. lay_each (map bnd ts) (elts v))"
| "bnd (Ty_pair t u) = (\<lambda>v. lay_each [bnd t, bnd u] (elts v))"
| "bnd (Ty_array n t) = (\<lambda>v. arr (sal t) (sub t 0) (unat n))"
| "bnd (Ty_string c) = (\<lambda>v x. arr (unat c) (unat c) (length (elts v)) (after 8 8 x))"
| "bnd (Ty_sequence contig t) = (\<lambda>v x. arr (sal t) (sub t 0) (length (elts v)) (after 8 8 x))"
| "bnd (Ty_forward_list t) = (\<lambda>v x. x)"

text \<open>Types for which \<open>ubound\<close> gives a valid size.\<close>

primrec bounded :: "ty \<Rightarrow> bool" where
  "bounded (Ty_trivial sz al) = True"
| "bounded Ty_empty = True"
| "bounded (Ty_fields ts) = list_all (\<lambda>x. x) (map bounded ts)"
| "bounded (Ty_values ts) = list_all (\<lambda>x. x) (map bounded ts)"
| "bounded (Ty_tuple ts) = list_all (\<lambda>x. x) (map bounded ts)"
| "bounded (Ty_pair t u) = (bounded t \<and> bounded u)"
| "bounded (Ty_array n t) = (n = 0 \<or> \<not> dynamic t)"
| "bounded (Ty_string c) = True"
| "bounded (Ty_sequence contig t) = (\<not> dynamic t)"
| "bounded (Ty_forward_list t) = False"

text \<open>The static bound of every element type fits \<open>ptrdiff_t\<close>.\<close>

primrec static_fits :: "ty \<Rightarrow> bool" where
  "static_fits (Ty_trivial sz al) = True"
| "static_fits Ty_empty = True"
| "static_fits (Ty_fields ts) = list_all (\<lambda>x. x) (map static_fits ts)"
| "static_fits (Ty_values ts) = list_all (\<lambda>x. x) (map static_fits ts)"
| "static_fits (Ty_tuple ts) = list_all (\<lambda>x. x) (map static_fits ts)"
| "static_fits (Ty_pair t u) = (static_fits t \<and> static_fits u)"
| "static_fits (Ty_array n t) = (static_fits t \<and> sub t 0 < 2 ^ 63)"
| "static_fits (Ty_string c) = True"
| "static_fits (Ty_sequence contig t) = (static_fits t \<and> sub t 0 < 2 ^ 63)"
| "static_fits (Ty_forward_list t) = True"

subsection \<open>The bound covers the layout\<close>

text \<open>Steps that move with their start by any multiple of an alignment.\<close>

definition shifts :: "nat \<Rightarrow> (nat \<Rightarrow> nat) \<Rightarrow> bool" where
  "shifts a f \<longleftrightarrow> pow2 a \<and> mono f \<and> (\<forall>x. x \<le> f x) \<and> (\<forall>k x. a dvd k \<longrightarrow> f (x + k) = f x + k)"

lemma shiftsD:
  assumes "shifts a f"
  shows "pow2 a" "mono f" "x \<le> f x" "a dvd k \<Longrightarrow> f (x + k) = f x + k"
  using assms unfolding shifts_def by blast+

lemma shifts_comp:
  assumes f: "shifts a f" and g: "shifts b g"
  shows "shifts (max a b) (\<lambda>x. g (f x))"
proof -
  have p: "pow2 a" "pow2 b" using shiftsD(1) f g by blast+
  then have m: "pow2 (max a b)" "a dvd max a b" "b dvd max a b"
    using pow2_dvd by (auto simp: max_def)
  have "g (f (x + k)) = g (f x) + k" if "max a b dvd k" for x k
    using shiftsD(4) [OF f dvd_trans [OF m(2) that]] shiftsD(4) [OF g dvd_trans [OF m(3) that]] by simp
  moreover have "x \<le> g (f x)" for x using shiftsD(3) [OF f] shiftsD(3) [OF g] order.trans by blast
  moreover have "mono (\<lambda>x. g (f x))" using shiftsD(2) [OF f] shiftsD(2) [OF g] unfolding mono_def by blast
  ultimately show ?thesis using m(1) unfolding shifts_def by blast
qed

lemma shifts_id: "shifts (Suc 0) (\<lambda>x. x)"
  unfolding shifts_def by (simp add: pow2_def mono_def)

lemma shifts_each:
  assumes "\<And>t. t \<in> set ts \<Longrightarrow> shifts (sal t) (sub t)"
  shows "shifts (max_align (map sal ts)) (slay_each (map sub ts))"
  using assms
proof (induction ts)
  case Nil
  have "slay_each [] = (\<lambda>x. x)" by auto
  then show ?case using shifts_id by (simp add: max_align_def)
next
  case (Cons t ts)
  have "slay_each (map sub (t # ts)) = (\<lambda>x. slay_each (map sub ts) (sub t x))" by auto
  then show ?case using shifts_comp [OF Cons.prems [of t] Cons.IH] Cons.prems by (simp add: max_align_Cons)
qed

lemma arr_ge: "pow2 a \<Longrightarrow> x \<le> arr a z n x"
  using up_ge [OF pow2_pos, of a x] unfolding arr_def by simp

lemma arr_mono: "pow2 a \<Longrightarrow> mono (arr a z n)"
  using up_mono [OF pow2_pos, of a] unfolding arr_def mono_def by simp

lemma shifts_arr: "shifts a f \<Longrightarrow> shifts (if n = 0 then 1 else a) (arr a z n)"
proof -
  assume "shifts a f"
  then have p: "pow2 a" by (rule shiftsD)
  have "up (x + k) a = up x a + k" if "a dvd k" for x k using up_shift [OF pow2_pos [OF p]] that by simp
  then show ?thesis
    using p arr_ge [OF p, of _ z n] arr_mono [OF p, of z n] unfolding shifts_def by (auto simp: arr_def pow2_def)
qed

lemma shifts_sub: "wf_ty t \<Longrightarrow> shifts (sal t) (sub t)"
proof (induction t)
  case (Ty_trivial sz al)
  then show ?case using periodic_after [of sz al] unfolding periodic_def shifts_def by simp
next
  case (Ty_pair t u)
  then have "shifts (max_align (map sal [t, u])) (slay_each (map sub [t, u]))" by (intro shifts_each) auto
  then show ?case by (simp only: sal.simps sub.simps list.map)
next
  case (Ty_array n t)
  then show ?case using shifts_arr [of "sal t" "sub t" "unat n"] by (simp add: unat_eq_zero)
qed (auto simp: shifts_id list_all_iff intro!: shifts_each)

text \<open>A run of elements against whole aligned elements.\<close>

lemma fold_le_arr:
  assumes s: "shifts a f" and le: "\<And>v x. v \<in> set vs \<Longrightarrow> l v x \<le> f x"
  shows "fold l vs x \<le> arr a (f 0) (length vs) x"
proof -
  have p: "0 < a" "pow2 a" using pow2_pos shiftsD(1) [OF s] by blast+
  have step: "f y \<le> up y a + f 0" for y
  proof -
    have "f y \<le> f (0 + up y a)" using monoD [OF shiftsD(2) [OF s]] up_ge [OF p(1)] by simp
    also have "\<dots> = f 0 + up y a" using up_mod [OF p(1), of y] by (intro shiftsD(4) [OF s]) (simp only: mod_eq_0_iff_dvd)
    finally show ?thesis by simp
  qed
  have run: "vs \<noteq> [] \<Longrightarrow> (\<And>v x. v \<in> set vs \<Longrightarrow> l v x \<le> f x) \<Longrightarrow>
      fold l vs x \<le> up x a + (length vs - 1) * up (f 0) a + f 0" for vs x
  proof (induction vs arbitrary: x)
    case (Cons v vs)
    have v: "l v x \<le> up x a + f 0" using step [of x] Cons.prems(2) [of v x] by simp
    show ?case
    proof (cases "vs = []")
      case False
      have "up (l v x) a \<le> up (f 0 + up x a) a" using up_mono [OF p(1) v] by (simp add: add.commute)
      also have "\<dots> = up (f 0) a + up x a" using up_shift [OF p(1) up_mod [OF p(1)]] .
      finally have "up (l v x) a \<le> up x a + up (f 0) a" by simp
      moreover have "fold l vs (l v x) \<le> up (l v x) a + (length vs - 1) * up (f 0) a + f 0"
        using Cons False by simp
      moreover obtain k where "length vs = Suc k" using False by (cases vs) auto
      ultimately show ?thesis by simp
    qed (use v in simp)
  qed simp
  show ?thesis
  proof (cases "length vs \<le> 1")
    case True
    then show ?thesis using step [of x] le by (cases vs) (auto simp: arr_def intro: order.trans)
  next
    case False
    then obtain k where k: "length vs = Suc (Suc k)" by (metis Suc_le_eq le_Suc_ex not_less_eq_eq One_nat_def add_Suc)
    have "f 0 \<le> up (f 0) a" using up_ge p(1) by blast
    moreover have "vs \<noteq> []" using k by auto
    ultimately show ?thesis using run [of vs x] le k by (simp add: arr_def)
  qed
qed

lemma lay_each_mono:
  assumes "\<And>t v x y. t \<in> set ts \<Longrightarrow> v \<in> set vs \<Longrightarrow> has_type t v \<Longrightarrow> x \<le> y \<Longrightarrow> f t v x \<le> g t v y"
    and "list_all2 (\<lambda>p v. p v) (map has_type ts) vs" "x \<le> y"
  shows "lay_each (map f ts) vs x \<le> lay_each (map g ts) vs y"
  using assms
proof (induction ts arbitrary: vs x y)
  case (Cons t ts)
  then obtain v us where v: "vs = v # us" "has_type t v" "list_all2 (\<lambda>p v. p v) (map has_type ts) us"
    by (cases vs) auto
  have "f t v x \<le> g t v y" using Cons.prems(1,3) v by simp
  then show ?case using Cons.IH [of us "f t v x" "g t v y"] Cons.prems(1) v by simp
qed simp

lemma lay_each_sub:
  assumes "\<And>t v x. t \<in> set ts \<Longrightarrow> has_type t v \<Longrightarrow> lay t v x \<le> sub t x" "\<And>t. t \<in> set ts \<Longrightarrow> mono (sub t)"
    and "list_all2 (\<lambda>p v. p v) (map has_type ts) vs" "x \<le> y"
  shows "lay_each (map lay ts) vs x \<le> slay_each (map sub ts) y"
  using assms
proof (induction ts arbitrary: vs x y)
  case (Cons t ts)
  then obtain v us where v: "vs = v # us" "has_type t v" "list_all2 (\<lambda>p v. p v) (map has_type ts) us"
    by (cases vs) auto
  have "lay t v x \<le> sub t y"
    using Cons.prems(1) [of t v x] v(2) monoD [OF Cons.prems(2) [of t] Cons.prems(4)] by simp
  then show ?case using Cons.IH [of us "lay t v x" "sub t y"] Cons.prems(1,2) v by simp
qed simp

lemma lay_le_sub: "wf_ty t \<Longrightarrow> \<not> dynamic t \<Longrightarrow> has_type t v \<Longrightarrow> lay t v x \<le> sub t x"
proof (induction t arbitrary: v x)
  case (Ty_fields ts)
  then show ?case using shiftsD(2) [OF shifts_sub]
    by (auto simp: list_all_iff list_ex_iff intro!: lay_each_sub elim!: is_elts_cases)
next
  case (Ty_values ts)
  then show ?case using shiftsD(2) [OF shifts_sub]
    by (auto simp: list_all_iff list_ex_iff intro!: lay_each_sub elim!: is_elts_cases)
next
  case (Ty_tuple ts)
  then show ?case using shiftsD(2) [OF shifts_sub]
    by (auto simp: list_all_iff list_ex_iff intro!: lay_each_sub elim!: is_elts_cases)
next
  case (Ty_pair t u)
  then obtain vs where v: "v = V_list vs" "list_all2 (\<lambda>p v. p v) (map has_type [t, u]) vs"
    by (auto elim!: is_elts_cases)
  have "lay_each (map lay [t, u]) vs x \<le> slay_each (map sub [t, u]) x"
    using Ty_pair shiftsD(2) [OF shifts_sub] by (intro lay_each_sub [OF _ _ v(2)]) auto
  then show ?case unfolding v(1) by (simp only: lay.simps sub.simps elts.simps list.map)
next
  case (Ty_array n t)
  obtain vs where v: "v = V_list vs" "length vs = unat n" "list_all (has_type t) vs"
    using Ty_array.prems(3) by (auto elim!: is_elts_cases)
  have "fold (lay t) vs x \<le> arr (sal t) (sub t 0) (length vs) x"
    using Ty_array v by (intro fold_le_arr [OF shifts_sub]) (auto simp: list_all_iff unat_eq_zero)
  then show ?case using v by simp
qed auto

lemma fold_mono: "(\<And>v. v \<in> set vs \<Longrightarrow> mono (l v)) \<Longrightarrow> x \<le> y \<Longrightarrow> fold l vs x \<le> fold l vs (y :: nat)"
  by (induction vs arbitrary: x y) (simp_all add: monoD)

lemma mono_after: "good_align al \<Longrightarrow> mono (after sz al)"
  using up_mono good_align_pos unfolding mono_def after_def by simp

lemma run_le_bnd:
  assumes "wf_ty t" "\<not> dynamic t" "list_all (has_type t) vs" "x \<le> y"
  shows "fold (lay t) vs (after 8 8 x) \<le> arr (sal t) (sub t 0) (length vs) (after 8 8 y)"
proof -
  have s: "shifts (sal t) (sub t)" using shifts_sub [OF assms(1)] .
  have "fold (lay t) vs (after 8 8 x) \<le> arr (sal t) (sub t 0) (length vs) (after 8 8 x)"
    using lay_le_sub [OF assms(1,2)] assms(3) by (intro fold_le_arr [OF s]) (auto simp: list_all_iff)
  also have "\<dots> \<le> arr (sal t) (sub t 0) (length vs) (after 8 8 y)"
    using monoD [OF arr_mono [OF shiftsD(1) [OF s]] monoD [OF mono_after [OF good_align8] assms(4)]] .
  finally show ?thesis .
qed

lemma lay_le_bnd: "wf_ty t \<Longrightarrow> bounded t \<Longrightarrow> has_type t v \<Longrightarrow> x \<le> y \<Longrightarrow> lay t v x \<le> bnd t v y"
proof (induction t arbitrary: v x y)
  case (Ty_trivial sz al)
  then show ?case using monoD [OF mono_after [OF good_object_align]] by simp
next
  case (Ty_fields ts)
  then show ?case by (auto simp: list_all_iff intro!: lay_each_mono elim!: is_elts_cases)
next
  case (Ty_values ts)
  then show ?case by (auto simp: list_all_iff intro!: lay_each_mono elim!: is_elts_cases)
next
  case (Ty_tuple ts)
  then show ?case by (auto simp: list_all_iff intro!: lay_each_mono elim!: is_elts_cases)
next
  case (Ty_pair t u)
  then obtain vs where v: "v = V_list vs" "list_all2 (\<lambda>p v. p v) (map has_type [t, u]) vs"
    by (auto elim!: is_elts_cases)
  have "lay_each (map lay [t, u]) vs x \<le> lay_each (map bnd [t, u]) vs y"
    using Ty_pair by (intro lay_each_mono [OF _ v(2)]) auto
  then show ?case unfolding v(1) by (simp only: lay.simps bnd.simps elts.simps list.map)
next
  case (Ty_array n t)
  obtain vs where v: "v = V_list vs" "length vs = unat n" "list_all (has_type t) vs"
    using Ty_array.prems(3) by (auto elim!: is_elts_cases)
  have s: "shifts (sal t) (sub t)" using shifts_sub Ty_array.prems(1) by simp
  have "fold (lay t) vs x \<le> arr (sal t) (sub t 0) (length vs) x"
  proof (cases "n = 0")
    case False
    then show ?thesis
      using lay_le_sub Ty_array.prems(1,2) v(3) by (intro fold_le_arr [OF s]) (auto simp: list_all_iff)
  qed (use v(2) in \<open>simp add: arr_def\<close>)
  also have "\<dots> \<le> arr (sal t) (sub t 0) (length vs) y"
    using monoD [OF arr_mono [OF shiftsD(1) [OF s]] Ty_array.prems(4)] .
  finally show ?case using v by simp
next
  case (Ty_string c)
  then obtain vs where v: "v = V_list vs" "list_all (has_type (Ty_trivial c c)) vs" by (auto elim!: is_elts_cases)
  have "fold (lay (Ty_trivial c c)) vs (after 8 8 x) \<le> arr (sal (Ty_trivial c c)) (sub (Ty_trivial c c) 0) (length vs) (after 8 8 y)"
    using Ty_string.prems v(2) by (intro run_le_bnd) auto
  moreover have "sub (Ty_trivial c c) 0 = unat c"
    using good_align_pos [OF good_object_align] Ty_string.prems(1) by (simp add: after_def up_same)
  ultimately show ?case using v(1) by simp
next
  case (Ty_sequence contig t)
  then obtain vs where v: "v = V_list vs" "list_all (has_type t) vs" by (auto elim!: is_elts_cases)
  then show ?case using Ty_sequence.prems run_le_bnd [OF _ _ v(2)] by simp
qed auto

subsection \<open>Storage sizes that stand for natural numbers\<close>

text \<open>A valid storage size with size \<open>x\<close> and alignment \<open>a\<close>; a static one has them in its type.\<close>

definition ss_rep :: "storage_size \<Rightarrow> nat \<Rightarrow> nat \<Rightarrow> bool" where
  "ss_rep p x a \<longleftrightarrow>
     unat (ss_size p) = x \<and> x < 2 ^ 63 \<and> good_align (ss_align p) \<and> unat (ss_align p) = a \<and>
     fst (ss_type p) \<noteq> - 1 \<and> (fst (ss_type p) \<noteq> - 2 \<longrightarrow> ss_type p = (ss_size p, ss_align p))"

definition ss_static :: "ss_type \<Rightarrow> nat \<Rightarrow> nat \<Rightarrow> bool" where
  "ss_static p x a \<longleftrightarrow> unat (fst p) = x \<and> x < 2 ^ 63 \<and> good_align (snd p) \<and> unat (snd p) = a"

lemma ss_static_below: "ss_static p x a \<Longrightarrow> \<not> fst p \<ge> - 2"
  using below_half unfolding ss_static_def by blast

lemma ss_static_not: "ss_static p x a \<Longrightarrow> fst p \<noteq> - 1 \<and> fst p \<noteq> - 2"
  using ss_static_below by fastforce

lemma ss_rep_static: "ss_static p x a \<Longrightarrow> ss_rep (make_storage_size p (fst p) (snd p)) x a"
  using ss_static_not [of p x a] unfolding ss_static_def ss_rep_def make_storage_size_def by (simp add: prod_eq_iff)

lemma ss_rep_type: "ss_rep p x a \<Longrightarrow> fst (ss_type p) \<noteq> - 2 \<Longrightarrow> ss_static (ss_type p) x a"
  unfolding ss_rep_def ss_static_def by simp

lemma ss_rep_dynamic:
  "unat z < 2 ^ 63 \<Longrightarrow> good_align al \<Longrightarrow> ss_rep (make_storage_size (- 2, b) z al) (unat z) (unat al)"
  unfolding ss_rep_def make_storage_size_def by simp

lemma word_max: "(if (a :: u64) > b then a else b) = max a b"
  by (auto simp: max_def)

lemma good_align_max: "good_align a \<Longrightarrow> good_align b \<Longrightarrow> good_align (max a b)"
  by (simp add: max_def)

lemma unat_max64: "unat (max (a :: u64) b) = max (unat a) (unat b)"
  by (simp add: max_def word_le_nat_alt)

lemma cat_return_t_static:
  assumes "ss_static p x a" "ss_static q y b" "up x b + y < 2 ^ 63"
  shows "ss_static (cat_return_t p q) (up x b + y) (max a b)" "fst (cat_return_t p q) = align_up (fst p) (snd q) + fst q"
    "snd (cat_return_t p q) = max (snd p) (snd q)"
proof -
  show f: "fst (cat_return_t p q) = align_up (fst p) (snd q) + fst q"
    "snd (cat_return_t p q) = max (snd p) (snd q)"
    using ss_static_below [OF assms(1)] ss_static_below [OF assms(2)] unfolding cat_return_t_def by (simp_all add: word_max)
  have "unat (align_up (fst p) (snd q)) = up x b"
    using assms unat_align_up [of "snd q" "fst p"] unfolding ss_static_def by simp
  then show "ss_static (cat_return_t p q) (up x b + y) (max a b)"
    using assms unfolding ss_static_def f by (simp add: unat_add_no_wrap unat_max64 good_align_max)
qed

lemma cat_return_t_dynamic:
  assumes "fst p \<noteq> - 1" "fst q \<noteq> - 1" "fst p = - 2 \<or> fst q = - 2"
  shows "fst (cat_return_t p q) = - 2"
proof -
  have "x \<le> - 2" if "x \<noteq> - 1" for x :: u64
  proof (rule ccontr)
    assume "\<not> x \<le> - 2"
    then have "x \<ge> - 2" "x \<noteq> - 2" by auto
    then show False using static_otherwise_invalid_dynamic [of "(x, x)"] that
      by (auto simp: static_otherwise_invalid_t_def split: if_splits)
  qed
  then have "fst p \<le> - 2" "fst q \<le> - 2" using assms by blast+
  then show ?thesis using assms(3) unfolding cat_return_t_def by auto
qed

lemma cat_rep:
  assumes p: "ss_rep p x a" and q: "ss_rep q y b" and lt: "up x b + y < 2 ^ 63"
  shows "ss_rep (cat p q) (up x b + y) (max a b)"
proof -
  have f: "unat (ss_size p) = x" "unat (ss_size q) = y" "good_align (ss_align p)" "good_align (ss_align q)"
    "unat (ss_align p) = a" "unat (ss_align q) = b" "fst (ss_type p) \<noteq> - 1" "fst (ss_type q) \<noteq> - 1"
    using p q unfolding ss_rep_def by simp_all
  have "unat (align_up (ss_size p) (ss_align q)) = up x b" using unat_align_up [OF f(4)] f(1,6) lt by simp
  then have z: "unat (align_up (ss_size p) (ss_align q) + ss_size q) = up x b + y"
    using f(2) lt by (simp add: unat_add_no_wrap)
  have al: "good_align (max (ss_align p) (ss_align q))" "unat (max (ss_align p) (ss_align q)) = max a b"
    using good_align_max f(3,4) unat_max64 f(5,6) by simp_all
  show ?thesis
  proof (cases "fst (ss_type p) = - 2 \<or> fst (ss_type q) = - 2")
    case True
    then have "fst (cat_return_t (ss_type p) (ss_type q)) = - 2" using cat_return_t_dynamic f(7,8) by blast
    then show ?thesis
      using ss_rep_dynamic [of "align_up (ss_size p) (ss_align q) + ss_size q" "max (ss_align p) (ss_align q)"
          "snd (cat_return_t (ss_type p) (ss_type q))"] z al lt
      unfolding cat_def cat_help_def word_max by (metis prod.collapse)
  next
    case False
    then have s: "ss_static (ss_type p) x a" "ss_static (ss_type q) y b" using ss_rep_type p q by blast+
    have t: "ss_type p = (ss_size p, ss_align p)" "ss_type q = (ss_size q, ss_align q)"
      using False p q unfolding ss_rep_def by simp_all
    have "cat p q = make_storage_size (cat_return_t (ss_type p) (ss_type q))
        (fst (cat_return_t (ss_type p) (ss_type q))) (snd (cat_return_t (ss_type p) (ss_type q)))"
      using cat_return_t_static(2,3) [OF s lt] t unfolding cat_def cat_help_def word_max by simp
    then show ?thesis using ss_rep_static [OF cat_return_t_static(1) [OF s lt]] by simp
  qed
qed

lemma size_aligned_rep:
  assumes "ss_rep p x a"
  shows "unat (size_aligned p 1) = up x a" "up x a \<le> 2 ^ 63"
proof -
  have f: "unat (ss_size p) = x" "good_align (ss_align p)" "unat (ss_align p) = a" "x < 2 ^ 63"
    using assms unfolding ss_rep_def by simp_all
  have "\<not> 1 > ss_align p" using good_align_pos [OF f(2)] by auto
  then have e: "size_aligned p 1 = align_up (ss_size p) (ss_align p)" unfolding size_aligned_def by simp
  have "(2 ^ 63 :: nat) mod a = 0"
    using good_align_dvd [OF f(2)] f(3) dvd_trans [of a 64 "2 ^ 63"] by (simp add: mod_eq_0_iff_dvd)
  then show up: "up x a \<le> 2 ^ 63"
    using up_mono [of a x "2 ^ 63"] up_same [of a "2 ^ 63"] f(4) good_align_pos [OF f(2)] f(3) by simp
  then show "unat (size_aligned p 1) = up x a"
    using unat_align_up [OF f(2), of "ss_size p"] f(1,3) unfolding e by simp
qed

definition run_size :: "nat \<Rightarrow> nat \<Rightarrow> nat \<Rightarrow> nat" where
  "run_size a x n = (if n = 0 then 0 else if n = 1 then x else n * up x a)"

lemma run_size_word:
  assumes "ss_rep p x a" "run_size a x (unat n) < 2 ^ 63"
  shows "unat (if n = 1 then ss_size p else n * size_aligned p 1) = run_size a x (unat n)"
proof -
  have "unat n = 1 \<longleftrightarrow> n = 1" by (metis unat_1 unsigned_word_eqI)
  moreover have "unat (n * size_aligned p 1) = unat n * up x a" if "unat n \<noteq> 1"
    using that assms(2) size_aligned_rep [OF assms(1)] unfolding run_size_def
    by (cases "unat n = 0") (simp_all add: unat_mult_no_wrap unat_eq_zero)
  ultimately show ?thesis using assms(1) unfolding ss_rep_def run_size_def by auto
qed

lemma arrayed_rep:
  assumes p: "ss_rep p x a" and lt: "run_size a x (unat n) < 2 ^ 63"
  shows "ss_rep (arrayed p n) (run_size a x (unat n)) (if n = 0 then 1 else a)"
proof -
  have "- fst (ss_type p) \<noteq> 1" using p unfolding ss_rep_def by (metis minus_minus)
  moreover have "good_align (if n = 0 then 1 else ss_align p)" "unat (if n = 0 then 1 else ss_align p) = (if n = 0 then 1 else a)"
    using p unfolding ss_rep_def by (simp_all add: good_align_def)
  ultimately show ?thesis
    using ss_rep_dynamic [of "if n = 1 then ss_size p else n * size_aligned p 1" "if n = 0 then 1 else ss_align p"]
      run_size_word [OF p lt] lt unfolding arrayed_def arrayed_t_def by simp
qed

lemma arr_run: "0 < a \<Longrightarrow> arr a z n x = up x (if n = 0 then 1 else a) + run_size a z n"
  by (simp add: arr_def run_size_def up_same)

lemma arrayed_static_t_static:
  assumes q: "ss_static q x a" and lt: "run_size a x (unat n) < 2 ^ 63"
  shows "ss_static (arrayed_static_t q n) (run_size a x (unat n)) (if n = 0 then 1 else a)"
proof (cases "n = 0")
  case True
  then show ?thesis by (simp add: arrayed_static_t_def ss_static_def run_size_def good_align_def)
next
  case False
  have r: "ss_rep (make_storage_size q (fst q) (snd q)) x a" using ss_rep_static [OF q] .
  have m: "ss_size (make_storage_size q (fst q) (snd q)) = fst q" "ss_align (make_storage_size q (fst q) (snd q)) = snd q"
    by (simp_all add: make_storage_size_def)
  have "\<not> 1 > snd q" using q good_align_pos [of "snd q"] unfolding ss_static_def by auto
  then have "size_aligned (make_storage_size q (fst q) (snd q)) 1 = align_up (fst q) (snd q)"
    unfolding size_aligned_def m by simp
  moreover have "- fst q \<noteq> 1" "- fst q \<noteq> 2" using ss_static_not [OF q] by (metis minus_minus)+
  moreover have "- snd q \<noteq> 1"
  proof
    assume "- snd q = 1"
    then have "snd q = - 1" by (metis minus_minus)
    then show False using q unfolding ss_static_def good_align_def by auto
  qed
  ultimately have "arrayed_static_t q n = (if n = 1 then fst q else n * size_aligned (make_storage_size q (fst q) (snd q)) 1, snd q)"
    using False by (simp add: arrayed_static_t_def)
  then show ?thesis using run_size_word [OF r lt] lt q False unfolding m ss_static_def by simp
qed

lemma arrayed_static_rep:
  assumes "ss_static q x a" "run_size a x (unat n) < 2 ^ 63"
  shows "ss_rep (arrayed_static (make_storage_size q (fst q) (snd q)) n) (run_size a x (unat n)) (if n = 0 then 1 else a)"
proof -
  have s: "ss_static (arrayed_static_t q n) (run_size a x (unat n)) (if n = 0 then 1 else a)"
    using arrayed_static_t_static [OF assms] .
  have "arrayed_static (make_storage_size q (fst q) (snd q)) n =
      make_storage_size (arrayed_static_t q n) (fst (arrayed_static_t q n)) (snd (arrayed_static_t q n))"
    using ss_static_not [OF s] by (simp add: arrayed_static_def make_storage_size_def)
  then show ?thesis using ss_rep_static [OF s] by simp
qed

lemma static_otherwise_invalid_static: "ss_static p x a \<Longrightarrow> static_otherwise_invalid_t p = p"
  using ss_static_not unfolding static_otherwise_invalid_t_def by simp

lemma ss_static_empty: "ss_static (0, 1) 0 1"
  by (simp add: ss_static_def good_align_def)

lemma ss_static_object: "good_object sz al \<Longrightarrow> ss_static (sz, al) (unat sz) (unat al)"
proof -
  assume o: "good_object sz al"
  then have "sz < 2 ^ 63" unfolding good_object_def by blast
  then have "unat sz < unat (2 ^ 63 :: u64)" by (simp only: word_less_nat_alt)
  moreover have "unat (2 ^ 63 :: u64) = 2 ^ 63" by simp
  ultimately show ?thesis using o unfolding ss_static_def good_object_def by simp
qed

lemma ubound_t_static_each:
  assumes "\<And>t p x a. t \<in> set ts \<Longrightarrow> ss_static p x a \<Longrightarrow> sub t x < 2 ^ 63 \<Longrightarrow> ss_static (ubound_t t p) (sub t x) (max a (sal t))"
    and "\<And>t. t \<in> set ts \<Longrightarrow> wf_ty t" and "ss_static p x a" "slay_each (map sub ts) x < 2 ^ 63"
  shows "ss_static (ubound_each_t (map ubound_t ts) p) (slay_each (map sub ts) x) (max a (max_align (map sal ts)))"
  using assms
proof (induction ts arbitrary: p x a)
  case Nil
  then have "1 \<le> a" using good_align_pos unfolding ss_static_def by (metis Suc_leI One_nat_def)
  then show ?case using Nil by (simp add: max_align_def max_absorb1)
next
  case (Cons t ts)
  have "shifts (max_align (map sal ts)) (slay_each (map sub ts))" using Cons.prems(2) shifts_sub by (intro shifts_each) simp
  then have "sub t x < 2 ^ 63" using shiftsD(3) [of _ "slay_each (map sub ts)" "sub t x"] Cons.prems(4) by fastforce
  then have "ss_static (ubound_t t p) (sub t x) (max a (sal t))" using Cons.prems(1,3) by simp
  then show ?case
    using Cons.IH [of "ubound_t t p" "sub t x" "max a (sal t)"] Cons.prems by (simp add: max_align_Cons max.assoc)
qed

lemma ubound_t_static:
  "wf_ty t \<Longrightarrow> \<not> dynamic t \<Longrightarrow> static_fits t \<Longrightarrow> ss_static p x a \<Longrightarrow> sub t x < 2 ^ 63 \<Longrightarrow>
     ss_static (ubound_t t p) (sub t x) (max a (sal t))"
proof (induction t arbitrary: p x a)
  case (Ty_trivial sz al)
  have "ss_static (sz, al) (unat sz) (unat al)"
    using Ty_trivial.prems(1) by (intro ss_static_object) simp
  then show ?case
    using cat_return_t_static(1) [OF Ty_trivial.prems(4)] Ty_trivial.prems(5) by (simp add: after_def)
next
  case Ty_empty
  then have "1 \<le> a" using good_align_pos unfolding ss_static_def by (metis Suc_leI One_nat_def)
  then show ?case using Ty_empty by (simp add: max_absorb1)
next
  case (Ty_fields ts)
  then show ?case by (auto simp: list_all_iff list_ex_iff intro!: ubound_t_static_each)
next
  case (Ty_values ts)
  then show ?case by (auto simp: list_all_iff list_ex_iff intro!: ubound_t_static_each)
next
  case (Ty_tuple ts)
  then show ?case by (auto simp: list_all_iff list_ex_iff intro!: ubound_t_static_each)
next
  case (Ty_pair t u)
  have "ss_static (ubound_each_t (map ubound_t [t, u]) p) (slay_each (map sub [t, u]) x) (max a (max_align (map sal [t, u])))"
    using Ty_pair by (intro ubound_t_static_each) auto
  then show ?case by simp
next
  case (Ty_array n t)
  have pos: "0 < sal t" using pow2_pos shiftsD(1) [OF shifts_sub] Ty_array.prems(1) by simp
  have lt: "up x (if n = 0 then 1 else sal t) + run_size (sal t) (sub t 0) (unat n) < 2 ^ 63"
    using Ty_array.prems(5) arr_run [OF pos] by (simp add: unat_eq_zero)
  have "ss_static (arrayed_static_t (static_otherwise_invalid_t (ubound_t t (0, 1))) n)
      (run_size (sal t) (sub t 0) (unat n)) (if n = 0 then 1 else sal t)"
  proof (cases "n = 0")
    case True
    then show ?thesis by (simp add: arrayed_static_t_def ss_static_def run_size_def good_align_def)
  next
    case False
    then have "ss_static (ubound_t t (0, 1)) (sub t 0) (max 1 (sal t))"
      using Ty_array by (intro Ty_array.IH ss_static_empty) auto
    then have "ss_static (ubound_t t (0, 1)) (sub t 0) (sal t)" using pos by (simp add: max_absorb2)
    then show ?thesis
      using arrayed_static_t_static [of "ubound_t t (0, 1)" "sub t 0" "sal t" n] static_otherwise_invalid_static lt by simp
  qed
  from cat_return_t_static(1) [OF Ty_array.prems(4) this lt]
  show ?case using arr_run [OF pos] by (simp add: unat_eq_zero)
qed auto

lemma static_ubound_rep:
  assumes "wf_ty t" "\<not> dynamic t" "static_fits t" "sub t 0 < 2 ^ 63"
  shows "ss_static (static_ubound_t t) (sub t 0) (sal t)"
proof -
  have "0 < sal t" using pow2_pos shiftsD(1) [OF shifts_sub] assms(1) by simp
  then have "ss_static (ubound_t t (0, 1)) (sub t 0) (sal t)"
    using ubound_t_static [OF assms(1-3) ss_static_empty assms(4)] by (simp add: max_absorb2)
  then show ?thesis unfolding static_ubound_t_def using static_otherwise_invalid_static by simp
qed

lemma ss_rep_storage_size_of: "good_object sz al \<Longrightarrow> ss_rep (storage_size_of sz al) (unat sz) (unat al)"
  using ss_rep_static [OF ss_static_object] by (simp add: storage_size_of_def)

lemma cat_size_of_rep:
  assumes "ss_rep pre x a" "good_object sz al" "after sz al x < 2 ^ 63"
  shows "\<exists>a'. ss_rep (cat_size_of pre sz al) (after sz al x) a'"
  using cat_rep [OF assms(1) ss_rep_storage_size_of [OF assms(2)]] assms(3)
  unfolding cat_size_of_def after_def by blast

lemma good_object8: "good_object 8 8"
  by (simp add: good_object_def good_align_def)

lemma counted_rep:
  assumes pre: "ss_rep pre x a" and q: "ss_rep q z b" and n: "n < 2 ^ 64" and b: "0 < b"
    and lt: "arr b z n (after 8 8 x) < 2 ^ 63"
  shows "\<exists>a'. ss_rep (cat (cat_size_of pre 8 8) (arrayed q (word_of_nat n))) (arr b z n (after 8 8 x)) a'"
proof -
  have u: "unat (word_of_nat n :: u64) = n" using unat_word_of_nat64 [OF n] .
  then have z: "(word_of_nat n :: u64) = 0 \<longleftrightarrow> n = 0" by (metis unat_eq_zero)
  have e: "arr b z n (after 8 8 x) = up (after 8 8 x) (if n = 0 then 1 else b) + run_size b z n" by (rule arr_run [OF b])
  have "after 8 8 x \<le> up (after 8 8 x) (if n = 0 then 1 else b)" using b by (intro up_ge) simp
  then have "after 8 8 x < 2 ^ 63" using lt e by simp
  then obtain a1 where 1: "ss_rep (cat_size_of pre 8 8) (after 8 8 x) a1" using cat_size_of_rep [OF pre good_object8] by blast
  have "ss_rep (arrayed q (word_of_nat n)) (run_size b z n) (if n = 0 then 1 else b)"
    using arrayed_rep [OF q, of "word_of_nat n"] lt e u z by simp
  from cat_rep [OF 1 this] show ?thesis using lt e by auto
qed

lemma bnd_ge: "wf_ty t \<Longrightarrow> x \<le> bnd t v x"
proof (induction t arbitrary: v x)
  case (Ty_trivial sz al)
  then show ?case using after_ge(2) good_object_align by simp
next
  case (Ty_array n t)
  then show ?case using arr_ge shiftsD(1) [OF shifts_sub] by simp
next
  case (Ty_string c)
  have "after 8 8 x \<le> arr (unat c) (unat c) (length (elts v)) (after 8 8 x)"
    using Ty_string arr_ge good_align_pow2 good_object_align by simp
  then show ?case using after_ge(2) [OF good_align8, of x 8] by simp
next
  case (Ty_sequence contig t)
  have "after 8 8 x \<le> arr (sal t) (sub t 0) (length (elts v)) (after 8 8 x)"
    using Ty_sequence arr_ge shiftsD(1) [OF shifts_sub] by simp
  then show ?case using after_ge(2) [OF good_align8, of x 8] by simp
next
  case (Ty_pair t u)
  have "\<And>t' v x. t' \<in> set [t, u] \<Longrightarrow> x \<le> bnd t' v x" using Ty_pair by auto
  then have "x \<le> lay_each (map bnd [t, u]) (elts v) x" by (rule lay_each_ge)
  then show ?case by simp
qed (auto simp: list_all_iff intro!: lay_each_ge)

lemma ubound_each_rep:
  assumes "\<And>t v pre x a. t \<in> set ts \<Longrightarrow> has_type t v \<Longrightarrow> ss_rep pre x a \<Longrightarrow> bnd t v x < 2 ^ 63 \<Longrightarrow>
      \<exists>a'. ss_rep (ubound t v pre) (bnd t v x) a'"
    and "\<And>t. t \<in> set ts \<Longrightarrow> wf_ty t" and "list_all2 (\<lambda>p v. p v) (map has_type ts) vs"
    and "ss_rep pre x a" "lay_each (map bnd ts) vs x < 2 ^ 63"
  shows "\<exists>a'. ss_rep (ubound_each (map ubound ts) vs pre) (lay_each (map bnd ts) vs x) a'"
  using assms
proof (induction ts arbitrary: vs pre x a)
  case (Cons t ts)
  then obtain v us where v: "vs = v # us" "has_type t v" "list_all2 (\<lambda>p v. p v) (map has_type ts) us"
    by (cases vs) auto
  have "bnd t v x \<le> lay_each (map bnd ts) us (bnd t v x)" using bnd_ge Cons.prems(2) by (intro lay_each_ge) simp
  then have "bnd t v x < 2 ^ 63" using Cons.prems(5) v(1) by simp
  then obtain a1 where "ss_rep (ubound t v pre) (bnd t v x) a1" using Cons.prems(1) [of t v pre x a] Cons.prems(4) v(2) by auto
  then show ?case using Cons.IH [OF _ _ v(3), of "ubound t v pre" "bnd t v x" a1] Cons.prems(1,2,5) v(1) by simp
qed auto

lemma ubound_rep:
  "wf_ty t \<Longrightarrow> bounded t \<Longrightarrow> static_fits t \<Longrightarrow> has_type t v \<Longrightarrow> ss_rep pre x a \<Longrightarrow> bnd t v x < 2 ^ 63 \<Longrightarrow>
     \<exists>a'. ss_rep (ubound t v pre) (bnd t v x) a'"
proof (induction t arbitrary: v pre x a)
  case (Ty_trivial sz al)
  then show ?case using cat_size_of_rep by simp
next
  case (Ty_fields ts)
  then show ?case by (auto simp: list_all_iff intro!: ubound_each_rep elim!: is_elts_cases)
next
  case (Ty_values ts)
  then show ?case by (auto simp: list_all_iff intro!: ubound_each_rep elim!: is_elts_cases)
next
  case (Ty_tuple ts)
  then show ?case by (auto simp: list_all_iff intro!: ubound_each_rep elim!: is_elts_cases)
next
  case (Ty_pair t u)
  then obtain y z where v: "v = V_list [y, z]" "has_type t y" "has_type u z"
    by (auto simp: list_all2_Cons1 elim!: is_elts_cases)
  have "\<exists>a'. ss_rep (ubound_each (map ubound [t, u]) [y, z] pre) (lay_each (map bnd [t, u]) [y, z] x) a'"
    using Ty_pair v by (intro ubound_each_rep) auto
  then show ?case using v(1) by (simp add: ubound_pair_def)
next
  case (Ty_array n t)
  have pos: "0 < sal t" using pow2_pos shiftsD(1) [OF shifts_sub] Ty_array.prems(1) by simp
  have e: "arr (sal t) (sub t 0) (unat n) x = up x (if n = 0 then 1 else sal t) + run_size (sal t) (sub t 0) (unat n)"
    using arr_run [OF pos] by (simp add: unat_eq_zero)
  then have lt: "up x (if n = 0 then 1 else sal t) + run_size (sal t) (sub t 0) (unat n) < 2 ^ 63" using Ty_array.prems(6) by simp
  have "ss_rep (arrayed_static (static_ubound t) n) (run_size (sal t) (sub t 0) (unat n)) (if n = 0 then 1 else sal t)"
  proof (cases "n = 0")
    case True
    then show ?thesis by (simp add: arrayed_static_def arrayed_static_t_def ss_rep_def make_storage_size_def run_size_def good_align_def)
  next
    case False
    then have "ss_static (static_ubound_t t) (sub t 0) (sal t)" using Ty_array.prems by (intro static_ubound_rep) auto
    then show ?thesis unfolding static_ubound_def using arrayed_static_rep lt by simp
  qed
  from cat_rep [OF Ty_array.prems(5) this lt] show ?case using e by (auto simp: ubound_array_def)
next
  case (Ty_string c)
  then obtain vs where v: "v = V_list vs" "length vs < 2 ^ 64" by (auto elim!: is_elts_cases)
  have o: "good_object c c" using Ty_string.prems(1) by simp
  from counted_rep [OF Ty_string.prems(5) ss_rep_storage_size_of [OF o] v(2) good_align_pos [OF good_object_align [OF o]]]
  show ?case using v Ty_string.prems(6) by (simp add: ubound_string_def)
next
  case (Ty_sequence contig t)
  then obtain vs where v: "v = V_list vs" "length vs < 2 ^ 64" by (auto elim!: is_elts_cases)
  have pos: "0 < sal t" using pow2_pos shiftsD(1) [OF shifts_sub] Ty_sequence.prems(1) by simp
  have "ss_rep (static_ubound t) (sub t 0) (sal t)"
    unfolding static_ubound_def using Ty_sequence.prems by (intro ss_rep_static static_ubound_rep) auto
  from counted_rep [OF Ty_sequence.prems(5) this v(2) pos]
  show ?case using v Ty_sequence.prems(6) by (simp add: ubound_sequence_def)
qed auto

lemma cat_return_t_invalid: "fst p = - 1 \<or> fst q = - 1 \<Longrightarrow> fst (cat_return_t p q) = - 1"
  unfolding cat_return_t_def using word_order.extremum_uniqueI by (auto simp: not_less)

lemma ubound_each_t_invalid:
  assumes "\<And>t p. t \<in> set ts \<Longrightarrow> \<not> bounded t \<or> fst p = - 1 \<Longrightarrow> fst (ubound_t t p) = - 1"
  shows "(\<exists>t \<in> set ts. \<not> bounded t) \<or> fst p = - 1 \<Longrightarrow> fst (ubound_each_t (map ubound_t ts) p) = - 1"
  using assms
proof (induction ts arbitrary: p)
  case (Cons t ts)
  show ?case
    using Cons.IH [of "ubound_t t p"] Cons.prems by (cases "\<exists>t \<in> set ts. \<not> bounded t") auto
qed simp

lemma ubound_t_invalid: "\<not> bounded t \<or> fst p = - 1 \<Longrightarrow> fst (ubound_t t p) = - 1"
proof (induction t arbitrary: p)
  case (Ty_fields ts)
  then show ?case using ubound_each_t_invalid [of ts p] by (simp add: list_all_iff)
next
  case (Ty_values ts)
  then show ?case using ubound_each_t_invalid [of ts p] by (simp add: list_all_iff)
next
  case (Ty_tuple ts)
  then show ?case using ubound_each_t_invalid [of ts p] by (simp add: list_all_iff)
next
  case (Ty_pair t u)
  show ?case
    using Ty_pair.IH(1) [of p] Ty_pair.IH(2) [of "ubound_t t p"] Ty_pair.prems
    by (simp only: ubound_t.simps bounded.simps) blast
next
  case (Ty_array n t)
  have "fst (arrayed_static_t (static_otherwise_invalid_t (ubound_t t (0, 1))) n) = - 1" if "n \<noteq> 0" "dynamic t"
    using static_otherwise_invalid_dynamic [OF ubound_t_dynamic] that by (simp add: arrayed_static_t_def)
  then show ?case using Ty_array.prems by (auto intro!: cat_return_t_invalid)
next
  case (Ty_sequence contig t)
  have "fst (arrayed_t (static_otherwise_invalid_t (ubound_t t (0, 1)))) = - 1" if "dynamic t"
    using static_otherwise_invalid_dynamic [OF ubound_t_dynamic] that by (simp add: arrayed_t_def)
  then show ?case using Ty_sequence.prems by (auto intro!: cat_return_t_invalid)
next
  case (Ty_string c)
  then show ?case by (auto intro!: cat_return_t_invalid)
qed (auto intro: cat_return_t_invalid)

lemma ss_rep_empty: "ss_rep empty_storage_size 0 1"
  using ss_rep_static [OF ss_static_empty] by (simp add: empty_storage_size_def)

text \<open>
  (C13) The bound is an upper bound: when the templates find the bound of a type valid, the size \<open>ubound\<close>
  computes for a value covers its serialization. The writer that is given a buffer of that many bytes
  never writes outside it and ends at or before its end.
\<close>

theorem ubound_covers_serialize:
  assumes "wf_ty t" "static_fits t" "has_type t v" "ss_is_valid (ubound_t t (0, 1))" "in_buf buf (bnd t v 0)"
  shows "\<exists>w'. serialize t v (bwriter_init m buf) = Some w' \<and>
    bw_size w' \<le> ss_size (ubound t v empty_storage_size) \<and>
    (\<forall>x. bw_mem w' x \<noteq> m x \<longrightarrow>
       unat buf \<le> unat x \<and> unat x < unat buf + unat (ss_size (ubound t v empty_storage_size)))"
proof -
  have b: "bounded t" using ubound_t_invalid [of t "(0, 1)"] assms(4) unfolding ss_is_valid_def by blast
  have lt: "bnd t v 0 < 2 ^ 63" using assms(5) unfolding in_buf_def by simp
  have u: "unat (ss_size (ubound t v empty_storage_size)) = bnd t v 0"
    using ubound_rep [OF assms(1) b assms(2,3) ss_rep_empty lt] unfolding ss_rep_def by blast
  have le: "lay t v 0 \<le> bnd t v 0" using lay_le_bnd [OF assms(1) b assms(3)] by simp
  let ?w = "bwriter_init m buf"
  have w: "bw_buf ?w = buf" "bw_mem ?w = m" "unat (bw_size ?w) = 0" by (simp_all add: bwriter_init_def)
  have "in_buf (bw_buf ?w) (lay t v (unat (bw_size ?w)))" using in_buf_le [OF assms(5) le] w by simp
  from codecE [OF serialize_round_trip_codec [OF assms(1,3)] this]
  obtain w' where w': "serialize t v ?w = Some w'" "unat (bw_size w') = lay t v 0" "same_outside buf 0 (lay t v 0) m (bw_mem w')"
    using w by metis
  have "bw_size w' \<le> ss_size (ubound t v empty_storage_size)" using w'(2) u le by (simp add: word_le_nat_alt)
  moreover have "unat buf \<le> unat x \<and> unat x < unat buf + bnd t v 0" if "bw_mem w' x \<noteq> m x" for x
  proof -
    have "unat buf + 0 \<le> unat x \<and> unat x < unat buf + lay t v 0" using w'(3) that unfolding same_outside_def by metis
    then show ?thesis using le by linarith
  qed
  ultimately show ?thesis using w'(1) u by auto
qed

text \<open>A vector of three records of 8 and 1 bytes.\<close>

lemma sample_recs_bound:
  "wf_ty (Ty_sequence True sample_rec)" "static_fits (Ty_sequence True sample_rec)"
  "ss_is_valid (ubound_t (Ty_sequence True sample_rec) (0, 1))" "bnd (Ty_sequence True sample_rec) sample_recs 0 = 56"
  "has_type (Ty_sequence True sample_rec) sample_recs"
  by (simp_all add: sample_rec_def sample_recs_def good_object_def good_align_def after_def up_def Let_def arr_def max_align_def
      ss_is_valid_def cat_return_t_def arrayed_t_def static_otherwise_invalid_t_def align_up_def)

theorem ubound_covers_serialize_witness:
  "\<exists>w'. serialize (Ty_sequence True sample_rec) sample_recs (bwriter_init (\<lambda>_. 1) 64) = Some w' \<and>
    bw_size w' \<le> ss_size (ubound (Ty_sequence True sample_rec) sample_recs empty_storage_size)"
proof -
  have "in_buf 64 (bnd (Ty_sequence True sample_rec) sample_recs 0)" unfolding sample_recs_bound(4) by (simp add: in_buf_def)
  from ubound_covers_serialize [OF sample_recs_bound(1,2,5,3) this, of "\<lambda>_. 1"] show ?thesis by blast
qed

end
