(* ===== verification/Serialization_Unbounded.thy ===== *)
theory Serialization_Unbounded
  imports Serialization
begin

text \<open>
  Component serialization, the writer without a bound (src/serialization.hpp, src/serialization.cpp): a list of hunks that
  grows as objects are placed, and the final copy into one buffer. The footer of a hunk is kept in a list
  instead of in memory, with its address. The addresses that the allocator of aligned memory will return
  are a field. \<open>None\<close> is a failed assertion or an exhausted allocator.
\<close>

unbundle bit_operations_syntax

record hunk =
  hk_front :: u64
  hk_footer :: u64
  hk_size0 :: u64

record uwriter =
  uw_mem :: bytes
  uw_base :: u64
  uw_edge :: u64
  uw_size :: u64
  uw_align :: u64
  uw_hunks :: "hunk list"
  uw_fresh :: "u64 list"

definition uwriter_init :: "bytes \<Rightarrow> u64 \<Rightarrow> u64 \<Rightarrow> u64 list \<Rightarrow> uwriter option" where
  "uwriter_init m initial_buf initial_capacity fresh =
     (let edge = (initial_capacity AND - 8) - 24
      in if 24 \<le> initial_capacity \<and> is_aligned initial_buf 64
         then Some \<lparr>uw_mem = m, uw_base = initial_buf, uw_edge = edge, uw_size = 0, uw_align = 1,
                    uw_hunks = [\<lparr>hk_front = initial_buf, hk_footer = initial_buf + edge, hk_size0 = 0\<rparr>],
                    uw_fresh = fresh\<rparr>
         else None)"

definition hunk_size :: "u64 \<Rightarrow> u64 \<Rightarrow> u64" where
  "hunk_size size0 size1 =
     (if size1 \<le> 8192 - 24 \<and> size1 - (size0 AND - 64) \<le> 512 - 24 then 512
      else if size1 - (size0 AND - 64) \<le> 8192 - 24 then 8192
      else (size1 - (size0 AND - 64) + 24 + 8192 - 1) AND - 8192)"

definition grow :: "u64 \<Rightarrow> u64 \<Rightarrow> uwriter \<Rightarrow> uwriter option" where
  "grow size0 size1 w =
     (case uw_fresh w of
        [] \<Rightarrow> None
      | p # fresh \<Rightarrow>
          let hunk_sz = hunk_size size0 size1;
              h = p + hunk_sz - 24;
              edge = (size0 AND - 64) + hunk_sz - 24;
              base = p - (size0 AND - 64)
          in if base + edge = h \<and> size1 \<le> edge
             then Some (w\<lparr>uw_hunks := uw_hunks w @ [\<lparr>hk_front = p, hk_footer = h, hk_size0 = size0\<rparr>],
                          uw_edge := edge, uw_base := base, uw_fresh := fresh\<rparr>)
             else None)"

definition contained_in_initial :: "uwriter \<Rightarrow> bool" where
  "contained_in_initial w \<longleftrightarrow> length (uw_hunks w) \<le> 1"

definition uplace :: "u64 \<Rightarrow> u64 \<Rightarrow> uwriter \<Rightarrow> (u64 \<times> uwriter) option" where
  "uplace obj_size obj_align w =
     (let size0 = align_up (uw_size w) obj_align;
          size1 = size0 + obj_size;
          align1 = (if obj_align > uw_align w then obj_align else uw_align w)
      in do { w \<leftarrow> (if size1 > uw_edge w then grow size0 size1 w else Some w);
              Some (uw_base w + size0, w\<lparr>uw_size := size1, uw_align := align1\<rparr>) })"

definition uwrite_trivial :: "u64 \<Rightarrow> u64 \<Rightarrow> u8 list \<Rightarrow> uwriter \<Rightarrow> uwriter option" where
  "uwrite_trivial sz al bs w =
     do { (spot, w) \<leftarrow> uplace sz al w; Some (w\<lparr>uw_mem := store spot (take (unat sz) bs) (uw_mem w)\<rparr>) }"

subsection \<open>Sequences\<close>

definition write_elts_bounded_trivial :: "u64 \<Rightarrow> u64 \<Rightarrow> val list \<Rightarrow> uwriter \<Rightarrow> uwriter" where
  "write_elts_bounded_trivial sz al vs w =
     (let n = word_of_nat (length vs);
          alignof_T = (if n = 0 then 1 else al);
          size0 = align_up (uw_size w) alignof_T
      in w\<lparr>uw_mem := store (uw_base w + size0) (take (unat (n * sz)) (concat (map raw vs))) (uw_mem w),
           uw_size := size0 + n * sz,
           uw_align := (if alignof_T > uw_align w then alignof_T else uw_align w)\<rparr>)"

definition write_elts_bounded_each :: "serializer \<Rightarrow> val list \<Rightarrow> uwriter \<Rightarrow> uwriter option" where
  "write_elts_bounded_each f vs w =
     (let w1 = \<lparr>bw_mem = uw_mem w, bw_buf = uw_base w, bw_size = uw_size w, bw_align = uw_align w\<rparr>
      in do { w1 \<leftarrow> write_each f vs w1;
              Some (w\<lparr>uw_mem := bw_mem w1, uw_size := bw_size w1, uw_align := bw_align w1\<rparr>) })"

definition write_elts_bounded :: "bool \<Rightarrow> ty \<Rightarrow> val list \<Rightarrow> uwriter \<Rightarrow> uwriter option" where
  "write_elts_bounded contig t vs w =
     (if is_actually_trivially_serializable t \<and> contig
      then Some (write_elts_bounded_trivial (sizeof t) (alignof t) vs w)
      else write_elts_bounded_each (serialize t) vs w)"

type_synonym userializer = "val \<Rightarrow> uwriter \<Rightarrow> uwriter option"

fun uwrite_each :: "userializer \<Rightarrow> val list \<Rightarrow> uwriter \<Rightarrow> uwriter option" where
  "uwrite_each f [] w = Some w"
| "uwrite_each f (v # vs) w = do { w \<leftarrow> f v w; uwrite_each f vs w }"

text \<open>\<open>edge_ - size0\<close> and the division are on \<open>size_t\<close>; the result is what the function returns.\<close>

definition uwrite_sequence_counted :: "bool \<Rightarrow> ty \<Rightarrow> val list \<Rightarrow> uwriter \<Rightarrow> (u64 \<times> uwriter) option" where
  "uwrite_sequence_counted contig t vs w =
     (let n = word_of_nat (length vs);
          ub_size = ss_size (static_ubound t);
          ub_align = ss_align (static_ubound t);
          size0 = align_up (uw_size w) ub_align;
          elt_size = ub_size + (if ub_size mod ub_align = 0 then 0 else ub_align - ub_size mod ub_align);
          n0 = (if elt_size \<noteq> 0 then (uw_edge w - size0) div elt_size else n);
          n0 = (if n < n0 then n else n0)
      in do { w \<leftarrow> write_elts_bounded contig t (take (unat n0) vs) w;
              let n = n - n0;
              if n \<noteq> 0
              then do { w \<leftarrow> grow (uw_size w) (uw_size w + n * elt_size) w;
                        w \<leftarrow> write_elts_bounded contig t (drop (unat n0) vs) w;
                        Some (n, w) }
              else Some (n, w) })"

text \<open>Whether \<open>n\<close> was passed, and whether the iterators are of random access.\<close>

definition uwrite_sequence ::
  "bool \<Rightarrow> bool \<Rightarrow> bool \<Rightarrow> ty \<Rightarrow> userializer \<Rightarrow> val list \<Rightarrow> uwriter \<Rightarrow> (u64 \<times> uwriter) option" where
  "uwrite_sequence n_is_valid random contig t f vs w =
     (if ss_is_valid (static_ubound_t t) \<and> (n_is_valid \<or> random)
      then uwrite_sequence_counted contig t vs w
      else do { w \<leftarrow> uwrite_each f vs w; Some (word_of_nat (length vs), w) })"

subsection \<open>Values\<close>

fun userialize_each :: "userializer list \<Rightarrow> val list \<Rightarrow> uwriter \<Rightarrow> uwriter option" where
  "userialize_each [] [] w = Some w"
| "userialize_each (f # fs) (v # vs) w = do { w \<leftarrow> f v w; userialize_each fs vs w }"
| "userialize_each _ _ w = None"

definition userialize_array :: "ty \<Rightarrow> userializer \<Rightarrow> val list \<Rightarrow> uwriter \<Rightarrow> uwriter option" where
  "userialize_array t f vs w = do { (_, w) \<leftarrow> uwrite_sequence True True True t f vs w; Some w }"

definition userialize_sequence :: "bool \<Rightarrow> ty \<Rightarrow> userializer \<Rightarrow> val list \<Rightarrow> uwriter \<Rightarrow> uwriter option" where
  "userialize_sequence contig t f vs w =
     do { w \<leftarrow> uwrite_trivial 8 8 (le_bytes 8 (word_of_nat (length vs))) w;
          (_, w) \<leftarrow> uwrite_sequence True contig contig t f vs w;
          Some w }"

definition userialize_string :: "u64 \<Rightarrow> val list \<Rightarrow> uwriter \<Rightarrow> uwriter option" where
  "userialize_string c vs w =
     do { w \<leftarrow> uwrite_trivial 8 8 (le_bytes 8 (word_of_nat (length vs))) w;
          (_, w) \<leftarrow> uwrite_sequence True True True (Ty_trivial c c) (\<lambda>v. uwrite_trivial c c (raw v)) vs w;
          Some w }"

definition userialize_forward_list :: "ty \<Rightarrow> userializer \<Rightarrow> val list \<Rightarrow> uwriter \<Rightarrow> uwriter option" where
  "userialize_forward_list t f vs w =
     do { (n_spot, w) \<leftarrow> uplace 8 8 w;
          (n, w) \<leftarrow> uwrite_sequence False False False t f vs w;
          Some (w\<lparr>uw_mem := store n_spot (le_bytes 8 n) (uw_mem w)\<rparr>) }"

primrec userialize :: "ty \<Rightarrow> userializer" where
  "userialize (Ty_trivial sz al) = (\<lambda>v. uwrite_trivial sz al (raw v))"
| "userialize Ty_empty = (\<lambda>v w. Some w)"
| "userialize (Ty_fields ts) = (\<lambda>v. userialize_each (map userialize ts) (elts v))"
| "userialize (Ty_values ts) = (\<lambda>v. userialize_each (map userialize ts) (elts v))"
| "userialize (Ty_tuple ts) = (\<lambda>v. userialize_each (map userialize ts) (elts v))"
| "userialize (Ty_pair t u) = (\<lambda>v. userialize_each [userialize t, userialize u] (elts v))"
| "userialize (Ty_array n t) = (\<lambda>v. userialize_array t (userialize t) (elts v))"
| "userialize (Ty_string c) = (\<lambda>v. userialize_string c (elts v))"
| "userialize (Ty_sequence contig t) = (\<lambda>v. userialize_sequence contig t (userialize t) (elts v))"
| "userialize (Ty_forward_list t) = (\<lambda>v. userialize_forward_list t (userialize t) (elts v))"

subsection \<open>Compaction\<close>

text \<open>The copy of the hunks in order; \<open>h - h->front\<close> is the room of a hunk.\<close>

fun compact_from :: "u64 \<Rightarrow> u64 \<Rightarrow> u64 \<Rightarrow> hunk list \<Rightarrow> bytes \<Rightarrow> bytes" where
  "compact_from buf size_end size0 [] m = m"
| "compact_from buf size_end size0 (h # hs) m =
     (let size1 = (case hs of [] \<Rightarrow> size_end | h1 # _ \<Rightarrow> hk_size0 h1);
          room = hk_footer h - hk_front h - size0 mod 64;
          len = (if room < size1 - size0 then room else size1 - size0)
      in compact_from buf size_end size1 hs
           (store (buf + size0) (load m (hk_front h + size0 mod 64) (unat len)) m))"

text \<open>All hunks but the first, which the caller owns, are freed.\<close>

definition owned_hunks :: "uwriter \<Rightarrow> u64 list" where
  "owned_hunks w = map hk_front (tl (uw_hunks w))"

definition uw_reset :: "uwriter \<Rightarrow> uwriter" where
  "uw_reset w = w\<lparr>uw_base := 0, uw_edge := 0, uw_size := 0, uw_align := 1, uw_hunks := []\<rparr>"

definition compact_and_invalidate :: "u64 \<Rightarrow> uwriter \<Rightarrow> u64 list \<times> uwriter" where
  "compact_and_invalidate buf w =
     (owned_hunks w, uw_reset (w\<lparr>uw_mem := compact_from buf (uw_size w) 0 (uw_hunks w) (uw_mem w)\<rparr>))"

text \<open>The destructor, with what it frees, and the move constructor: the new writer and the old one.\<close>

definition uwriter_destroy :: "uwriter \<Rightarrow> u64 list" where
  "uwriter_destroy w = (case uw_hunks w of [] \<Rightarrow> [] | h # hs \<Rightarrow> map hk_front hs)"

definition uwriter_move :: "uwriter \<Rightarrow> uwriter \<times> uwriter" where
  "uwriter_move that = (that, uw_reset that)"

end
