(* ===== verification/Serialization_Hunks.thy ===== *)
theory Serialization_Hunks
  imports Serialization_Unbounded Serialization_Layout
begin

text \<open>
  Component serialization, the properties of the writer without a bound: where it places objects, and two
  cases in which writing a sequence does not do what it means to.
\<close>

unbundle bit_operations_syntax

subsection \<open>Placing objects inside a hunk\<close>

definition floor64 :: "nat \<Rightarrow> nat" where
  "floor64 x = x - x mod 64"

text \<open>
  The last hunk holds the offsets from \<open>floor64\<close> of its \<open>size0\<close> up to the edge, where its footer
  stands, and everything written so far ends before the edge.
\<close>

definition uw_ok :: "uwriter \<Rightarrow> bool" where
  "uw_ok w \<longleftrightarrow> uw_hunks w \<noteq> [] \<and>
     (let h = last (uw_hunks w); b = floor64 (unat (hk_size0 h))
      in uw_base w = hk_front h - word_of_nat b \<and> unat (hk_front h) mod 64 = 0 \<and>
         b \<le> unat (uw_size w) \<and> unat (uw_size w) \<le> unat (uw_edge w) \<and>
         unat (hk_footer h) = unat (hk_front h) + (unat (uw_edge w) - b))"

text \<open>The allocator returns memory aligned to 64 bytes in the lower half of the address space.\<close>

definition fresh_ok :: "nat \<Rightarrow> uwriter \<Rightarrow> bool" where
  "fresh_ok n w \<longleftrightarrow> (\<exists>p ps. uw_fresh w = p # ps \<and> unat p mod 64 = 0 \<and> unat p + n < 2 ^ 63)"

lemma unat_and64: "unat (x AND - 64 :: u64) = floor64 (unat x)"
  using unat_and_uminus_power [of x 6] by (simp add: floor64_def)

lemma floor64_le: "floor64 x \<le> x"
  by (simp add: floor64_def)

lemma hunk_size_bounds:
  assumes "size0 \<le> size1" "unat size1 < 2 ^ 62"
  shows "unat size1 - floor64 (unat size0) + 24 \<le> unat (hunk_size size0 size1)"
    "unat (hunk_size size0 size1) \<le> unat size1 - floor64 (unat size0) + 24 + 8192"
proof -
  let ?d = "unat size1 - floor64 (unat size0)"
  have le: "floor64 (unat size0) \<le> unat size1" using assms(1) floor64_le [of "unat size0"] by (simp add: word_le_nat_alt)
  then have "(size0 AND - 64) \<le> size1" by (simp add: word_le_nat_alt unat_and64)
  then have d: "unat (size1 - (size0 AND - 64)) = ?d" by (simp add: unat_sub unat_and64)
  have lt: "?d < 2 ^ 62" using assms(2) by simp
  have "unat (size1 - (size0 AND - 64) + 24 + 8192 - 1) = ?d + 24 + 8191"
  proof -
    have "unat (size1 - (size0 AND - 64) + (24 + 8191)) = ?d + (24 + 8191)"
      using d lt by (subst unat_add_no_wrap) simp_all
    then show ?thesis by (simp add: algebra_simps)
  qed
  then have big: "unat ((size1 - (size0 AND - 64) + 24 + 8192 - 1) AND - 8192) = up (?d + 24) 8192"
    using unat_and_uminus_power [of "size1 - (size0 AND - 64) + 24 + 8192 - 1" 13] by (simp add: up_def)
  have s: "size1 - (size0 AND - 64) \<le> 512 - 24 \<longleftrightarrow> ?d \<le> 488" "size1 - (size0 AND - 64) \<le> 8192 - 24 \<longleftrightarrow> ?d \<le> 8168"
    using d by (simp_all add: word_le_nat_alt)
  have u: "?d + 24 \<le> up (?d + 24) 8192" "up (?d + 24) 8192 < ?d + 24 + 8192"
    by (rule up_ge, simp) (rule up_lt, simp)
  have c: "unat (hunk_size size0 size1) =
      (if size1 \<le> 8192 - 24 \<and> ?d \<le> 488 then 512 else if ?d \<le> 8168 then 8192 else up (?d + 24) 8192)"
    unfolding hunk_size_def s if_distrib [of unat] big by simp
  show "?d + 24 \<le> unat (hunk_size size0 size1)" "unat (hunk_size size0 size1) \<le> ?d + 24 + 8192"
    using c u by (simp_all split: if_splits)
qed

lemma grow_ok:
  assumes "size0 \<le> size1" "unat size1 < 2 ^ 62" "fresh_ok (unat size1 + 16384) w" "uw_size w \<le> size0"
  shows "\<exists>w' h. grow size0 size1 w = Some w' \<and> uw_hunks w' = uw_hunks w @ [h] \<and> uw_ok (w'\<lparr>uw_size := size1\<rparr>) \<and>
    hk_size0 h = size0 \<and> uw_size w' = uw_size w \<and> uw_mem w' = uw_mem w"
proof -
  obtain p ps where p: "uw_fresh w = p # ps" "unat p mod 64 = 0" "unat p + (unat size1 + 16384) < 2 ^ 63"
    using assms(3) unfolding fresh_ok_def by (elim exE conjE)
  let ?b = "floor64 (unat size0)" let ?H = "hunk_size size0 size1"
  have le: "?b \<le> unat size1" using assms(1) floor64_le [of "unat size0"] by (simp add: word_le_nat_alt)
  note H = hunk_size_bounds [OF assms(1,2)]
  have h24: "24 \<le> unat ?H" using H(1) by simp
  have "unat (p + ?H) = unat p + unat ?H" using H(2) p(3) by (intro unat_add_no_wrap) simp
  then have foot: "unat (p + ?H - 24) = unat p + unat ?H - 24" using h24 by (subst unat_sub) (simp_all add: word_le_nat_alt)
  have "unat ((size0 AND - 64) + ?H) = ?b + unat ?H"
    using H(2) le assms(2) by (subst unat_add_no_wrap) (simp_all add: unat_and64)
  then have edge: "unat ((size0 AND - 64) + ?H - 24) = ?b + unat ?H - 24" using h24 by (subst unat_sub) (simp_all add: word_le_nat_alt)
  have e: "size1 \<le> (size0 AND - 64) + ?H - 24" using edge H(1) le by (simp add: word_le_nat_alt)
  have eq: "p - (size0 AND - 64) + ((size0 AND - 64) + ?H - 24) = p + ?H - 24" by simp
  let ?h = "\<lparr>hk_front = p, hk_footer = p + ?H - 24, hk_size0 = size0\<rparr>"
  let ?w = "w\<lparr>uw_hunks := uw_hunks w @ [?h], uw_edge := (size0 AND - 64) + ?H - 24, uw_base := p - (size0 AND - 64), uw_fresh := ps\<rparr>"
  have "grow size0 size1 w = Some ?w" unfolding grow_def p(1) using e eq by (simp add: Let_def)
  moreover have "size0 AND - 64 = word_of_nat ?b" using unat_and64 [of size0] word_of_nat_unat64 by metis
  then have "uw_ok (?w\<lparr>uw_size := size1\<rparr>)"
    using p(2) le e edge foot h24 unfolding uw_ok_def by (simp add: Let_def word_le_nat_alt)
  ultimately show ?thesis by (intro exI [of _ ?w] exI [of _ ?h]) simp
qed

lemma uw_ok_align: "uw_ok (w\<lparr>uw_align := a\<rparr>) = uw_ok w"
  by (simp add: uw_ok_def)

text \<open>An offset between the begin of the last hunk and the edge lies in that hunk.\<close>

lemma base_offset:
  assumes w: "uw_ok w" and h: "h = last (uw_hunks w)"
    and x: "floor64 (unat (hk_size0 h)) \<le> x" "x + n \<le> unat (uw_edge w)"
  shows "unat (hk_front h) \<le> unat (uw_base w + word_of_nat x)"
    "unat (uw_base w + word_of_nat x) + n \<le> unat (hk_footer h)"
    "good_align al \<Longrightarrow> x mod unat al = 0 \<Longrightarrow> unat (uw_base w + word_of_nat x) mod unat al = 0"
proof -
  let ?b = "floor64 (unat (hk_size0 h))"
  have f: "uw_base w = hk_front h - word_of_nat ?b" "unat (hk_front h) mod 64 = 0"
    "unat (hk_footer h) = unat (hk_front h) + (unat (uw_edge w) - ?b)"
    using w h unfolding uw_ok_def by (simp_all add: Let_def)
  have "uw_base w + word_of_nat x = hk_front h + word_of_nat (x - ?b)"
    unfolding f(1) using x(1) by (simp add: of_nat_diff)
  moreover have lt: "unat (hk_front h) + (x - ?b) < 2 ^ 64" using f(3) x unat_lt64 [of "hk_footer h"] by simp
  moreover have "unat (word_of_nat (x - ?b) :: u64) = x - ?b" using lt by (intro unat_word_of_nat64) simp
  ultimately have u: "unat (uw_base w + word_of_nat x) = unat (hk_front h) + (x - ?b)"
    by (simp add: unat_add_no_wrap)
  show "unat (hk_front h) \<le> unat (uw_base w + word_of_nat x)"
    "unat (uw_base w + word_of_nat x) + n \<le> unat (hk_footer h)"
    using u f(3) x by simp_all
  show "unat (uw_base w + word_of_nat x) mod unat al = 0" if "good_align al" "x mod unat al = 0"
  proof -
    have d: "unat al dvd 64" using good_align_dvd that(1) .
    have "64 dvd ?b" by (simp add: floor64_def dvd_minus_mod)
    then have "unat al dvd x - ?b" using d that(2) by (meson dvd_diff_nat dvd_trans mod_0_imp_dvd)
    moreover have "unat al dvd unat (hk_front h)" using d f(2) by (meson dvd_trans mod_0_imp_dvd)
    ultimately show ?thesis unfolding u by simp
  qed
qed

lemma uplace_step:
  assumes "uw_ok w" "good_align al" "after sz al (unat (uw_size w)) < 2 ^ 62"
    and "fresh_ok (after sz al (unat (uw_size w)) + 16384) w"
  shows "\<exists>spot w'. uplace sz al w = Some (spot, w') \<and> uw_ok w' \<and> unat (uw_size w') = after sz al (unat (uw_size w)) \<and>
    unat spot mod unat al = 0 \<and> unat (hk_front (last (uw_hunks w'))) \<le> unat spot \<and>
    unat spot + unat sz \<le> unat (hk_footer (last (uw_hunks w'))) \<and>
    (uw_hunks w' = uw_hunks w \<or> (\<exists>h. uw_hunks w' = uw_hunks w @ [h]))"
proof -
  let ?x = "up (unat (uw_size w)) (unat al)" let ?s0 = "align_up (uw_size w) al"
  have x: "unat ?s0 = ?x" using assms(2,3) unfolding after_def by (intro unat_align_up) simp_all
  have x1: "unat (?s0 + sz) = after sz al (unat (uw_size w))"
    using assms(3) x unfolding after_def by (subst unat_add_no_wrap) simp_all
  have ge: "unat (uw_size w) \<le> ?x" using up_ge good_align_pos assms(2) by blast
  have s0: "?s0 = word_of_nat ?x" using x word_of_nat_unat64 by metis
  have le: "?s0 \<le> ?s0 + sz" using x x1 unfolding after_def by (simp add: word_le_nat_alt)
  obtain w1 where w1: "(if ?s0 + sz > uw_edge w then grow ?s0 (?s0 + sz) w else Some w) = Some w1"
    and ok: "uw_ok (w1\<lparr>uw_size := ?s0 + sz\<rparr>)" and base: "floor64 (unat (hk_size0 (last (uw_hunks w1)))) \<le> ?x"
    and hs: "uw_hunks w1 = uw_hunks w \<or> (\<exists>h. uw_hunks w1 = uw_hunks w @ [h])"
  proof (cases "?s0 + sz > uw_edge w")
    case True
    have "uw_size w \<le> ?s0" using ge x by (simp add: word_le_nat_alt)
    moreover have "unat (?s0 + sz) < 2 ^ 62" "fresh_ok (unat (?s0 + sz) + 16384) w" using assms(3,4) x1 by simp_all
    ultimately obtain w1 h where g: "grow ?s0 (?s0 + sz) w = Some w1" "uw_hunks w1 = uw_hunks w @ [h]"
      "uw_ok (w1\<lparr>uw_size := ?s0 + sz\<rparr>)" "hk_size0 h = ?s0"
      using grow_ok [OF le] by blast
    then show ?thesis using True that [of w1] x floor64_le by simp
  next
    case False
    then have "unat (?s0 + sz) \<le> unat (uw_edge w)" by (simp add: word_le_nat_alt not_less)
    moreover have "floor64 (unat (hk_size0 (last (uw_hunks w)))) \<le> unat (uw_size w)"
      using assms(1) unfolding uw_ok_def by (simp add: Let_def)
    moreover have "unat (uw_size w) \<le> unat (?s0 + sz)" using ge x1 unfolding after_def by simp
    ultimately show ?thesis using False that [of w] assms(1) ge unfolding uw_ok_def by (simp add: Let_def)
  qed
  let ?w2 = "w1\<lparr>uw_size := ?s0 + sz, uw_align := (if al > uw_align w then al else uw_align w)\<rparr>"
  have ok2: "uw_ok ?w2" using ok uw_ok_align by blast
  have "unat (?s0 + sz) \<le> unat (uw_edge ?w2)" using ok unfolding uw_ok_def by (simp add: Let_def)
  then have room: "?x + unat sz \<le> unat (uw_edge ?w2)" using x1 unfolding after_def by simp
  have "?x mod unat al = 0" using up_mod good_align_pos assms(2) by blast
  note off = base_offset [OF ok2 refl, of ?x "unat sz"] and al = this
  have "uplace sz al w = Some (uw_base w1 + ?s0, ?w2)" using w1 unfolding uplace_def by (simp add: Let_def)
  then show ?thesis
    using off(1,2) off(3) [OF _ _ assms(2) al] base room ok2 x1 hs unfolding s0 by auto
qed

text \<open>
  (C37) The writer without a bound places every object inside its last hunk: the object is aligned, lies
  between the front and the footer of that hunk, and no more than one hunk is appended. The sizes of hunks chosen
  by \<open>grow\<close> always pass its assertion.
\<close>

theorem uplace_inside_hunk:
  assumes "uw_ok w" "good_align al" "after sz al (unat (uw_size w)) < 2 ^ 62"
    and "fresh_ok (after sz al (unat (uw_size w)) + 16384) w"
  shows "\<exists>spot w'. uplace sz al w = Some (spot, w') \<and> uw_ok w' \<and> unat (uw_size w') = after sz al (unat (uw_size w)) \<and>
    unat spot mod unat al = 0 \<and> unat (hk_front (last (uw_hunks w'))) \<le> unat spot \<and>
    unat spot + unat sz \<le> unat (hk_footer (last (uw_hunks w'))) \<and>
    (uw_hunks w' = uw_hunks w \<or> (\<exists>h. uw_hunks w' = uw_hunks w @ [h]))"
  using assms by (rule uplace_step)

text \<open>A writer on a buffer of 512 bytes that has one more address to allocate.\<close>

definition sample_uw :: uwriter where
  "sample_uw =
     \<lparr>uw_mem = (\<lambda>_. 0), uw_base = 4096, uw_edge = 488, uw_size = 0, uw_align = 1,
      uw_hunks = [\<lparr>hk_front = 4096, hk_footer = 4584, hk_size0 = 0\<rparr>], uw_fresh = [8192]\<rparr>"

lemma sample_uw_init: "uwriter_init (\<lambda>_. 0) 4096 512 [8192] = Some sample_uw"
  by (simp add: uwriter_init_def sample_uw_def is_aligned_def)

theorem uplace_inside_hunk_witness:
  "\<exists>spot w'. uplace 600 8 sample_uw = Some (spot, w') \<and> unat (uw_size w') = 600 \<and>
    unat spot + 600 \<le> unat (hk_footer (last (uw_hunks w')))"
proof -
  have "uw_ok sample_uw" by (simp add: uw_ok_def sample_uw_def floor64_def)
  moreover have a: "after 600 8 (unat (uw_size sample_uw)) = 600" by (simp add: after_def up_def sample_uw_def)
  moreover have "fresh_ok (600 + 16384) sample_uw" by (simp add: fresh_ok_def sample_uw_def)
  ultimately have "\<exists>spot w'. uplace 600 8 sample_uw = Some (spot, w') \<and> uw_ok w' \<and> unat (uw_size w') = 600 \<and>
      unat spot mod unat (8 :: u64) = 0 \<and> unat (hk_front (last (uw_hunks w'))) \<le> unat spot \<and>
      unat spot + unat (600 :: u64) \<le> unat (hk_footer (last (uw_hunks w'))) \<and>
      (uw_hunks w' = uw_hunks sample_uw \<or> (\<exists>h. uw_hunks w' = uw_hunks sample_uw @ [h]))"
    using uplace_inside_hunk [of sample_uw 8 600] by (simp add: good_align_def)
  then show ?thesis by auto
qed

subsection \<open>Sequences of elements with a static bound\<close>

lemma write_elts_bounded_hunks:
  "write_elts_bounded contig t vs w = Some w' \<Longrightarrow> uw_hunks w' = uw_hunks w"
  by (auto simp: write_elts_bounded_def write_elts_bounded_trivial_def write_elts_bounded_each_def Let_def
      split: if_splits Option.bind_splits)

lemma grow_hunks: "grow size0 size1 w = Some w' \<Longrightarrow> \<exists>h. uw_hunks w' = uw_hunks w @ [h]"
  by (auto simp: grow_def Let_def split: list.splits if_splits)

text \<open>
  The writer without a bound reports the wrong number of elements: when a sequence of elements with a
  static bound fits the current hunk, \<open>write_sequence\<close> returns 0, because it counts \<open>n\<close> down and returns what is
  left. The writer with a bound returns the number of elements for the same sequence.
\<close>

theorem uwrite_sequence_returns_rest:
  assumes "uwrite_sequence_counted contig t vs w = Some (k, w')" "uw_hunks w' = uw_hunks w"
    and "write_sequence contig t (serialize t) vs b = Some (j, b')"
  shows "k = 0 \<and> j = word_of_nat (length vs)"
proof -
  have "k = 0"
    using assms(1,2) unfolding uwrite_sequence_counted_def Let_def
    by (auto split: Option.bind_splits if_splits dest!: write_elts_bounded_hunks grow_hunks)
  moreover have "j = word_of_nat (length vs)"
    using assms(3) unfolding write_sequence_def by (auto split: Option.bind_splits)
  ultimately show ?thesis by simp
qed

lemma sample_uw_write:
  "\<exists>k w'. uwrite_sequence_counted True (Ty_trivial 4 4) [V_bytes [1, 2, 3, 4]] sample_uw = Some (k, w') \<and>
     uw_hunks w' = uw_hunks sample_uw"
proof -
  have "static_ubound (Ty_trivial 4 4) = make_storage_size (4, 4) 4 4" by code_simp
  then show ?thesis
    by (simp add: uwrite_sequence_counted_def Let_def make_storage_size_def align_up_def sample_uw_def
        write_elts_bounded_def write_elts_bounded_trivial_def)
qed

theorem uwrite_sequence_returns_rest_witness:
  "\<exists>w' b'. uwrite_sequence_counted True (Ty_trivial 4 4) [V_bytes [1, 2, 3, 4]] sample_uw = Some (0, w') \<and>
    write_sequence True (Ty_trivial 4 4) (serialize (Ty_trivial 4 4)) [V_bytes [1, 2, 3, 4]] (bwriter_init (\<lambda>_. 0) 4096) = Some (1, b')"
proof -
  obtain k w' where u: "uwrite_sequence_counted True (Ty_trivial 4 4) [V_bytes [1, 2, 3, 4]] sample_uw = Some (k, w')"
    "uw_hunks w' = uw_hunks sample_uw"
    using sample_uw_write by blast
  obtain j b' where b: "write_sequence True (Ty_trivial 4 4) (serialize (Ty_trivial 4 4)) [V_bytes [1, 2, 3, 4]]
      (bwriter_init (\<lambda>_. 0) 4096) = Some (j, b')"
    by (simp add: write_sequence_def write_sequence_trivial_def place_def is_aligned_def bwriter_init_def
        arrayed_def arrayed_t_def make_storage_size_def storage_size_of_def Let_def)
  show ?thesis using uwrite_sequence_returns_rest [OF u b] u(1) b by simp
qed

text \<open>
  (C38) The writer without a bound can write over the end of its hunk. With a buffer of 512 bytes, after an object of
  488 bytes, a sequence of elements of size and alignment 16 begins at offset 496, behind the edge at 488. The
  difference \<open>edge_ - size0\<close> wraps, all elements are taken to fit, no hunk is added, and the elements are written from
  offset 496 on: over the footer and behind the buffer.
\<close>

theorem uwrite_sequence_overruns:
  assumes "uwriter_init m buf 512 fresh = Some w0" "uplace 488 8 w0 = Some (spot, w)"
    and "vs \<noteq> []" "list_all (\<lambda>v. length (raw v) = 16) vs" "length vs < 2 ^ 59"
  shows "\<exists>w'. uwrite_sequence_counted True (Ty_trivial 16 16) vs w = Some (0, w') \<and>
    uw_hunks w' = [\<lparr>hk_front = buf, hk_footer = buf + 488, hk_size0 = 0\<rparr>] \<and>
    unat (uw_size w') = 496 + 16 * length vs \<and>
    (\<forall>i < 16 * length vs. uw_mem w' (buf + 496 + word_of_nat i) = concat (map raw vs) ! i)"
proof -
  have w: "uw_base w = buf" "uw_edge w = 488" "uw_size w = 488"
    "uw_hunks w = [\<lparr>hk_front = buf, hk_footer = buf + 488, hk_size0 = 0\<rparr>]"
    using assms(1,2) by (auto simp: uwriter_init_def uplace_def align_up_def Let_def split: if_splits)
  have ub: "static_ubound (Ty_trivial 16 16) = make_storage_size (16, 16) 16 16" by code_simp
  let ?n = "word_of_nat (length vs) :: u64"
  have n: "unat ?n = length vs" using assms(5) by (intro unat_word_of_nat64) simp
  have "?n < 1152921504606846975" using n assms(5) by (simp add: word_less_nat_alt)
  have n16: "unat (?n * 16) = 16 * length vs" using n assms(5) by (subst unat_mult_no_wrap) simp_all
  have len: "length (concat (map raw vs)) = 16 * length vs"
    using assms(4) by (induction vs) simp_all
  let ?w' = "write_elts_bounded_trivial 16 16 vs w"
  have "?n \<noteq> 0" using n assms(3) by (metis length_0_conv unat_0)
  then have w': "uw_size ?w' = 496 + ?n * 16" "uw_mem ?w' = store (buf + 496) (concat (map raw vs)) (uw_mem w)"
    "uw_hunks ?w' = uw_hunks w"
    using w n16 len by (simp_all add: write_elts_bounded_trivial_def Let_def align_up_def)
  have "uwrite_sequence_counted True (Ty_trivial 16 16) vs w = Some (0, ?w')"
    using w \<open>?n < _\<close> n by (simp add: uwrite_sequence_counted_def Let_def ub make_storage_size_def align_up_def write_elts_bounded_def)
  moreover have "unat (uw_size ?w') = 496 + 16 * length vs"
    unfolding w'(1) using n16 assms(5) by (subst unat_add_no_wrap) simp_all
  moreover have "uw_mem ?w' (buf + 496 + word_of_nat i) = concat (map raw vs) ! i" if "i < 16 * length vs" for i
    unfolding w'(2) using that len assms(5) by (intro store_at) simp_all
  ultimately show ?thesis using w(4) w'(3) by (intro exI [of _ ?w']) simp
qed

theorem uwrite_sequence_overruns_witness:
  "\<exists>w w'. uplace 488 8 sample_uw = Some (4096, w) \<and>
    uwrite_sequence_counted True (Ty_trivial 16 16) [V_bytes (replicate 16 7)] w = Some (0, w') \<and>
    uw_hunks w' = [\<lparr>hk_front = 4096, hk_footer = 4096 + 488, hk_size0 = 0\<rparr>] \<and> unat (uw_size w') = 512"
proof -
  obtain w where w: "uplace 488 8 sample_uw = Some (4096, w)"
    by (simp add: uplace_def align_up_def sample_uw_def Let_def)
  show ?thesis
    using uwrite_sequence_overruns [OF sample_uw_init w, of "[V_bytes (replicate 16 7)]"] w by auto
qed

subsection \<open>What both writers promise\<close>

text \<open>Objects placed one after the other, by their sizes and alignments.\<close>

fun place_all :: "(u64 \<Rightarrow> u64 \<Rightarrow> 'w \<Rightarrow> (u64 \<times> 'w) option) \<Rightarrow> (u64 \<times> u64) list \<Rightarrow> 'w \<Rightarrow> (u64 list \<times> 'w) option" where
  "place_all f [] w = Some ([], w)"
| "place_all f ((sz, al) # objs) w =
     do { (spot, w) \<leftarrow> f sz al w; (spots, w) \<leftarrow> place_all f objs w; Some (spot # spots, w) }"

fun after_all :: "(u64 \<times> u64) list \<Rightarrow> nat \<Rightarrow> nat" where
  "after_all [] x = x"
| "after_all ((sz, al) # objs) x = after_all objs (after sz al x)"

definition good_aligns :: "(u64 \<times> u64) list \<Rightarrow> bool" where
  "good_aligns objs \<longleftrightarrow> (\<forall>p \<in> set objs. good_align (snd p))"

locale placer =
  fixes place :: "u64 \<Rightarrow> u64 \<Rightarrow> 'w \<Rightarrow> (u64 \<times> 'w) option"
    and cursor :: "'w \<Rightarrow> nat"
    and room :: "(u64 \<times> u64) list \<Rightarrow> 'w \<Rightarrow> bool"
  assumes place_room: "room ((sz, al) # objs) w \<Longrightarrow>
    \<exists>spot w'. place sz al w = Some (spot, w') \<and> cursor w' = after sz al (cursor w) \<and>
      unat spot mod unat al = 0 \<and> room objs w'"
begin

lemma place_all_room:
  "room objs w \<Longrightarrow> \<exists>spots w'. place_all place objs w = Some (spots, w') \<and> cursor w' = after_all objs (cursor w) \<and>
     list_all2 (\<lambda>spot p. unat spot mod unat (snd p) = 0) spots objs"
proof (induction objs arbitrary: w)
  case (Cons p objs)
  obtain sz al where p: "p = (sz, al)" by (cases p)
  obtain spot w1 where 1: "place sz al w = Some (spot, w1)" "cursor w1 = after sz al (cursor w)"
    "unat spot mod unat al = 0" "room objs w1"
    using place_room [OF Cons.prems [unfolded p]] by (elim exE conjE)
  obtain spots w2 where "place_all place objs w1 = Some (spots, w2)" "cursor w2 = after_all objs (cursor w1)"
    "list_all2 (\<lambda>spot p. unat spot mod unat (snd p) = 0) spots objs"
    using Cons.IH [OF 1(4)] by blast
  then show ?case using 1 p by auto
qed simp

end

lemma after_all_ge: "good_aligns objs \<Longrightarrow> x \<le> after_all objs x"
proof (induction objs arbitrary: x)
  case (Cons p objs)
  then have "x \<le> after (fst p) (snd p) x" "after (fst p) (snd p) x \<le> after_all objs (after (fst p) (snd p) x)"
    using after_ge(2) by (simp_all add: good_aligns_def)
  then show ?case by (cases p) simp
qed simp

text \<open>Room for objects: the buffer reaches far enough; or the allocator has a hunk for each of them.\<close>

definition bw_room :: "(u64 \<times> u64) list \<Rightarrow> bwriter \<Rightarrow> bool" where
  "bw_room objs w \<longleftrightarrow> good_aligns objs \<and> in_buf (bw_buf w) (after_all objs (unat (bw_size w)))"

definition uw_room :: "(u64 \<times> u64) list \<Rightarrow> uwriter \<Rightarrow> bool" where
  "uw_room objs w \<longleftrightarrow> good_aligns objs \<and> uw_ok w \<and> after_all objs (unat (uw_size w)) < 2 ^ 62 \<and>
     length objs \<le> length (uw_fresh w) \<and>
     (\<forall>p \<in> set (uw_fresh w). unat p mod 64 = 0 \<and> unat p + (after_all objs (unat (uw_size w)) + 16384) < 2 ^ 63)"

lemma bw_place_room:
  assumes "bw_room ((sz, al) # objs) w"
  shows "\<exists>spot w'. place sz al w = Some (spot, w') \<and> unat (bw_size w') = after sz al (unat (bw_size w)) \<and>
    unat spot mod unat al = 0 \<and> bw_room objs w'"
proof -
  let ?s = "unat (bw_size w)"
  have g: "good_align al" "good_aligns objs" and b: "in_buf (bw_buf w) (after_all objs (after sz al ?s))"
    using assms by (simp_all add: bw_room_def good_aligns_def)
  have b1: "in_buf (bw_buf w) (after sz al ?s)" using in_buf_le [OF b after_all_ge [OF g(2)]] .
  obtain w' where w': "place sz al w = Some (bw_buf w + word_of_nat (up ?s (unat al)), w')" "bw_buf w' = bw_buf w"
    "unat (bw_size w') = after sz al ?s"
    using place_in_buf [OF b1 g(1)] by blast
  have "unat (bw_buf w + word_of_nat (up ?s (unat al))) = unat (bw_buf w) + up ?s (unat al)"
    using unat_in_buf [OF b1 after_ge(1) [OF g(1)]] .
  moreover have "unat al dvd up ?s (unat al)" "unat al dvd unat (bw_buf w)"
    using up_mod [OF good_align_pos [OF g(1)]] in_buf_mod [OF b1 g(1)] by (simp_all only: mod_eq_0_iff_dvd)
  ultimately show ?thesis using w' g(2) b by (simp add: bw_room_def)
qed

lemma uplace_fresh:
  "uplace sz al w = Some (spot, w') \<Longrightarrow> uw_fresh w' = uw_fresh w \<or> (\<exists>p. uw_fresh w = p # uw_fresh w')"
  by (auto simp: uplace_def grow_def Let_def split: if_splits list.splits Option.bind_splits)

lemma uw_place_room:
  assumes "uw_room ((sz, al) # objs) w"
  shows "\<exists>spot w'. uplace sz al w = Some (spot, w') \<and> unat (uw_size w') = after sz al (unat (uw_size w)) \<and>
    unat spot mod unat al = 0 \<and> uw_room objs w'"
proof -
  let ?a = "after sz al (unat (uw_size w))"
  have g: "good_align al" "good_aligns objs" and ok: "uw_ok w" and lt: "after_all objs ?a < 2 ^ 62"
    and len: "Suc (length objs) \<le> length (uw_fresh w)"
    and fr: "\<And>p. p \<in> set (uw_fresh w) \<Longrightarrow> unat p mod 64 = 0 \<and> unat p + (after_all objs ?a + 16384) < 2 ^ 63"
    using assms by (simp_all add: uw_room_def good_aligns_def)
  have le: "?a \<le> after_all objs ?a" using after_all_ge [OF g(2)] .
  obtain p ps where p: "uw_fresh w = p # ps" using len by (cases "uw_fresh w") simp_all
  have "fresh_ok (?a + 16384) w" using p fr [of p] le by (simp add: fresh_ok_def)
  from uplace_step [OF ok g(1) _ this] le lt
  obtain spot w' where w': "uplace sz al w = Some (spot, w')" "uw_ok w'" "unat (uw_size w') = ?a" "unat spot mod unat al = 0"
    by auto
  have "set (uw_fresh w') \<subseteq> set (uw_fresh w)" "length objs \<le> length (uw_fresh w')"
    using uplace_fresh [OF w'(1)] len by auto
  then have "uw_room objs w'" using g(2) w'(2,3) lt fr by (auto simp: uw_room_def)
  then show ?thesis using w' by (intro exI conjI)
qed

interpretation bw: placer place "\<lambda>w. unat (bw_size w)" bw_room
  by unfold_locales (rule bw_place_room)

interpretation uw: placer uplace "\<lambda>w. unat (uw_size w)" uw_room
  by unfold_locales (rule uw_place_room)

text \<open>Both writers compute the same size for the same objects, so a value takes as many bytes with either.\<close>

lemma writers_agree:
  assumes "bw_room objs b" "uw_room objs w" "bw_size b = uw_size w"
  shows "\<exists>xs b' ys w'. place_all place objs b = Some (xs, b') \<and> place_all uplace objs w = Some (ys, w') \<and> bw_size b' = uw_size w'"
  using bw.place_all_room [OF assms(1)] uw.place_all_room [OF assms(2)] assms(3) unsigned_word_eqI by metis

end
