(* ===== verification/Broadcast.thy ===== *)
theory Broadcast
  imports Prelude "HOL-Library.Multiset" "HOL-Library.Monad_Syntax"
begin

text \<open>
  Component broadcast of rpcs (src/backend/gasnet/runtime.cpp, src/backend/gasnet/runtime.hpp): the tree by which a call
  is forwarded to all ranks of a team, eagerly with a copy at every rank, and by rendezvous with buffers that are
  shared among the processes of a node and counted. The machine is a pool of everything that is under way: active messages,
  gets, loops that forward, and queued calls; any element of the pool may act next. A result \<open>None\<close> is the use of
  a buffer that does not exist (any more). Ranks are integers and do not overflow.
\<close>

subsection \<open>The targets of a loop\<close>

text \<open>The loop of \<open>rank_me\<close> over the ranks up to \<open>rank_d_ub\<close> sends the upper part of the interval away
  and goes on with the lower part.\<close>

definition eager_mid :: "int \<Rightarrow> int \<Rightarrow> int" where
  "eager_mid rank_me rank_d_ub = rank_me + 15 * (rank_d_ub - rank_me) div 16"

definition rdzv_mid :: "int \<Rightarrow> int \<Rightarrow> int" where
  "rdzv_mid rank_me rank_d_ub = rank_me + (rank_d_ub - rank_me) div 2"

text \<open>The bounds of the interval that is sent, with the lower one in the range of ranks.\<close>

definition sub_bounds :: "int \<Rightarrow> int \<Rightarrow> int \<Rightarrow> int \<times> int" where
  "sub_bounds rank_n rank_d_mid rank_d_ub =
     (let translate = (if rank_n \<le> rank_d_mid then rank_n else 0)
      in (rank_d_mid - translate, rank_d_ub - translate))"

text \<open>The number of messages that the loop of the rendezvous will send.\<close>

function rdzv_messages :: "int \<Rightarrow> int \<Rightarrow> nat" where
  "rdzv_messages rank_me hi =
     (let mid = rdzv_mid rank_me hi
      in if mid = rank_me \<or> hi < rank_me then 0 else Suc (rdzv_messages rank_me mid))"
  by pat_completeness auto
termination
proof (relation "measure (\<lambda>(me, hi). nat (hi - me))")
  fix rank_me hi mid :: int
  assume m: "mid = rdzv_mid rank_me hi" "\<not> (mid = rank_me \<or> hi < rank_me)"
  let ?d = "hi - rank_me"
  have "0 \<le> ?d" "mid - rank_me = ?d div 2" "?d div 2 \<noteq> 0" using m unfolding rdzv_mid_def by auto
  then have "0 < ?d" by (cases "?d = 0") auto
  then have "mid - rank_me < ?d" using \<open>mid - rank_me = ?d div 2\<close> by linarith
  then show "((rank_me, mid), rank_me, hi) \<in> measure (\<lambda>(me, hi). nat (hi - me))" using \<open>0 \<le> ?d\<close> \<open>0 < ?d\<close> by auto
qed simp

declare rdzv_messages.simps [simp del]

subsection \<open>Eager broadcast\<close>

text \<open>
  A message on its way to the rank \<open>sub_lb\<close>, the deferred loop of a rank that forwards, the loop of the
  rank that began the broadcast, and the call queued at a rank.
\<close>

datatype eitem = E_message int int | E_forward int int | E_root int int | E_rpc int

text \<open>\<open>eager_refs\<close> of the copy at each rank (none before it arrives), whether it was freed, and how often the call ran.\<close>

record ebcast =
  e_items :: "eitem multiset"
  eager_refs :: "int \<rightharpoonup> int"
  e_freed :: "int \<Rightarrow> nat"
  e_ran :: "int \<Rightarrow> nat"

text \<open>\<open>if(0 == --eager_refs) free(payload)\<close>\<close>

definition drop_eager :: "int \<Rightarrow> ebcast \<Rightarrow> ebcast option" where
  "drop_eager r s =
     do { k \<leftarrow> eager_refs s r;
          if e_freed s r \<noteq> 0 then None
          else Some (if k - 1 = 0 then s\<lparr>eager_refs := (eager_refs s)(r \<mapsto> k - 1), e_freed := (e_freed s)(r := e_freed s r + 1)\<rparr>
                     else s\<lparr>eager_refs := (eager_refs s)(r \<mapsto> k - 1)\<rparr>) }"

text \<open>One turn of the loop: the message, and the loop with its new bound.\<close>

definition eager_turn :: "int \<Rightarrow> int \<Rightarrow> int \<Rightarrow> (eitem \<times> int) option" where
  "eager_turn rank_n rank_me rank_d_ub =
     (let mid = eager_mid rank_me rank_d_ub
      in if mid = rank_me then None
         else let (sub_lb, sub_ub) = sub_bounds rank_n mid rank_d_ub in Some (E_message sub_lb sub_ub, mid))"

fun eager_act :: "int \<Rightarrow> eitem \<Rightarrow> ebcast \<Rightarrow> ebcast option" where
  "eager_act n (E_message r ub) s =
     Some (s\<lparr>eager_refs := (eager_refs s)(r \<mapsto> 2), e_items := e_items s + {#E_forward r ub, E_rpc r#}\<rparr>)"
| "eager_act n (E_forward r ub) s =
     (case eager_turn n r ub of
        Some (m, mid) \<Rightarrow> if e_freed s r \<noteq> 0 then None else Some (s\<lparr>e_items := e_items s + {#m, E_forward r mid#}\<rparr>)
      | None \<Rightarrow> drop_eager r s)"
| "eager_act n (E_root r ub) s =
     (case eager_turn n r ub of
        Some (m, mid) \<Rightarrow> Some (s\<lparr>e_items := e_items s + {#m, E_root r mid#}\<rparr>)
      | None \<Rightarrow> Some s)"
| "eager_act n (E_rpc r) s =
     (if e_freed s r \<noteq> 0 then None else drop_eager r (s\<lparr>e_ran := (e_ran s)(r := e_ran s r + 1)\<rparr>))"

definition eager_start :: "int \<Rightarrow> int \<Rightarrow> ebcast" where
  "eager_start n root =
     \<lparr>e_items = {#E_root root (root + n)#}, eager_refs = (\<lambda>_. None), e_freed = (\<lambda>_. 0), e_ran = (\<lambda>_. 0)\<rparr>"

inductive eager_step :: "int \<Rightarrow> ebcast \<Rightarrow> ebcast \<Rightarrow> bool" for n where
  "x \<in># e_items s \<Longrightarrow> eager_act n x (s\<lparr>e_items := e_items s - {#x#}\<rparr>) = Some s' \<Longrightarrow> eager_step n s s'"

subsection \<open>Broadcast by rendezvous\<close>

text \<open>
  Buffers are named by the world rank of their owner. A message carries the world rank of its sender and of the
  owner of the payload. A queued call knows the owner of its payload and whether that is a peer on the same
  node. \<open>R_dec\<close> and \<open>R_dealloc\<close> are the restricted active messages to the owner.
\<close>

datatype ritem =
    R_message int int int int
  | R_get int int int
  | R_forward int int int
  | R_rpc int int bool
  | R_dec int
  | R_dealloc int

datatype buffer = No_buffer | Live int | Freed

record rbcast =
  r_items :: "ritem multiset"
  rdzv_refs :: "int \<Rightarrow> buffer"
  r_ran :: "int \<Rightarrow> nat"

text \<open>\<open>fetch_add\<close> on the count of a live buffer: the state and the new count.\<close>

definition add_refs :: "int \<Rightarrow> int \<Rightarrow> rbcast \<Rightarrow> (int \<times> rbcast) option" where
  "add_refs b k s =
     (case rdzv_refs s b of Live r \<Rightarrow> Some (r + k, s\<lparr>rdzv_refs := (rdzv_refs s)(b := Live (r + k))\<rparr>) | _ \<Rightarrow> None)"

definition dealloc :: "int \<Rightarrow> rbcast \<Rightarrow> rbcast option" where
  "dealloc b s = (case rdzv_refs s b of Live r \<Rightarrow> Some (s\<lparr>rdzv_refs := (rdzv_refs s)(b := Freed)\<rparr>) | _ \<Rightarrow> None)"

text \<open>
  \<open>bcast_am_master_rdzv\<close> up to its loop: the references for the messages it will send are added first. \<open>owns\<close>
  is whether the payload is the sender's own.
\<close>

definition bcast_rdzv :: "int \<Rightarrow> int \<Rightarrow> int \<Rightarrow> bool \<Rightarrow> rbcast \<Rightarrow> rbcast option" where
  "bcast_rdzv rank_me rank_d_ub b owns s =
     (let messages = rdzv_messages rank_me rank_d_ub
      in if owns
         then do { (refs, s) \<leftarrow> add_refs b (int messages) s;
                   if messages = 0 then (if refs = 0 then dealloc b s else Some s)
                   else Some (s\<lparr>r_items := r_items s + {#R_forward rank_me rank_d_ub b#}\<rparr>) }
         else if messages = 0 then Some s
         else do { (_, s) \<leftarrow> add_refs b (int messages) s;
                   Some (s\<lparr>r_items := r_items s + {#R_forward rank_me rank_d_ub b#}\<rparr>) })"

text \<open>The end of a call: the last one asks the owner of a shared buffer to free it, and frees its own.\<close>

definition rdzv_cleanup :: "int \<Rightarrow> bool \<Rightarrow> rbcast \<Rightarrow> rbcast option" where
  "rdzv_cleanup b rank_s_local s =
     do { (refs_now, s) \<leftarrow> add_refs b (- 1) s;
          if refs_now \<noteq> 0 then Some s
          else if rank_s_local then Some (s\<lparr>r_items := r_items s + {#R_dealloc b#}\<rparr>)
          else dealloc b s }"

text \<open>\<open>wr\<close> is \<open>team_rank_to_world\<close>, \<open>loc\<close> whether two world ranks share a node.\<close>

fun rdzv_act :: "int \<Rightarrow> (int \<Rightarrow> int) \<Rightarrow> (int \<Rightarrow> int \<Rightarrow> bool) \<Rightarrow> ritem \<Rightarrow> rbcast \<Rightarrow> rbcast option" where
  "rdzv_act n wr loc (R_forward r ub b) s =
     (let mid = rdzv_mid r ub
      in if mid = r then Some s
         else let (sub_lb, sub_ub) = sub_bounds n mid ub
              in Some (s\<lparr>r_items := r_items s + {#R_message sub_lb sub_ub (wr r) b, R_forward r mid b#}\<rparr>))"
| "rdzv_act n wr loc (R_message r ub sender b) s =
     (if loc (wr r) sender
      then if loc (wr r) b
           then do { _ \<leftarrow> add_refs b 0 s;
                     s \<leftarrow> bcast_rdzv r ub b False s;
                     Some (s\<lparr>r_items := r_items s + {#R_rpc r b True#}\<rparr>) }
           else None
      else Some (s\<lparr>r_items := r_items s + {#R_get r ub b#}\<rparr>))"
| "rdzv_act n wr loc (R_get r ub b) s =
     do { _ \<leftarrow> add_refs b 0 s;
          s \<leftarrow> bcast_rdzv r ub (wr r) True (s\<lparr>rdzv_refs := (rdzv_refs s)(wr r := Live 1)\<rparr>);
          Some (s\<lparr>r_items := r_items s + {#R_rpc r (wr r) False, R_dec b#}\<rparr>) }"
| "rdzv_act n wr loc (R_rpc r b rank_s_local) s =
     rdzv_cleanup b rank_s_local (s\<lparr>r_ran := (r_ran s)(r := r_ran s r + 1)\<rparr>)"
| "rdzv_act n wr loc (R_dec b) s =
     do { (refs_now, s) \<leftarrow> add_refs b (- 1) s; if refs_now = 0 then dealloc b s else Some s }"
| "rdzv_act n wr loc (R_dealloc b) s = dealloc b s"

text \<open>The call at the root: the count is 0 before the references for its messages are added.\<close>

definition rdzv_start :: "int \<Rightarrow> (int \<Rightarrow> int) \<Rightarrow> int \<Rightarrow> rbcast option" where
  "rdzv_start n wr root =
     bcast_rdzv root (root + n) (wr root) True
       \<lparr>r_items = {#}, rdzv_refs = (\<lambda>_. No_buffer)(wr root := Live 0), r_ran = (\<lambda>_. 0)\<rparr>"

inductive rdzv_step :: "int \<Rightarrow> (int \<Rightarrow> int) \<Rightarrow> (int \<Rightarrow> int \<Rightarrow> bool) \<Rightarrow> rbcast \<Rightarrow> rbcast \<Rightarrow> bool" for n wr loc where
  "x \<in># r_items s \<Longrightarrow> rdzv_act n wr loc x (s\<lparr>r_items := r_items s - {#x#}\<rparr>) = Some s' \<Longrightarrow> rdzv_step n wr loc s s'"

inductive_cases eager_stepE: "eager_step n s s'"
inductive_cases rdzv_stepE: "rdzv_step n wr loc s s'"

end
