(* ===== verification/Pool.thy ===== *)
theory Pool
  imports Prelude "HOL-Library.Multiset"
begin

text \<open>
  Pools of things under way: sums over a pool, and machines in which every step keeps an invariant and uses up work, so
  that their runs are bounded by the work at the start.
\<close>

abbreviation total :: "('a \<Rightarrow> nat) \<Rightarrow> 'a multiset \<Rightarrow> nat" where
  "total f M \<equiv> sum_mset (image_mset f M)"

lemma total_pos: "x \<in># M \<Longrightarrow> f x \<le> total f M"
  by (metis insert_DiffM le_add1 image_mset_add_mset sum_mset.insert)

locale working =
  fixes step :: "'s \<Rightarrow> 's \<Rightarrow> bool"
    and inv :: "'s \<Rightarrow> bool"
    and work :: "'s \<Rightarrow> nat"
  assumes works: "inv s \<Longrightarrow> step s t \<Longrightarrow> inv t \<and> work t < work s"
begin

lemma run_bounded: "(step ^^ k) s t \<Longrightarrow> inv s \<Longrightarrow> inv t \<and> k + work t \<le> work s"
proof (induction k arbitrary: t)
  case (Suc k)
  then obtain u where u: "(step ^^ k) s u" "step u t" by (auto elim: relpowp_Suc_E)
  then have "inv u" "k + work u \<le> work s" using Suc by auto
  then show ?case using works[of u t] u(2) by fastforce
qed simp

end

text \<open>Machines that are never stuck before they are done.\<close>

locale live = working +
  fixes idle :: "'s \<Rightarrow> bool"
  assumes progress: "inv s \<Longrightarrow> \<not> idle s \<Longrightarrow> \<exists>t. step s t"
begin

lemma reaches_idle: "inv s \<Longrightarrow> \<exists>k t. (step ^^ k) s t \<and> idle t"
proof (induction "work s" arbitrary: s rule: less_induct)
  case less
  show ?case
  proof (cases "idle s")
    case True
    then show ?thesis by (intro exI[of _ 0] exI[of _ s]) simp
  next
    case False
    then obtain u where u: "step s u" using progress[OF less.prems] by blast
    then obtain k t where "(step ^^ k) u t" "idle t" using less.hyps works[OF less.prems u] by blast
    then show ?thesis using relpowp_Suc_I2[of step, OF u] by blast
  qed
qed

end

end
