(* ===== verification/Broadcast_Correct.thy ===== *)
theory Broadcast_Correct
  imports Broadcast Pool
begin

text \<open>
  Correctness of the broadcast: the tree reaches every rank but the root exactly once, a payload is never read after it was
  freed, every copy is freed in the end, and the machine stops after a number of steps that is linear in the size of the team.
\<close>

declare sum_mset_0_iff [simp del] of_nat_sum_mset [simp del]

subsection \<open>Ranks covered by an interval\<close>

definition cover :: "int \<Rightarrow> int \<Rightarrow> int \<Rightarrow> int \<Rightarrow> nat" where
  "cover n a b r = card {j \<in> {a..<b}. j mod n = r}"

lemma cover_empty [simp]: "b \<le> a \<Longrightarrow> cover n a b r = 0"
  by (simp add: cover_def)

lemma cover_split: "a \<le> m \<Longrightarrow> m \<le> b \<Longrightarrow> cover n a b r = cover n a m r + cover n m b r"
proof -
  assume "a \<le> m" "m \<le> b"
  let ?A = "{j \<in> {a..<m}. j mod n = r}" and ?B = "{j \<in> {m..<b}. j mod n = r}"
  have un: "{j \<in> {a..<b}. j mod n = r} = ?A \<union> ?B" using \<open>a \<le> m\<close> \<open>m \<le> b\<close> by auto
  have "finite ?A" by (rule finite_subset[OF _ finite_atLeastLessThan_int[of a m]]) auto
  moreover have "finite ?B" by (rule finite_subset[OF _ finite_atLeastLessThan_int[of m b]]) auto
  moreover have "?A \<inter> ?B = {}" by auto
  ultimately have "card (?A \<union> ?B) = card ?A + card ?B" by (rule card_Un_disjoint)
  then show ?thesis unfolding cover_def un .
qed

lemma cover_shift: "cover n (a - n) (b - n) r = cover n a b r"
proof -
  have "{j \<in> {a - n..<b - n}. j mod n = r} = (\<lambda>j. j - n) ` {j \<in> {a..<b}. j mod n = r}" (is "?L = ?f ` ?R")
  proof
    show "?L \<subseteq> ?f ` ?R"
    proof
      fix j
      assume "j \<in> ?L"
      then have "j = ?f (j + n)" "j + n \<in> ?R" by auto
      then show "j \<in> ?f ` ?R" by (rule image_eqI)
    qed
  qed auto
  then show ?thesis unfolding cover_def by (simp add: card_image inj_on_def)
qed

lemma cover_one: "cover n a (a + 1) r = (if a mod n = r then 1 else 0)"
proof -
  have "{j \<in> {a..<a + 1}. j mod n = r} = (if a mod n = r then {a} else {})" by auto
  then show ?thesis unfolding cover_def by simp
qed

lemma cover_first: "a < b \<Longrightarrow> cover n a b r = (if a mod n = r then 1 else 0) + cover n (a + 1) b r"
  using cover_split[of a "a + 1" b n r] cover_one[of n a r] by simp

lemma cover_inside:
  assumes "0 \<le> a" "b \<le> n"
  shows "cover n a b r = (if a \<le> r \<and> r < b then 1 else 0)"
proof -
  have "{j \<in> {a..<b}. j mod n = r} = (if a \<le> r \<and> r < b then {r} else {})" using assms by auto
  then show ?thesis unfolding cover_def by simp
qed

lemma cover_all_others:
  assumes "0 \<le> root" "root < n" "0 \<le> r" "r < n"
  shows "cover n (root + 1) (root + n) r = (if r = root then 0 else 1)"
proof -
  have "cover n (root + 1) (root + n) r = cover n (root + 1) n r + cover n n (root + n) r"
    using assms by (intro cover_split) auto
  moreover have "cover n n (root + n) r = cover n 0 root r" using cover_shift[of n n "root + n" r] by simp
  ultimately show ?thesis using assms by (auto simp: cover_inside)
qed

subsection \<open>The split of an interval\<close>

text \<open>What both loops need of their choice of the middle.\<close>

definition in_team :: "int \<Rightarrow> int \<Rightarrow> int \<Rightarrow> bool" where
  "in_team n r ub \<longleftrightarrow> 0 \<le> r \<and> r < n \<and> r < ub \<and> ub \<le> r + n"

locale splitter =
  fixes mid :: "int \<Rightarrow> int \<Rightarrow> int"
  assumes mid_stop: "r < ub \<Longrightarrow> mid r ub = r \<longleftrightarrow> ub = r + 1"
    and mid_inside: "r < ub \<Longrightarrow> mid r ub \<noteq> r \<Longrightarrow> r < mid r ub \<and> mid r ub < ub"
begin

lemma split_ranges:
  assumes "in_team n r ub" "mid r ub \<noteq> r" "sub_bounds n (mid r ub) ub = (lb, sub)"
  shows "in_team n lb sub" "in_team n r (mid r ub)" "sub - lb = ub - mid r ub" "lb < sub" "r < mid r ub" "mid r ub < ub"
  using assms mid_inside[of r ub] by (auto simp: in_team_def sub_bounds_def Let_def split: if_splits)

lemma split_cover:
  assumes "in_team n r ub" "mid r ub \<noteq> r" "sub_bounds n (mid r ub) ub = (lb, sub)"
  shows "cover n (r + 1) ub q = cover n lb sub q + cover n (r + 1) (mid r ub) q"
proof -
  have m: "r < mid r ub" "mid r ub < ub" using assms mid_inside[of r ub] by (auto simp: in_team_def)
  have "cover n (mid r ub) ub q = cover n lb sub q"
    using assms(3) by (auto simp: sub_bounds_def Let_def cover_shift split: if_splits)
  then show ?thesis using m cover_split[of "r + 1" "mid r ub" ub n q] by simp
qed

lemma last_cover: "in_team n r ub \<Longrightarrow> mid r ub = r \<Longrightarrow> cover n (r + 1) ub q = 0"
  using mid_stop[of r ub] by (simp add: in_team_def)

end

interpretation eager: splitter eager_mid
  by unfold_locales (auto simp: eager_mid_def)

interpretation rdzv: splitter rdzv_mid
  by unfold_locales (auto simp: rdzv_mid_def)

lemma cover_rank: "in_team n r ub \<Longrightarrow> cover n r ub q = (if q = r then 1 else 0) + cover n (r + 1) ub q"
  using cover_first[of r ub n q] by (auto simp: in_team_def)

subsection \<open>Eager broadcast\<close>

text \<open>Ranks still to be reached, calls queued, uses of the copy of a rank, and the work left.\<close>

fun e_pend :: "int \<Rightarrow> int \<Rightarrow> eitem \<Rightarrow> nat" where
  "e_pend n q (E_message r ub) = cover n r ub q"
| "e_pend n q (E_forward r ub) = cover n (r + 1) ub q"
| "e_pend n q (E_root r ub) = cover n (r + 1) ub q"
| "e_pend n q (E_rpc r) = 0"

fun e_call :: "int \<Rightarrow> eitem \<Rightarrow> nat" where
  "e_call q (E_rpc r) = (if r = q then 1 else 0)"
| "e_call q _ = 0"

fun e_use :: "int \<Rightarrow> eitem \<Rightarrow> nat" where
  "e_use q (E_rpc r) = (if r = q then 1 else 0)"
| "e_use q (E_forward r ub) = (if r = q then 1 else 0)"
| "e_use q _ = 0"

fun e_work :: "eitem \<Rightarrow> nat" where
  "e_work (E_message r ub) = nat (4 * (ub - r) - 1)"
| "e_work (E_forward r ub) = nat (4 * (ub - r) - 3)"
| "e_work (E_root r ub) = nat (4 * (ub - r) - 3)"
| "e_work (E_rpc r) = 1"

fun e_ranks :: "int \<Rightarrow> eitem \<Rightarrow> bool" where
  "e_ranks n (E_message r ub) = in_team n r ub"
| "e_ranks n (E_forward r ub) = in_team n r ub"
| "e_ranks n (E_root r ub) = in_team n r ub"
| "e_ranks n (E_rpc r) = (0 \<le> r \<and> r < n)"

text \<open>The count of a copy is the number of uses to come; the copy is freed when it reaches 0 and not before.\<close>

definition e_rank_ok :: "bool \<Rightarrow> nat \<Rightarrow> nat \<Rightarrow> nat \<Rightarrow> int option \<Rightarrow> nat \<Rightarrow> nat \<Rightarrow> bool" where
  "e_rank_ok is_root pend calls uses refs freed runs \<longleftrightarrow>
     pend + calls + runs = (if is_root then 0 else 1) \<and>
     (case refs of None \<Rightarrow> uses = 0 \<and> freed = 0 \<and> runs = 0 \<and> calls = 0
      | Some k \<Rightarrow> pend = 0 \<and> k = int uses \<and> freed = (if uses = 0 then 1 else 0))"

definition e_inv :: "int \<Rightarrow> int \<Rightarrow> ebcast \<Rightarrow> bool" where
  "e_inv n root s \<longleftrightarrow>
     (\<forall>x \<in># e_items s. e_ranks n x) \<and>
     (\<forall>q. 0 \<le> q \<longrightarrow> q < n \<longrightarrow>
        e_rank_ok (q = root) (total (e_pend n q) (e_items s)) (total (e_call q) (e_items s)) (total (e_use q) (e_items s))
          (eager_refs s q) (e_freed s q) (e_ran s q))"

definition e_good :: "int \<Rightarrow> int \<Rightarrow> eitem \<Rightarrow> ebcast \<Rightarrow> eitem multiset \<Rightarrow> bool" where
  "e_good n root x s M \<longleftrightarrow>
     (\<exists>s'. eager_act n x (s\<lparr>e_items := M\<rparr>) = Some s' \<and> e_inv n root s' \<and> total e_work (e_items s') < total e_work (add_mset x M))"

lemma e_invI:
  assumes "\<forall>x \<in># e_items s. e_ranks n x"
    and "\<And>q. 0 \<le> q \<Longrightarrow> q < n \<Longrightarrow>
      e_rank_ok (q = root) (total (e_pend n q) (e_items s)) (total (e_call q) (e_items s)) (total (e_use q) (e_items s))
        (eager_refs s q) (e_freed s q) (e_ran s q)"
  shows "e_inv n root s"
  using assms by (simp add: e_inv_def)

lemma e_invD:
  assumes "e_inv n root s" "0 \<le> q" "q < n" "e_items s = add_mset x M"
  shows "e_rank_ok (q = root) (e_pend n q x + total (e_pend n q) M) (e_call q x + total (e_call q) M)
    (e_use q x + total (e_use q) M) (eager_refs s q) (e_freed s q) (e_ran s q)"
  using assms(1-3) unfolding e_inv_def assms(4) by simp

lemma e_inv_ranks: "e_inv n root s \<Longrightarrow> e_items s = add_mset x M \<Longrightarrow> e_ranks n x \<and> (\<forall>y \<in># M. e_ranks n y)"
  by (simp add: e_inv_def)

lemma eager_message_good:
  assumes inv: "e_inv n root s" and s: "e_items s = add_mset (E_message r ub) M"
  shows "e_good n root (E_message r ub) s M"
proof -
  have r: "in_team n r ub" and M: "\<forall>y \<in># M. e_ranks n y" using e_inv_ranks[OF inv s] by auto
  have "e_inv n root (s\<lparr>e_items := M + {#E_forward r ub, E_rpc r#}, eager_refs := (eager_refs s)(r \<mapsto> 2)\<rparr>)"
    (is "e_inv n root ?s")
  proof (rule e_invI)
    show "\<forall>x \<in># e_items ?s. e_ranks n x" using r M by (auto simp: in_team_def)
  next
    fix q
    assume q: "0 \<le> q" "q < n"
    show "e_rank_ok (q = root) (total (e_pend n q) (e_items ?s)) (total (e_call q) (e_items ?s))
      (total (e_use q) (e_items ?s)) (eager_refs ?s q) (e_freed ?s q) (e_ran ?s q)"
      using e_invD[OF inv q s]
      by (cases "q = r"; cases "eager_refs s q") (auto simp: e_rank_ok_def cover_rank[OF r] split: if_splits)
  qed
  moreover have "total e_work (e_items ?s) < total e_work (add_mset (E_message r ub) M)" using r by (simp add: in_team_def) arith
  ultimately show ?thesis unfolding e_good_def by (intro exI[of _ ?s]) simp
qed

lemma drop_eager_good:
  assumes "0 \<le> r" "r < n" "\<forall>x \<in># e_items s. e_ranks n x"
    and ok: "\<And>q. 0 \<le> q \<Longrightarrow> q < n \<Longrightarrow>
      e_rank_ok (q = root) (total (e_pend n q) (e_items s)) (total (e_call q) (e_items s))
        ((if q = r then 1 else 0) + total (e_use q) (e_items s)) (eager_refs s q) (e_freed s q) (e_ran s q)"
  shows "\<exists>s'. drop_eager r s = Some s' \<and> e_inv n root s' \<and> e_items s' = e_items s"
proof -
  obtain k where k: "eager_refs s r = Some k" "k = int (Suc (total (e_use r) (e_items s)))" "e_freed s r = 0"
    using ok[of r] assms(1,2) by (auto simp: e_rank_ok_def split: option.splits)
  let ?s = "if k - 1 = 0 then s\<lparr>eager_refs := (eager_refs s)(r \<mapsto> k - 1), e_freed := (e_freed s)(r := e_freed s r + 1)\<rparr>
                     else s\<lparr>eager_refs := (eager_refs s)(r \<mapsto> k - 1)\<rparr>"
  have "drop_eager r s = Some ?s" using k by (simp add: drop_eager_def)
  moreover have "e_inv n root ?s"
  proof (rule e_invI)
    show "\<forall>x \<in># e_items ?s. e_ranks n x" using assms(3) by simp
  next
    fix q
    assume q: "0 \<le> q" "q < n"
    show "e_rank_ok (q = root) (total (e_pend n q) (e_items ?s)) (total (e_call q) (e_items ?s))
      (total (e_use q) (e_items ?s)) (eager_refs ?s q) (e_freed ?s q) (e_ran ?s q)"
      using ok[OF q] k by (cases "q = r"; cases "total (e_use r) (e_items s) = 0") (simp_all add: e_rank_ok_def)
  qed
  ultimately show ?thesis by simp
qed

lemma eager_rpc_good:
  assumes inv: "e_inv n root s" and s: "e_items s = add_mset (E_rpc r) M"
  shows "e_good n root (E_rpc r) s M"
proof -
  have r: "0 \<le> r" "r < n" and M: "\<forall>y \<in># M. e_ranks n y" using e_inv_ranks[OF inv s] by auto
  let ?s = "s\<lparr>e_items := M, e_ran := (e_ran s)(r := e_ran s r + 1)\<rparr>"
  have "e_rank_ok (q = root) (total (e_pend n q) (e_items ?s)) (total (e_call q) (e_items ?s))
        ((if q = r then 1 else 0) + total (e_use q) (e_items ?s)) (eager_refs ?s q) (e_freed ?s q) (e_ran ?s q)"
    if q: "0 \<le> q" "q < n" for q
    using e_invD[OF inv q s] by (cases "q = r"; cases "eager_refs s q") (auto simp: e_rank_ok_def)
  then obtain s' where "drop_eager r ?s = Some s'" "e_inv n root s'" "e_items s' = M"
    using drop_eager_good[of r n ?s root] r M by auto
  moreover have "e_freed s r = 0"
    using e_invD[OF inv r s] by (cases "eager_refs s r") (auto simp: e_rank_ok_def)
  ultimately show ?thesis unfolding e_good_def by simp
qed

lemma eager_turn_Some:
  assumes "in_team n r ub" "eager_turn n r ub = Some (m, md)"
  shows "e_ranks n m" "in_team n r md" "e_pend n q m + cover n (r + 1) md q = cover n (r + 1) ub q"
    "e_call q m = 0" "e_use q m = 0" "e_work m + nat (4 * (md - r) - 3) < nat (4 * (ub - r) - 3)"
proof -
  obtain lb sub where b: "sub_bounds n (eager_mid r ub) ub = (lb, sub)" by fastforce
  then have m: "m = E_message lb sub" "md = eager_mid r ub" "eager_mid r ub \<noteq> r"
    using assms(2) by (auto simp: eager_turn_def Let_def split: if_splits)
  note s = eager.split_ranges[OF assms(1) m(3) b]
  show "e_ranks n m" "in_team n r md" "e_pend n q m + cover n (r + 1) md q = cover n (r + 1) ub q"
    "e_call q m = 0" "e_use q m = 0" "e_work m + nat (4 * (md - r) - 3) < nat (4 * (ub - r) - 3)"
    using m s eager.split_cover[OF assms(1) m(3) b, of q] by simp_all
qed

lemma eager_turn_None:
  assumes "in_team n r ub" "eager_turn n r ub = None"
  shows "cover n (r + 1) ub q = 0"
  using assms(2) eager.last_cover[OF assms(1)] by (auto simp: eager_turn_def Let_def split: if_splits prod.splits)

text \<open>A turn of either loop.\<close>

lemma eager_turn_inv:
  assumes inv: "e_inv n root s" and s: "e_items s = add_mset x M" and x: "x = E_root r ub \<and> y = E_root r md \<or> x = E_forward r ub \<and> y = E_forward r md"
    and p: "eager_turn n r ub = Some (m, md)"
  shows "e_inv n root (s\<lparr>e_items := M + {#m, y#}\<rparr>)" "total e_work (M + {#m, y#}) < total e_work (add_mset x M)"
proof -
  let ?s = "s\<lparr>e_items := M + {#m, y#}\<rparr>"
  have r: "in_team n r ub" and M: "\<forall>y \<in># M. e_ranks n y" using e_inv_ranks[OF inv s] x by auto
  note t = eager_turn_Some[OF r p]
  show "e_inv n root ?s"
  proof (rule e_invI)
    show "\<forall>x \<in># e_items ?s. e_ranks n x" using M t(1,2) x by auto
  next
    fix q
    assume q: "0 \<le> q" "q < n"
    have "e_pend n q x = e_pend n q m + e_pend n q y" "e_call q x = e_call q m + e_call q y" "e_use q x = e_use q m + e_use q y"
      using x t(3-5)[of q] by auto
    then show "e_rank_ok (q = root) (total (e_pend n q) (e_items ?s)) (total (e_call q) (e_items ?s))
        (total (e_use q) (e_items ?s)) (eager_refs ?s q) (e_freed ?s q) (e_ran ?s q)"
      using e_invD[OF inv q s] by (simp add: ac_simps)
  qed
  show "total e_work (M + {#m, y#}) < total e_work (add_mset x M)" using x t(6) by auto
qed

lemma eager_root_good:
  assumes inv: "e_inv n root s" and s: "e_items s = add_mset (E_root r ub) M"
  shows "e_good n root (E_root r ub) s M"
proof (cases "eager_turn n r ub")
  case None
  have r: "in_team n r ub" and M: "\<forall>y \<in># M. e_ranks n y" using e_inv_ranks[OF inv s] by auto
  have "e_inv n root (s\<lparr>e_items := M\<rparr>)"
    using e_invD[OF inv _ _ s] M by (intro e_invI) (simp_all add: eager_turn_None[OF r None])
  then show ?thesis using None r unfolding e_good_def by (simp add: in_team_def)
next
  case (Some p)
  then obtain m md where p: "eager_turn n r ub = Some (m, md)" by (cases p) auto
  show ?thesis using eager_turn_inv[OF inv s _ p] p unfolding e_good_def by simp
qed

lemma eager_forward_good:
  assumes inv: "e_inv n root s" and s: "e_items s = add_mset (E_forward r ub) M"
  shows "e_good n root (E_forward r ub) s M"
proof -
  have r: "in_team n r ub" and M: "\<forall>y \<in># M. e_ranks n y" using e_inv_ranks[OF inv s] by auto
  then have r': "0 \<le> r" "r < n" by (auto simp: in_team_def)
  show ?thesis
  proof (cases "eager_turn n r ub")
    case None
    let ?s = "s\<lparr>e_items := M\<rparr>"
    have "e_rank_ok (q = root) (total (e_pend n q) (e_items ?s)) (total (e_call q) (e_items ?s))
        ((if q = r then 1 else 0) + total (e_use q) (e_items ?s)) (eager_refs ?s q) (e_freed ?s q) (e_ran ?s q)"
      if q: "0 \<le> q" "q < n" for q
      using e_invD[OF inv q s] eager_turn_None[OF r None] by (cases "q = r") auto
    then obtain s' where "drop_eager r ?s = Some s'" "e_inv n root s'" "e_items s' = M"
      using drop_eager_good[of r n ?s root] r' M by auto
    then show ?thesis using None r unfolding e_good_def by (simp add: in_team_def)
  next
    case (Some p)
    then obtain m md where p: "eager_turn n r ub = Some (m, md)" by (cases p) auto
    have "e_freed s r = 0"
      using e_invD[OF inv r' s] by (cases "eager_refs s r") (auto simp: e_rank_ok_def)
    then show ?thesis using eager_turn_inv[OF inv s _ p] p unfolding e_good_def by simp
  qed
qed

lemma eager_act_good:
  assumes "e_inv n root s" "e_items s = add_mset x M"
  shows "e_good n root x s M"
  using assms eager_message_good eager_forward_good eager_root_good eager_rpc_good by (cases x) auto

lemma eager_start_inv:
  assumes "0 \<le> root" "root < n"
  shows "e_inv n root (eager_start n root)"
  using assms by (intro e_invI) (auto simp: eager_start_def e_rank_ok_def in_team_def cover_all_others)

lemma eager_step_inv:
  assumes "e_inv n root s" "eager_step n s t"
  shows "e_inv n root t \<and> total e_work (e_items t) < total e_work (e_items s)"
proof -
  from assms(2) obtain x where x: "x \<in># e_items s" "eager_act n x (s\<lparr>e_items := e_items s - {#x#}\<rparr>) = Some t"
    by (rule eager_stepE)
  then have "e_items s = add_mset x (e_items s - {#x#})" by simp
  from eager_act_good[OF assms(1) this] x show ?thesis by (auto simp: e_good_def)
qed

interpretation eager_pool: live "eager_step n" "e_inv n root" "\<lambda>s. total e_work (e_items s)" "\<lambda>s. e_items s = {#}" for n root
proof
  show "e_inv n root t \<and> total e_work (e_items t) < total e_work (e_items s)" if "e_inv n root s" "eager_step n s t" for s t
    using eager_step_inv[OF that] .
  show "\<exists>t. eager_step n s t" if i: "e_inv n root s" and ne: "e_items s \<noteq> {#}" for s
  proof -
    obtain x where x: "x \<in># e_items s" using ne by (rule multiset_nonemptyE)
    then have "e_items s = add_mset x (e_items s - {#x#})" by simp
    from eager_act_good[OF i this] x show ?thesis by (auto simp: e_good_def intro: eager_step.intros)
  qed
qed

lemma eager_run_inv:
  assumes "0 \<le> root" "root < n" "(eager_step n ^^ k) (eager_start n root) s"
  shows "e_inv n root s" "k + total e_work (e_items s) \<le> nat (4 * n - 3)"
  using eager_pool.run_bounded[OF assms(3) eager_start_inv[OF assms(1,2)]] by (auto simp: eager_start_def)

text \<open>
  (C15) The eager broadcast. From the start of a broadcast over a team of \<open>n\<close> ranks, whatever the order in which messages
  arrive, loops are resumed and calls run: nothing under way uses a copy that was freed or never made, the run is at
  most \<open>4 n - 3\<close> steps long, and when nothing is left under way every rank but the root has run the call exactly
  once and has freed its copy exactly once.
\<close>

theorem bcast_eager_correct:
  assumes "0 \<le> root" "root < n" "(eager_step n ^^ k) (eager_start n root) s"
  shows "int k \<le> 4 * n - 3 \<and>
    (\<forall>x \<in># e_items s. \<exists>t. eager_act n x (s\<lparr>e_items := e_items s - {#x#}\<rparr>) = Some t) \<and>
    (e_items s = {#} \<longrightarrow> (\<forall>q. 0 \<le> q \<longrightarrow> q < n \<longrightarrow> q \<noteq> root \<longrightarrow> e_ran s q = 1 \<and> e_freed s q = 1)) \<and>
    e_ran s root = 0"
proof (intro conjI ballI impI allI)
  note inv = eager_run_inv[OF assms]
  show "int k \<le> 4 * n - 3" using inv(2) assms(1,2) by linarith
  show "\<exists>t. eager_act n x (s\<lparr>e_items := e_items s - {#x#}\<rparr>) = Some t" if "x \<in># e_items s" for x
    using eager_act_good[OF inv(1), of x "e_items s - {#x#}"] that by (auto simp: e_good_def)
  show "e_ran s q = 1" "e_freed s q = 1" if "e_items s = {#}" "0 \<le> q" "q < n" "q \<noteq> root" for q
    using inv(1) that by (auto simp: e_inv_def e_rank_ok_def split: option.splits)
  show "e_ran s root = 0" using inv(1) assms(1,2) by (auto simp: e_inv_def e_rank_ok_def)
qed

theorem bcast_eager_correct_witness:
  "\<exists>k s. (eager_step 40 ^^ k) (eager_start 40 7) s \<and> k \<le> 157 \<and> e_items s = {#} \<and> e_ran s 1 = 1 \<and> e_freed s 39 = 1"
proof -
  obtain k s where s: "(eager_step 40 ^^ k) (eager_start 40 7) s" "e_items s = {#}"
    using eager_pool.reaches_idle[OF eager_start_inv[of 7 40]] by auto
  then show ?thesis using bcast_eager_correct[OF _ _ s(1)] by (intro exI[of _ k] exI[of _ s]) simp
qed

subsection \<open>Broadcast by rendezvous\<close>

text \<open>Ranks still to be reached, calls queued, references to a buffer, requests to free it, and the work left.\<close>

fun r_pend :: "int \<Rightarrow> int \<Rightarrow> ritem \<Rightarrow> nat" where
  "r_pend n q (R_message r ub _ _) = cover n r ub q"
| "r_pend n q (R_get r ub _) = cover n r ub q"
| "r_pend n q (R_forward r ub _) = cover n (r + 1) ub q"
| "r_pend n q _ = 0"

fun r_call :: "int \<Rightarrow> ritem \<Rightarrow> nat" where
  "r_call q (R_rpc r _ _) = (if r = q then 1 else 0)"
| "r_call q _ = 0"

fun r_uses :: "int \<Rightarrow> ritem \<Rightarrow> nat" where
  "r_uses b (R_message _ _ _ c) = (if c = b then 1 else 0)"
| "r_uses b (R_get _ _ c) = (if c = b then 1 else 0)"
| "r_uses b (R_forward r ub c) = (if c = b then rdzv_messages r ub else 0)"
| "r_uses b (R_rpc _ c _) = (if c = b then 1 else 0)"
| "r_uses b (R_dec c) = (if c = b then 1 else 0)"
| "r_uses b (R_dealloc _) = 0"

fun r_frees :: "int \<Rightarrow> ritem \<Rightarrow> nat" where
  "r_frees b (R_dealloc c) = (if c = b then 1 else 0)"
| "r_frees b _ = 0"

fun r_work :: "ritem \<Rightarrow> nat" where
  "r_work (R_message r ub _ _) = nat (10 * (ub - r) - 4)"
| "r_work (R_get r ub _) = nat (10 * (ub - r) - 5)"
| "r_work (R_forward r ub _) = nat (10 * (ub - r) - 9)"
| "r_work (R_rpc _ _ _) = 2"
| "r_work (R_dec _) = 1"
| "r_work (R_dealloc _) = 1"

fun r_ok :: "int \<Rightarrow> (int \<Rightarrow> int) \<Rightarrow> (int \<Rightarrow> int \<Rightarrow> bool) \<Rightarrow> ritem \<Rightarrow> bool" where
  "r_ok n wr loc (R_message r ub c b) \<longleftrightarrow> in_team n r ub \<and> loc c b"
| "r_ok n wr loc (R_get r ub b) \<longleftrightarrow> in_team n r ub"
| "r_ok n wr loc (R_forward r ub b) \<longleftrightarrow> in_team n r ub \<and> loc (wr r) b"
| "r_ok n wr loc (R_rpc r b l) \<longleftrightarrow> 0 \<le> r \<and> r < n"
| "r_ok n wr loc _ \<longleftrightarrow> True"

text \<open>The count of a live buffer is the number of references; one that has none is about to be freed, by one request.\<close>

definition buffer_ok :: "buffer \<Rightarrow> nat \<Rightarrow> nat \<Rightarrow> bool" where
  "buffer_ok c uses frees \<longleftrightarrow>
     (case c of Live k \<Rightarrow> k = int uses \<and> frees = (if uses = 0 then 1 else 0) | _ \<Rightarrow> uses = 0 \<and> frees = 0)"

definition r_rank_ok :: "bool \<Rightarrow> nat \<Rightarrow> nat \<Rightarrow> nat \<Rightarrow> buffer \<Rightarrow> bool" where
  "r_rank_ok is_root pend calls runs c \<longleftrightarrow>
     pend + calls + runs = (if is_root then 0 else 1) \<and> (c \<noteq> No_buffer \<longrightarrow> pend = 0)"

definition r_inv :: "int \<Rightarrow> (int \<Rightarrow> int) \<Rightarrow> (int \<Rightarrow> int \<Rightarrow> bool) \<Rightarrow> int \<Rightarrow> rbcast \<Rightarrow> bool" where
  "r_inv n wr loc root s \<longleftrightarrow>
     (\<forall>x \<in># r_items s. r_ok n wr loc x) \<and>
     (\<forall>q. 0 \<le> q \<longrightarrow> q < n \<longrightarrow>
        r_rank_ok (q = root) (total (r_pend n q) (r_items s)) (total (r_call q) (r_items s)) (r_ran s q) (rdzv_refs s (wr q))) \<and>
     (\<forall>b. buffer_ok (rdzv_refs s b) (total (r_uses b) (r_items s)) (total (r_frees b) (r_items s)))"

lemma r_invI:
  assumes "\<forall>x \<in># r_items s. r_ok n wr loc x"
    and "\<And>q. 0 \<le> q \<Longrightarrow> q < n \<Longrightarrow>
        r_rank_ok (q = root) (total (r_pend n q) (r_items s)) (total (r_call q) (r_items s)) (r_ran s q) (rdzv_refs s (wr q))"
    and "\<And>b. buffer_ok (rdzv_refs s b) (total (r_uses b) (r_items s)) (total (r_frees b) (r_items s))"
  shows "r_inv n wr loc root s"
  using assms by (simp add: r_inv_def)

lemma r_invD:
  assumes "r_inv n wr loc root s" "r_items s = add_mset x M"
  shows "r_ok n wr loc x" "\<forall>y \<in># M. r_ok n wr loc y"
    "0 \<le> q \<Longrightarrow> q < n \<Longrightarrow> r_rank_ok (q = root) (r_pend n q x + total (r_pend n q) M) (r_call q x + total (r_call q) M)
       (r_ran s q) (rdzv_refs s (wr q))"
    "buffer_ok (rdzv_refs s b) (r_uses b x + total (r_uses b) M) (r_frees b x + total (r_frees b) M)"
  using assms(1) unfolding r_inv_def assms(2) by simp_all

lemma r_inv_live:
  assumes "r_inv n wr loc root s" "r_items s = add_mset x M" "0 < r_uses b x + r_frees b x"
  shows "rdzv_refs s b = Live (int (r_uses b x + total (r_uses b) M))"
  using r_invD(4)[OF assms(1,2), of b] assms(3) by (cases "rdzv_refs s b") (auto simp: buffer_ok_def)

subsection \<open>The launch of a loop\<close>

definition loop_of :: "int \<Rightarrow> int \<Rightarrow> int \<Rightarrow> ritem multiset" where
  "loop_of r ub b = (if rdzv_messages r ub = 0 then {#} else {#R_forward r ub b#})"

lemma bcast_rdzv_live:
  assumes "rdzv_refs s b = Live k" "owns \<Longrightarrow> k + int (rdzv_messages r ub) \<noteq> 0"
  shows "bcast_rdzv r ub b owns s =
    Some (s\<lparr>rdzv_refs := (rdzv_refs s)(b := Live (k + int (rdzv_messages r ub))), r_items := r_items s + loop_of r ub b\<rparr>)"
proof -
  have "(rdzv_refs s)(b := Live k) = rdzv_refs s" using assms(1) by auto
  then show ?thesis using assms by (auto simp: bcast_rdzv_def add_refs_def loop_of_def Let_def)
qed

lemma rdzv_messages_last: "in_team n r ub \<Longrightarrow> rdzv_mid r ub = r \<Longrightarrow> rdzv_messages r ub = 0"
  by (subst rdzv_messages.simps) simp

lemma rdzv_messages_turn: "in_team n r ub \<Longrightarrow> rdzv_mid r ub \<noteq> r \<Longrightarrow> rdzv_messages r ub = Suc (rdzv_messages r (rdzv_mid r ub))"
  by (subst rdzv_messages.simps) (simp add: Let_def in_team_def)

lemma rdzv_messages_0: "in_team n r ub \<Longrightarrow> rdzv_messages r ub = 0 \<Longrightarrow> cover n (r + 1) ub q = 0"
  using rdzv.last_cover[of n r ub q] rdzv_messages_turn[of n r ub] by fastforce

lemma loop_of_totals:
  assumes "in_team n r ub"
  shows "total (r_pend n q) (loop_of r ub b) = cover n (r + 1) ub q" "total (r_call q) (loop_of r ub b) = 0"
    "total (r_uses c) (loop_of r ub b) = (if c = b then rdzv_messages r ub else 0)" "total (r_frees c) (loop_of r ub b) = 0"
    "total r_work (loop_of r ub b) \<le> nat (10 * (ub - r) - 9)" "loc (wr r) b \<Longrightarrow> x \<in># loop_of r ub b \<Longrightarrow> r_ok n wr loc x"
  using assms rdzv_messages_0[OF assms, of q] by (auto simp: loop_of_def split: if_splits)

subsection \<open>Every action of the rendezvous\<close>

definition r_good :: "int \<Rightarrow> (int \<Rightarrow> int) \<Rightarrow> (int \<Rightarrow> int \<Rightarrow> bool) \<Rightarrow> int \<Rightarrow> ritem \<Rightarrow> rbcast \<Rightarrow> ritem multiset \<Rightarrow> bool" where
  "r_good n wr loc root x s M \<longleftrightarrow>
     (\<exists>s'. rdzv_act n wr loc x (s\<lparr>r_items := M\<rparr>) = Some s' \<and> r_inv n wr loc root s' \<and>
           total r_work (r_items s') < total r_work (add_mset x M))"

lemma r_goodI:
  assumes "rdzv_act n wr loc x (s\<lparr>r_items := M\<rparr>) = Some s'" "r_inv n wr loc root s'"
    "total r_work (r_items s') < total r_work (add_mset x M)"
  shows "r_good n wr loc root x s M"
  using assms unfolding r_good_def by blast

lemma rdzv_forward_good:
  assumes inv: "r_inv n wr loc root s" and s: "r_items s = add_mset (R_forward r ub b) M"
    and refl: "loc (wr r) (wr r)"
  shows "r_good n wr loc root (R_forward r ub b) s M"
proof -
  note d = r_invD[OF inv s]
  have r: "in_team n r ub" using d(1) by simp
  show ?thesis
  proof (cases "rdzv_mid r ub = r")
    case True
    have "r_inv n wr loc root (s\<lparr>r_items := M\<rparr>)"
    proof (rule r_invI)
      fix q
      assume "0 \<le> q" "q < n"
      then show "r_rank_ok (q = root) (total (r_pend n q) (r_items (s\<lparr>r_items := M\<rparr>))) (total (r_call q) (r_items (s\<lparr>r_items := M\<rparr>)))
          (r_ran (s\<lparr>r_items := M\<rparr>) q) (rdzv_refs (s\<lparr>r_items := M\<rparr>) (wr q))"
        using d(3)[of q] rdzv.last_cover[OF r True, of q] by simp
    next
      fix c
      show "buffer_ok (rdzv_refs (s\<lparr>r_items := M\<rparr>) c) (total (r_uses c) (r_items (s\<lparr>r_items := M\<rparr>))) (total (r_frees c) (r_items (s\<lparr>r_items := M\<rparr>)))"
        using d(4)[of c] rdzv_messages_last[OF r True] by (cases "c = b") simp_all
    qed (use d(2) in simp)
    then show ?thesis using True r by (intro r_goodI) (auto simp: in_team_def)
  next
    case False
    obtain lb sub where b: "sub_bounds n (rdzv_mid r ub) ub = (lb, sub)" by fastforce
    note sp = rdzv.split_ranges[OF r False b] and cv = rdzv.split_cover[OF r False b]
    let ?s = "s\<lparr>r_items := M + {#R_message lb sub (wr r) b, R_forward r (rdzv_mid r ub) b#}\<rparr>"
    have "r_inv n wr loc root ?s"
    proof (rule r_invI)
      fix q
      assume "0 \<le> q" "q < n"
      then show "r_rank_ok (q = root) (total (r_pend n q) (r_items ?s)) (total (r_call q) (r_items ?s)) (r_ran ?s q) (rdzv_refs ?s (wr q))"
        using d(3)[of q] cv[of q] by (simp add: ac_simps)
    next
      fix c
      show "buffer_ok (rdzv_refs ?s c) (total (r_uses c) (r_items ?s)) (total (r_frees c) (r_items ?s))"
        using d(4)[of c] rdzv_messages_turn[OF r False] by (cases "c = b") simp_all
    qed (use d(1,2) sp(1,2) in auto)
    moreover have "total r_work (r_items ?s) < total r_work (add_mset (R_forward r ub b) M)" using sp by simp
    ultimately show ?thesis using False b by (intro r_goodI[of _ _ _ _ _ _ ?s]) (auto simp: Let_def)
  qed
qed

lemma rdzv_message_local_good:
  assumes inv: "r_inv n wr loc root s" and s: "r_items s = add_mset (R_message r ub c b) M"
    and trans: "transp loc" and l: "loc (wr r) c"
  shows "r_good n wr loc root (R_message r ub c b) s M"
proof -
  note d = r_invD[OF inv s]
  have r: "in_team n r ub" and lb: "loc (wr r) b" using d(1) l transpD[OF trans] by auto
  define k where "k = int (Suc (total (r_uses b) M))"
  have k: "rdzv_refs s b = Live k" using r_inv_live[OF inv s, of b] by (simp add: k_def)
  have trv: "(rdzv_refs s)(b := Live k) = rdzv_refs s" using k by auto
  let ?s = "s\<lparr>rdzv_refs := (rdzv_refs s)(b := Live (k + int (rdzv_messages r ub))), r_items := M + loop_of r ub b + {#R_rpc r b True#}\<rparr>"
  have "rdzv_act n wr loc (R_message r ub c b) (s\<lparr>r_items := M\<rparr>) = Some ?s"
    using l lb k by (simp add: add_refs_def bcast_rdzv_live[of _ b k] trv)
  moreover have "r_inv n wr loc root ?s"
  proof (rule r_invI)
    fix q
    assume "0 \<le> q" "q < n"
    then show "r_rank_ok (q = root) (total (r_pend n q) (r_items ?s)) (total (r_call q) (r_items ?s)) (r_ran ?s q) (rdzv_refs ?s (wr q))"
      using d(3)[of q] k by (auto simp: loop_of_totals[OF r] cover_rank[OF r] r_rank_ok_def)
  next
    fix e
    show "buffer_ok (rdzv_refs ?s e) (total (r_uses e) (r_items ?s)) (total (r_frees e) (r_items ?s))"
      using d(4)[of e] k by (cases "e = b") (simp_all add: loop_of_totals[OF r] buffer_ok_def k_def)
  qed (use d(2) loop_of_totals(6)[OF r, of loc wr b] r lb in \<open>auto simp: in_team_def\<close>)
  moreover have "total r_work (r_items ?s) < total r_work (add_mset (R_message r ub c b) M)"
    using loop_of_totals(5)[OF r, of b] r by (simp add: in_team_def) arith
  ultimately show ?thesis by (rule r_goodI)
qed

lemma rdzv_message_remote_good:
  assumes inv: "r_inv n wr loc root s" and s: "r_items s = add_mset (R_message r ub c b) M" and l: "\<not> loc (wr r) c"
  shows "r_good n wr loc root (R_message r ub c b) s M"
proof -
  note d = r_invD[OF inv s]
  have r: "in_team n r ub" using d(1) by auto
  let ?s = "s\<lparr>r_items := M + {#R_get r ub b#}\<rparr>"
  have "r_inv n wr loc root ?s"
    using d by (intro r_invI) auto
  then show ?thesis using l r by (intro r_goodI) (auto simp: in_team_def)
qed

lemma rdzv_get_good:
  assumes inv: "r_inv n wr loc root s" and s: "r_items s = add_mset (R_get r ub b) M"
    and inj: "inj_on wr {0..<n}" and refl: "loc (wr r) (wr r)"
  shows "r_good n wr loc root (R_get r ub b) s M"
proof -
  note d = r_invD[OF inv s]
  have r: "in_team n r ub" using d(1) by auto
  then have r': "0 \<le> r" "r < n" by (auto simp: in_team_def)
  obtain k where k: "rdzv_refs s b = Live k" using r_inv_live[OF inv s, of b] by auto
  have nb: "rdzv_refs s (wr r) = No_buffer" using d(3)[OF r'] by (auto simp: r_rank_ok_def cover_rank[OF r])
  then have bn: "b \<noteq> wr r" using k by auto
  let ?m = "int (rdzv_messages r ub)"
  let ?s = "s\<lparr>rdzv_refs := (rdzv_refs s)(wr r := Live (1 + ?m)), r_items := M + loop_of r ub (wr r) + {#R_rpc r (wr r) False, R_dec b#}\<rparr>"
  have "(rdzv_refs s)(b := Live k) = rdzv_refs s" using k by auto
  then have "rdzv_act n wr loc (R_get r ub b) (s\<lparr>r_items := M\<rparr>) = Some ?s"
    using k by (simp add: add_refs_def bcast_rdzv_live[of _ "wr r" 1])
  moreover have "r_inv n wr loc root ?s"
  proof (rule r_invI)
    fix q
    assume q: "0 \<le> q" "q < n"
    have "q \<noteq> r \<Longrightarrow> wr q \<noteq> wr r" using inj r' q by (auto simp: inj_on_def)
    then show "r_rank_ok (q = root) (total (r_pend n q) (r_items ?s)) (total (r_call q) (r_items ?s)) (r_ran ?s q) (rdzv_refs ?s (wr q))"
      using d(3)[OF q] by (cases "q = r") (auto simp: loop_of_totals[OF r] cover_rank[OF r] r_rank_ok_def split: if_splits)
  next
    fix e
    show "buffer_ok (rdzv_refs ?s e) (total (r_uses e) (r_items ?s)) (total (r_frees e) (r_items ?s))"
      using d(4)[of e] nb bn by (cases "e = wr r"; cases "e = b") (auto simp: loop_of_totals[OF r] buffer_ok_def)
  qed (use d(2) loop_of_totals(6)[OF r, of loc wr "wr r"] r refl in \<open>auto simp: in_team_def\<close>)
  moreover have "total r_work (r_items ?s) < total r_work (add_mset (R_get r ub b) M)"
    using loop_of_totals(5)[OF r, of "wr r"] r by (simp add: in_team_def) arith
  ultimately show ?thesis by (rule r_goodI)
qed

text \<open>A reference that is given up: the count goes down, and a count of 0 leads to one request to free the buffer, or to its end.\<close>

lemma drop_ref_inv:
  assumes ok: "\<forall>x \<in># M. r_ok n wr loc x"
    and ranks: "\<And>q. 0 \<le> q \<Longrightarrow> q < n \<Longrightarrow> r_rank_ok (q = root) (total (r_pend n q) M) (total (r_call q) M) (rn q) (rdzv_refs s (wr q))"
    and bufs: "\<And>c. buffer_ok (rdzv_refs s c) ((if c = b then 1 else 0) + total (r_uses c) M) (total (r_frees c) M)"
  shows "\<exists>k. rdzv_refs s b = Live k \<and>
    (k - 1 \<noteq> 0 \<longrightarrow> r_inv n wr loc root (s\<lparr>r_items := M, r_ran := rn, rdzv_refs := (rdzv_refs s)(b := Live (k - 1))\<rparr>)) \<and>
    (k - 1 = 0 \<longrightarrow> r_inv n wr loc root (s\<lparr>r_items := add_mset (R_dealloc b) M, r_ran := rn, rdzv_refs := (rdzv_refs s)(b := Live (k - 1))\<rparr>)
                \<and> r_inv n wr loc root (s\<lparr>r_items := M, r_ran := rn, rdzv_refs := (rdzv_refs s)(b := Freed)\<rparr>))"
proof -
  define k where "k = int (Suc (total (r_uses b) M))"
  have k: "rdzv_refs s b = Live k" using bufs[of b] by (cases "rdzv_refs s b") (auto simp: buffer_ok_def k_def)
  have w: "r_rank_ok (q = root) (total (r_pend n q) M) (total (r_call q) M) (rn q) (if wr q = b then c else rdzv_refs s (wr q))"
    if "0 \<le> q" "q < n" for q c using ranks[OF that] k by (auto simp: r_rank_ok_def)
  have other: "buffer_ok (rdzv_refs s c) (total (r_uses c) M) (total (r_frees c) M)" if "c \<noteq> b" for c
    using bufs[of c] that by simp
  have frees: "total (r_frees b) M = 0" using bufs[of b] by (auto simp: buffer_ok_def k)
  have new: "r_inv n wr loc root (s\<lparr>r_items := N, r_ran := rn, rdzv_refs := (rdzv_refs s)(b := c)\<rparr>)"
    if N: "N = M \<or> N = add_mset (R_dealloc b) M" and c: "buffer_ok c (total (r_uses b) N) (total (r_frees b) N)" for N c
  proof (rule r_invI)
    fix q
    assume "0 \<le> q" "q < n"
    from w[OF this, of c] N
    show "r_rank_ok (q = root) (total (r_pend n q) (r_items (s\<lparr>r_items := N, r_ran := rn, rdzv_refs := (rdzv_refs s)(b := c)\<rparr>)))
        (total (r_call q) (r_items (s\<lparr>r_items := N, r_ran := rn, rdzv_refs := (rdzv_refs s)(b := c)\<rparr>)))
        (r_ran (s\<lparr>r_items := N, r_ran := rn, rdzv_refs := (rdzv_refs s)(b := c)\<rparr>) q)
        (rdzv_refs (s\<lparr>r_items := N, r_ran := rn, rdzv_refs := (rdzv_refs s)(b := c)\<rparr>) (wr q))"
      by auto
  next
    fix e
    show "buffer_ok (rdzv_refs (s\<lparr>r_items := N, r_ran := rn, rdzv_refs := (rdzv_refs s)(b := c)\<rparr>) e)
        (total (r_uses e) (r_items (s\<lparr>r_items := N, r_ran := rn, rdzv_refs := (rdzv_refs s)(b := c)\<rparr>)))
        (total (r_frees e) (r_items (s\<lparr>r_items := N, r_ran := rn, rdzv_refs := (rdzv_refs s)(b := c)\<rparr>)))"
      using other[of e] c N by (cases "e = b") auto
  qed (use ok N in auto)
  show ?thesis
    using k frees by (intro exI[of _ k] conjI impI new) (auto simp: buffer_ok_def k_def)
qed

lemma rbcast_items_first:
  fixes s :: rbcast
  shows "s\<lparr>r_ran := x, rdzv_refs := y, r_items := z\<rparr> = s\<lparr>r_items := z, r_ran := x, rdzv_refs := y\<rparr>"
  by simp

lemma rdzv_rpc_good:
  assumes inv: "r_inv n wr loc root s" and s: "r_items s = add_mset (R_rpc r b l) M"
  shows "r_good n wr loc root (R_rpc r b l) s M"
proof -
  note d = r_invD[OF inv s]
  let ?ran = "(r_ran s)(r := r_ran s r + 1)"
  have "r_rank_ok (q = root) (total (r_pend n q) M) (total (r_call q) M) (?ran q) (rdzv_refs s (wr q))" if "0 \<le> q" "q < n" for q
    using d(3)[OF that] by (auto simp: r_rank_ok_def)
  moreover have "buffer_ok (rdzv_refs s c) ((if c = b then 1 else 0) + total (r_uses c) M) (total (r_frees c) M)" for c
    using d(4)[of c] by (cases "c = b") auto
  ultimately obtain k where k: "rdzv_refs s b = Live k"
    "k - 1 \<noteq> 0 \<Longrightarrow> r_inv n wr loc root (s\<lparr>r_items := M, r_ran := ?ran, rdzv_refs := (rdzv_refs s)(b := Live (k - 1))\<rparr>)"
    "k - 1 = 0 \<Longrightarrow> r_inv n wr loc root (s\<lparr>r_items := add_mset (R_dealloc b) M, r_ran := ?ran, rdzv_refs := (rdzv_refs s)(b := Live (k - 1))\<rparr>)"
    "k - 1 = 0 \<Longrightarrow> r_inv n wr loc root (s\<lparr>r_items := M, r_ran := ?ran, rdzv_refs := (rdzv_refs s)(b := Freed)\<rparr>)"
    using drop_ref_inv[of M n wr loc root ?ran s b] d(2) by blast
  show ?thesis
    by (cases "k - 1 = 0"; cases l)
       (use k in \<open>simp_all add: r_good_def add_refs_def dealloc_def rdzv_cleanup_def rbcast_items_first\<close>)
qed

lemma rdzv_dec_good:
  assumes inv: "r_inv n wr loc root s" and s: "r_items s = add_mset (R_dec b) M"
  shows "r_good n wr loc root (R_dec b) s M"
proof -
  note d = r_invD[OF inv s]
  have "r_rank_ok (q = root) (total (r_pend n q) M) (total (r_call q) M) (r_ran s q) (rdzv_refs s (wr q))" if "0 \<le> q" "q < n" for q
    using d(3)[OF that] by simp
  moreover have "buffer_ok (rdzv_refs s c) ((if c = b then 1 else 0) + total (r_uses c) M) (total (r_frees c) M)" for c
    using d(4)[of c] by (cases "c = b") auto
  ultimately obtain k where k: "rdzv_refs s b = Live k"
    "k - 1 \<noteq> 0 \<Longrightarrow> r_inv n wr loc root (s\<lparr>r_items := M, r_ran := r_ran s, rdzv_refs := (rdzv_refs s)(b := Live (k - 1))\<rparr>)"
    "k - 1 = 0 \<Longrightarrow> r_inv n wr loc root (s\<lparr>r_items := M, r_ran := r_ran s, rdzv_refs := (rdzv_refs s)(b := Freed)\<rparr>)"
    using drop_ref_inv[of M n wr loc root "r_ran s" s b] d(2) by blast
  show ?thesis
    by (cases "k - 1 = 0") (use k in \<open>simp_all add: r_good_def add_refs_def dealloc_def\<close>)
qed

lemma rdzv_dealloc_good:
  assumes inv: "r_inv n wr loc root s" and s: "r_items s = add_mset (R_dealloc b) M"
  shows "r_good n wr loc root (R_dealloc b) s M"
proof -
  note d = r_invD[OF inv s]
  obtain k where k: "rdzv_refs s b = Live k" "total (r_uses b) M = 0" "total (r_frees b) M = 0"
    using d(4)[of b] by (cases "rdzv_refs s b") (auto simp: buffer_ok_def split: if_splits)
  have "r_inv n wr loc root (s\<lparr>r_items := M, rdzv_refs := (rdzv_refs s)(b := Freed)\<rparr>)" (is "r_inv _ _ _ _ ?s")
  proof (rule r_invI)
    fix q
    assume "0 \<le> q" "q < n"
    from d(3)[OF this] k(1) show "r_rank_ok (q = root) (total (r_pend n q) (r_items ?s)) (total (r_call q) (r_items ?s)) (r_ran ?s q) (rdzv_refs ?s (wr q))"
      by (auto simp: r_rank_ok_def)
  next
    fix e
    show "buffer_ok (rdzv_refs ?s e) (total (r_uses e) (r_items ?s)) (total (r_frees e) (r_items ?s))"
      using d(4)[of e] k by (cases "e = b") (auto simp: buffer_ok_def)
  qed (use d(2) in simp)
  then show ?thesis using k(1) by (simp add: r_good_def dealloc_def)
qed

lemma rdzv_act_good:
  assumes inv: "r_inv n wr loc root s" and s: "r_items s = add_mset x M"
    and inj: "inj_on wr {0..<n}" and refl: "reflp loc" and trans: "transp loc"
  shows "r_good n wr loc root x s M"
proof (cases x)
  case (R_message r ub c b)
  show ?thesis
  proof (cases "loc (wr r) c")
    case True
    show ?thesis using rdzv_message_local_good[OF inv s[unfolded R_message] trans True] unfolding R_message .
  next
    case False
    show ?thesis using rdzv_message_remote_good[OF inv s[unfolded R_message] False] unfolding R_message .
  qed
next
  case (R_get r ub b)
  show ?thesis using rdzv_get_good[OF inv s[unfolded R_get] inj reflpD[OF refl]] unfolding R_get .
next
  case (R_forward r ub b)
  show ?thesis using rdzv_forward_good[OF inv s[unfolded R_forward] reflpD[OF refl]] unfolding R_forward .
next
  case (R_rpc r b l)
  show ?thesis using rdzv_rpc_good[OF inv s[unfolded R_rpc]] unfolding R_rpc .
next
  case (R_dec b)
  show ?thesis using rdzv_dec_good[OF inv s[unfolded R_dec]] unfolding R_dec .
next
  case (R_dealloc b)
  show ?thesis using rdzv_dealloc_good[OF inv s[unfolded R_dealloc]] unfolding R_dealloc .
qed

lemma rdzv_start_inv:
  assumes root: "0 \<le> root" "root < n" and inj: "inj_on wr {0..<n}" and refl: "reflp loc"
  shows "\<exists>s. rdzv_start n wr root = Some s \<and> r_inv n wr loc root s \<and> total r_work (r_items s) \<le> nat (10 * n - 9)"
proof -
  have r: "in_team n root (root + n)" using root by (simp add: in_team_def)
  let ?b = "wr root" and ?m = "rdzv_messages root (root + n)"
  have wr: "q \<noteq> root \<Longrightarrow> wr q \<noteq> ?b" if "0 \<le> q" "q < n" for q using inj root that by (auto simp: inj_on_def)
  show ?thesis
  proof (cases "?m = 0")
    case True
    let ?s = "\<lparr>r_items = {#}, rdzv_refs = (\<lambda>_. No_buffer)(?b := Freed), r_ran = (\<lambda>_. 0)\<rparr>"
    have "q = root" if "0 \<le> q" "q < n" for q
      using rdzv_messages_0[OF r True, of q] cover_all_others[OF root that] by (auto split: if_splits)
    then have "r_inv n wr loc root ?s" by (intro r_invI) (auto simp: r_rank_ok_def buffer_ok_def)
    moreover have "rdzv_start n wr root = Some ?s"
      using True by (simp add: rdzv_start_def bcast_rdzv_def add_refs_def dealloc_def Let_def fun_upd_twist)
    ultimately show ?thesis by simp
  next
    case False
    let ?s = "\<lparr>r_items = loop_of root (root + n) ?b, rdzv_refs = (\<lambda>_. No_buffer)(?b := Live (int ?m)), r_ran = (\<lambda>_. 0)\<rparr>"
    have "rdzv_start n wr root = Some ?s"
      using False by (simp add: rdzv_start_def bcast_rdzv_live[of _ ?b 0])
    moreover have "r_inv n wr loc root ?s"
    proof (rule r_invI)
      fix q
      assume q: "0 \<le> q" "q < n"
      then show "r_rank_ok (q = root) (total (r_pend n q) (r_items ?s)) (total (r_call q) (r_items ?s)) (r_ran ?s q) (rdzv_refs ?s (wr q))"
        using wr[OF q] by (auto simp: r_rank_ok_def loop_of_totals[OF r] cover_all_others[OF root q])
    next
      fix b
      show "buffer_ok (rdzv_refs ?s b) (total (r_uses b) (r_items ?s)) (total (r_frees b) (r_items ?s))"
        using False by (auto simp: buffer_ok_def loop_of_totals[OF r])
    qed (use loop_of_totals(6)[OF r, of loc wr ?b] reflpD[OF refl] in auto)
    ultimately show ?thesis using loop_of_totals(5)[OF r, of ?b] by auto
  qed
qed

definition r_inv_team :: "int \<Rightarrow> (int \<Rightarrow> int) \<Rightarrow> (int \<Rightarrow> int \<Rightarrow> bool) \<Rightarrow> int \<Rightarrow> rbcast \<Rightarrow> bool" where
  "r_inv_team n wr loc root s \<longleftrightarrow> r_inv n wr loc root s \<and> inj_on wr {0..<n} \<and> reflp loc \<and> transp loc"

lemma rdzv_act_team:
  assumes "r_inv_team n wr loc root s" "x \<in># r_items s"
  shows "\<exists>t. rdzv_act n wr loc x (s\<lparr>r_items := r_items s - {#x#}\<rparr>) = Some t \<and> r_inv_team n wr loc root t \<and>
    total r_work (r_items t) < total r_work (r_items s)"
proof -
  have "r_items s = add_mset x (r_items s - {#x#})" using assms(2) by simp
  then show ?thesis
    using rdzv_act_good[of n wr loc root s x "r_items s - {#x#}"] assms(1) by (auto simp: r_inv_team_def r_good_def)
qed

interpretation rdzv_pool: live "rdzv_step n wr loc" "r_inv_team n wr loc root" "\<lambda>s. total r_work (r_items s)" "\<lambda>s. r_items s = {#}"
  for n wr loc root
proof
  show "r_inv_team n wr loc root t \<and> total r_work (r_items t) < total r_work (r_items s)"
    if "r_inv_team n wr loc root s" "rdzv_step n wr loc s t" for s t
    using that(2) rdzv_act_team[OF that(1)] by (fastforce elim: rdzv_stepE)
  show "\<exists>t. rdzv_step n wr loc s t" if i: "r_inv_team n wr loc root s" and ne: "r_items s \<noteq> {#}" for s
  proof -
    obtain x where "x \<in># r_items s" using ne by (rule multiset_nonemptyE)
    with rdzv_act_team[OF i this] show ?thesis by (auto intro: rdzv_step.intros)
  qed
qed

text \<open>
  (C3) The broadcast by rendezvous. The call at the root does not fail, and from there, whatever the order in which
  messages arrive, gets finish, loops send and calls run: nothing under way touches a buffer that was freed or never
  allocated (no action fails), the run is at most \<open>10 n - 9\<close> steps long, and when nothing is left under
  way every rank but the root has run the call exactly once and no buffer is still allocated. \<open>wr\<close> tells apart the
  members of the team, and being on one node is reflexive and transitive.
\<close>

theorem bcast_rdzv_correct:
  assumes "0 \<le> root" "root < n" "inj_on wr {0..<n}" "reflp loc" "transp loc"
  shows "\<exists>s0. rdzv_start n wr root = Some s0 \<and>
    (\<forall>k s. (rdzv_step n wr loc ^^ k) s0 s \<longrightarrow>
       int k \<le> 10 * n - 9 \<and>
       (\<forall>x \<in># r_items s. \<exists>t. rdzv_act n wr loc x (s\<lparr>r_items := r_items s - {#x#}\<rparr>) = Some t) \<and>
       (r_items s = {#} \<longrightarrow>
          (\<forall>q. 0 \<le> q \<longrightarrow> q < n \<longrightarrow> r_ran s q = (if q = root then 0 else 1)) \<and>
          (\<forall>b k. rdzv_refs s b \<noteq> Live k)))"
proof -
  obtain s0 where s0: "rdzv_start n wr root = Some s0" "r_inv n wr loc root s0" "total r_work (r_items s0) \<le> nat (10 * n - 9)"
    using rdzv_start_inv[OF assms(1-4)] by blast
  then have "r_inv_team n wr loc root s0" using assms(3-5) by (simp add: r_inv_team_def)
  then have run: "r_inv_team n wr loc root s \<and> k + total r_work (r_items s) \<le> total r_work (r_items s0)"
    if "(rdzv_step n wr loc ^^ k) s0 s" for k s using rdzv_pool.run_bounded[OF that] by blast
  have "int k \<le> 10 * n - 9" if "(rdzv_step n wr loc ^^ k) s0 s" for k s
    using run[OF that] s0(3) assms(1,2) by linarith
  moreover have "\<exists>t. rdzv_act n wr loc x (s\<lparr>r_items := r_items s - {#x#}\<rparr>) = Some t"
    if "(rdzv_step n wr loc ^^ k) s0 s" "x \<in># r_items s" for k s x
    using rdzv_act_team[OF conjunct1[OF run[OF that(1)]] that(2)] by blast
  moreover have "r_ran s q = (if q = root then 0 else 1)"
    if "(rdzv_step n wr loc ^^ k) s0 s" "r_items s = {#}" "0 \<le> q" "q < n" for k s q
    using run[OF that(1)] that(2-4) by (auto simp: r_inv_team_def r_inv_def r_rank_ok_def)
  moreover have "rdzv_refs s b \<noteq> Live c" if "(rdzv_step n wr loc ^^ k) s0 s" "r_items s = {#}" for k s b c
    proof
    assume "rdzv_refs s b = Live c"
    moreover have "buffer_ok (rdzv_refs s b) 0 0" using run[OF that(1)] that(2) by (simp add: r_inv_team_def r_inv_def)
    ultimately show False by (simp add: buffer_ok_def)
  qed
  ultimately show ?thesis using s0(1) by blast
qed

theorem bcast_rdzv_correct_witness:
  "\<exists>s0. rdzv_start 5 (\<lambda>r. 10 + 3 * r) 2 = Some s0 \<and>
     (\<forall>k s. (rdzv_step 5 (\<lambda>r. 10 + 3 * r) (\<lambda>a b. a div 4 = b div 4) ^^ k) s0 s \<longrightarrow> int k \<le> 41)"
proof -
  have "reflp (\<lambda>a b. a div 4 = b div (4 :: int))" "transp (\<lambda>a b. a div 4 = b div (4 :: int))"
    by (auto intro: reflpI transpI)
  moreover have "inj_on (\<lambda>r. 10 + 3 * r) {0..<5 :: int}" by (auto simp: inj_on_def)
  ultimately show ?thesis
    using bcast_rdzv_correct[of 2 5 "\<lambda>r. 10 + 3 * r" "\<lambda>a b. a div 4 = b div 4"] by fastforce
qed

end
