(* ===== verification/Reduce.thy ===== *)
theory Reduce
  imports Prelude "HOL-Library.Multiset" "HOL-Library.Monad_Syntax"
begin

unbundle bit_operations_syntax

text \<open>
  Component reductions of nontrivial types (src/reduce.hpp, \<open>reduce_state\<close>): one collective over a team of
  \<open>rank_n\<close> ranks, in which every rank contributes a value and the contributions climb a binomial tree to
  the root. The machine is a pool of what is under way: calls that the ranks have yet to make, contributions
  sent to a parent, and results sent by the root; any element may act next. A result \<open>None\<close> is an access to a
  state or a completion that does not exist, or a shift out of the range of a rank.
\<close>

subsection \<open>The tree\<close>

text \<open>Indexes in which the root is 0, and back.\<close>

definition rank_index :: "int \<Rightarrow> int \<Rightarrow> int \<Rightarrow> int" where
  "rank_index rank_n root r = (let rank_me = r - root in rank_me + (if rank_me < 0 then rank_n else 0))"

definition index_rank :: "int \<Rightarrow> int \<Rightarrow> int \<Rightarrow> int" where
  "index_rank rank_n root i = (let parent = i + root in parent - (if rank_n \<le> parent then rank_n else 0))"

definition parent_index :: "int \<Rightarrow> int" where
  "parent_index rank_me = rank_me AND (rank_me - 1)"

text \<open>The loop that counts the children; \<open>intrank_t(1) << incoming\<close> is defined for \<open>incoming\<close> below 31.\<close>

function count_incoming :: "int \<Rightarrow> int \<Rightarrow> nat \<Rightarrow> nat option" where
  "count_incoming rank_n rank_me incoming =
     (if 31 \<le> incoming then None
      else let child = rank_me OR push_bit incoming 1
           in if child = rank_me \<or> rank_n \<le> child then Some incoming
              else count_incoming rank_n rank_me (incoming + 1))"
  by pat_completeness auto
termination by (relation "measure (\<lambda>(_, _, i). 31 - i)") auto

declare count_incoming.simps [simp del]

subsection \<open>The state\<close>

record 'a reduce_state =
  rs_incoming :: int
  rs_accum :: 'a
  rs_cxs :: bool

text \<open>
  A call of the collective that rank \<open>r\<close> has yet to make, a contribution of \<open>c\<close> on its way to \<open>r\<close>, and the result
  on its way to \<open>r\<close>.
\<close>

datatype 'a rditem = Rd_enter int | Rd_contribute int int 'a | Rd_result int 'a

text \<open>
  The entry of the collective's id in the registry of each rank, and the values with which the completions of a rank
  were fired. \<open>rd_taken\<close> is history: the ranks whose contributions a rank has taken in.
\<close>

record 'a reduction =
  rd_items :: "'a rditem multiset"
  rd_registry :: "int \<rightharpoonup> 'a reduce_state"
  rd_done :: "int \<Rightarrow> 'a list"
  rd_taken :: "int \<Rightarrow> int set"

text \<open>\<open>cxs_st_raw.value()\<close> with its event, and the end of the state.\<close>

definition fire :: "int \<Rightarrow> 'a reduce_state \<Rightarrow> 'a \<Rightarrow> 'a reduction \<Rightarrow> 'a reduction option" where
  "fire r st x s =
     (if rs_cxs st
      then Some (s\<lparr>rd_done := (rd_done s)(r := rd_done s r @ [x]), rd_registry := (rd_registry s)(r := None)\<rparr>)
      else None)"

text \<open>The ranks that \<open>bcast_am_master\<close> reaches from \<open>r\<close>.\<close>

definition results_from :: "int \<Rightarrow> int \<Rightarrow> 'a \<Rightarrow> 'a rditem multiset" where
  "results_from rank_n r x = mset (map (\<lambda>q. Rd_result q x) (filter (\<lambda>q. q \<noteq> r) [0..rank_n - 1]))"

subsection \<open>reduce\_state::contribute\<close>

text \<open>The state of the first contribution and of a later one.\<close>

definition take_in :: "int \<Rightarrow> ('a \<Rightarrow> 'a \<Rightarrow> 'a) \<Rightarrow> int \<Rightarrow> 'a \<Rightarrow> 'a reduce_state option \<Rightarrow> 'a reduce_state option" where
  "take_in rank_n op rank_me x entry =
     (case entry of
        None \<Rightarrow> do { k \<leftarrow> count_incoming rank_n rank_me 0; Some \<lparr>rs_incoming = int k + 1, rs_accum = x, rs_cxs = False\<rparr> }
      | Some st \<Rightarrow> Some (st\<lparr>rs_accum := op (rs_accum st) x\<rparr>))"

definition finish :: "bool \<Rightarrow> int \<Rightarrow> int \<Rightarrow> int \<Rightarrow> 'a reduce_state \<Rightarrow> 'a reduction \<Rightarrow> 'a reduction option" where
  "finish one_not_all rank_n root r st s =
     (let rank_me = rank_index rank_n root r
      in if rank_me = 0
         then fire r st (rs_accum st)
                (if one_not_all then s else s\<lparr>rd_items := rd_items s + results_from rank_n r (rs_accum st)\<rparr>)
         else let parent = index_rank rank_n root (parent_index rank_me);
                  s = s\<lparr>rd_items := rd_items s + {#Rd_contribute r parent (rs_accum st)#}\<rparr>
              in if one_not_all then fire r st (rs_accum st) s
                 else Some s)"

definition contribute ::
  "bool \<Rightarrow> int \<Rightarrow> ('a \<Rightarrow> 'a \<Rightarrow> 'a) \<Rightarrow> int \<Rightarrow> int \<Rightarrow> int \<Rightarrow> 'a \<Rightarrow> 'a reduction \<Rightarrow> 'a reduction option" where
  "contribute one_not_all rank_n op root c r x s =
     do { st \<leftarrow> take_in rank_n op (rank_index rank_n root r) x (rd_registry s r);
          let st = st\<lparr>rs_cxs := rs_cxs st \<or> c = r, rs_incoming := rs_incoming st - 1\<rparr>;
              s = s\<lparr>rd_registry := (rd_registry s)(r \<mapsto> st), rd_taken := (rd_taken s)(r := insert c (rd_taken s r))\<rparr>
          in if rs_incoming st = 0 then finish one_not_all rank_n root r st s else Some s }"

text \<open>A rank's own call contributes its value \<open>v r\<close> and brings the completion; a child's contribution brings none.\<close>

fun reduce_act ::
  "bool \<Rightarrow> int \<Rightarrow> ('a \<Rightarrow> 'a \<Rightarrow> 'a) \<Rightarrow> int \<Rightarrow> (int \<Rightarrow> 'a) \<Rightarrow> 'a rditem \<Rightarrow> 'a reduction \<Rightarrow> 'a reduction option" where
  "reduce_act one n op root v (Rd_enter r) s = contribute one n op root r r (v r) s"
| "reduce_act one n op root v (Rd_contribute c r x) s = contribute one n op root c r x s"
| "reduce_act one n op root v (Rd_result r x) s = do { st \<leftarrow> rd_registry s r; fire r st x s }"

definition reduce_start :: "int \<Rightarrow> 'a reduction" where
  "reduce_start rank_n =
     \<lparr>rd_items = mset (map Rd_enter [0..rank_n - 1]), rd_registry = (\<lambda>_. None), rd_done = (\<lambda>_. []), rd_taken = (\<lambda>_. {})\<rparr>"

inductive reduce_step ::
  "bool \<Rightarrow> int \<Rightarrow> ('a \<Rightarrow> 'a \<Rightarrow> 'a) \<Rightarrow> int \<Rightarrow> (int \<Rightarrow> 'a) \<Rightarrow> 'a reduction \<Rightarrow> 'a reduction \<Rightarrow> bool"
  for one n op root v where
  "x \<in># rd_items s \<Longrightarrow> reduce_act one n op root v x (s\<lparr>rd_items := rd_items s - {#x#}\<rparr>) = Some s' \<Longrightarrow>
   reduce_step one n op root v s s'"

inductive_cases reduce_stepE: "reduce_step one n op root v s s'"

end
