(* ===== verification/Reduce_Tree.thy ===== *)
theory Reduce_Tree
  imports Reduce
begin

text \<open>
  The tree of the reduction: clearing the lowest bit of an index leads to its parent, the loop of \<open>contribute\<close> counts the
  children, and the subtrees of the children of an index partition its own subtree.
\<close>

subsection \<open>Clearing the lowest bit\<close>

lemma and_double: "(2 * a) AND (2 * b + 1) = 2 * (a AND (b :: int))"
proof (rule bit_eqI)
  fix k
  show "bit ((2 * a) AND (2 * b + 1)) k \<longleftrightarrow> bit (2 * (a AND b)) k"
    unfolding bit_and_iff by (cases k) (simp_all add: bit_0 bit_Suc bit_and_iff)
qed

lemma lowest_bit:
  fixes c :: int
  assumes "0 < c"
  obtains k m where "c = 2 ^ k * (2 * m + 1)" "0 \<le> m"
  using assms
proof (induction "nat c" arbitrary: c thesis rule: less_induct)
  case less
  show ?case
  proof (cases "even c")
    case True
    then obtain d where d: "c = 2 * d" by blast
    with less.prems have "0 < d" "nat d < nat c" by auto
    then obtain k m where "d = 2 ^ k * (2 * m + 1)" "0 \<le> m" using less.hyps[of d] by blast
    then show ?thesis using less.prems(1)[of "Suc k" m] d by simp
  next
    case False
    then obtain m where "c = 2 * m + 1" by (auto elim: oddE)
    then show ?thesis using less.prems(1)[of 0 m] less.prems(2) by simp
  qed
qed

lemma parent_index_lowest: "0 \<le> m \<Longrightarrow> parent_index (2 ^ k * (2 * m + 1)) = 2 ^ Suc k * m"
proof (induction k)
  case 0
  have "(2 * m) AND (2 * m + 1) = 2 * (m AND m)" by (rule and_double)
  then show ?case by (simp add: parent_index_def and.commute)
next
  case (Suc k)
  let ?x = "2 ^ k * (2 * m + 1)"
  have "parent_index (2 ^ Suc k * (2 * m + 1)) = (2 * ?x) AND (2 * (?x - 1) + 1)"
    by (simp add: parent_index_def algebra_simps)
  also have "\<dots> = 2 * parent_index ?x" unfolding and_double parent_index_def ..
  finally show ?case using Suc by simp
qed

lemma parent_index_bounds: "0 < c \<Longrightarrow> 0 \<le> parent_index c \<and> parent_index c < c"
proof -
  assume "0 < c"
  then obtain k m where c: "c = 2 ^ k * (2 * m + 1)" "0 \<le> m" by (rule lowest_bit)
  then show ?thesis unfolding c(1) parent_index_lowest[OF c(2)] by (simp add: algebra_simps)
qed

subsection \<open>The number of children\<close>

lemma or_bit: "i OR push_bit k 1 = (if bit i k then i else i + 2 ^ k)" for i :: int
proof (cases "bit i k")
  case True
  then have "i OR push_bit k 1 = i" by (intro bit_eqI) (auto simp: bit_simps)
  then show ?thesis using True by simp
next
  case False
  then have "i AND push_bit k 1 = 0" by (intro bit_eqI) (auto simp: bit_simps)
  then show ?thesis using False disjunctive_add_eq_or[of i "push_bit k 1"] by (simp add: push_bit_eq_mult)
qed

definition stops :: "int \<Rightarrow> int \<Rightarrow> nat \<Rightarrow> bool" where
  "stops n i k \<longleftrightarrow> bit i k \<or> n \<le> i + 2 ^ k"

lemma count_incoming_rec:
  "count_incoming n i k = (if 31 \<le> k then None else if stops n i k then Some k else count_incoming n i (Suc k))"
  by (subst count_incoming.simps) (auto simp: Let_def or_bit stops_def simp del: push_bit_of_1)

lemma count_incoming_least:
  assumes "stops n i k" "\<And>j. a \<le> j \<Longrightarrow> j < k \<Longrightarrow> \<not> stops n i j" "a \<le> k" "k < 31"
  shows "count_incoming n i a = Some k"
  using assms(2,3)
proof (induction "k - a" arbitrary: a)
  case 0
  then show ?case using assms(1,4) by (subst count_incoming_rec) auto
next
  case (Suc d)
  then have "count_incoming n i (Suc a) = Some k" by (intro Suc.hyps(1)) auto
  then show ?case using Suc assms(4) by (subst count_incoming_rec) auto
qed

lemma bit_multiple: "bit (2 ^ Suc k * m) j \<Longrightarrow> k < j" for m :: int
  by (metis bit_push_bit_iff mult.commute not_less_eq_eq not_le push_bit_eq_mult Suc_le_eq)

lemma no_bits_below: "(\<And>j. j < k \<Longrightarrow> \<not> bit i j) \<Longrightarrow> 2 ^ k dvd i" for i :: int
proof -
  assume "\<And>j. j < k \<Longrightarrow> \<not> bit i j"
  then have "take_bit k i = 0" by (intro bit_eqI) (auto simp: bit_simps)
  then show ?thesis by (simp add: take_bit_eq_mod mod_eq_0_iff_dvd)
qed

lemma child_iff:
  assumes "0 \<le> i"
  shows "0 < c \<and> c < n \<and> parent_index c = i \<longleftrightarrow> (\<exists>k. c = i + 2 ^ k \<and> (\<forall>j \<le> k. \<not> stops n i j))"
proof
  assume l: "0 < c \<and> c < n \<and> parent_index c = i"
  then obtain k m where c: "c = 2 ^ k * (2 * m + 1)" "0 \<le> m" using lowest_bit by blast
  then have i: "i = 2 ^ Suc k * m" using l parent_index_lowest[of m k] by simp
  have "\<not> stops n i j" if "j \<le> k" for j
  proof -
    have "\<not> bit i j" using bit_multiple[of k m j] that i by auto
    moreover have "(2 :: int) ^ j \<le> 2 ^ k" using that by simp
    moreover have "c = i + 2 ^ k" using c i by (simp add: algebra_simps)
    ultimately show ?thesis using l unfolding stops_def by linarith
  qed
  moreover have "c = i + 2 ^ k" using c i by (simp add: algebra_simps)
  ultimately show "\<exists>k. c = i + 2 ^ k \<and> (\<forall>j \<le> k. \<not> stops n i j)" by blast
next
  assume "\<exists>k. c = i + 2 ^ k \<and> (\<forall>j \<le> k. \<not> stops n i j)"
  then obtain k where k: "c = i + 2 ^ k" "\<And>j. j \<le> k \<Longrightarrow> \<not> stops n i j" by blast
  then have "2 ^ Suc k dvd i" by (intro no_bits_below) (auto simp: stops_def)
  then obtain m where m: "i = 2 ^ Suc k * m" by blast
  then have "0 \<le> m" using assms by (simp add: zero_le_mult_iff)
  moreover have "c = 2 ^ k * (2 * m + 1)" using k(1) m by (simp add: algebra_simps)
  ultimately have "parent_index c = i" using parent_index_lowest[of m k] m by simp
  moreover have "c < n" using k(2)[of k] k(1) by (auto simp: stops_def)
  ultimately show "0 < c \<and> c < n \<and> parent_index c = i" using k(1) assms by (simp add: add_nonneg_pos)
qed

lemma count_incoming_children:
  assumes "0 \<le> i" "i < n" "n \<le> 2 ^ 30"
  shows "count_incoming n i 0 = Some (card {c. 0 < c \<and> c < n \<and> parent_index c = i})"
proof -
  have s30: "stops n i 30" using assms by (auto simp: stops_def)
  define k where "k = (LEAST k. stops n i k)"
  have k: "stops n i k" "\<And>j. j < k \<Longrightarrow> \<not> stops n i j" "k \<le> 30"
    unfolding k_def using s30 by (auto intro: LeastI Least_le dest: not_less_Least)
  have "{c. 0 < c \<and> c < n \<and> parent_index c = i} = (\<lambda>j. i + 2 ^ j) ` {..<k}"
  proof (intro set_eqI)
    fix c
    have "(\<forall>j \<le> l. \<not> stops n i j) \<longleftrightarrow> l < k" for l using k(1,2) by (meson le_less_trans not_le)
    then show "c \<in> {c. 0 < c \<and> c < n \<and> parent_index c = i} \<longleftrightarrow> c \<in> (\<lambda>j. i + 2 ^ j) ` {..<k}"
      using child_iff[OF assms(1), of c n] by auto
  qed
  moreover have "inj_on (\<lambda>j. i + 2 ^ j) {..<k}" by (auto simp: inj_on_def)
  ultimately have "card {c. 0 < c \<and> c < n \<and> parent_index c = i} = k" by (simp add: card_image)
  then show ?thesis using count_incoming_least[of n i k 0] k by simp
qed

text \<open>With more ranks than \<open>2 ^ 30\<close> the shift leaves the range of a rank at the root.\<close>

lemma count_incoming_overflow: "2 ^ 30 < n \<Longrightarrow> count_incoming n 0 0 = None"
proof -
  assume n: "2 ^ 30 < n"
  have "count_incoming n 0 k = None" for k
  proof (induction "31 - k" arbitrary: k)
    case 0
    then show ?case by (subst count_incoming_rec) simp
  next
    case (Suc d)
    then have "k \<le> 30" by simp
    then have "(2 :: int) ^ k \<le> 2 ^ 30" by (intro power_increasing) auto
    then have "\<not> stops n 0 k" using n by (auto simp: stops_def)
    then show ?case using Suc by (subst count_incoming_rec) auto
  qed
  then show ?thesis .
qed

subsection \<open>Ranks and indexes\<close>

definition member :: "int \<Rightarrow> int \<Rightarrow> bool" where
  "member n r \<longleftrightarrow> 0 \<le> r \<and> r < n"

lemma rank_index_bounds: "member n root \<Longrightarrow> member n r \<Longrightarrow> 0 \<le> rank_index n root r \<and> rank_index n root r < n"
  by (auto simp: member_def rank_index_def Let_def)

lemma rank_index_0: "member n root \<Longrightarrow> member n r \<Longrightarrow> rank_index n root r = 0 \<longleftrightarrow> r = root"
  by (auto simp: member_def rank_index_def Let_def)

lemma index_rank_index: "member n root \<Longrightarrow> member n r \<Longrightarrow> index_rank n root (rank_index n root r) = r"
  by (auto simp: member_def rank_index_def index_rank_def Let_def)

lemma rank_index_rank: "member n root \<Longrightarrow> 0 \<le> i \<Longrightarrow> i < n \<Longrightarrow> rank_index n root (index_rank n root i) = i"
  by (auto simp: member_def rank_index_def index_rank_def Let_def)

lemma index_rank_member: "member n root \<Longrightarrow> 0 \<le> i \<Longrightarrow> i < n \<Longrightarrow> member n (index_rank n root i)"
  by (auto simp: member_def index_rank_def Let_def)

definition parent :: "int \<Rightarrow> int \<Rightarrow> int \<Rightarrow> int" where
  "parent n root c = index_rank n root (parent_index (rank_index n root c))"

lemma parent_index_of:
  assumes "member n root" "member n c" "c \<noteq> root"
  shows "member n (parent n root c)" "rank_index n root (parent n root c) = parent_index (rank_index n root c)"
    "rank_index n root (parent n root c) < rank_index n root c"
proof -
  have "0 < rank_index n root c" "rank_index n root c < n"
    using rank_index_bounds[OF assms(1,2)] rank_index_0[OF assms(1,2)] assms(3) by auto
  with parent_index_bounds[of "rank_index n root c"]
  have p: "0 \<le> parent_index (rank_index n root c)" "parent_index (rank_index n root c) < rank_index n root c"
    "parent_index (rank_index n root c) < n" by auto
  show "member n (parent n root c)" using index_rank_member[OF assms(1) p(1,3)] by (simp add: parent_def)
  show "rank_index n root (parent n root c) = parent_index (rank_index n root c)"
    using rank_index_rank[OF assms(1) p(1,3)] by (simp add: parent_def)
  with p show "rank_index n root (parent n root c) < rank_index n root c" by simp
qed

definition children :: "int \<Rightarrow> int \<Rightarrow> int \<Rightarrow> int set" where
  "children n root r = {c. member n c \<and> c \<noteq> root \<and> parent n root c = r}"

lemma finite_children [simp]: "finite (children n root r)"
  by (rule finite_subset[of _ "{0..<n}"]) (auto simp: children_def member_def)

lemma child_not_self: "member n root \<Longrightarrow> c \<in> children n root r \<Longrightarrow> c \<noteq> r"
  using parent_index_of(3)[of n root c] by (auto simp: children_def)

lemma card_children:
  assumes root: "member n root" and r: "member n r"
  shows "card (children n root r) = card {c. 0 < c \<and> c < n \<and> parent_index c = rank_index n root r}"
proof (rule bij_betw_same_card[of "rank_index n root"], rule bij_betw_imageI)
  show "inj_on (rank_index n root) (children n root r)"
    by (rule inj_on_inverseI[of _ "index_rank n root"]) (auto simp: children_def index_rank_index[OF root])
  show "rank_index n root ` children n root r = {c. 0 < c \<and> c < n \<and> parent_index c = rank_index n root r}" (is "?f ` ?A = ?B")
  proof
    show "?f ` ?A \<subseteq> ?B"
    proof (intro image_subsetI CollectI)
      fix c
      assume c: "c \<in> ?A"
      then show "0 < ?f c \<and> ?f c < n \<and> parent_index (?f c) = ?f r"
        using rank_index_bounds[OF root, of c] rank_index_0[OF root, of c] parent_index_of(2)[OF root, of c] by (auto simp: children_def)
    qed
    show "?B \<subseteq> ?f ` ?A"
    proof
      fix i
      assume i: "i \<in> ?B"
      let ?c = "index_rank n root i"
      have c: "?f ?c = i" "member n ?c" using i root rank_index_rank[of n root i] index_rank_member[of n root i] by auto
      then have "?c \<noteq> root" using i rank_index_0[OF root, of ?c] by auto
      moreover have "parent n root ?c = r" using i c index_rank_index[OF root r] by (simp add: parent_def)
      ultimately show "i \<in> ?f ` ?A" using c by (intro image_eqI[of _ _ ?c]) (auto simp: children_def)
    qed
  qed
qed

lemma count_incoming_rank:
  assumes "member n root" "member n r" "n \<le> 2 ^ 30"
  shows "count_incoming n (rank_index n root r) 0 = Some (card (children n root r))"
  using count_incoming_children[of "rank_index n root r" n] rank_index_bounds[OF assms(1,2)] assms(3)
    card_children[OF assms(1,2)] by simp

subsection \<open>Subtrees\<close>

definition up :: "int \<Rightarrow> int \<Rightarrow> int \<Rightarrow> int \<Rightarrow> bool" where
  "up n root q p \<longleftrightarrow> member n q \<and> q \<noteq> root \<and> p = parent n root q"

definition subtree :: "int \<Rightarrow> int \<Rightarrow> int \<Rightarrow> int set" where
  "subtree n root r = {q. member n q \<and> (up n root)\<^sup>*\<^sup>* q r}"

lemma up_index:
  assumes "member n root"
  shows "(up n root)\<^sup>*\<^sup>* q p \<Longrightarrow> rank_index n root p \<le> rank_index n root q"
  by (induction rule: rtranclp_induct) (auto simp: up_def dest!: parent_index_of(3)[OF assms])

lemma up_chain: "(up n root)\<^sup>*\<^sup>* q c \<Longrightarrow> (up n root)\<^sup>*\<^sup>* q d \<Longrightarrow> (up n root)\<^sup>*\<^sup>* c d \<or> (up n root)\<^sup>*\<^sup>* d c"
proof (induction rule: converse_rtranclp_induct)
  case (step x y)
  from step.prems show ?case
  proof (cases rule: converse_rtranclpE)
    case base
    then show ?thesis using step.hyps by (auto intro: converse_rtranclp_into_rtranclp)
  next
    case (step z)
    then have "z = y" using \<open>up n root x y\<close> by (auto simp: up_def)
    then show ?thesis using step step.IH by blast
  qed
qed auto

lemma subtree_root:
  assumes "member n root"
  shows "subtree n root root = {0..<n}"
proof -
  have "(up n root)\<^sup>*\<^sup>* q root" if "member n q" for q
    using that
  proof (induction "nat (rank_index n root q)" arbitrary: q rule: less_induct)
    case less
    show ?case
    proof (cases "q = root")
      case False
      note p = parent_index_of[OF assms less.prems False]
      have "nat (rank_index n root (parent n root q)) < nat (rank_index n root q)"
        using p(1,3) rank_index_bounds[OF assms p(1)] by simp
      then have "(up n root)\<^sup>*\<^sup>* (parent n root q) root" using less.hyps p(1) by blast
      moreover have "up n root q (parent n root q)" using less.prems False by (simp add: up_def)
      ultimately show ?thesis by (rule converse_rtranclp_into_rtranclp[rotated])
    qed simp
  qed
  then show ?thesis by (auto simp: subtree_def member_def)
qed

text \<open>What a contribution brings to a rank: the value of the rank itself, or all of the subtree of a child.\<close>

definition part :: "int \<Rightarrow> int \<Rightarrow> int \<Rightarrow> int \<Rightarrow> int set" where
  "part n root r c = (if c = r then {r} else subtree n root c)"

definition contributors :: "int \<Rightarrow> int \<Rightarrow> int \<Rightarrow> int set" where
  "contributors n root r = insert r (children n root r)"

lemma finite_contributors [simp]: "finite (contributors n root r)"
  by (simp add: contributors_def)

lemma card_contributors: "member n root \<Longrightarrow> card (contributors n root r) = Suc (card (children n root r))"
proof -
  assume "member n root"
  then have "r \<notin> children n root r" using child_not_self by blast
  then show ?thesis by (simp add: contributors_def)
qed

lemma parts_subtree:
  assumes "member n root" "member n r"
  shows "(\<Union>c \<in> contributors n root r. part n root r c) = subtree n root r"
proof
  show "(\<Union>c \<in> contributors n root r. part n root r c) \<subseteq> subtree n root r"
  proof (rule UN_least)
    fix c
    assume c: "c \<in> contributors n root r"
    show "part n root r c \<subseteq> subtree n root r"
    proof (cases "c = r")
      case True
      then show ?thesis using assms(2) by (auto simp: part_def subtree_def)
    next
      case False
      then have "up n root c r" using c by (auto simp: contributors_def children_def up_def)
      then show ?thesis using False by (auto simp: part_def subtree_def intro: rtranclp.rtrancl_into_rtrancl)
    qed
  qed
  show "subtree n root r \<subseteq> (\<Union>c \<in> contributors n root r. part n root r c)"
  proof
    fix q
    assume q: "q \<in> subtree n root r"
    then have "(up n root)\<^sup>*\<^sup>* q r" by (simp add: subtree_def)
    then show "q \<in> (\<Union>c \<in> contributors n root r. part n root r c)"
    proof (cases rule: rtranclp.cases)
      case rtrancl_refl
      then show ?thesis by (auto simp: contributors_def part_def)
    next
      case (rtrancl_into_rtrancl c)
      then have c: "c \<in> children n root r" by (auto simp: up_def children_def)
      then have "c \<noteq> r" using child_not_self[OF assms(1)] by blast
      then have "q \<in> part n root r c" using q rtrancl_into_rtrancl(1) by (simp add: part_def subtree_def)
      then show ?thesis using c by (auto simp: contributors_def)
    qed
  qed
qed

lemma child_above: "member n root \<Longrightarrow> c \<in> children n root r \<Longrightarrow> \<not> (up n root)\<^sup>*\<^sup>* r c"
  using up_index[of n root r c] parent_index_of(3)[of n root c] by (auto simp: children_def)

lemma parts_disjoint:
  assumes root: "member n root" and c: "c \<in> contributors n root r" "d \<in> contributors n root r" "c \<noteq> d"
  shows "part n root r c \<inter> part n root r d = {}"
proof -
  have up: "\<not> (up n root)\<^sup>*\<^sup>* c d" if "c \<in> children n root r" "d \<in> children n root r" "c \<noteq> d" for c d
  proof
    assume "(up n root)\<^sup>*\<^sup>* c d"
    then show False
    proof (cases rule: converse_rtranclpE)
      case (step z)
      then have "z = r" using that by (auto simp: up_def children_def)
      then show False using step child_above[OF root that(2)] by simp
    qed (use that in simp)
  qed
  show ?thesis
  proof (cases "c = r \<or> d = r")
    case True
    then show ?thesis using c child_above[OF root] by (auto simp: part_def subtree_def contributors_def)
  next
    case False
    then have "c \<in> children n root r" "d \<in> children n root r" using c by (auto simp: contributors_def)
    then have ne: "\<not> (up n root)\<^sup>*\<^sup>* c d" "\<not> (up n root)\<^sup>*\<^sup>* d c" using up c(3) by metis+
    have "q \<notin> subtree n root d" if "q \<in> subtree n root c" for q
      using that up_chain[of n root q c d] ne by (auto simp: subtree_def)
    then show ?thesis using False by (auto simp: part_def)
  qed
qed

end
