(* ===== verification/Reduce_Correct.thy ===== *)
theory Reduce_Correct
  imports Reduce_Tree Pool
begin

text \<open>
  Correctness of the reduction: whatever the order in which ranks enter and messages arrive, the value at the root combines
  the value of every rank exactly once, every completion is fired exactly once, and no state is left behind.
\<close>

declare sum_mset_0_iff [simp del] of_nat_sum_mset [simp del]

subsection \<open>Combinations of values\<close>

text \<open>A combination of the values of a set of ranks, each used once, in any order and with any brackets.\<close>

inductive gathers :: "('a \<Rightarrow> 'a \<Rightarrow> 'a) \<Rightarrow> (int \<Rightarrow> 'a) \<Rightarrow> int set \<Rightarrow> 'a \<Rightarrow> bool" for op v where
  single: "gathers op v {r} (v r)"
| combine: "gathers op v A x \<Longrightarrow> gathers op v B y \<Longrightarrow> A \<inter> B = {} \<Longrightarrow> gathers op v (A \<union> B) (op x y)"

text \<open>For an associative and commutative operation it is the value of the loop over the ranks.\<close>

definition reduce_list :: "('a \<Rightarrow> 'a \<Rightarrow> 'a) \<Rightarrow> 'a list \<Rightarrow> 'a" where
  "reduce_list op xs = foldl op (hd xs) (tl xs)"

lemma foldl_op_left:
  assumes "semigroup op"
  shows "foldl op (op a b) xs = op a (foldl op b xs)"
  by (induction xs arbitrary: b) (simp_all add: semigroup.assoc[OF assms])

lemma reduce_list_append:
  assumes "semigroup op" "xs \<noteq> []" "ys \<noteq> []"
  shows "reduce_list op (xs @ ys) = op (reduce_list op xs) (reduce_list op ys)"
proof -
  obtain a as where xs: "xs = a # as" using assms(2) by (cases xs) auto
  obtain b bs where ys: "ys = b # bs" using assms(3) by (cases ys) auto
  show ?thesis using foldl_op_left[OF assms(1), of "foldl op a as" b bs] by (simp add: reduce_list_def xs ys)
qed

lemma foldl_perm:
  assumes "abel_semigroup op" "mset xs = mset ys"
  shows "foldl op a xs = foldl op a ys"
proof -
  have sg: "semigroup op" using assms(1) by (simp add: abel_semigroup_def)
  have "op (op z y) x = op (op z x) y" for x y z
    using semigroup.assoc[OF sg, of z y x] semigroup.assoc[OF sg, of z x y] abel_semigroup.commute[OF assms(1), of x y] by simp
  then have "fold (\<lambda>x a. op a x) xs = fold (\<lambda>x a. op a x) ys"
    using assms(2) by (intro fold_multiset_equiv) (auto simp: fun_eq_iff)
  then show ?thesis by (simp add: foldl_conv_fold)
qed

lemma reduce_list_perm:
  assumes op: "abel_semigroup op" and m: "mset xs = mset ys"
  shows "reduce_list op xs = reduce_list op ys"
proof (cases xs)
  case Nil
  then show ?thesis using m by simp
next
  case (Cons a as)
  with m obtain b bs where ys: "ys = b # bs" by (cases ys) auto
  show ?thesis
  proof (cases "a = b")
    case True
    then show ?thesis using foldl_perm[OF op, of as bs b] m by (simp add: reduce_list_def Cons ys)
  next
    case False
    then obtain C where C: "mset as = add_mset b C" "mset bs = add_mset a C"
      using m by (auto simp: Cons ys add_eq_conv_ex)
    obtain cs where cs: "mset cs = C" using ex_mset by blast
    have "foldl op a as = foldl op a (b # cs)" using C cs by (intro foldl_perm[OF op]) simp
    also have "\<dots> = foldl op b (a # cs)" by (simp add: abel_semigroup.commute[OF op, of a b])
    also have "\<dots> = foldl op b bs" using C cs by (intro foldl_perm[OF op]) simp
    finally show ?thesis by (simp add: reduce_list_def Cons ys)
  qed
qed

lemma gathers_list:
  assumes "gathers op v A x" "semigroup op"
  shows "\<exists>xs. distinct xs \<and> set xs = A \<and> xs \<noteq> [] \<and> x = reduce_list op (map v xs)"
  using assms(1)
proof induction
  case (single r)
  show ?case by (intro exI[of _ "[r]"]) (simp add: reduce_list_def)
next
  case (combine A x B y)
  from combine.IH(1) obtain xs where x: "distinct xs" "set xs = A" "xs \<noteq> []" "x = reduce_list op (map v xs)" by blast
  from combine.IH(2) obtain ys where y: "distinct ys" "set ys = B" "ys \<noteq> []" "y = reduce_list op (map v ys)" by blast
  have "op x y = reduce_list op (map v (xs @ ys))"
    unfolding x(4) y(4) map_append using x(3) y(3) by (intro reduce_list_append[OF assms(2), symmetric]) auto
  moreover have "distinct (xs @ ys)" "set (xs @ ys) = A \<union> B" "xs @ ys \<noteq> []" using x(1-3) y(1-3) combine.hyps(3) by auto
  ultimately show ?case by (intro exI[of _ "xs @ ys"] conjI)
qed

lemma gathers_all:
  assumes "gathers op v {0..<n} x" "abel_semigroup op"
  shows "x = reduce_list op (map v [0..n - 1])"
proof -
  have sg: "semigroup op" using assms(2) by (simp add: abel_semigroup_def)
  obtain xs where xs: "distinct xs" "set xs = {0..<n}" "x = reduce_list op (map v xs)" using gathers_list[OF assms(1) sg] by blast
  have "set xs = set [0..n - 1]" unfolding xs(2) by auto
  then have "mset xs = mset [0..n - 1]" using set_eq_iff_mset_eq_distinct[OF xs(1), of "[0..n - 1]"] by simp
  then have "mset (map v xs) = mset (map v [0..n - 1])" by (simp only: mset_map)
  then show ?thesis unfolding xs(3) by (rule reduce_list_perm[OF assms(2)])
qed

subsection \<open>The invariant\<close>

fun from_child :: "int \<Rightarrow> 'a rditem \<Rightarrow> nat" where
  "from_child c (Rd_contribute d r x) = (if d = c then 1 else 0)"
| "from_child c _ = 0"

fun to_enter :: "int \<Rightarrow> 'a rditem \<Rightarrow> nat" where
  "to_enter q (Rd_enter r) = (if r = q then 1 else 0)"
| "to_enter q _ = 0"

fun to_rank :: "int \<Rightarrow> 'a rditem \<Rightarrow> nat" where
  "to_rank q (Rd_result r x) = (if r = q then 1 else 0)"
| "to_rank q _ = 0"

definition rd_full :: "int \<Rightarrow> int \<Rightarrow> 'a reduction \<Rightarrow> int \<Rightarrow> bool" where
  "rd_full n root s r \<longleftrightarrow> rd_taken s r = contributors n root r"

definition rd_closed :: "bool \<Rightarrow> int \<Rightarrow> ('a \<Rightarrow> 'a \<Rightarrow> 'a) \<Rightarrow> int \<Rightarrow> (int \<Rightarrow> 'a) \<Rightarrow> 'a reduction \<Rightarrow> int \<Rightarrow> bool" where
  "rd_closed one n op root v s r \<longleftrightarrow>
     (\<exists>x. rd_done s r = [x] \<and> (if one \<or> r = root then gathers op v (subtree n root r) x else rd_done s root = [x]))"

text \<open>Of one rank: nothing begun, contributions being taken in, or the completion fired.\<close>

definition rd_rank_ok :: "bool \<Rightarrow> int \<Rightarrow> ('a \<Rightarrow> 'a \<Rightarrow> 'a) \<Rightarrow> int \<Rightarrow> (int \<Rightarrow> 'a) \<Rightarrow> 'a reduction \<Rightarrow> int \<Rightarrow> bool" where
  "rd_rank_ok one n op root v s r \<longleftrightarrow>
     rd_taken s r \<subseteq> contributors n root r \<and>
     (\<forall>c \<in> rd_taken s r. c \<noteq> r \<longrightarrow> rd_full n root s c) \<and>
     (case rd_registry s r of
        None \<Rightarrow> rd_taken s r = {} \<and> rd_done s r = [] \<or>
          rd_full n root s r \<and> rd_closed one n op root v s r
      | Some st \<Rightarrow> rd_taken s r \<noteq> {} \<and> rd_done s r = [] \<and> (rd_full n root s r \<longrightarrow> \<not> one \<and> r \<noteq> root) \<and>
          rs_incoming st = int (card (contributors n root r)) - int (card (rd_taken s r)) \<and>
          rs_cxs st = (r \<in> rd_taken s r) \<and> gathers op v (\<Union>c \<in> rd_taken s r. part n root r c) (rs_accum st))"

fun rd_item_ok :: "int \<Rightarrow> ('a \<Rightarrow> 'a \<Rightarrow> 'a) \<Rightarrow> int \<Rightarrow> (int \<Rightarrow> 'a) \<Rightarrow> 'a reduction \<Rightarrow> 'a rditem \<Rightarrow> bool" where
  "rd_item_ok n op root v s (Rd_enter r) \<longleftrightarrow> True"
| "rd_item_ok n op root v s (Rd_contribute c r x) \<longleftrightarrow> r = parent n root c \<and> gathers op v (subtree n root c) x"
| "rd_item_ok n op root v s (Rd_result q x) \<longleftrightarrow> rd_done s root = [x]"

definition rd_counts_ok :: "bool \<Rightarrow> int \<Rightarrow> int \<Rightarrow> 'a reduction \<Rightarrow> int \<Rightarrow> bool" where
  "rd_counts_ok one n root s q \<longleftrightarrow>
     total (to_enter q) (rd_items s) = (if member n q \<and> q \<notin> rd_taken s q then 1 else 0) \<and>
     total (from_child q) (rd_items s) =
       (if member n q \<and> q \<noteq> root \<and> rd_full n root s q \<and> q \<notin> rd_taken s (parent n root q) then 1 else 0) \<and>
     total (to_rank q) (rd_items s) =
       (if \<not> one \<and> member n q \<and> q \<noteq> root \<and> rd_done s root \<noteq> [] \<and> rd_done s q = [] then 1 else 0)"

definition rd_inv :: "bool \<Rightarrow> int \<Rightarrow> ('a \<Rightarrow> 'a \<Rightarrow> 'a) \<Rightarrow> int \<Rightarrow> (int \<Rightarrow> 'a) \<Rightarrow> 'a reduction \<Rightarrow> bool" where
  "rd_inv one n op root v s \<longleftrightarrow>
     member n root \<and> n \<le> 2 ^ 30 \<and>
     (\<forall>r. member n r \<longrightarrow> rd_rank_ok one n op root v s r) \<and>
     (\<forall>x \<in># rd_items s. rd_item_ok n op root v s x) \<and> (\<forall>q. rd_counts_ok one n root s q)"

lemma rd_invI:
  assumes "member n root" "n \<le> 2 ^ 30" "\<And>r. member n r \<Longrightarrow> rd_rank_ok one n op root v s r"
    "\<And>x. x \<in># rd_items s \<Longrightarrow> rd_item_ok n op root v s x" "\<And>q. rd_counts_ok one n root s q"
  shows "rd_inv one n op root v s"
  using assms by (simp add: rd_inv_def)

lemma rd_invD:
  assumes "rd_inv one n op root v s"
  shows "member n root" "n \<le> 2 ^ 30" "member n r \<Longrightarrow> rd_rank_ok one n op root v s r"
    "x \<in># rd_items s \<Longrightarrow> rd_item_ok n op root v s x" "rd_counts_ok one n root s q"
  using assms by (simp_all add: rd_inv_def)

lemma rd_rank_frame:
  assumes "rd_rank_ok one n op root v s q" "q \<noteq> r" "rd_registry s' q = rd_registry s q" "\<And>p. p \<noteq> r \<Longrightarrow> rd_taken s' p = rd_taken s p"
    "rd_done s' q = rd_done s q" "\<not> rd_full n root s r" "rd_done s root = [] \<or> rd_done s' root = rd_done s root"
  shows "rd_rank_ok one n op root v s' q"
proof -
  have q: "rd_taken s' q = rd_taken s q" using assms by blast
  then have f: "rd_full n root s' q = rd_full n root s q" by (simp add: rd_full_def)
  have g: "rd_full n root s' c" if "rd_full n root s c" for c
  proof -
    have "c \<noteq> r" using assms(6) that by blast
    then show ?thesis using that assms(4)[of c] by (simp add: rd_full_def)
  qed
  have d: "rd_done s' root = [x]" if "rd_done s root = [x]" for x using assms(7) that by simp
  have "rd_taken s' q \<subseteq> contributors n root q" "\<forall>c \<in> rd_taken s' q. c \<noteq> q \<longrightarrow> rd_full n root s' c"
    using assms(1) g by (auto simp: rd_rank_ok_def q)
  moreover have "rd_closed one n op root v s' q" if "rd_closed one n op root v s q"
    using that d assms(5) unfolding rd_closed_def by (auto split: if_splits)
  ultimately show ?thesis
    using assms(1) unfolding rd_rank_ok_def assms(3,5) q f by (cases "rd_registry s q") auto
qed

lemma rd_item_frame:
  assumes "rd_item_ok n op root v s x" "rd_done s root = [] \<or> rd_done s' root = rd_done s root"
  shows "rd_item_ok n op root v s' x"
  using assms by (cases x) auto

lemma results_from_ok: "z \<in># results_from n r x \<Longrightarrow> rd_done s root = [x] \<Longrightarrow> rd_item_ok n op root v s z"
  by (auto simp: results_from_def)

lemma total_results:
  "total (to_rank q) (results_from n r x) = (if member n q \<and> q \<noteq> r then 1 else 0)"
  "total (from_child q) (results_from n r x) = 0" "total (to_enter q) (results_from n r x) = 0"
  "total (\<lambda>_. 1) (results_from n r x) = card ({0..<n} - {r})"
proof -
  have t: "total f (results_from n r x) = (\<Sum>p \<in> {0..<n} - {r}. f (Rd_result p x))" for f :: "'a rditem \<Rightarrow> nat"
  proof -
    have "{0..<n} - {r} = set (filter (\<lambda>q. q \<noteq> r) [0..n - 1])" by auto
    moreover have "total f (results_from n r x) = sum_list (map (\<lambda>p. f (Rd_result p x)) (filter (\<lambda>q. q \<noteq> r) [0..n - 1]))"
      unfolding results_from_def mset_map[symmetric] sum_mset_sum_list map_map o_def ..
    ultimately show ?thesis by (simp add: sum_list_distinct_conv_sum_set)
  qed
  show "total (to_rank q) (results_from n r x) = (if member n q \<and> q \<noteq> r then 1 else 0)"
    unfolding t by (auto simp: sum.delta member_def)
  show "total (from_child q) (results_from n r x) = 0" "total (to_enter q) (results_from n r x) = 0"
    "total (\<lambda>_. 1) (results_from n r x) = card ({0..<n} - {r})" unfolding t by simp_all
qed

text \<open>A contribution that may come next: of the rank itself, or of a child that is full.\<close>

definition offered :: "int \<Rightarrow> ('a \<Rightarrow> 'a \<Rightarrow> 'a) \<Rightarrow> int \<Rightarrow> (int \<Rightarrow> 'a) \<Rightarrow> 'a reduction \<Rightarrow> int \<Rightarrow> int \<Rightarrow> 'a \<Rightarrow> bool" where
  "offered n op root v s c r x \<longleftrightarrow>
     member n r \<and> c \<in> contributors n root r \<and> c \<notin> rd_taken s r \<and> gathers op v (part n root r c) x \<and> (c \<noteq> r \<longrightarrow> rd_full n root s c)"

lemma take_in_ok:
  assumes inv: "rd_inv one n op root v s" and off: "offered n op root v s c r x"
  shows "\<exists>st. take_in n op (rank_index n root r) x (rd_registry s r) = Some st \<and>
    rs_incoming st = int (card (contributors n root r)) - int (card (rd_taken s r)) \<and>
    rs_cxs st = (r \<in> rd_taken s r) \<and> gathers op v (\<Union>d \<in> insert c (rd_taken s r). part n root r d) (rs_accum st)"
proof -
  have r: "member n r" and c: "c \<in> contributors n root r" "c \<notin> rd_taken s r" and g: "gathers op v (part n root r c) x"
    using off by (auto simp: offered_def)
  note root = rd_invD(1)[OF inv] and ok = rd_invD(3)[OF inv r]
  have nf: "\<not> rd_full n root s r" using c by (auto simp: rd_full_def)
  show ?thesis
  proof (cases "rd_registry s r")
    case None
    then have "rd_taken s r = {}" using ok nf by (auto simp: rd_rank_ok_def)
    then show ?thesis
      using None g count_incoming_rank[OF root r rd_invD(2)[OF inv]] card_contributors[OF root, of r] by (simp add: take_in_def)
  next
    case (Some st)
    have sub: "rd_taken s r \<subseteq> contributors n root r" and a: "gathers op v (\<Union>d \<in> rd_taken s r. part n root r d) (rs_accum st)"
      using ok Some by (auto simp: rd_rank_ok_def)
    have "(\<Union>d \<in> rd_taken s r. part n root r d) \<inter> part n root r c = {}" using parts_disjoint[OF root _ c(1)] c(2) sub by blast
    from gathers.combine[OF a g this]
    have "gathers op v (\<Union>d \<in> insert c (rd_taken s r). part n root r d) (op (rs_accum st) x)" by (simp add: Un_commute)
    then show ?thesis using Some ok by (simp add: take_in_def rd_rank_ok_def)
  qed
qed

text \<open>The pool item of a contribution.\<close>

definition item_of :: "int \<Rightarrow> int \<Rightarrow> 'a \<Rightarrow> 'a rditem" where
  "item_of c r x = (if c = r then Rd_enter r else Rd_contribute c r x)"

lemma item_of_tallies [simp]:
  "to_enter q (item_of c r x) = (if c = r \<and> q = r then 1 else 0)"
  "from_child q (item_of c r x) = (if c \<noteq> r \<and> q = c then 1 else 0)" "to_rank q (item_of c r x) = 0"
  by (auto simp: item_of_def)

lemma offered_facts:
  assumes inv: "rd_inv one n op root v s" and off: "offered n op root v s c r x"
  shows "\<not> rd_full n root s r" "rd_done s r = []" "member n q \<Longrightarrow> q \<noteq> root \<Longrightarrow> r \<notin> rd_taken s (parent n root r) \<or> r = root"
proof -
  have r: "member n r" and c: "c \<in> contributors n root r" "c \<notin> rd_taken s r" using off by (auto simp: offered_def)
  show nf: "\<not> rd_full n root s r" using c by (auto simp: rd_full_def)
  show "rd_done s r = []" using rd_invD(3)[OF inv r] nf by (auto simp: rd_rank_ok_def split: option.splits)
  show "r \<notin> rd_taken s (parent n root r) \<or> r = root"
  proof (cases "r = root")
    case False
    note p = parent_index_of[OF rd_invD(1)[OF inv] r False]
    then have "parent n root r \<noteq> r" by auto
    then show ?thesis using rd_invD(3)[OF inv p(1)] nf by (auto simp: rd_rank_ok_def)
  qed simp
qed

lemma counts_taken:
  assumes inv: "rd_inv one n op root v s" and off: "offered n op root v s c r x" and M: "rd_items s = add_mset (item_of c r x) M"
    and tk: "tk = (rd_taken s)(r := insert c (rd_taken s r))"
  shows "total (to_enter q) M = (if member n q \<and> q \<notin> tk q then 1 else 0)"
    "total (from_child q) M = (if member n q \<and> q \<noteq> root \<and> rd_full n root s q \<and> q \<notin> tk (parent n root q) then 1 else 0)"
    "total (to_rank q) M = (if \<not> one \<and> member n q \<and> q \<noteq> root \<and> rd_done s root \<noteq> [] \<and> rd_done s q = [] then 1 else 0)"
proof -
  have r: "member n r" and c: "c \<in> contributors n root r" "c \<notin> rd_taken s r" and fc: "c \<noteq> r \<Longrightarrow> rd_full n root s c"
    using off by (auto simp: offered_def)
  have ch: "c \<noteq> r \<Longrightarrow> member n c \<and> c \<noteq> root \<and> parent n root c = r" using c by (auto simp: contributors_def children_def)
  note ok = rd_invD(5)[OF inv, of q, unfolded rd_counts_ok_def M]
  show "total (to_enter q) M = (if member n q \<and> q \<notin> tk q then 1 else 0)"
    using ok r c ch by (auto simp: tk split: if_splits)
  show "total (to_rank q) M = (if \<not> one \<and> member n q \<and> q \<noteq> root \<and> rd_done s root \<noteq> [] \<and> rd_done s q = [] then 1 else 0)"
    using ok by simp
  show "total (from_child q) M = (if member n q \<and> q \<noteq> root \<and> rd_full n root s q \<and> q \<notin> tk (parent n root q) then 1 else 0)"
  proof (cases "q = c \<and> c \<noteq> r")
    case True
    then show ?thesis using ok c ch fc by (auto simp: tk)
  next
    case False
    have "q \<in> tk (parent n root q) \<longleftrightarrow> q \<in> rd_taken s (parent n root q)" if "member n q" "q \<noteq> root"
    proof -
      have "q \<noteq> parent n root q" using parent_index_of(3)[OF rd_invD(1)[OF inv] that] by auto
      then show ?thesis using False by (auto simp: tk)
    qed
    then show ?thesis using ok False by (cases "q = root") auto
  qed
qed

lemma taken_inv:
  assumes inv: "rd_inv one n op root v s" and off: "offered n op root v s c r x" and M: "rd_items s = add_mset (item_of c r x) M"
    and s': "rd_taken s' = (rd_taken s)(r := insert c (rd_taken s r))" "\<And>q. q \<noteq> r \<Longrightarrow> rd_registry s' q = rd_registry s q"
      "\<And>q. q \<noteq> r \<Longrightarrow> rd_done s' q = rd_done s q" "rd_rank_ok one n op root v s' r" "rd_items s' = M + N"
    and N: "\<And>z. z \<in># N \<Longrightarrow> rd_item_ok n op root v s' z" "\<And>q. total (to_enter q) N = 0"
      "\<And>q. total (from_child q) N = (if q = r \<and> rd_full n root s' r \<and> r \<noteq> root then 1 else 0)"
      "\<And>q. total (to_rank q) N = (if \<not> one \<and> r = root \<and> rd_full n root s' r \<and> member n q \<and> q \<noteq> root then 1 else 0)"
    and d: "r = root \<Longrightarrow> rd_done s' root \<noteq> [] \<longleftrightarrow> rd_full n root s' root" "\<not> one \<Longrightarrow> r \<noteq> root \<Longrightarrow> rd_done s' r = rd_done s r"
  shows "rd_inv one n op root v s'"
proof (rule rd_invI)
  note f = offered_facts[OF inv off] and ct = counts_taken[OF inv off M s'(1)]
  show "member n root" "n \<le> 2 ^ 30" using rd_invD(1,2)[OF inv] by auto
  have dr: "rd_done s root = [] \<or> rd_done s' root = rd_done s root" using f(2) s'(3)[of root] by (cases "r = root") auto
  show "rd_rank_ok one n op root v s' q" if "member n q" for q
  proof (cases "q = r")
    case False
    show ?thesis
      by (rule rd_rank_frame[OF rd_invD(3)[OF inv that] False s'(2)[OF False] _ s'(3)[OF False] f(1) dr]) (simp add: s'(1))
  qed (use s'(4) in simp)
  show "rd_item_ok n op root v s' z" if "z \<in># rd_items s'" for z
    using that N(1) rd_item_frame[OF rd_invD(4)[OF inv, of z] dr] by (auto simp: s'(5) M)
  fix q
  have fq: "q \<noteq> r \<Longrightarrow> rd_full n root s' q = rd_full n root s q" by (simp add: rd_full_def s'(1))
  have "total (from_child q) (rd_items s') =
      (if member n q \<and> q \<noteq> root \<and> rd_full n root s' q \<and> q \<notin> rd_taken s' (parent n root q) then 1 else 0)"
  proof (cases "q = r")
    case True
    have "r \<noteq> root \<Longrightarrow> r \<notin> rd_taken s' (parent n root r) \<and> member n r"
      using f(3)[of r] off parent_index_of(3)[OF rd_invD(1)[OF inv], of r] by (auto simp: s'(1) offered_def)
    then show ?thesis using True ct(2)[of q] N(3)[of q] f(1) by (simp add: s'(5))
  next
    case False
    then show ?thesis using ct(2)[of q] N(3)[of q] fq by (simp add: s'(1,5))
  qed
  moreover have "total (to_rank q) (rd_items s') =
      (if \<not> one \<and> member n q \<and> q \<noteq> root \<and> rd_done s' root \<noteq> [] \<and> rd_done s' q = [] then 1 else 0)"
  proof (cases "r = root \<and> \<not> one")
    case True
    have "rd_done s q = []" if "member n q" "q \<noteq> root"
      using rd_invD(3)[OF inv that(1)] True f(2) that by (auto simp: rd_rank_ok_def rd_closed_def split: option.splits)
    then show ?thesis using True ct(3)[of q] N(4)[of q] d(1) f(2) s'(3)[of q] by (auto simp: s'(5))
  next
    case False
    have "rd_done s' root = rd_done s root \<and> rd_done s' q = rd_done s q" if "\<not> one"
      using False that d(2) s'(3) by (cases "q = r") auto
    then show ?thesis using False ct(3)[of q] N(4)[of q] by (auto simp: s'(5))
  qed
  ultimately show "rd_counts_ok one n root s' q"
    using ct(1)[of q] N(2)[of q] by (simp add: rd_counts_ok_def s'(1,5))
qed

subsection \<open>Every action of the reduction\<close>

text \<open>The work left: what is in the pool, and what the ranks that are not full will send.\<close>

definition to_send :: "bool \<Rightarrow> int \<Rightarrow> int \<Rightarrow> 'a reduction \<Rightarrow> int \<Rightarrow> nat" where
  "to_send one n root s r =
     (if rd_full n root s r then 0 else if r \<noteq> root then 1 else if one then 0 else card ({0..<n} - {root}))"

definition rd_work :: "bool \<Rightarrow> int \<Rightarrow> int \<Rightarrow> 'a reduction \<Rightarrow> nat" where
  "rd_work one n root s = size (rd_items s) + (\<Sum>r \<in> {0..<n}. to_send one n root s r)"

lemma rd_work_less:
  assumes "rd_items s = add_mset y M" "rd_items s' = M + N" "member n r"
    "\<And>q. q \<noteq> r \<Longrightarrow> rd_taken s' q = rd_taken s q" "size N + to_send one n root s' r = to_send one n root s r"
  shows "rd_work one n root s' < rd_work one n root s"
proof -
  have r: "r \<in> {0..<n}" using assms(3) by (simp add: member_def)
  have "(\<Sum>q \<in> {0..<n} - {r}. to_send one n root s' q) = (\<Sum>q \<in> {0..<n} - {r}. to_send one n root s q)"
    using assms(4) by (intro sum.cong) (auto simp: to_send_def rd_full_def)
  then show ?thesis
    using assms(1,2,5) sum.remove[OF _ r, of "to_send one n root s'"] sum.remove[OF _ r, of "to_send one n root s"]
    by (simp add: rd_work_def)
qed

text \<open>The last contribution to a rank: at the root, at another rank of \<open>reduce_one\<close>, and at another rank of \<open>reduce_all\<close>.\<close>

lemma finish_good:
  assumes inv: "rd_inv one n op root v s" and off: "offered n op root v s c r x" and M: "rd_items s = add_mset (item_of c r x) M"
    and full: "insert c (rd_taken s r) = contributors n root r" and i: "rs_incoming st = 0" and cx: "rs_cxs st"
    and g: "gathers op v (subtree n root r) (rs_accum st)"
    and s1: "s1 = s\<lparr>rd_items := M, rd_registry := (rd_registry s)(r \<mapsto> st), rd_taken := (rd_taken s)(r := insert c (rd_taken s r))\<rparr>"
  shows "\<exists>s'. finish one n root r st s1 = Some s' \<and> rd_inv one n op root v s' \<and> rd_work one n root s' < rd_work one n root s"
proof -
  have r: "member n r" and fc: "c \<noteq> r \<Longrightarrow> rd_full n root s c" using off by (auto simp: offered_def)
  note root = rd_invD(1)[OF inv] and ok = rd_invD(3)[OF inv r] and f = offered_facts[OF inv off]
  note idx = rank_index_0[OF root r]
  have ne: "contributors n root r \<noteq> {}" "r \<in> contributors n root r" by (auto simp: contributors_def)
  have chld: "\<forall>d \<in> contributors n root r. d \<noteq> r \<longrightarrow> rd_full n root s d" using ok fc by (auto simp: rd_rank_ok_def full[symmetric])
  have rank: "rd_rank_ok one n op root v s' r"
    if t: "rd_taken s' = rd_taken s1" and reg: "rd_registry s' r = None \<and> rd_done s' r = [rs_accum st] \<and> (one \<or> r = root) \<or>
      rd_registry s' r = Some st \<and> rd_done s' r = [] \<and> \<not> one \<and> r \<noteq> root" for s'
  proof -
    have "rd_full n root s' r" by (simp add: rd_full_def t s1 full)
    moreover have "\<forall>d \<in> contributors n root r. d \<noteq> r \<longrightarrow> rd_full n root s' d"
      using chld by (simp add: rd_full_def t s1)
    moreover have "gathers op v (\<Union>d \<in> contributors n root r. part n root r d) (rs_accum st)" using g parts_subtree[OF root r] by simp
    moreover have "rd_taken s' r = contributors n root r" by (simp add: t s1 full)
    ultimately show ?thesis using reg g i cx ne unfolding rd_rank_ok_def rd_closed_def by (elim disjE conjE) simp_all
  qed
  show ?thesis
  proof (cases "r = root")
    case True
    let ?N = "if one then {#} else results_from n r (rs_accum st)"
    let ?s = "s1\<lparr>rd_items := M + ?N, rd_done := (rd_done s)(r := [rs_accum st]), rd_registry := (rd_registry s)(r := None)\<rparr>"
    have "finish one n root r st s1 = Some ?s" using idx True cx f(2) by (auto simp: finish_def fire_def Let_def s1)
    moreover have "rd_inv one n op root v ?s"
    proof (rule taken_inv[OF inv off M, of ?s ?N])
      have full_s: "rd_full n root ?s r" by (simp add: s1 rd_full_def full)
      show "rd_rank_ok one n op root v ?s r" using True by (intro rank) (simp_all add: s1)
      show "rd_item_ok n op root v ?s z" if "z \<in># ?N" for z
        using that True by (auto intro: results_from_ok split: if_splits)
      show "total (to_enter q) ?N = 0" "total (from_child q) ?N = (if q = r \<and> rd_full n root ?s r \<and> r \<noteq> root then 1 else 0)"
        "total (to_rank q) ?N = (if \<not> one \<and> r = root \<and> rd_full n root ?s r \<and> member n q \<and> q \<noteq> root then 1 else 0)" for q
        using True full_s by (simp_all add: total_results(1-3))
      show "(rd_done ?s root \<noteq> []) = rd_full n root ?s root" using True full_s by simp
    qed (use True in \<open>simp_all add: s1\<close>)
    moreover have "rd_work one n root ?s < rd_work one n root s"
    proof (rule rd_work_less[of s _ M ?s ?N n r])
      have "size (results_from n r (rs_accum st)) = card ({0..<n} - {r})"
        unfolding size_eq_sum_mset by (rule total_results(4))
      then have "size ?N = to_send one n root s r" using f(1) True by (simp add: to_send_def)
      moreover have "to_send one n root ?s r = 0" by (simp add: to_send_def rd_full_def s1 full)
      ultimately show "size ?N + to_send one n root ?s r = to_send one n root s r" by simp
    qed (use M r in \<open>simp_all add: s1\<close>)
    ultimately show ?thesis by blast
  next
    case False
    let ?m = "Rd_contribute r (parent n root r) (rs_accum st)"
    define s' where "s' = (if one then s1\<lparr>rd_items := M + {#?m#}, rd_done := (rd_done s)(r := [rs_accum st]), rd_registry := (rd_registry s)(r := None)\<rparr>
      else s1\<lparr>rd_items := M + {#?m#}\<rparr>)"
    have sel: "rd_taken s' = rd_taken s1" "rd_items s' = M + {#?m#}" "\<And>q. q \<noteq> r \<Longrightarrow> rd_done s' q = rd_done s q"
      "\<And>q. q \<noteq> r \<Longrightarrow> rd_registry s' q = rd_registry s q" "\<not> one \<Longrightarrow> rd_done s' = rd_done s"
      by (auto simp: s'_def s1)
    have full_s: "rd_full n root s' r" by (simp add: rd_full_def sel(1) s1 full)
    have "finish one n root r st s1 = Some s'"
      using idx False cx f(2) by (simp add: s'_def finish_def fire_def Let_def s1 parent_def)
    moreover have "rd_inv one n op root v s'"
    proof (rule taken_inv[OF inv off M, of s' "{#?m#}"])
      show "rd_rank_ok one n op root v s' r" using False f(2) by (intro rank sel(1)) (simp add: s'_def s1)
      show "rd_item_ok n op root v s' z" if "z \<in># {#?m#}" for z using that g by simp
      show "rd_taken s' = (rd_taken s)(r := insert c (rd_taken s r))" by (simp add: sel(1) s1)
    qed (use False full_s sel in simp_all)
    moreover have "rd_work one n root s' < rd_work one n root s"
    proof (rule rd_work_less[of s _ M s' "{#?m#}" n r])
      show "size {#?m#} + to_send one n root s' r = to_send one n root s r" using full_s f(1) False by (simp add: to_send_def)
    qed (use M r sel in \<open>simp_all add: s1\<close>)
    ultimately show ?thesis by blast
  qed
qed

lemma contribute_good:
  assumes inv: "rd_inv one n op root v s" and off: "offered n op root v s c r x" and M: "rd_items s = add_mset (item_of c r x) M"
  shows "\<exists>s'. contribute one n op root c r x (s\<lparr>rd_items := M\<rparr>) = Some s' \<and> rd_inv one n op root v s' \<and>
    rd_work one n root s' < rd_work one n root s"
proof -
  have r: "member n r" and c: "c \<in> contributors n root r" "c \<notin> rd_taken s r" and fc: "c \<noteq> r \<Longrightarrow> rd_full n root s c"
    using off by (auto simp: offered_def)
  note root = rd_invD(1)[OF inv] and ok = rd_invD(3)[OF inv r] and f = offered_facts[OF inv off]
  obtain st0 where st0: "take_in n op (rank_index n root r) x (rd_registry s r) = Some st0"
    "rs_incoming st0 = int (card (contributors n root r)) - int (card (rd_taken s r))"
    "rs_cxs st0 = (r \<in> rd_taken s r)" "gathers op v (\<Union>d \<in> insert c (rd_taken s r). part n root r d) (rs_accum st0)"
    using take_in_ok[OF inv off] by blast
  define tk where "tk = insert c (rd_taken s r)"
  define st where "st = st0\<lparr>rs_cxs := rs_cxs st0 \<or> c = r, rs_incoming := rs_incoming st0 - 1\<rparr>"
  define s1 where "s1 = s\<lparr>rd_items := M, rd_registry := (rd_registry s)(r \<mapsto> st), rd_taken := (rd_taken s)(r := tk)\<rparr>"
  have sub: "tk \<subseteq> contributors n root r" "finite tk" using ok c by (auto simp: rd_rank_ok_def tk_def intro: finite_subset)
  have "finite (rd_taken s r)" using sub by (simp add: tk_def)
  then have st: "rs_incoming st = int (card (contributors n root r)) - int (card tk)" "rs_cxs st = (r \<in> tk)"
    "gathers op v (\<Union>d \<in> tk. part n root r d) (rs_accum st)"
    using st0 c(2) by (auto simp: st_def tk_def)
  have full: "rs_incoming st = 0 \<longleftrightarrow> tk = contributors n root r"
    using st(1) sub card_subset_eq[OF finite_contributors sub(1)] by auto
  have chld: "\<forall>d \<in> tk. d \<noteq> r \<longrightarrow> rd_full n root s d" using ok fc by (auto simp: rd_rank_ok_def tk_def)
  have eq: "contribute one n op root c r x (s\<lparr>rd_items := M\<rparr>) =
      (if rs_incoming st = 0 then finish one n root r st s1 else Some s1)"
    using st0(1) by (simp add: contribute_def Let_def st_def s1_def tk_def)
  show ?thesis
  proof (cases "tk = contributors n root r")
    case False
    have nf: "\<not> rd_full n root s1 r" using False by (simp add: rd_full_def s1_def)
    have "rd_rank_ok one n op root v s1 r"
      using sub st f(2) nf chld by (auto simp: rd_rank_ok_def rd_full_def s1_def tk_def)
    then have "rd_inv one n op root v s1"
      using nf f(2) by (intro taken_inv[OF inv off M, of s1 "{#}"]) (auto simp: s1_def tk_def)
    moreover have "rd_work one n root s1 < rd_work one n root s"
      using M r nf f(1) by (intro rd_work_less[of s _ M s1 "{#}" n r]) (auto simp: s1_def to_send_def)
    ultimately show ?thesis using eq full False by simp
  next
    case True
    have g: "gathers op v (subtree n root r) (rs_accum st)" using st(3) True parts_subtree[OF root r] by simp
    have cx: "rs_cxs st" using st(2) True by (simp add: contributors_def)
    show ?thesis
      using finish_good[OF inv off M _ _ cx g, of s1] True full st(1) eq by (simp add: s1_def tk_def)
  qed
qed

lemma all_full:
  assumes inv: "rd_inv one n op root v s" and "rd_full n root s root" "member n q"
  shows "rd_full n root s q"
proof -
  have "q \<in> subtree n root root" unfolding subtree_root[OF rd_invD(1)[OF inv]] using assms(3) by (simp add: member_def)
  then have "(up n root)\<^sup>*\<^sup>* q root" by (simp add: subtree_def)
  then show ?thesis
  proof (induction rule: converse_rtranclp_induct)
    case (step q p)
    then have q: "member n q" "q \<noteq> root" "p = parent n root q" by (auto simp: up_def)
    note p = parent_index_of[OF rd_invD(1)[OF inv] q(1,2)]
    have "q \<in> contributors n root p" using q by (simp add: contributors_def children_def)
    then have "q \<in> rd_taken s p" using step.IH by (simp add: rd_full_def)
    moreover have "q \<noteq> p" using p(3) q(3) by auto
    moreover have "\<forall>c \<in> rd_taken s p. c \<noteq> p \<longrightarrow> rd_full n root s c"
      using rd_invD(3)[OF inv p(1)] unfolding rd_rank_ok_def q(3) by (elim conjE)
    ultimately show ?case by blast
  qed (rule assms(2))
qed

lemma root_done_full: "rd_inv one n op root v s \<Longrightarrow> rd_done s root \<noteq> [] \<Longrightarrow> rd_full n root s root"
  using rd_invD(3)[of one n op root v s root] rd_invD(1)[of one n op root v s]
  by (auto simp: rd_rank_ok_def split: option.splits)

lemma result_good:
  assumes inv: "rd_inv one n op root v s" and M: "rd_items s = add_mset (Rd_result r x) M"
  shows "\<exists>s'. reduce_act one n op root v (Rd_result r x) (s\<lparr>rd_items := M\<rparr>) = Some s' \<and> rd_inv one n op root v s' \<and>
    rd_work one n root s' < rd_work one n root s"
proof -
  have dx: "rd_done s root = [x]" using rd_invD(4)[OF inv, of "Rd_result r x"] M by simp
  have r: "\<not> one" "member n r" "r \<noteq> root" "rd_done s r = []" and tM: "total (to_rank r) M = 0"
    using rd_invD(5)[OF inv, of r] M by (auto simp: rd_counts_ok_def split: if_splits)
  have full: "rd_full n root s r" using all_full[OF inv root_done_full[OF inv] r(2)] dx by simp
  then have "rd_taken s r \<noteq> {}" by (auto simp: rd_full_def contributors_def)
  then obtain st where st: "rd_registry s r = Some st" "rs_cxs st"
    using rd_invD(3)[OF inv r(2)] r(4) full
    by (cases "rd_registry s r") (auto simp: rd_rank_ok_def rd_closed_def rd_full_def contributors_def)
  let ?s = "s\<lparr>rd_items := M, rd_done := (rd_done s)(r := [x]), rd_registry := (rd_registry s)(r := None)\<rparr>"
  have "reduce_act one n op root v (Rd_result r x) (s\<lparr>rd_items := M\<rparr>) = Some ?s" using st r(4) by (simp add: fire_def)
  moreover have "rd_inv one n op root v ?s"
  proof (rule rd_invI)
    show "member n root" "n \<le> 2 ^ 30" using rd_invD(1,2)[OF inv] by auto
    show "rd_rank_ok one n op root v ?s q" if "member n q" for q
    proof (cases "q = r")
      case True
      then show ?thesis using rd_invD(3)[OF inv r(2)] full dx r by (simp add: rd_rank_ok_def rd_closed_def rd_full_def)
    next
      case False
      then have "rd_closed one n op root v ?s q = rd_closed one n op root v s q" using r(3) by (simp add: rd_closed_def)
      moreover have "rd_full n root ?s = rd_full n root s" by (simp add: rd_full_def fun_eq_iff)
      ultimately show ?thesis using False rd_invD(3)[OF inv that] by (cases "rd_registry s q") (simp_all add: rd_rank_ok_def)
    qed
    show "rd_item_ok n op root v ?s z" if "z \<in># rd_items ?s" for z
      using rd_item_frame[OF rd_invD(4)[OF inv, of z], of ?s] that M r(3) by simp
    show "rd_counts_ok one n root ?s q" for q
      using rd_invD(5)[OF inv, of q] M r tM dx by (cases "q = r") (simp_all add: rd_counts_ok_def rd_full_def)
  qed
  moreover have "rd_work one n root ?s < rd_work one n root s" using M by (simp add: rd_work_def to_send_def rd_full_def)
  ultimately show ?thesis by blast
qed

lemma reduce_act_good:
  assumes inv: "rd_inv one n op root v s" and y: "y \<in># rd_items s"
  shows "\<exists>s'. reduce_act one n op root v y (s\<lparr>rd_items := rd_items s - {#y#}\<rparr>) = Some s' \<and> rd_inv one n op root v s' \<and>
    rd_work one n root s' < rd_work one n root s"
proof (cases y)
  case (Rd_enter r)
  have M: "rd_items s = add_mset (item_of r r (v r)) (rd_items s - {#y#})" using y by (simp add: item_of_def Rd_enter)
  have "total (to_enter r) (rd_items s) \<noteq> 0" by (subst M) simp
  then have "offered n op root v s r r (v r)"
    using rd_invD(5)[OF inv, of r] by (auto simp: rd_counts_ok_def offered_def contributors_def part_def intro: gathers.single split: if_splits)
  from contribute_good[OF inv this M] show ?thesis by (simp add: Rd_enter)
next
  case (Rd_contribute c r x)
  have t: "rd_items s = add_mset y (rd_items s - {#y#})" using y by simp
  have "total (from_child c) (rd_items s) \<noteq> 0" by (subst t) (simp add: Rd_contribute)
  then have c: "member n c" "c \<noteq> root" "rd_full n root s c" "c \<notin> rd_taken s (parent n root c)"
    using rd_invD(5)[OF inv, of c] by (auto simp: rd_counts_ok_def split: if_splits)
  have r: "r = parent n root c" "gathers op v (subtree n root c) x" using rd_invD(4)[OF inv y] by (auto simp: Rd_contribute)
  note p = parent_index_of[OF rd_invD(1)[OF inv] c(1,2)]
  have ne: "c \<noteq> r" using p(3) r(1) by auto
  have "rd_items s = add_mset (item_of c r x) (rd_items s - {#y#})" using t ne by (simp add: item_of_def Rd_contribute)
  moreover have "offered n op root v s c r x"
    using c r p(1) ne by (auto simp: offered_def contributors_def children_def part_def)
  ultimately show ?thesis using contribute_good[OF inv] by (simp add: Rd_contribute)
next
  case (Rd_result r x)
  have "rd_items s = add_mset (Rd_result r x) (rd_items s - {#y#})" using y by (simp add: Rd_result)
  from result_good[OF inv this] show ?thesis by (simp add: Rd_result)
qed

interpretation reduce_pool: live "reduce_step one n op root v" "rd_inv one n op root v" "rd_work one n root" "\<lambda>s. rd_items s = {#}"
  for one n op root v
proof
  show "rd_inv one n op root v t \<and> rd_work one n root t < rd_work one n root s"
    if "rd_inv one n op root v s" "reduce_step one n op root v s t" for s t
    using that(2) reduce_act_good[OF that(1)] by (fastforce elim: reduce_stepE)
  show "\<exists>t. reduce_step one n op root v s t" if i: "rd_inv one n op root v s" and ne: "rd_items s \<noteq> {#}" for s
  proof -
    obtain x where "x \<in># rd_items s" using ne by (rule multiset_nonemptyE)
    with reduce_act_good[OF i this] show ?thesis by (auto intro: reduce_step.intros)
  qed
qed

lemma reduce_start_inv:
  fixes v :: "int \<Rightarrow> 'a"
  assumes "member n root" "n \<le> 2 ^ 30"
  shows "rd_inv one n op root v (reduce_start n)" "rd_work one n root (reduce_start n :: 'a reduction) \<le> nat (3 * n - 2)"
proof -
  let ?s = "reduce_start n :: 'a reduction"
  have t: "total f (rd_items ?s) = (\<Sum>r \<in> {0..<n}. f (Rd_enter r))" for f
  proof -
    have "{0..<n} = set [0..n - 1]" by auto
    moreover have "total f (rd_items ?s) = sum_list (map (\<lambda>r. f (Rd_enter r)) [0..n - 1])"
      unfolding reduce_start_def reduction.simps mset_map[symmetric] sum_mset_sum_list map_map o_def ..
    ultimately show ?thesis by (simp add: sum_list_distinct_conv_sum_set)
  qed
  have nf: "\<not> rd_full n root ?s r" for r by (auto simp: rd_full_def reduce_start_def contributors_def)
  show "rd_inv one n op root v ?s"
  proof (rule rd_invI)
    show "rd_counts_ok one n root ?s q" for q
      unfolding rd_counts_ok_def t using nf by (auto simp: reduce_start_def member_def)
    show "rd_item_ok n op root v ?s z" if "z \<in># rd_items ?s" for z using that by (auto simp: reduce_start_def)
  qed (use assms in \<open>auto simp: rd_rank_ok_def reduce_start_def\<close>)
  have n: "0 < n" using assms(1) by (simp add: member_def)
  have "size (rd_items ?s) = nat n" unfolding size_eq_sum_mset t by simp
  moreover have "(\<Sum>r \<in> {0..<n}. to_send one n root ?s r) \<le> nat (n - 1) + nat (n - 1)"
  proof -
    have r: "root \<in> {0..<n}" using assms(1) by (simp add: member_def)
    then have c: "card ({0..<n} - {root}) = nat (n - 1)" by (simp add: nat_diff_distrib)
    have "(\<Sum>r \<in> {0..<n} - {root}. to_send one n root ?s r) = card ({0..<n} - {root})"
      using nf by (simp add: to_send_def)
    moreover have "to_send one n root ?s root \<le> card ({0..<n} - {root})" using nf by (simp add: to_send_def)
    ultimately show ?thesis using sum.remove[OF _ r, of "to_send one n root ?s"] c by simp
  qed
  ultimately show "rd_work one n root ?s \<le> nat (3 * n - 2)" using n by (simp add: rd_work_def)
qed

lemma reduce_run:
  fixes v :: "int \<Rightarrow> 'a"
  assumes "member n root" "n \<le> 2 ^ 30" "(reduce_step one n op root v ^^ k) (reduce_start n) s"
  shows "rd_inv one n op root v s" "k \<le> nat (3 * n - 2)"
  using reduce_pool.run_bounded[OF assms(3) reduce_start_inv(1)[OF assms(1,2)]] reduce_start_inv(2)[where 'a='a, OF assms(1,2), of one] by auto

text \<open>With an empty pool every rank is full, from the leaves of the tree to the root.\<close>

lemma empty_pool_full:
  assumes inv: "rd_inv one n op root v s" and e: "rd_items s = {#}" and "member n r"
  shows "rd_full n root s r"
  using assms(3)
proof (induction "nat (n - rank_index n root r)" arbitrary: r rule: less_induct)
  case less
  note root = rd_invD(1)[OF inv]
  have zero: "total f (rd_items s) = 0" for f using e by simp
  have "r \<in> rd_taken s r" using rd_invD(5)[OF inv, of r] zero less.prems by (auto simp: rd_counts_ok_def split: if_splits)
  moreover have "c \<in> rd_taken s r" if c: "c \<in> children n root r" for c
  proof -
    have m: "member n c" "c \<noteq> root" "parent n root c = r" using c by (auto simp: children_def)
    then have "rank_index n root r < rank_index n root c" using parent_index_of(3)[OF root m(1,2)] by simp
    then have "rd_full n root s c" using rank_index_bounds[OF root m(1)] m(1) by (intro less.hyps) auto
    then show ?thesis using rd_invD(5)[OF inv, of c] zero m by (auto simp: rd_counts_ok_def split: if_splits)
  qed
  moreover have "rd_taken s r \<subseteq> contributors n root r" using rd_invD(3)[OF inv less.prems] by (simp add: rd_rank_ok_def)
  ultimately show ?case by (auto simp: rd_full_def contributors_def)
qed

text \<open>
  (C16) Reduction to one rank. Over at most \<open>2 ^ 30\<close> ranks and whatever the order in which ranks call \<open>reduce_one\<close> and
  contributions arrive: no action fails, a run has at most \<open>3 n - 2\<close> steps, and when nothing is left under way every
  completion was fired exactly once, no state is left in a registry, and for an associative and commutative operation the value at the root
  is that of the loop over all ranks.
\<close>

theorem reduce_one_correct:
  assumes "member n root" "n \<le> 2 ^ 30" "abel_semigroup op" "(reduce_step True n op root v ^^ k) (reduce_start n) s"
  shows "int k \<le> 3 * n - 2 \<and>
    (\<forall>y \<in># rd_items s. \<exists>t. reduce_act True n op root v y (s\<lparr>rd_items := rd_items s - {#y#}\<rparr>) = Some t) \<and>
    (rd_items s = {#} \<longrightarrow>
       rd_done s root = [reduce_list op (map v [0..n - 1])] \<and>
       (\<forall>r. member n r \<longrightarrow> length (rd_done s r) = 1 \<and> rd_registry s r = None))"
proof -
  note inv = reduce_run[OF assms(1,2,4)]
  have "rd_registry s r = None \<and> rd_closed True n op root v s r" if "rd_items s = {#}" "member n r" for r
    using empty_pool_full[OF inv(1) that] rd_invD(3)[OF inv(1) that(2)]
    by (cases "rd_registry s r") (auto simp: rd_rank_ok_def rd_full_def contributors_def)
  moreover have "rd_done s root = [reduce_list op (map v [0..n - 1])]" if "rd_closed True n op root v s root"
    using that gathers_all[OF _ assms(3)] subtree_root[OF assms(1)] by (auto simp: rd_closed_def)
  moreover have "int k \<le> 3 * n - 2" using inv(2) assms(1) unfolding member_def by linarith
  ultimately show ?thesis using reduce_act_good[OF inv(1)] assms(1) by (fastforce simp: rd_closed_def)
qed

text \<open>
  (C4) Reduction to all ranks. Under the same conditions, when nothing is left under way the completion of every rank was fired
  exactly once, with the value of the loop over all ranks, and no state is left in a registry.
\<close>

theorem reduce_all_correct:
  assumes "member n root" "n \<le> 2 ^ 30" "abel_semigroup op" "(reduce_step False n op root v ^^ k) (reduce_start n) s"
  shows "int k \<le> 3 * n - 2 \<and>
    (\<forall>y \<in># rd_items s. \<exists>t. reduce_act False n op root v y (s\<lparr>rd_items := rd_items s - {#y#}\<rparr>) = Some t) \<and>
    (rd_items s = {#} \<longrightarrow>
       (\<forall>r. member n r \<longrightarrow> rd_done s r = [reduce_list op (map v [0..n - 1])] \<and> rd_registry s r = None))"
proof -
  note inv = reduce_run[OF assms(1,2,4)]
  have root: "rd_done s root = [reduce_list op (map v [0..n - 1])]" if "rd_items s = {#}"
    using empty_pool_full[OF inv(1) that assms(1)] rd_invD(3)[OF inv(1) assms(1)] gathers_all[OF _ assms(3), of v n] subtree_root[OF assms(1)]
    by (cases "rd_registry s root") (auto simp: rd_rank_ok_def rd_closed_def rd_full_def contributors_def)
  have "rd_registry s r = None \<and> rd_done s r = rd_done s root" if e: "rd_items s = {#}" and r: "member n r" for r
  proof (cases "r = root")
    case True
    then show ?thesis
      using empty_pool_full[OF inv(1) e r] rd_invD(3)[OF inv(1) r] by (cases "rd_registry s root") (auto simp: rd_rank_ok_def)
  next
    case False
    have "rd_done s r \<noteq> []" using rd_invD(5)[OF inv(1), of r] e r False root by (auto simp: rd_counts_ok_def split: if_splits)
    then show ?thesis
      using rd_invD(3)[OF inv(1) r] False by (cases "rd_registry s r") (auto simp: rd_rank_ok_def rd_closed_def)
  qed
  moreover have "int k \<le> 3 * n - 2" using inv(2) assms(1) unfolding member_def by linarith
  ultimately show ?thesis using root reduce_act_good[OF inv(1)] by metis
qed

subsection \<open>A sum over three ranks\<close>

theorem reduce_one_correct_witness:
  "\<exists>k s. (reduce_step True 3 (+) 1 (\<lambda>r. r + 10) ^^ k) (reduce_start 3) s \<and> k \<le> 7 \<and> rd_items s = {#} \<and>
     rd_done s 1 = [33] \<and> rd_registry s 2 = None"
proof -
  have m: "member 3 1" "(3 :: int) \<le> 2 ^ 30" "abel_semigroup ((+) :: int \<Rightarrow> int \<Rightarrow> int)" "member 3 2"
    by (simp_all add: member_def add.abel_semigroup_axioms)
  obtain k s where s: "(reduce_step True 3 (+) 1 (\<lambda>r. r + 10) ^^ k) (reduce_start 3 :: int reduction) s" "rd_items s = {#}"
    using reduce_pool.reaches_idle[OF reduce_start_inv(1)[OF m(1,2)]] by blast
  have "[0..2 :: int] = [0, 1, 2]" by (simp add: upto.simps)
  then show ?thesis using reduce_one_correct[OF m(1-3) s(1)] s m(4) by (intro exI[of _ k] exI[of _ s]) (simp add: reduce_list_def)
qed

theorem reduce_all_correct_witness:
  "\<exists>k s. (reduce_step False 3 (+) 1 (\<lambda>r. r + 10) ^^ k) (reduce_start 3) s \<and> rd_items s = {#} \<and>
     rd_done s 0 = [33] \<and> rd_done s 2 = [33]"
proof -
  have m: "member 3 1" "(3 :: int) \<le> 2 ^ 30" "abel_semigroup ((+) :: int \<Rightarrow> int \<Rightarrow> int)" "member 3 0" "member 3 2"
    by (simp_all add: member_def add.abel_semigroup_axioms)
  obtain k s where s: "(reduce_step False 3 (+) 1 (\<lambda>r. r + 10) ^^ k) (reduce_start 3 :: int reduction) s" "rd_items s = {#}"
    using reduce_pool.reaches_idle[OF reduce_start_inv(1)[OF m(1,2)]] by blast
  have "[0..2 :: int] = [0, 1, 2]" by (simp add: upto.simps)
  then show ?thesis using reduce_all_correct[OF m(1-3) s(1)] s m(4,5) by (intro exI[of _ k] exI[of _ s]) (simp add: reduce_list_def)
qed

end
