(* ===== verification/Local_Memory.thy ===== *)
theory Local_Memory
  imports Prelude "HOL-Library.Monad_Syntax"
begin

text \<open>
  Component local shared memory (src/backend.hpp, src/backend/gasnet/runtime.cpp): the tables of the shared segments that the
  processes of a node have mapped, and the translation between addresses of this process and pairs of a rank and an
  address of its owner. \<open>None\<close> is a failed assertion. The build is one without UPC, where a segment of
  GASNet-EX is the shared heap.
\<close>

subsection \<open>The tables\<close>

record pshm =
  pshm_peer_lb :: int
  pshm_local_minus_remote :: "u64 list"
  pshm_vbase :: "u64 list"
  pshm_size :: "u64 list"
  pshm_owner_vbase :: "u64 list"
  pshm_owner_peer :: "nat list"

text \<open>What \<open>gex_EP_QueryBoundSegmentNB\<close> reports of a peer: the base at its owner, the base here, and the size.\<close>

record segment_info =
  owner_vbase :: u64
  local_vbase :: u64
  seg_bytes :: u64

definition init_localheap_tables :: "int \<Rightarrow> segment_info list \<Rightarrow> pshm option" where
  "init_localheap_tables peer_lb infos =
     (if (\<forall>i \<in> set infos. owner_vbase i \<noteq> 0 \<and> local_vbase i \<noteq> 0 \<and> seg_bytes i \<noteq> 0)
      then let vbase = map local_vbase infos;
               owner_peer = sort_key (\<lambda>p. vbase ! p) [0..<length infos]
           in Some \<lparr>pshm_peer_lb = peer_lb,
                    pshm_local_minus_remote = map (\<lambda>i. local_vbase i - owner_vbase i) infos,
                    pshm_vbase = vbase,
                    pshm_size = map seg_bytes infos,
                    pshm_owner_vbase = map (\<lambda>p. vbase ! p) owner_peer,
                    pshm_owner_peer = owner_peer\<rparr>
      else None)"

definition pshm_peer_n :: "pshm \<Rightarrow> nat" where
  "pshm_peer_n m = length (pshm_vbase m)"

subsection \<open>From owners to this process\<close>

text \<open>\<open>std::uintptr_t(r) - std::uintptr_t(pshm_peer_lb) < std::uintptr_t(pshm_peer_n)\<close>\<close>

definition rank_is_local :: "pshm \<Rightarrow> int \<Rightarrow> bool" where
  "rank_is_local m r \<longleftrightarrow> (word_of_int r - word_of_int (pshm_peer_lb m) :: u64) < word_of_nat (pshm_peer_n m)"

definition peer_of :: "pshm \<Rightarrow> int \<Rightarrow> nat option" where
  "peer_of m rank =
     (if pshm_peer_lb m \<le> rank \<and> rank < pshm_peer_lb m + int (pshm_peer_n m) then Some (nat (rank - pshm_peer_lb m)) else None)"

definition localize_memory_nonnull :: "pshm \<Rightarrow> int \<Rightarrow> u64 \<Rightarrow> u64 option" where
  "localize_memory_nonnull m rank raw =
     do { peer \<leftarrow> peer_of m rank;
          let u = raw + pshm_local_minus_remote m ! peer;
          if u - pshm_vbase m ! peer < pshm_size m ! peer then Some u else None }"

definition localize_memory :: "pshm \<Rightarrow> int \<Rightarrow> u64 \<Rightarrow> u64 option" where
  "localize_memory m rank raw = (if raw = 0 then Some 0 else localize_memory_nonnull m rank raw)"

definition globalize_memory_nonnull :: "pshm \<Rightarrow> int \<Rightarrow> u64 \<Rightarrow> u64 option" where
  "globalize_memory_nonnull m rank u =
     do { peer \<leftarrow> peer_of m rank;
          let raw = u - pshm_local_minus_remote m ! peer;
          if u - pshm_vbase m ! peer < pshm_size m ! peer then Some raw else None }"

subsection \<open>From this process to owners\<close>

text \<open>\<open>std::upper_bound\<close> on a sorted array: the number of elements that are not above the key.\<close>

definition upper_bound :: "u64 list \<Rightarrow> u64 \<Rightarrow> nat" where
  "upper_bound xs key = length (takeWhile (\<lambda>v. v \<le> key) xs)"

definition globalize_memory :: "pshm \<Rightarrow> u64 \<Rightarrow> (int \<times> u64) option" where
  "globalize_memory m uaddr =
     (let key_ix = upper_bound (pshm_owner_vbase m) uaddr
      in if key_ix = 0 then None
         else let peer = pshm_owner_peer m ! (key_ix - 1)
              in if uaddr - pshm_vbase m ! peer \<le> pshm_size m ! peer
                 then Some (pshm_peer_lb m + int peer, uaddr - pshm_local_minus_remote m ! peer)
                 else None)"

definition globalize_memory_or :: "pshm \<Rightarrow> u64 \<Rightarrow> int \<times> u64 \<Rightarrow> int \<times> u64" where
  "globalize_memory_or m uaddr otherwise =
     (let key_ix = upper_bound (pshm_owner_vbase m) uaddr
      in if key_ix = 0 then otherwise
         else let peer = pshm_owner_peer m ! (key_ix - 1)
              in if uaddr - pshm_vbase m ! peer \<le> pshm_size m ! peer
                 then (pshm_peer_lb m + int peer, uaddr - pshm_local_minus_remote m ! peer)
                 else otherwise)"

subsection \<open>Addresses in messages\<close>

text \<open>An address, or a 64-bit integer, in two signed 32-bit arguments of an active message.\<close>

unbundle bit_operations_syntax

definition am_arg_encode_i64_lo :: "u64 \<Rightarrow> u32" where
  "am_arg_encode_i64_lo i = ucast (i AND 0xffffffff)"

definition am_arg_encode_i64_hi :: "u64 \<Rightarrow> u32" where
  "am_arg_encode_i64_hi i = ucast (signed_drop_bit 1 (signed_drop_bit 31 i))"

definition am_arg_decode_i64 :: "u32 \<Rightarrow> u32 \<Rightarrow> u64" where
  "am_arg_decode_i64 lo hi = push_bit 1 (push_bit 31 (scast hi)) OR (scast lo AND 0xffffffff)"

subsection \<open>Translation there and back\<close>

text \<open>What the tables rest on: the segments mapped by this process lie apart and do not wrap, those of the owners do not wrap.\<close>

definition disjoint_segments :: "segment_info list \<Rightarrow> bool" where
  "disjoint_segments infos \<longleftrightarrow>
     (\<forall>i \<in> set infos. unat (local_vbase i) + unat (seg_bytes i) < 2 ^ 64 \<and> unat (owner_vbase i) + unat (seg_bytes i) < 2 ^ 64) \<and>
     (\<forall>p < length infos. \<forall>q < length infos. p \<noteq> q \<longrightarrow>
        unat (local_vbase (infos ! p)) + unat (seg_bytes (infos ! p)) \<le> unat (local_vbase (infos ! q)) \<or>
        unat (local_vbase (infos ! q)) + unat (seg_bytes (infos ! q)) \<le> unat (local_vbase (infos ! p)))"

definition tables_of :: "int \<Rightarrow> segment_info list \<Rightarrow> pshm \<Rightarrow> bool" where
  "tables_of lb infos m \<longleftrightarrow> init_localheap_tables lb infos = Some m \<and> disjoint_segments infos"

lemma tables_of_fields:
  assumes "tables_of lb infos m"
  shows "pshm_peer_lb m = lb" "pshm_peer_n m = length infos" "p < length infos \<Longrightarrow> pshm_vbase m ! p = local_vbase (infos ! p)"
    "p < length infos \<Longrightarrow> pshm_size m ! p = seg_bytes (infos ! p)" "p < length infos \<Longrightarrow> seg_bytes (infos ! p) \<noteq> 0"
    "p < length infos \<Longrightarrow> pshm_local_minus_remote m ! p = local_vbase (infos ! p) - owner_vbase (infos ! p)"
    "p < length infos \<Longrightarrow> owner_vbase (infos ! p) \<noteq> 0"
    "set (pshm_owner_peer m) = {0..<length infos}" "sorted (pshm_owner_vbase m)"
    "pshm_owner_vbase m = map (\<lambda>p. local_vbase (infos ! p)) (pshm_owner_peer m)"
  using assms unfolding tables_of_def init_localheap_tables_def Let_def pshm_peer_n_def by (auto split: if_splits)

text \<open>\<open>upper_bound\<close> finds the last base that is not above the address.\<close>

lemma upper_bound_last:
  assumes "sorted xs"
  shows "upper_bound xs u \<le> length xs" "i < length xs \<Longrightarrow> xs ! i \<le> u \<longleftrightarrow> i < upper_bound xs u"
proof -
  show "upper_bound xs u \<le> length xs" by (simp add: upper_bound_def length_takeWhile_le)
  assume i: "i < length xs"
  show "xs ! i \<le> u \<longleftrightarrow> i < upper_bound xs u"
  proof
    assume "i < upper_bound xs u"
    then show "xs ! i \<le> u" unfolding upper_bound_def by (metis nth_mem set_takeWhileD takeWhile_nth)
  next
    assume l: "xs ! i \<le> u"
    show "i < upper_bound xs u"
    proof (rule ccontr)
      assume "\<not> i < upper_bound xs u"
      then have k: "upper_bound xs u \<le> i" by simp
      then have "\<not> xs ! upper_bound xs u \<le> u" using nth_length_takeWhile[of "\<lambda>v. v \<le> u" xs] i by (simp add: upper_bound_def)
      moreover have "xs ! upper_bound xs u \<le> xs ! i" using assms k i by (simp add: sorted_nth_mono)
      ultimately show False using l by simp
    qed
  qed
qed

lemma offset_inside:
  fixes b u sz :: u64
  assumes "unat b + unat sz < 2 ^ 64" "u - b < sz"
  shows "b \<le> u" "unat u < unat b + unat sz"
proof -
  show le: "b \<le> u"
  proof (rule ccontr)
    assume "\<not> b \<le> u"
    then have "unat u < unat b" by (simp add: word_le_nat_alt)
    then have "unat (u - b) = unat u + 2 ^ 64 - unat b" by (simp add: unat_sub_if_size word_size)
    then show False using assms by (simp add: word_less_nat_alt)
  qed
  then have "unat (u - b) = unat u - unat b" by (rule unat_sub_no_wrap)
  then show "unat u < unat b + unat sz" using assms(2) le by (simp add: word_less_nat_alt word_le_nat_alt)
qed

text \<open>An address inside a mapped segment leads to the peer of that segment.\<close>

lemma owner_found:
  assumes t: "tables_of lb infos m" and p: "p < length infos" and u: "u - local_vbase (infos ! p) < seg_bytes (infos ! p)"
  shows "upper_bound (pshm_owner_vbase m) u \<noteq> 0" "pshm_owner_peer m ! (upper_bound (pshm_owner_vbase m) u - 1) = p"
proof -
  note f = tables_of_fields[OF t]
  let ?xs = "pshm_owner_vbase m" and ?k = "upper_bound (pshm_owner_vbase m) u"
  have np: "unat (local_vbase (infos ! p)) + unat (seg_bytes (infos ! p)) < 2 ^ 64"
    using t p by (auto simp: tables_of_def disjoint_segments_def)
  have lo: "local_vbase (infos ! p) \<le> u" and hi: "unat u < unat (local_vbase (infos ! p)) + unat (seg_bytes (infos ! p))"
    using offset_inside[OF np u] by auto
  obtain i where i: "i < length (pshm_owner_peer m)" "pshm_owner_peer m ! i = p"
  proof -
    have "p \<in> set (pshm_owner_peer m)" using f(8) p by simp
    then show ?thesis using that by (auto simp: in_set_conv_nth)
  qed
  have len: "length ?xs = length (pshm_owner_peer m)" by (simp add: f(10))
  have ik: "i < ?k" using upper_bound_last(2)[OF f(9), of i u] i lo len by (simp add: f(10))
  then show "?k \<noteq> 0" by simp
  let ?q = "pshm_owner_peer m ! (?k - 1)"
  have k: "?k - 1 < length ?xs" using ik upper_bound_last(1)[OF f(9), of u] by simp
  then have "?q \<in> set (pshm_owner_peer m)" using len by (intro nth_mem) simp
  then have q: "?q < length infos" using f(8) by simp
  have "local_vbase (infos ! ?q) \<le> u" using upper_bound_last(2)[OF f(9) k, of u] ik k len by (simp add: f(10))
  moreover have "local_vbase (infos ! p) \<le> local_vbase (infos ! ?q)"
    using sorted_nth_mono[OF f(9), of i "?k - 1"] ik k i len by (simp add: f(10))
  ultimately have le: "unat (local_vbase (infos ! p)) \<le> unat (local_vbase (infos ! ?q))" "unat (local_vbase (infos ! ?q)) \<le> unat u"
    by (simp_all add: word_le_nat_alt)
  have "0 < unat (seg_bytes (infos ! ?q))" using f(5)[OF q] by (simp add: unat_gt_0)
  moreover have "unat (local_vbase (infos ! p)) + unat (seg_bytes (infos ! p)) \<le> unat (local_vbase (infos ! ?q)) \<or>
      unat (local_vbase (infos ! ?q)) + unat (seg_bytes (infos ! ?q)) \<le> unat (local_vbase (infos ! p))" if "?q \<noteq> p"
    using t p q that by (simp add: tables_of_def disjoint_segments_def)
  ultimately show "?q = p" using le hi by linarith
qed

lemma globalize_inside:
  assumes t: "tables_of lb infos m" and p: "p < length infos" and u: "u - local_vbase (infos ! p) < seg_bytes (infos ! p)"
  shows "globalize_memory m u = Some (lb + int p, u - (local_vbase (infos ! p) - owner_vbase (infos ! p)))"
    "globalize_memory_or m u other = (lb + int p, u - (local_vbase (infos ! p) - owner_vbase (infos ! p)))"
proof -
  note f = tables_of_fields[OF t] and o = owner_found[OF assms]
  have "u - local_vbase (infos ! p) \<le> seg_bytes (infos ! p)" using u by simp
  then show "globalize_memory m u = Some (lb + int p, u - (local_vbase (infos ! p) - owner_vbase (infos ! p)))"
    "globalize_memory_or m u other = (lb + int p, u - (local_vbase (infos ! p) - owner_vbase (infos ! p)))"
    using o p f(1,3,4,6) by (simp_all add: globalize_memory_def globalize_memory_or_def)
qed

lemma peer_of_index: "tables_of lb infos m \<Longrightarrow> p < length infos \<Longrightarrow> peer_of m (lb + int p) = Some p"
  using tables_of_fields(1,2)[of lb infos m] by (simp add: peer_of_def)

text \<open>The address of an owner is translated exactly if it is in the owner's segment.\<close>

lemma localize_iff:
  assumes t: "tables_of lb infos m" and p: "p < length infos"
  shows "localize_memory_nonnull m (lb + int p) raw =
    (if raw - owner_vbase (infos ! p) < seg_bytes (infos ! p) then Some (raw + (local_vbase (infos ! p) - owner_vbase (infos ! p))) else None)"
    "globalize_memory_nonnull m (lb + int p) u =
    (if u - local_vbase (infos ! p) < seg_bytes (infos ! p) then Some (u - (local_vbase (infos ! p) - owner_vbase (infos ! p))) else None)"
  using tables_of_fields(3,4,6)[OF t p] peer_of_index[OF t p]
  by (simp_all add: localize_memory_nonnull_def globalize_memory_nonnull_def)

lemma outside_kept:
  assumes t: "tables_of lb infos m" and out: "\<And>i. i \<in> set infos \<Longrightarrow> \<not> u - local_vbase i \<le> seg_bytes i"
  shows "globalize_memory_or m u other = other" "globalize_memory m u = None"
proof -
  note f = tables_of_fields[OF t]
  let ?k = "upper_bound (pshm_owner_vbase m) u" and ?q = "pshm_owner_peer m ! (upper_bound (pshm_owner_vbase m) u - 1)"
  have "\<not> u - local_vbase (infos ! ?q) \<le> seg_bytes (infos ! ?q) \<and> ?q < length infos" if "?k \<noteq> 0"
  proof -
    have "?k - 1 < length (pshm_owner_peer m)" using that upper_bound_last(1)[OF f(9), of u] by (simp add: f(10))
    then have "?q \<in> set (pshm_owner_peer m)" by (rule nth_mem)
    then show ?thesis using f(8) out by simp
  qed
  then show "globalize_memory_or m u other = other" "globalize_memory m u = None"
    using f(3,4) by (auto simp: globalize_memory_or_def globalize_memory_def Let_def)
qed

text \<open>
  Translation of shared memory there and back. With tables built for mapped segments that lie apart: an address in the segment of an owner
  becomes an address of this process from which \<open>globalize_memory\<close> finds the same rank and address; an address in a
  mapped segment becomes a rank and an address from which \<open>localize_memory\<close> finds the same address; an address
  of an owner outside of its segment fails the assertion; and an address of this process outside of all mapped segments gives the default.
\<close>

theorem local_memory_round_trip:
  assumes t: "tables_of lb infos m" and p: "p < length infos"
  shows "(raw - owner_vbase (infos ! p) < seg_bytes (infos ! p) \<longrightarrow>
       (\<exists>u. localize_memory_nonnull m (lb + int p) raw = Some u \<and> globalize_memory m u = Some (lb + int p, raw) \<and>
            globalize_memory_nonnull m (lb + int p) u = Some raw)) \<and>
    (u - local_vbase (infos ! p) < seg_bytes (infos ! p) \<longrightarrow>
       (\<exists>raw. globalize_memory m u = Some (lb + int p, raw) \<and> localize_memory_nonnull m (lb + int p) raw = Some u)) \<and>
    (\<not> raw - owner_vbase (infos ! p) < seg_bytes (infos ! p) \<longrightarrow> localize_memory_nonnull m (lb + int p) raw = None) \<and>
    ((\<forall>i \<in> set infos. \<not> u - local_vbase i \<le> seg_bytes i) \<longrightarrow> globalize_memory_or m u other = other)"
proof (intro conjI impI)
  let ?d = "local_vbase (infos ! p) - owner_vbase (infos ! p)"
  show "\<exists>u. localize_memory_nonnull m (lb + int p) raw = Some u \<and> globalize_memory m u = Some (lb + int p, raw) \<and>
      globalize_memory_nonnull m (lb + int p) u = Some raw"
    if "raw - owner_vbase (infos ! p) < seg_bytes (infos ! p)"
    using that globalize_inside(1)[OF assms, of "raw + ?d"] by (intro exI[of _ "raw + ?d"]) (simp add: localize_iff[OF assms])
  show "\<exists>raw. globalize_memory m u = Some (lb + int p, raw) \<and> localize_memory_nonnull m (lb + int p) raw = Some u"
    if "u - local_vbase (infos ! p) < seg_bytes (infos ! p)"
    using that globalize_inside(1)[OF assms that] by (simp add: localize_iff[OF assms])
  show "localize_memory_nonnull m (lb + int p) raw = None" if "\<not> raw - owner_vbase (infos ! p) < seg_bytes (infos ! p)"
    using that by (simp add: localize_iff[OF assms])
  show "globalize_memory_or m u other = other" if "\<forall>i \<in> set infos. \<not> u - local_vbase i \<le> seg_bytes i"
    using that by (intro outside_kept(1)[OF t]) auto
qed

definition example_infos :: "segment_info list" where
  "example_infos =
     [\<lparr>owner_vbase = 0x10000, local_vbase = 0x90000, seg_bytes = 0x1000\<rparr>, \<lparr>owner_vbase = 0x10000, local_vbase = 0x50000, seg_bytes = 0x1000\<rparr>]"

lemma example_tables: "\<exists>m. tables_of 4 example_infos m"
  by (auto simp: tables_of_def example_infos_def init_localheap_tables_def disjoint_segments_def Let_def nth_Cons' less_Suc_eq)

theorem local_memory_round_trip_witness:
  "\<exists>m u. tables_of 4 example_infos m \<and> localize_memory_nonnull m 5 0x10020 = Some u \<and> globalize_memory m u = Some (5, 0x10020)"
proof -
  obtain m where m: "tables_of 4 example_infos m" using example_tables by blast
  have "\<exists>u. localize_memory_nonnull m 5 0x10020 = Some u \<and> globalize_memory m u = Some (5, 0x10020)"
    using local_memory_round_trip[OF m, of 1 "0x10020" 0 "(0, 0)"] by (auto simp: example_infos_def)
  then show ?thesis using m by blast
qed

text \<open>
  The end of a segment is accepted by \<open>globalize_memory\<close> and the result is refused by \<open>localize_memory\<close>; in the example the
  segment of rank 5 ends where no other begins.
\<close>

theorem segment_end_one_way:
  "\<exists>m raw. tables_of 4 example_infos m \<and> globalize_memory m 0x51000 = Some (5, raw) \<and> localize_memory_nonnull m 5 raw = None"
proof -
  obtain m where m: "tables_of 4 example_infos m" using example_tables by blast
  then have g: "globalize_memory m 0x51000 = Some (5, 0x11000)"
    by (auto simp: tables_of_def example_infos_def init_localheap_tables_def Let_def globalize_memory_def upper_bound_def)
  have "localize_memory_nonnull m 5 0x11000 = None" using localize_iff(1)[OF m, of 1 "0x11000"] by (simp add: example_infos_def)
  then show ?thesis using m g by blast
qed

text \<open>The comparison of ranks in unsigned arithmetic.\<close>

lemma rank_is_local_iff:
  assumes "0 \<le> r" "r < 2 ^ 31" "0 \<le> pshm_peer_lb m" "pshm_peer_lb m < 2 ^ 31" "pshm_peer_n m < 2 ^ 31"
  shows "rank_is_local m r \<longleftrightarrow> (\<exists>p. peer_of m r = Some p)"
proof -
  let ?lb = "pshm_peer_lb m"
  have n: "uint (word_of_nat (pshm_peer_n m) :: u64) = int (pshm_peer_n m)"
    using assms(5) by (simp add: unsigned_of_nat take_bit_int_eq_self_iff flip: take_bit_of_nat)
  have "uint (word_of_int r - word_of_int ?lb :: u64) = (r - ?lb) mod 2 ^ 64"
    by (simp add: uint_word_ariths unsigned_of_int take_bit_eq_mod mod_diff_eq)
  moreover have "(r - ?lb) mod 2 ^ 64 = (if ?lb \<le> r then r - ?lb else r - ?lb + 2 ^ 64)"
  proof (cases "?lb \<le> r")
    case False
    have "(r - ?lb) mod 2 ^ 64 = (r - ?lb + 2 ^ 64) mod 2 ^ 64" by simp
    also have "\<dots> = r - ?lb + 2 ^ 64" using False assms by (intro mod_pos_pos_trivial) auto
    finally show ?thesis using False by simp
  qed (use assms in simp)
  ultimately show ?thesis
    using assms n by (auto simp: rank_is_local_def peer_of_def word_less_def)
qed

subsection \<open>Arguments of active messages\<close>

lemma mask32: "(0xffffffff :: u64) = mask 32"
  by (simp add: mask_eq_exp_minus_1)

text \<open>
  A 64-bit integer survives its passage through two signed 32-bit arguments, whatever its sign and that of its halves.
\<close>

theorem am_arg_round_trip: "am_arg_decode_i64 (am_arg_encode_i64_lo i) (am_arg_encode_i64_hi i) = i"
proof (rule bit_word_eqI)
  fix n
  assume "n < LENGTH(64)"
  then show "bit (am_arg_decode_i64 (am_arg_encode_i64_lo i) (am_arg_encode_i64_hi i)) n \<longleftrightarrow> bit i n"
    unfolding am_arg_decode_i64_def am_arg_encode_i64_lo_def am_arg_encode_i64_hi_def mask32
    by (cases "n < 32"; cases "n = 31"; cases "n = 63") (auto simp: bit_simps min_def)
qed

end
