(* ===== verification/Global_Ptr.thy ===== *)
theory Global_Ptr
  imports Local_Memory "HOL-Library.Product_Lexorder" "HOL-Library.Signed_Division"
begin

unbundle bit_operations_syntax

text \<open>
  Component global pointers and memory kinds (src/global_ptr.hpp, src/global_ptr_impl.hpp, src/memory_kind.hpp, the
  check of src/backend/gasnet/runtime.cpp, and the indexes of device heaps of src/device_fwd.hpp), in a build with device support
  and with the checks of global pointers enabled, after \<open>upcxx::init\<close>. \<open>None\<close> is a fatal error.
\<close>

subsection \<open>Memory kinds and pointers\<close>

datatype memory_kind = Host | Cuda_device | Hip_device | Ze_device | Any_kind

text \<open>The index of the heap is a bit field of 24 bits.\<close>

type_synonym u24 = "24 word"

record global_ptr =
  heap_idx :: u24
  gp_dynamic_kind :: memory_kind
  gp_rank :: int
  raw_ptr :: u64

subsection \<open>The check of a pointer\<close>

text \<open>
  What a process knows: the number of ranks and its own, its tables of local memory, its shared heap, its device heaps with kind and range,
  and what GASNet-EX answers about the segment of another rank: nothing, that there is none, or its range.
\<close>

datatype seg_answer = No_answer | No_segment | Segment u64 u64

record process =
  rank_n :: int
  rank_me :: int
  local_tables :: pshm
  shared_heap :: "u64 \<times> u64"
  max_heaps :: nat
  device_heap :: "u24 \<Rightarrow> (memory_kind \<times> u64 \<times> u64) option"
  native_gex_mk :: "memory_kind \<Rightarrow> bool"
  query_segment :: "int \<Rightarrow> u24 \<Rightarrow> seg_answer"

text \<open>The range in which the pointer must lie: \<open>Inl\<close> an error, \<open>Inr None\<close> not known.\<close>

definition segment_bounds :: "process \<Rightarrow> global_ptr \<Rightarrow> unit + (u64 \<times> u64) option" where
  "segment_bounds pr p =
     (let ask = (case query_segment pr (gp_rank p) (heap_idx p) of
                   No_answer \<Rightarrow> Inr None | No_segment \<Rightarrow> Inl () | Segment b n \<Rightarrow> Inr (Some (b, n)))
      in if heap_idx p = 0
         then if gp_rank p = rank_me pr then Inr (Some (shared_heap pr)) else ask
         else if gp_rank p = rank_me pr
         then (case device_heap pr (heap_idx p) of
                 None \<Rightarrow> Inl ()
               | Some (k, b, n) \<Rightarrow> if gp_dynamic_kind p \<noteq> k then Inl () else Inr (Some (b, n)))
         else if native_gex_mk pr (gp_dynamic_kind p) then ask else Inr None)"

definition validate_global_ptr :: "process \<Rightarrow> bool \<Rightarrow> memory_kind \<Rightarrow> nat \<Rightarrow> global_ptr \<Rightarrow> bool" where
  "validate_global_ptr pr allow_null Kind T_align p =
     (if raw_ptr p = 0 then heap_idx p = 0 \<and> gp_rank p = 0 \<and> allow_null
      else 0 \<le> gp_rank p \<and> gp_rank p < rank_n pr \<and>
           \<not> (Kind = Host \<and> heap_idx p \<noteq> 0) \<and>
           \<not> (Kind \<noteq> Host \<and> Kind \<noteq> Any_kind \<and> heap_idx p = 0) \<and>
           unat (heap_idx p) < max_heaps pr \<and>
           gp_dynamic_kind p \<noteq> Any_kind \<and>
           \<not> (Kind \<noteq> Any_kind \<and> gp_dynamic_kind p \<noteq> Kind) \<and>
           (gp_dynamic_kind p = Host \<longleftrightarrow> heap_idx p = 0) \<and>
           (case segment_bounds pr p of
              Inl _ \<Rightarrow> False
            | Inr None \<Rightarrow> True
            | Inr (Some (b, n)) \<Rightarrow> b \<le> raw_ptr p \<and> raw_ptr p \<le> b + n - 1) \<and>
           (1 < T_align \<longrightarrow> unat (raw_ptr p) mod T_align = 0))"

text \<open>A pointer type: the static kind, and the size and alignment of the element.\<close>

record gp_type =
  kind :: memory_kind
  elt_size :: nat
  elt_align :: nat

definition gptr_chk :: "process \<Rightarrow> gp_type \<Rightarrow> global_ptr \<Rightarrow> global_ptr option" where
  "gptr_chk pr ty p = (if validate_global_ptr pr True (kind ty) (elt_align ty) p then Some p else None)"

definition gptr_chk_nonnull :: "process \<Rightarrow> gp_type \<Rightarrow> global_ptr \<Rightarrow> global_ptr option" where
  "gptr_chk_nonnull pr ty p = (if validate_global_ptr pr False (kind ty) (elt_align ty) p then Some p else None)"

subsection \<open>Construction and queries\<close>

definition make_gptr :: "process \<Rightarrow> gp_type \<Rightarrow> int \<Rightarrow> u64 \<Rightarrow> u32 \<Rightarrow> memory_kind \<Rightarrow> global_ptr option" where
  "make_gptr pr ty rank raw heap dyn = gptr_chk pr ty \<lparr>heap_idx = ucast heap, gp_dynamic_kind = dyn, gp_rank = rank, raw_ptr = raw\<rparr>"

definition null_gptr :: "process \<Rightarrow> gp_type \<Rightarrow> global_ptr option" where
  "null_gptr pr ty = make_gptr pr ty 0 0 0 (kind ty)"

definition is_null :: "process \<Rightarrow> gp_type \<Rightarrow> global_ptr \<Rightarrow> bool option" where
  "is_null pr ty p = do { _ \<leftarrow> gptr_chk pr ty p; Some (heap_idx p = 0 \<and> raw_ptr p = 0) }"

definition is_local :: "process \<Rightarrow> gp_type \<Rightarrow> global_ptr \<Rightarrow> bool option" where
  "is_local pr ty p =
     do { _ \<leftarrow> gptr_chk pr ty p;
          Some ((kind ty = Host \<or> heap_idx p = 0) \<and> (raw_ptr p = 0 \<or> rank_is_local (local_tables pr) (gp_rank p))) }"

definition local_ptr :: "process \<Rightarrow> gp_type \<Rightarrow> global_ptr \<Rightarrow> u64 option" where
  "local_ptr pr ty p =
     do { _ \<leftarrow> gptr_chk pr ty p;
          if kind ty = Host \<or> heap_idx p = 0 then localize_memory (local_tables pr) (gp_rank p) (raw_ptr p) else None }"

definition where_rank :: "process \<Rightarrow> gp_type \<Rightarrow> global_ptr \<Rightarrow> int option" where
  "where_rank pr ty p = do { _ \<leftarrow> gptr_chk pr ty p; Some (gp_rank p) }"

definition dynamic_kind :: "process \<Rightarrow> gp_type \<Rightarrow> global_ptr \<Rightarrow> memory_kind option" where
  "dynamic_kind pr ty p =
     do { _ \<leftarrow> gptr_chk pr ty p; Some (if kind ty = Any_kind then gp_dynamic_kind p else kind ty) }"

subsection \<open>Arithmetic\<close>

definition gp_plus :: "process \<Rightarrow> gp_type \<Rightarrow> global_ptr \<Rightarrow> int \<Rightarrow> global_ptr option" where
  "gp_plus pr ty p diff =
     do { _ \<leftarrow> (if diff \<noteq> 0 then gptr_chk_nonnull pr ty p else gptr_chk pr ty p);
          gptr_chk pr ty (p\<lparr>raw_ptr := raw_ptr p + word_of_int (diff * int (elt_size ty))\<rparr>) }"

definition gp_minus :: "process \<Rightarrow> gp_type \<Rightarrow> global_ptr \<Rightarrow> int \<Rightarrow> global_ptr option" where
  "gp_minus pr ty p diff =
     do { _ \<leftarrow> (if diff \<noteq> 0 then gptr_chk_nonnull pr ty p else gptr_chk pr ty p);
          gptr_chk pr ty (p\<lparr>raw_ptr := raw_ptr p - word_of_int (diff * int (elt_size ty))\<rparr>) }"

definition gp_diff :: "process \<Rightarrow> gp_type \<Rightarrow> global_ptr \<Rightarrow> global_ptr \<Rightarrow> int option" where
  "gp_diff pr ty p rhs =
     do { _ \<leftarrow> (if raw_ptr p = raw_ptr rhs then gptr_chk pr ty p else gptr_chk_nonnull pr ty p);
          _ \<leftarrow> (if raw_ptr p = raw_ptr rhs then gptr_chk pr ty rhs else gptr_chk_nonnull pr ty rhs);
          if heap_idx p = heap_idx rhs \<and> gp_rank p = gp_rank rhs
          then Some (sint (raw_ptr p - raw_ptr rhs) sdiv int (elt_size ty)) else None }"

subsection \<open>Comparisons\<close>

definition gp_eq :: "global_ptr \<Rightarrow> global_ptr \<Rightarrow> bool" where
  "gp_eq a b \<longleftrightarrow> heap_idx a = heap_idx b \<and> gp_rank a = gp_rank b \<and> raw_ptr a = raw_ptr b"

definition gp_ne :: "global_ptr \<Rightarrow> global_ptr \<Rightarrow> bool" where
  "gp_ne a b \<longleftrightarrow> heap_idx a \<noteq> heap_idx b \<or> gp_rank a \<noteq> gp_rank b \<or> raw_ptr a \<noteq> raw_ptr b"

text \<open>The specializations of \<open>std::less\<close> and its kin, line by line.\<close>

definition std_less :: "global_ptr \<Rightarrow> global_ptr \<Rightarrow> bool" where
  "std_less lhs rhs =
     (let ans = raw_ptr lhs < raw_ptr rhs;
          ans = (ans \<and> gp_rank lhs = gp_rank rhs);
          ans = (ans \<or> gp_rank lhs < gp_rank rhs);
          ans = (ans \<and> heap_idx lhs = heap_idx rhs)
      in ans \<or> heap_idx lhs < heap_idx rhs)"

definition std_less_equal :: "global_ptr \<Rightarrow> global_ptr \<Rightarrow> bool" where
  "std_less_equal lhs rhs =
     (let ans = raw_ptr lhs \<le> raw_ptr rhs;
          ans = (ans \<and> gp_rank lhs = gp_rank rhs);
          ans = (ans \<or> gp_rank lhs < gp_rank rhs);
          ans = (ans \<and> heap_idx lhs = heap_idx rhs)
      in ans \<or> heap_idx lhs < heap_idx rhs)"

definition std_greater :: "global_ptr \<Rightarrow> global_ptr \<Rightarrow> bool" where
  "std_greater lhs rhs =
     (let ans = raw_ptr lhs > raw_ptr rhs;
          ans = (ans \<and> gp_rank lhs = gp_rank rhs);
          ans = (ans \<or> gp_rank lhs > gp_rank rhs);
          ans = (ans \<and> heap_idx lhs = heap_idx rhs)
      in ans \<or> heap_idx lhs > heap_idx rhs)"

definition std_greater_equal :: "global_ptr \<Rightarrow> global_ptr \<Rightarrow> bool" where
  "std_greater_equal lhs rhs =
     (let ans = raw_ptr lhs \<ge> raw_ptr rhs;
          ans = (ans \<and> gp_rank lhs = gp_rank rhs);
          ans = (ans \<or> gp_rank lhs > gp_rank rhs);
          ans = (ans \<and> heap_idx lhs = heap_idx rhs)
      in ans \<or> heap_idx lhs > heap_idx rhs)"

definition std_hash :: "global_ptr \<Rightarrow> u64" where
  "std_hash p =
     (let b = push_bit 32 (ucast (heap_idx p)) OR ucast (word_of_int (gp_rank p) :: u32);
          a = raw_ptr p
      in a XOR (b + 0x9e3779b9 + push_bit 6 a + drop_bit 2 a))"

subsection \<open>Casts and conversions\<close>

definition static_kind_cast :: "process \<Rightarrow> gp_type \<Rightarrow> gp_type \<Rightarrow> global_ptr \<Rightarrow> global_ptr option" where
  "static_kind_cast pr from to p =
     do { _ \<leftarrow> gptr_chk pr from p; make_gptr pr to (gp_rank p) (raw_ptr p) (ucast (heap_idx p)) (gp_dynamic_kind p) }"

definition dynamic_kind_cast :: "process \<Rightarrow> gp_type \<Rightarrow> gp_type \<Rightarrow> global_ptr \<Rightarrow> global_ptr option" where
  "dynamic_kind_cast pr from to p =
     do { _ \<leftarrow> gptr_chk pr from p;
          k \<leftarrow> dynamic_kind pr from p;
          if kind to = Any_kind \<or> kind to = k
          then make_gptr pr to (gp_rank p) (raw_ptr p) (ucast (heap_idx p)) (gp_dynamic_kind p)
          else null_gptr pr to }"

definition pointer_cast :: "process \<Rightarrow> gp_type \<Rightarrow> gp_type \<Rightarrow> global_ptr \<Rightarrow> global_ptr option" where
  "pointer_cast pr from to p =
     do { _ \<leftarrow> gptr_chk pr from p; make_gptr pr to (gp_rank p) (raw_ptr p) (ucast (heap_idx p)) (gp_dynamic_kind p) }"

definition to_global_ptr :: "process \<Rightarrow> gp_type \<Rightarrow> u64 \<Rightarrow> global_ptr option" where
  "to_global_ptr pr ty p =
     (if p = 0 then null_gptr pr ty
      else do { (rank, raw) \<leftarrow> globalize_memory (local_tables pr) p; make_gptr pr ty rank raw 0 (kind ty) })"

definition try_global_ptr :: "process \<Rightarrow> gp_type \<Rightarrow> u64 \<Rightarrow> global_ptr option" where
  "try_global_ptr pr ty p =
     (let (rank, raw) = (if p = 0 then (0, 0) else globalize_memory_or (local_tables pr) p (0, 0))
      in make_gptr pr ty rank raw 0 (kind ty))"

subsection \<open>Indexes of device heaps\<close>

text \<open>
  \<open>max_heaps_cat\<close> and \<open>heap_count\<close> for native and reference heaps; the entries of the table are the heaps in use. The host is heap 0.
\<close>

record heap_table =
  max_heaps_cat :: "nat \<times> nat"
  heap_count :: "nat \<times> nat"
  heaps :: "nat \<Rightarrow> bool"

definition heap_init :: "nat \<times> nat \<Rightarrow> heap_table" where
  "heap_init mx = \<lparr>max_heaps_cat = mx, heap_count = (1, 0), heaps = (\<lambda>_. False)\<rparr>"

definition first_free :: "(nat \<Rightarrow> bool) \<Rightarrow> nat \<Rightarrow> nat \<Rightarrow> nat option" where
  "first_free used base lim = find (\<lambda>i. \<not> used i) [base..<lim]"

definition alloc_index :: "bool \<Rightarrow> heap_table \<Rightarrow> (nat \<times> heap_table) option" where
  "alloc_index uses_gex_mk t =
     (let (native, refs) = heap_count t; (max0, max1) = max_heaps_cat t
      in if uses_gex_mk
         then if native < max0 \<and> native < max0 + max1 \<and> \<not> heaps t native
              then Some (native, t\<lparr>heap_count := (native + 1, refs)\<rparr>) else None
         else if refs < max1
         then do { idx \<leftarrow> first_free (heaps t) max0 (max0 + max1);
                   if 0 < idx then Some (idx, t\<lparr>heap_count := (native, refs + 1)\<rparr>) else None }
         else None)"

definition set_heap :: "nat \<Rightarrow> bool \<Rightarrow> heap_table \<Rightarrow> heap_table" where
  "set_heap idx used t = t\<lparr>heaps := (heaps t)(idx := used)\<rparr>"

definition free_index :: "nat \<Rightarrow> heap_table \<Rightarrow> heap_table option" where
  "free_index idx t =
     (let (native, refs) = heap_count t; (max0, max1) = max_heaps_cat t
      in if 0 < idx \<and> idx < max0 + max1 \<and> \<not> heaps t idx
         then if idx < max0 then (if 0 < native then Some t else None)
              else if 0 < refs then Some (t\<lparr>heap_count := (native, refs - 1)\<rparr>) else None
         else None)"

text \<open>A device heap is opened with a new index and entered in the table, and closed in the reverse order.\<close>

definition open_heap :: "bool \<Rightarrow> heap_table \<Rightarrow> (nat \<times> heap_table) option" where
  "open_heap uses_gex_mk t = do { (idx, t) \<leftarrow> alloc_index uses_gex_mk t; Some (idx, set_heap idx True t) }"

definition close_heap :: "nat \<Rightarrow> heap_table \<Rightarrow> heap_table option" where
  "close_heap idx t = (if heaps t idx then free_index idx (set_heap idx False t) else None)"

end
