(* ===== verification/Global_Ptr_Correct.thy ===== *)
theory Global_Ptr_Correct
  imports Global_Ptr
begin

text \<open>
  Correctness of global pointers: their total order, arithmetic, conversions from and to local addresses and between
  memory kinds, and the indexes of device heaps.
\<close>

lemma heap_idx_stored [simp]: "(ucast (ucast (h :: u24) :: u32) :: u24) = h"
  by (rule bit_word_eqI) (auto simp: bit_unsigned_iff)

subsection \<open>Order\<close>

definition gp_key :: "global_ptr \<Rightarrow> u24 \<times> int \<times> u64" where
  "gp_key p = (heap_idx p, gp_rank p, raw_ptr p)"

lemma std_comparisons:
  "std_less a b \<longleftrightarrow> gp_key a < gp_key b" "std_less_equal a b \<longleftrightarrow> gp_key a \<le> gp_key b"
  "std_greater a b \<longleftrightarrow> gp_key b < gp_key a" "std_greater_equal a b \<longleftrightarrow> gp_key b \<le> gp_key a"
  "gp_eq a b \<longleftrightarrow> gp_key a = gp_key b" "gp_ne a b \<longleftrightarrow> gp_key a \<noteq> gp_key b"
  by (auto simp: std_less_def std_less_equal_def std_greater_def std_greater_equal_def gp_eq_def gp_ne_def gp_key_def Let_def
      less_prod_def less_eq_prod_def)

text \<open>
  The specializations of \<open>std::less\<close>, \<open>less_equal\<close>, \<open>greater\<close> and \<open>greater_equal\<close> are one total order of global
  pointers, by heap, rank and address, whose equality is the operator \<open>==\<close>, and equal pointers have equal hashes.
\<close>

theorem gptr_total_order:
  "(std_less a b \<longleftrightarrow> gp_key a < gp_key b) \<and> (std_less_equal a b \<longleftrightarrow> gp_key a \<le> gp_key b) \<and>
   (std_greater a b \<longleftrightarrow> gp_key b < gp_key a) \<and> (std_greater_equal a b \<longleftrightarrow> gp_key b \<le> gp_key a) \<and>
   (gp_eq a b \<longleftrightarrow> gp_key a = gp_key b) \<and> (gp_ne a b \<longleftrightarrow> gp_key a \<noteq> gp_key b) \<and>
   (gp_key a = gp_key b \<longrightarrow> std_hash a = std_hash b)"
  unfolding std_comparisons by (auto simp: gp_key_def std_hash_def Let_def)

theorem gptr_total_order_witness:
  "std_hash \<lparr>heap_idx = 0, gp_dynamic_kind = Host, gp_rank = 3, raw_ptr = 0x100\<rparr> =
   std_hash \<lparr>heap_idx = 0, gp_dynamic_kind = Any_kind, gp_rank = 3, raw_ptr = 0x100\<rparr>"
  using gptr_total_order[of "\<lparr>heap_idx = 0, gp_dynamic_kind = Host, gp_rank = 3, raw_ptr = 0x100\<rparr>"
      "\<lparr>heap_idx = 0, gp_dynamic_kind = Any_kind, gp_rank = 3, raw_ptr = 0x100\<rparr>"] by (simp add: gp_key_def)

subsection \<open>Arithmetic\<close>

lemma chk_Some [simp]: "gptr_chk pr ty p = Some q \<longleftrightarrow> q = p \<and> validate_global_ptr pr True (kind ty) (elt_align ty) p"
  "gptr_chk_nonnull pr ty p = Some q \<longleftrightarrow> q = p \<and> validate_global_ptr pr False (kind ty) (elt_align ty) p"
  by (auto simp: gptr_chk_def gptr_chk_nonnull_def)

lemma validate_nonnull:
  "validate_global_ptr pr True k al p \<Longrightarrow> raw_ptr p \<noteq> 0 \<Longrightarrow> validate_global_ptr pr False k al p"
  "validate_global_ptr pr False k al p \<Longrightarrow> validate_global_ptr pr True k al p"
  "validate_global_ptr pr False k al p \<Longrightarrow> raw_ptr p \<noteq> 0"
  by (auto simp: validate_global_ptr_def split: if_splits)

lemma sint_offset: "\<bar>d\<bar> < 2 ^ 63 \<Longrightarrow> sint (word_of_int d :: u64) = d"
  by (simp add: signed_of_int signed_take_bit_int_eq_self_iff) linarith

lemma offset_nonzero: "\<bar>d\<bar> < 2 ^ 63 \<Longrightarrow> d \<noteq> 0 \<Longrightarrow> (word_of_int d :: u64) \<noteq> 0"
  using sint_offset[of d] by (metis signed_0)

text \<open>
  (C39) Arithmetic. When \<open>p + i\<close> passes the checks and is not null, the difference of \<open>p + i\<close> and \<open>p\<close> is \<open>i\<close> and
  \<open>p + i - i\<close> is \<open>p\<close>, for offsets of less than \<open>2 ^ 63\<close> bytes; rank, heap and kind stay the same.
\<close>

theorem gptr_arithmetic:
  assumes "gp_plus pr ty p i = Some q" "0 < elt_size ty" "\<bar>i * int (elt_size ty)\<bar> < 2 ^ 63" "raw_ptr q \<noteq> 0"
  shows "gp_diff pr ty q p = Some i \<and> gp_minus pr ty q i = Some p \<and>
    gp_rank q = gp_rank p \<and> heap_idx q = heap_idx p \<and> gp_dynamic_kind q = gp_dynamic_kind p"
proof -
  let ?d = "word_of_int (i * int (elt_size ty)) :: u64"
  have q: "q = p\<lparr>raw_ptr := raw_ptr p + ?d\<rparr>" "validate_global_ptr pr True (kind ty) (elt_align ty) q"
    "validate_global_ptr pr True (kind ty) (elt_align ty) p" "i \<noteq> 0 \<Longrightarrow> validate_global_ptr pr False (kind ty) (elt_align ty) p"
    using assms(1) by (auto simp: gp_plus_def bind_eq_Some_conv validate_nonnull(2) split: if_splits)
  have qn: "validate_global_ptr pr False (kind ty) (elt_align ty) q" using validate_nonnull(1)[OF q(2) assms(4)] .
  have "sint (raw_ptr q - raw_ptr p) = i * int (elt_size ty)" using sint_offset[OF assms(3)] by (simp add: q(1))
  then have "sint (raw_ptr q - raw_ptr p) sdiv int (elt_size ty) = i"
    using assms(2) by (simp add: signed_divide_int_def sgn_mult abs_mult sgn_mult_abs)
  moreover have "raw_ptr q = raw_ptr p \<longleftrightarrow> i = 0" using offset_nonzero[OF assms(3)] assms(2) by (auto simp: q(1))
  ultimately have "gp_diff pr ty q p = Some i"
    using q(2-4) qn by (cases "i = 0") (auto simp: gp_diff_def bind_eq_Some_conv q(1) gptr_chk_def gptr_chk_nonnull_def)
  moreover have "gp_minus pr ty q i = Some p"
    using q(2-4) qn by (auto simp: gp_minus_def bind_eq_Some_conv q(1) gptr_chk_def gptr_chk_nonnull_def)
  ultimately show ?thesis by (simp add: q(1))
qed

definition example_process :: "pshm \<Rightarrow> process" where
  "example_process m =
     \<lparr>rank_n = 8, rank_me = 4, local_tables = m, shared_heap = (0x10000, 0x1000), max_heaps = 5,
      device_heap = (\<lambda>h. if h = 2 then Some (Cuda_device, 0x700000, 0x8000) else None), native_gex_mk = (\<lambda>_. True),
      query_segment = (\<lambda>r h. if h = 0 then Segment 0x10000 0x1000 else No_answer)\<rparr>"

abbreviation int_ptr :: gp_type where
  "int_ptr \<equiv> \<lparr>kind = Host, elt_size = 4, elt_align = 4\<rparr>"

theorem gptr_arithmetic_witness:
  "\<forall>m. gp_diff (example_process m) int_ptr
         \<lparr>heap_idx = 0, gp_dynamic_kind = Host, gp_rank = 4, raw_ptr = 0x10080\<rparr>
         \<lparr>heap_idx = 0, gp_dynamic_kind = Host, gp_rank = 4, raw_ptr = 0x10100\<rparr> = Some (- 32)"
proof
  fix m
  let ?p = "\<lparr>heap_idx = 0, gp_dynamic_kind = Host, gp_rank = 4, raw_ptr = 0x10100\<rparr>"
  have "gp_plus (example_process m) int_ptr ?p (- 32) = Some (?p\<lparr>raw_ptr := 0x10080\<rparr>)"
    by (simp add: gp_plus_def gptr_chk_def gptr_chk_nonnull_def validate_global_ptr_def segment_bounds_def example_process_def)
  from gptr_arithmetic[OF this]
  show "gp_diff (example_process m) int_ptr \<lparr>heap_idx = 0, gp_dynamic_kind = Host, gp_rank = 4, raw_ptr = 0x10080\<rparr> ?p = Some (- 32)"
    by simp
qed

subsection \<open>Local addresses\<close>

text \<open>The process agrees with the tables of its node: its ranks exist, and what it knows of their host segments is what the tables say.\<close>

definition process_ok :: "process \<Rightarrow> int \<Rightarrow> segment_info list \<Rightarrow> bool" where
  "process_ok pr lb infos \<longleftrightarrow>
     tables_of lb infos (local_tables pr) \<and> 0 \<le> lb \<and> lb + int (length infos) \<le> rank_n pr \<and> rank_n pr < 2 ^ 31 \<and> 0 < max_heaps pr \<and>
     (\<forall>p < length infos.
        (if lb + int p = rank_me pr then shared_heap pr = (owner_vbase (infos ! p), seg_bytes (infos ! p))
         else query_segment pr (lb + int p) 0 \<in> {No_answer, Segment (owner_vbase (infos ! p)) (seg_bytes (infos ! p))}))"

lemma offset_of_owner:
  fixes b n raw :: u64
  assumes "unat b + unat n < 2 ^ 64" "raw - b < n" "b \<noteq> 0"
  shows "raw \<noteq> 0" "b \<le> raw" "raw \<le> b + n - 1"
proof -
  note o = offset_inside[OF assms(1,2)]
  show "b \<le> raw" by (rule o)
  then show "raw \<noteq> 0" using assms(3) by (auto simp: word_le_nat_alt unat_eq_zero)
  have "0 < unat n" using o by (simp add: word_le_nat_alt)
  moreover have "unat (b + n) = unat b + unat n" using assms(1) by (intro unat_add_no_wrap) simp
  moreover from calculation have "unat (b + n - 1) = unat b + unat n - 1" by (subst unat_sub) (auto simp: word_le_nat_alt)
  ultimately show "raw \<le> b + n - 1" using o by (simp add: word_le_nat_alt)
qed

lemma host_pointer_valid:
  assumes ok: "process_ok pr lb infos" and p: "p < length infos" and raw: "raw - owner_vbase (infos ! p) < seg_bytes (infos ! p)"
    and ty: "kind ty = Host" "unat raw mod elt_align ty = 0"
  shows "validate_global_ptr pr nul (kind ty) (elt_align ty) \<lparr>heap_idx = 0, gp_dynamic_kind = Host, gp_rank = lb + int p, raw_ptr = raw\<rparr>"
proof -
  have t: "tables_of lb infos (local_tables pr)" using ok by (simp add: process_ok_def)
  have "unat (owner_vbase (infos ! p)) + unat (seg_bytes (infos ! p)) < 2 ^ 64"
    using t p by (auto simp: tables_of_def disjoint_segments_def)
  note o = offset_of_owner[OF this raw tables_of_fields(7)[OF t p]]
  have "if lb + int p = rank_me pr then shared_heap pr = (owner_vbase (infos ! p), seg_bytes (infos ! p))
     else query_segment pr (lb + int p) 0 \<in> {No_answer, Segment (owner_vbase (infos ! p)) (seg_bytes (infos ! p))}"
    using ok p unfolding process_ok_def by blast
  then have "segment_bounds pr \<lparr>heap_idx = 0, gp_dynamic_kind = Host, gp_rank = lb + int p, raw_ptr = raw\<rparr>
      \<in> {Inr None, Inr (Some (owner_vbase (infos ! p), seg_bytes (infos ! p)))}"
    by (auto simp: segment_bounds_def split: if_splits)
  then show ?thesis using ok p ty o by (auto simp: validate_global_ptr_def process_ok_def)
qed

text \<open>
  The end of a segment that is not inside another one is taken for an address of the segment by \<open>globalize_memory\<close>; its pointer
  lies behind the range that the check allows.
\<close>

lemma globalize_at_end:
  assumes t: "tables_of lb infos m" and p: "p < length infos" and w: "w = local_vbase (infos ! p) + seg_bytes (infos ! p)"
    and out: "\<And>i. i \<in> set infos \<Longrightarrow> \<not> w - local_vbase i < seg_bytes i"
  shows "globalize_memory m w = Some (lb + int p, owner_vbase (infos ! p) + seg_bytes (infos ! p))"
    "globalize_memory_or m w other = (lb + int p, owner_vbase (infos ! p) + seg_bytes (infos ! p))"
proof -
  note f = tables_of_fields[OF t]
  let ?xs = "pshm_owner_vbase m" and ?k = "upper_bound (pshm_owner_vbase m) w"
  let ?q = "pshm_owner_peer m ! (?k - 1)"
  have np: "unat (local_vbase (infos ! p)) + unat (seg_bytes (infos ! p)) < 2 ^ 64"
    using t p by (auto simp: tables_of_def disjoint_segments_def)
  then have uw: "unat w = unat (local_vbase (infos ! p)) + unat (seg_bytes (infos ! p))" unfolding w by (intro unat_add_no_wrap) simp
  then have lo: "local_vbase (infos ! p) \<le> w" by (simp add: word_le_nat_alt)
  obtain i where i: "i < length (pshm_owner_peer m)" "pshm_owner_peer m ! i = p"
    using f(8) p in_set_conv_nth[of p "pshm_owner_peer m"] by auto
  have len: "length ?xs = length (pshm_owner_peer m)" by (simp add: f(10))
  have ik: "i < ?k" using upper_bound_last(2)[OF f(9), of i w] i lo len by (simp add: f(10))
  have k: "?k - 1 < length ?xs" using ik upper_bound_last(1)[OF f(9), of w] by simp
  then have "?q \<in> set (pshm_owner_peer m)" using len by (intro nth_mem) simp
  then have q: "?q < length infos" using f(8) by simp
  have "local_vbase (infos ! ?q) \<le> w" using upper_bound_last(2)[OF f(9) k, of w] ik k len by (simp add: f(10))
  moreover have "local_vbase (infos ! p) \<le> local_vbase (infos ! ?q)"
    using sorted_nth_mono[OF f(9), of i "?k - 1"] ik k i len by (simp add: f(10))
  ultimately have le: "unat (local_vbase (infos ! p)) \<le> unat (local_vbase (infos ! ?q))" "unat (local_vbase (infos ! ?q)) \<le> unat w"
    by (simp_all add: word_le_nat_alt)
  have sq: "0 < unat (seg_bytes (infos ! ?q))" using f(5)[OF q] by (simp add: unat_gt_0)
  have "?q = p"
  proof (rule ccontr)
    assume "?q \<noteq> p"
    then have "unat (local_vbase (infos ! p)) + unat (seg_bytes (infos ! p)) \<le> unat (local_vbase (infos ! ?q)) \<or>
      unat (local_vbase (infos ! ?q)) + unat (seg_bytes (infos ! ?q)) \<le> unat (local_vbase (infos ! p))"
      using t p q by (simp add: tables_of_def disjoint_segments_def)
    then have "unat (local_vbase (infos ! ?q)) = unat w" using le uw sq by linarith
    then have "w - local_vbase (infos ! ?q) < seg_bytes (infos ! ?q)" using sq by (simp add: word_less_nat_alt word_unat_eq_iff[symmetric])
    then show False using out[of "infos ! ?q"] q by simp
  qed
  moreover have "w - (local_vbase (infos ! p) - owner_vbase (infos ! p)) = owner_vbase (infos ! p) + seg_bytes (infos ! p)" by (simp add: w)
  moreover have "w - local_vbase (infos ! p) \<le> seg_bytes (infos ! p)" by (simp add: w)
  ultimately show "globalize_memory m w = Some (lb + int p, owner_vbase (infos ! p) + seg_bytes (infos ! p))"
    "globalize_memory_or m w other = (lb + int p, owner_vbase (infos ! p) + seg_bytes (infos ! p))"
    using ik p f(1,3,4,6) by (simp_all add: globalize_memory_def globalize_memory_or_def Let_def)
qed

text \<open>What a process knows of the segment of a rank.\<close>

definition bounds_known :: "process \<Rightarrow> int \<Rightarrow> bool" where
  "bounds_known pr rank \<longleftrightarrow> rank = rank_me pr \<or> query_segment pr rank 0 \<noteq> No_answer"

lemma end_pointer_rejected:
  assumes ok: "process_ok pr lb infos" and p: "p < length infos" and b: "bounds_known pr (lb + int p)" and ty: "kind ty = Host"
  shows "make_gptr pr ty (lb + int p) (owner_vbase (infos ! p) + seg_bytes (infos ! p)) 0 Host = None"
proof -
  let ?raw = "owner_vbase (infos ! p) + seg_bytes (infos ! p)"
  have t: "tables_of lb infos (local_tables pr)" using ok by (simp add: process_ok_def)
  have "unat (owner_vbase (infos ! p)) + unat (seg_bytes (infos ! p)) < 2 ^ 64"
    using t p by (auto simp: tables_of_def disjoint_segments_def)
  then have ur: "unat ?raw = unat (owner_vbase (infos ! p)) + unat (seg_bytes (infos ! p))" by (intro unat_add_no_wrap) simp
  have "0 < unat (seg_bytes (infos ! p))" using tables_of_fields(5)[OF t p] by (simp add: unat_gt_0)
  then have "0 < unat ?raw" using ur by linarith
  then have r0: "?raw \<noteq> 0" by (intro notI) simp
  then have "unat (?raw - 1) = unat ?raw - 1" by (rule unat_minus_one)
  then have lt: "\<not> ?raw \<le> ?raw - 1" using \<open>0 < unat ?raw\<close> unfolding word_le_nat_alt by linarith
  have "if lb + int p = rank_me pr then shared_heap pr = (owner_vbase (infos ! p), seg_bytes (infos ! p))
     else query_segment pr (lb + int p) 0 \<in> {No_answer, Segment (owner_vbase (infos ! p)) (seg_bytes (infos ! p))}"
    using ok p unfolding process_ok_def by blast
  then have "segment_bounds pr \<lparr>heap_idx = 0, gp_dynamic_kind = Host, gp_rank = lb + int p, raw_ptr = ?raw\<rparr> =
      Inr (Some (owner_vbase (infos ! p), seg_bytes (infos ! p)))"
    using b by (auto simp: segment_bounds_def bounds_known_def split: if_splits)
  then have "\<not> validate_global_ptr pr True (kind ty) (elt_align ty)
      \<lparr>heap_idx = 0, gp_dynamic_kind = Host, gp_rank = lb + int p, raw_ptr = ?raw\<rparr>"
    using r0 lt by (simp add: validate_global_ptr_def)
  then show ?thesis by (simp add: make_gptr_def gptr_chk_def)
qed

text \<open>
  (C19) Local addresses and global pointers. On a process that agrees with the tables of its node, the address of an element
  in a mapped segment becomes a global pointer, by \<open>to_global_ptr\<close> and by \<open>try_global_ptr\<close>, whose rank owns the segment, which
  is local, and whose local address is the one it was made from. An address outside of the mapped segments that is not
  the end of one becomes the null pointer by \<open>try_global_ptr\<close> and fails the assertion of \<open>to_global_ptr\<close>. The end of a segment, unless it lies in another one, is
  taken for an address of the segment: both conversions make the pointer and fail its check, wherever the process
  knows the bounds of that segment.
\<close>

theorem gptr_local_round_trip:
  assumes ok: "process_ok pr lb infos" and p: "p < length infos" and u: "u - local_vbase (infos ! p) < seg_bytes (infos ! p)" "u \<noteq> 0"
    and ty: "kind ty = Host" "unat (u - (local_vbase (infos ! p) - owner_vbase (infos ! p))) mod elt_align ty = 0"
  shows "(\<exists>g. to_global_ptr pr ty u = Some g \<and> try_global_ptr pr ty u = Some g \<and> where_rank pr ty g = Some (lb + int p) \<and>
      is_local pr ty g = Some True \<and> is_null pr ty g = Some False \<and> local_ptr pr ty g = Some u) \<and>
    (\<forall>w. (\<forall>i \<in> set infos. \<not> w - local_vbase i \<le> seg_bytes i) \<longrightarrow>
      (\<exists>g. try_global_ptr pr ty w = Some g \<and> is_null pr ty g = Some True \<and> local_ptr pr ty g = Some 0) \<and>
      (w \<noteq> 0 \<longrightarrow> to_global_ptr pr ty w = None)) \<and>
    (\<forall>q < length infos. \<forall>w. w = local_vbase (infos ! q) + seg_bytes (infos ! q) \<longrightarrow>
      (\<forall>i \<in> set infos. \<not> w - local_vbase i < seg_bytes i) \<longrightarrow> bounds_known pr (lb + int q) \<longrightarrow>
      to_global_ptr pr ty w = None \<and> try_global_ptr pr ty w = None)"
proof -
  let ?raw = "u - (local_vbase (infos ! p) - owner_vbase (infos ! p))"
  let ?g = "\<lparr>heap_idx = 0, gp_dynamic_kind = Host, gp_rank = lb + int p, raw_ptr = ?raw\<rparr>"
  let ?n = "\<lparr>heap_idx = 0, gp_dynamic_kind = Host, gp_rank = 0, raw_ptr = 0\<rparr>"
  have t: "tables_of lb infos (local_tables pr)" using ok by (simp add: process_ok_def)
  have r: "?raw - owner_vbase (infos ! p) < seg_bytes (infos ! p)" using u(1) by simp
  have v: "validate_global_ptr pr nul (kind ty) (elt_align ty) ?g" for nul by (rule host_pointer_valid[OF ok p r ty])
  have "?raw \<noteq> 0" using validate_nonnull(3)[OF v] by simp
  have "rank_is_local (local_tables pr) (lb + int p)"
    using rank_is_local_iff[of "lb + int p" "local_tables pr"] tables_of_fields(1,2)[OF t] peer_of_index[OF t p] ok p
    by (simp add: process_ok_def)
  moreover have "localize_memory (local_tables pr) (lb + int p) ?raw = Some u"
    using localize_iff(1)[OF t p, of ?raw] u(1) \<open>?raw \<noteq> 0\<close> by (simp add: localize_memory_def)
  ultimately have "where_rank pr ty ?g = Some (lb + int p)" "is_local pr ty ?g = Some True" "is_null pr ty ?g = Some False" "local_ptr pr ty ?g = Some u"
    using v \<open>?raw \<noteq> 0\<close> ty(1) by (simp_all add: where_rank_def is_local_def is_null_def local_ptr_def gptr_chk_def)
  moreover have "to_global_ptr pr ty u = Some ?g" "try_global_ptr pr ty u = Some ?g"
    using u(2) v ty(1) globalize_inside[OF t p u(1)] by (simp_all add: to_global_ptr_def try_global_ptr_def make_gptr_def)
  moreover have "try_global_ptr pr ty w = Some ?n \<and> is_null pr ty ?n = Some True \<and> local_ptr pr ty ?n = Some 0 \<and>
      (w \<noteq> 0 \<longrightarrow> to_global_ptr pr ty w = None)"
    if "\<forall>i \<in> set infos. \<not> w - local_vbase i \<le> seg_bytes i" for w
  proof -
    have "globalize_memory_or (local_tables pr) w (0, 0) = (0, 0)" "globalize_memory (local_tables pr) w = None"
      using outside_kept[OF t] that by blast+
    moreover have "validate_global_ptr pr True Host (elt_align ty) ?n" by (simp add: validate_global_ptr_def)
    ultimately show ?thesis
      using ty(1) by (simp add: try_global_ptr_def make_gptr_def is_null_def local_ptr_def localize_memory_def gptr_chk_def to_global_ptr_def)
  qed
  moreover have "to_global_ptr pr ty w = None \<and> try_global_ptr pr ty w = None"
    if q: "q < length infos" and w: "w = local_vbase (infos ! q) + seg_bytes (infos ! q)"
      and out: "\<forall>i \<in> set infos. \<not> w - local_vbase i < seg_bytes i" and b: "bounds_known pr (lb + int q)" for q w
  proof -
    have "unat (local_vbase (infos ! q)) + unat (seg_bytes (infos ! q)) < 2 ^ 64" "0 < unat (seg_bytes (infos ! q))"
      using t q tables_of_fields(5)[OF t q] by (auto simp: tables_of_def disjoint_segments_def unat_gt_0)
    then have "0 < unat w" unfolding w by (subst unat_add_no_wrap) simp_all
    then have w0: "w \<noteq> 0" by (intro notI) simp
    have "\<not> w - local_vbase i < seg_bytes i" if "i \<in> set infos" for i using out that by blast
    from globalize_at_end[OF t q w this] end_pointer_rejected[OF ok q b ty(1)] w0 ty(1)
    show ?thesis by (simp add: to_global_ptr_def try_global_ptr_def)
  qed
  ultimately show ?thesis by (intro conjI allI impI exI[of _ ?g] exI[of _ ?n]) simp_all
qed

theorem gptr_local_round_trip_witness:
  "\<exists>m g. to_global_ptr (example_process m) int_ptr 0x50020 = Some g \<and> local_ptr (example_process m) int_ptr g = Some 0x50020 \<and>
     try_global_ptr (example_process m) int_ptr (local_vbase (example_infos ! 1) + seg_bytes (example_infos ! 1)) = None"
proof -
  obtain m where m: "tables_of 4 example_infos m" using example_tables by blast
  let ?w = "local_vbase (example_infos ! 1) + seg_bytes (example_infos ! 1)"
  have "process_ok (example_process m) 4 example_infos"
    using m by (simp add: process_ok_def example_process_def) (simp add: example_infos_def nth_Cons')
  note rt = gptr_local_round_trip[OF this, of 1 "0x50020" int_ptr]
  have "\<exists>g. to_global_ptr (example_process m) int_ptr 0x50020 = Some g \<and> local_ptr (example_process m) int_ptr g = Some 0x50020"
    using rt by (auto simp: example_infos_def)
  moreover have "\<forall>i \<in> set example_infos. \<not> ?w - local_vbase i < seg_bytes i" by (simp add: example_infos_def)
  moreover have "bounds_known (example_process m) (4 + int 1)" by (simp add: bounds_known_def example_process_def)
  moreover have i: "1 < length example_infos" by (simp add: example_infos_def)
  moreover have "\<forall>q < length example_infos. \<forall>w. w = local_vbase (example_infos ! q) + seg_bytes (example_infos ! q) \<longrightarrow>
      (\<forall>i \<in> set example_infos. \<not> w - local_vbase i < seg_bytes i) \<longrightarrow> bounds_known (example_process m) (4 + int q) \<longrightarrow>
      to_global_ptr (example_process m) int_ptr w = None \<and> try_global_ptr (example_process m) int_ptr w = None"
    using rt i by (simp add: example_infos_def)
  ultimately show ?thesis by blast
qed

subsection \<open>Kinds\<close>

text \<open>
  Memory kinds. A pointer that is valid with a static kind is the same pointer with kind \<open>any\<close>, the dynamic kind of which is
  that static kind; cast back to its kind it is the pointer it was, and cast to another kind it is null.
\<close>

theorem kind_cast_round_trip:
  assumes "kind ty \<noteq> Any_kind" "raw_ptr p \<noteq> 0" "validate_global_ptr pr True (kind ty) (elt_align ty) p"
  shows "static_kind_cast pr ty (ty\<lparr>kind := Any_kind\<rparr>) p = Some p \<and>
    dynamic_kind pr (ty\<lparr>kind := Any_kind\<rparr>) p = Some (kind ty) \<and>
    dynamic_kind_cast pr (ty\<lparr>kind := Any_kind\<rparr>) ty p = Some p \<and>
    (\<forall>k. k \<noteq> kind ty \<longrightarrow> k \<noteq> Any_kind \<longrightarrow>
       (\<exists>q. dynamic_kind_cast pr (ty\<lparr>kind := Any_kind\<rparr>) (ty\<lparr>kind := k\<rparr>) p = Some q \<and> is_null pr (ty\<lparr>kind := k\<rparr>) q = Some True))"
proof -
  have k: "gp_dynamic_kind p = kind ty" using assms by (auto simp: validate_global_ptr_def)
  have v: "validate_global_ptr pr True Any_kind (elt_align ty) p"
    using assms by (cases "kind ty") (auto simp: validate_global_ptr_def)
  have eq: "\<lparr>heap_idx = heap_idx p, gp_dynamic_kind = kind ty, gp_rank = gp_rank p, raw_ptr = raw_ptr p\<rparr> = p"
    using k by (cases p) simp
  have n: "validate_global_ptr pr True k al \<lparr>heap_idx = 0, gp_dynamic_kind = k, gp_rank = 0, raw_ptr = 0\<rparr>" for k al
    by (simp add: validate_global_ptr_def)
  show ?thesis
    using assms k v
    by (simp add: static_kind_cast_def dynamic_kind_cast_def dynamic_kind_def make_gptr_def null_gptr_def is_null_def gptr_chk_def eq n)
qed

theorem kind_cast_round_trip_witness:
  "\<forall>m. dynamic_kind_cast (example_process m) \<lparr>kind = Any_kind, elt_size = 4, elt_align = 4\<rparr> \<lparr>kind = Cuda_device, elt_size = 4, elt_align = 4\<rparr>
     \<lparr>heap_idx = 2, gp_dynamic_kind = Cuda_device, gp_rank = 4, raw_ptr = 0x700100\<rparr>
   = Some \<lparr>heap_idx = 2, gp_dynamic_kind = Cuda_device, gp_rank = 4, raw_ptr = 0x700100\<rparr>"
proof
  fix m
  let ?p = "\<lparr>heap_idx = 2, gp_dynamic_kind = Cuda_device, gp_rank = 4, raw_ptr = 0x700100\<rparr>"
  have "validate_global_ptr (example_process m) True Cuda_device 4 ?p"
    by (simp add: validate_global_ptr_def segment_bounds_def example_process_def)
  then show "dynamic_kind_cast (example_process m) \<lparr>kind = Any_kind, elt_size = 4, elt_align = 4\<rparr> \<lparr>kind = Cuda_device, elt_size = 4, elt_align = 4\<rparr> ?p = Some ?p"
    using kind_cast_round_trip[of "\<lparr>kind = Cuda_device, elt_size = 4, elt_align = 4\<rparr>" ?p "example_process m"] by simp
qed

subsection \<open>Indexes of device heaps\<close>

definition heap_ok :: "heap_table \<Rightarrow> bool" where
  "heap_ok t \<longleftrightarrow>
     (let (native, refs) = heap_count t; (max0, max1) = max_heaps_cat t
      in 1 \<le> native \<and> native \<le> max0 \<and> refs = card {i. max0 \<le> i \<and> i < max0 + max1 \<and> heaps t i} \<and>
         (\<forall>i. heaps t i \<longrightarrow> 0 < i \<and> i < max0 + max1 \<and> (i < max0 \<longrightarrow> i < native)))"

lemma first_free_Some:
  assumes "card {i. base \<le> i \<and> i < base + k \<and> used i} < k"
  shows "\<exists>i. first_free used base (base + k) = Some i \<and> base \<le> i \<and> i < base + k \<and> \<not> used i"
proof -
  have "\<exists>i \<in> set [base..<base + k]. \<not> used i"
  proof (rule ccontr)
    assume "\<not> ?thesis"
    then have "{i. base \<le> i \<and> i < base + k \<and> used i} = {base..<base + k}" by auto
    then show False using assms by simp
  qed
  then have "find (\<lambda>i. \<not> used i) [base..<base + k] \<noteq> None" by (auto simp: find_None_iff)
  then show ?thesis by (auto simp: first_free_def find_Some_iff)
qed

lemma card_range_insert:
  "a \<le> i \<Longrightarrow> i < b \<Longrightarrow> \<not> used i \<Longrightarrow> card {j. a \<le> j \<and> j < b \<and> (used(i := True)) j} = Suc (card {j. a \<le> j \<and> j < b \<and> used j})" for a :: nat
proof -
  assume i: "a \<le> i" "i < b" "\<not> used i"
  then have "{j. a \<le> j \<and> j < b \<and> (used(i := True)) j} = insert i {j. a \<le> j \<and> j < b \<and> used j}" by auto
  moreover have "finite {j. a \<le> j \<and> j < b \<and> used j}" by (rule finite_subset[of _ "{..<b}"]) auto
  ultimately show ?thesis using i by simp
qed

text \<open>
  (C40) Indexes of device heaps. Opening a heap while its category has room gives an index that is in no use, within the range of
  the category and not that of the host; closing a heap in use succeeds and frees its entry, and both keep the table consistent.
  Native indexes are not used again.
\<close>

theorem heap_index_correct:
  assumes ok: "heap_ok t"
  shows "(fst (heap_count t) < fst (max_heaps_cat t) \<longrightarrow>
       (\<exists>t'. open_heap True t = Some (fst (heap_count t), t') \<and> \<not> heaps t (fst (heap_count t)) \<and> heap_ok t' \<and>
             heaps t' = (heaps t)(fst (heap_count t) := True))) \<and>
    (snd (heap_count t) < snd (max_heaps_cat t) \<longrightarrow>
       (\<exists>i t'. open_heap False t = Some (i, t') \<and> \<not> heaps t i \<and> fst (max_heaps_cat t) \<le> i \<and>
             i < fst (max_heaps_cat t) + snd (max_heaps_cat t) \<and> heap_ok t' \<and> heaps t' = (heaps t)(i := True))) \<and>
    (\<forall>i. heaps t i \<longrightarrow> (\<exists>t'. close_heap i t = Some t' \<and> heap_ok t' \<and> heaps t' = (heaps t)(i := False)))"
proof -
  obtain native refs max0 max1 where c: "heap_count t = (native, refs)" "max_heaps_cat t = (max0, max1)" by fastforce
  have h: "1 \<le> native" "native \<le> max0" "refs = card {i. max0 \<le> i \<and> i < max0 + max1 \<and> heaps t i}"
    "\<And>i. heaps t i \<Longrightarrow> 0 < i \<and> i < max0 + max1 \<and> (i < max0 \<longrightarrow> i < native)"
    using ok by (auto simp: heap_ok_def c)
  have 1: "\<exists>t'. open_heap True t = Some (native, t') \<and> \<not> heaps t native \<and> heap_ok t' \<and> heaps t' = (heaps t)(native := True)" if "native < max0"
  proof -
    have n: "\<not> heaps t native" using h(4)[of native] that by auto
    have "{i. max0 \<le> i \<and> i < max0 + max1 \<and> ((heaps t)(native := True)) i} = {i. max0 \<le> i \<and> i < max0 + max1 \<and> heaps t i}"
      using that by auto
    then have "heap_ok (t\<lparr>heap_count := (native + 1, refs), heaps := (heaps t)(native := True)\<rparr>)"
      using h that by (auto simp: heap_ok_def c less_Suc_eq)
    then show ?thesis using that n by (simp add: open_heap_def alloc_index_def set_heap_def c)
  qed
  have 2: "\<exists>i t'. open_heap False t = Some (i, t') \<and> \<not> heaps t i \<and> max0 \<le> i \<and> i < max0 + max1 \<and> heap_ok t' \<and> heaps t' = (heaps t)(i := True)"
    if room: "refs < max1"
  proof -
    obtain i where i: "first_free (heaps t) max0 (max0 + max1) = Some i" "max0 \<le> i" "i < max0 + max1" "\<not> heaps t i"
      using first_free_Some[of max0 max1 "heaps t"] room h(3) by auto
    have "heap_ok (t\<lparr>heap_count := (native, refs + 1), heaps := (heaps t)(i := True)\<rparr>)"
      using h i card_range_insert[of max0 i "max0 + max1" "heaps t"] by (auto simp: heap_ok_def c)
    then show ?thesis using room i h(1,2) by (simp add: open_heap_def alloc_index_def set_heap_def c)
  qed
  have 3: "\<exists>t'. close_heap i t = Some t' \<and> heap_ok t' \<and> heaps t' = (heaps t)(i := False)" if i: "heaps t i" for i
  proof -
    let ?u = "(heaps t)(i := False)"
    have r: "0 < i" "i < max0 + max1" using h(4)[OF i] by auto
    show ?thesis
    proof (cases "i < max0")
      case True
      then have "{j. max0 \<le> j \<and> j < max0 + max1 \<and> ?u j} = {j. max0 \<le> j \<and> j < max0 + max1 \<and> heaps t j}" by auto
      then have "heap_ok (t\<lparr>heaps := ?u\<rparr>)" using h by (auto simp: heap_ok_def c)
      then show ?thesis using True r h(1) i by (simp add: close_heap_def free_index_def set_heap_def c)
    next
      case False
      have "?u(i := True) = heaps t" using i by (simp add: fun_eq_iff)
      then have "refs = Suc (card {j. max0 \<le> j \<and> j < max0 + max1 \<and> ?u j})"
        using card_range_insert[of max0 i "max0 + max1" ?u] False r h(3) by simp
      then have "heap_ok (t\<lparr>heaps := ?u, heap_count := (native, refs - 1)\<rparr>)" "0 < refs" using h by (auto simp: heap_ok_def c)
      then show ?thesis using False r i by (simp add: close_heap_def free_index_def set_heap_def c)
    qed
  qed
  show ?thesis using 1 2 3 by (simp add: c)
qed

lemma heap_init_ok: "1 \<le> max0 \<Longrightarrow> heap_ok (heap_init (max0, max1))"
  by (simp add: heap_ok_def heap_init_def)

theorem heap_index_correct_witness:
  "\<exists>i t'. open_heap False (heap_init (33, 33)) = Some (i, t') \<and> 33 \<le> i \<and> heap_ok t'"
  using heap_index_correct[OF heap_init_ok[of 33 33]] by (auto simp: heap_init_def)

end
