(* ===== verification/Handle_Cb.thy ===== *)
theory Handle_Cb
  imports Intru_Queue_Correct "HOL-Library.Multiset" "HOL-Library.Sublist"
begin

unbundle bit_operations_syntax

text \<open>
  Component network handles and callbacks (src/backend/gasnet/handle_cb.hpp, \<open>handle_cb_queue::burst\<close> of
  src/backend/gasnet/runtime.cpp). The queue has the layout of an intrusive queue: \<open>head_\<close> at its address and \<open>tailp_xor_head_\<close>
  behind it; the link \<open>next_\<close> of a callback is behind its pointer to virtual functions. \<open>gex_Event_Test\<close> and the callbacks
  are parameters that act on a state of their own; callbacks also act on the memory. The \<open>handle\<close> of a callback does not change while
  the callback is in a queue, so the test of its event is taken as a function of the callback.
\<close>

subsection \<open>The queue\<close>

definition next_off :: u64 where "next_off = 8"

definition get_tailp :: "u64 \<Rightarrow> memory \<Rightarrow> u64" where
  "get_tailp q m = m (xor_cell q) XOR q"

definition set_tailp :: "u64 \<Rightarrow> u64 \<Rightarrow> memory \<Rightarrow> memory" where
  "set_tailp q tailp m = m(xor_cell q := q XOR tailp)"

definition hcb_empty :: "u64 \<Rightarrow> memory \<Rightarrow> bool" where
  "hcb_empty q m \<longleftrightarrow> m q = 0"

text \<open>A callback that is in no queue has the link 1; enqueueing another one fails the assertion.\<close>

definition hcb_enqueue :: "u64 \<Rightarrow> u64 \<Rightarrow> memory \<Rightarrow> memory option" where
  "hcb_enqueue q cb m =
     (if m (cb + next_off) = 1
      then let m = m(cb + next_off := 0);
               m = m(get_tailp q m := cb)
           in Some (set_tailp q (cb + next_off) m)
      else None)"

text \<open>\<open>handle_cb_successor\<close>: a callback that is in no queue is linked in where \<open>pp\<close> points.\<close>

definition hcb_successor :: "u64 \<Rightarrow> u64 \<Rightarrow> u64 \<Rightarrow> memory \<Rightarrow> memory" where
  "hcb_successor q pp succ m =
     (if m (succ + next_off) = 1
      then let m = (if m pp = 0 then set_tailp q (succ + next_off) m else m);
               m = m(succ + next_off := m pp)
           in m(pp := succ)
      else m)"

type_synonym 's hcb_fn = "u64 \<Rightarrow> u64 \<Rightarrow> memory \<times> 's \<Rightarrow> memory \<times> 's"

definition execute_outside :: "'s hcb_fn \<Rightarrow> u64 \<Rightarrow> u64 \<Rightarrow> memory \<times> 's \<Rightarrow> memory \<times> 's" where
  "execute_outside fn q cb st = fn cb (get_tailp q (fst st)) st"

subsection \<open>The burst\<close>

text \<open>\<open>test\<close> is \<open>gex_Event_Test\<close> on the handle of a callback: whether the event is done.\<close>

type_synonym 's hcb_test = "u64 \<Rightarrow> 's \<Rightarrow> bool \<times> 's"

definition hcb_remove :: "u64 \<Rightarrow> u64 \<Rightarrow> u64 \<Rightarrow> memory \<Rightarrow> memory" where
  "hcb_remove q pp p m =
     (let m = m(pp := m (p + next_off)) in if m pp = 0 then set_tailp q pp m else m)"

partial_function (option) hcb_loop ::
  "'s hcb_test \<Rightarrow> 's hcb_fn \<Rightarrow> u64 \<Rightarrow> bool \<Rightarrow> int \<Rightarrow> u64 \<Rightarrow> nat \<Rightarrow> int \<Rightarrow> int \<Rightarrow> memory \<times> 's
   \<Rightarrow> (nat \<times> int \<times> memory \<times> 's) option" where
  "hcb_loop test fn q maybe_spinning miss_limit pp exec_n miss_n aborted_burst_n st =
     (if fst st pp = 0 then Some (exec_n, aborted_burst_n, st)
      else let p = fst st pp;
               (done, s) = test p (snd st)
           in if done
              then hcb_loop test fn q maybe_spinning miss_limit pp (exec_n + 1) 0 0 (fn p pp (hcb_remove q pp p (fst st), s))
              else if miss_n + 1 = miss_limit
              then Some (exec_n, if maybe_spinning \<and> exec_n = 0 then min (aborted_burst_n + 1) 1024 else aborted_burst_n, fst st, s)
              else hcb_loop test fn q maybe_spinning miss_limit (p + next_off) exec_n (miss_n + 1) aborted_burst_n (fst st, s))"

declare hcb_loop.simps [code]

text \<open>The number of callbacks run, the new count of aborted bursts, and the memory and state.\<close>

definition hcb_burst ::
  "'s hcb_test \<Rightarrow> 's hcb_fn \<Rightarrow> u64 \<Rightarrow> bool \<Rightarrow> int \<Rightarrow> memory \<times> 's \<Rightarrow> (nat \<times> int \<times> memory \<times> 's) option" where
  "hcb_burst test fn q maybe_spinning aborted_burst_n st =
     (let aborted_burst_n_and_spinning = (if maybe_spinning then aborted_burst_n else 0)
      in hcb_loop test fn q maybe_spinning (4 + aborted_burst_n_and_spinning) q 0 (- 4 * aborted_burst_n_and_spinning) aborted_burst_n st)"

subsection \<open>The operations on the contents\<close>

lemma tailp_last: "queue_holds off q m xs \<Longrightarrow> get_tailp q m = last_cell off q xs"
  by (simp add: queue_holds_def get_tailp_def)

lemma last_cell_ne: "c \<notin> set (q # cells off xs) \<Longrightarrow> last_cell off q xs \<noteq> c"
  using last_cell_mem[of off q xs] by metis

lemma last_cell_append: "last_cell off q (xs @ ys) = (if ys = [] then last_cell off q xs else last_cell off q ys)"
  by (simp add: last_cell_def)

lemma hcb_enqueue_holds:
  assumes h: "queue_holds next_off q m xs" and x: "cb \<noteq> 0" "cb + next_off \<notin> set (q # xor_cell q # cells next_off xs)"
    and u: "m (cb + next_off) = 1"
  shows "\<exists>m'. hcb_enqueue q cb m = Some m' \<and> queue_holds next_off q m' (xs @ [cb])"
proof -
  let ?t = "last_cell next_off q xs"
  have t: "?t \<noteq> xor_cell q" "?t \<noteq> cb + next_off"
    using h x(2) by (auto simp: queue_holds_def intro!: last_cell_ne)
  have g: "get_tailp q (m(cb + next_off := 0)) = ?t" using tailp_last[OF h] x(2) by (auto simp: get_tailp_def)
  have "hcb_enqueue q cb m = Some (intru_queue_enqueue next_off q cb m)"
    using u t x(2) tailp_last[OF h]
    by (auto simp: hcb_enqueue_def g set_tailp_def intru_queue_enqueue_def get_tailp_def fun_eq_iff ac_simps Let_def)
  then show ?thesis using queue_holds_enqueue[OF h x] by simp
qed

text \<open>At a position in the list: \<open>bs\<close> are the callbacks before the cell \<open>pp\<close>.\<close>

lemma position_facts:
  assumes h: "queue_holds off q m (bs @ rest)"
  shows "lseg off m (m q) bs (m (last_cell off q bs))" "lseg off m (m (last_cell off q bs)) rest 0"
    "last_cell off q bs \<notin> set (cells off rest)" "last_cell off q bs \<noteq> xor_cell q" "distinct (q # cells off bs)"
proof -
  have d: "distinct (q # xor_cell q # cells off (bs @ rest))" using h by (simp add: queue_holds_def)
  then show "distinct (q # cells off bs)" by auto
  show "last_cell off q bs \<noteq> xor_cell q" using d by (intro last_cell_ne) auto
  show "last_cell off q bs \<notin> set (cells off rest)" using d last_cell_mem[of off q bs] by auto
  obtain t where t: "lseg off m (m q) bs t" "lseg off m t rest 0" using h by (auto simp: queue_holds_def lseg_append)
  moreover have "m (last_cell off q bs) = t"
  proof (cases "bs = []")
    case False
    then show ?thesis using lseg_last[OF t(1)] by blast
  qed (use t in simp)
  ultimately show "lseg off m (m q) bs (m (last_cell off q bs))" "lseg off m (m (last_cell off q bs)) rest 0" by auto
qed

lemma hcb_remove_holds:
  assumes h: "queue_holds next_off q m (bs @ p # rest)"
  shows "m (last_cell next_off q bs) = p" "p \<noteq> 0" "queue_holds next_off q (hcb_remove q (last_cell next_off q bs) p m) (bs @ rest)"
proof -
  let ?c = "last_cell next_off q bs" and ?r = "m (p + next_off)"
  note f = position_facts[OF h]
  show p: "m ?c = p" "p \<noteq> 0" using f(2) by auto
  let ?m = "m(?c := ?r)"
  have l: "lseg next_off ?m (?m q) bs ?r" by (rule lseg_set_last[OF f(1,5)])
  have r: "lseg next_off m ?r rest 0" using f(2) by auto
  have d: "distinct (q # xor_cell q # cells next_off (bs @ rest))" using h by (auto simp: queue_holds_def)
  show "queue_holds next_off q (hcb_remove q ?c p m) (bs @ rest)"
  proof (cases "rest = []")
    case True
    then have "?r = 0" using r by simp
    then show ?thesis
      using l d True f(4) by (auto simp: queue_holds_def hcb_remove_def Let_def set_tailp_def xor.commute)
  next
    case False
    then have ne: "?r \<noteq> 0" using r by (cases rest) auto
    have "m (xor_cell q) = last_cell next_off q (bs @ rest) XOR q"
      using h False by (simp add: queue_holds_def last_cell_def)
    then show ?thesis
      using l r d f(3,4) ne by (auto simp: queue_holds_def hcb_remove_def Let_def lseg_append)
  qed
qed

lemma hcb_successor_holds:
  assumes h: "queue_holds next_off q m (bs @ rest)" and x: "succ \<noteq> 0" "succ + next_off \<notin> set (q # xor_cell q # cells next_off (bs @ rest))"
    and u: "m (succ + next_off) = 1"
  shows "queue_holds next_off q (hcb_successor q (last_cell next_off q bs) succ m) (bs @ succ # rest)"
proof -
  let ?c = "last_cell next_off q bs" and ?s = "succ + next_off"
  note f = position_facts[OF h]
  have d: "distinct (q # xor_cell q # cells next_off (bs @ succ # rest))" using h x(2) by (auto simp: queue_holds_def)
  have c: "?c \<noteq> ?s" using x(2) by (intro last_cell_ne) auto
  have l: "lseg next_off (m(?c := succ)) ((m(?c := succ)) q) bs succ" by (rule lseg_set_last[OF f(1,5)])
  let ?m = "m(?s := m ?c, ?c := succ)"
  have m: "?m = (m(?c := succ))(?s := m ?c)" using c by (simp add: fun_upd_twist)
  have "lseg next_off ?m (?m q) bs succ" unfolding m using l x(2) by auto
  moreover have "lseg next_off ?m (m ?c) rest 0" using f(2,3) x(2) by auto
  ultimately have ls: "lseg next_off ?m (?m q) (bs @ succ # rest) 0" using x(1) c by (auto simp: lseg_append)
  show ?thesis
  proof (cases "m ?c = 0")
    case True
    then have "rest = []" using f(2) by (cases rest) auto
    then show ?thesis
      using ls d u True f(4) x(2) c by (auto simp: queue_holds_def hcb_successor_def Let_def set_tailp_def xor.commute fun_upd_twist)
  next
    case False
    then have "rest \<noteq> []" using f(2) by auto
    then have "m (xor_cell q) = last_cell next_off q (bs @ succ # rest) XOR q"
      using h by (simp add: queue_holds_def last_cell_def)
    then show ?thesis using ls d u False f(4) x(2) by (auto simp: queue_holds_def hcb_successor_def Let_def)
  qed
qed

subsection \<open>The burst on lists\<close>

text \<open>The burst on the list of callbacks, split at the position of the scan; \<open>eff\<close> is what a callback does to the rest of the list.\<close>

partial_function (option) list_burst ::
  "'s hcb_test \<Rightarrow> (u64 \<Rightarrow> u64 list \<times> 's \<Rightarrow> u64 list \<times> 's) \<Rightarrow> bool \<Rightarrow> int \<Rightarrow> u64 list \<Rightarrow> u64 list \<Rightarrow> nat \<Rightarrow> int \<Rightarrow> int \<Rightarrow> 's
   \<Rightarrow> (nat \<times> int \<times> u64 list \<times> 's) option" where
  "list_burst test eff sp lim bs rest ex miss ab s =
     (case rest of
        [] \<Rightarrow> Some (ex, ab, bs, s)
      | p # ps \<Rightarrow>
          let (done, s1) = test p s
          in if done then let (ps', s2) = eff p (ps, s1) in list_burst test eff sp lim bs ps' (ex + 1) 0 0 s2
             else if miss + 1 = lim then Some (ex, if sp \<and> ex = 0 then min (ab + 1) 1024 else ab, bs @ rest, s1)
             else list_burst test eff sp lim (bs @ [p]) ps ex (miss + 1) ab s1)"

text \<open>
  What the burst relies on of its callbacks, in the states \<open>ok\<close> that it meets: on the contents of the queue after the
  position of the scan, a callback that is run acts as \<open>eff\<close>.
\<close>

definition hcb_fn_ok ::
  "u64 \<Rightarrow> (u64 list \<Rightarrow> u64 list \<Rightarrow> 's \<Rightarrow> bool) \<Rightarrow> 's hcb_test \<Rightarrow> 's hcb_fn \<Rightarrow> (u64 \<Rightarrow> u64 list \<times> 's \<Rightarrow> u64 list \<times> 's) \<Rightarrow> bool" where
  "hcb_fn_ok q ok test fn eff \<longleftrightarrow>
     (\<forall>p bs rest m s s1. ok bs (p # rest) s \<longrightarrow> test p s = (True, s1) \<longrightarrow> queue_holds next_off q m (bs @ rest) \<longrightarrow>
        queue_holds next_off q (fst (fn p (last_cell next_off q bs) (m, s1))) (bs @ fst (eff p (rest, s1))) \<and>
        snd (fn p (last_cell next_off q bs) (m, s1)) = snd (eff p (rest, s1)) \<and> ok bs (fst (eff p (rest, s1))) (snd (eff p (rest, s1)))) \<and>
     (\<forall>p bs rest s s1. ok bs (p # rest) s \<longrightarrow> test p s = (False, s1) \<longrightarrow> ok (bs @ [p]) rest s1)"

lemma hcb_fn_okD:
  assumes "hcb_fn_ok q ok test fn eff" "ok bs (p # rest) s"
  shows "test p s = (True, s1) \<Longrightarrow> queue_holds next_off q m (bs @ rest) \<Longrightarrow>
      queue_holds next_off q (fst (fn p (last_cell next_off q bs) (m, s1))) (bs @ fst (eff p (rest, s1))) \<and>
      snd (fn p (last_cell next_off q bs) (m, s1)) = snd (eff p (rest, s1)) \<and> ok bs (fst (eff p (rest, s1))) (snd (eff p (rest, s1)))"
    and "test p s = (False, s1) \<Longrightarrow> ok (bs @ [p]) rest s1"
  using assms unfolding hcb_fn_ok_def by blast+

lemma hcb_loop_refines:
  assumes "list_burst test eff sp lim bs rest ex miss ab s = Some r"
    and "hcb_fn_ok q ok test fn eff" "queue_holds next_off q m (bs @ rest)" "ok bs rest s"
  shows "\<exists>m'. hcb_loop test fn q sp lim (last_cell next_off q bs) ex miss ab (m, s) = Some (fst r, fst (snd r), m', snd (snd (snd r))) \<and>
      queue_holds next_off q m' (fst (snd (snd r)))"
  using assms
proof (induction test eff sp lim bs rest ex miss ab s r arbitrary: m rule: list_burst.raw_induct[rotated, consumes 1, case_names step])
  case (step lb test eff sp lim bs rest ex miss ab s r)
  note run = step.hyps and ok = step.prems(1) and h = step.prems(2) and okr = step.prems(3)
  show ?case
  proof (cases rest)
    case Nil
    have "m (last_cell next_off q bs) = 0" using position_facts(2)[OF h] Nil by simp
    then show ?thesis using run h Nil by (subst hcb_loop.simps) auto
  next
    case (Cons p ps)
    obtain d s1 where t: "test p s = (d, s1)" by fastforce
    note rm = hcb_remove_holds[OF h[unfolded Cons]]
    show ?thesis
    proof (cases d)
      case True
      obtain ps' s2 where e: "eff p (ps, s1) = (ps', s2)" by fastforce
      let ?st = "fn p (last_cell next_off q bs) (hcb_remove q (last_cell next_off q bs) p m, s1)"
      have f: "queue_holds next_off q (fst ?st) (bs @ ps')" "snd ?st = s2" "ok bs ps' s2"
        using hcb_fn_okD(1)[OF ok okr[unfolded Cons] _ rm(3), of s1] t True e by auto
      have "lb test eff sp lim bs ps' (ex + 1) 0 0 s2 = Some r" using run Cons t True e by simp
      then obtain m' where m': "hcb_loop test fn q sp lim (last_cell next_off q bs) (ex + 1) 0 0 (fst ?st, s2) =
          Some (fst r, fst (snd r), m', snd (snd (snd r)))" "queue_holds next_off q m' (fst (snd (snd r)))"
        using step.IH[OF _ ok f(1,3)] by blast
      have "?st = (fst ?st, s2)" using f(2) by (metis surjective_pairing)
      then have "hcb_loop test fn q sp lim (last_cell next_off q bs) ex miss ab (m, s) =
          hcb_loop test fn q sp lim (last_cell next_off q bs) (ex + 1) 0 0 (fst ?st, s2)"
        using rm(1,2) t True by (subst hcb_loop.simps) simp
      then show ?thesis using m' by auto
    next
      case False
      show ?thesis
      proof (cases "miss + 1 = lim")
        case True
        then show ?thesis using run Cons t False rm(1,2) h by (subst hcb_loop.simps) auto
      next
        case miss: False
        have "lb test eff sp lim (bs @ [p]) ps ex (miss + 1) ab s1 = Some r" using run Cons t False miss by simp
        moreover have "queue_holds next_off q m ((bs @ [p]) @ ps)" using h Cons by simp
        moreover have "ok (bs @ [p]) ps s1" using hcb_fn_okD(2)[OF ok okr[unfolded Cons]] t False by auto
        ultimately obtain m' where m': "hcb_loop test fn q sp lim (last_cell next_off q (bs @ [p])) ex (miss + 1) ab (m, s1) =
            Some (fst r, fst (snd r), m', snd (snd (snd r)))" "queue_holds next_off q m' (fst (snd (snd r)))"
          using step.IH[OF _ ok] by blast
        have "hcb_loop test fn q sp lim (last_cell next_off q bs) ex miss ab (m, s) =
            hcb_loop test fn q sp lim (last_cell next_off q (bs @ [p])) ex (miss + 1) ab (m, s1)"
          using rm(1,2) t False miss by (subst hcb_loop.simps) simp
        then show ?thesis using m' by auto
      qed
    qed
  qed
qed

subsection \<open>Callbacks that leave the queue alone\<close>

text \<open>The scan of a list with a fixed set of ready events: the callbacks run, those left, and whether it was aborted.\<close>

fun scan :: "(u64 \<Rightarrow> bool) \<Rightarrow> int \<Rightarrow> int \<Rightarrow> u64 list \<Rightarrow> u64 list \<times> u64 list \<times> bool" where
  "scan ready lim miss [] = ([], [], False)"
| "scan ready lim miss (p # ps) =
     (if ready p then let (e, l, a) = scan ready lim 0 ps in (p # e, l, a)
      else if miss + 1 = lim then ([], p # ps, True)
      else let (e, l, a) = scan ready lim (miss + 1) ps in (e, p # l, a))"

lemma list_burst_scan:
  "scan ready lim miss rest = (e, l, a) \<Longrightarrow>
   list_burst (\<lambda>p s. (ready p, s)) (\<lambda>p (ps, s). (ps, g p s)) sp lim bs rest ex miss ab s =
     Some (ex + length e, if a \<and> sp \<and> ex + length e = 0 then min (ab + 1) 1024 else if e = [] then ab else 0, bs @ l, fold g e s)"
proof (induction rest arbitrary: bs ex miss ab s e l a)
  case Nil
  then show ?case by (subst list_burst.simps) auto
next
  case (Cons p ps)
  show ?case
  proof (cases "ready p")
    case True
    then obtain e' where e: "e = p # e'" "scan ready lim 0 ps = (e', l, a)"
      using Cons.prems by (auto split: prod.splits)
    show ?thesis using True e Cons.IH[OF e(2), of bs "ex + 1" 0 "g p s"] by (subst list_burst.simps) simp
  next
    case False
    show ?thesis
    proof (cases "miss + 1 = lim")
      case True
      then show ?thesis using False Cons.prems by (subst list_burst.simps) auto
    next
      case miss: False
      then obtain l' where l: "l = p # l'" "scan ready lim (miss + 1) ps = (e, l', a)"
        using Cons.prems False by (auto split: prod.splits)
      show ?thesis using False miss l Cons.IH[OF l(2), of "bs @ [p]" ex ab s] by (subst list_burst.simps) simp
    qed
  qed
qed

definition parted :: "(u64 \<Rightarrow> bool) \<Rightarrow> u64 list \<Rightarrow> u64 list \<Rightarrow> u64 list \<Rightarrow> bool \<Rightarrow> bool" where
  "parted ready xs e l a \<longleftrightarrow>
     (\<forall>x \<in> set e. ready x) \<and> mset e + mset l = mset xs \<and> subseq e xs \<and> subseq l xs \<and> (\<not> a \<longrightarrow> e = filter ready xs)"

lemma parted_run:
  assumes "ready p" "parted ready ps e l a"
  shows "parted ready (p # ps) (p # e) l a"
proof -
  have h: "\<forall>x \<in> set e. ready x" "mset e + mset l = mset ps" "subseq e ps" "subseq l ps" "\<not> a \<longrightarrow> e = filter ready ps"
    using assms(2) unfolding parted_def by blast+
  have "mset (p # e) + mset l = mset (p # ps)" unfolding mset.simps h(2)[symmetric] by simp
  moreover have "subseq (p # e) (p # ps)" using h(3) by simp
  moreover have "subseq l (p # ps)" using h(4) by (rule list_emb_Cons)
  moreover have "\<not> a \<longrightarrow> p # e = filter ready (p # ps)" using h(5) assms(1) by simp
  moreover have "\<forall>x \<in> set (p # e). ready x" using h(1) assms(1) by simp
  ultimately show ?thesis unfolding parted_def by blast
qed

lemma parted_miss:
  assumes "\<not> ready p" "parted ready ps e l a"
  shows "parted ready (p # ps) e (p # l) a"
proof -
  have h: "\<forall>x \<in> set e. ready x" "mset e + mset l = mset ps" "subseq e ps" "subseq l ps" "\<not> a \<longrightarrow> e = filter ready ps"
    using assms(2) unfolding parted_def by blast+
  have "mset e + mset (p # l) = mset (p # ps)" unfolding mset.simps h(2)[symmetric] by simp
  moreover have "subseq e (p # ps)" using h(3) by (rule list_emb_Cons)
  moreover have "subseq (p # l) (p # ps)" using h(4) by simp
  moreover have "\<not> a \<longrightarrow> e = filter ready (p # ps)" using h(5) assms(1) by simp
  ultimately show ?thesis using h(1) unfolding parted_def by blast
qed

lemma scan_parts:
  assumes "scan ready lim miss xs = (e, l, a)"
  shows "\<forall>x \<in> set e. ready x" "mset e + mset l = mset xs" "subseq e xs" "subseq l xs" "\<not> a \<Longrightarrow> e = filter ready xs"
proof -
  have "parted ready xs e l a" using assms
  proof (induction xs arbitrary: miss e l a)
    case (Cons p ps)
    consider (run) "ready p" | (stop) "\<not> ready p" "miss + 1 = lim" | (miss) "\<not> ready p" "miss + 1 \<noteq> lim" by blast
    then show ?case
    proof cases
      case run
      obtain e' l' a' where s: "scan ready lim 0 ps = (e', l', a')" by (metis prod_cases3)
      then have "e = p # e'" "l = l'" "a = a'" using Cons.prems run by auto
      then show ?thesis using parted_run[OF run Cons.IH[OF s]] by simp
    next
      case stop
      then have "e = []" "l = p # ps" "a" using Cons.prems by auto
      then show ?thesis by (simp add: parted_def)
    next
      case miss
      obtain e' l' a' where s: "scan ready lim (miss + 1) ps = (e', l', a')" by (metis prod_cases3)
      then have "e = e'" "l = p # l'" "a = a'" using Cons.prems miss by auto
      then show ?thesis using parted_miss[OF miss(1) Cons.IH[OF s]] by simp
    qed
  qed (simp add: parted_def)
  then show "\<forall>x \<in> set e. ready x" "mset e + mset l = mset xs" "subseq e xs" "subseq l xs" "\<not> a \<Longrightarrow> e = filter ready xs" unfolding parted_def by blast+
qed

lemma scan_aborted:
  "scan ready lim miss xs = (e, l, True) \<Longrightarrow> miss < lim \<Longrightarrow> 0 < lim \<Longrightarrow> min lim (lim - miss) \<le> int (length (filter (\<lambda>x. \<not> ready x) xs))"
proof (induction xs arbitrary: miss e l)
  case (Cons p ps)
  consider "ready p" | "\<not> ready p" "miss + 1 = lim" | "\<not> ready p" "miss + 1 \<noteq> lim" by blast
  then show ?case
  proof cases
    case 1
    then obtain e' where "scan ready lim 0 ps = (e', l, True)" using Cons.prems(1) by (auto split: prod.splits)
    then show ?thesis using 1 Cons.IH[of 0 e' l] Cons.prems by simp
  next
    case 2
    then show ?thesis by simp
  next
    case 3
    then obtain l' where "scan ready lim (miss + 1) ps = (e, l', True)" using Cons.prems(1) by (auto split: prod.splits)
    then show ?thesis using 3 Cons.IH[of "miss + 1" e l'] Cons.prems by simp
  qed
qed auto

lemma scan_finds:
  "\<forall>y \<in> set ys. \<not> ready y \<Longrightarrow> ready x \<Longrightarrow> int (length ys) < lim - miss \<Longrightarrow> \<exists>e l a. scan ready lim miss (ys @ x # zs) = (x # e, l, a)"
proof (induction ys arbitrary: miss)
  case Nil
  then show ?case by (auto split: prod.splits)
next
  case (Cons y ys)
  then have "miss + 1 \<noteq> lim" by simp
  then show ?case using Cons.prems Cons.IH[of "miss + 1"] by (auto split: prod.splits)
qed

lemma scan_gives_up:
  "\<forall>y \<in> set ys. \<not> ready y \<Longrightarrow> miss < lim \<Longrightarrow> lim - miss \<le> int (length ys) \<Longrightarrow> scan ready lim miss (ys @ zs) = ([], ys @ zs, True)"
proof (induction ys arbitrary: miss)
  case (Cons y ys)
  then show ?case using Cons.IH[of "miss + 1"] by (cases "miss + 1 = lim") auto
qed simp

text \<open>A callback that acts on its own state only.\<close>

definition quiet :: "(u64 \<Rightarrow> 's \<Rightarrow> 's) \<Rightarrow> 's hcb_fn" where
  "quiet g p pp st = (fst st, g p (snd st))"

lemma quiet_ok: "hcb_fn_ok q (\<lambda>_ _ _. True) (\<lambda>p s. (ready p, s)) (quiet g) (\<lambda>p (ps, s). (ps, g p s))"
  by (simp add: hcb_fn_ok_def quiet_def)

lemma hcb_burst_scan:
  assumes h: "queue_holds next_off q m xs"
    and sc: "scan ready (4 + (if sp then ab else 0)) (- 4 * (if sp then ab else 0)) xs = (e, l, a)"
  shows "\<exists>m'. hcb_burst (\<lambda>p s. (ready p, s)) (quiet g) q sp ab (m, s) =
      Some (length e, if a \<and> sp \<and> e = [] then min (ab + 1) 1024 else if e = [] then ab else 0, m', fold g e s) \<and>
    queue_holds next_off q m' l"
  using hcb_loop_refines[OF list_burst_scan[OF sc, of g sp "[]" 0 ab s] quiet_ok, of q m] h by (simp add: hcb_burst_def Let_def)

text \<open>
  (C17) A burst over the queue of network handles, with any set of ready events and callbacks that leave the queue alone: it
  returns, the callbacks run are ready ones in the order of the queue, each once, exactly those are removed and the rest
  keeps its order in a well-formed queue; and when fewer than four events are not ready, every ready one is run.
\<close>

theorem hcb_burst_correct:
  assumes "queue_holds next_off q m xs" "0 \<le> ab"
  shows "\<exists>n ab' m' e l. hcb_burst (\<lambda>p s. (ready p, s)) (quiet g) q sp ab (m, s) = Some (n, ab', m', fold g e s) \<and>
    queue_holds next_off q m' l \<and> n = length e \<and> (\<forall>x \<in> set e. ready x) \<and> subseq e xs \<and> subseq l xs \<and> mset e + mset l = mset xs \<and>
    (length (filter (\<lambda>x. \<not> ready x) xs) < 4 \<longrightarrow> e = filter ready xs)"
proof -
  let ?ab = "if sp then ab else 0"
  obtain e l a where sc: "scan ready (4 + ?ab) (- 4 * ?ab) xs = (e, l, a)" by (metis prod_cases3)
  note p = scan_parts[OF sc]
  have "\<not> a" if "length (filter (\<lambda>x. \<not> ready x) xs) < 4"
    using scan_aborted[of ready "4 + ?ab" "- 4 * ?ab" xs e l] sc that assms(2) by (cases a) (auto split: if_splits)
  then show ?thesis using hcb_burst_scan[OF assms(1) sc, of g s] p by blast
qed

text \<open>
  (C18) Spinning finds ready events behind others. A spinning burst with a count of \<open>ab\<close> aborted bursts runs the first ready callback
  if fewer than \<open>4 + 5 ab\<close> events that are not ready are before it; otherwise it leaves the queue alone and raises the count, up to 1024.
\<close>

theorem hcb_spinning_finds:
  assumes h: "queue_holds next_off q m (ys @ x # zs)" and r: "\<forall>y \<in> set ys. \<not> ready y" "ready x" and ab: "0 \<le> ab"
  shows "\<exists>n ab' m' s'. hcb_burst (\<lambda>p s. (ready p, s)) (quiet g) q True ab (m, s) = Some (n, ab', m', s') \<and>
    (if int (length ys) < 4 + 5 * ab then 0 < n \<and> ab' = 0 \<and> (\<exists>e. s' = fold g (x # e) s)
     else n = 0 \<and> ab' = min (ab + 1) 1024 \<and> s' = s \<and> queue_holds next_off q m' (ys @ x # zs))"
proof (cases "int (length ys) < 4 + 5 * ab")
  case True
  then have "\<exists>e l a. scan ready (4 + ab) (- 4 * ab) (ys @ x # zs) = (x # e, l, a)" using r by (intro scan_finds) auto
  then obtain e l a where "scan ready (4 + ab) (- 4 * ab) (ys @ x # zs) = (x # e, l, a)" by blast
  then show ?thesis using hcb_burst_scan[OF h, of ready True ab "x # e" l a g s] True by fastforce
next
  case False
  then have "scan ready (4 + ab) (- 4 * ab) (ys @ x # zs) = ([], ys @ x # zs, True)"
    using r ab scan_gives_up[of ys ready "- 4 * ab" "4 + ab" "x # zs"] by simp
  then show ?thesis using hcb_burst_scan[OF h, of ready True ab "[]" "ys @ x # zs" True g s] False by fastforce
qed

subsection \<open>A queue of three callbacks\<close>

definition example_memory :: memory where
  "example_memory = (\<lambda>_. 0)(0x1000 := 0x100, 0x1008 := 0x308 XOR 0x1000, 0x108 := 0x200, 0x208 := 0x300)"

lemma example_memory_holds: "queue_holds next_off 0x1000 example_memory [0x100, 0x200, 0x300]"
  by (simp add: queue_holds_def xor_cell_def next_off_def last_cell_def example_memory_def)

theorem hcb_burst_correct_witness:
  "\<exists>n ab' m'. hcb_burst (\<lambda>p s. (p \<noteq> 0x200, s)) (quiet (\<lambda>p s. s @ [p])) 0x1000 False 0 (example_memory, []) =
     Some (n, ab', m', [0x100, 0x300])"
proof -
  let ?xs = "[0x100, 0x200, 0x300] :: u64 list" and ?g = "\<lambda>p s. s @ [p :: u64]"
  have f: "filter (\<lambda>x. x \<noteq> 0x200) ?xs = [0x100, 0x300]" "length (filter (\<lambda>x. \<not> x \<noteq> 0x200) ?xs) < 4" by simp_all
  obtain n ab' m' e where "hcb_burst (\<lambda>p s. (p \<noteq> 0x200, s)) (quiet ?g) 0x1000 False 0 (example_memory, []) = Some (n, ab', m', fold ?g e [])"
    "length (filter (\<lambda>x. \<not> x \<noteq> 0x200) ?xs) < 4 \<longrightarrow> e = filter (\<lambda>x. x \<noteq> 0x200) ?xs"
    using hcb_burst_correct[OF example_memory_holds, of 0 "\<lambda>x. x \<noteq> 0x200" ?g False "[]"] by blast
  then have "hcb_burst (\<lambda>p s. (p \<noteq> 0x200, s)) (quiet ?g) 0x1000 False 0 (example_memory, []) = Some (n, ab', m', fold ?g [0x100, 0x300] [])"
    using f by simp
  then show ?thesis by (intro exI) simp
qed

theorem hcb_spinning_finds_witness:
  "\<exists>n ab' m' s'. hcb_burst (\<lambda>p s. (p = 0x300, s)) (quiet (\<lambda>p s. s @ [p])) 0x1000 True 0 (example_memory, []) = Some (n, ab', m', s') \<and> 0 < n"
proof -
  have h: "queue_holds next_off 0x1000 example_memory ([0x100, 0x200] @ 0x300 # [])" using example_memory_holds by simp
  show ?thesis using hcb_spinning_finds[OF h, of "\<lambda>x. x = 0x300" 0 "\<lambda>p s. s @ [p]" "[]"] by auto
qed

end
