(* ===== verification/Team.thy ===== *)
theory Team
  imports Digest Persona_Lpc
begin

text \<open>
  Component teams and the registry (src/team.hpp, src/team_fwd.hpp, src/team.cpp): the table from digests to the objects they name
  in one process, and the teams of that process with the ids they give to collectives. Objects live at addresses. What GASNet-EX
  does for a team (its handle, the rank and size in it, the translation of ranks, the quiescence before it goes) is a parameter. The result \<open>None\<close> is
  a failed assertion or the use of an object that does not exist; \<open>t\<close> is the thread of the caller.
\<close>

subsection \<open>State\<close>

text \<open>A value of a future is a reference to a distributed object or anything else.\<close>

datatype 'v val = Obj_ref u64 | Plain 'v

text \<open>The handle \<open>None\<close> is \<open>GEX_TM_INVALID\<close>.\<close>

record team =
  handle :: "nat option"
  team_dig :: digest
  coll_counter :: u64
  team_n :: int
  team_me :: int

text \<open>What a \<open>void*\<close> of the registry points to: null, a team, or the promise of a distributed object.\<close>

datatype reg_entry = Reg_null | Reg_team u64 | Reg_promise hptr

record 'v dist_object =
  dobj_tm :: "u64 option"
  dobj_dig :: digest
  dobj_value :: "'v option"

text \<open>One process: its personas and futures, the registry, its objects, and the scratch buffers kept as the data of team handles.\<close>

record 'v runtime =
  world_of :: "'v val pworld"
  init_count :: int
  registry :: "digest \<rightharpoonup> reg_entry"
  teams :: "u64 \<rightharpoonup> team"
  dobjs :: "u64 \<rightharpoonup> 'v dist_object"
  scratch :: "nat \<rightharpoonup> u64"
  the_world_team :: u64
  the_local_team :: u64
  world_rank_n :: int

subsection \<open>Assertions\<close>

definition assert_init :: "'v runtime \<Rightarrow> bool" where
  "assert_init r \<longleftrightarrow> init_count r \<noteq> 0"

definition assert_master :: "nat \<Rightarrow> 'v runtime \<Rightarrow> bool" where
  "assert_master t r \<longleftrightarrow> is_active_with t (master_persona (world_of r)) (world_of r) = Some True"

definition assert_master_current_ifseq :: "nat \<Rightarrow> 'v runtime \<Rightarrow> bool" where
  "assert_master_current_ifseq t r \<longleftrightarrow>
     (threadmode_seq (world_of r) \<longrightarrow> current_persona t (world_of r) = Some (master_persona (world_of r)))"

definition in_progress :: "nat \<Rightarrow> 'v runtime \<Rightarrow> bool" where
  "in_progress t r \<longleftrightarrow> (case threads (world_of r) t of Some tls \<Rightarrow> get_progressing tls \<ge> 0 | None \<Rightarrow> False)"

definition assert_collective_safe :: "nat \<Rightarrow> 'v runtime \<Rightarrow> bool" where
  "assert_collective_safe t r \<longleftrightarrow> \<not> (init_count r > 0 \<and> in_progress t r)"

subsection \<open>The registry\<close>

text \<open>\<open>insert({id, nullptr})\<close> finds the entry or makes one, which is then filled with a new promise.\<close>

definition registered_promise :: "nat \<Rightarrow> digest \<Rightarrow> int \<Rightarrow> 'v runtime \<Rightarrow> (hptr \<times> 'v runtime) option" where
  "registered_promise t dig initial_anon r =
     (if \<not> assert_master t r then None
      else case registry r dig of
        None \<Rightarrow>
          do { (pro, s) \<leftarrow> new_promise 1 1 (heap (world_of r));
               s \<leftarrow> promise_require_anonymous pro initial_anon s;
               Some (pro, r\<lparr>world_of := (world_of r)\<lparr>heap := s\<rparr>, registry := (registry r)(dig \<mapsto> Reg_promise pro)\<rparr>) }
      | Some (Reg_promise pro) \<Rightarrow> Some (pro, r)
      | Some _ \<Rightarrow> None)"

subsection \<open>Teams\<close>

definition put_team :: "u64 \<Rightarrow> team \<Rightarrow> 'v runtime \<Rightarrow> 'v runtime" where
  "put_team this tm r = r\<lparr>teams := (teams r)(this \<mapsto> tm)\<rparr>"

definition team_is_active :: "team \<Rightarrow> bool" where
  "team_is_active tm \<longleftrightarrow> team_dig tm \<noteq> tombstone"

definition team_construct :: "u64 \<Rightarrow> nat option \<Rightarrow> digest \<Rightarrow> int \<Rightarrow> int \<Rightarrow> 'v runtime \<Rightarrow> 'v runtime option" where
  "team_construct this base dig n me r =
     (let r = put_team this \<lparr>handle = base, team_dig = dig, coll_counter = 0, team_n = n, team_me = me\<rparr> r
      in if dig = tombstone then (if n = 0 \<and> me = - 1 \<and> base = None then Some r else None)
         else Some (r\<lparr>registry := (registry r)(dig \<mapsto> Reg_team this)\<rparr>))"

definition team_default :: "u64 \<Rightarrow> 'v runtime \<Rightarrow> 'v runtime option" where
  "team_default this r = team_construct this None tombstone 0 (- 1) r"

text \<open>\<open>invalidate\<close> leaves the counter as it is.\<close>

definition team_invalidate :: "team \<Rightarrow> team" where
  "team_invalidate tm = tm\<lparr>team_dig := tombstone, handle := None, team_n := 0, team_me := - 1\<rparr>"

definition team_move_assign :: "nat \<Rightarrow> u64 \<Rightarrow> u64 \<Rightarrow> 'v runtime \<Rightarrow> 'v runtime option" where
  "team_move_assign t this that r =
     (if that = this then Some r
      else if \<not> assert_init r \<or> \<not> assert_master t r then None
      else if that = the_world_team r \<or> that = the_local_team r then None
      else do {
        a \<leftarrow> teams r this;
        b \<leftarrow> teams r that;
        if team_is_active a then None
        else
          let r = put_team that (team_invalidate b) (put_team this b r)
          in Some (if team_dig b \<noteq> tombstone then r\<lparr>registry := (registry r)(team_dig b \<mapsto> Reg_team this)\<rparr> else r)
      })"

definition team_move_construct :: "nat \<Rightarrow> u64 \<Rightarrow> u64 \<Rightarrow> 'v runtime \<Rightarrow> 'v runtime option" where
  "team_move_construct t this that r = do { r \<leftarrow> team_default this r; team_move_assign t this that r }"

definition team_destructor :: "u64 \<Rightarrow> 'v runtime \<Rightarrow> 'v runtime option" where
  "team_destructor this r =
     do {
       tm \<leftarrow> teams r this;
       if init_count r > 0 \<and> handle tm \<noteq> None \<and> registry r (team_dig tm) \<noteq> None then None
       else Some (r\<lparr>teams := (teams r)(this := None)\<rparr>)
     }"

text \<open>\<open>id_.eat(coll_counter_++)\<close>: the second word is its default.\<close>

definition next_collective_id :: "u64 \<Rightarrow> 'v runtime \<Rightarrow> (digest \<times> 'v runtime) option" where
  "next_collective_id this r =
     do {
       tm \<leftarrow> teams r this;
       Some (eat (team_dig tm) (coll_counter tm) 0, put_team this (tm\<lparr>coll_counter := coll_counter tm + 1\<rparr>) r)
     }"

definition team_rank_n :: "u64 \<Rightarrow> 'v runtime \<Rightarrow> int option" where
  "team_rank_n this r = do { tm \<leftarrow> teams r this; if assert_init r \<and> team_is_active tm then Some (team_n tm) else None }"

definition team_rank_me :: "u64 \<Rightarrow> 'v runtime \<Rightarrow> int option" where
  "team_rank_me this r = do { tm \<leftarrow> teams r this; if assert_init r \<and> team_is_active tm then Some (team_me tm) else None }"

text \<open>\<open>from_job h rank\<close> is \<open>gex_TM_TranslateJobrankToRank\<close>, \<open>None\<close> for no member; \<open>to_job h peer\<close> its inverse.\<close>

definition team_from_world :: "(nat option \<Rightarrow> int \<Rightarrow> int option) \<Rightarrow> u64 \<Rightarrow> int \<Rightarrow> 'v runtime \<Rightarrow> int option" where
  "team_from_world from_job this rank r =
     do { tm \<leftarrow> teams r this;
          if assert_init r \<and> team_is_active tm \<and> 0 \<le> rank \<and> rank < world_rank_n r then from_job (handle tm) rank else None }"

definition team_from_world_otherwise :: "(nat option \<Rightarrow> int \<Rightarrow> int option) \<Rightarrow> u64 \<Rightarrow> int \<Rightarrow> int \<Rightarrow> 'v runtime \<Rightarrow> int option" where
  "team_from_world_otherwise from_job this rank otherwise r =
     do { tm \<leftarrow> teams r this;
          if assert_init r \<and> team_is_active tm \<and> 0 \<le> rank \<and> rank < world_rank_n r
          then Some (case from_job (handle tm) rank of None \<Rightarrow> otherwise | Some got \<Rightarrow> got)
          else None }"

definition team_index :: "(nat option \<Rightarrow> int \<Rightarrow> int) \<Rightarrow> u64 \<Rightarrow> int \<Rightarrow> 'v runtime \<Rightarrow> int option" where
  "team_index to_job this peer r =
     do { tm \<leftarrow> teams r this;
          if assert_init r \<and> team_is_active tm \<and> 0 \<le> peer \<and> peer < team_n tm then Some (to_job (handle tm) peer) else None }"

definition team_id_of :: "u64 \<Rightarrow> 'v runtime \<Rightarrow> digest option" where
  "team_id_of this r = do { tm \<leftarrow> teams r this; if team_is_active tm then Some (team_dig tm) else None }"

text \<open>\<open>registry[dig_]\<close> makes a null entry for a digest that has none; then the assertion fails.\<close>

definition team_here :: "digest \<Rightarrow> 'v runtime \<Rightarrow> u64 option" where
  "team_here dig r =
     (if assert_init r \<and> dig \<noteq> tombstone then (case registry r dig of Some (Reg_team tm) \<Rightarrow> Some tm | _ \<Rightarrow> None) else None)"

definition color_none :: int where "color_none = - 0xbad"

text \<open>
  \<open>gex_split h color key\<close> is the outcome of \<open>gex_TM_Split\<close> for this process: handle, rank and size of its new team. \<open>buf\<close> is the address that
  the allocator returns for the scratch space, and \<open>this\<close> the address of the result.
\<close>

definition team_split ::
  "(nat option \<Rightarrow> int \<Rightarrow> int \<Rightarrow> nat \<times> int \<times> int) \<Rightarrow> u64 \<Rightarrow> nat \<Rightarrow> u64 \<Rightarrow> u64 \<Rightarrow> int \<Rightarrow> int \<Rightarrow> 'v runtime \<Rightarrow> 'v runtime option" where
  "team_split gex_split buf t this parent color key r =
     (if \<not> assert_init r \<or> \<not> assert_master t r \<or> \<not> assert_master_current_ifseq t r \<or> \<not> assert_collective_safe t r then None
      else if \<not> (color \<ge> 0 \<or> color = color_none) then None
      else do {
        tm \<leftarrow> teams r parent;
        if \<not> team_is_active tm then None
        else do {
          (dig, r) \<leftarrow> next_collective_id parent r;
          if color = color_none then team_construct this None tombstone 0 (- 1) r
          else
            let (sub, me, ranks) = gex_split (handle tm) color key
            in team_construct this (Some sub) (eat dig (word_of_int color) 0) ranks me (r\<lparr>scratch := (scratch r)(sub \<mapsto> buf)\<rparr>)
        }
      })"

subsection \<open>Creation from a list of ranks\<close>

text \<open>The checks of the list; the last error found is the one reported.\<close>

datatype create_error = Out_of_range | Duplicate | Missing_self

fun check_locs :: "int \<Rightarrow> int list \<Rightarrow> int set \<Rightarrow> create_error option \<Rightarrow> int set \<times> create_error option" where
  "check_locs limit [] ids err = (ids, err)"
| "check_locs limit (rank # locs) ids err =
     (if rank < 0 \<or> limit \<le> rank then check_locs limit locs ids (Some Out_of_range)
      else if rank \<in> ids then check_locs limit locs ids (Some Duplicate)
      else check_locs limit locs (insert rank ids) err)"

definition create_err :: "int \<Rightarrow> int \<Rightarrow> int list \<Rightarrow> create_error option" where
  "create_err limit me locs =
     (let (ids, err) = check_locs limit locs {} None in if locs \<noteq> [] \<and> me \<notin> ids then Some Missing_self else err)"

text \<open>\<open>gex_create h locs\<close> is the outcome of \<open>gex_TM_Create\<close> for a process that is a member: handle, rank and size.\<close>

definition team_create ::
  "(nat option \<Rightarrow> int list \<Rightarrow> nat \<times> int \<times> int) \<Rightarrow> (nat option \<Rightarrow> int \<Rightarrow> int) \<Rightarrow> u64 \<Rightarrow> nat \<Rightarrow> u64 \<Rightarrow> u64 \<Rightarrow> int list \<Rightarrow> 'v runtime
   \<Rightarrow> 'v runtime option" where
  "team_create gex_create to_job buf t this parent locs r =
     (if \<not> assert_init r \<or> \<not> assert_master t r \<or> \<not> assert_master_current_ifseq t r \<or> \<not> assert_collective_safe t r then None
      else do {
        tm \<leftarrow> teams r parent;
        if \<not> team_is_active tm then None
        else if create_err (team_n tm) (team_me tm) locs \<noteq> None then None
        else case locs of
          [] \<Rightarrow> do { (_, r) \<leftarrow> next_collective_id parent r; team_construct this None tombstone 0 (- 1) r }
        | loc # _ \<Rightarrow>
            let (sub, me, sz) = gex_create (handle tm) locs
            in do {
              r0 \<leftarrow> team_index to_job parent loc r;
              (dig, r) \<leftarrow> next_collective_id parent r;
              if sz \<noteq> int (length locs) then None
              else team_construct this (Some sub) (eat dig (word_of_int r0) 0) (int (length locs)) me
                     (r\<lparr>scratch := (scratch r)(sub \<mapsto> buf)\<rparr>)
            }
      })"

subsection \<open>Destruction\<close>

datatype entry_barrier = Barrier_none | Barrier_internal | Barrier_user

text \<open>\<open>quiesce\<close> makes progress until the team is quiet.\<close>

definition team_destroy_internal ::
  "(u64 \<Rightarrow> entry_barrier \<Rightarrow> 'v runtime \<Rightarrow> 'v runtime option) \<Rightarrow> nat \<Rightarrow> u64 \<Rightarrow> entry_barrier \<Rightarrow> 'v runtime \<Rightarrow> 'v runtime option" where
  "team_destroy_internal quiesce t this eb r =
     (if \<not> assert_master t r then None
      else do {
        tm \<leftarrow> teams r this;
        r \<leftarrow> (case handle tm of
                None \<Rightarrow> Some r
              | Some h \<Rightarrow> do { r \<leftarrow> quiesce this eb r; Some (r\<lparr>scratch := (scratch r)(h := None)\<rparr>) });
        tm \<leftarrow> teams r this;
        if team_dig tm = tombstone then None
        else Some (put_team this (team_invalidate tm) (r\<lparr>registry := (registry r)(team_dig tm := None)\<rparr>))
      })"

definition team_destroy ::
  "(u64 \<Rightarrow> entry_barrier \<Rightarrow> 'v runtime \<Rightarrow> 'v runtime option) \<Rightarrow> nat \<Rightarrow> u64 \<Rightarrow> entry_barrier \<Rightarrow> 'v runtime \<Rightarrow> 'v runtime option" where
  "team_destroy quiesce t this eb r =
     (if \<not> assert_init r then None
      else do {
        tm \<leftarrow> teams r this;
        if \<not> team_is_active tm then Some r
        else if \<not> assert_master t r \<or> \<not> assert_master_current_ifseq t r \<or> \<not> assert_collective_safe t r then None
        else if this = the_world_team r \<or> this = the_local_team r then None
        else team_destroy_internal quiesce t this eb r
      })"

subsection \<open>Start-up\<close>

text \<open>The handles and the ranks of the process in both teams come from GASNet-EX; \<open>peer_lb\<close> is the first rank of the node.\<close>

definition build_world_team :: "u64 \<Rightarrow> nat \<Rightarrow> int \<Rightarrow> int \<Rightarrow> 'v runtime \<Rightarrow> 'v runtime option" where
  "build_world_team this world_tm n me r =
     team_construct this (Some world_tm) (Digest 0x1111111111111111 0x1111111111111111) n me r"

definition build_local_team :: "u64 \<Rightarrow> nat \<Rightarrow> int \<Rightarrow> int \<Rightarrow> int \<Rightarrow> 'v runtime \<Rightarrow> 'v runtime option" where
  "build_local_team this local_tm peer_lb peer_n peer_me r =
     team_construct this (Some local_tm) (eat (Digest 0x2222222222222222 0x2222222222222222) (word_of_int peer_lb) 0) peer_n peer_me r"

definition teams_init :: "'v val pworld \<Rightarrow> nat \<Rightarrow> nat \<Rightarrow> int \<Rightarrow> int \<Rightarrow> int \<Rightarrow> int \<Rightarrow> int \<Rightarrow> u64 \<Rightarrow> u64 \<Rightarrow> 'v runtime option" where
  "teams_init w world_tm local_tm n me peer_lb peer_n peer_me world_at local_at =
     do { r \<leftarrow> build_world_team world_at world_tm n me
                \<lparr>world_of = w, init_count = 1, registry = Map.empty, teams = Map.empty, dobjs = Map.empty, scratch = Map.empty,
                 the_world_team = world_at, the_local_team = local_at, world_rank_n = n\<rparr>;
          build_local_team local_at local_tm peer_lb peer_n peer_me r }"

end
