(* ===== verification/Dist_Object.thy ===== *)
theory Dist_Object
  imports Team
begin

text \<open>
  Component distributed objects (src/dist_object.hpp): objects that every rank of a team constructs, found on each rank by a common
  digest. The registry holds a promise for each digest, made by whichever comes first of the construction and of a message that asks for the object
  (\<open>when_here\<close>). The construction sets the value of the promise to a reference to the object and defers its fulfilment to the progress of the
  master persona; a move overwrites that value. A reference to an object is trivially destructible, so its promise goes to the queue of trivial ones.
\<close>

definition put_dobj :: "u64 \<Rightarrow> 'v dist_object \<Rightarrow> 'v runtime \<Rightarrow> 'v runtime" where
  "put_dobj this ob r = r\<lparr>dobjs := (dobjs r)(this \<mapsto> ob)\<rparr>"

definition put_world :: "'v val pworld \<Rightarrow> 'v runtime \<Rightarrow> 'v runtime" where
  "put_world w r = r\<lparr>world_of := w\<rparr>"

definition put_heap :: "'v val fheap \<Rightarrow> 'v runtime \<Rightarrow> 'v runtime" where
  "put_heap s r = put_world ((world_of r)\<lparr>heap := s\<rparr>) r"

definition dobj_is_active :: "'v dist_object \<Rightarrow> bool" where
  "dobj_is_active ob \<longleftrightarrow> dobj_dig ob \<noteq> tombstone"

subsection \<open>Construction\<close>

text \<open>\<open>fulfill_during<progress_level::user>\<close> with values.\<close>

definition fulfill_during_user :: "(hptr \<Rightarrow> bool) \<Rightarrow> nat \<Rightarrow> hptr \<Rightarrow> 'v list \<Rightarrow> u64 \<Rightarrow> 'v pworld \<Rightarrow> 'v pworld option" where
  "fulfill_during_user trivial t pro vs per w =
     do { s \<leftarrow> construct_results pro vs (heap w);
          fulfill_during_user_of_active trivial t per pro 1 (w\<lparr>heap := s\<rparr>) }"

definition dist_create :: "nat \<Rightarrow> u64 \<Rightarrow> 'v runtime \<Rightarrow> 'v runtime option" where
  "dist_create t this r =
     (if \<not> assert_init r \<or> \<not> assert_master t r \<or> \<not> assert_collective_safe t r then None
      else do {
        ob \<leftarrow> dobjs r this;
        tm \<leftarrow> dobj_tm ob;
        (dig, r) \<leftarrow> next_collective_id tm r;
        let r = put_dobj this (ob\<lparr>dobj_dig := dig\<rparr>) r;
        if dig = tombstone then None
        else do {
          (pro, r) \<leftarrow> registered_promise t dig 0 r;
          s \<leftarrow> result_incref pro 1 (heap (world_of r));
          w \<leftarrow> fulfill_during_user (\<lambda>_. True) t pro [Obj_ref this] (master_persona (world_of r)) ((world_of r)\<lparr>heap := s\<rparr>);
          Some (put_world w r)
        }
      })"

definition dist_default :: "u64 \<Rightarrow> 'v runtime \<Rightarrow> 'v runtime" where
  "dist_default this r = put_dobj this \<lparr>dobj_tm = None, dobj_dig = tombstone, dobj_value = None\<rparr> r"

definition dist_inactive :: "u64 \<Rightarrow> 'v \<Rightarrow> 'v runtime \<Rightarrow> 'v runtime" where
  "dist_inactive this v r = put_dobj this \<lparr>dobj_tm = None, dobj_dig = tombstone, dobj_value = Some v\<rparr> r"

text \<open>The constructor with a team; the id is set by \<open>create_\<close>.\<close>

definition dist_construct :: "nat \<Rightarrow> u64 \<Rightarrow> u64 \<Rightarrow> 'v \<Rightarrow> 'v runtime \<Rightarrow> 'v runtime option" where
  "dist_construct t this tm v r =
     dist_create t this (put_dobj this \<lparr>dobj_tm = Some tm, dobj_dig = tombstone, dobj_value = Some v\<rparr> r)"

definition dist_construct_world :: "nat \<Rightarrow> u64 \<Rightarrow> 'v \<Rightarrow> 'v runtime \<Rightarrow> 'v runtime option" where
  "dist_construct_world t this v r = dist_construct t this (the_world_team r) v r"

definition dist_activate :: "nat \<Rightarrow> u64 \<Rightarrow> u64 \<Rightarrow> 'v runtime \<Rightarrow> 'v runtime option" where
  "dist_activate t this tm r =
     do { ob \<leftarrow> dobjs r this;
          if dobj_is_active ob \<or> dobj_value ob = None then None
          else dist_create t this (put_dobj this (ob\<lparr>dobj_tm := Some tm\<rparr>) r) }"

subsection \<open>Moves and destruction\<close>

text \<open>\<open>moved\<close> is what a move leaves in the value of the source.\<close>

definition dist_move_assign :: "('v \<Rightarrow> 'v) \<Rightarrow> nat \<Rightarrow> u64 \<Rightarrow> u64 \<Rightarrow> 'v runtime \<Rightarrow> 'v runtime option" where
  "dist_move_assign moved t this that r =
     (if that = this then Some r
      else if \<not> assert_init r \<or> \<not> assert_master t r then None
      else do {
        a \<leftarrow> dobjs r this;
        b \<leftarrow> dobjs r that;
        if dobj_is_active a then None
        else
          let r = put_dobj that (b\<lparr>dobj_tm := None, dobj_dig := tombstone, dobj_value := map_option moved (dobj_value b)\<rparr>) (put_dobj this b r)
          in if dobj_is_active b
             then case registry r (dobj_dig b) of
                    Some (Reg_promise pro) \<Rightarrow>
                      do { s \<leftarrow> reconstruct_results pro [Obj_ref this] (heap (world_of r)); Some (put_heap s r) }
                  | _ \<Rightarrow> None
             else Some r
      })"

definition dist_move_construct :: "('v \<Rightarrow> 'v) \<Rightarrow> nat \<Rightarrow> u64 \<Rightarrow> u64 \<Rightarrow> 'v runtime \<Rightarrow> 'v runtime option" where
  "dist_move_construct moved t this that r = dist_move_assign moved t this that (dist_default this r)"

definition dist_destructor :: "nat \<Rightarrow> u64 \<Rightarrow> 'v runtime \<Rightarrow> 'v runtime option" where
  "dist_destructor t this r =
     do {
       ob \<leftarrow> dobjs r this;
       if dobj_is_active ob \<and> init_count r > 0 \<and> \<not> assert_master t r then None
       else
         let r' = r\<lparr>dobjs := (dobjs r)(this := None)\<rparr>
         in if dobj_dig ob = tombstone then Some r'
            else case registry r (dobj_dig ob) of
              Some (Reg_promise pro) \<Rightarrow>
                do { s \<leftarrow> ops_dropref Ops_promise False pro (heap (world_of r));
                     Some (put_heap s (r'\<lparr>registry := (registry r)(dobj_dig ob := None)\<rparr>)) }
            | _ \<Rightarrow> None
     }"

subsection \<open>Access\<close>

definition dist_emplace :: "u64 \<Rightarrow> 'v \<Rightarrow> 'v runtime \<Rightarrow> 'v runtime option" where
  "dist_emplace this v r = do { ob \<leftarrow> dobjs r this; Some (put_dobj this (ob\<lparr>dobj_value := Some v\<rparr>) r) }"

definition dist_deref :: "u64 \<Rightarrow> 'v runtime \<Rightarrow> 'v option" where
  "dist_deref this r = do { ob \<leftarrow> dobjs r this; dobj_value ob }"

definition dist_id :: "u64 \<Rightarrow> 'v runtime \<Rightarrow> digest option" where
  "dist_id this r = do { ob \<leftarrow> dobjs r this; if dobj_dig ob = tombstone then None else Some (dobj_dig ob) }"

text \<open>\<open>here\<close> reads the value of the promise whether or not it is fulfilled.\<close>

definition dist_here :: "nat \<Rightarrow> digest \<Rightarrow> 'v runtime \<Rightarrow> u64 option" where
  "dist_here t dig r =
     (if \<not> assert_init r \<or> dig = tombstone then None
      else case registry r dig of
        Some (Reg_promise _) \<Rightarrow>
          do { (pro, r) \<leftarrow> registered_promise t dig 0 r;
               a \<leftarrow> headers (heap (world_of r)) pro;
               vs \<leftarrow> results a;
               case vs of [Obj_ref this] \<Rightarrow> Some this | _ \<Rightarrow> None }
      | _ \<Rightarrow> None)"

definition dist_when_here :: "nat \<Rightarrow> digest \<Rightarrow> 'v runtime \<Rightarrow> ('v val fut \<times> 'v runtime) option" where
  "dist_when_here t dig r =
     (if \<not> assert_init r \<or> dig = tombstone then None
      else do {
        (pro, r) \<leftarrow> registered_promise t dig 0 r;
        (f, s) \<leftarrow> promise_get_future pro (heap (world_of r));
        Some (f, put_heap s r)
      })"

text \<open>A reference to a distributed object travels as its id and arrives as the future of \<open>when_here\<close>.\<close>

definition dist_on_wire :: "u64 \<Rightarrow> 'v runtime \<Rightarrow> digest option" where
  "dist_on_wire this r = do { ob \<leftarrow> dobjs r this; if dobj_is_active ob then dist_id this r else None }"

definition dist_off_wire :: "nat \<Rightarrow> digest \<Rightarrow> 'v runtime \<Rightarrow> ('v val fut \<times> 'v runtime) option" where
  "dist_off_wire t dig r = dist_when_here t dig r"

end
