(* ===== verification/Team_Correct.thy ===== *)
theory Team_Correct
  imports Team
begin

text \<open>
  The registry and the teams of a process agree: every active team is found under its digest, and every entry for a team leads to an
  active team of that digest, whatever teams are split off, created, moved, destroyed and deleted. The list of ranks that \<open>create\<close>
  accepts is characterised.
\<close>

subsection \<open>The invariant\<close>

definition teams_ok :: "'v runtime \<Rightarrow> bool" where
  "teams_ok r \<longleftrightarrow>
     (\<forall>a tm. teams r a = Some tm \<longrightarrow>
        (handle tm = None \<longleftrightarrow> \<not> team_is_active tm) \<and> (team_is_active tm \<longrightarrow> registry r (team_dig tm) = Some (Reg_team a))) \<and>
     (\<forall>d a. registry r d = Some (Reg_team a) \<longrightarrow> (\<exists>tm. teams r a = Some tm \<and> team_is_active tm \<and> team_dig tm = d))"

lemma teams_okD:
  assumes "teams_ok r"
  shows "teams r a = Some tm \<Longrightarrow> handle tm = None \<longleftrightarrow> \<not> team_is_active tm"
    and "teams r a = Some tm \<Longrightarrow> team_is_active tm \<Longrightarrow> registry r (team_dig tm) = Some (Reg_team a)"
    and "registry r d = Some (Reg_team a) \<Longrightarrow> \<exists>tm. teams r a = Some tm \<and> team_is_active tm \<and> team_dig tm = d"
  using assms by (auto simp: teams_ok_def)

lemma teams_okI:
  assumes "\<And>a tm. teams r a = Some tm \<Longrightarrow> handle tm = None \<longleftrightarrow> \<not> team_is_active tm"
    and "\<And>a tm. teams r a = Some tm \<Longrightarrow> team_is_active tm \<Longrightarrow> registry r (team_dig tm) = Some (Reg_team a)"
    and "\<And>d a. registry r d = Some (Reg_team a) \<Longrightarrow> \<exists>tm. teams r a = Some tm \<and> team_is_active tm \<and> team_dig tm = d"
  shows "teams_ok r"
  using assms by (auto simp: teams_ok_def)

lemma teams_ok_cong: "teams r = teams r' \<Longrightarrow> registry r = registry r' \<Longrightarrow> teams_ok r \<longleftrightarrow> teams_ok r'"
  by (simp add: teams_ok_def)

lemma teams_ok_injective:
  assumes "teams_ok r" "teams r a = Some x" "teams r b = Some y" "team_is_active x" "team_dig x = team_dig y"
  shows "a = b"
proof -
  have "registry r (team_dig x) = Some (Reg_team a)" using teams_okD(2)[OF assms(1,2,4)] .
  moreover have "registry r (team_dig y) = Some (Reg_team b)"
    using teams_okD(2)[OF assms(1,3)] assms(4,5) by (simp add: team_is_active_def)
  ultimately show ?thesis using assms(5) by simp
qed

lemma tombstone_unused: "teams_ok r \<Longrightarrow> registry r tombstone \<noteq> Some (Reg_team a)"
  using teams_okD(3)[of r tombstone a] by (auto simp: team_is_active_def)

subsection \<open>Operations\<close>

lemma team_construct_ok:
  assumes ok: "teams_ok r" and new: "teams r this = None" and dig: "dig \<noteq> tombstone \<Longrightarrow> registry r dig = None \<and> base \<noteq> None"
    and c: "team_construct this base dig n me r = Some r'"
  shows "teams_ok r'"
proof (cases "dig = tombstone")
  case True
  then have r': "r' = put_team this \<lparr>handle = None, team_dig = tombstone, coll_counter = 0, team_n = 0, team_me = - 1\<rparr> r"
    using c by (auto simp: team_construct_def split: if_splits)
  have t: "x \<noteq> this" if "registry r d = Some (Reg_team x)" for d x using teams_okD(3)[OF ok that] new by auto
  show ?thesis
    by (rule teams_okI) (use ok t in \<open>auto simp: r' put_team_def team_is_active_def dest: teams_okD split: if_splits\<close>)
next
  case False
  then have r': "r' = (put_team this \<lparr>handle = base, team_dig = dig, coll_counter = 0, team_n = n, team_me = me\<rparr> r)\<lparr>registry := (registry r)(dig \<mapsto> Reg_team this)\<rparr>"
    using c by (auto simp: team_construct_def put_team_def)
  have t: "x \<noteq> this" if "registry r d = Some (Reg_team x)" for d x using teams_okD(3)[OF ok that] new by auto
  have u: "team_dig x \<noteq> dig" if "teams r a = Some x" "team_is_active x" for a x
    using teams_okD(2)[OF ok that] dig[OF False] by auto
  show ?thesis
    by (rule teams_okI) (use ok t u dig[OF False] False in \<open>auto simp: r' put_team_def team_is_active_def dest: teams_okD split: if_splits\<close>)
qed

lemma team_move_assign_ok:
  assumes ok: "teams_ok r" and m: "team_move_assign t this that r = Some r'"
  shows "teams_ok r'"
proof (cases "that = this")
  case True
  then show ?thesis using ok m by (simp add: team_move_assign_def)
next
  case False
  then obtain a b where ab: "teams r this = Some a" "teams r that = Some b" "\<not> team_is_active a"
    and r': "r' = (let r = put_team that (team_invalidate b) (put_team this b r)
          in if team_dig b \<noteq> tombstone then r\<lparr>registry := (registry r)(team_dig b \<mapsto> Reg_team this)\<rparr> else r)"
    using m by (auto simp: team_move_assign_def bind_eq_Some_conv Let_def split: if_splits)
  have i: "x = that" if "teams r x = Some y" "team_is_active y" "team_dig y = team_dig b" for x y
    using teams_ok_injective[OF ok that(1) ab(2) that(2,3)] .
  have j: "d = team_dig b" if "registry r d = Some (Reg_team that)" for d using teams_okD(3)[OF ok that] ab(2) by auto
  have k: "registry r d \<noteq> Some (Reg_team this)" for d using teams_okD(3)[OF ok, of d this] ab(1,3) by auto
  have tm: "teams r' = (teams r)(this \<mapsto> b, that \<mapsto> team_invalidate b)"
    and reg: "registry r' = (if team_is_active b then (registry r)(team_dig b \<mapsto> Reg_team this) else registry r)"
    by (auto simp: r' Let_def put_team_def team_is_active_def)
  have ib: "\<not> team_is_active (team_invalidate b)" "handle (team_invalidate b) = None"
    by (simp_all add: team_invalidate_def team_is_active_def)
  show ?thesis
  proof (rule teams_okI)
    fix x y assume x: "teams r' x = Some y"
    show "handle y = None \<longleftrightarrow> \<not> team_is_active y" using x ib teams_okD(1)[OF ok] ab(2) by (auto simp: tm split: if_splits)
    assume act: "team_is_active y"
    have "x \<noteq> that" using x act ib(1) by (auto simp: tm)
    then show "registry r' (team_dig y) = Some (Reg_team x)"
      using x act i[of x y] teams_okD(2)[OF ok, of x y] by (auto simp: tm reg split: if_splits)
  next
    fix d x assume d: "registry r' d = Some (Reg_team x)"
    show "\<exists>y. teams r' x = Some y \<and> team_is_active y \<and> team_dig y = d"
    proof (cases "team_is_active b \<and> d = team_dig b")
      case True
      then show ?thesis using d False by (auto simp: tm reg)
    next
      case n: False
      then have "registry r d = Some (Reg_team x)" using d by (auto simp: reg split: if_splits)
      note e = teams_okD(3)[OF ok this] this
      then have "x \<noteq> this" "x \<noteq> that" using k[of d] j[of d] n ab(2) by auto
      then show ?thesis using e(1) by (auto simp: tm)
    qed
  qed
qed


lemma team_default_ok:
  assumes "teams_ok r" "teams r this = None" "team_default this r = Some r'"
  shows "teams_ok r'"
  using team_construct_ok[OF assms(1,2) _ assms(3)[unfolded team_default_def]] by simp

lemma team_move_construct_ok:
  assumes "teams_ok r" "teams r this = None" "team_move_construct t this that r = Some r'"
  shows "teams_ok r'"
  using assms by (auto simp: team_move_construct_def bind_eq_Some_conv intro: team_default_ok team_move_assign_ok)

lemma team_destructor_ok:
  assumes ok: "teams_ok r" and i: "init_count r > 0" and d: "team_destructor this r = Some r'"
  shows "teams_ok r' \<and> (\<exists>tm. teams r this = Some tm \<and> \<not> team_is_active tm)"
proof -
  obtain tm where tm: "teams r this = Some tm" "\<not> (handle tm \<noteq> None \<and> registry r (team_dig tm) \<noteq> None)" "r' = r\<lparr>teams := (teams r)(this := None)\<rparr>"
    using d i by (auto simp: team_destructor_def bind_eq_Some_conv split: if_splits)
  then have na: "\<not> team_is_active tm" using teams_okD(1,2)[OF ok tm(1)] by auto
  have "x \<noteq> this" if "registry r e = Some (Reg_team x)" for e x using teams_okD(3)[OF ok that] tm(1) na by auto
  then have "teams_ok r'"
    by (intro teams_okI) (use ok in \<open>auto simp: tm(3) dest: teams_okD split: if_splits\<close>)
  then show ?thesis using tm(1) na by blast
qed

lemma next_collective_id_ok:
  assumes ok: "teams_ok r" and n: "next_collective_id this r = Some (d, r')"
  shows "teams_ok r' \<and> registry r' = registry r \<and> dom (teams r') = dom (teams r)"
proof -
  obtain tm where tm: "teams r this = Some tm" and r': "r' = put_team this (tm\<lparr>coll_counter := coll_counter tm + 1\<rparr>) r"
    using n by (auto simp: next_collective_id_def bind_eq_Some_conv)
  have "teams_ok r'"
    by (rule teams_okI) (use ok tm in \<open>auto simp: r' put_team_def team_is_active_def dest: teams_okD split: if_splits\<close>)
  then show ?thesis using tm by (auto simp: r' put_team_def)
qed

lemma teams_ok_scratch: "teams_ok (r\<lparr>scratch := x\<rparr>) \<longleftrightarrow> teams_ok r"
  by (rule teams_ok_cong) auto

text \<open>The digest that the next split or creation with a number mixes from the id of the team.\<close>

definition sub_digest :: "team \<Rightarrow> int \<Rightarrow> digest" where
  "sub_digest tm k = eat (eat (team_dig tm) (coll_counter tm) 0) (word_of_int k) 0"

text \<open>A new team from a parent whose counter has moved on.\<close>

lemma sub_team_ok:
  assumes ok: "teams_ok r" and new: "teams r this = None" and n: "next_collective_id parent r = Some (d, r1)"
    and dig: "dig \<noteq> tombstone \<Longrightarrow> registry r dig = None \<and> base \<noteq> None"
    and c: "team_construct this base dig k me (r1\<lparr>scratch := sc\<rparr>) = Some r'"
  shows "teams_ok r'"
proof -
  have r1: "teams_ok r1" "registry r1 = registry r" "dom (teams r1) = dom (teams r)" using next_collective_id_ok[OF ok n] by auto
  have "teams r1 this = None" using r1(3) new by (metis domIff)
  then show ?thesis
    using r1 dig by (intro team_construct_ok[OF _ _ _ c]) (auto simp: teams_ok_scratch)
qed

lemma team_split_ok:
  assumes ok: "teams_ok r" and new: "teams r this = None" and p: "teams r parent = Some tm"
    and free: "registry r (sub_digest tm color) = None"
    and s: "team_split gex_split buf t this parent color key r = Some r'"
  shows "teams_ok r'"
proof -
  let ?d = "eat (team_dig tm) (coll_counter tm) 0" and ?r = "put_team parent (tm\<lparr>coll_counter := coll_counter tm + 1\<rparr>) r"
  have n: "next_collective_id parent r = Some (?d, ?r)" using p by (simp add: next_collective_id_def)
  show ?thesis
  proof (cases "color = color_none")
    case True
    then have "team_construct this None tombstone 0 (- 1) (?r\<lparr>scratch := scratch ?r\<rparr>) = Some r'"
      using s n p by (auto simp: team_split_def split: if_splits)
    from sub_team_ok[OF ok new n _ this] show ?thesis by simp
  next
    case False
    obtain sub me k where g: "gex_split (handle tm) color key = (sub, me, k)" by (metis prod_cases3)
    have "team_construct this (Some sub) (sub_digest tm color) k me (?r\<lparr>scratch := (scratch ?r)(sub \<mapsto> buf)\<rparr>) = Some r'"
      using s n p g False by (auto simp: team_split_def sub_digest_def split: if_splits)
    from sub_team_ok[OF ok new n _ this] show ?thesis using free by simp
  qed
qed

lemma team_create_ok:
  assumes ok: "teams_ok r" and new: "teams r this = None" and p: "teams r parent = Some tm"
    and free: "locs \<noteq> [] \<Longrightarrow> registry r (sub_digest tm (to_job (handle tm) (hd locs))) = None"
    and s: "team_create gex_create to_job buf t this parent locs r = Some r'"
  shows "teams_ok r'"
proof -
  let ?d = "eat (team_dig tm) (coll_counter tm) 0" and ?r = "put_team parent (tm\<lparr>coll_counter := coll_counter tm + 1\<rparr>) r"
  have n: "next_collective_id parent r = Some (?d, ?r)" using p by (simp add: next_collective_id_def)
  show ?thesis
  proof (cases locs)
    case Nil
    then have "team_construct this None tombstone 0 (- 1) (?r\<lparr>scratch := scratch ?r\<rparr>) = Some r'"
      using s n p by (auto simp: team_create_def split: if_splits)
    from sub_team_ok[OF ok new n _ this] show ?thesis by simp
  next
    case (Cons loc ls)
    obtain sub me k where g: "gex_create (handle tm) locs = (sub, me, k)" by (metis prod_cases3)
    have "team_construct this (Some sub) (sub_digest tm (to_job (handle tm) loc)) (int (length locs)) me (?r\<lparr>scratch := (scratch ?r)(sub \<mapsto> buf)\<rparr>) = Some r'"
      using s n p g Cons by (auto simp: team_create_def sub_digest_def team_index_def bind_eq_Some_conv split: if_splits)
    from sub_team_ok[OF ok new n _ this] show ?thesis using free Cons by simp
  qed
qed

text \<open>A team that leaves the registry and becomes inactive.\<close>

lemma team_forget_ok:
  assumes r2: "teams_ok r2" "teams r2 this = Some x" "team_is_active x"
  shows "teams_ok (put_team this (team_invalidate x) (r2\<lparr>registry := (registry r2)(team_dig x := None)\<rparr>))" (is "teams_ok ?r")
proof -
  have i: "y = this" if "teams r2 y = Some z" "team_is_active z" "team_dig z = team_dig x" for y z
    using teams_ok_injective[OF r2(1) that(1) r2(2) that(2,3)] .
  have j: "e = team_dig x" if "registry r2 e = Some (Reg_team this)" for e using teams_okD(3)[OF r2(1) that] r2(2) by auto
  show ?thesis
  proof (rule teams_okI)
    fix y z assume y: "teams ?r y = Some z"
    show "handle z = None \<longleftrightarrow> \<not> team_is_active z"
      using y teams_okD(1)[OF r2(1)] by (auto simp: put_team_def team_invalidate_def team_is_active_def split: if_splits)
    show "registry ?r (team_dig z) = Some (Reg_team y)" if "team_is_active z"
      using y that teams_okD(2)[OF r2(1), of y z] i[of y z] by (auto simp: put_team_def team_invalidate_def team_is_active_def split: if_splits)
  next
    fix e y assume e: "registry ?r e = Some (Reg_team y)"
    then have "registry r2 e = Some (Reg_team y)" "e \<noteq> team_dig x" by (auto simp: put_team_def split: if_splits)
    then show "\<exists>z. teams ?r y = Some z \<and> team_is_active z \<and> team_dig z = e"
      using teams_okD(3)[OF r2(1)] j by (fastforce simp: put_team_def)
  qed
qed

subsection \<open>All sequences of operations\<close>

text \<open>
  What the user of a process does with teams. New objects are at addresses that hold none, and the digest of a new team is that of no object
  in the registry: digests are taken to be free of collisions. \<open>quiesce\<close> runs other code of the program, which may move teams too.
\<close>

inductive team_step ::
  "(nat option \<Rightarrow> int \<Rightarrow> int \<Rightarrow> nat \<times> int \<times> int) \<Rightarrow> (nat option \<Rightarrow> int list \<Rightarrow> nat \<times> int \<times> int) \<Rightarrow> (nat option \<Rightarrow> int \<Rightarrow> int) \<Rightarrow>
   (u64 \<Rightarrow> entry_barrier \<Rightarrow> 'v runtime \<Rightarrow> 'v runtime option) \<Rightarrow> 'v runtime \<Rightarrow> 'v runtime \<Rightarrow> bool"
  for gex_split gex_create to_job quiesce where
  step_split: "team_split gex_split buf t this parent color key r = Some r' \<Longrightarrow> teams r this = None \<Longrightarrow> teams r parent = Some tm \<Longrightarrow>
     registry r (sub_digest tm color) = None \<Longrightarrow> team_step gex_split gex_create to_job quiesce r r'"
| step_create: "team_create gex_create to_job buf t this parent locs r = Some r' \<Longrightarrow> teams r this = None \<Longrightarrow> teams r parent = Some tm \<Longrightarrow>
     (locs \<noteq> [] \<longrightarrow> registry r (sub_digest tm (to_job (handle tm) (hd locs))) = None) \<Longrightarrow>
     team_step gex_split gex_create to_job quiesce r r'"
| step_default: "team_default this r = Some r' \<Longrightarrow> teams r this = None \<Longrightarrow> team_step gex_split gex_create to_job quiesce r r'"
| step_move_assign: "team_move_assign t this that r = Some r' \<Longrightarrow> team_step gex_split gex_create to_job quiesce r r'"
| step_move_construct: "team_move_construct t this that r = Some r' \<Longrightarrow> teams r this = None \<Longrightarrow>
     team_step gex_split gex_create to_job quiesce r r'"
| step_next_id: "next_collective_id this r = Some (d, r') \<Longrightarrow> team_step gex_split gex_create to_job quiesce r r'"
| step_destroy: "team_destroy quiesce t this eb r = Some r' \<Longrightarrow> team_step gex_split gex_create to_job quiesce r r'"
| step_destructor: "team_destructor this r = Some r' \<Longrightarrow> init_count r > 0 \<Longrightarrow> team_step gex_split gex_create to_job quiesce r r'"

text \<open>The world and the local team are never moved or destroyed.\<close>

definition builtin_ok :: "'v runtime \<Rightarrow> bool" where
  "builtin_ok r \<longleftrightarrow> (\<forall>a \<in> {the_world_team r, the_local_team r}. \<exists>tm. teams r a = Some tm \<and> team_is_active tm)"

definition runtime_ok :: "'v runtime \<Rightarrow> bool" where
  "runtime_ok r \<longleftrightarrow> teams_ok r \<and> builtin_ok r"

definition quiesce_ok :: "(u64 \<Rightarrow> entry_barrier \<Rightarrow> 'v runtime \<Rightarrow> 'v runtime option) \<Rightarrow> bool" where
  "quiesce_ok quiesce \<longleftrightarrow> (\<forall>this eb r r'. runtime_ok r \<longrightarrow> quiesce this eb r = Some r' \<longrightarrow>
     runtime_ok r' \<and> the_world_team r' = the_world_team r \<and> the_local_team r' = the_local_team r)"

lemma builtin_ok_put:
  assumes "builtin_ok r" "the_world_team r' = the_world_team r" "the_local_team r' = the_local_team r"
    and "\<And>a tm. teams r a = Some tm \<Longrightarrow> team_is_active tm \<Longrightarrow> a \<in> {the_world_team r, the_local_team r} \<Longrightarrow>
           \<exists>tm'. teams r' a = Some tm' \<and> team_is_active tm'"
  shows "builtin_ok r'"
  using assms unfolding builtin_ok_def by (metis (no_types, lifting))

lemma team_construct_frame:
  "team_construct this base dig n me r = Some r' \<Longrightarrow>
     the_world_team r' = the_world_team r \<and> the_local_team r' = the_local_team r \<and> (\<forall>a. a \<noteq> this \<longrightarrow> teams r' a = teams r a)"
  by (auto simp: team_construct_def put_team_def Let_def split: if_splits)

lemma team_move_assign_frame:
  assumes "team_move_assign t this that r = Some r'" "that \<noteq> this"
  shows "the_world_team r' = the_world_team r \<and> the_local_team r' = the_local_team r \<and> that \<notin> {the_world_team r, the_local_team r} \<and>
    (\<exists>tm. teams r this = Some tm \<and> \<not> team_is_active tm) \<and> (\<forall>a. a \<noteq> this \<longrightarrow> a \<noteq> that \<longrightarrow> teams r' a = teams r a)"
  using assms by (auto simp: team_move_assign_def put_team_def Let_def bind_eq_Some_conv split: if_splits)

lemma builtin_construct:
  assumes "builtin_ok r" "teams r this = None" "team_construct this base dig n me r = Some r'"
  shows "builtin_ok r'"
  using team_construct_frame[OF assms(3)] assms(2) by (intro builtin_ok_put[OF assms(1)]) (simp, simp, metis option.distinct(1))

lemma builtin_move_assign:
  assumes "builtin_ok r" "team_move_assign t this that r = Some r'"
  shows "builtin_ok r'"
proof (cases "that = this")
  case True
  then show ?thesis using assms by (simp add: team_move_assign_def)
next
  case False
  then show ?thesis using team_move_assign_frame[OF assms(2)] by (intro builtin_ok_put[OF assms(1)]) (simp, simp, metis option.inject)
qed

lemma builtin_sub_team:
  assumes "builtin_ok r" "teams r this = None" "next_collective_id parent r = Some (d, r1)"
    "team_construct this base dig n me (r1\<lparr>scratch := sc\<rparr>) = Some r'"
  shows "builtin_ok r'"
proof -
  obtain tm where tm: "teams r parent = Some tm" "r1 = put_team parent (tm\<lparr>coll_counter := coll_counter tm + 1\<rparr>) r"
    using assms(3) by (auto simp: next_collective_id_def bind_eq_Some_conv)
  have "builtin_ok (r1\<lparr>scratch := sc\<rparr>)"
    using tm by (intro builtin_ok_put[OF assms(1)]) (auto simp: put_team_def team_is_active_def)
  moreover have "teams (r1\<lparr>scratch := sc\<rparr>) this = None" using assms(2) tm by (auto simp: put_team_def)
  ultimately show ?thesis using assms(4) by (rule builtin_construct)
qed


lemma builtin_next_id:
  assumes "builtin_ok r" "next_collective_id this r = Some (d, r')"
  shows "builtin_ok r'"
proof -
  obtain tm where tm: "teams r this = Some tm" "r' = put_team this (tm\<lparr>coll_counter := coll_counter tm + 1\<rparr>) r"
    using assms(2) by (auto simp: next_collective_id_def bind_eq_Some_conv)
  then show ?thesis by (intro builtin_ok_put[OF assms(1)]) (auto simp: put_team_def team_is_active_def)
qed

lemma builtin_split:
  assumes "builtin_ok r" "teams r this = None" "team_split gex_split buf t this parent color key r = Some r'"
  shows "builtin_ok r'"
proof -
  obtain d r1 base dig n me sc where "next_collective_id parent r = Some (d, r1)" "team_construct this base dig n me (r1\<lparr>scratch := sc\<rparr>) = Some r'"
  proof (cases "color = color_none")
    case True
    then obtain d r1 where "next_collective_id parent r = Some (d, r1)" "team_construct this None tombstone 0 (- 1) r1 = Some r'"
      using assms(3) by (auto simp: team_split_def bind_eq_Some_conv split: if_splits)
    then show ?thesis using that[of d r1 None tombstone 0 "- 1" "scratch r1"] by simp
  next
    case False
    obtain tm where tm: "teams r parent = Some tm" using assms(3) by (auto simp: team_split_def bind_eq_Some_conv split: if_splits)
    obtain sub me k where "gex_split (handle tm) color key = (sub, me, k)" by (metis prod_cases3)
    then show ?thesis using assms(3) tm False by (auto simp: team_split_def bind_eq_Some_conv split: if_splits intro: that)
  qed
  then show ?thesis by (rule builtin_sub_team[OF assms(1,2)])
qed

lemma builtin_create:
  assumes "builtin_ok r" "teams r this = None" "team_create gex_create to_job buf t this parent locs r = Some r'"
  shows "builtin_ok r'"
proof -
  obtain d r1 base dig n me sc where "next_collective_id parent r = Some (d, r1)" "team_construct this base dig n me (r1\<lparr>scratch := sc\<rparr>) = Some r'"
  proof (cases locs)
    case Nil
    then obtain d r1 where "next_collective_id parent r = Some (d, r1)" "team_construct this None tombstone 0 (- 1) r1 = Some r'"
      using assms(3) by (auto simp: team_create_def bind_eq_Some_conv split: if_splits)
    then show ?thesis using that[of d r1 None tombstone 0 "- 1" "scratch r1"] by simp
  next
    case (Cons loc ls)
    obtain tm where tm: "teams r parent = Some tm" using assms(3) by (auto simp: team_create_def bind_eq_Some_conv split: if_splits)
    obtain sub me k where "gex_create (handle tm) locs = (sub, me, k)" by (metis prod_cases3)
    then show ?thesis using assms(3) tm Cons by (auto simp: team_create_def bind_eq_Some_conv split: if_splits intro: that)
  qed
  then show ?thesis by (rule builtin_sub_team[OF assms(1,2)])
qed


lemma runtime_destroy:
  assumes ok: "runtime_ok r" and q: "quiesce_ok quiesce" and d: "team_destroy quiesce t this eb r = Some r'"
  shows "runtime_ok r'"
proof -
  obtain tm where tm: "teams r this = Some tm" using d by (auto simp: team_destroy_def bind_eq_Some_conv split: if_splits)
  show ?thesis
  proof (cases "team_is_active tm")
    case False
    then show ?thesis using d tm ok by (auto simp: team_destroy_def split: if_splits)
  next
    case True
    obtain h where h: "handle tm = Some h" using ok teams_okD(1)[OF _ tm] True by (auto simp: runtime_ok_def)
    then obtain r1 x where r1: "quiesce this eb r = Some r1" "teams r1 this = Some x" "team_is_active x"
        and b: "this \<noteq> the_world_team r" "this \<noteq> the_local_team r"
        and r': "r' = put_team this (team_invalidate x) ((r1\<lparr>scratch := (scratch r1)(h := None)\<rparr>)\<lparr>registry := (registry r1)(team_dig x := None)\<rparr>)"
      using d tm True
      by (auto simp: team_destroy_def team_destroy_internal_def bind_eq_Some_conv team_is_active_def split: if_splits)
    have k: "runtime_ok r1" "the_world_team r1 = the_world_team r" "the_local_team r1 = the_local_team r"
      using q ok r1(1) by (auto simp: quiesce_ok_def)
    then have t: "teams_ok (r1\<lparr>scratch := (scratch r1)(h := None)\<rparr>)" "builtin_ok r1" by (auto simp: runtime_ok_def teams_ok_scratch)
    have "builtin_ok r'" using b k(2,3) by (intro builtin_ok_put[OF t(2)]) (auto simp: r' put_team_def)
    then show ?thesis using team_forget_ok[OF t(1)] r1(2,3) by (simp add: runtime_ok_def r')
  qed
qed


lemma team_step_ok:
  assumes "team_step gex_split gex_create to_job quiesce r r'" "runtime_ok r" "quiesce_ok quiesce"
  shows "runtime_ok r'"
  using assms(1)
proof cases
  case step_destroy
  then show ?thesis using runtime_destroy[OF assms(2,3)] by blast
next
  case (step_destructor a)
  moreover from this have "teams_ok r' \<and> (\<exists>tm. teams r a = Some tm \<and> \<not> team_is_active tm)"
    using assms(2) by (intro team_destructor_ok) (auto simp: runtime_ok_def)
  moreover have "r' = r\<lparr>teams := (teams r)(a := None)\<rparr>"
    using step_destructor(1) by (auto simp: team_destructor_def bind_eq_Some_conv split: if_splits)
  ultimately show ?thesis using assms(2) by (auto simp: runtime_ok_def intro!: builtin_ok_put[of r])
qed (use assms(2) in \<open>auto simp: runtime_ok_def team_default_def team_move_construct_def bind_eq_Some_conv
      intro: team_split_ok team_create_ok team_default_ok team_move_assign_ok builtin_split builtin_create builtin_construct builtin_move_assign
        builtin_next_id team_construct_ok[where dig = tombstone]
      dest: next_collective_id_ok\<close>)

lemma team_steps_ok:
  assumes "(team_step gex_split gex_create to_job quiesce)\<^sup>*\<^sup>* r r'" "runtime_ok r" "quiesce_ok quiesce"
  shows "runtime_ok r'"
  using assms by (induction rule: rtranclp_induct) (auto intro: team_step_ok)


subsection \<open>Teams and their ids\<close>

lemma teams_init_ok:
  assumes i: "teams_init w world_tm local_tm n me peer_lb peer_n peer_me world_at local_at = Some r"
    and d: "eat (Digest 0x2222222222222222 0x2222222222222222) (word_of_int peer_lb) 0 \<notin> {tombstone, Digest 0x1111111111111111 0x1111111111111111}"
    and a: "world_at \<noteq> local_at"
  shows "runtime_ok r \<and> init_count r = 1"
  using i d a
  by (auto simp: teams_init_def build_world_team_def build_local_team_def team_construct_def bind_eq_Some_conv put_team_def runtime_ok_def teams_ok_def builtin_ok_def team_is_active_def
      tombstone_def zero_def Let_def split: if_splits)

text \<open>
  (C11) Teams are found by their ids. From start-up, after any sequence of splits, creations, moves, ids given out, destructions and
  deletions: \<open>team_id::here\<close> finds every active team at the address where it is now, and what it finds is an active team of that id; no two
  active teams share an id; the world and the local team stay active where they were made; and a team that is active cannot be deleted. The digest of the
  local team does not collide with that of the world.
\<close>

theorem team_found_by_id:
  assumes "teams_init w world_tm local_tm n me peer_lb peer_n peer_me world_at local_at = Some r0"
    and "eat (Digest 0x2222222222222222 0x2222222222222222) (word_of_int peer_lb) 0 \<notin> {tombstone, Digest 0x1111111111111111 0x1111111111111111}"
    and "world_at \<noteq> local_at" "quiesce_ok quiesce"
    and "(team_step gex_split gex_create to_job quiesce)\<^sup>*\<^sup>* r0 r" "init_count r > 0"
  shows "(\<forall>a tm. teams r a = Some tm \<and> team_is_active tm \<longrightarrow> team_here (team_dig tm) r = Some a \<and> team_destructor a r = None) \<and>
    (\<forall>d a. team_here d r = Some a \<longrightarrow> (\<exists>tm. teams r a = Some tm \<and> team_is_active tm \<and> team_dig tm = d)) \<and>
    (\<forall>a \<in> {the_world_team r, the_local_team r}. \<exists>tm. teams r a = Some tm \<and> team_is_active tm)"
proof -
  have ok: "teams_ok r" "builtin_ok r"
    using team_steps_ok[OF assms(5) _ assms(4)] teams_init_ok[OF assms(1-3)] by (simp_all add: runtime_ok_def)
  have "team_here (team_dig tm) r = Some a \<and> team_destructor a r = None" if "teams r a = Some tm" "team_is_active tm" for a tm
    using teams_okD(1,2)[OF ok(1) that(1)] that assms(6) by (auto simp: team_here_def assert_init_def team_is_active_def team_destructor_def)
  moreover have "\<exists>tm. teams r a = Some tm \<and> team_is_active tm \<and> team_dig tm = d" if "team_here d r = Some a" for d a
    using that by (intro teams_okD(3)[OF ok(1)]) (auto simp: team_here_def split: if_splits option.splits reg_entry.splits)
  ultimately show ?thesis using ok(2) by (auto simp: builtin_ok_def)
qed

text \<open>A process of four ranks that splits a team off the world and moves it.\<close>

definition one_thread :: "int val pworld" where
  "one_thread =
     \<lparr>heap = fheap_init, personas = [100 \<mapsto> default_persona_init], scopes = [200 \<mapsto> persona_scope_raw_init],
      threads = [0 \<mapsto> persona_tls_init 100 200], lock_held = \<lambda>_. False, threadmode_seq = False, master_persona = 100\<rparr>"

definition example_start :: "int runtime" where
  "example_start = the (teams_init one_thread 7 8 4 0 0 2 0 500 600)"

definition example_split :: "int runtime" where
  "example_split = the (team_split (\<lambda>_ _ _. (9, 0, 2)) 0x700 0 700 500 1 0 example_start)"

definition example_moved :: "int runtime" where
  "example_moved = the (team_move_construct 0 800 700 example_split)"

text \<open>The digests of the local team and of the new team, line by line.\<close>

lemma eat_local: "eat (Digest 0x2222222222222222 0x2222222222222222) 0 0 = Digest 0x5EAA40EC26E96BA 0x787A483CEC43CB8"
proof -
  have
    "eat_line 15 0 0 = (0, 0)"
    "eat_line 52 0x2222222222222222 0 = (0x2222222222222222, 0)"
    "eat_line 26 0x2222222222222222 0x2222222222222222 = (0x8888888888888888, 0x8888888888888888)"
    "eat_line 51 0 0x8888888888888888 = (0xCCCCCCCCCCCCCCCC, 0x4444444444444444)"
    "eat_line 28 0 0xCCCCCCCCCCCCCCCC = (0x9999999999999998, 0xCCCCCCCCCCCCCCCC)"
    "eat_line 9 0x8888888888888888 0x9999999999999998 = (0x4444444444444243, 0x3333333333333133)"
    "eat_line 47 0x4444444444444444 0x4444444444444243 = (0x2121A22222222829, 0x2121A22222222222)"
    "eat_line 54 0xCCCCCCCCCCCCCCCC 0x2121A22222222829 = (0xF835B75777776D6F, 0xA4848688888888A)"
    "eat_line 32 0x3333333333333133 0xF835B75777776D6F = (0x427DF1D43C7A13B3, 0x77776D6FF835B757)"
    "eat_line 25 0x2121A22222222222 0x427DF1D43C7A13B3 = (0xBD5481D84DD2D74, 0xA878F4276684FBE3)"
    "eat_line 63 0xA4848688888888A 0xBD5481D84DD2D74 = (0x787A483CEC43CB8, 0x5EAA40EC26E96BA)"
    by (simp_all add: eat_line_def bitrotl_def)
  then show ?thesis by (simp add: eat_def eat_mix_def)
qed

lemma eat_world: "eat (Digest 0x1111111111111111 0x1111111111111111) 0 0 = Digest 0x312603B2B2A7C4CB 0x586E46F3D3B3929D"
proof -
  have
    "eat_line 15 0 0 = (0, 0)"
    "eat_line 52 0x1111111111111111 0 = (0x1111111111111111, 0)"
    "eat_line 26 0x1111111111111111 0x1111111111111111 = (0x4444444444444444, 0x4444444444444444)"
    "eat_line 51 0 0x4444444444444444 = (0x6666666666666666, 0x2222222222222222)"
    "eat_line 28 0 0x6666666666666666 = (0xCCCCCCCCCCCCCCCC, 0x6666666666666666)"
    "eat_line 9 0x4444444444444444 0xCCCCCCCCCCCCCCCC = (0x2222222222222221, 0x9999999999999999)"
    "eat_line 47 0x2222222222222222 0x2222222222222221 = (0x1110911111111114, 0x1110911111111111)"
    "eat_line 54 0x6666666666666666 0x1110911111111114 = (0xBC7B3B9BBBBBBBB6, 0x4504442444444444)"
    "eat_line 32 0x9999999999999999 0xBC7B3B9BBBBBBBB6 = (0xE19E5DB8DE9D5DCA, 0xBBBBBBB6BC7B3B9B)"
    "eat_line 25 0x1110911111111111 0xE19E5DB8DE9D5DCA = (0x624C0765654F8996, 0x71BD3ABB95C33CBB)"
    "eat_line 63 0x4504442444444444 0x624C0765654F8996 = (0x586E46F3D3B3929D, 0x312603B2B2A7C4CB)"
    by (simp_all add: eat_line_def bitrotl_def)
  then show ?thesis by (simp add: eat_def eat_mix_def)
qed

lemma eat_sub: "eat (Digest 0x312603B2B2A7C4CB 0x586E46F3D3B3929D) 1 0 = Digest 0x3FA13D4A5B1B8895 0xF2AA0182089E7DA0"
proof -
  have
    "eat_line 15 0 1 = (0x8001, 0x8000)"
    "eat_line 52 0x312603B2B2A7C4CB 0x8001 = (0x313603B2B2A744D2, 0x10000000000008)"
    "eat_line 26 0x586E46F3D3B3929D 0x313603B2B2A744D2 = (0x3422E254A9D9AE5D, 0xCACA9D1348C4D80E)"
    "eat_line 51 0x8000 0x3422E254A9D9AE5D = (0xA70C836BBC7E7D2A, 0x72E9A11712A54ECD)"
    "eat_line 28 0x10000000000008 0xA70C836BBC7E7D2A = (0x62E46B3E66EF4558, 0xBBC7E7D2AA70C836)"
    "eat_line 9 0xCACA9D1348C4D80E 0x62E46B3E66EF4558 = (0x710572FB0CB64E1B, 0xC8D67CCDDE8AB0C5)"
    "eat_line 47 0x72E9A11712A54ECD 0x710572FB0CB64E1B = (0x2AFA8C6ED7908731, 0x270DB882B97D865B)"
    "eat_line 54 0xBBC7E7D2AA70C836 0x2AFA8C6ED7908731 = (0x5D882A5F99963328, 0xCC4ABEA31BB5E421)"
    "eat_line 32 0xC8D67CCDDE8AB0C5 0x5D882A5F99963328 = (0x2EF489BAA4A4AE4C, 0x999633285D882A5F)"
    "eat_line 25 0x270DB882B97D865B 0x2EF489BAA4A4AE4C = (0x7F427A94B637112A, 0x7549495C985DE913)"
    "eat_line 63 0xCC4ABEA31BB5E421 0x7F427A94B637112A = (0xF2AA0182089E7DA0, 0x3FA13D4A5B1B8895)"
    by (simp_all add: eat_line_def bitrotl_def)
  then show ?thesis by (simp add: eat_def eat_mix_def)
qed

lemmas example_defs = team_construct_def put_team_def tombstone_def zero_def Let_def one_thread_def assert_init_def assert_master_def
  assert_master_current_ifseq_def assert_collective_safe_def in_progress_def is_active_with_def active_with_caller_def get_owner_def
  default_persona_init_def persona_tls_init_def get_progressing_def team_is_active_def next_collective_id_def team_default_def
  team_move_construct_def team_move_assign_def team_invalidate_def color_none_def

lemma example_start_eq:
  "teams_init one_thread 7 8 4 0 0 2 0 500 600 = Some example_start"
  "teams example_start 500 = Some \<lparr>handle = Some 7, team_dig = Digest 0x1111111111111111 0x1111111111111111, coll_counter = 0, team_n = 4, team_me = 0\<rparr>"
  "dom (teams example_start) = {500, 600}"
  "dom (registry example_start) = {Digest 0x1111111111111111 0x1111111111111111, Digest 0x5EAA40EC26E96BA 0x787A483CEC43CB8}"
  "world_of example_start = one_thread" "init_count example_start = 1" "the_world_team example_start = 500" "the_local_team example_start = 600"
  by (auto simp: example_start_def teams_init_def build_world_team_def build_local_team_def example_defs eat_local)

lemma example_split_eq:
  "team_split (\<lambda>_ _ _. (9, 0, 2)) 0x700 0 700 500 1 0 example_start = Some example_split"
  "teams example_split 700 = Some \<lparr>handle = Some 9, team_dig = Digest 0x3FA13D4A5B1B8895 0xF2AA0182089E7DA0, coll_counter = 0, team_n = 2, team_me = 0\<rparr>"
  "dom (teams example_split) = {500, 600, 700}" "world_of example_split = one_thread" "init_count example_split = 1"
  "the_world_team example_split = 500" "the_local_team example_split = 600"
  using example_start_eq by (auto simp: example_split_def team_split_def example_defs eat_world eat_sub)

lemma example_moved_eq:
  "team_move_construct 0 800 700 example_split = Some example_moved" "init_count example_moved = 1"
  "teams example_moved 800 = Some \<lparr>handle = Some 9, team_dig = Digest 0x3FA13D4A5B1B8895 0xF2AA0182089E7DA0, coll_counter = 0, team_n = 2, team_me = 0\<rparr>"
  using example_split_eq by (auto simp: example_moved_def example_defs)

theorem team_found_by_id_witness:
  "teams example_moved 800 \<noteq> None \<and> team_here (Digest 0x3FA13D4A5B1B8895 0xF2AA0182089E7DA0) example_moved = Some 800"
proof -
  let ?step = "team_step (\<lambda>_ _ _. (9, 0, 2)) (\<lambda>_ _. (9, 0, 2)) (\<lambda>_ p. p) (\<lambda>_ _ r. Some r)"
  have "?step example_start example_split"
  proof (rule step_split[OF example_split_eq(1) _ example_start_eq(2)])
    show "teams example_start 700 = None" using example_start_eq(3) domIff[of 700 "teams example_start"] by simp
    show "registry example_start (sub_digest \<lparr>handle = Some 7, team_dig = Digest 0x1111111111111111 0x1111111111111111, coll_counter = 0, team_n = 4, team_me = 0\<rparr> 1) = None"
      using example_start_eq(4) domIff[of "Digest 0x3FA13D4A5B1B8895 0xF2AA0182089E7DA0" "registry example_start"]
      by (simp add: sub_digest_def eat_world eat_sub)
  qed
  moreover have "?step example_split example_moved"
    by (rule step_move_construct[OF example_moved_eq(1)]) (use example_split_eq(3) domIff[of 800 "teams example_split"] in simp)
  ultimately have run: "?step\<^sup>*\<^sup>* example_start example_moved" by (meson converse_rtranclp_into_rtranclp r_into_rtranclp)
  have q: "quiesce_ok (\<lambda>_ _ r. Some r :: int runtime option)" by (simp add: quiesce_ok_def)
  have d: "eat (Digest 0x2222222222222222 0x2222222222222222) (word_of_int 0) 0 \<notin> {tombstone, Digest 0x1111111111111111 0x1111111111111111}"
    by (simp add: eat_local tombstone_def zero_def)
  have "\<forall>a tm. teams example_moved a = Some tm \<and> team_is_active tm \<longrightarrow> team_here (team_dig tm) example_moved = Some a"
    using team_found_by_id[OF example_start_eq(1) d _ q run] example_moved_eq(2) by simp
  from this[rule_format, of 800] show ?thesis using example_moved_eq(3) by (simp add: team_is_active_def tombstone_def zero_def)
qed

subsection \<open>The list of ranks of a new team\<close>

lemma check_locs_spec:
  assumes "check_locs limit locs ids err = (ids', err')"
  shows "ids' = ids \<union> {r \<in> set locs. 0 \<le> r \<and> r < limit}"
    and "err' = None \<longleftrightarrow> err = None \<and> distinct locs \<and> set locs \<inter> ids = {} \<and> (\<forall>r \<in> set locs. 0 \<le> r \<and> r < limit)"
  using assms by (induction limit locs ids err rule: check_locs.induct) (auto split: if_splits)

text \<open>\<open>team::create\<close> accepts a list of ranks exactly when they are ranks of the parent, each once, with the caller among them; the empty list always.\<close>

lemma create_err_iff:
  "create_err limit me locs = None \<longleftrightarrow> distinct locs \<and> (\<forall>r \<in> set locs. 0 \<le> r \<and> r < limit) \<and> (locs = [] \<or> me \<in> set locs)"
proof -
  obtain ids err where c: "check_locs limit locs {} None = (ids, err)" by (metis surj_pair)
  show ?thesis using check_locs_spec[OF c] by (auto simp: create_err_def c)
qed

end
