(* ===== verification/Dist_Object_Correct.thy ===== *)
theory Dist_Object_Correct
  imports Dist_Object Team_Correct
begin

text \<open>
  A distributed object is found by its id from its construction on, at the address to which it was moved last, by whoever asked before or
  asks after; destruction ends that and gives up one reference to the promise. A move after the progress that fulfils the
  promise makes the promise unready again for good.
\<close>

subsection \<open>The promise of an id\<close>

text \<open>The registry has a promise for \<open>d\<close> whose value refers to the address \<open>a\<close>.\<close>

definition dist_at :: "'v runtime \<Rightarrow> digest \<Rightarrow> u64 \<Rightarrow> hptr \<Rightarrow> 'v val future_header \<Rightarrow> promise_meta \<Rightarrow> bool" where
  "dist_at r d a h x m \<longleftrightarrow>
     registry r d = Some (Reg_promise h) \<and> headers (heap (world_of r)) h = Some x \<and> pro_meta x = Some m \<and> arity x = 1 \<and>
     \<not> is_dependent x \<and> slot x = Result_of h \<and> results x = Some [Obj_ref a] \<and> 0 < ref_n x"

text \<open>A promise that was asked for before the object was constructed, with nothing attached to it yet.\<close>

definition awaited :: "'v runtime \<Rightarrow> digest \<Rightarrow> hptr \<Rightarrow> int \<Rightarrow> bool" where
  "awaited r d h n \<longleftrightarrow>
     registry r d = Some (Reg_promise h) \<and> 0 < n \<and>
     headers (heap (world_of r)) h = Some ((result_header 1 h)\<lparr>ref_n := n, pro_meta := Some \<lparr>countdown = 1, deferred_decrements = 0\<rparr>\<rparr>)"

lemma assert_master_heap [simp]:
  "assert_master t (r\<lparr>world_of := (world_of r)\<lparr>heap := s\<rparr>\<rparr>) = assert_master t r"
  "assert_master t (r\<lparr>registry := g\<rparr>) = assert_master t r" "assert_master t (r\<lparr>dobjs := b\<rparr>) = assert_master t r"
  "assert_master t (r\<lparr>teams := c\<rparr>) = assert_master t r"
  by (simp_all add: assert_master_def is_active_with_def)

lemma assert_init_simps [simp]:
  "assert_init (r\<lparr>world_of := w\<rparr>) = assert_init r"
  "assert_init (r\<lparr>registry := g\<rparr>) = assert_init r" "assert_init (r\<lparr>dobjs := b\<rparr>) = assert_init r"
  "assert_init (r\<lparr>teams := c\<rparr>) = assert_init r"
  by (simp_all add: assert_init_def)

lemmas put_defs = put_dobj_def put_world_def put_heap_def put_team_def put_header_def

text \<open>\<open>registered_promise\<close> finds the promise or makes it.\<close>

lemma registered_promise_awaited:
  fixes r :: "'a runtime"
  assumes m: "assert_master t r" and d: "registry r d = None \<or> (\<exists>h n. awaited r d h n)"
  shows "\<exists>h n s. registered_promise t d 0 r = Some (h, r\<lparr>world_of := (world_of r)\<lparr>heap := s\<rparr>, registry := (registry r)(d \<mapsto> Reg_promise h)\<rparr>) \<and>
    0 < n \<and> headers s h = Some ((result_header 1 h)\<lparr>ref_n := n, pro_meta := Some \<lparr>countdown = 1, deferred_decrements = 0\<rparr>\<rparr>)"
proof (cases "registry r d")
  case None
  let ?h = "fresh (heap (world_of r))"
  let ?x = "(result_header 1 ?h)\<lparr>pro_meta := Some \<lparr>countdown = 1, deferred_decrements = 0\<rparr>\<rparr> :: 'a val future_header"
  let ?s = "(heap (world_of r))\<lparr>headers := (headers (heap (world_of r)))(?h \<mapsto> ?x), fresh := Suc ?h\<rparr>"
  have "?s\<lparr>headers := (headers ?s)(?h \<mapsto> ?x)\<rparr> = ?s" by (cases "heap (world_of r)") simp
  then have "registered_promise t d 0 r = Some (?h, r\<lparr>world_of := (world_of r)\<lparr>heap := ?s\<rparr>, registry := (registry r)(d \<mapsto> Reg_promise ?h)\<rparr>)"
    using None m by (simp add: registered_promise_def new_promise_def new_header_def promise_require_anonymous_def get_meta_def put_meta_def put_header_def)
  then show ?thesis by (intro exI[of _ ?h] exI[of _ 1] exI[of _ ?s]) (simp add: result_header_def)
next
  case (Some e)
  then obtain h n where a: "awaited r d h n" using d by auto
  have "(registry r)(d \<mapsto> Reg_promise h) = registry r" using a by (auto simp: awaited_def fun_eq_iff)
  then have "r\<lparr>world_of := (world_of r)\<lparr>heap := heap (world_of r)\<rparr>, registry := (registry r)(d \<mapsto> Reg_promise h)\<rparr> = r" by simp
  then show ?thesis using a m by (intro exI[of _ h] exI[of _ n] exI[of _ "heap (world_of r)"]) (auto simp: awaited_def registered_promise_def)
qed

subsection \<open>Construction\<close>

text \<open>A promise of the registry that waits for the progress of the master persona.\<close>

definition pending :: "'v val future_header \<Rightarrow> promise_meta \<Rightarrow> bool" where
  "pending x m \<longleftrightarrow> status x = status_results_yes \<and> sucs x = [] \<and> m = \<lparr>countdown = 1, deferred_decrements = 1\<rparr> \<and> 2 \<le> ref_n x"

definition queued_at_master :: "hptr \<Rightarrow> 'v runtime \<Rightarrow> bool" where
  "queued_at_master h r \<longleftrightarrow>
     (\<exists>per. personas (world_of r) (master_persona (world_of r)) = Some per \<and> Lpc_promise h \<in> set (pros_deferred_trivial per))"

lemma fulfill_during_user_pending:
  fixes w :: "'v val pworld"
  assumes act: "is_active_with t p w = Some True" and h: "headers (heap w) h = Some x" "pro_meta x = Some \<lparr>countdown = 1, deferred_decrements = 0\<rparr>"
      "arity x = 1" "status x = status_results_no"
  shows "\<exists>per. personas w p = Some per \<and> fulfill_during_user (\<lambda>_. True) t h [v] p w =
     Some (put_persona p (per\<lparr>pros_deferred_trivial := pros_deferred_trivial per @ [Lpc_promise h]\<rparr>)
       (w\<lparr>heap := put_header h (x\<lparr>results := Some [v], status := status_results_yes, pro_meta := Some \<lparr>countdown = 1, deferred_decrements = 1\<rparr>\<rparr>) (heap w)\<rparr>))"
proof -
  obtain per where per: "personas w p = Some per" using act by (auto simp: is_active_with_def bind_eq_Some_conv)
  have act': "is_active_with t p (w\<lparr>heap := s\<rparr>) = Some True" for s using act by (simp add: is_active_with_def)
  have "construct_results h [v] (heap w) = Some (put_header h (x\<lparr>results := Some [v], status := status_results_yes\<rparr>) (heap w))"
    using h by (simp add: construct_results_def)
  then show ?thesis
    using per act' h(2) by (simp add: fulfill_during_user_def fulfill_during_user_of_active_def get_meta_def put_meta_def put_header_def enqueue_deferred_def)
qed

lemma dist_construct_pending:
  fixes r :: "'v runtime"
  assumes r: "assert_init r" "assert_master t r" "assert_collective_safe t r" and tm: "teams r tm = Some T" "d = eat (team_dig T) (coll_counter T) 0" "d \<noteq> tombstone"
    and d: "registry r d = None \<or> (\<exists>h n. awaited r d h n)"
  shows "\<exists>r1 h x m. dist_construct t this tm v r = Some r1 \<and> dist_at r1 d this h x m \<and> pending x m \<and> queued_at_master h r1 \<and>
    dobjs r1 = (dobjs r)(this \<mapsto> \<lparr>dobj_tm = Some tm, dobj_dig = d, dobj_value = Some v\<rparr>) \<and> assert_init r1 \<and> assert_master t r1"
proof -
  let ?ob = "\<lparr>dobj_tm = Some tm, dobj_dig = d, dobj_value = Some v\<rparr>"
  let ?r = "r\<lparr>teams := (teams r)(tm \<mapsto> T\<lparr>coll_counter := coll_counter T + 1\<rparr>), dobjs := (dobjs r)(this \<mapsto> ?ob)\<rparr>"
  let ?p = "master_persona (world_of r)"
  have "assert_master t ?r" "registry ?r d = None \<or> (\<exists>h n. awaited ?r d h n)" using r(2) d by (auto simp: awaited_def)
  then obtain h n s where pro: "registered_promise t d 0 ?r = Some (h, ?r\<lparr>world_of := (world_of r)\<lparr>heap := s\<rparr>, registry := (registry r)(d \<mapsto> Reg_promise h)\<rparr>)"
      "0 < n" "headers s h = Some ((result_header 1 h)\<lparr>ref_n := n, pro_meta := Some \<lparr>countdown = 1, deferred_decrements = 0\<rparr>\<rparr>)"
    using registered_promise_awaited[of t ?r d] by auto
  let ?x = "(result_header 1 h)\<lparr>ref_n := n + 1, pro_meta := Some \<lparr>countdown = 1, deferred_decrements = 0\<rparr>\<rparr> :: 'v val future_header"
  let ?w = "(world_of r)\<lparr>heap := put_header h ?x s\<rparr>"
  have inc: "result_incref h 1 s = Some (put_header h ?x s)" using pro(3) by (simp add: result_incref_def incref_fast_def result_header_def)
  have "is_active_with t ?p ?w = Some True" using r(2) by (simp add: assert_master_def is_active_with_def)
  from fulfill_during_user_pending[OF this, of h ?x "Obj_ref this"]
  obtain per where per: "personas (world_of r) ?p = Some per" and ful: "fulfill_during_user (\<lambda>_. True) t h [Obj_ref this] ?p ?w =
      Some (put_persona ?p (per\<lparr>pros_deferred_trivial := pros_deferred_trivial per @ [Lpc_promise h]\<rparr>)
       (?w\<lparr>heap := put_header h (?x\<lparr>results := Some [Obj_ref this], status := status_results_yes, pro_meta := Some \<lparr>countdown = 1, deferred_decrements = 1\<rparr>\<rparr>) (heap ?w)\<rparr>))"
    by (auto simp: put_header_def result_header_def)
  have c: "assert_init (r\<lparr>dobjs := b\<rparr>)" "assert_master t (r\<lparr>dobjs := b\<rparr>)" "assert_collective_safe t (r\<lparr>dobjs := b\<rparr>)" for b
    using r by (simp_all add: assert_collective_safe_def in_progress_def)
  define r1 where "r1 = put_world (put_persona ?p (per\<lparr>pros_deferred_trivial := pros_deferred_trivial per @ [Lpc_promise h]\<rparr>)
       (?w\<lparr>heap := put_header h (?x\<lparr>results := Some [Obj_ref this], status := status_results_yes, pro_meta := Some \<lparr>countdown = 1, deferred_decrements = 1\<rparr>\<rparr>) (heap ?w)\<rparr>))
       (?r\<lparr>registry := (registry r)(d \<mapsto> Reg_promise h)\<rparr>)"
  have "dist_construct t this tm v r = Some r1"
    using tm c pro(1) inc ful
    by (simp add: dist_construct_def dist_create_def put_dobj_def next_collective_id_def put_team_def Let_def r1_def put_world_def)
  moreover have "assert_master t r1"
    using r(2) per by (simp add: r1_def put_world_def assert_master_def is_active_with_def put_persona_def active_with_caller_def get_owner_def)
  moreover have "queued_at_master h r1" by (simp add: queued_at_master_def r1_def put_world_def put_persona_def)
  moreover have "\<exists>x m. dist_at r1 d this h x m \<and> pending x m"
    using pro(2) by (simp add: dist_at_def pending_def r1_def put_world_def put_persona_def put_header_def result_header_def)
  moreover have "dobjs r1 = (dobjs r)(this \<mapsto> ?ob)" "assert_init r1" using r(1) by (simp_all add: r1_def put_world_def assert_init_def)
  ultimately show ?thesis by blast
qed

subsection \<open>Moves\<close>

lemma dist_move_construct_at:
  assumes r: "assert_init r" "assert_master t r" and at: "dist_at r d a h x m" and ob: "dobjs r a = Some ob" "dobj_dig ob = d" "d \<noteq> tombstone"
    and b: "b \<noteq> a" and st: "status x \<noteq> status_results_no"
  shows "\<exists>r'. dist_move_construct moved t b a r = Some r' \<and> dist_at r' d b h (x\<lparr>results := Some [Obj_ref b], status := status_results_yes\<rparr>) m \<and>
    dobjs r' = (dobjs r)(b \<mapsto> ob, a \<mapsto> ob\<lparr>dobj_tm := None, dobj_dig := tombstone, dobj_value := map_option moved (dobj_value ob)\<rparr>) \<and>
    assert_init r' \<and> assert_master t r' \<and> personas (world_of r') = personas (world_of r) \<and> master_persona (world_of r') = master_persona (world_of r)"
proof -
  let ?x = "x\<lparr>results := Some [Obj_ref b], status := status_results_yes\<rparr>"
  have c: "assert_init (dist_default b r)" "assert_master t (dist_default b r)" using r by (simp_all add: dist_default_def put_dobj_def)
  have "reconstruct_results h [Obj_ref b] (heap (world_of r)) = Some (put_header h ?x (heap (world_of r)))"
    using at st by (simp add: reconstruct_results_def dist_at_def)
  then have "\<exists>r'. dist_move_construct moved t b a r = Some r' \<and> registry r' = registry r \<and> world_of r' = (world_of r)\<lparr>heap := put_header h ?x (heap (world_of r))\<rparr> \<and>
      dobjs r' = (dobjs r)(b \<mapsto> ob, a \<mapsto> ob\<lparr>dobj_tm := None, dobj_dig := tombstone, dobj_value := map_option moved (dobj_value ob)\<rparr>) \<and> init_count r' = init_count r"
    using c ob b at
    by (simp add: dist_move_construct_def dist_move_assign_def dist_default_def put_dobj_def Let_def dobj_is_active_def dist_at_def put_heap_def put_world_def)
  then obtain r' where r': "dist_move_construct moved t b a r = Some r'" "registry r' = registry r" "world_of r' = (world_of r)\<lparr>heap := put_header h ?x (heap (world_of r))\<rparr>"
      "dobjs r' = (dobjs r)(b \<mapsto> ob, a \<mapsto> ob\<lparr>dobj_tm := None, dobj_dig := tombstone, dobj_value := map_option moved (dobj_value ob)\<rparr>)"
      "init_count r' = init_count r" by blast
  have "dist_at r' d b h ?x m" using at by (simp add: dist_at_def r'(2,3) put_header_def)
  moreover have "assert_init r'" "assert_master t r'" using r by (simp_all add: assert_init_def assert_master_def is_active_with_def r'(3,5))
  ultimately show ?thesis using r' by simp
qed

text \<open>A chain of moves to new addresses.\<close>

fun dist_moves :: "('v \<Rightarrow> 'v) \<Rightarrow> nat \<Rightarrow> u64 \<Rightarrow> u64 list \<Rightarrow> 'v runtime \<Rightarrow> 'v runtime option" where
  "dist_moves moved t a [] r = Some r"
| "dist_moves moved t a (b # bs) r = do { r \<leftarrow> dist_move_construct moved t b a r; dist_moves moved t b bs r }"

lemma dist_moves_pending:
  assumes "assert_init r" "assert_master t r" "dist_at r d a h x m" "pending x m" "queued_at_master h r"
    "dobjs r a = Some ob" "dobj_dig ob = d" "d \<noteq> tombstone" "distinct (a # bs)"
  shows "\<exists>r' x'. dist_moves moved t a bs r = Some r' \<and> dist_at r' d (last (a # bs)) h x' m \<and> pending x' m \<and> queued_at_master h r' \<and>
    dobjs r' (last (a # bs)) = Some ob \<and> assert_init r' \<and> assert_master t r'"
  using assms
proof (induction bs arbitrary: a r x)
  case Nil
  then show ?case by auto
next
  case (Cons b bs)
  let ?x = "x\<lparr>results := Some [Obj_ref b], status := status_results_yes\<rparr>"
  have "status x \<noteq> status_results_no" using Cons.prems(4) by (simp add: pending_def status_defs)
  then obtain r1 where r1: "dist_move_construct moved t b a r = Some r1" "dist_at r1 d b h ?x m" "assert_init r1" "assert_master t r1"
      "personas (world_of r1) = personas (world_of r)" "master_persona (world_of r1) = master_persona (world_of r)" "dobjs r1 b = Some ob"
    using dist_move_construct_at[OF Cons.prems(1-3,6-8), of b moved] Cons.prems(9) by auto
  have "pending ?x m" "queued_at_master h r1" using Cons.prems(4,5) r1(5,6) by (simp_all add: pending_def queued_at_master_def)
  from Cons.IH[OF r1(3,4,2) this r1(7) Cons.prems(7,8)] show ?case using Cons.prems(9) r1(1) by simp
qed

subsection \<open>Progress\<close>

text \<open>A promise without successors enters the ready state, whether or not other futures are being run.\<close>

lemma enter_ready_alone:
  assumes "headers s h = Some x" "sucs x = []"
  shows "enter_ready run h h s = Some (put_header h (x\<lparr>slot := Result_of h, status := status_ready\<rparr>) s)"
proof (cases "active s")
  case None
  have "deplete run (put_header h (x\<lparr>slot := Result_of h, status := status_ready\<rparr>) (s\<lparr>active := Some []\<rparr>)) =
      Some (put_header h (x\<lparr>slot := Result_of h, status := status_ready\<rparr>) (s\<lparr>active := Some []\<rparr>))"
    by (simp add: deplete.simps put_header_def)
  then show ?thesis using assms None by (cases s) (simp add: enter_ready_def enter_ready_queued_def put_header_def)
qed (use assms in \<open>simp add: enter_ready_def enter_ready_queued_def\<close>)

lemma execute_pending:
  assumes at: "dist_at r d a h x m" and p: "pending x m"
  shows "execute_and_delete run user trivial t (Lpc_promise h) (world_of r) =
    Some ((world_of r)\<lparr>heap := put_header h (x\<lparr>pro_meta := Some \<lparr>countdown = 0, deferred_decrements = 0\<rparr>, slot := Result_of h, status := status_ready,
       ref_n := ref_n x - 1\<rparr>) (heap (world_of r))\<rparr>)"
proof -
  let ?s = "heap (world_of r)"
  let ?y = "x\<lparr>pro_meta := Some \<lparr>countdown = 0, deferred_decrements = 0\<rparr>\<rparr>"
  have "enter_ready run h h (put_header h ?y ?s) = Some (put_header h (?y\<lparr>slot := Result_of h, status := status_ready\<rparr>) (put_header h ?y ?s))"
    using p by (intro enter_ready_alone) (simp_all add: put_header_def pending_def)
  then show ?thesis
    using at p
    by (simp add: execute_and_delete_def fulfill_deferred_and_drop_def get_meta_def put_meta_def dist_at_def pending_def readify_def ops_dropref_def decref_fast_def
        put_header_def status_defs)
qed

lemma here_at: "assert_init r \<Longrightarrow> assert_master t r \<Longrightarrow> d \<noteq> tombstone \<Longrightarrow> dist_at r d a h x m \<Longrightarrow> dist_here t d r = Some a"
  by (simp add: dist_here_def dist_at_def registered_promise_def)

lemma when_here_at:
  assumes "assert_init r" "assert_master t r" "d \<noteq> tombstone" "dist_at r d a h x m"
  shows "\<exists>f r'. dist_when_here t d r = Some (f, r') \<and> dist_at r' d a h (x\<lparr>ref_n := ref_n x + 1\<rparr>) m \<and>
    fut_ready f (heap (world_of r')) = Some (status x = status_ready) \<and> fut_values f (heap (world_of r')) = Some [Obj_ref a]"
  using assms
  by (auto simp: dist_when_here_def dist_at_def registered_promise_def promise_get_future_def incref_fast_def put_heap_def put_world_def put_header_def
      results_of_def is_trivially_ready_result_def)

text \<open>
  (C10) A distributed object is found. Let a rank construct an object over a team, its id being new in the registry or that of a promise that
  a message has already asked for and to which nothing is attached yet, and move it any number of times before the next progress. The construction and the moves succeed, \<open>here\<close>
  finds the object at its last address, with its value, and the promise of its id waits in the queue of the master persona. When
  progress executes it, \<open>here\<close> still finds the object, and the future of \<open>when_here\<close> is ready and refers to it.
\<close>

theorem dist_object_found:
  fixes r :: "'v runtime"
  assumes "assert_init r" "assert_master t r" "assert_collective_safe t r"
    and "teams r tm = Some T" "d = eat (team_dig T) (coll_counter T) 0" "d \<noteq> tombstone"
    and "registry r d = None \<or> (\<exists>h n. awaited r d h n)" "distinct (this # addrs)"
  shows "\<exists>r1 r2 h. dist_construct t this tm v r = Some r1 \<and> dist_moves moved t this addrs r1 = Some r2 \<and>
    dist_here t d r2 = Some (last (this # addrs)) \<and> dist_deref (last (this # addrs)) r2 = Some v \<and> dist_id (last (this # addrs)) r2 = Some d \<and>
    queued_at_master h r2 \<and>
    (\<exists>w f r4. execute_and_delete run user trivial t (Lpc_promise h) (world_of r2) = Some w \<and>
       dist_here t d (put_world w r2) = Some (last (this # addrs)) \<and> dist_when_here t d (put_world w r2) = Some (f, r4) \<and>
       result_tuple f (heap (world_of r4)) = Some [Obj_ref (last (this # addrs))])"
proof -
  let ?a = "last (this # addrs)"
  obtain r1 h x m where r1: "dist_construct t this tm v r = Some r1" "dist_at r1 d this h x m" "pending x m" "queued_at_master h r1"
      "dobjs r1 = (dobjs r)(this \<mapsto> \<lparr>dobj_tm = Some tm, dobj_dig = d, dobj_value = Some v\<rparr>)" "assert_init r1" "assert_master t r1"
    using dist_construct_pending[OF assms(1-7), of this v] by blast
  then have "dobjs r1 this = Some \<lparr>dobj_tm = Some tm, dobj_dig = d, dobj_value = Some v\<rparr>" by simp
  then obtain r2 x' where r2: "dist_moves moved t this addrs r1 = Some r2" "dist_at r2 d ?a h x' m" "pending x' m" "queued_at_master h r2"
      "dobjs r2 ?a = Some \<lparr>dobj_tm = Some tm, dobj_dig = d, dobj_value = Some v\<rparr>" "assert_init r2" "assert_master t r2"
    using dist_moves_pending[OF r1(6,7,2,3,4) _ _ assms(6,8)] by fastforce
  let ?x = "x'\<lparr>pro_meta := Some \<lparr>countdown = 0, deferred_decrements = 0\<rparr>, slot := Result_of h, status := status_ready, ref_n := ref_n x' - 1\<rparr>"
  let ?w = "(world_of r2)\<lparr>heap := put_header h ?x (heap (world_of r2))\<rparr>"
  have ex: "execute_and_delete run user trivial t (Lpc_promise h) (world_of r2) = Some ?w" by (rule execute_pending[OF r2(2,3)])
  have "dist_at (put_world ?w r2) d ?a h ?x \<lparr>countdown = 0, deferred_decrements = 0\<rparr>"
    using r2(2,3) by (auto simp: dist_at_def put_world_def put_header_def pending_def)
  moreover have "assert_init (put_world ?w r2)" "assert_master t (put_world ?w r2)" using r2(6,7) by (simp_all add: put_world_def)
  ultimately have "dist_here t d (put_world ?w r2) = Some ?a"
      "\<exists>f r4. dist_when_here t d (put_world ?w r2) = Some (f, r4) \<and> result_tuple f (heap (world_of r4)) = Some [Obj_ref ?a]"
    using here_at when_here_at assms(6) by (blast, fastforce simp: result_tuple_def)
  moreover have "dist_here t d r2 = Some ?a" using here_at[OF r2(6,7) assms(6) r2(2)] .
  moreover have "dist_deref ?a r2 = Some v" "dist_id ?a r2 = Some d" using r2(5) assms(6) by (simp_all add: dist_deref_def dist_id_def)
  ultimately show ?thesis using r1(1) r2(1,4) ex by blast
qed

text \<open>
  (C12) A distributed object that is moved after its promise was fulfilled is lost for messages: the move succeeds and \<open>here\<close> finds the new address, but the
  promise goes back to the state before readiness with nothing left to fulfil. The future of \<open>when_here\<close>, which every remote call with a reference to the object
  waits for, is not ready, and any further fulfilment of the promise fails.
\<close>

theorem dist_object_move_unreadies:
  assumes "assert_init r" "assert_master t r" "d \<noteq> tombstone" "dobjs r a = Some ob" "dobj_dig ob = d" "b \<noteq> a"
    and "dist_at r d a h x m" "status x = status_ready" "countdown m = 0"
  shows "\<exists>r' f r''. dist_move_construct moved t b a r = Some r' \<and> dist_here t d r' = Some b \<and> dist_when_here t d r' = Some (f, r'') \<and>
    fut_ready f (heap (world_of r'')) = Some False \<and> (\<forall>run n. promise_fulfill run h n (heap (world_of r'')) = None)"
proof -
  let ?x = "x\<lparr>results := Some [Obj_ref b], status := status_results_yes\<rparr>"
  have "status x \<noteq> status_results_no" using assms(8) by (simp add: status_defs)
  from dist_move_construct_at[OF assms(1,2,7,4,5,3,6) this, of moved] obtain r' where
    r': "dist_move_construct moved t b a r = Some r'" "dist_at r' d b h ?x m" "assert_init r'" "assert_master t r'" by auto
  obtain f r'' where f: "dist_when_here t d r' = Some (f, r'')" "dist_at r'' d b h (?x\<lparr>ref_n := ref_n ?x + 1\<rparr>) m"
      "fut_ready f (heap (world_of r'')) = Some (status ?x = status_ready)"
    using when_here_at[OF r'(3,4) assms(3) r'(2)] by auto
  have "promise_fulfill run h n (heap (world_of r'')) = None" for run n
    using f(2) assms(9) by (simp add: promise_fulfill_def get_meta_def dist_at_def)
  then show ?thesis using r'(1) here_at[OF r'(3,4) assms(3) r'(2)] f by (auto simp: status_defs)
qed

text \<open>
  Destruction. Destroying an active object takes its id out of the registry, so that \<open>here\<close> fails, and gives up the reference of the registry to the
  promise: the promise is deleted if that was the last one, and otherwise only its count changes, so futures already given out stay valid.
\<close>

theorem dist_object_destroyed:
  assumes "assert_init r" "assert_master t r" "d \<noteq> tombstone" "dobjs r a = Some ob" "dobj_dig ob = d" "dist_at r d a h x m" "status x \<noteq> status_results_no"
  shows "\<exists>r'. dist_destructor t a r = Some r' \<and> dobjs r' a = None \<and> registry r' d = None \<and> dist_here t d r' = None \<and>
    headers (heap (world_of r')) = (headers (heap (world_of r)))(h := if ref_n x = 1 then None else Some (x\<lparr>ref_n := ref_n x - 1\<rparr>))"
  using assms
  by (auto simp: dist_destructor_def Let_def dist_at_def ops_dropref_def decref_fast_def delete_me_def delete_header_def put_header_def put_heap_def put_world_def
      dobj_is_active_def dist_here_def assert_init_def)

subsection \<open>Examples\<close>

lemma example_asserts: "assert_init example_start" "assert_master 0 example_start" "assert_collective_safe 0 example_start"
  using example_start_eq(5,6) by (simp_all add: example_defs)

theorem dist_object_found_witness:
  "\<exists>r1 r2. dist_construct 0 900 500 77 example_start = Some r1 \<and> dist_moves (\<lambda>_. 0) 0 900 [910, 920] r1 = Some r2 \<and>
    dist_here 0 (Digest 0x312603B2B2A7C4CB 0x586E46F3D3B3929D) r2 = Some 920 \<and> dist_deref 920 r2 = Some 77"
proof -
  have "registry example_start (Digest 0x312603B2B2A7C4CB 0x586E46F3D3B3929D) = None"
    using example_start_eq(4) domIff[of "Digest 0x312603B2B2A7C4CB 0x586E46F3D3B3929D" "registry example_start"] by simp
  then have "\<exists>r1 r2 h. dist_construct 0 900 500 77 example_start = Some r1 \<and> dist_moves (\<lambda>_. 0) 0 900 [910, 920] r1 = Some r2 \<and>
      dist_here 0 (Digest 0x312603B2B2A7C4CB 0x586E46F3D3B3929D) r2 = Some (last [900, 910, 920]) \<and> dist_deref (last [900, 910, 920]) r2 = Some 77"
    using dist_object_found[OF example_asserts example_start_eq(2), of "Digest 0x312603B2B2A7C4CB 0x586E46F3D3B3929D" 900 "[910, 920]" 77 "\<lambda>_. 0"
        "\<lambda>_ _ _. None" "\<lambda>_ _ _ _. None" "\<lambda>_. True"]
    by (simp add: eat_world tombstone_def zero_def del: dist_moves.simps) blast
  then show ?thesis by (simp del: dist_moves.simps)
qed

text \<open>An object at 900 whose promise, with the reference of the registry, is fulfilled.\<close>

definition fulfilled_header :: "int val future_header" where
  "fulfilled_header = \<lparr>ref_n = 1, status = status_ready, sucs = [], slot = Result_of 2, is_dependent = False, arity = 1,
     results = Some [Obj_ref 900], pro_meta = Some \<lparr>countdown = 0, deferred_decrements = 0\<rparr>\<rparr>"

definition example_object :: "int dist_object" where
  "example_object = \<lparr>dobj_tm = Some 500, dobj_dig = Digest 1 2, dobj_value = Some 77\<rparr>"

definition example_fulfilled :: "int runtime" where
  "example_fulfilled =
     (put_heap (put_header 2 fulfilled_header fheap_init) (put_dobj 900 example_object example_start))\<lparr>registry := [Digest 1 2 \<mapsto> Reg_promise 2]\<rparr>"

lemma example_fulfilled_facts:
  "assert_init example_fulfilled" "assert_master 0 example_fulfilled" "Digest 1 2 \<noteq> tombstone" "dobjs example_fulfilled 900 = Some example_object"
  "dobj_dig example_object = Digest 1 2" "dist_at example_fulfilled (Digest 1 2) 900 2 fulfilled_header \<lparr>countdown = 0, deferred_decrements = 0\<rparr>"
  "status fulfilled_header = status_ready"
  using example_asserts(1,2)
  by (simp_all add: example_fulfilled_def put_defs example_object_def fulfilled_header_def dist_at_def tombstone_def zero_def
      assert_master_def is_active_with_def)

theorem dist_object_move_unreadies_witness:
  "\<exists>r' f r''. dist_move_construct (\<lambda>_. 0) 0 910 900 example_fulfilled = Some r' \<and> dist_here 0 (Digest 1 2) r' = Some 910 \<and>
    dist_when_here 0 (Digest 1 2) r' = Some (f, r'') \<and> fut_ready f (heap (world_of r'')) = Some False"
proof -
  have "(910 :: u64) \<noteq> 900" "countdown \<lparr>countdown = 0, deferred_decrements = 0\<rparr> = 0" by simp_all
  from dist_object_move_unreadies[OF example_fulfilled_facts(1-5) this(1) example_fulfilled_facts(6,7) this(2), of "\<lambda>_. 0"] show ?thesis by blast
qed

theorem dist_object_destroyed_witness:
  "\<exists>r'. dist_destructor 0 900 example_fulfilled = Some r' \<and> registry r' (Digest 1 2) = None \<and> headers (heap (world_of r')) 2 = None"
proof -
  have "status fulfilled_header \<noteq> status_results_no" by (simp add: fulfilled_header_def status_defs)
  from dist_object_destroyed[OF example_fulfilled_facts(1-6) this] show ?thesis by (auto simp: fulfilled_header_def)
qed

end
