(* ===== verification/Long_Am.thy ===== *)
theory Long_Am
  imports Prelude "HOL-Library.Multiset" "HOL-Library.Monad_Syntax"
begin

unbundle bit_operations_syntax

text \<open>
  Component network runtime, a put with a call (\<open>rma_put_then_am_master_protocol\<close> and the handlers \<open>am_long_master_payload_part\<close> and
  \<open>am_long_master_cmd_part\<close> of src/backend/gasnet/runtime.cpp). The data travels in one long message and the serialized call in parts; the messages
  arrive in any order and their handlers run in several threads at once. The target puts the call together in a table of states by sender and
  nonce, and queues it when the data and all parts are there. One step is one critical section of the lock of the table, one copy, one atomic addition or one
  call of \<open>enqueue\<close>. The result \<open>None\<close> is a write outside of the buffer or the use of a state or field that does not exist.
\<close>

subsection \<open>The sender\<close>

text \<open>The part of the data that goes ahead in a blocking put, and the rest, which goes with the long message.\<close>

definition put_ahead :: "nat \<Rightarrow> nat \<Rightarrow> nat \<times> nat" where
  "put_ahead am_long_max buf_size =
     (if am_long_max < buf_size then (buf_size - am_long_max, am_long_max) else (0, buf_size))"

text \<open>The loop over the parts of the call: offset and size of each. The network takes parts of at least one byte.\<close>

function cmd_parts :: "nat \<Rightarrow> nat \<Rightarrow> nat \<Rightarrow> (nat \<times> nat) list" where
  "cmd_parts part_size_max am_size part_offset =
     (if part_size_max = 0 \<or> am_size \<le> part_offset then []
      else let part_size = min part_size_max (am_size - part_offset)
           in (part_offset, part_size) # cmd_parts part_size_max am_size (part_offset + part_size))"
  by pat_completeness auto
termination by (relation "measure (\<lambda>(_, n, i). n - i)") auto

declare cmd_parts.simps [simp del]

text \<open>A short call is packed into the arguments of the message: its size, alignment and level in one of them.\<close>

definition pack_size_align_level :: "nat \<Rightarrow> nat \<Rightarrow> bool \<Rightarrow> u32" where
  "pack_size_align_level am_size am_align level_user =
     push_bit 16 (of_nat am_size) OR push_bit 1 (of_nat am_align) OR (if level_user then 1 else 0)"

definition unpack_size_align_level :: "u32 \<Rightarrow> nat \<times> nat \<times> bool" where
  "unpack_size_align_level a =
     (unat (signed_drop_bit (1 + 15) a), unat (signed_drop_bit 1 a AND (push_bit 15 1 - 1)), a AND 1 \<noteq> 0)"

subsection \<open>Messages and the table\<close>

text \<open>What every part carries: the sender, its nonce, and size and level of the call.\<close>

record am_hdr =
  srcrank :: u32
  nonce :: u32
  cmd_size :: nat
  level_user :: bool

text \<open>\<open>uint64_t(info.gex_srcrank)<<32 ^ nonce\<close>, where the nonce is a signed argument.\<close>

definition am_key :: "am_hdr \<Rightarrow> u64" where
  "am_key hdr = push_bit 32 (ucast (srcrank hdr)) XOR scast (nonce hdr)"

text \<open>A reply callback is the pair of halves of its address; both are 0 if there is none. \<open>for_key\<close> is history.\<close>

type_synonym reply = "u32 \<times> u32"

record reassembly_state =
  credits :: int
  cmd_buf :: "nat \<rightharpoonup> u8"
  has_executor :: bool
  reply_cb :: "reply option"
  for_key :: u64

text \<open>
  The messages that have not arrived, and the handlers at their next step: the copy and the addition with the count that the handler
  took for the outcome under the lock, the late removal from the table, and the completion.
\<close>

datatype am_item =
    Payload_part am_hdr reply
  | Cmd_part am_hdr nat "u8 list"
  | Cmd_copy am_hdr nat nat "u8 list" int
  | Cmd_credit am_hdr nat nat int
  | Cmd_erase am_hdr nat
  | Cmd_complete am_hdr nat
  | Payload_complete am_hdr nat reply

text \<open>The table, the states by address, and by key what was queued (state and level) and which replies were sent.\<close>

record reassembly =
  am_items :: "am_item multiset"
  am_table :: "u64 \<rightharpoonup> nat"
  am_states :: "nat \<rightharpoonup> reassembly_state"
  am_fresh :: nat
  am_queued :: "u64 \<Rightarrow> (nat \<times> bool) list"
  am_replied :: "u64 \<Rightarrow> reply list"

definition send_items :: "am_item multiset \<Rightarrow> reassembly \<Rightarrow> reassembly" where
  "send_items M s = s\<lparr>am_items := am_items s + M\<rparr>"

definition put_state :: "nat \<Rightarrow> reassembly_state \<Rightarrow> reassembly \<Rightarrow> reassembly" where
  "put_state p st s = s\<lparr>am_states := (am_states s)(p \<mapsto> st)\<rparr>"

definition erase_key :: "am_hdr \<Rightarrow> reassembly \<Rightarrow> reassembly" where
  "erase_key hdr s = s\<lparr>am_table := (am_table s)(am_key hdr := None)\<rparr>"

text \<open>\<open>am_long_reassembly_table.insert({key, nullptr})\<close> and \<open>build_eager\<close> for a new entry.\<close>

definition find_state :: "am_hdr \<Rightarrow> reassembly \<Rightarrow> nat \<times> reassembly" where
  "find_state hdr s =
     (case am_table s (am_key hdr) of
        Some p \<Rightarrow> (p, s)
      | None \<Rightarrow>
          (am_fresh s,
           s\<lparr>am_table := (am_table s)(am_key hdr \<mapsto> am_fresh s),
             am_states := (am_states s)(am_fresh s \<mapsto>
               \<lparr>credits = 0, cmd_buf = Map.empty, has_executor = False, reply_cb = None, for_key = am_key hdr\<rparr>),
             am_fresh := Suc (am_fresh s)\<rparr>))"

definition credits_total :: "am_hdr \<Rightarrow> int" where
  "credits_total hdr = 1 + int (cmd_size hdr)"

text \<open>The completion: the call is queued for the master persona and the reply is sent if there is one.\<close>

definition completion :: "am_hdr \<Rightarrow> nat \<Rightarrow> reply \<Rightarrow> reassembly \<Rightarrow> reassembly" where
  "completion hdr p cb s =
     s\<lparr>am_queued := (am_queued s)(am_key hdr := am_queued s (am_key hdr) @ [(p, level_user hdr)]),
       am_replied := (if cb = (0, 0) then am_replied s else (am_replied s)(am_key hdr := am_replied s (am_key hdr) @ [cb]))\<rparr>"

subsection \<open>The handlers\<close>

definition am_long_master_payload_part :: "am_hdr \<Rightarrow> reply \<Rightarrow> reassembly \<Rightarrow> reassembly option" where
  "am_long_master_payload_part hdr cb s =
     (let (p, s) = find_state hdr s
      in do {
        st \<leftarrow> am_states s p;
        let s = put_state p (st\<lparr>reply_cb := Some cb, credits := credits st + 1\<rparr>) s;
        Some (if credits st + 1 = credits_total hdr then send_items {#Payload_complete hdr p cb#} (erase_key hdr s) else s)
      })"

definition am_long_master_cmd_part :: "am_hdr \<Rightarrow> nat \<Rightarrow> u8 list \<Rightarrow> reassembly \<Rightarrow> reassembly option" where
  "am_long_master_cmd_part hdr cmd_part_offset cmd_part s =
     (let (p, s) = find_state hdr s
      in do {
        st \<leftarrow> am_states s p;
        let credits_after_optimistic = int (length cmd_part) + credits st;
        let s = (if credits_after_optimistic = credits_total hdr then erase_key hdr s else s);
        Some (send_items {#Cmd_copy hdr p cmd_part_offset cmd_part credits_after_optimistic#} s)
      })"

text \<open>\<open>memcpy\<close>, and the executor once the first part is there.\<close>

definition cmd_part_copy :: "am_hdr \<Rightarrow> nat \<Rightarrow> nat \<Rightarrow> u8 list \<Rightarrow> int \<Rightarrow> reassembly \<Rightarrow> reassembly option" where
  "cmd_part_copy hdr p off bytes opt s =
     do {
       st \<leftarrow> am_states s p;
       if cmd_size hdr < off + length bytes then None
       else
         let st = st\<lparr>cmd_buf := (\<lambda>i. if off \<le> i \<and> i < off + length bytes then Some (bytes ! (i - off)) else cmd_buf st i),
                     has_executor := has_executor st \<or> off = 0\<rparr>
         in Some (send_items {#Cmd_credit hdr p (length bytes) opt#} (put_state p st s))
     }"

definition cmd_part_credit :: "am_hdr \<Rightarrow> nat \<Rightarrow> nat \<Rightarrow> int \<Rightarrow> reassembly \<Rightarrow> reassembly option" where
  "cmd_part_credit hdr p n opt s =
     do {
       st \<leftarrow> am_states s p;
       let credits_after = int n + credits st;
       let s = put_state p (st\<lparr>credits := credits_after\<rparr>) s;
       Some (if credits_after \<noteq> credits_total hdr then s
             else if opt \<noteq> credits_total hdr then send_items {#Cmd_erase hdr p#} s
             else send_items {#Cmd_complete hdr p#} s)
     }"

fun am_act :: "am_item \<Rightarrow> reassembly \<Rightarrow> reassembly option" where
  "am_act (Payload_part hdr cb) s = am_long_master_payload_part hdr cb s"
| "am_act (Cmd_part hdr off bytes) s = am_long_master_cmd_part hdr off bytes s"
| "am_act (Cmd_copy hdr p off bytes opt) s = cmd_part_copy hdr p off bytes opt s"
| "am_act (Cmd_credit hdr p n opt) s = cmd_part_credit hdr p n opt s"
| "am_act (Cmd_erase hdr p) s = Some (send_items {#Cmd_complete hdr p#} (erase_key hdr s))"
| "am_act (Cmd_complete hdr p) s =
     do { st \<leftarrow> am_states s p; cb \<leftarrow> reply_cb st; Some (completion hdr p cb s) }"
| "am_act (Payload_complete hdr p cb) s = Some (completion hdr p cb s)"

subsection \<open>Messages under way\<close>

text \<open>A message of the sender: the call, its level, the reply callback, and the size of parts that the network takes.\<close>

record am_msg =
  msg_src :: u32
  msg_nonce :: u32
  msg_cmd :: "u8 list"
  msg_user :: bool
  msg_reply :: reply
  msg_part_max :: nat

definition msg_hdr :: "am_msg \<Rightarrow> am_hdr" where
  "msg_hdr m = \<lparr>srcrank = msg_src m, nonce = msg_nonce m, cmd_size = length (msg_cmd m), level_user = msg_user m\<rparr>"

definition rma_put_then_am :: "am_msg \<Rightarrow> am_item multiset" where
  "rma_put_then_am m =
     add_mset (Payload_part (msg_hdr m) (msg_reply m))
       (mset (map (\<lambda>(off, n). Cmd_part (msg_hdr m) off (take n (drop off (msg_cmd m))))
          (cmd_parts (msg_part_max m) (length (msg_cmd m)) 0)))"

definition am_start :: "am_msg list \<Rightarrow> reassembly" where
  "am_start ms =
     \<lparr>am_items = sum_list (map rma_put_then_am ms), am_table = Map.empty, am_states = Map.empty, am_fresh = 0,
      am_queued = (\<lambda>_. []), am_replied = (\<lambda>_. [])\<rparr>"

inductive am_step :: "reassembly \<Rightarrow> reassembly \<Rightarrow> bool" where
  "x \<in># am_items s \<Longrightarrow> am_act x (s\<lparr>am_items := am_items s - {#x#}\<rparr>) = Some s' \<Longrightarrow> am_step s s'"

inductive_cases am_stepE: "am_step s s'"

end
