(* ===== verification/Long_Am_Correct.thy ===== *)
theory Long_Am_Correct
  imports Long_Am Pool
begin

unbundle bit_operations_syntax

text \<open>
  Calls that travel in parts are put together exactly once. The credits of a state and the parts still under way always add up to the
  total, so the handler that brings the last credit is the only one left; this decides who completes the call and shows that
  the table entry is removed exactly once, by the early or by the late removal.
\<close>

declare sum_mset_0_iff [simp del] of_nat_sum_mset [simp del]

subsection \<open>The sender\<close>

lemma cmd_parts_done: "n \<le> i \<Longrightarrow> cmd_parts m n i = []"
  by (simp add: cmd_parts.simps)

lemma cmd_parts_more: "0 < m \<Longrightarrow> i < n \<Longrightarrow> cmd_parts m n i = (i, min m (n - i)) # cmd_parts m n (i + min m (n - i))"
  by (subst cmd_parts.simps) (simp add: Let_def)

text \<open>Induction over the remaining parts.\<close>

lemma cmd_parts_rule:
  fixes m n i :: nat
  assumes "0 < m" "\<And>i. n \<le> i \<Longrightarrow> P i" "\<And>i. i < n \<Longrightarrow> P (i + min m (n - i)) \<Longrightarrow> P i"
  shows "P i"
proof (induction "n - i" arbitrary: i rule: less_induct)
  case less
  show ?case
  proof (cases "n \<le> i")
    case False
    have "0 < min m (n - i)" using False assms(1) by simp
    then have "n - (i + min m (n - i)) < n - i" by linarith
    then have "P (i + min m (n - i))" by (rule less.hyps)
    with False show ?thesis by (simp add: assms(3))
  qed (rule assms(2))
qed

lemma cmd_parts_bounds:
  assumes "0 < m"
  shows "(off, k) \<in> set (cmd_parts m n i) \<Longrightarrow> 0 < k \<and> i \<le> off \<and> off + k \<le> n"
proof (induction i rule: cmd_parts_rule[OF assms, of n])
  case (2 i)
  then show ?case using assms by (auto simp: cmd_parts_more)
qed (simp add: cmd_parts_done)

lemma cmd_parts_sum:
  assumes "0 < m"
  shows "sum_list (map snd (cmd_parts m n i)) = n - i"
proof (induction i rule: cmd_parts_rule[OF assms, of n])
  case (2 i)
  then show ?case using assms by (simp add: cmd_parts_more)
qed (simp add: cmd_parts_done)

lemma cmd_parts_cover:
  assumes "0 < m"
  shows "i \<le> j \<Longrightarrow> j < n \<Longrightarrow> \<exists>(off, k) \<in> set (cmd_parts m n i). off \<le> j \<and> j < off + k"
proof (induction i rule: cmd_parts_rule[OF assms, of n])
  case (2 i)
  note e = cmd_parts_more[OF assms, of i n]
  show ?case
  proof (cases "j < i + min m (n - i)")
    case True
    then show ?thesis unfolding e[OF 2(1)] using 2(3) by simp
  next
    case False
    then have "\<exists>(off, k) \<in> set (cmd_parts m n (i + min m (n - i))). off \<le> j \<and> j < off + k" using 2(4) by (intro 2(2)) auto
    then show ?thesis unfolding e[OF 2(1)] by auto
  qed
qed simp

lemma cmd_parts_count:
  assumes "0 < m"
  shows "length (cmd_parts m n i) \<le> n - i"
proof (induction i rule: cmd_parts_rule[OF assms, of n])
  case (2 i)
  then show ?case using assms by (simp add: cmd_parts_more)
qed (simp add: cmd_parts_done)

text \<open>Keys tell senders and nonces apart, although a negative nonce inverts the bits of the sender.\<close>

lemma am_key_inject: "am_key h = am_key h' \<longleftrightarrow> srcrank h = srcrank h' \<and> nonce h = nonce h'"
proof
  assume k: "am_key h = am_key h'"
  have low: "bit (am_key x) n = bit (nonce x) n" if "n < 32" for x n
    using that by (auto simp: am_key_def bit_simps)
  have n: "nonce h = nonce h'"
  proof (rule bit_word_eqI)
    show "bit (nonce h) n = bit (nonce h') n" if "n < LENGTH(32)" for n using that low[of n h] low[of n h'] k by simp
  qed
  have high: "bit (srcrank x) n = (bit (am_key x) (n + 32) \<noteq> bit (nonce x) 31)" if "n < 32" for x n
    using that by (auto simp: am_key_def bit_simps)
  have "srcrank h = srcrank h'"
  proof (rule bit_word_eqI)
    show "bit (srcrank h) i = bit (srcrank h') i" if "i < LENGTH(32)" for i using that high[of i h] high[of i h'] k n by simp
  qed
  with n show "srcrank h = srcrank h' \<and> nonce h = nonce h'" by blast
qed (simp add: am_key_def)

lemma high_bits_clear: "unat w < 2 ^ k \<Longrightarrow> k \<le> n \<Longrightarrow> \<not> bit w n"
proof
  assume w: "unat w < 2 ^ k" "k \<le> n" "bit w n"
  then have "bit (unat w) n" by (simp add: bit_unsigned_iff bit_imp_le_length)
  then have "unat w div 2 ^ n \<noteq> 0" unfolding bit_iff_odd by (metis even_zero)
  moreover have "unat w < 2 ^ n" using w(1,2) by (meson less_le_trans one_le_numeral power_increasing)
  ultimately show False by simp
qed

text \<open>The packed argument of a short call.\<close>

lemma pack_round_trip:
  assumes "am_size \<le> 52" "am_align < 2 ^ 15"
  shows "unpack_size_align_level (pack_size_align_level am_size am_align u) = (am_size, am_align, u)"
proof -
  let ?s = "of_nat am_size :: u32" and ?l = "of_nat am_align :: u32" and ?u = "(if u then 1 else 0) :: u32"
  have us: "unat ?s = am_size" "unat ?l = am_align" using assms by (simp_all add: unat_of_nat)
  have s: "\<not> bit ?s n" if "6 \<le> n" for n using assms(1) us(1) that by (intro high_bits_clear[of _ 6]) auto
  have l: "\<not> bit ?l n" if "15 \<le> n" for n using assms(2) us(2) that by (intro high_bits_clear[of _ 15]) auto
  let ?a = "pack_size_align_level am_size am_align u"
  have a: "bit ?a n \<longleftrightarrow> n < 32 \<and> (16 \<le> n \<and> bit ?s (n - 16) \<or> 1 \<le> n \<and> bit ?l (n - 1) \<or> n = 0 \<and> u)" for n
    unfolding pack_size_align_level_def bit_or_iff bit_push_bit_iff by (cases u) (auto simp: bit_1_iff dest: bit_imp_le_length)
  have "signed_drop_bit 16 ?a = ?s"
    by (rule bit_word_eqI) (use s l in \<open>auto simp: bit_signed_drop_bit_iff a\<close>)
  moreover have "signed_drop_bit 1 ?a AND (push_bit 15 1 - 1) = ?l"
  proof -
    have m: "push_bit 15 1 - 1 = (mask 15 :: u32)" by (simp add: mask_eq_exp_minus_1 push_bit_eq_mult)
    show ?thesis unfolding m by (rule bit_word_eqI) (use s l in \<open>auto simp: bit_signed_drop_bit_iff bit_and_iff bit_mask_iff a \<close>, meson not_le l)
  qed
  moreover have "?a AND 1 \<noteq> 0 \<longleftrightarrow> u"
  proof -
    have "?a AND 1 = (if bit ?a 0 then 1 else 0)" by (simp add: and_one_eq mod2_eq_if bit_0)
    then show ?thesis by (simp add: a)
  qed
  ultimately show ?thesis using us by (simp add: unpack_size_align_level_def)
qed


subsection \<open>What is under way for one message\<close>

fun item_hdr :: "am_item \<Rightarrow> am_hdr" where
  "item_hdr (Payload_part h cb) = h"
| "item_hdr (Cmd_part h off bytes) = h"
| "item_hdr (Cmd_copy h p off bytes opt) = h"
| "item_hdr (Cmd_credit h p n opt) = h"
| "item_hdr (Cmd_erase h p) = h"
| "item_hdr (Cmd_complete h p) = h"
| "item_hdr (Payload_complete h p cb) = h"

fun item_state :: "am_item \<Rightarrow> nat option" where
  "item_state (Cmd_copy h p off bytes opt) = Some p"
| "item_state (Cmd_credit h p n opt) = Some p"
| "item_state (Cmd_erase h p) = Some p"
| "item_state (Cmd_complete h p) = Some p"
| "item_state (Payload_complete h p cb) = Some p"
| "item_state _ = None"

text \<open>The credits that an item will bring, and the bytes that it will copy.\<close>

fun brings :: "am_item \<Rightarrow> nat" where
  "brings (Payload_part h cb) = 1"
| "brings (Cmd_part h off bytes) = length bytes"
| "brings (Cmd_copy h p off bytes opt) = length bytes"
| "brings (Cmd_credit h p n opt) = n"
| "brings _ = 0"

fun uncopied :: "am_item \<Rightarrow> nat set" where
  "uncopied (Cmd_part h off bytes) = {off..<off + length bytes}"
| "uncopied (Cmd_copy h p off bytes opt) = {off..<off + length bytes}"
| "uncopied _ = {}"

text \<open>Items that only finish the call, and items whose handler has removed the key from the table.\<close>

fun closes :: "am_item \<Rightarrow> bool" where
  "closes (Cmd_erase h p) = True"
| "closes (Cmd_complete h p) = True"
| "closes (Payload_complete h p cb) = True"
| "closes _ = False"

fun sealed :: "am_item \<Rightarrow> bool" where
  "sealed (Cmd_copy h p off bytes opt) = (opt = credits_total h)"
| "sealed (Cmd_credit h p n opt) = (opt = credits_total h)"
| "sealed (Cmd_complete h p) = True"
| "sealed (Payload_complete h p cb) = True"
| "sealed _ = False"

fun is_payload :: "am_item \<Rightarrow> bool" where
  "is_payload (Payload_part h cb) = True"
| "is_payload _ = False"

definition part_ok :: "am_msg \<Rightarrow> nat \<Rightarrow> u8 list \<Rightarrow> bool" where
  "part_ok m off bytes \<longleftrightarrow> bytes \<noteq> [] \<and> off + length bytes \<le> length (msg_cmd m) \<and> bytes = take (length bytes) (drop off (msg_cmd m))"

fun item_ok :: "am_msg \<Rightarrow> am_item \<Rightarrow> bool" where
  "item_ok m (Payload_part h cb) \<longleftrightarrow> h = msg_hdr m \<and> cb = msg_reply m"
| "item_ok m (Cmd_part h off bytes) \<longleftrightarrow> h = msg_hdr m \<and> part_ok m off bytes"
| "item_ok m (Cmd_copy h p off bytes opt) \<longleftrightarrow> h = msg_hdr m \<and> part_ok m off bytes"
| "item_ok m (Cmd_credit h p n opt) \<longleftrightarrow> h = msg_hdr m \<and> 0 < n"
| "item_ok m (Cmd_erase h p) \<longleftrightarrow> h = msg_hdr m"
| "item_ok m (Cmd_complete h p) \<longleftrightarrow> h = msg_hdr m"
| "item_ok m (Payload_complete h p cb) \<longleftrightarrow> h = msg_hdr m \<and> cb = msg_reply m"

lemma item_ok_hdr: "item_ok m x \<Longrightarrow> item_hdr x = msg_hdr m"
  by (cases x) auto

lemma brings_zero: "item_ok m x \<Longrightarrow> brings x = 0 \<Longrightarrow> closes x"
  by (cases x) (auto simp: part_ok_def)

definition under_way :: "reassembly \<Rightarrow> u64 \<Rightarrow> am_item multiset" where
  "under_way s k = {#x \<in># am_items s. am_key (item_hdr x) = k#}"

subsection \<open>The invariant\<close>

text \<open>What a state has gathered, given what is still under way.\<close>

definition gathered :: "am_msg \<Rightarrow> am_item multiset \<Rightarrow> reassembly_state \<Rightarrow> bool" where
  "gathered m I st \<longleftrightarrow>
     for_key st = am_key (msg_hdr m) \<and> credits st + int (total brings I) = credits_total (msg_hdr m) \<and>
     (reply_cb st = Some (msg_reply m) \<or> (\<exists>x \<in># I. is_payload x)) \<and>
     (\<forall>i < length (msg_cmd m). cmd_buf st i = Some (msg_cmd m ! i) \<or> (\<exists>x \<in># I. i \<in> uncopied x)) \<and>
     (has_executor st \<or> (\<exists>x \<in># I. 0 \<in> uncopied x))"

text \<open>Whoever closes the call or has removed its key is alone.\<close>

definition alone :: "am_item multiset \<Rightarrow> bool" where
  "alone I \<longleftrightarrow> (\<forall>x \<in># I. closes x \<or> sealed x \<longrightarrow> I = {#x#})"

definition outcome :: "am_msg \<Rightarrow> am_item multiset \<Rightarrow> nat \<Rightarrow> reassembly \<Rightarrow> bool" where
  "outcome m I p s \<longleftrightarrow>
     am_queued s (am_key (msg_hdr m)) = (if I = {#} then [(p, msg_user m)] else []) \<and>
     am_replied s (am_key (msg_hdr m)) = (if I = {#} \<and> msg_reply m \<noteq> (0, 0) then [msg_reply m] else [])"

definition started :: "am_msg \<Rightarrow> reassembly \<Rightarrow> am_item multiset \<Rightarrow> nat \<Rightarrow> reassembly_state \<Rightarrow> bool" where
  "started m s I p st \<longleftrightarrow>
     am_states s p = Some st \<and> gathered m I st \<and> alone I \<and> (\<forall>x \<in># I. item_state x \<in> {None, Some p}) \<and> outcome m I p s \<and>
     am_table s (am_key (msg_hdr m)) = (if I = {#} \<or> (\<exists>x \<in># I. sealed x) then None else Some p)"

definition not_started :: "am_msg \<Rightarrow> reassembly \<Rightarrow> am_item multiset \<Rightarrow> bool" where
  "not_started m s I \<longleftrightarrow>
     am_table s (am_key (msg_hdr m)) = None \<and> (\<forall>p st. am_states s p = Some st \<longrightarrow> for_key st \<noteq> am_key (msg_hdr m)) \<and>
     (\<forall>x \<in># I. item_state x = None) \<and> gathered m I \<lparr>credits = 0, cmd_buf = Map.empty, has_executor = False, reply_cb = None, for_key = am_key (msg_hdr m)\<rparr> \<and>
     am_queued s (am_key (msg_hdr m)) = [] \<and> am_replied s (am_key (msg_hdr m)) = []"

definition msg_inv :: "am_msg \<Rightarrow> reassembly \<Rightarrow> bool" where
  "msg_inv m s \<longleftrightarrow>
     (let I = under_way s (am_key (msg_hdr m))
      in (\<forall>x \<in># I. item_ok m x) \<and> (not_started m s I \<or> (\<exists>p st. started m s I p st)))"

definition am_inv :: "am_msg list \<Rightarrow> reassembly \<Rightarrow> bool" where
  "am_inv ms s \<longleftrightarrow>
     (\<forall>m \<in> set ms. msg_inv m s) \<and> (\<forall>x \<in># am_items s. \<exists>m \<in> set ms. item_hdr x = msg_hdr m) \<and> (\<forall>p \<ge> am_fresh s. am_states s p = None)"

fun steps_left :: "am_item \<Rightarrow> nat" where
  "steps_left (Payload_part h cb) = 2"
| "steps_left (Cmd_part h off bytes) = 5"
| "steps_left (Cmd_copy h p off bytes opt) = 4"
| "steps_left (Cmd_credit h p n opt) = 3"
| "steps_left (Cmd_erase h p) = 2"
| "steps_left _ = 1"

abbreviation am_work :: "reassembly \<Rightarrow> nat" where
  "am_work s \<equiv> total steps_left (am_items s)"

lemma msg_inv_frame:
  assumes "msg_inv m s" "under_way s' (am_key (msg_hdr m)) = under_way s (am_key (msg_hdr m))"
    "am_table s' (am_key (msg_hdr m)) = am_table s (am_key (msg_hdr m))" "am_queued s' (am_key (msg_hdr m)) = am_queued s (am_key (msg_hdr m))"
    "am_replied s' (am_key (msg_hdr m)) = am_replied s (am_key (msg_hdr m))"
    and st: "\<And>p st. for_key st = am_key (msg_hdr m) \<Longrightarrow> am_states s' p = Some st \<longleftrightarrow> am_states s p = Some st"
  shows "msg_inv m s'"
proof -
  have "started m s' I p st" if "started m s I p st" for I p st
    using that assms(3,4,5) st[of st p] by (auto simp: started_def outcome_def gathered_def)
  moreover have "not_started m s' I" if "not_started m s I" for I
    using that assms(3,4,5) st by (auto simp: not_started_def)
  ultimately show ?thesis using assms(1) unfolding msg_inv_def Let_def assms(2) by blast
qed

text \<open>A step that replaces \<open>x\<close> by \<open>N\<close> and touches nothing of other messages.\<close>

lemma am_inv_step:
  assumes inv: "am_inv ms s" and dist: "distinct (map (am_key \<circ> msg_hdr) ms)" and x: "x \<in># am_items s" and m: "m \<in> set ms" "item_hdr x = msg_hdr m"
    and it: "am_items s' = am_items s - {#x#} + N" and N: "\<forall>y \<in># N. item_ok m y" "total steps_left N < steps_left x"
    and fr: "\<forall>k. k \<noteq> am_key (msg_hdr m) \<longrightarrow> am_table s' k = am_table s k \<and> am_queued s' k = am_queued s k \<and> am_replied s' k = am_replied s k"
    and st: "\<forall>p st. for_key st \<noteq> am_key (msg_hdr m) \<longrightarrow> (am_states s' p = Some st \<longleftrightarrow> am_states s p = Some st)" "\<forall>p \<ge> am_fresh s'. am_states s' p = None"
    and new: "started m s' (under_way s (am_key (msg_hdr m)) - {#x#} + N) p st'"
  shows "am_inv ms s' \<and> am_work s' < am_work s"
proof -
  let ?k = "am_key (msg_hdr m)"
  have uw: "under_way s' k = under_way s k - (if k = ?k then {#x#} else {#}) + (if k = ?k then N else {#})" for k
  proof -
    have "am_key (item_hdr y) = ?k" if "y \<in># N" for y using N(1) that item_ok_hdr[of m y] by simp
    then have "{#y \<in># N. am_key (item_hdr y) = k#} = {#y \<in># N. k = ?k#}" by (intro filter_mset_cong refl) auto
    then have "{#y \<in># N. am_key (item_hdr y) = k#} = (if k = ?k then N else {#})" by simp
    then show ?thesis using m(2) by (auto simp: under_way_def it filter_diff_mset)
  qed
  have old: "\<forall>y \<in># under_way s ?k. item_ok m y" using inv m(1) by (auto simp: am_inv_def msg_inv_def Let_def)
  have "msg_inv m' s'" if m': "m' \<in> set ms" for m'
  proof (cases "am_key (msg_hdr m') = ?k")
    case True
    then have "m' = m" using dist m' m(1) by (auto simp: distinct_map inj_on_def)
    then show ?thesis
      using new N(1) old uw[of ?k] by (auto simp: msg_inv_def Let_def dest: in_diffD)
  next
    case False
    have "msg_inv m' s" using inv m' by (simp add: am_inv_def)
    then show ?thesis using False uw fr st(1) by (intro msg_inv_frame[of m' s s']) auto
  qed
  moreover have "\<exists>m \<in> set ms. item_hdr y = msg_hdr m" if "y \<in># am_items s'" for y
    using that inv N(1) m(1) by (auto simp: it am_inv_def dest!: in_diffD dest: item_ok_hdr)
  moreover have "am_work s' < am_work s"
  proof -
    have "am_items s = add_mset x (am_items s - {#x#})" using x by simp
    then have "am_work s = steps_left x + total steps_left (am_items s - {#x#})" by (metis image_mset_add_mset sum_mset.insert)
    then show ?thesis using N(2) by (simp add: it)
  qed
  ultimately show ?thesis using st(2) by (simp add: am_inv_def)
qed


subsection \<open>The handlers\<close>

text \<open>The rest of what is under way for the message of an item.\<close>

lemma under_way_split:
  assumes "am_inv ms s" "x \<in># am_items s"
  obtains m J where "m \<in> set ms" "item_hdr x = msg_hdr m" "under_way s (am_key (msg_hdr m)) = add_mset x J" "item_ok m x" "\<forall>y \<in># J. item_ok m y"
    "msg_inv m s"
proof -
  obtain m where m: "m \<in> set ms" "item_hdr x = msg_hdr m" using assms by (auto simp: am_inv_def)
  have i: "msg_inv m s" using assms(1) m(1) by (simp add: am_inv_def)
  have "x \<in># under_way s (am_key (msg_hdr m))" using assms(2) m(2) by (simp add: under_way_def)
  then obtain J where J: "under_way s (am_key (msg_hdr m)) = add_mset x J" by (metis insert_DiffM)
  then have "item_ok m x" "\<forall>y \<in># J. item_ok m y" using i by (auto simp: msg_inv_def Let_def)
  then show ?thesis using that m J i by blast
qed

lemma rest_open: "alone (add_mset x J) \<Longrightarrow> y \<in># J \<Longrightarrow> \<not> closes y \<and> \<not> sealed y"
proof (rule ccontr)
  assume a: "alone (add_mset x J)" "y \<in># J" "\<not> (\<not> closes y \<and> \<not> sealed y)"
  then have "add_mset x J = {#y#}" unfolding alone_def by (metis union_iff add_mset_add_single)
  then have "size (add_mset x J) = 1" by simp
  then show False using a(2) by simp
qed

lemma rest_empty:
  assumes "alone (add_mset x J)" "closes x \<or> sealed x"
  shows "J = {#}"
proof -
  have "add_mset x J = {#x#}" using assms unfolding alone_def by (metis union_single_eq_member)
  then show ?thesis by simp
qed

text \<open>Nothing else is under way when the others bring no credits.\<close>

lemma rest_brings:
  assumes "alone (add_mset x J)" "\<forall>y \<in># J. item_ok m y" "total brings J = 0"
  shows "J = {#}"
proof (rule ccontr)
  assume "J \<noteq> {#}"
  then obtain y where y: "y \<in># J" by (rule multiset_nonemptyE)
  then have "brings y = 0" using total_pos[of y J brings] assms(3) by simp
  then show False using brings_zero[of m y] assms(2) rest_open[OF assms(1) y] y by auto
qed

text \<open>A part that arrives finds the state of its message or makes it.\<close>

lemma arrival:
  assumes inv: "msg_inv m s" and uw: "under_way s (am_key (msg_hdr m)) = add_mset x J" and fresh: "\<forall>p \<ge> am_fresh s. am_states s p = None"
    and x: "item_state x = None" "\<not> closes x" "\<not> sealed x" "x \<in># am_items s"
  shows "\<exists>p s1 st. find_state (msg_hdr m) (s\<lparr>am_items := am_items s - {#x#}\<rparr>) = (p, s1) \<and> am_states s1 p = Some st \<and> gathered m (add_mset x J) st \<and>
    alone (add_mset x J) \<and> (\<forall>y \<in># J. item_state y \<in> {None, Some p}) \<and> am_queued s1 = am_queued s \<and> am_replied s1 = am_replied s \<and>
    am_queued s (am_key (msg_hdr m)) = [] \<and> am_replied s (am_key (msg_hdr m)) = [] \<and> am_items s1 = am_items s - {#x#} \<and>
    am_table s1 = (am_table s)(am_key (msg_hdr m) \<mapsto> p) \<and> (\<forall>q \<ge> am_fresh s1. am_states s1 q = None) \<and>
    (\<forall>q st. for_key st \<noteq> am_key (msg_hdr m) \<longrightarrow> (am_states s1 q = Some st \<longleftrightarrow> am_states s q = Some st))"
proof -
  let ?k = "am_key (msg_hdr m)"
  let ?st = "\<lparr>credits = 0, cmd_buf = Map.empty, has_executor = False, reply_cb = None, for_key = ?k\<rparr>"
  consider "not_started m s (add_mset x J)" | p st where "started m s (add_mset x J) p st"
    using inv unfolding msg_inv_def Let_def uw by blast
  then show ?thesis
  proof cases
    case 1
    then have t: "am_table s ?k = None" "\<forall>y \<in># add_mset x J. item_state y = None" "gathered m (add_mset x J) ?st" by (auto simp: not_started_def)
    have "\<not> closes y \<and> \<not> sealed y" if "item_state y = None" for y using that by (cases y) auto
    then have "alone (add_mset x J)" using t(2) by (auto simp: alone_def)
    moreover have "find_state (msg_hdr m) (s\<lparr>am_items := am_items s - {#x#}\<rparr>) =
        (am_fresh s, s\<lparr>am_items := am_items s - {#x#}, am_table := (am_table s)(?k \<mapsto> am_fresh s), am_states := (am_states s)(am_fresh s \<mapsto> ?st),
           am_fresh := Suc (am_fresh s)\<rparr>)"
      using t(1) by (simp add: find_state_def)
    ultimately show ?thesis using 1 t(2,3) fresh by (auto simp: not_started_def)
  next
    case 2
    then have a: "am_states s p = Some st" "gathered m (add_mset x J) st" "alone (add_mset x J)" "\<forall>y \<in># J. item_state y \<in> {None, Some p}"
        "am_queued s ?k = []" "am_replied s ?k = []"
      by (auto simp: started_def outcome_def)
    have "\<not> sealed y" if "y \<in># add_mset x J" for y using that x(3) rest_open[OF a(3)] by auto
    then have t: "am_table s ?k = Some p" using 2 by (auto simp: started_def)
    then have "find_state (msg_hdr m) (s\<lparr>am_items := am_items s - {#x#}\<rparr>) = (p, s\<lparr>am_items := am_items s - {#x#}\<rparr>)" by (simp add: find_state_def)
    moreover have "(am_table s)(?k \<mapsto> p) = am_table s" using t by (auto simp: fun_eq_iff)
    ultimately show ?thesis using a fresh by auto
  qed
qed

text \<open>A step of a handler is good if it does not fail, keeps the invariant and uses up work.\<close>

definition good_step :: "am_msg list \<Rightarrow> reassembly \<Rightarrow> am_item \<Rightarrow> bool" where
  "good_step ms s x \<longleftrightarrow> (\<exists>s'. am_act x (s\<lparr>am_items := am_items s - {#x#}\<rparr>) = Some s' \<and> am_inv ms s' \<and> am_work s' < am_work s)"

lemma good_stepI:
  assumes inv: "am_inv ms s" "distinct (map (am_key \<circ> msg_hdr) ms)" "x \<in># am_items s" "m \<in> set ms" "item_hdr x = msg_hdr m"
    and uw: "under_way s (am_key (msg_hdr m)) = add_mset x J"
    and act: "am_act x (s\<lparr>am_items := am_items s - {#x#}\<rparr>) = Some s'"
    and it: "am_items s' = am_items s - {#x#} + N" "\<forall>y \<in># N. item_ok m y" "total steps_left N < steps_left x"
    and fr: "\<forall>k. k \<noteq> am_key (msg_hdr m) \<longrightarrow> am_table s' k = am_table s k \<and> am_queued s' k = am_queued s k \<and> am_replied s' k = am_replied s k"
    and st: "\<forall>p st. for_key st \<noteq> am_key (msg_hdr m) \<longrightarrow> (am_states s' p = Some st \<longleftrightarrow> am_states s p = Some st)" "\<forall>p \<ge> am_fresh s'. am_states s' p = None"
    and new: "started m s' (J + N) p st'"
  shows "good_step ms s x"
proof -
  have "under_way s (am_key (msg_hdr m)) - {#x#} + N = J + N" by (simp add: uw)
  then show ?thesis using am_inv_step[OF inv it fr st, of p st'] new act by (auto simp: good_step_def)
qed

lemma put_state_frame:
  assumes "am_states s1 p = Some st" "for_key st = k" "for_key st2 = k"
    and "\<forall>q x. for_key x \<noteq> k \<longrightarrow> (am_states s1 q = Some x \<longleftrightarrow> am_states s q = Some x)"
  shows "\<forall>q x. for_key x \<noteq> k \<longrightarrow> (am_states (put_state p st2 s1) q = Some x \<longleftrightarrow> am_states s q = Some x)"
proof (intro allI impI)
  fix q and x :: reassembly_state assume x: "for_key x \<noteq> k"
  have "am_states s1 q = Some x \<longleftrightarrow> am_states s q = Some x" using assms(4) x by blast
  then show "am_states (put_state p st2 s1) q = Some x \<longleftrightarrow> am_states s q = Some x"
    using assms(1-3) x by (cases "q = p") (auto simp: put_state_def)
qed

lemma payload_part_good:
  assumes inv: "am_inv ms s" and dist: "distinct (map (am_key \<circ> msg_hdr) ms)" and x: "Payload_part h cb \<in># am_items s"
  shows "good_step ms s (Payload_part h cb)"
proof -
  let ?x = "Payload_part h cb"
  obtain m J where m: "m \<in> set ms" "item_hdr ?x = msg_hdr m" "under_way s (am_key (msg_hdr m)) = add_mset ?x J" "item_ok m ?x" "\<forall>y \<in># J. item_ok m y" "msg_inv m s"
    using under_way_split[OF inv x] by blast
  let ?k = "am_key (msg_hdr m)"
  have h: "h = msg_hdr m" "cb = msg_reply m" using m(4) by auto
  have fresh: "\<forall>p \<ge> am_fresh s. am_states s p = None" using inv by (simp add: am_inv_def)
  obtain p s1 st where f: "find_state (msg_hdr m) (s\<lparr>am_items := am_items s - {#?x#}\<rparr>) = (p, s1)" "am_states s1 p = Some st" "gathered m (add_mset ?x J) st"
      "alone (add_mset ?x J)" "\<forall>y \<in># J. item_state y \<in> {None, Some p}" "am_queued s1 = am_queued s" "am_replied s1 = am_replied s"
      "am_queued s ?k = []" "am_replied s ?k = []" "am_items s1 = am_items s - {#?x#}" "am_table s1 = (am_table s)(?k \<mapsto> p)"
      "\<forall>q \<ge> am_fresh s1. am_states s1 q = None" "\<forall>q st. for_key st \<noteq> ?k \<longrightarrow> (am_states s1 q = Some st \<longleftrightarrow> am_states s q = Some st)"
    using arrival[OF m(6,3) fresh _ _ _ x] by auto
  let ?st = "st\<lparr>reply_cb := Some cb, credits := credits st + 1\<rparr>"
  let ?s = "put_state p ?st s1"
  have key: "for_key st = ?k" "credits st + 1 + int (total brings J) = credits_total (msg_hdr m)" using f(3) by (simp_all add: gathered_def)
  have J: "gathered m J ?st" using f(3) h(2) by (auto simp: gathered_def)
  have p: "p < am_fresh s1" using f(2,12) by (metis not_le option.distinct(1))
  have sts: "\<forall>q st'. for_key st' \<noteq> ?k \<longrightarrow> (am_states ?s q = Some st' \<longleftrightarrow> am_states s q = Some st')" using f(2,13) key(1) by (intro put_state_frame) auto
  show ?thesis
  proof (cases "credits st + 1 = credits_total (msg_hdr m)")
    case True
    then have e: "J = {#}" using rest_brings[OF f(4) m(5)] key(2) by simp
    let ?t = "send_items {#Payload_complete h p cb#} (erase_key h ?s)"
    have "am_act ?x (s\<lparr>am_items := am_items s - {#?x#}\<rparr>) = Some ?t" using True f(1,2) h(1) by (simp add: am_long_master_payload_part_def Let_def)
    then show ?thesis
    proof (rule good_stepI[OF inv dist x m(1-3)])
      show "started m ?t (J + {#Payload_complete h p cb#}) p ?st"
        using J f(6-9) h by (auto simp: e started_def alone_def outcome_def gathered_def send_items_def erase_key_def put_state_def)
    qed (use f(6,7,10,11,12) sts p h in \<open>auto simp: send_items_def erase_key_def put_state_def\<close>)
  next
    case False
    then have e: "J \<noteq> {#}" using key(2) by auto
    have "am_act ?x (s\<lparr>am_items := am_items s - {#?x#}\<rparr>) = Some ?s" using False f(1,2) h(1) by (simp add: am_long_master_payload_part_def Let_def)
    then show ?thesis
    proof (rule good_stepI[OF inv dist x m(1-3)])
      show "started m ?s (J + {#}) p ?st"
        using J e rest_open[OF f(4)] f(5-9,11) by (auto simp: started_def alone_def outcome_def put_state_def)
    qed (use f(6,7,10,11,12) sts p h in \<open>auto simp: put_state_def\<close>)
  qed
qed

lemma cmd_part_good:
  assumes inv: "am_inv ms s" and dist: "distinct (map (am_key \<circ> msg_hdr) ms)" and x: "Cmd_part h off bytes \<in># am_items s"
  shows "good_step ms s (Cmd_part h off bytes)"
proof -
  let ?x = "Cmd_part h off bytes"
  obtain m J where m: "m \<in> set ms" "item_hdr ?x = msg_hdr m" "under_way s (am_key (msg_hdr m)) = add_mset ?x J" "item_ok m ?x" "\<forall>y \<in># J. item_ok m y" "msg_inv m s"
    using under_way_split[OF inv x] by blast
  let ?k = "am_key (msg_hdr m)"
  have h: "h = msg_hdr m" "part_ok m off bytes" using m(4) by auto
  have fresh: "\<forall>p \<ge> am_fresh s. am_states s p = None" using inv by (simp add: am_inv_def)
  obtain p s1 st where f: "find_state (msg_hdr m) (s\<lparr>am_items := am_items s - {#?x#}\<rparr>) = (p, s1)" "am_states s1 p = Some st" "gathered m (add_mset ?x J) st"
      "alone (add_mset ?x J)" "\<forall>y \<in># J. item_state y \<in> {None, Some p}" "am_queued s1 = am_queued s" "am_replied s1 = am_replied s"
      "am_queued s ?k = []" "am_replied s ?k = []" "am_items s1 = am_items s - {#?x#}" "am_table s1 = (am_table s)(?k \<mapsto> p)"
      "\<forall>q \<ge> am_fresh s1. am_states s1 q = None" "\<forall>q st. for_key st \<noteq> ?k \<longrightarrow> (am_states s1 q = Some st \<longleftrightarrow> am_states s q = Some st)"
    using arrival[OF m(6,3) fresh _ _ _ x] by auto
  let ?opt = "int (length bytes) + credits st"
  let ?y = "Cmd_copy h p off bytes ?opt"
  let ?t = "send_items {#?y#} (if ?opt = credits_total (msg_hdr m) then erase_key h s1 else s1)"
  have key: "?opt + int (total brings J) = credits_total (msg_hdr m)" using f(3) by (simp add: gathered_def)
  have J: "gathered m (add_mset ?y J) st" using f(3) by (auto simp: gathered_def)
  have "am_act ?x (s\<lparr>am_items := am_items s - {#?x#}\<rparr>) = Some ?t" using f(1,2) h(1) by (simp add: am_long_master_cmd_part_def Let_def)
  then show ?thesis
  proof (rule good_stepI[OF inv dist x m(1-3)])
    show "started m ?t (J + {#?y#}) p st"
    proof (cases "?opt = credits_total (msg_hdr m)")
      case True
      then have "J = {#}" using rest_brings[OF f(4) m(5)] key by simp
      then show ?thesis using True J f(2,6-9) h(1) by (auto simp: started_def alone_def outcome_def send_items_def erase_key_def)
    next
      case False
      then show ?thesis
        using J rest_open[OF f(4)] f(2,5-9,11) h(1) by (auto simp: started_def alone_def outcome_def send_items_def)
    qed
  qed (use f(6,7,10-13) h in \<open>auto simp: send_items_def erase_key_def\<close>)
qed

text \<open>A handler under way works on the state of its message.\<close>

lemma begun:
  assumes inv: "am_inv ms s" and x: "x \<in># am_items s" "item_state x = Some p"
  obtains m J st where "m \<in> set ms" "item_hdr x = msg_hdr m" "under_way s (am_key (msg_hdr m)) = add_mset x J" "item_ok m x" "\<forall>y \<in># J. item_ok m y"
    "started m s (add_mset x J) p st" "\<forall>q \<ge> am_fresh s. am_states s q = None" "p < am_fresh s"
proof -
  obtain m J where m: "m \<in> set ms" "item_hdr x = msg_hdr m" "under_way s (am_key (msg_hdr m)) = add_mset x J" "item_ok m x" "\<forall>y \<in># J. item_ok m y" "msg_inv m s"
    using under_way_split[OF inv x(1)] by blast
  have "\<not> not_started m s (add_mset x J)" using x(2) by (auto simp: not_started_def)
  then obtain q st where q: "started m s (add_mset x J) q st" using m(6) unfolding msg_inv_def Let_def m(3) by blast
  then have "q = p" using x(2) by (auto simp: started_def)
  moreover have f: "\<forall>q \<ge> am_fresh s. am_states s q = None" using inv by (simp add: am_inv_def)
  moreover have "p < am_fresh s" using q \<open>q = p\<close> f by (metis not_le option.distinct(1) started_def)
  ultimately show ?thesis using that m q by blast
qed

lemma cmd_copy_good:
  assumes inv: "am_inv ms s" and dist: "distinct (map (am_key \<circ> msg_hdr) ms)" and x: "Cmd_copy h p off bytes opt \<in># am_items s"
  shows "good_step ms s (Cmd_copy h p off bytes opt)"
proof -
  let ?x = "Cmd_copy h p off bytes opt" and ?y = "Cmd_credit h p (length bytes) opt"
  obtain m J st where m: "m \<in> set ms" "item_hdr ?x = msg_hdr m" "under_way s (am_key (msg_hdr m)) = add_mset ?x J" "item_ok m ?x" "\<forall>y \<in># J. item_ok m y"
      "started m s (add_mset ?x J) p st" "\<forall>q \<ge> am_fresh s. am_states s q = None" "p < am_fresh s"
    by (rule begun[OF inv x, of p]) auto
  have h: "h = msg_hdr m" "part_ok m off bytes" using m(4) by auto
  have s: "am_states s p = Some st" "gathered m (add_mset ?x J) st" "alone (add_mset ?x J)" using m(6) by (auto simp: started_def)
  let ?st = "st\<lparr>cmd_buf := (\<lambda>i. if off \<le> i \<and> i < off + length bytes then Some (bytes ! (i - off)) else cmd_buf st i),
      has_executor := has_executor st \<or> off = 0\<rparr>"
  let ?t = "send_items {#?y#} (put_state p ?st (s\<lparr>am_items := am_items s - {#?x#}\<rparr>))"
  have le: "off + length bytes \<le> cmd_size h" using h by (simp add: part_ok_def msg_hdr_def)
  have "bytes ! (i - off) = msg_cmd m ! i" if "off \<le> i" "i < off + length bytes" for i
  proof -
    have l: "off \<le> length (msg_cmd m)" "bytes = take (length bytes) (drop off (msg_cmd m))" using h(2) by (auto simp: part_ok_def)
    have "take (length bytes) (drop off (msg_cmd m)) ! (i - off) = msg_cmd m ! i" using that l(1) by simp
    then show ?thesis using l(2) by metis
  qed
  then have J: "gathered m (add_mset ?y J) ?st" using s(2) by (auto simp: gathered_def)
  have "am_act ?x (s\<lparr>am_items := am_items s - {#?x#}\<rparr>) = Some ?t" using s(1) le by (simp add: cmd_part_copy_def Let_def)
  then show ?thesis
  proof (rule good_stepI[OF inv dist x m(1-3)])
    have "alone (add_mset ?y J)" using rest_open[OF s(3)] rest_empty[OF s(3)] by (auto simp: alone_def)
    then show "started m ?t (J + {#?y#}) p ?st"
      using J m(6) by (auto simp: started_def outcome_def send_items_def put_state_def)
    have "\<forall>q st'. for_key st' \<noteq> am_key (msg_hdr m) \<longrightarrow> (am_states (put_state p ?st s) q = Some st' \<longleftrightarrow> am_states s q = Some st')"
      using s by (intro put_state_frame[of s p st]) (auto simp: gathered_def)
    then show "\<forall>q st'. for_key st' \<noteq> am_key (msg_hdr m) \<longrightarrow> (am_states ?t q = Some st' \<longleftrightarrow> am_states s q = Some st')"
      by (simp add: put_state_def send_items_def)
  qed (use m(7,8) h in \<open>auto simp: send_items_def put_state_def part_ok_def\<close>)
qed

lemma cmd_credit_good:
  assumes inv: "am_inv ms s" and dist: "distinct (map (am_key \<circ> msg_hdr) ms)" and x: "Cmd_credit h p n opt \<in># am_items s"
  shows "good_step ms s (Cmd_credit h p n opt)"
proof -
  let ?x = "Cmd_credit h p n opt"
  obtain m J st where m: "m \<in> set ms" "item_hdr ?x = msg_hdr m" "under_way s (am_key (msg_hdr m)) = add_mset ?x J" "item_ok m ?x" "\<forall>y \<in># J. item_ok m y"
      "started m s (add_mset ?x J) p st" "\<forall>q \<ge> am_fresh s. am_states s q = None" "p < am_fresh s"
    by (rule begun[OF inv x, of p]) auto
  let ?T = "credits_total (msg_hdr m)"
  have h: "h = msg_hdr m" using m(4) by auto
  have s: "am_states s p = Some st" "gathered m (add_mset ?x J) st" "alone (add_mset ?x J)" using m(6) by (auto simp: started_def)
  have key: "int n + credits st + int (total brings J) = ?T" using s(2) by (simp add: gathered_def)
  let ?st = "st\<lparr>credits := int n + credits st\<rparr>" and ?N = "if int n + credits st \<noteq> ?T then {#} else if opt \<noteq> ?T then {#Cmd_erase h p#} else {#Cmd_complete h p#}"
  let ?t = "send_items ?N (put_state p ?st (s\<lparr>am_items := am_items s - {#?x#}\<rparr>))"
  have J: "gathered m (J + ?N) ?st" using s(2) by (auto simp: gathered_def)
  have "am_act ?x (s\<lparr>am_items := am_items s - {#?x#}\<rparr>) = Some ?t" using s(1) h by (simp add: cmd_part_credit_def send_items_def put_state_def Let_def)
  then show ?thesis
  proof (rule good_stepI[OF inv dist x m(1-3)])
    show "started m ?t (J + ?N) p ?st"
    proof (cases "int n + credits st = ?T")
      case True
      then have "J = {#}" using rest_brings[OF s(3) m(5)] key by simp
      then show ?thesis using True J m(6) h by (auto simp: started_def alone_def outcome_def send_items_def put_state_def)
    next
      case False
      then have "J \<noteq> {#}" "opt \<noteq> ?T" using key rest_empty[OF s(3)] h by auto
      then show ?thesis
        using False J m(6) rest_open[OF s(3)] h by (auto simp: started_def alone_def outcome_def send_items_def put_state_def)
    qed
    have "\<forall>q st'. for_key st' \<noteq> am_key (msg_hdr m) \<longrightarrow> (am_states (put_state p ?st s) q = Some st' \<longleftrightarrow> am_states s q = Some st')"
      using s by (intro put_state_frame[of s p st]) (auto simp: gathered_def)
    then show "\<forall>q st'. for_key st' \<noteq> am_key (msg_hdr m) \<longrightarrow> (am_states ?t q = Some st' \<longleftrightarrow> am_states s q = Some st')"
      by (simp add: put_state_def send_items_def)
  qed (use m(7,8) h in \<open>auto simp: send_items_def put_state_def\<close>)
qed

text \<open>The last steps, when nothing else of the message is under way.\<close>

lemma closing_good:
  assumes inv: "am_inv ms s" and dist: "distinct (map (am_key \<circ> msg_hdr) ms)" and x: "x \<in># am_items s" "closes x"
  shows "good_step ms s x"
proof -
  obtain p where p: "item_state x = Some p" using x(2) by (cases x) auto
  obtain m J st where m: "m \<in> set ms" "item_hdr x = msg_hdr m" "under_way s (am_key (msg_hdr m)) = add_mset x J" "item_ok m x" "\<forall>y \<in># J. item_ok m y"
      "started m s (add_mset x J) p st" "\<forall>q \<ge> am_fresh s. am_states s q = None" "p < am_fresh s"
    by (rule begun[OF inv x(1) p])
  have s: "am_states s p = Some st" "gathered m (add_mset x J) st" "alone (add_mset x J)" using m(6) by (auto simp: started_def)
  then have e: "J = {#}" using rest_empty x(2) by blast
  have np: "\<not> is_payload x" "uncopied x = {}" using x(2) by (cases x; simp)+
  then have r: "reply_cb st = Some (msg_reply m)" using s(2) e by (auto simp: gathered_def)
  let ?s = "s\<lparr>am_items := am_items s - {#x#}\<rparr>"
  let ?c = "completion (msg_hdr m) p (msg_reply m) ?s"
  have fin: "good_step ms s x" if "am_act x ?s = Some ?c" "am_table s (am_key (msg_hdr m)) = None"
    using that(1)
  proof (rule good_stepI[OF inv dist x(1) m(1-3), where N = "{#}"])
    have "gathered m (J + {#}) st" using s(2) np x(2) by (cases x) (auto simp: gathered_def e)
    then show "started m ?c (J + {#}) p st"
      using m(6) that(2) e by (auto simp: started_def alone_def outcome_def completion_def msg_hdr_def)
  qed (use m(7) x(2) in \<open>cases x; auto simp: completion_def\<close>)+
  show ?thesis
  proof (cases x)
    case (Cmd_erase h q)
    then have h: "h = msg_hdr m" "q = p" using m(4) p by auto
    let ?t = "send_items {#Cmd_complete h p#} (erase_key h ?s)"
    have "am_act x ?s = Some ?t" by (simp add: Cmd_erase h(2))
    then show ?thesis
    proof (rule good_stepI[OF inv dist x(1) m(1-3)])
      show "started m ?t (J + {#Cmd_complete h p#}) p st"
        using m(6) e h Cmd_erase by (auto simp: started_def alone_def outcome_def gathered_def send_items_def erase_key_def)
    qed (use m(7) h Cmd_erase in \<open>auto simp: send_items_def erase_key_def\<close>)
  next
    case (Cmd_complete h q)
    then have "h = msg_hdr m" "q = p" "am_table s (am_key (msg_hdr m)) = None" using m(4,6) p by (auto simp: started_def)
    then show ?thesis using s(1) r by (intro fin) (simp_all add: Cmd_complete)
  next
    case (Payload_complete h q cb)
    then have "h = msg_hdr m" "cb = msg_reply m" "q = p" "am_table s (am_key (msg_hdr m)) = None" using m(4,6) p by (auto simp: started_def)
    then show ?thesis by (intro fin) (simp_all add: Payload_complete)
  qed (use x(2) in auto)
qed

lemma am_act_good:
  assumes "am_inv ms s" "distinct (map (am_key \<circ> msg_hdr) ms)" "x \<in># am_items s"
  shows "good_step ms s x"
proof (cases "closes x")
  case True
  then show ?thesis using closing_good assms by blast
next
  case False
  then show ?thesis using assms payload_part_good cmd_part_good cmd_copy_good cmd_credit_good by (cases x) auto
qed

subsection \<open>Runs\<close>

text \<open>A message that the runtime can send: a call of at least one byte whose size fits the arguments, in parts of at least one byte.\<close>

definition sendable :: "am_msg \<Rightarrow> bool" where
  "sendable m \<longleftrightarrow> 0 < length (msg_cmd m) \<and> length (msg_cmd m) < 2 ^ 31 - 1 \<and> 0 < msg_part_max m"

definition all_sendable :: "am_msg list \<Rightarrow> bool" where
  "all_sendable ms \<longleftrightarrow> distinct (map (\<lambda>m. (msg_src m, msg_nonce m)) ms) \<and> list_all sendable ms"

lemma all_sendable_keys: "all_sendable ms \<Longrightarrow> distinct (map (am_key \<circ> msg_hdr) ms)"
  by (auto simp: all_sendable_def distinct_map inj_on_def am_key_inject msg_hdr_def)

interpretation long_am_pool: live am_step "\<lambda>s. all_sendable ms \<and> am_inv ms s" am_work "\<lambda>s. am_items s = {#}"
  for ms
proof
  show "(all_sendable ms \<and> am_inv ms t) \<and> am_work t < am_work s" if "all_sendable ms \<and> am_inv ms s" "am_step s t" for s t
    using that am_act_good[of ms s] all_sendable_keys[of ms] by (fastforce simp: good_step_def elim: am_stepE)
  show "\<exists>t. am_step s t" if i: "all_sendable ms \<and> am_inv ms s" and ne: "am_items s \<noteq> {#}" for s
  proof -
    obtain x where "x \<in># am_items s" using ne by (rule multiset_nonemptyE)
    with am_act_good[of ms s x] i all_sendable_keys[of ms] show ?thesis by (auto simp: good_step_def intro: am_step.intros)
  qed
qed

text \<open>The items of one message at the start.\<close>

lemma sent_item_ok:
  assumes "sendable m" "x \<in># rma_put_then_am m"
  shows "item_ok m x \<and> item_state x = None"
  using assms cmd_parts_bounds[of "msg_part_max m" _ _ "length (msg_cmd m)" 0]
  by (fastforce simp: rma_put_then_am_def sendable_def part_ok_def)

lemma sent_total:
  "total f (rma_put_then_am m) = f (Payload_part (msg_hdr m) (msg_reply m)) +
     (\<Sum>(off, n) \<leftarrow> cmd_parts (msg_part_max m) (length (msg_cmd m)) 0. f (Cmd_part (msg_hdr m) off (take n (drop off (msg_cmd m)))))"
proof -
  have t: "total f (mset (map g xs)) = sum_list (map (\<lambda>x. f (g x)) xs)" for g :: "nat \<times> nat \<Rightarrow> am_item" and xs by (induction xs) simp_all
  show ?thesis by (simp add: rma_put_then_am_def t case_prod_unfold del: mset_map)
qed

lemma sent_brings:
  assumes "sendable m"
  shows "total brings (rma_put_then_am m) = 1 + length (msg_cmd m)"
proof -
  let ?ps = "cmd_parts (msg_part_max m) (length (msg_cmd m)) 0"
  have p: "0 < msg_part_max m" using assms by (simp add: sendable_def)
  have "map (\<lambda>(off, n). brings (Cmd_part (msg_hdr m) off (take n (drop off (msg_cmd m))))) ?ps = map snd ?ps"
    using cmd_parts_bounds[OF p, of _ _ "length (msg_cmd m)" 0] by fastforce
  then show ?thesis unfolding sent_total using cmd_parts_sum[OF p, of "length (msg_cmd m)" 0] by (simp only: brings.simps)
qed

lemma sent_covers:
  assumes "sendable m" "i < length (msg_cmd m)"
  shows "\<exists>x \<in># rma_put_then_am m. i \<in> uncopied x"
proof -
  have p: "0 < msg_part_max m" using assms by (simp add: sendable_def)
  obtain off n where o: "(off, n) \<in> set (cmd_parts (msg_part_max m) (length (msg_cmd m)) 0)" "off \<le> i" "i < off + n"
    using cmd_parts_cover[OF p, of 0 i "length (msg_cmd m)"] assms(2) by auto
  then have "off + n \<le> length (msg_cmd m)" using cmd_parts_bounds[OF p] by blast
  then have "i \<in> uncopied (Cmd_part (msg_hdr m) off (take n (drop off (msg_cmd m))))" using o by simp
  moreover have "Cmd_part (msg_hdr m) off (take n (drop off (msg_cmd m))) \<in># rma_put_then_am m"
    using o(1) by (force simp: rma_put_then_am_def)
  ultimately show ?thesis by blast
qed

lemma sent_gathered:
  assumes "sendable m"
  shows "gathered m (rma_put_then_am m) \<lparr>credits = 0, cmd_buf = Map.empty, has_executor = False, reply_cb = None, for_key = am_key (msg_hdr m)\<rparr>"
proof -
  have "\<exists>x \<in># rma_put_then_am m. is_payload x" by (auto simp: rma_put_then_am_def)
  moreover have "\<exists>x \<in># rma_put_then_am m. 0 \<in> uncopied x" using assms by (intro sent_covers) (simp_all add: sendable_def)
  ultimately show ?thesis
    using sent_brings[OF assms] sent_covers[OF assms] by (simp add: gathered_def credits_total_def msg_hdr_def)
qed

lemma in_sum_list: "x \<in># sum_list (map f ms) \<Longrightarrow> \<exists>m \<in> set ms. x \<in># f m"
  by (induction ms) auto

lemma total_sum_list:
  fixes f :: "'a \<Rightarrow> nat"
  shows "total f (sum_list (map g ms)) = (\<Sum>m \<leftarrow> ms. total f (g m))"
  by (induction ms) auto

lemma sum_filter_other:
  assumes "\<And>m x. m \<in> set ms \<Longrightarrow> x \<in># f m \<Longrightarrow> g x = h m" "k \<notin> h ` set ms"
  shows "{#x \<in># sum_list (map f ms). g x = k#} = {#}"
proof -
  have "g x \<noteq> k" if "x \<in># sum_list (map f ms)" for x using in_sum_list[OF that] assms(1)[of _ x] assms(2) by blast
  then show ?thesis by simp
qed

lemma sum_filter_key:
  assumes "\<And>m x. m \<in> set ms \<Longrightarrow> x \<in># f m \<Longrightarrow> g x = h m" "distinct (map h ms)" "m \<in> set ms"
  shows "{#x \<in># sum_list (map f ms). g x = h m#} = f m"
  using assms
proof (induction ms)
  case (Cons a ms)
  have a: "{#x \<in># f a. g x = k#} = (if h a = k then f a else {#})" for k
  proof -
    have "{#x \<in># f a. g x = k#} = {#x \<in># f a. h a = k#}" using Cons.prems(1)[of a] by (intro filter_mset_cong) auto
    then show ?thesis by simp
  qed
  show ?case
  proof (cases "m = a")
    case True
    then have "{#x \<in># sum_list (map f ms). g x = h m#} = {#}" using Cons.prems by (intro sum_filter_other[of _ _ _ h]) auto
    with True show ?thesis by (simp add: a)
  next
    case False
    then have m: "m \<in> set ms" "h a \<noteq> h m" using Cons.prems(2,3) by auto
    then have "{#x \<in># sum_list (map f ms). g x = h m#} = f m" using Cons by simp
    with m(2) show ?thesis by (simp add: a)
  qed
qed simp

lemma am_start_inv:
  assumes "all_sendable ms"
  shows "am_inv ms (am_start ms)" "am_work (am_start ms) = (\<Sum>m \<leftarrow> ms. 2 + 5 * length (cmd_parts (msg_part_max m) (length (msg_cmd m)) 0))"
proof -
  have ok: "item_ok m x \<and> item_state x = None" if "m \<in> set ms" "x \<in># rma_put_then_am m" for m x
    using sent_item_ok[of m x] assms that by (simp add: all_sendable_def list_all_iff)
  have key: "(am_key \<circ> item_hdr) x = (am_key \<circ> msg_hdr) m" if "m \<in> set ms" "x \<in># rma_put_then_am m" for m x
    using ok[OF that] item_ok_hdr[of m x] by simp
  have uw: "under_way (am_start ms) (am_key (msg_hdr m)) = rma_put_then_am m" if "m \<in> set ms" for m
    using sum_filter_key[OF key all_sendable_keys[OF assms] that]
    by (simp add: under_way_def am_start_def)
  have "msg_inv m (am_start ms)" if "m \<in> set ms" for m
  proof -
    have "sendable m" using assms that by (simp add: all_sendable_def list_all_iff)
    then have "not_started m (am_start ms) (rma_put_then_am m)"
      using sent_gathered[of m] ok[OF that] unfolding not_started_def by (simp add: am_start_def)
    then show ?thesis using ok[OF that] by (simp add: msg_inv_def uw[OF that])
  qed
  moreover have "\<exists>m \<in> set ms. item_hdr x = msg_hdr m" if x: "x \<in># am_items (am_start ms)" for x
  proof -
    obtain m where "m \<in> set ms" "x \<in># rma_put_then_am m" using x in_sum_list[of x rma_put_then_am ms] by (auto simp: am_start_def)
    then show ?thesis using ok item_ok_hdr by blast
  qed
  moreover have "\<forall>p \<ge> am_fresh (am_start ms). am_states (am_start ms) p = None" by (simp add: am_start_def)
  ultimately show "am_inv ms (am_start ms)" unfolding am_inv_def by blast
  have "total steps_left (rma_put_then_am m) = 2 + 5 * length (cmd_parts (msg_part_max m) (length (msg_cmd m)) 0)" for m
    by (simp add: sent_total case_prod_unfold sum_list_triv)
  then show "am_work (am_start ms) = (\<Sum>m \<leftarrow> ms. 2 + 5 * length (cmd_parts (msg_part_max m) (length (msg_cmd m)) 0))"
    by (simp add: am_start_def total_sum_list)
qed

text \<open>The whole call is queued once, its reply is sent, and the table has forgotten its key.\<close>

definition delivered :: "am_msg \<Rightarrow> reassembly \<Rightarrow> bool" where
  "delivered m s \<longleftrightarrow>
     (\<exists>p st. am_queued s (am_key (msg_hdr m)) = [(p, msg_user m)] \<and> am_states s p = Some st \<and> has_executor st \<and>
        (\<forall>i < length (msg_cmd m). cmd_buf st i = Some (msg_cmd m ! i))) \<and>
     am_replied s (am_key (msg_hdr m)) = (if msg_reply m = (0, 0) then [] else [msg_reply m]) \<and>
     am_table s (am_key (msg_hdr m)) = None"

lemma inv_delivered:
  assumes inv: "am_inv ms s" and m: "m \<in> set ms"
  shows "am_queued s (am_key (msg_hdr m)) = [] \<and> am_replied s (am_key (msg_hdr m)) = [] \<or> delivered m s"
    and "under_way s (am_key (msg_hdr m)) = {#} \<Longrightarrow> delivered m s"
proof -
  let ?I = "under_way s (am_key (msg_hdr m))"
  have i: "not_started m s ?I \<or> (\<exists>p st. started m s ?I p st)" using inv m by (auto simp: am_inv_def msg_inv_def Let_def)
  have d: "delivered m s" if e: "?I = {#}"
  proof -
    have "\<not> not_started m s {#}" by (simp add: not_started_def gathered_def credits_total_def)
    then obtain p st where "started m s {#} p st" using i e by auto
    then show ?thesis by (auto simp: started_def outcome_def gathered_def delivered_def)
  qed
  then show "?I = {#} \<Longrightarrow> delivered m s" .
  show "am_queued s (am_key (msg_hdr m)) = [] \<and> am_replied s (am_key (msg_hdr m)) = [] \<or> delivered m s"
  proof (cases "?I = {#}")
    case False
    then show ?thesis using i by (auto simp: not_started_def started_def outcome_def)
  qed (simp add: d)
qed

text \<open>
  (C5) Calls in parts. Messages of any senders with pairwise different senders and nonces arrive in parts and in any order, and the handlers
  of different threads interleave between every two critical sections. Then no handler writes out of the buffer of a call or uses a state that
  is not there, the number of steps is bounded, and every call is queued at most once and only after all of its bytes are copied, its
  first part has set the executor, its data has arrived and its entry in the table is gone; its reply is sent exactly then, and
  when nothing is under way any more every call has been queued.
\<close>

theorem long_am_correct:
  assumes "all_sendable ms" "(am_step ^^ k) (am_start ms) s"
  shows "k \<le> (\<Sum>m \<leftarrow> ms. 2 + 5 * length (cmd_parts (msg_part_max m) (length (msg_cmd m)) 0)) \<and>
    (\<forall>x \<in># am_items s. am_act x (s\<lparr>am_items := am_items s - {#x#}\<rparr>) \<noteq> None) \<and>
    (\<forall>m \<in> set ms. am_queued s (am_key (msg_hdr m)) = [] \<and> am_replied s (am_key (msg_hdr m)) = [] \<or> delivered m s) \<and>
    (am_items s = {#} \<longrightarrow> (\<forall>m \<in> set ms. delivered m s))"
proof -
  have r: "am_inv ms s" "k + am_work s \<le> am_work (am_start ms)"
    using long_am_pool.run_bounded[OF assms(2), of ms] am_start_inv(1)[OF assms(1)] assms(1) by auto
  have "\<forall>x \<in># am_items s. am_act x (s\<lparr>am_items := am_items s - {#x#}\<rparr>) \<noteq> None"
    using am_act_good[OF r(1) all_sendable_keys[OF assms(1)]] by (fastforce simp: good_step_def)
  moreover have "am_items s = {#} \<longrightarrow> (\<forall>m \<in> set ms. delivered m s)" using inv_delivered(2)[OF r(1)] by (simp add: under_way_def)
  ultimately show ?thesis using r(2) am_start_inv(2)[OF assms(1)] inv_delivered(1)[OF r(1)] by auto
qed

definition sample_msgs :: "am_msg list" where
  "sample_msgs =
     [\<lparr>msg_src = 1, msg_nonce = 7, msg_cmd = [10, 20, 30], msg_user = True, msg_reply = (4, 0), msg_part_max = 2\<rparr>,
      \<lparr>msg_src = 2, msg_nonce = 7, msg_cmd = [40], msg_user = False, msg_reply = (0, 0), msg_part_max = 2\<rparr>]"

theorem long_am_correct_witness:
  "\<exists>k s. (am_step ^^ k) (am_start sample_msgs) s \<and> k \<le> 19 \<and> am_items s = {#} \<and> list_all (\<lambda>m. delivered m s) sample_msgs"
proof -
  have a: "all_sendable sample_msgs" by (simp add: all_sendable_def sample_msgs_def sendable_def)
  obtain k s where s: "(am_step ^^ k) (am_start sample_msgs) s" "am_items s = {#}"
    using long_am_pool.reaches_idle[of sample_msgs] am_start_inv(1)[OF a] a by blast
  have "(\<Sum>m \<leftarrow> sample_msgs. 2 + 5 * length (cmd_parts (msg_part_max m) (length (msg_cmd m)) 0)) = 19"
    by (simp add: sample_msgs_def cmd_parts.simps)
  then show ?thesis using long_am_correct[OF a s(1)] s by (intro exI[of _ k] exI[of _ s]) (auto simp: list_all_iff)
qed

end
