(* ===== verification/Shared_Alloc.thy ===== *)
theory Shared_Alloc
  imports Global_Ptr
begin

unbundle bit_operations_syntax

text \<open>
  Component shared-heap allocation (src/allocate.hpp, \<open>allocate_or_null\<close>, \<open>allocate\<close> and \<open>deallocate\<close> of
  src/backend/gasnet/runtime.cpp and runtime.hpp), in a build with threads, where no persona is asked for. The allocators below, dlmalloc over the shared segment and that of a UPC
  runtime, are parameters, with their state of any type. Memory is bytes at addresses of 64 bits. Constructors and destructors of
  elements are events; the constructor may throw at one element. \<open>None\<close> is a failed assertion or a fatal error.
\<close>

subsection \<open>State\<close>

text \<open>\<open>mspace_memalign\<close> takes alignment and size and returns 0 for failure; failures of the UPC runtime are fatal.\<close>

record 'h provider =
  mspace_memalign :: "u64 \<Rightarrow> u64 \<Rightarrow> 'h \<Rightarrow> u64 \<times> 'h"
  mspace_usable_size :: "u64 \<Rightarrow> 'h \<Rightarrow> u64"
  mspace_free :: "u64 \<Rightarrow> 'h \<Rightarrow> 'h"
  upc_alloc :: "u64 \<Rightarrow> 'h \<Rightarrow> (u64 \<times> 'h) option"
  upc_free :: "u64 \<Rightarrow> 'h \<Rightarrow> 'h"

record sheap_footprint =
  fp_count :: u64
  fp_bytes :: u64

datatype foot = Foot_rdzv | Foot_misc | Foot_user

text \<open>A type of elements: its size and alignment, and whether its constructor and destructor are trivial.\<close>

record obj_type =
  elt :: gp_type
  triv_ctor :: bool
  triv_dtor :: bool

text \<open>The construction and the destruction of an object of a type at an address.\<close>

datatype lifetime = Ctor obj_type u64 | Dtor obj_type u64

record 'h sheap =
  use_upc_alloc :: bool
  shared_heap_isinit :: bool
  backing :: 'h
  byte_at :: "u64 \<Rightarrow> u8"
  footprint :: "foot \<Rightarrow> sheap_footprint"
  events :: "lifetime list"

text \<open>A word of 64 bits in memory.\<close>

definition load64 :: "u64 \<Rightarrow> (u64 \<Rightarrow> u8) \<Rightarrow> u64" where
  "load64 a m = foldr (\<lambda>i w. push_bit 8 w OR ucast (m (a + of_nat i))) [0..<8] 0"

definition store64 :: "u64 \<Rightarrow> u64 \<Rightarrow> (u64 \<Rightarrow> u8) \<Rightarrow> u64 \<Rightarrow> u8" where
  "store64 a v m = fold (\<lambda>i m. m(a + of_nat i := ucast (drop_bit (8 * i) v))) [0..<8] m"

definition write64 :: "u64 \<Rightarrow> u64 \<Rightarrow> 'h sheap \<Rightarrow> 'h sheap" where
  "write64 a v s = s\<lparr>byte_at := store64 a v (byte_at s)\<rparr>"

definition log_events :: "lifetime list \<Rightarrow> 'h sheap \<Rightarrow> 'h sheap" where
  "log_events ev s = s\<lparr>events := events s @ ev\<rparr>"

definition charge :: "foot \<Rightarrow> u64 \<Rightarrow> 'h sheap \<Rightarrow> 'h sheap" where
  "charge f n s =
     s\<lparr>footprint := (footprint s)(f := \<lparr>fp_count = fp_count (footprint s f) + 1, fp_bytes = fp_bytes (footprint s f) + n\<rparr>)\<rparr>"

definition discharge :: "foot \<Rightarrow> u64 \<Rightarrow> 'h sheap \<Rightarrow> 'h sheap" where
  "discharge f n s =
     s\<lparr>footprint := (footprint s)(f := \<lparr>fp_count = fp_count (footprint s f) - 1, fp_bytes = fp_bytes (footprint s f) - n\<rparr>)\<rparr>"

definition shared_segment_used :: "'h sheap \<Rightarrow> u64 option" where
  "shared_segment_used s =
     (if \<not> shared_heap_isinit s then None
      else Some (fp_bytes (footprint s Foot_user) + fp_bytes (footprint s Foot_rdzv) + fp_bytes (footprint s Foot_misc)))"

subsection \<open>Buffers\<close>

text \<open>Over the UPC allocator, the size of the padding and of the whole lie in the two words before the buffer.\<close>

definition upc_allocate :: "'h provider \<Rightarrow> u64 \<Rightarrow> u64 \<Rightarrow> foot \<Rightarrow> 'h sheap \<Rightarrow> (u64 \<times> 'h sheap) option" where
  "upc_allocate pv sz alignment f s =
     (if \<not> alignment < push_bit 31 1 then None
      else let alignment = max alignment 16
           in if alignment AND (alignment - 1) \<noteq> 0 then None
              else do {
                (base, h) \<leftarrow> upc_alloc pv (sz + alignment) (backing s);
                let user = (base + alignment) AND NOT (alignment - 1);
                let pad = user - base;
                if \<not> (16 \<le> pad \<and> pad \<le> alignment) then None
                else let s = write64 (user - 16) (sz + alignment) (write64 (user - 8) pad (s\<lparr>backing := h\<rparr>))
                     in if user mod alignment \<noteq> 0 then None else Some (user, charge f (sz + alignment) s)
              })"

definition mspace_allocate :: "'h provider \<Rightarrow> u64 \<Rightarrow> u64 \<Rightarrow> foot \<Rightarrow> 'h sheap \<Rightarrow> (u64 \<times> 'h sheap) option" where
  "mspace_allocate pv sz alignment f s =
     (let (p, h) = mspace_memalign pv alignment sz (backing s);
          s = s\<lparr>backing := h\<rparr>;
          s = (if p \<noteq> 0 then charge f (mspace_usable_size pv p h) s else s)
      in if p mod alignment \<noteq> 0 then None else Some (p, s))"

definition allocate_or_null :: "'h provider \<Rightarrow> u64 \<Rightarrow> u64 \<Rightarrow> foot \<Rightarrow> 'h sheap \<Rightarrow> (u64 \<times> 'h sheap) option" where
  "allocate_or_null pv sz alignment f s =
     (if \<not> shared_heap_isinit s then None
      else if use_upc_alloc s then upc_allocate pv sz alignment f s else mspace_allocate pv sz alignment f s)"

definition gasnet_deallocate :: "'h provider \<Rightarrow> u64 \<Rightarrow> foot \<Rightarrow> 'h sheap \<Rightarrow> 'h sheap option" where
  "gasnet_deallocate pv p f s =
     (if \<not> shared_heap_isinit s then None
      else if p = 0 then Some s
      else if use_upc_alloc s
      then if p AND 3 \<noteq> 0 then None
           else let pad = load64 (p - 8) (byte_at s);
                    foot_size = load64 (p - 16) (byte_at s)
                in Some (discharge f foot_size (s\<lparr>backing := upc_free pv (p - pad) (backing s)\<rparr>))
      else let s' = discharge f (mspace_usable_size pv p (backing s)) s
           in Some (s'\<lparr>backing := mspace_free pv p (backing s')\<rparr>))"

text \<open>Exceptions: no memory for so many bytes, so many elements that their bytes cannot be counted, and what a constructor throws.\<close>

datatype alloc_exn = Bad_shared_alloc u64 | Unrepresentable u64 | Thrown

text \<open>\<open>gasnet::allocate\<close>: failure is an exception or fatal.\<close>

definition gasnet_allocate :: "bool \<Rightarrow> 'h provider \<Rightarrow> u64 \<Rightarrow> u64 \<Rightarrow> foot \<Rightarrow> 'h sheap \<Rightarrow> ((alloc_exn + u64) \<times> 'h sheap) option" where
  "gasnet_allocate failure_throws pv sz alignment f s =
     do {
       (p, s) \<leftarrow> allocate_or_null pv sz alignment f s;
       if p \<noteq> 0 then Some (Inr p, s)
       else if failure_throws then Some (Inl (Bad_shared_alloc sz), s) else None
     }"

subsection \<open>Typed storage\<close>

definition size_of :: "obj_type \<Rightarrow> u64" where
  "size_of ty = of_nat (elt_size (elt ty))"

definition align_of :: "obj_type \<Rightarrow> u64" where
  "align_of ty = of_nat (elt_align (elt ty))"

definition own_gptr :: "process \<Rightarrow> obj_type \<Rightarrow> u64 \<Rightarrow> global_ptr option" where
  "own_gptr pr ty p = make_gptr pr (elt ty) (rank_me pr) p 0 Host"

definition not_null :: "global_ptr \<Rightarrow> bool" where
  "not_null g \<longleftrightarrow> gp_ne g \<lparr>heap_idx = 0, gp_dynamic_kind = Host, gp_rank = 0, raw_ptr = 0\<rparr>"

definition allocate_elts :: "process \<Rightarrow> 'h provider \<Rightarrow> obj_type \<Rightarrow> u64 \<Rightarrow> u64 \<Rightarrow> 'h sheap \<Rightarrow> (global_ptr \<times> 'h sheap) option" where
  "allocate_elts pr pv ty n alignment s =
     do {
       (p, s) \<leftarrow> allocate_or_null pv (n * size_of ty) alignment Foot_user s;
       g \<leftarrow> (if p = 0 then null_gptr pr (elt ty) else own_gptr pr ty p);
       Some (g, s)
     }"

definition deallocate_elts :: "process \<Rightarrow> 'h provider \<Rightarrow> obj_type \<Rightarrow> global_ptr \<Rightarrow> 'h sheap \<Rightarrow> 'h sheap option" where
  "deallocate_elts pr pv ty g s =
     do {
       _ \<leftarrow> gptr_chk pr (elt ty) g;
       if \<not> not_null g then Some s
       else if gp_rank g \<noteq> rank_me pr then None
       else gasnet_deallocate pv (raw_ptr g) Foot_user s
     }"

subsection \<open>Single objects\<close>

text \<open>\<open>t\<close> is the element whose constructor throws.\<close>

definition new_obj :: "bool \<Rightarrow> process \<Rightarrow> 'h provider \<Rightarrow> obj_type \<Rightarrow> nat option \<Rightarrow> 'h sheap \<Rightarrow> ((alloc_exn + global_ptr) \<times> 'h sheap) option" where
  "new_obj throws pr pv ty t s =
     do {
       (p, s) \<leftarrow> allocate_or_null pv (size_of ty) (align_of ty) Foot_user s;
       if p = 0
       then if throws then Some (Inl (Bad_shared_alloc (max (size_of ty) (align_of ty))), s)
            else do { g \<leftarrow> null_gptr pr (elt ty); Some (Inr g, s) }
       else if t = Some 0
       then do { s \<leftarrow> gasnet_deallocate pv p Foot_user s; Some (Inl Thrown, s) }
       else do { g \<leftarrow> own_gptr pr ty p; Some (Inr g, log_events [Ctor ty p] s) }
     }"

definition delete_obj :: "process \<Rightarrow> 'h provider \<Rightarrow> obj_type \<Rightarrow> global_ptr \<Rightarrow> 'h sheap \<Rightarrow> 'h sheap option" where
  "delete_obj pr pv ty g s =
     do {
       _ \<leftarrow> gptr_chk pr (elt ty) g;
       if \<not> not_null g then Some s
       else if gp_rank g \<noteq> rank_me pr then None
       else gasnet_deallocate pv (raw_ptr g) Foot_user (log_events [Dtor ty (raw_ptr g)] s)
     }"

subsection \<open>Arrays\<close>

text \<open>The number of elements lies in front of the first one: \<open>(size + alignof(T)-1) & -alignof(T)\<close>.\<close>

definition array_offset :: "obj_type \<Rightarrow> u64" where
  "array_offset ty = (8 + align_of ty - 1) AND - align_of ty"

text \<open>The loop of constructors over the elements that are left: the events, and the number of elements done if one throws.\<close>

fun construct_loop :: "obj_type \<Rightarrow> u64 \<Rightarrow> nat \<Rightarrow> nat \<Rightarrow> nat option \<Rightarrow> lifetime list \<times> nat option" where
  "construct_loop ty p i 0 t = ([], None)"
| "construct_loop ty p i (Suc k) t =
     (if t = Some i then ([], Some i)
      else let (ev, e) = construct_loop ty (p + size_of ty) (Suc i) k t in (Ctor ty p # ev, e))"

text \<open>The loop backwards over \<open>i\<close> constructed elements, and the loop forwards over \<open>k\<close> elements.\<close>

primrec destroy_back :: "obj_type \<Rightarrow> u64 \<Rightarrow> nat \<Rightarrow> lifetime list" where
  "destroy_back ty elts 0 = []"
| "destroy_back ty elts (Suc i) = Dtor ty (elts + of_nat i * size_of ty) # destroy_back ty elts i"

primrec destroy_loop :: "obj_type \<Rightarrow> nat \<Rightarrow> u64 \<Rightarrow> lifetime list" where
  "destroy_loop ty 0 p = []"
| "destroy_loop ty (Suc k) p = Dtor ty p # destroy_loop ty k (p + size_of ty)"

definition new_array :: "bool \<Rightarrow> process \<Rightarrow> 'h provider \<Rightarrow> obj_type \<Rightarrow> nat option \<Rightarrow> u64 \<Rightarrow> 'h sheap \<Rightarrow> ((alloc_exn + global_ptr) \<times> 'h sheap) option" where
  "new_array throws pr pv ty t n s =
     (let fail = (\<lambda>e s. if throws then Some (Inl e, s) else do { g \<leftarrow> null_gptr pr (elt ty); Some (Inr g, s) });
          offset = array_offset ty
      in if n > (- 1 - offset) div size_of ty then fail (Unrepresentable n) s
         else do {
           let sz = offset + n * size_of ty;
           (p, s) \<leftarrow> allocate_or_null pv sz (max 8 (align_of ty)) Foot_user s;
           if p = 0 then fail (Bad_shared_alloc sz) s
           else
             let s = write64 p n s;
                 elts = p + offset;
                 (ev, e) = (if triv_ctor ty then ([], None) else construct_loop ty elts 0 (unat n) t);
                 s = log_events ev s
             in case e of
                  None \<Rightarrow> do { g \<leftarrow> own_gptr pr ty elts; Some (Inr g, s) }
                | Some i \<Rightarrow>
                    do {
                      let s = (if triv_dtor ty then s else log_events (destroy_back ty elts i) s);
                      s \<leftarrow> gasnet_deallocate pv p Foot_user s;
                      Some (Inl Thrown, s)
                    }
         })"

definition delete_array :: "process \<Rightarrow> 'h provider \<Rightarrow> obj_type \<Rightarrow> global_ptr \<Rightarrow> 'h sheap \<Rightarrow> 'h sheap option" where
  "delete_array pr pv ty g s =
     do {
       _ \<leftarrow> gptr_chk pr (elt ty) g;
       if \<not> not_null g then Some s
       else if gp_rank g \<noteq> rank_me pr then None
       else do {
         tptr \<leftarrow> local_ptr pr (elt ty) g;
         let p = tptr - array_offset ty;
         let s = (if triv_dtor ty then s else log_events (destroy_loop ty (unat (load64 p (byte_at s))) tptr) s);
         gasnet_deallocate pv p Foot_user s
       }
     }"

end
