(* ===== verification/Shared_Heap_Correct.thy ===== *)
theory Shared_Heap_Correct
  imports Shared_Alloc Global_Ptr_Correct
begin

unbundle bit_operations_syntax

text \<open>
  Buffers of the shared heap over either allocator: what the allocators below promise, the user blocks that a heap backs,
  and that allocation and deallocation keep headers, blocks and counters in agreement.
\<close>

subsection \<open>Words in memory\<close>

lemma store64_at: "store64 a v m x = (if unat (x - a) < 8 then ucast (drop_bit (8 * unat (x - a)) v) else m x)"
proof -
  have "fold (\<lambda>i m. m(a + of_nat i := ucast (drop_bit (8 * i) v))) [0..<k] m x =
      (if unat (x - a) < k then ucast (drop_bit (8 * unat (x - a)) v) else m x)" if "k \<le> 8" for k
    using that
  proof (induction k)
    case (Suc k)
    have "x = a + of_nat k \<longleftrightarrow> unat (x - a) = k"
    proof
      assume "x = a + of_nat k"
      then show "unat (x - a) = k" using Suc.prems by (simp add: unat_word_of_nat64)
    next
      assume "unat (x - a) = k"
      then have "of_nat k = x - a" by auto
      then show "x = a + of_nat k" by simp
    qed
    then show ?case using Suc by auto
  qed simp
  from this[of 8] show ?thesis by (simp add: store64_def)
qed

lemma bytes_joined:
  fixes f :: "nat \<Rightarrow> u8"
  shows "bit (foldr (\<lambda>i (w :: u64). push_bit 8 w OR ucast (f i)) [k..<n] 0) j \<longleftrightarrow>
    j < 64 \<and> j div 8 < n - k \<and> bit (f (k + j div 8)) (j mod 8)"
proof (induction "n - k" arbitrary: k j)
  case (Suc d)
  then have k: "[k..<n] = k # [Suc k..<n]" "n - Suc k = d" by (auto simp: upt_rec[of k n])
  show ?case
  proof (cases "j < 8")
    case True
    then show ?thesis using Suc.hyps(2) by (auto simp: k(1) bit_simps)
  next
    case False
    have "j mod 8 = (j - 8) mod 8" "j div 8 = Suc ((j - 8) div 8)" using False by (simp_all add: le_mod_geq le_div_geq)
    moreover have "\<not> bit (f k) j" using False by (auto dest: bit_imp_le_length)
    ultimately show ?thesis using Suc.hyps(1)[of "Suc k" "j - 8"] Suc.hyps(2) False by (auto simp: k bit_simps)
  qed
qed simp

lemma bit_load64: "bit (load64 a m) j \<longleftrightarrow> j < 64 \<and> bit (m (a + of_nat (j div 8))) (j mod 8)"
  unfolding load64_def bytes_joined[of "\<lambda>i. m (a + of_nat i)"] by auto

lemma load_store64 [simp]: "load64 a (store64 a v m) = v"
proof (rule bit_word_eqI)
  fix j assume "j < LENGTH(64)"
  then have j: "j < 64" "j div 8 < 8" by auto
  then have "unat (of_nat (j div 8) :: u64) = j div 8" by (simp add: unat_word_of_nat64)
  then have "store64 a v m (a + of_nat (j div 8)) = ucast (drop_bit (8 * (j div 8)) v)" using j by (simp add: store64_at)
  moreover have "8 * (j div 8) + j mod 8 = j" by simp
  ultimately show "bit (load64 a (store64 a v m)) j = bit v j" using j by (simp add: bit_load64 bit_simps)
qed

lemma load64_cong: "(\<And>i. i < 8 \<Longrightarrow> m' (a + of_nat i) = m (a + of_nat i)) \<Longrightarrow> load64 a m' = load64 a m"
  by (rule bit_word_eqI) (simp add: bit_load64)

subsection \<open>The allocators below\<close>

definition span :: "u64 \<Rightarrow> nat \<Rightarrow> nat set" where
  "span p n = {unat p..<unat p + n}"

definition blocks_ok :: "(u64 \<rightharpoonup> nat) \<Rightarrow> u64 \<times> u64 \<Rightarrow> bool" where
  "blocks_ok B rng \<longleftrightarrow>
     unat (fst rng) + unat (snd rng) < 2 ^ 64 \<and>
     (\<forall>p k. B p = Some k \<longrightarrow> p \<noteq> 0 \<and> unat (fst rng) \<le> unat p \<and> unat p + k \<le> unat (fst rng) + unat (snd rng)) \<and>
     (\<forall>p q k l. B p = Some k \<longrightarrow> B q = Some l \<longrightarrow> p \<noteq> q \<longrightarrow> span p k \<inter> span q l = {})"

definition align_pow2 :: "u64 \<Rightarrow> bool" where
  "align_pow2 a \<longleftrightarrow> (\<exists>j < 31. a = 2 ^ j)"

text \<open>
  What the code relies on, with \<open>B\<close> the blocks of a state of the allocator: a new block has the size and alignment asked for and
  lies in the segment apart from the others, failure changes no block, the usable size is that of the block, and freeing removes it.
  Blocks of the UPC runtime are aligned to 16 bytes.
\<close>

definition provider_ok :: "'h provider \<Rightarrow> ('h \<Rightarrow> u64 \<rightharpoonup> nat) \<Rightarrow> u64 \<times> u64 \<Rightarrow> bool" where
  "provider_ok pv B rng \<longleftrightarrow>
     (\<forall>al n h p h'. mspace_memalign pv al n h = (p, h') \<longrightarrow> blocks_ok (B h) rng \<longrightarrow> align_pow2 al \<longrightarrow>
        (p = 0 \<and> B h' = B h) \<or>
        (\<exists>k \<ge> unat n. unat p mod unat al = 0 \<and> B h p = None \<and> B h' = (B h)(p \<mapsto> k) \<and> blocks_ok (B h') rng)) \<and>
     (\<forall>n h p h'. upc_alloc pv n h = Some (p, h') \<longrightarrow> blocks_ok (B h) rng \<longrightarrow>
        (\<exists>k \<ge> unat n. unat p mod 16 = 0 \<and> B h p = None \<and> B h' = (B h)(p \<mapsto> k) \<and> blocks_ok (B h') rng)) \<and>
     (\<forall>h p k. B h p = Some k \<longrightarrow>
        mspace_usable_size pv p h = of_nat k \<and> B (mspace_free pv p h) = (B h)(p := None) \<and> B (upc_free pv p h) = (B h)(p := None))"

lemma provider_okD:
  assumes "provider_ok pv B rng"
  shows "mspace_memalign pv al n h = (p, h') \<Longrightarrow> blocks_ok (B h) rng \<Longrightarrow> align_pow2 al \<Longrightarrow>
      (p = 0 \<and> B h' = B h) \<or> (\<exists>k \<ge> unat n. unat p mod unat al = 0 \<and> B h p = None \<and> B h' = (B h)(p \<mapsto> k) \<and> blocks_ok (B h') rng)"
    "upc_alloc pv n h = Some (p, h') \<Longrightarrow> blocks_ok (B h) rng \<Longrightarrow>
      \<exists>k \<ge> unat n. unat p mod 16 = 0 \<and> B h p = None \<and> B h' = (B h)(p \<mapsto> k) \<and> blocks_ok (B h') rng"
    "B h p = Some k \<Longrightarrow> mspace_usable_size pv p h = of_nat k"
    "B h p = Some k \<Longrightarrow> B (mspace_free pv p h) = (B h)(p := None)"
    "B h p = Some k \<Longrightarrow> B (upc_free pv p h) = (B h)(p := None)"
  using assms unfolding provider_ok_def by blast+

lemma blocks_okD:
  assumes "blocks_ok B rng" "B p = Some k"
  shows "p \<noteq> 0" "unat (fst rng) \<le> unat p" "unat p + k \<le> unat (fst rng) + unat (snd rng)" "unat p + k < 2 ^ 64"
  using assms unfolding blocks_ok_def by (blast, blast, blast, fastforce)

lemma blocks_ok_remove: "blocks_ok B rng \<Longrightarrow> blocks_ok (B(p := None)) rng"
  unfolding blocks_ok_def by (auto split: if_splits)

lemma align_pow2_pos: "align_pow2 a \<Longrightarrow> 0 < unat a" "align_pow2 a \<Longrightarrow> unat a \<le> 2 ^ 30"
proof -
  have u: "unat (2 ^ j :: u64) = 2 ^ j" if "j < 31" for j
  proof -
    have "(2 :: nat) ^ j < 2 ^ 64" using that by (intro power_strict_increasing) auto
    then show ?thesis using unat_word_of_nat64[of "2 ^ j"] by simp
  qed
  show "align_pow2 a \<Longrightarrow> 0 < unat a" using u by (auto simp: align_pow2_def)
  assume "align_pow2 a"
  then obtain j where j: "j < 31" "a = 2 ^ j" by (auto simp: align_pow2_def)
  then have "(2 :: nat) ^ j \<le> 2 ^ 30" by (intro power_increasing) auto
  then show "unat a \<le> 2 ^ 30" using u j by simp
qed

lemma align_pow2_max: "align_pow2 a \<Longrightarrow> align_pow2 b \<Longrightarrow> align_pow2 (max a b)"
  by (simp add: max_def)

lemma align_pow2_16: "align_pow2 16"
  unfolding align_pow2_def by (intro exI[of _ 4]) simp

lemma align_pow2_8: "align_pow2 8"
  unfolding align_pow2_def by (intro exI[of _ 3]) simp

lemma align_pow2_checks:
  assumes "align_pow2 a"
  shows "a < push_bit 31 1" "a AND (a - 1) = 0" "NOT (a - 1) = - a" "unat (x AND - a) = unat x - unat x mod unat a"
proof -
  obtain j where j: "j < 31" "a = 2 ^ j" using assms by (auto simp: align_pow2_def)
  have m: "a - 1 = mask j" by (simp add: j mask_eq_exp_minus_1)
  have "(push_bit 31 1 :: u64) = 2147483648" by (simp add: push_bit_eq_mult)
  then show "a < push_bit 31 1" using align_pow2_pos(2)[OF assms] by (simp add: word_less_nat_alt)
  show "a AND (a - 1) = 0" unfolding m by (rule bit_word_eqI) (auto simp: j(2) bit_simps)
  show "NOT (a - 1) = - a" unfolding m by (simp add: j(2) minus_exp_eq_not_mask)
  have "unat a = 2 ^ j"
  proof -
    have "(2 :: nat) ^ j < 2 ^ 64" using j(1) by (intro power_strict_increasing) auto
    then show ?thesis using unat_word_of_nat64[of "2 ^ j"] by (simp add: j(2))
  qed
  then show "unat (x AND - a) = unat x - unat x mod unat a" using unat_and_uminus_power[of x j] by (simp add: j(2))
qed

lemma align_pow2_dvd: "align_pow2 a \<Longrightarrow> align_pow2 b \<Longrightarrow> a \<le> b \<Longrightarrow> unat a dvd unat b"
proof -
  assume ab: "align_pow2 a" "align_pow2 b" "a \<le> b"
  have u: "unat (2 ^ j :: u64) = 2 ^ j" if "j < 31" for j
  proof -
    have "(2 :: nat) ^ j < 2 ^ 64" using that by (intro power_strict_increasing) auto
    then show ?thesis using unat_word_of_nat64[of "2 ^ j"] by simp
  qed
  obtain i j where "i < 31" "a = 2 ^ i" "j < 31" "b = 2 ^ j" using ab(1,2) by (auto simp: align_pow2_def)
  then show ?thesis using ab(3) u by (auto simp: word_le_nat_alt intro: le_imp_power_dvd)
qed

subsection \<open>User blocks\<close>

text \<open>A user block: its bytes, the block below, the counter that it is charged to and what it is charged.\<close>

record ublock =
  ub_bytes :: nat
  ub_base :: u64
  ub_foot :: foot
  ub_charge :: u64

definition placed :: "('h \<Rightarrow> u64 \<rightharpoonup> nat) \<Rightarrow> 'h sheap \<Rightarrow> u64 \<Rightarrow> ublock \<Rightarrow> bool" where
  "placed B s p u \<longleftrightarrow>
     (\<exists>k. B (backing s) (ub_base u) = Some k \<and> unat (ub_base u) \<le> unat p \<and> unat p + ub_bytes u \<le> unat (ub_base u) + k \<and>
        (if use_upc_alloc s
         then unat (ub_base u) + 16 \<le> unat p \<and> unat p mod 16 = 0 \<and>
              load64 (p - 8) (byte_at s) = p - ub_base u \<and> load64 (p - 16) (byte_at s) = ub_charge u
         else p = ub_base u \<and> ub_charge u = of_nat k))"

definition tally :: "(u64 \<rightharpoonup> ublock) \<Rightarrow> foot \<Rightarrow> sheap_footprint" where
  "tally U f =
     \<lparr>fp_count = (\<Sum>p \<in> dom U. if ub_foot (the (U p)) = f then 1 else 0),
      fp_bytes = (\<Sum>p \<in> dom U. if ub_foot (the (U p)) = f then ub_charge (the (U p)) else 0)\<rparr>"

definition backs :: "('h \<Rightarrow> u64 \<rightharpoonup> nat) \<Rightarrow> u64 \<times> u64 \<Rightarrow> (u64 \<rightharpoonup> ublock) \<Rightarrow> 'h sheap \<Rightarrow> bool" where
  "backs B rng U s \<longleftrightarrow>
     shared_heap_isinit s \<and> blocks_ok (B (backing s)) rng \<and> finite (dom U) \<and>
     (\<forall>p q u v. U p = Some u \<longrightarrow> U q = Some v \<longrightarrow> p \<noteq> q \<longrightarrow> ub_base u \<noteq> ub_base v) \<and>
     (\<forall>p u. U p = Some u \<longrightarrow> placed B s p u) \<and> footprint s = tally U"

lemma tally_insert:
  assumes "finite (dom U)" "U p = None"
  shows "tally (U(p \<mapsto> u)) = (tally U)(ub_foot u := \<lparr>fp_count = fp_count (tally U (ub_foot u)) + 1, fp_bytes = fp_bytes (tally U (ub_foot u)) + ub_charge u\<rparr>)"
proof -
  have p: "p \<notin> dom U" using assms(2) by auto
  have "(\<Sum>q \<in> dom U. g (the ((U(p \<mapsto> u)) q))) = (\<Sum>q \<in> dom U. g (the (U q)))" for g :: "ublock \<Rightarrow> u64"
    using p by (intro sum.cong) auto
  note e = this[of "\<lambda>v. if ub_foot v = f then 1 else 0" for f] this[of "\<lambda>v. if ub_foot v = f then ub_charge v else 0" for f]
  show ?thesis by (rule ext) (use assms(1) p e in \<open>auto simp: tally_def add.commute\<close>)
qed

lemma tally_remove:
  assumes "finite (dom U)" "U p = Some u"
  shows "tally (U(p := None)) = (tally U)(ub_foot u := \<lparr>fp_count = fp_count (tally U (ub_foot u)) - 1, fp_bytes = fp_bytes (tally U (ub_foot u)) - ub_charge u\<rparr>)"
proof -
  have f: "finite (dom (U(p := None)))" using assms(1) by simp
  have e: "(U(p := None))(p \<mapsto> u) = U" using assms(2) by (auto simp: fun_eq_iff)
  have h: "tally U = (tally (U(p := None)))(ub_foot u := \<lparr>fp_count = fp_count (tally (U(p := None)) (ub_foot u)) + 1,
      fp_bytes = fp_bytes (tally (U(p := None)) (ub_foot u)) + ub_charge u\<rparr>)"
    using tally_insert[OF f, of p u] unfolding e by simp
  show ?thesis unfolding h by (rule ext) simp
qed

text \<open>The bytes of a user block, its header included, lie in its own block.\<close>

lemma ublock_inside:
  assumes b: "backs B rng U s" and p: "U p = Some u"
  obtains k where "B (backing s) (ub_base u) = Some k" "span p (ub_bytes u) \<subseteq> span (ub_base u) k"
    "use_upc_alloc s \<Longrightarrow> {unat p - 16..<unat p} \<subseteq> span (ub_base u) k \<and> 16 \<le> unat p"
proof -
  have pl: "placed B s p u" using b p by (auto simp: backs_def)
  then obtain k where k: "B (backing s) (ub_base u) = Some k" "unat (ub_base u) \<le> unat p" "unat p + ub_bytes u \<le> unat (ub_base u) + k"
      "use_upc_alloc s \<Longrightarrow> unat (ub_base u) + 16 \<le> unat p"
    unfolding placed_def by (auto split: if_splits)
  show ?thesis
  proof (rule that[OF k(1)])
    show "span p (ub_bytes u) \<subseteq> span (ub_base u) k" using k(2,3) by (auto simp: span_def)
    show "{unat p - 16..<unat p} \<subseteq> span (ub_base u) k \<and> 16 \<le> unat p" if "use_upc_alloc s" using k(3) k(4)[OF that] by (auto simp: span_def)
  qed
qed

lemma blocks_apart:
  assumes b: "backs B rng U s" and p: "U p = Some u" "U q = Some v" "p \<noteq> q" and k: "B (backing s) (ub_base u) = Some k" "B (backing s) (ub_base v) = Some l"
  shows "span (ub_base u) k \<inter> span (ub_base v) l = {}"
proof -
  have "ub_base u \<noteq> ub_base v" using b p unfolding backs_def by blast
  then show ?thesis using b k unfolding backs_def blocks_ok_def by blast
qed

lemma user_blocks_apart:
  assumes "backs B rng U s" "U p = Some u" "U q = Some v" "p \<noteq> q"
  shows "span p (ub_bytes u) \<inter> span q (ub_bytes v) = {}"
proof -
  obtain k where k: "B (backing s) (ub_base u) = Some k" "span p (ub_bytes u) \<subseteq> span (ub_base u) k" using ublock_inside[OF assms(1,2)] by metis
  obtain l where l: "B (backing s) (ub_base v) = Some l" "span q (ub_bytes v) \<subseteq> span (ub_base v) l" using ublock_inside[OF assms(1,3)] by metis
  show ?thesis using blocks_apart[OF assms k(1) l(1)] k(2) l(2) by blast
qed

text \<open>Headers survive changes of bytes outside of them.\<close>

lemma load_before:
  assumes "16 \<le> unat p" "\<And>a. unat a \<in> {unat p - 16..<unat p} \<Longrightarrow> m' a = m (a :: u64)"
  shows "load64 (p - 8) m' = load64 (p - 8) m" "load64 (p - 16) m' = load64 (p - 16) m"
proof -
  have u: "unat (p - d + of_nat i) = unat p - unat d + i" if "unat d \<le> 16" "i < 8" "8 \<le> unat d" for d i
  proof -
    have "unat (p - d) = unat p - unat d" using that assms(1) by (simp add: unat_sub word_le_nat_alt)
    moreover have "unat (of_nat i :: u64) = i" using that by (simp add: unat_word_of_nat64)
    moreover have "unat p - unat d + i < 18446744073709551616" using that assms(1) unat_lt64[of p] by linarith
    ultimately show ?thesis by (simp add: unat_add_no_wrap)
  qed
  show "load64 (p - 8) m' = load64 (p - 8) m" using u[of 8] assms by (intro load64_cong assms(2)) auto
  show "load64 (p - 16) m' = load64 (p - 16) m" using u[of 16] assms by (intro load64_cong assms(2)) auto
qed

lemma backs_bytes:
  assumes b: "backs B rng U s"
    and m: "\<And>p u a. use_upc_alloc s \<Longrightarrow> U p = Some u \<Longrightarrow> unat a \<in> {unat p - 16..<unat p} \<Longrightarrow> m a = byte_at s a"
  shows "backs B rng U (s\<lparr>byte_at := m\<rparr>)"
proof -
  have "placed B (s\<lparr>byte_at := m\<rparr>) p u" if p: "U p = Some u" for p u
  proof -
    have pl: "placed B s p u" using b p by (auto simp: backs_def)
    show ?thesis
    proof (cases "use_upc_alloc s")
      case True
      obtain k where "16 \<le> unat p" using ublock_inside[OF b p] True by metis
      note l = load_before[OF this, of m "byte_at s"]
      show ?thesis using pl l m[OF True p] by (auto simp: placed_def True)
    next
      case False
      then show ?thesis using pl by (simp add: placed_def)
    qed
  qed
  then show ?thesis using b by (auto simp: backs_def)
qed

lemma store64_outside:
  assumes "unat p + 8 \<le> 2 ^ 64" "unat a \<notin> {unat p..<unat p + 8}"
  shows "store64 p v m a = m a"
proof -
  have "\<not> unat (a - p) < 8"
  proof
    assume u: "unat (a - p) < 8"
    have "unat (p + (a - p)) = unat p + unat (a - p)" using u assms(1) by (intro unat_add_no_wrap) simp
    then show False using u assms(2) by auto
  qed
  then show ?thesis by (simp add: store64_at)
qed

subsection \<open>Allocation\<close>

lemma word_mod_zero: "unat (p :: u64) mod unat al = 0 \<Longrightarrow> p mod al = 0"
  by (simp add: unat_mod flip: unat_eq_zero)

text \<open>A new block below, with a user block in it.\<close>

lemma backs_insert:
  assumes b: "backs B rng U s" and h: "B (backing s) (ub_base u) = None" "B (backing s') = (B (backing s))(ub_base u \<mapsto> k)" "blocks_ok (B (backing s')) rng"
    and s': "shared_heap_isinit s'" "use_upc_alloc s' = use_upc_alloc s" "footprint s' = footprint (charge (ub_foot u) (ub_charge u) s)"
    and m: "\<And>a. unat a \<notin> span (ub_base u) k \<Longrightarrow> byte_at s' a = byte_at s a" and p: "placed B s' p u"
  shows "U p = None" "backs B rng (U(p \<mapsto> u)) s'"
    "\<forall>q v a. U q = Some v \<longrightarrow> unat a \<in> span q (ub_bytes v) \<longrightarrow> byte_at s' a = byte_at s a"
proof -
  have other: "ub_base v \<noteq> ub_base u" "B (backing s') (ub_base v) = B (backing s) (ub_base v)" if "U q = Some v" for q v
    using ublock_inside[OF b that] h(1,2) by (metis fun_upd_other option.distinct(1))+
  have ap: "span (ub_base v) l \<inter> span (ub_base u) k = {}" if "U q = Some v" "B (backing s) (ub_base v) = Some l" for q v l
    using h(2,3) other[OF that(1)] that(2) unfolding blocks_ok_def by (metis fun_upd_same)
  have keep: "placed B s' q v" if q: "U q = Some v" for q v
  proof -
    obtain l where l: "B (backing s) (ub_base v) = Some l" "use_upc_alloc s \<Longrightarrow> {unat q - 16..<unat q} \<subseteq> span (ub_base v) l \<and> 16 \<le> unat q"
      using ublock_inside[OF b q] by metis
    have pl: "placed B s q v" using b q by (auto simp: backs_def)
    show ?thesis
    proof (cases "use_upc_alloc s")
      case True
      have "byte_at s' a = byte_at s a" if "unat a \<in> {unat q - 16..<unat q}" for a :: u64
        using that l(2)[OF True] ap[OF q l(1)] by (intro m) blast
      then have "load64 (q - 8) (byte_at s') = load64 (q - 8) (byte_at s)" "load64 (q - 16) (byte_at s') = load64 (q - 16) (byte_at s)"
        using load_before[of q "byte_at s'" "byte_at s"] l(2)[OF True] by blast+
      then show ?thesis using pl other(2)[OF q] s'(2) True by (simp add: placed_def)
    qed (use pl other(2)[OF q] s'(2) in \<open>simp add: placed_def\<close>)
  qed
  show n: "U p = None"
  proof (rule ccontr)
    assume "U p \<noteq> None"
    then obtain v where v: "U p = Some v" by auto
    obtain l where l: "B (backing s) (ub_base v) = Some l" using ublock_inside[OF b v] by metis
    show False
    proof (cases "use_upc_alloc s")
      case True
      have "unat (ub_base w) + 16 \<le> unat p \<and> unat p \<le> unat (ub_base w) + j" if "placed B s' p w" "B (backing s') (ub_base w) = Some j" for w j
        using that s'(2) True by (auto simp: placed_def)
      from this[OF p] this[OF keep[OF v]] have "unat p - 1 \<in> span (ub_base u) k" "unat p - 1 \<in> span (ub_base v) l"
        using h(2) l other(2)[OF v] by (fastforce simp: span_def)+
      then show False using ap[OF v l] by blast
    next
      case False
      then have "p = ub_base u" "p = ub_base v" using p keep[OF v] s'(2) by (auto simp: placed_def)
      then show False using other(1)[OF v] by simp
    qed
  qed
  have fin: "finite (dom U)" using b by (simp add: backs_def)
  have "footprint s' = tally (U(p \<mapsto> u))" using tally_insert[OF fin n, of u] s'(3) b by (simp add: backs_def charge_def)
  moreover have "ub_base v \<noteq> ub_base w" if "(U(p \<mapsto> u)) q = Some v" "(U(p \<mapsto> u)) r = Some w" "q \<noteq> r" for q r v w
    using that b other(1) unfolding backs_def by (metis fun_upd_other fun_upd_same option.inject)
  moreover have "placed B s' q v" if "(U(p \<mapsto> u)) q = Some v" for q v using that p keep by (cases "q = p") auto
  ultimately show "backs B rng (U(p \<mapsto> u)) s'" using h(3) s'(1) fin unfolding backs_def by auto
  show "\<forall>q v a. U q = Some v \<longrightarrow> unat a \<in> span q (ub_bytes v) \<longrightarrow> byte_at s' a = byte_at s a"
  proof (intro allI impI)
    fix q v and a :: u64 assume q: "U q = Some v" "unat a \<in> span q (ub_bytes v)"
    obtain l where l: "B (backing s) (ub_base v) = Some l" "span q (ub_bytes v) \<subseteq> span (ub_base v) l" using ublock_inside[OF b q(1)] by metis
    then show "byte_at s' a = byte_at s a" using ap[OF q(1) l(1)] q(2) by (intro m) blast
  qed
qed

text \<open>What an allocation of \<open>sz\<close> bytes brings about.\<close>

definition allocated :: "('h \<Rightarrow> u64 \<rightharpoonup> nat) \<Rightarrow> u64 \<times> u64 \<Rightarrow> (u64 \<rightharpoonup> ublock) \<Rightarrow> foot \<Rightarrow> u64 \<Rightarrow> u64 \<Rightarrow> 'h sheap \<Rightarrow> u64 \<Rightarrow> 'h sheap \<Rightarrow> bool" where
  "allocated B rng U f sz al s p s' \<longleftrightarrow>
     events s' = events s \<and>
     (if p = 0 then backs B rng U s' \<and> byte_at s' = byte_at s
      else unat p mod unat al = 0 \<and> U p = None \<and> (\<exists>u. ub_foot u = f \<and> unat sz \<le> ub_bytes u \<and> backs B rng (U(p \<mapsto> u)) s') \<and>
           (\<forall>q v a. U q = Some v \<longrightarrow> unat a \<in> span q (ub_bytes v) \<longrightarrow> byte_at s' a = byte_at s a))"

lemma mspace_allocate_good:
  assumes pv: "provider_ok pv B rng" and b: "backs B rng U s" and al: "align_pow2 al" and md: "\<not> use_upc_alloc s"
  shows "\<exists>p s'. mspace_allocate pv sz al f s = Some (p, s') \<and> allocated B rng U f sz al s p s'"
proof -
  obtain p h where ph: "mspace_memalign pv al sz (backing s) = (p, h)" by (cases "mspace_memalign pv al sz (backing s)") auto
  have bo: "blocks_ok (B (backing s)) rng" using b by (simp add: backs_def)
  show ?thesis
  proof (cases "p = 0")
    case True
    have "\<not> (B h = (B (backing s))(p \<mapsto> k) \<and> blocks_ok (B h) rng)" for k using blocks_okD(1)[of "B h" rng p] True by auto
    with provider_okD(1)[OF pv ph bo al] have "B h = B (backing s)" by blast
    then have "placed B (s\<lparr>backing := h\<rparr>) = placed B s" by (simp add: fun_eq_iff placed_def)
    then have "backs B rng U (s\<lparr>backing := h\<rparr>)" using b \<open>B h = B (backing s)\<close> by (simp add: backs_def)
    then show ?thesis using True by (simp add: mspace_allocate_def ph allocated_def)
  next
    case False
    with provider_okD(1)[OF pv ph bo al] obtain k where
      k: "unat sz \<le> k" "unat p mod unat al = 0" "B (backing s) p = None" "B h = (B (backing s))(p \<mapsto> k)" "blocks_ok (B h) rng"
      by auto
    let ?u = "\<lparr>ub_bytes = k, ub_base = p, ub_foot = f, ub_charge = of_nat k\<rparr>"
    let ?s = "charge f (of_nat k) (s\<lparr>backing := h\<rparr>)"
    have "mspace_usable_size pv p h = of_nat k" using provider_okD(3)[OF pv] k(4) by simp
    moreover have "p mod al = 0" using k(2) by (rule word_mod_zero)
    ultimately have a: "mspace_allocate pv sz al f s = Some (p, ?s)" using False by (simp add: mspace_allocate_def ph)
    have i: "shared_heap_isinit s" using b by (simp add: backs_def)
    have pl: "placed B ?s p ?u" using k(4) md by (simp add: placed_def charge_def)
    have "U p = None" "backs B rng (U(p \<mapsto> ?u)) ?s"
      by (rule backs_insert[OF b, of ?u ?s k p, OF _ _ _ _ _ _ _ pl]; use k(3-5) i in \<open>simp add: charge_def\<close>)+
    then have "allocated B rng U f sz al s p ?s"
      unfolding allocated_def using False k(1,2) by (auto simp: charge_def intro!: exI[of _ ?u])
    with a show ?thesis by blast
  qed
qed

text \<open>The address that the padding leads to.\<close>

lemma pad_up:
  assumes al: "align_pow2 al" "16 \<le> al" and base: "unat base mod 16 = 0" "unat base + unat al < 2 ^ 64"
  defines "user \<equiv> (base + al) AND NOT (al - 1)"
  shows "unat base + 16 \<le> unat user" "unat user \<le> unat base + unat al" "unat user mod unat al = 0" "unat user mod 16 = 0"
    "16 \<le> user - base" "user - base \<le> al"
proof -
  have u: "unat user = unat base + unat al - (unat base + unat al) mod unat al"
    unfolding user_def align_pow2_checks(3)[OF al(1)] align_pow2_checks(4)[OF al(1)] using base(2) by (simp add: unat_add_no_wrap)
  have d: "16 dvd unat al" using align_pow2_dvd[OF align_pow2_16 al] by simp
  then have "16 dvd unat base mod unat al" using base(1) by (simp add: dvd_mod mod_eq_0_iff_dvd)
  moreover have lt: "unat base mod unat al < unat al" using align_pow2_pos(1)[OF al(1)] by simp
  ultimately have r: "unat base mod unat al + 16 \<le> unat al" using d by (auto elim!: dvdE)
  have r0: "(unat base + unat al) mod unat al = unat base mod unat al" by simp
  show a: "unat base + 16 \<le> unat user" using r unfolding u r0 by linarith
  show c: "unat user \<le> unat base + unat al" unfolding u by simp
  show m: "unat user mod unat al = 0" unfolding u minus_mod_eq_mult_div by simp
  show "unat user mod 16 = 0" using m d by (meson dvd_trans mod_eq_0_iff_dvd)
  have "unat (user - base) = unat user - unat base" using a by (intro unat_sub) (simp add: word_le_nat_alt)
  then show "16 \<le> user - base" "user - base \<le> al" using a c by (simp_all add: word_le_nat_alt)
qed

lemma header_words:
  fixes m :: "u64 \<Rightarrow> u8" and x y :: u64
  assumes "16 \<le> unat user"
  defines "m' \<equiv> store64 (user - 16) x (store64 (user - 8) y m)"
  shows "load64 (user - 8) m' = y" "load64 (user - 16) m' = x" "unat a \<notin> {unat user - 16..<unat user} \<Longrightarrow> m' a = m a"
proof -
  have u: "unat (user - 16) = unat user - 16" "unat (user - 8) = unat user - 8" using assms(1) by (simp_all add: unat_sub word_le_nat_alt)
  have lim: "unat user - 8 + 8 \<le> 2 ^ 64" "unat user - 16 + 8 \<le> 2 ^ 64" using unat_lt64[of user] by (simp_all del: unat_lt64)
  have "unat (user - 8 + of_nat i) = unat user - 8 + i" if "i < 8" for i
  proof -
    have "unat (of_nat i :: u64) = i" using that by (simp add: unat_word_of_nat64)
    moreover have "unat user - 8 + i < 18446744073709551616" using that assms(1) unat_lt64[of user] by linarith
    ultimately show ?thesis using u(2) by (simp add: unat_add_no_wrap)
  qed
  then have "m' (user - 8 + of_nat i) = store64 (user - 8) y m (user - 8 + of_nat i)" if "i < 8" for i
    unfolding m'_def using that u lim assms(1) by (intro store64_outside) auto
  then have "load64 (user - 8) m' = load64 (user - 8) (store64 (user - 8) y m)" by (rule load64_cong)
  then show "load64 (user - 8) m' = y" by simp
  show "load64 (user - 16) m' = x" by (simp add: m'_def)
  show "m' a = m a" if "unat a \<notin> {unat user - 16..<unat user}"
  proof -
    have "m' a = store64 (user - 8) y m a" unfolding m'_def using that u lim assms(1) by (intro store64_outside) auto
    also have "\<dots> = m a" using that u lim assms(1) by (intro store64_outside) auto
    finally show ?thesis .
  qed
qed

lemma upc_allocate_good:
  assumes pv: "provider_ok pv B rng" and b: "backs B rng U s" and al: "align_pow2 al" and md: "use_upc_alloc s" and sz: "unat sz + unat (max al 16) < 2 ^ 64"
    and some: "upc_alloc pv (sz + max al 16) (backing s) \<noteq> None"
  shows "\<exists>p s'. upc_allocate pv sz al f s = Some (p, s') \<and> allocated B rng U f sz al s p s'"
proof -
  define A where "A = max al 16"
  have al': "align_pow2 A" "16 \<le> A" "al \<le> A" unfolding A_def by (rule align_pow2_max[OF al align_pow2_16], rule max.cobounded2, rule max.cobounded1)
  have szA: "unat sz + unat A < 2 ^ 64" using sz by (simp only: A_def)
  obtain base h where bh: "upc_alloc pv (sz + A) (backing s) = Some (base, h)" using some unfolding A_def[symmetric] by auto
  have bo: "blocks_ok (B (backing s)) rng" and i: "shared_heap_isinit s" using b by (simp_all add: backs_def)
  from provider_okD(2)[OF pv bh bo] obtain k where
    k: "unat (sz + A) \<le> k" "unat base mod 16 = 0" "B (backing s) base = None" "B h = (B (backing s))(base \<mapsto> k)" "blocks_ok (B h) rng"
    by (elim exE conjE) (rule that)
  have kk: "unat sz + unat A \<le> k" using k(1) unat_add_no_wrap[of sz A] szA by simp
  have "unat base + k < 2 ^ 64" using blocks_okD(4)[OF k(5), of base k] k(4) by simp
  then have "unat base + unat A < 2 ^ 64" using kk by linarith
  note u = pad_up[OF al'(1,2) k(2) this]
  let ?user = "(base + A) AND NOT (A - 1)"
  let ?s = "charge f (sz + A) (write64 (?user - 16) (sz + A) (write64 (?user - 8) (?user - base) (s\<lparr>backing := h\<rparr>)))"
  let ?u = "\<lparr>ub_bytes = unat sz, ub_base = base, ub_foot = f, ub_charge = sz + A\<rparr>"
  have a: "upc_allocate pv sz al f s = Some (?user, ?s)"
    using align_pow2_checks(1)[OF al] align_pow2_checks(2)[OF al'(1)] u(5,6) word_mod_zero[OF u(3)]
    by (simp add: upc_allocate_def Let_def bh A_def[symmetric] del: word_neq_0_conv)
  have u16: "16 \<le> unat ?user" using u(1) by linarith
  note hw = header_words[OF u16, where x = "sz + A" and y = "?user - base" and m = "byte_at s"]
  have pl: "placed B ?s ?user ?u"
    unfolding placed_def using k(4) md hw(1,2) u kk by (intro exI[of _ k]) (simp add: charge_def write64_def)
  have by_at: "byte_at ?s w = byte_at s w" if "unat w \<notin> span base k" for w
  proof -
    have "unat w \<notin> {unat ?user - 16..<unat ?user}" using that u(1,2) kk by (auto simp: span_def)
    from hw(3)[OF this] show ?thesis by (simp add: charge_def write64_def)
  qed
  have ins: "U ?user = None" "backs B rng (U(?user \<mapsto> ?u)) ?s"
      "\<forall>q v a. U q = Some v \<longrightarrow> unat a \<in> span q (ub_bytes v) \<longrightarrow> byte_at ?s a = byte_at s a"
    by (rule backs_insert[OF b, of ?u ?s k ?user, OF _ _ _ _ _ _ _ pl]; use k(3-5) i by_at in \<open>simp add: charge_def write64_def\<close>)+
  have "unat ?user mod unat al = 0"
    using u(3) dvd_trans[OF align_pow2_dvd[OF al al'(1,3)], of "unat ?user"] by (simp add: mod_eq_0_iff_dvd)
  moreover have "?user \<noteq> 0" using u16 by auto
  moreover have "events ?s = events s" by (simp add: charge_def write64_def)
  moreover have "ub_foot ?u = f" "unat sz \<le> ub_bytes ?u" by simp_all
  ultimately have "allocated B rng U f sz al s ?user ?s"
    unfolding allocated_def using ins by (metis (no_types, lifting))
  with a show ?thesis by blast
qed

lemma allocate_good:
  assumes pv: "provider_ok pv B rng" and b: "backs B rng U s" and al: "align_pow2 al" and sz: "use_upc_alloc s \<Longrightarrow> unat sz + unat (max al 16) < 2 ^ 64"
  shows "allocate_or_null pv sz al f s = Some (p, s') \<Longrightarrow> allocated B rng U f sz al s p s'"
    and "\<not> use_upc_alloc s \<Longrightarrow> allocate_or_null pv sz al f s \<noteq> None"
proof -
  have i: "shared_heap_isinit s" using b by (simp add: backs_def)
  show "\<not> use_upc_alloc s \<Longrightarrow> allocate_or_null pv sz al f s \<noteq> None"
    using mspace_allocate_good[OF pv b al, of sz f] i by (auto simp: allocate_or_null_def)
  assume r: "allocate_or_null pv sz al f s = Some (p, s')"
  show "allocated B rng U f sz al s p s'"
  proof (cases "use_upc_alloc s")
    case True
    have r': "upc_allocate pv sz al f s = Some (p, s')" using r i True by (simp add: allocate_or_null_def)
    then have "upc_alloc pv (sz + max al 16) (backing s) \<noteq> None" 
      unfolding upc_allocate_def Let_def by (cases "upc_alloc pv (sz + max al 16) (backing s)") (simp_all split: if_splits)
    from upc_allocate_good[OF pv b al True sz[OF True] this, of f] show ?thesis using r' by simp
  next
    case False
    from mspace_allocate_good[OF pv b al False, of sz f] show ?thesis using r i False by (simp add: allocate_or_null_def)
  qed
qed

subsection \<open>Deallocation\<close>

lemma backs_remove:
  assumes b: "backs B rng U s" and p: "U p = Some u" and h: "B (backing s') = (B (backing s))(ub_base u := None)"
    and s': "shared_heap_isinit s'" "use_upc_alloc s' = use_upc_alloc s" "footprint s' = footprint (discharge (ub_foot u) (ub_charge u) s)" "byte_at s' = byte_at s"
  shows "backs B rng (U(p := None)) s'"
proof -
  have fin: "finite (dom U)" using b by (simp add: backs_def)
  have "footprint s' = tally (U(p := None))" using tally_remove[OF fin p] s'(3) b by (simp add: backs_def discharge_def)
  moreover have "placed B s' q v" if q: "(U(p := None)) q = Some v" for q v
  proof -
    have v: "U q = Some v" "q \<noteq> p" using q by (auto split: if_splits)
    then have "ub_base v \<noteq> ub_base u" "placed B s q v" using b p unfolding backs_def by blast+
    moreover from this have "B (backing s') (ub_base v) = B (backing s) (ub_base v)" using h by simp
    ultimately show ?thesis using s'(2,4) unfolding placed_def by presburger
  qed
  moreover have "ub_base v \<noteq> ub_base w" if "(U(p := None)) q = Some v" "(U(p := None)) r = Some w" "q \<noteq> r" for q r v w
  proof -
    have "U q = Some v" "U r = Some w" using that by (auto split: if_splits)
    then show ?thesis using b that(3) unfolding backs_def by blast
  qed
  moreover have "blocks_ok (B (backing s')) rng" unfolding h using b by (intro blocks_ok_remove) (simp add: backs_def)
  ultimately show ?thesis using fin s'(1) unfolding backs_def by auto
qed

lemma deallocate_good:
  assumes pv: "provider_ok pv B rng" and b: "backs B rng U s" and p: "U p = Some u"
  shows "\<exists>s'. gasnet_deallocate pv p (ub_foot u) s = Some s' \<and> backs B rng (U(p := None)) s' \<and> events s' = events s \<and> byte_at s' = byte_at s"
proof -
  have i: "shared_heap_isinit s" and pl: "placed B s p u" and bo: "blocks_ok (B (backing s)) rng" using b p by (auto simp: backs_def)
  obtain k where k: "B (backing s) (ub_base u) = Some k" "unat (ub_base u) \<le> unat p" using pl by (auto simp: placed_def)
  have p0: "p \<noteq> 0" using blocks_okD(1)[OF bo k(1)] k(2) by (auto simp: unat_eq_zero)
  show ?thesis
  proof (cases "use_upc_alloc s")
    case True
    then have h: "load64 (p - 8) (byte_at s) = p - ub_base u" "load64 (p - 16) (byte_at s) = ub_charge u" "unat p mod 16 = 0" using pl by (auto simp: placed_def)
    let ?s = "discharge (ub_foot u) (ub_charge u) (s\<lparr>backing := upc_free pv (ub_base u) (backing s)\<rparr>)"
    have "p AND 3 = 0"
    proof -
      have "unat p mod 4 = 0" using h(3) by presburger
      then have "p mod 4 = 0" by (intro word_mod_zero) simp
      moreover have "p AND mask 2 = p mod 4" by (simp add: take_bit_eq_mod flip: take_bit_eq_mask)
      moreover have "(mask 2 :: u64) = 3" by (simp add: mask_eq_exp_minus_1)
      ultimately show ?thesis by simp
    qed
    then have "gasnet_deallocate pv p (ub_foot u) s = Some ?s" using i p0 True h by (simp add: gasnet_deallocate_def Let_def)
    moreover have "backs B rng (U(p := None)) ?s"
      by (rule backs_remove[OF b p]) (use provider_okD(5)[OF pv k(1)] i in \<open>simp_all add: discharge_def\<close>)
    ultimately show ?thesis by (simp add: discharge_def)
  next
    case False
    then have h: "p = ub_base u" "ub_charge u = of_nat k" using pl k(1) by (auto simp: placed_def)
    let ?s = "(discharge (ub_foot u) (ub_charge u) s)\<lparr>backing := mspace_free pv p (backing s)\<rparr>"
    have "mspace_usable_size pv p (backing s) = ub_charge u" using provider_okD(3)[OF pv k(1)] h by simp
    then have "gasnet_deallocate pv p (ub_foot u) s = Some ?s" using i p0 False by (simp add: gasnet_deallocate_def Let_def discharge_def)
    moreover have "backs B rng (U(p := None)) ?s"
      by (rule backs_remove[OF b p]) (use provider_okD(4)[OF pv k(1)] i h(1) in \<open>simp_all add: discharge_def\<close>)
    ultimately show ?thesis by (simp add: discharge_def)
  qed
qed

subsection \<open>Writes into user blocks\<close>

lemma backs_user_write:
  assumes b: "backs B rng U s" and p: "U p = Some u" and m: "\<And>a. unat a \<notin> span p (ub_bytes u) \<Longrightarrow> m a = byte_at s a"
  shows "backs B rng U (s\<lparr>byte_at := m\<rparr>)"
proof (rule backs_bytes[OF b])
  fix q v and a :: u64
  assume q: "use_upc_alloc s" "U q = Some v" "unat a \<in> {unat q - 16..<unat q}"
  show "m a = byte_at s a"
  proof (cases "q = p")
    case True
    then show ?thesis using q(3) by (intro m) (auto simp: span_def)
  next
    case False
    obtain k where k: "B (backing s) (ub_base u) = Some k" "span p (ub_bytes u) \<subseteq> span (ub_base u) k" using ublock_inside[OF b p] by metis
    obtain l where l: "B (backing s) (ub_base v) = Some l" "{unat q - 16..<unat q} \<subseteq> span (ub_base v) l" using ublock_inside[OF b q(2)] q(1) by metis
    show ?thesis using blocks_apart[OF b q(2) p False l(1) k(1)] k(2) l(2) q(3) by (intro m) blast
  qed
qed

lemma backs_log [simp]: "backs B rng U (log_events ev s) = backs B rng U s"
proof -
  have "placed B (log_events ev s) = placed B s" by (simp add: fun_eq_iff placed_def log_events_def)
  then show ?thesis by (simp add: backs_def log_events_def)
qed

end
