(* ===== verification/Shared_Alloc_Correct.thy ===== *)
theory Shared_Alloc_Correct
  imports Shared_Heap_Correct
begin

unbundle bit_operations_syntax

text \<open>
  Objects and arrays in the shared heap from a client's view: while the client makes, deletes and writes its objects in any order, the objects stay
  apart, a deletion finds what the creation left, what is constructed and not yet destroyed is what is held, and the counters agree with it.
\<close>

subsection \<open>Types and offsets\<close>

definition type_ok :: "obj_type \<Rightarrow> bool" where
  "type_ok ty \<longleftrightarrow>
     kind (elt ty) = Host \<and> 0 < elt_size (elt ty) \<and> elt_size (elt ty) < 2 ^ 64 \<and> elt_align (elt ty) < 2 ^ 64 \<and> align_pow2 (align_of ty) \<and>
     elt_size (elt ty) mod elt_align (elt ty) = 0"

lemma type_okD:
  assumes "type_ok ty"
  shows "unat (size_of ty) = elt_size (elt ty)" "unat (align_of ty) = elt_align (elt ty)" "0 < elt_align (elt ty)" "align_pow2 (align_of ty)"
proof -
  show "unat (size_of ty) = elt_size (elt ty)" and a: "unat (align_of ty) = elt_align (elt ty)"
    using assms by (simp_all add: type_ok_def size_of_def align_of_def unat_word_of_nat64)
  show "align_pow2 (align_of ty)" using assms by (simp add: type_ok_def)
  then show "0 < elt_align (elt ty)" using align_pow2_pos(1) a by metis
qed

lemma array_offset_ok:
  assumes "type_ok ty"
  shows "8 \<le> unat (array_offset ty)" "unat (array_offset ty) mod elt_align (elt ty) = 0" "unat (array_offset ty) < 8 + elt_align (elt ty)"
proof -
  note t = type_okD[OF assms]
  have l: "elt_align (elt ty) \<le> 2 ^ 30" using align_pow2_pos(2)[OF t(4)] t(2) by simp
  have "unat (8 + align_of ty - 1) = 8 + elt_align (elt ty) - 1"
  proof -
    have s: "unat (8 + align_of ty) = 8 + elt_align (elt ty)" using l t(2) by (subst unat_add_no_wrap) simp_all
    have "(1 :: u64) \<le> 8 + align_of ty" using s by (simp add: word_le_nat_alt)
    from unat_sub_no_wrap[OF this] show ?thesis using s by simp
  qed
  then have u: "unat (array_offset ty) = (8 + elt_align (elt ty) - 1) - (8 + elt_align (elt ty) - 1) mod elt_align (elt ty)"
    unfolding array_offset_def align_pow2_checks(4)[OF t(4)] t(2) by simp
  show "8 \<le> unat (array_offset ty)" "unat (array_offset ty) mod elt_align (elt ty) = 0" "unat (array_offset ty) < 8 + elt_align (elt ty)"
    unfolding u by (rule align_up_bounds[OF t(3)])+
qed

subsection \<open>Own pointers\<close>

text \<open>The process knows its own segment, which it has mapped at the address it has for others.\<close>

definition owner_ok :: "process \<Rightarrow> bool" where
  "owner_ok pr \<longleftrightarrow>
     (\<exists>lb infos p. process_ok pr lb infos \<and> p < length infos \<and> lb + int p = rank_me pr \<and> local_vbase (infos ! p) = owner_vbase (infos ! p))"

definition gptr_at :: "process \<Rightarrow> u64 \<Rightarrow> global_ptr" where
  "gptr_at pr a = \<lparr>heap_idx = 0, gp_dynamic_kind = Host, gp_rank = rank_me pr, raw_ptr = a\<rparr>"

lemma own_pointer:
  assumes ok: "owner_ok pr" and a: "unat (fst (shared_heap pr)) \<le> unat a" "unat a < unat (fst (shared_heap pr)) + unat (snd (shared_heap pr))"
    and ty: "type_ok ty" "unat a mod elt_align (elt ty) = 0"
  shows "own_gptr pr ty a = Some (gptr_at pr a)" "gptr_chk pr (elt ty) (gptr_at pr a) = Some (gptr_at pr a)" "not_null (gptr_at pr a)"
    "local_ptr pr (elt ty) (gptr_at pr a) = Some a" "a \<noteq> 0"
proof -
  obtain lb infos p where p: "process_ok pr lb infos" "p < length infos" "lb + int p = rank_me pr" "local_vbase (infos ! p) = owner_vbase (infos ! p)"
    using ok by (auto simp: owner_ok_def)
  have sh: "shared_heap pr = (owner_vbase (infos ! p), seg_bytes (infos ! p))" using p by (auto simp: process_ok_def split: if_splits)
  have t: "tables_of lb infos (local_tables pr)" using p(1) by (simp add: process_ok_def)
  have "unat (a - owner_vbase (infos ! p)) = unat a - unat (owner_vbase (infos ! p))" using a(1) sh by (intro unat_sub) (simp add: word_le_nat_alt)
  then have r: "a - owner_vbase (infos ! p) < seg_bytes (infos ! p)" using a sh by (simp add: word_less_nat_alt)
  have k: "kind (elt ty) = Host" using ty(1) by (simp add: type_ok_def)
  have v: "validate_global_ptr pr nul (kind (elt ty)) (elt_align (elt ty)) (gptr_at pr a)" for nul
    using host_pointer_valid[OF p(1,2) r k ty(2)] p(3) by (simp add: gptr_at_def)
  show a0: "a \<noteq> 0" using validate_nonnull(3)[OF v] by (simp add: gptr_at_def)
  show c: "gptr_chk pr (elt ty) (gptr_at pr a) = Some (gptr_at pr a)" using v by (simp add: gptr_chk_def)
  then show "own_gptr pr ty a = Some (gptr_at pr a)" by (simp add: own_gptr_def make_gptr_def gptr_at_def)
  show "not_null (gptr_at pr a)" using a0 by (simp add: not_null_def gp_ne_def gptr_at_def)
  have "localize_memory (local_tables pr) (rank_me pr) a = Some a"
    using localize_iff(1)[OF t p(2), of a] r a0 p(3,4) by (simp add: localize_memory_def)
  then show "local_ptr pr (elt ty) (gptr_at pr a) = Some a" unfolding local_ptr_def c using k by (simp add: gptr_at_def)
qed

subsection \<open>Lifetimes\<close>

text \<open>Constructions of a type at an address less its destructions. Both leave events for a type with neither constructor nor destructor trivial.\<close>

definition balance :: "lifetime list \<Rightarrow> obj_type \<Rightarrow> u64 \<Rightarrow> int" where
  "balance ev ty a = int (count_list ev (Ctor ty a)) - int (count_list ev (Dtor ty a))"

definition tracked :: "obj_type \<Rightarrow> bool" where
  "tracked ty \<longleftrightarrow> \<not> triv_ctor ty \<and> \<not> triv_dtor ty"

definition elems :: "u64 \<Rightarrow> u64 \<Rightarrow> nat \<Rightarrow> u64 list" where
  "elems p sz n = map (\<lambda>j. p + of_nat j * sz) [0..<n]"

lemma elems_Suc: "elems p sz (Suc n) = p # elems (p + sz) sz n"
  by (simp add: elems_def upt_conv_Cons map_Suc_upt[symmetric] algebra_simps del: upt_Suc)

lemma construct_loop_events:
  "construct_loop ty p i k t =
     (case t of
        Some m \<Rightarrow> if i \<le> m \<and> m < i + k then (map (Ctor ty) (elems p (size_of ty) (m - i)), Some m) else (map (Ctor ty) (elems p (size_of ty) k), None)
      | None \<Rightarrow> (map (Ctor ty) (elems p (size_of ty) k), None))"
proof (induction k arbitrary: p i)
  case 0
  then show ?case by (auto simp: elems_def split: option.splits)
next
  case (Suc k)
  show ?case
  proof (cases "t = Some i")
    case False
    have "m - i = Suc (m - Suc i)" if "i \<le> m" "m \<noteq> i" for m using that by simp
    then show ?thesis using False Suc[of "p + size_of ty" "Suc i"] by (auto simp: elems_Suc split: option.splits)
  qed (simp add: elems_def)
qed

lemma destroy_loop_events: "destroy_loop ty k p = map (Dtor ty) (elems p (size_of ty) k)"
  by (induction k arbitrary: p) (simp_all add: elems_Suc, simp add: elems_def)

lemma destroy_back_events: "destroy_back ty p i = map (Dtor ty) (rev (elems p (size_of ty) i))"
  by (induction i) (simp_all add: elems_def)

lemma count_list_map_other: "count_list (map (Ctor ty) xs) (Dtor ty' a) = 0" "count_list (map (Dtor ty) xs) (Ctor ty' a) = 0"
  by (induction xs) auto

lemma count_list_map_same:
  "count_list (map (Ctor ty) xs) (Ctor ty' a) = (if ty' = ty then count_list xs a else 0)"
  "count_list (map (Dtor ty) xs) (Dtor ty' a) = (if ty' = ty then count_list xs a else 0)"
  by (induction xs) auto

lemma balance_made: "balance (ev @ map (Ctor ty) xs) ty' a = balance ev ty' a + (if ty' = ty then int (count_list xs a) else 0)"
  by (simp add: balance_def count_list_map_other count_list_map_same)

lemma balance_dropped: "balance (ev @ map (Dtor ty) xs) ty' a = balance ev ty' a - (if ty' = ty then int (count_list xs a) else 0)"
  by (simp add: balance_def count_list_map_other count_list_map_same)

lemma balance_undone: "balance (ev @ map (Ctor ty) xs @ map (Dtor ty) (rev xs)) ty' a = balance ev ty' a"
  using balance_made[of ev ty xs ty' a] balance_dropped[of "ev @ map (Ctor ty) xs" ty "rev xs" ty' a] by (simp add: count_list_rev)

text \<open>Elements of a range that does not wrap are different.\<close>

lemma elems_unat:
  fixes p sz :: u64
  assumes "unat p + n * unat sz \<le> 2 ^ 64" "0 < unat sz" "j < n"
  shows "unat (p + of_nat j * sz) = unat p + j * unat sz"
proof -
  have "(j + 1) * unat sz \<le> n * unat sz" using assms(3) by (intro mult_right_mono) auto
  then have l: "unat p + j * unat sz < 2 ^ 64" using assms(1,2) by simp
  have "j * 1 \<le> j * unat sz" using assms(2) by (intro mult_left_mono) auto
  then have "unat (of_nat j :: u64) = j" using l by (intro unat_word_of_nat64) linarith
  then have "unat (of_nat j * sz) = j * unat sz" using l unat_mult_no_wrap[of "of_nat j" sz] by simp
  then show ?thesis using l unat_add_no_wrap[of p "of_nat j * sz"] by simp
qed

lemma elems_distinct:
  fixes p sz :: u64
  assumes "unat p + n * unat sz \<le> 2 ^ 64" "0 < unat sz"
  shows "distinct (elems p sz n)"
proof -
  have "inj_on (\<lambda>j. p + of_nat j * sz) (set [0..<n])"
  proof (rule inj_onI)
    fix i j assume "i \<in> set [0..<n]" "j \<in> set [0..<n]" "p + of_nat i * sz = p + of_nat j * sz"
    then have "unat p + i * unat sz = unat p + j * unat sz" 
      using elems_unat[OF assms, of i] elems_unat[OF assms, of j] by (metis atLeastLessThan_iff set_upt)
    then show "i = j" using assms(2) by (simp only: add_left_cancel mult_cancel2) simp
  qed
  then show ?thesis by (simp add: elems_def distinct_map)
qed

lemma elems_inside:
  fixes p sz :: u64
  assumes "unat p + n * unat sz \<le> 2 ^ 64" "0 < unat sz" "a \<in> set (elems p sz n)"
  shows "unat a \<in> {unat p..<unat p + n * unat sz}"
proof -
  obtain j where j: "j < n" "a = p + of_nat j * sz" using assms(3) by (auto simp: elems_def)
  have "j * unat sz < n * unat sz" using j(1) assms(2) by (rule mult_strict_right_mono)
  then show ?thesis using elems_unat[OF assms(1,2) j(1)] unfolding j(2) by simp
qed

subsection \<open>What the client holds\<close>

datatype held = Array obj_type u64 | Single obj_type | Buffer foot u64

fun held_foot :: "held \<Rightarrow> foot" where
  "held_foot (Buffer f sz) = f"
| "held_foot _ = Foot_user"

fun data_off :: "held \<Rightarrow> nat" where
  "data_off (Array ty n) = unat (array_offset ty)"
| "data_off _ = 0"

fun data_len :: "held \<Rightarrow> nat" where
  "data_len (Array ty n) = unat n * elt_size (elt ty)"
| "data_len (Single ty) = elt_size (elt ty)"
| "data_len (Buffer f sz) = unat sz"

definition data :: "u64 \<Rightarrow> held \<Rightarrow> nat set" where
  "data p x = {unat p + data_off x..<unat p + data_off x + data_len x}"

text \<open>The objects of what is held, and those whose destructors a deletion runs.\<close>

fun objects :: "u64 \<Rightarrow> held \<Rightarrow> (obj_type \<times> u64) list" where
  "objects p (Array ty n) = map (Pair ty) (elems (p + array_offset ty) (size_of ty) (unat n))"
| "objects p (Single ty) = [(ty, p)]"
| "objects p (Buffer f sz) = []"

fun shape_ok :: "(u64 \<Rightarrow> u8) \<Rightarrow> u64 \<Rightarrow> held \<Rightarrow> bool" where
  "shape_ok m p (Array ty n) \<longleftrightarrow> type_ok ty \<and> unat p mod elt_align (elt ty) = 0 \<and> load64 p m = n"
| "shape_ok m p (Single ty) \<longleftrightarrow> type_ok ty \<and> unat p mod elt_align (elt ty) = 0"
| "shape_ok m p (Buffer f sz) \<longleftrightarrow> True"

text \<open>The elements of an array begin inside the heap, also when there are none.\<close>

fun starts_inside :: "u64 \<times> u64 \<Rightarrow> u64 \<Rightarrow> held \<Rightarrow> bool" where
  "starts_inside rng p (Array ty n) \<longleftrightarrow> unat p + unat (array_offset ty) < unat (fst rng) + unat (snd rng)"
| "starts_inside rng p _ \<longleftrightarrow> True"

definition holds :: "(u64 \<rightharpoonup> ublock) \<Rightarrow> (u64 \<Rightarrow> u8) \<Rightarrow> u64 \<Rightarrow> held \<Rightarrow> bool" where
  "holds U m p x \<longleftrightarrow> (\<exists>u. U p = Some u \<and> ub_foot u = held_foot x \<and> data_off x + data_len x \<le> ub_bytes u) \<and> shape_ok m p x"

definition owed :: "(u64 \<rightharpoonup> held) \<Rightarrow> obj_type \<Rightarrow> u64 \<Rightarrow> int" where
  "owed L ty a = (\<Sum>p \<in> dom L. int (count_list (objects p (the (L p))) (ty, a)))"

definition client_inv :: "('h \<Rightarrow> u64 \<rightharpoonup> nat) \<Rightarrow> u64 \<times> u64 \<Rightarrow> (u64 \<rightharpoonup> ublock) \<Rightarrow> 'h sheap \<times> (u64 \<rightharpoonup> held) \<Rightarrow> bool" where
  "client_inv B rng U = (\<lambda>(s, L).
     backs B rng U s \<and> dom U = dom L \<and> (\<forall>p x. L p = Some x \<longrightarrow> holds U (byte_at s) p x) \<and>
     (\<forall>p x. L p = Some x \<longrightarrow> starts_inside rng p x) \<and> (\<forall>ty a. tracked ty \<longrightarrow> balance (events s) ty a = owed L ty a))"

lemma owed_insert:
  assumes "finite (dom L)" "L p = None"
  shows "owed (L(p \<mapsto> x)) ty a = owed L ty a + int (count_list (objects p x) (ty, a))"
proof -
  have "(\<Sum>q \<in> dom L. int (count_list (objects q (the ((L(p \<mapsto> x)) q))) (ty, a))) = owed L ty a"
    unfolding owed_def using assms(2) by (intro sum.cong) auto
  moreover have "p \<notin> dom L" using assms(2) by auto
  ultimately show ?thesis using assms(1) by (simp add: owed_def)
qed

lemma owed_remove:
  assumes "finite (dom L)" "L p = Some x"
  shows "owed (L(p := None)) ty a = owed L ty a - int (count_list (objects p x) (ty, a))"
proof -
  have e: "(L(p := None))(p \<mapsto> x) = L" using assms(2) by (auto simp: fun_eq_iff)
  show ?thesis using owed_insert[of "L(p := None)" p x ty a] assms(1) unfolding e by simp
qed

subsection \<open>Changes of what is held\<close>

lemma ublock_limit:
  assumes b: "backs B rng U s" and p: "U p = Some u"
  shows "unat (fst rng) \<le> unat p" "unat p + ub_bytes u \<le> unat (fst rng) + unat (snd rng)" "unat p + ub_bytes u < 2 ^ 64" "p \<noteq> 0"
proof -
  have pl: "placed B s p u" and bo: "blocks_ok (B (backing s)) rng" using b p by (auto simp: backs_def)
  obtain k where k: "B (backing s) (ub_base u) = Some k" "unat (ub_base u) \<le> unat p" "unat p + ub_bytes u \<le> unat (ub_base u) + k"
    using pl by (auto simp: placed_def)
  note d = blocks_okD[OF bo k(1)]
  show "unat (fst rng) \<le> unat p" "unat p + ub_bytes u \<le> unat (fst rng) + unat (snd rng)" "unat p + ub_bytes u < 2 ^ 64" using d k(2,3) by linarith+
  show "p \<noteq> 0" using d(1) k(2) by (auto simp: unat_eq_zero)
qed

lemma holds_bytes:
  assumes h: "holds U m p x" and u: "U p = Some u" "U' p = Some u" "unat p + ub_bytes u < 2 ^ 64"
    and m: "\<And>a. unat a \<in> {unat p..<unat p + data_off x} \<Longrightarrow> m' a = m a"
  shows "holds U' m' p x"
proof (cases x)
  case (Array ty n)
  have t: "type_ok ty" and l: "unat (array_offset ty) + data_len x \<le> ub_bytes u" using h u(1) by (auto simp: holds_def Array)
  have "unat (p + of_nat i) = unat p + i" if "i < 8" for i
  proof -
    have "unat (of_nat i :: u64) = i" using that by (simp add: unat_word_of_nat64)
    then show ?thesis using that array_offset_ok(1)[OF t] l u(3) unat_add_no_wrap[of p "of_nat i"] by simp
  qed
  then have "load64 p m' = load64 p m" using array_offset_ok(1)[OF t] by (intro load64_cong m) (auto simp: Array)
  then show ?thesis using h u by (simp add: holds_def Array)
qed (use h u in \<open>auto simp: holds_def\<close>)

lemma client_invD:
  assumes "client_inv B rng U (s, L)"
  shows "backs B rng U s" "dom U = dom L" "L p = Some x \<Longrightarrow> holds U (byte_at s) p x" "tracked ty \<Longrightarrow> balance (events s) ty a = owed L ty a" "finite (dom L)"
    "L p = Some x \<Longrightarrow> starts_inside rng p x"
  using assms by (auto simp: client_inv_def backs_def)

lemma client_invD_block:
  assumes "client_inv B rng U (s, L)" "L p = Some x"
  obtains u where "U p = Some u" "ub_foot u = held_foot x" "data_off x + data_len x \<le> ub_bytes u" "unat p + ub_bytes u < 2 ^ 64"
  using client_invD(3)[OF assms] ublock_limit(3)[OF client_invD(1)[OF assms(1)]] by (auto simp: holds_def)

lemma client_write:
  assumes inv: "client_inv B rng U (s, L)" and p: "L p = Some x" and a: "unat a \<in> data p x"
  shows "client_inv B rng U (s\<lparr>byte_at := (byte_at s)(a := v)\<rparr>, L)"
proof -
  note c = client_invD[OF inv]
  obtain u where u: "U p = Some u" "data_off x + data_len x \<le> ub_bytes u" by (rule client_invD_block[OF inv p])
  have "unat a \<in> span p (ub_bytes u)" using a u(2) by (auto simp: data_def span_def)
  note as = this
  have "backs B rng U (s\<lparr>byte_at := (byte_at s)(a := v)\<rparr>)" by (rule backs_user_write[OF c(1) u(1)]) (use as in auto)
  moreover have "holds U ((byte_at s)(a := v)) q y" if q: "L q = Some y" for q y
  proof -
    obtain w where w: "U q = Some w" "data_off y + data_len y \<le> ub_bytes w" "unat q + ub_bytes w < 2 ^ 64" by (rule client_invD_block[OF inv q])
    have "unat a \<notin> {unat q..<unat q + data_off y}"
    proof (cases "q = p")
      case True
      then show ?thesis using a p q by (auto simp: data_def)
    next
      case False
      then have "span q (ub_bytes w) \<inter> span p (ub_bytes u) = {}" using user_blocks_apart[OF c(1) w(1) u(1)] by blast
      then show ?thesis using as w(2) by (auto simp: span_def)
    qed
    then show ?thesis by (intro holds_bytes[where U' = U, OF c(3)[OF q] w(1) w(1,3)]) auto
  qed
  ultimately show ?thesis using c(2,4,6) by (simp add: client_inv_def)
qed

lemma client_insert:
  assumes inv: "client_inv B rng U (s, L)" and al: "allocated B rng U (held_foot x) sz al s p s1" "p \<noteq> 0"
    and x: "data_off x + data_len x \<le> unat sz" "shape_ok m p x" "starts_inside rng p x"
    and m: "\<And>a. unat a \<notin> {unat p..<unat p + unat sz} \<Longrightarrow> m a = byte_at s1 a"
    and ev: "\<And>ty a. tracked ty \<Longrightarrow> balance (events s @ ev) ty a = balance (events s) ty a + int (count_list (objects p x) (ty, a))"
  shows "L p = None" "\<exists>U'. client_inv B rng U' (log_events ev (s1\<lparr>byte_at := m\<rparr>), L(p \<mapsto> x))"
proof -
  note c = client_invD[OF inv]
  from al obtain u where u: "ub_foot u = held_foot x" "unat sz \<le> ub_bytes u" "backs B rng (U(p \<mapsto> u)) s1" and np: "U p = None"
      and fr: "\<forall>q v a. U q = Some v \<longrightarrow> unat a \<in> span q (ub_bytes v) \<longrightarrow> byte_at s1 a = byte_at s a" and e: "events s1 = events s"
    by (auto simp: allocated_def)
  show nL: "L p = None" using np c(2) by auto
  let ?s = "log_events ev (s1\<lparr>byte_at := m\<rparr>)" and ?U = "U(p \<mapsto> u)"
  have mu: "m a = byte_at s1 a" if "unat a \<notin> span p (ub_bytes u)" for a using that u(2) by (intro m) (auto simp: span_def)
  have b: "backs B rng ?U ?s" unfolding backs_log by (rule backs_user_write[OF u(3)]) (use mu in auto)
  have "holds ?U m q y" if q: "(L(p \<mapsto> x)) q = Some y" for q y
  proof (cases "q = p")
    case True
    then show ?thesis using q u(1,2) x by (auto simp: holds_def)
  next
    case False
    then have q: "L q = Some y" using q by simp
    obtain w where w: "U q = Some w" "data_off y + data_len y \<le> ub_bytes w" "unat q + ub_bytes w < 2 ^ 64" by (rule client_invD_block[OF inv q])
    have "span q (ub_bytes w) \<inter> span p (ub_bytes u) = {}" using user_blocks_apart[OF u(3), of q w p u] w(1) False by simp
    then have "m a = byte_at s a" if "unat a \<in> span q (ub_bytes w)" for a using that mu[of a] fr w(1) by auto
    then show ?thesis using w(1,2) False by (intro holds_bytes[OF c(3)[OF q] w(1) _ w(3)]) (auto simp: span_def)
  qed
  moreover have "balance (events ?s) ty a = owed (L(p \<mapsto> x)) ty a" if "tracked ty" for ty a
    using ev[OF that] c(4)[OF that] owed_insert[OF c(5) nL, of x] e by (simp add: log_events_def)
  moreover have "starts_inside rng q y" if "(L(p \<mapsto> x)) q = Some y" for q y using that x(3) c(6) by (auto split: if_splits)
  ultimately have "client_inv B rng ?U (?s, L(p \<mapsto> x))" using b c(2) unfolding client_inv_def by (simp add: log_events_def)
  then show "\<exists>U'. client_inv B rng U' (?s, L(p \<mapsto> x))" by blast
qed

lemma client_remove:
  assumes pv: "provider_ok pv B rng" and inv: "client_inv B rng U (s, L)" and p: "L p = Some x"
    and ev: "\<And>ty a. tracked ty \<Longrightarrow> balance (events s @ ev) ty a = balance (events s) ty a - int (count_list (objects p x) (ty, a))"
  shows "\<exists>s'. gasnet_deallocate pv p (held_foot x) (log_events ev s) = Some s' \<and> events s' = events s @ ev \<and> client_inv B rng (U(p := None)) (s', L(p := None))"
proof -
  note c = client_invD[OF inv]
  obtain u where u: "U p = Some u" "ub_foot u = held_foot x" by (rule client_invD_block[OF inv p])
  have "backs B rng U (log_events ev s)" using c(1) by simp
  from deallocate_good[OF pv this u(1)] obtain s' where
    s': "gasnet_deallocate pv p (held_foot x) (log_events ev s) = Some s'" "backs B rng (U(p := None)) s'" "events s' = events s @ ev" "byte_at s' = byte_at s"
    unfolding u(2) by (auto simp: log_events_def)
  have "holds (U(p := None)) (byte_at s') q y" if q: "(L(p := None)) q = Some y" for q y
  proof -
    have q: "L q = Some y" "q \<noteq> p" using q by (auto split: if_splits)
    then show ?thesis using c(3)[OF q(1)] s'(4) by (simp add: holds_def)
  qed
  moreover have "balance (events s') ty a = owed (L(p := None)) ty a" if "tracked ty" for ty a
    using ev[OF that] c(4)[OF that] owed_remove[OF c(5) p] s'(3) by simp
  moreover have "starts_inside rng q y" if "(L(p := None)) q = Some y" for q y using that c(6) by (auto split: if_splits)
  ultimately have "client_inv B rng (U(p := None)) (s', L(p := None))" using s'(2) c(2) by (auto simp: client_inv_def)
  with s' show ?thesis by blast
qed

subsection \<open>The client\<close>

text \<open>
  Over the UPC allocator a request must leave room for its padding.
\<close>

definition room :: "'h sheap \<Rightarrow> nat \<Rightarrow> u64 \<Rightarrow> bool" where
  "room s n al \<longleftrightarrow> (use_upc_alloc s \<longrightarrow> n + unat (max al 16) < 2 ^ 64)"

text \<open>What the client may do; the map is what it holds, by the address of the user block.\<close>

inductive client_step :: "process \<Rightarrow> 'h provider \<Rightarrow> 'h sheap \<times> (u64 \<rightharpoonup> held) \<Rightarrow> 'h sheap \<times> (u64 \<rightharpoonup> held) \<Rightarrow> bool" for pr pv where
  array_made: "type_ok ty \<Longrightarrow> room s (unat (array_offset ty) + unat n * elt_size (elt ty)) (max 8 (align_of ty)) \<Longrightarrow>
    new_array th pr pv ty t n s = Some (Inr g, s') \<Longrightarrow> not_null g \<Longrightarrow>
    client_step pr pv (s, L) (s', L(raw_ptr g - array_offset ty \<mapsto> Array ty n))"
| array_not_made: "type_ok ty \<Longrightarrow> room s (unat (array_offset ty) + unat n * elt_size (elt ty)) (max 8 (align_of ty)) \<Longrightarrow>
    new_array th pr pv ty t n s = Some (r, s') \<Longrightarrow> (\<And>g. r = Inr g \<Longrightarrow> \<not> not_null g) \<Longrightarrow> client_step pr pv (s, L) (s', L)"
| array_dropped: "L p = Some (Array ty n) \<Longrightarrow> delete_array pr pv ty (gptr_at pr (p + array_offset ty)) s = Some s' \<Longrightarrow>
    client_step pr pv (s, L) (s', L(p := None))"
| obj_made: "type_ok ty \<Longrightarrow> room s (elt_size (elt ty)) (align_of ty) \<Longrightarrow> new_obj th pr pv ty t s = Some (Inr g, s') \<Longrightarrow> not_null g \<Longrightarrow>
    client_step pr pv (s, L) (s', L(raw_ptr g \<mapsto> Single ty))"
| obj_not_made: "type_ok ty \<Longrightarrow> room s (elt_size (elt ty)) (align_of ty) \<Longrightarrow> new_obj th pr pv ty t s = Some (r, s') \<Longrightarrow>
    (\<And>g. r = Inr g \<Longrightarrow> \<not> not_null g) \<Longrightarrow> client_step pr pv (s, L) (s', L)"
| obj_dropped: "L p = Some (Single ty) \<Longrightarrow> delete_obj pr pv ty (gptr_at pr p) s = Some s' \<Longrightarrow> client_step pr pv (s, L) (s', L(p := None))"
| buffer_made: "align_pow2 al \<Longrightarrow> room s (unat sz) al \<Longrightarrow> allocate_or_null pv sz al f s = Some (p, s') \<Longrightarrow> p \<noteq> 0 \<Longrightarrow>
    client_step pr pv (s, L) (s', L(p \<mapsto> Buffer f sz))"
| buffer_not_made: "align_pow2 al \<Longrightarrow> room s (unat sz) al \<Longrightarrow> allocate_or_null pv sz al f s = Some (0, s') \<Longrightarrow> client_step pr pv (s, L) (s', L)"
| buffer_dropped: "L p = Some (Buffer f sz) \<Longrightarrow> gasnet_deallocate pv p f s = Some s' \<Longrightarrow> client_step pr pv (s, L) (s', L(p := None))"
| written: "L p = Some x \<Longrightarrow> unat a \<in> data p x \<Longrightarrow> client_step pr pv (s, L) (s\<lparr>byte_at := (byte_at s)(a := v)\<rparr>, L)"

text \<open>The objects of a client.\<close>

lemma held_pointer:
  assumes ok: "owner_ok pr" and inv: "client_inv B (shared_heap pr) U (s, L)" and p: "L p = Some x" "shape_ok m p x" and x: "x = Array ty n \<or> x = Single ty"
  defines "e \<equiv> (case x of Array ty n \<Rightarrow> p + array_offset ty | _ \<Rightarrow> p)"
  shows "own_gptr pr ty e = Some (gptr_at pr e)" "gptr_chk pr (elt ty) (gptr_at pr e) = Some (gptr_at pr e)" "not_null (gptr_at pr e)"
    "local_ptr pr (elt ty) (gptr_at pr e) = Some e" "unat e = unat p + data_off x"
proof -
  obtain u where u: "U p = Some u" "data_off x + data_len x \<le> ub_bytes u" by (rule client_invD_block[OF inv p(1)])
  note lim = ublock_limit[OF client_invD(1)[OF inv] u(1)]
  have t: "type_ok ty" "unat p mod elt_align (elt ty) = 0" using p(2) x by auto
  show e: "unat e = unat p + data_off x" using x lim(3) u(2) by (auto simp: e_def unat_add_no_wrap)
  have "unat e mod elt_align (elt ty) = 0" using x t(2) array_offset_ok(2)[OF t(1)] unfolding e by (auto simp: mod_add_eq[symmetric])
  note o = own_pointer[OF ok _ _ t(1) this]
  have "unat (fst (shared_heap pr)) \<le> unat e" "unat e < unat (fst (shared_heap pr)) + unat (snd (shared_heap pr))"
    using x e lim(1,2) u(2) client_invD(6)[OF inv p(1)] t(1) by (auto simp: type_ok_def)
  note o = o[OF this]
  show "own_gptr pr ty e = Some (gptr_at pr e)" "gptr_chk pr (elt ty) (gptr_at pr e) = Some (gptr_at pr e)" "not_null (gptr_at pr e)"
    "local_ptr pr (elt ty) (gptr_at pr e) = Some e" by (rule o)+
qed

lemma alive_single_elems:
  assumes "client_inv B rng U (s, L)" "L p = Some (Array ty n)"
  shows "distinct (elems (p + array_offset ty) (size_of ty) (unat n))" "a \<in> set (elems (p + array_offset ty) (size_of ty) (unat n)) \<Longrightarrow> unat a \<in> data p (Array ty n)"
proof -
  obtain u where u: "U p = Some u" "data_off (Array ty n) + data_len (Array ty n) \<le> ub_bytes u" "unat p + ub_bytes u < 2 ^ 64"
    by (rule client_invD_block[OF assms])
  have t: "type_ok ty" using client_invD(3)[OF assms] by (simp add: holds_def)
  have e: "unat (p + array_offset ty) = unat p + unat (array_offset ty)" using u by (simp add: unat_add_no_wrap)
  have "unat (p + array_offset ty) + unat n * unat (size_of ty) \<le> 2 ^ 64" "0 < unat (size_of ty)"
    using u e type_okD(1)[OF t] t by (simp_all add: type_ok_def)
  note ei = elems_distinct[OF this] elems_inside[OF this]
  show "distinct (elems (p + array_offset ty) (size_of ty) (unat n))" by (rule ei)
  show "unat a \<in> data p (Array ty n)" if "a \<in> set (elems (p + array_offset ty) (size_of ty) (unat n))"
    using ei(2)[OF that] e type_okD(1)[OF t] by (simp add: data_def)
qed

text \<open>The events of the elements of an array, none where the operation is trivial.\<close>

lemma count_list_pair: "count_list (map (Pair ty) xs) (ty', a) = (if ty' = ty then count_list xs a else 0)"
  by (induction xs) auto

lemma balance_array_made:
  "tracked ty' \<Longrightarrow> balance (ev @ map (Ctor ty) (if triv_ctor ty then [] else xs)) ty' a = balance ev ty' a + int (count_list (map (Pair ty) xs) (ty', a))"
  by (auto simp: balance_made count_list_pair tracked_def)

lemma balance_array_dropped:
  "tracked ty' \<Longrightarrow> balance (ev @ map (Dtor ty) (if triv_dtor ty then [] else xs)) ty' a = balance ev ty' a - int (count_list (map (Pair ty) xs) (ty', a))"
  by (auto simp: balance_dropped count_list_pair tracked_def)

lemma balance_array_undone:
  "tracked ty' \<Longrightarrow> balance (ev @ map (Ctor ty) xs @ (if triv_dtor ty then [] else map (Dtor ty) (rev xs))) ty' a =
     (if triv_dtor ty then balance ev ty' a + (if ty' = ty then int (count_list xs a) else 0) else balance ev ty' a)"
  by (simp add: balance_undone balance_made)

text \<open>Deletion.\<close>

definition array_dtors :: "obj_type \<Rightarrow> u64 \<Rightarrow> u64 \<Rightarrow> lifetime list" where
  "array_dtors ty e n = map (Dtor ty) (if triv_dtor ty then [] else elems e (size_of ty) (unat n))"

lemma delete_array_good:
  assumes pv: "provider_ok pv B (shared_heap pr)" and ok: "owner_ok pr" and inv: "client_inv B (shared_heap pr) U (s, L)" and p: "L p = Some (Array ty n)"
  shows "\<exists>s'. delete_array pr pv ty (gptr_at pr (p + array_offset ty)) s = Some s' \<and> events s' = events s @ array_dtors ty (p + array_offset ty) n \<and>
    client_inv B (shared_heap pr) (U(p := None)) (s', L(p := None))"
proof -
  have h: "holds U (byte_at s) p (Array ty n)" by (rule client_invD(3)[OF inv p])
  then have sh: "shape_ok (byte_at s) p (Array ty n)" by (simp add: holds_def)
  note hp = held_pointer[OF ok inv p sh disjI1[OF refl], unfolded held.case]
  let ?ev = "array_dtors ty (p + array_offset ty) n"
  have "\<exists>s'. gasnet_deallocate pv p (held_foot (Array ty n)) (log_events ?ev s) = Some s' \<and> events s' = events s @ ?ev \<and>
      client_inv B (shared_heap pr) (U(p := None)) (s', L(p := None))"
    by (rule client_remove[OF pv inv p]) (simp only: array_dtors_def objects.simps balance_array_dropped)
  then obtain s' where
    s': "gasnet_deallocate pv p Foot_user (log_events ?ev s) = Some s'" "events s' = events s @ ?ev"
      "client_inv B (shared_heap pr) (U(p := None)) (s', L(p := None))"
    by auto
  have "load64 p (byte_at s) = n" using sh by simp
  moreover have "gp_rank (gptr_at pr a) = rank_me pr" for a by (simp add: gptr_at_def)
  moreover have "log_events [] s = s" by (simp add: log_events_def)
  ultimately have "delete_array pr pv ty (gptr_at pr (p + array_offset ty)) s = Some s'"
    using s'(1) unfolding array_dtors_def by (cases "triv_dtor ty") (simp_all add: delete_array_def destroy_loop_events hp(2,3,4))
  with s' show ?thesis by blast
qed

lemma delete_obj_good:
  assumes pv: "provider_ok pv B (shared_heap pr)" and ok: "owner_ok pr" and inv: "client_inv B (shared_heap pr) U (s, L)" and p: "L p = Some (Single ty)"
  shows "\<exists>s'. delete_obj pr pv ty (gptr_at pr p) s = Some s' \<and> events s' = events s @ [Dtor ty p] \<and> client_inv B (shared_heap pr) (U(p := None)) (s', L(p := None))"
proof -
  have "shape_ok (byte_at s) p (Single ty)" using client_invD(3)[OF inv p] by (simp add: holds_def)
  note hp = held_pointer[OF ok inv p this disjI2[OF refl], unfolded held.case]
  have "balance (events s @ [Dtor ty p]) ty' a = balance (events s) ty' a - int (count_list (objects p (Single ty)) (ty', a))" for ty' a
    using balance_dropped[of "events s" ty "[p]" ty' a] by auto
  from client_remove[OF pv inv p this] obtain s' where
    s': "gasnet_deallocate pv p Foot_user (log_events [Dtor ty p] s) = Some s'" "events s' = events s @ [Dtor ty p]" "client_inv B (shared_heap pr) (U(p := None)) (s', L(p := None))"
    by auto
  moreover have "gp_rank (gptr_at pr a) = rank_me pr" "raw_ptr (gptr_at pr a) = a" for a by (simp_all add: gptr_at_def)
  ultimately have "delete_obj pr pv ty (gptr_at pr p) s = Some s'" by (simp add: delete_obj_def hp(2,3))
  with s' show ?thesis by blast
qed

text \<open>Creation.\<close>

lemma log_events_append [simp]: "log_events b (log_events a s) = log_events (a @ b) s" "log_events [] s = s"
  by (simp_all add: log_events_def)

lemma null_gptr_null: "null_gptr pr ty = Some g \<Longrightarrow> \<not> not_null g"
  by (auto simp: null_gptr_def make_gptr_def gptr_chk_def not_null_def gp_ne_def split: if_splits)

lemma client_unchanged:
  assumes "client_inv B rng U (s, L)" "allocated B rng U f sz al s 0 s'"
  shows "client_inv B rng U (s', L)"
  using assms by (auto simp: client_inv_def allocated_def)

lemma client_allocated:
  assumes "provider_ok pv B rng" "client_inv B rng U (s, L)" "align_pow2 al" "room s (unat sz) al" "allocate_or_null pv sz al f s = Some (p, s')"
  shows "allocated B rng U f sz al s p s'"
  by (rule allocate_good(1)[OF assms(1) client_invD(1)[OF assms(2)] assms(3) _ assms(5)]) (use assms(4) in \<open>simp add: room_def\<close>)

text \<open>An allocation that is undone.\<close>

lemma client_undo:
  assumes pv: "provider_ok pv B rng" and inv: "client_inv B rng U (s, L)" and al: "allocated B rng U Foot_user sz al s p s1" "p \<noteq> 0"
    and m: "\<And>a. unat a \<notin> {unat p..<unat p + unat sz} \<Longrightarrow> m a = byte_at s1 a" and ev: "\<And>ty a. tracked ty \<Longrightarrow> balance (events s @ ev) ty a = balance (events s) ty a"
    and d: "gasnet_deallocate pv p Foot_user (log_events ev (s1\<lparr>byte_at := m\<rparr>)) = Some s'"
  shows "\<exists>U'. client_inv B rng U' (s', L)"
proof -
  have i: "L p = None" "\<exists>U'. client_inv B rng U' (log_events ev (s1\<lparr>byte_at := m\<rparr>), L(p \<mapsto> Buffer Foot_user sz))"
    by (rule client_insert[OF inv, of "Buffer Foot_user sz" sz al p s1 m ev]; use al m ev in simp)+
  then obtain U' where U': "client_inv B rng U' (log_events ev (s1\<lparr>byte_at := m\<rparr>), L(p \<mapsto> Buffer Foot_user sz))" by blast
  from client_remove[OF pv U', of p "Buffer Foot_user sz" "[]"] have "client_inv B rng (U'(p := None)) (s', (L(p \<mapsto> Buffer Foot_user sz))(p := None))"
    using d by auto
  moreover have "(L(p \<mapsto> Buffer Foot_user sz))(p := None) = L" using i(1) by (auto simp: fun_eq_iff)
  ultimately show ?thesis by auto
qed

lemma array_bytes:
  assumes t: "type_ok ty" and n: "\<not> n > (- 1 - array_offset ty) div size_of ty"
  shows "unat (array_offset ty + n * size_of ty) = unat (array_offset ty) + unat n * elt_size (elt ty)"
proof -
  have m: "unat (- 1 - array_offset ty) = 2 ^ 64 - 1 - unat (array_offset ty)"
  proof -
    have "unat (- 1 - array_offset ty) = unat (- 1 :: u64) - unat (array_offset ty)" by (rule unat_sub) simp
    then show ?thesis by (simp add: unsigned_minus_1_eq_mask mask_eq_exp_minus_1)
  qed
  have "unat n \<le> (2 ^ 64 - 1 - unat (array_offset ty)) div elt_size (elt ty)"
    using n unfolding not_less word_le_nat_alt unat_div m type_okD(1)[OF t] .
  then have "unat n * elt_size (elt ty) \<le> 2 ^ 64 - 1 - unat (array_offset ty)"
    by (meson div_times_less_eq_dividend mult_le_mono1 order_trans)
  then have l: "unat (array_offset ty) + unat n * elt_size (elt ty) < 2 ^ 64" using unat_lt64[of "array_offset ty"] by (simp del: unat_lt64)
  then have "unat (n * size_of ty) = unat n * elt_size (elt ty)" using unat_mult_no_wrap[of n "size_of ty"] type_okD(1)[OF t] by simp
  then show ?thesis using l unat_add_no_wrap[of "array_offset ty" "n * size_of ty"] by simp
qed

definition make_result :: "('h \<Rightarrow> u64 \<rightharpoonup> nat) \<Rightarrow> process \<Rightarrow> held \<Rightarrow> nat \<Rightarrow> (u64 \<rightharpoonup> held) \<Rightarrow> alloc_exn + global_ptr \<Rightarrow> 'h sheap \<Rightarrow> bool" where
  "make_result B pr x off L r s' \<longleftrightarrow>
     (case r of
        Inr g \<Rightarrow>
          if not_null g
          then (\<exists>p U. L p = None \<and> unat (raw_ptr g) = unat p + off \<and> g = gptr_at pr (p + of_nat off) \<and> client_inv B (shared_heap pr) U (s', L(p \<mapsto> x)))
          else \<exists>U. client_inv B (shared_heap pr) U (s', L)
      | Inl _ \<Rightarrow> \<exists>U. client_inv B (shared_heap pr) U (s', L))"

lemma make_result_null: "client_inv B (shared_heap pr) U (s', L) \<Longrightarrow> null_gptr pr ty = Some g \<Longrightarrow> make_result B pr x off L (Inr g) s'"
  using null_gptr_null[of pr ty g] by (auto simp: make_result_def)

lemma make_result_exn: "client_inv B (shared_heap pr) U (s', L) \<Longrightarrow> make_result B pr x off L (Inl e) s'"
  by (auto simp: make_result_def)

lemma store64_count:
  assumes "unat p + sz < 2 ^ 64" "8 \<le> sz" "unat a \<notin> {unat p..<unat p + sz}"
  shows "store64 p n m a = m a"
  by (rule store64_outside) (use assms in auto)

text \<open>The pointer to the elements is made only where they begin inside the heap.\<close>

lemma own_gptr_inside:
  assumes g: "own_gptr pr ty e = Some g" and e: "e \<noteq> 0" and n: "0 < unat (snd (shared_heap pr))" "unat (fst (shared_heap pr)) + unat (snd (shared_heap pr)) < 2 ^ 64"
  shows "unat e < unat (fst (shared_heap pr)) + unat (snd (shared_heap pr))"
proof -
  obtain b k where sh: "shared_heap pr = (b, k)" by (cases "shared_heap pr")
  have "validate_global_ptr pr True (kind (elt ty)) (elt_align (elt ty)) \<lparr>heap_idx = 0, gp_dynamic_kind = Host, gp_rank = rank_me pr, raw_ptr = e\<rparr>"
    using g by (simp add: own_gptr_def make_gptr_def gptr_chk_def split: if_splits)
  then have le: "e \<le> b + k - 1" using e by (simp add: validate_global_ptr_def segment_bounds_def sh)
  have "unat (b + k) = unat b + unat k" using n(2) sh by (intro unat_add_no_wrap) simp
  moreover from this have "b + k \<noteq> 0" using n(1) sh by (intro notI) simp
  then have "unat (b + k - 1) = unat (b + k) - 1" by (rule unat_minus_one)
  ultimately have "unat e \<le> unat b + unat k - 1" using le by (simp add: word_le_nat_alt)
  then show ?thesis using n(1) unfolding sh fst_conv snd_conv by linarith
qed

lemma new_array_good:
  assumes pv: "provider_ok pv B (shared_heap pr)" and ok: "owner_ok pr" and inv: "client_inv B (shared_heap pr) U (s, L)"
    and ty: "type_ok ty" and rm: "room s (unat (array_offset ty) + unat n * elt_size (elt ty)) (max 8 (align_of ty))"
    and r: "new_array th pr pv ty t n s = Some (r, s')"
  shows "make_result B pr (Array ty n) (unat (array_offset ty)) L r s'"
proof (cases "n > (- 1 - array_offset ty) div size_of ty")
  case True
  then show ?thesis using r inv by (auto simp: new_array_def Let_def split: if_splits bind_splits intro: make_result_null make_result_exn)
next
  case False
  note sz = array_bytes[OF ty False]
  let ?sz = "array_offset ty + n * size_of ty" and ?al = "max 8 (align_of ty)"
  obtain p s1 where al: "allocate_or_null pv ?sz ?al Foot_user s = Some (p, s1)"
    using r False by (auto simp: new_array_def Let_def split: bind_splits)
  have "align_pow2 ?al" by (rule align_pow2_max[OF align_pow2_8 type_okD(4)[OF ty]])
  from allocate_good(1)[OF pv client_invD(1)[OF inv] this _ al] have ad: "allocated B (shared_heap pr) U Foot_user ?sz ?al s p s1"
    using rm sz by (simp add: room_def)
  show ?thesis
  proof (cases "p = 0")
    case True
    then have "client_inv B (shared_heap pr) U (s1, L)" using client_unchanged[OF inv] ad by simp
    then show ?thesis using r False al True by (auto simp: new_array_def Let_def split: if_splits bind_splits intro: make_result_null make_result_exn)
  next
    case p: False
    obtain u where u: "unat ?sz \<le> ub_bytes u" "backs B (shared_heap pr) (U(p \<mapsto> u)) s1" and pal: "unat p mod unat ?al = 0" using ad p by (auto simp: allocated_def)
    have lim: "unat p + unat ?sz < 2 ^ 64" using ublock_limit(3)[OF u(2), of p u] u(1) by simp
    have "8 \<le> unat ?sz" using array_offset_ok(1)[OF ty] sz by simp
    note m = store64_count[OF lim this, of _ n "byte_at s1"]
    have w: "write64 p n s1 = s1\<lparr>byte_at := store64 p n (byte_at s1)\<rparr>" by (simp add: write64_def)
    let ?e = "p + array_offset ty" and ?m = "store64 p n (byte_at s1)"
    have b: "unat (fst (shared_heap pr)) + unat (snd (shared_heap pr)) < 2 ^ 64" "0 < unat (snd (shared_heap pr))"
      using ublock_limit(1,2)[OF u(2), of p u] u(1) \<open>8 \<le> unat ?sz\<close> client_invD(1)[OF inv] by (auto simp: backs_def blocks_ok_def)
    have ue: "unat ?e = unat p + unat (array_offset ty)" using lim sz by (intro unat_add_no_wrap) simp
    have "0 < unat ?e" using ue array_offset_ok(1)[OF ty] by linarith
    then have e0: "?e \<noteq> 0" by (intro notI) simp
    show ?thesis
    proof (cases "\<not> triv_ctor ty \<and> (\<exists>i < unat n. t = Some i)")
      case True
      then obtain i where i: "\<not> triv_ctor ty" "i < unat n" "t = Some i" by blast
      let ?es = "elems ?e (size_of ty) i"
      let ?ev = "map (Ctor ty) ?es @ (if triv_dtor ty then [] else map (Dtor ty) (rev ?es))"
      have "construct_loop ty ?e 0 (unat n) t = (map (Ctor ty) ?es, Some i)" using i by (simp add: construct_loop_events)
      then have d: "r = Inl Thrown" "gasnet_deallocate pv p Foot_user (log_events ?ev (s1\<lparr>byte_at := ?m\<rparr>)) = Some s'"
        using r False al p i(1) w by (auto simp: new_array_def Let_def destroy_back_events split: bind_splits)
      have "balance (events s @ ?ev) ty' a = balance (events s) ty' a" if "tracked ty'" for ty' a
        using that by (auto simp: balance_array_undone balance_undone balance_made tracked_def)
      from client_undo[OF pv inv ad p m this d(2)] show ?thesis unfolding d(1) by (auto intro: make_result_exn)
    next
      case made: False
      let ?ev = "map (Ctor ty) (if triv_ctor ty then [] else elems ?e (size_of ty) (unat n))"
      have "construct_loop ty ?e 0 (unat n) t = (map (Ctor ty) (elems ?e (size_of ty) (unat n)), None)" if "\<not> triv_ctor ty"
        using made that by (auto simp: construct_loop_events split: option.splits)
      then have d: "(if triv_ctor ty then ([], None) else construct_loop ty ?e 0 (unat n) t) = (?ev, None)" by simp
      let ?s = "log_events ?ev (s1\<lparr>byte_at := ?m\<rparr>)"
      have na: "new_array th pr pv ty t n s = Option.bind (own_gptr pr ty ?e) (\<lambda>g. Some (Inr g, ?s))"
        using False p unfolding new_array_def Let_def al by (simp add: d w)
      then obtain g where "own_gptr pr ty ?e = Some g" using r by (cases "own_gptr pr ty ?e") auto
      then have si: "starts_inside (shared_heap pr) p (Array ty n)" using own_gptr_inside[OF _ e0 b(2,1)] ue by simp
      have "elt_align (elt ty) dvd unat ?al" using align_pow2_dvd[OF type_okD(4)[OF ty] \<open>align_pow2 ?al\<close>] type_okD(2)[OF ty] by simp
      then have sh: "shape_ok ?m p (Array ty n)" using ty pal by (auto simp: mod_eq_0_iff_dvd intro: dvd_trans)
      have hy: "allocated B (shared_heap pr) U (held_foot (Array ty n)) ?sz ?al s p s1" "data_off (Array ty n) + data_len (Array ty n) \<le> unat ?sz"
        using ad sz by simp_all
      have ev: "balance (events s @ ?ev) ty' a = balance (events s) ty' a + int (count_list (objects p (Array ty n)) (ty', a))" if "tracked ty'" for ty' a
        unfolding objects.simps by (rule balance_array_made[OF that])
      obtain U' where U': "L p = None" "client_inv B (shared_heap pr) U' (?s, L(p \<mapsto> Array ty n))"
        using client_insert[OF inv hy(1) p hy(2) sh si m ev] by blast
      note hp = held_pointer[OF ok U'(2) fun_upd_same sh disjI1[OF refl], unfolded held.case]
      have "r = Inr (gptr_at pr ?e)" "s' = ?s" using r na hp(1) by simp_all
      then show ?thesis using U' hp(3,5) by (auto simp: make_result_def gptr_at_def)
    qed
  qed
qed

lemma new_obj_good:
  assumes pv: "provider_ok pv B (shared_heap pr)" and ok: "owner_ok pr" and inv: "client_inv B (shared_heap pr) U (s, L)"
    and ty: "type_ok ty" and rm: "room s (elt_size (elt ty)) (align_of ty)" and r: "new_obj th pr pv ty t s = Some (r, s')"
  shows "make_result B pr (Single ty) 0 L r s'"
proof -
  note td = type_okD[OF ty]
  obtain p s1 where al: "allocate_or_null pv (size_of ty) (align_of ty) Foot_user s = Some (p, s1)" using r by (auto simp: new_obj_def split: bind_splits)
  from allocate_good(1)[OF pv client_invD(1)[OF inv] td(4) _ al] have ad: "allocated B (shared_heap pr) U Foot_user (size_of ty) (align_of ty) s p s1"
    using rm td(1) by (simp add: room_def)
  show ?thesis
  proof (cases "p = 0")
    case True
    then have "client_inv B (shared_heap pr) U (s1, L)" using client_unchanged[OF inv] ad by simp
    then show ?thesis using r al True by (auto simp: new_obj_def split: if_splits bind_splits intro: make_result_null make_result_exn)
  next
    case p: False
    have s1: "s1\<lparr>byte_at := byte_at s1\<rparr> = s1" by simp
    show ?thesis
    proof (cases "t = Some 0")
      case True
      then have d: "r = Inl Thrown" "gasnet_deallocate pv p Foot_user (log_events [] (s1\<lparr>byte_at := byte_at s1\<rparr>)) = Some s'"
        using r al p by (simp_all add: new_obj_def split: bind_splits)
      from client_undo[OF pv inv ad p refl _ d(2)] show ?thesis unfolding d(1) by (auto intro: make_result_exn)
    next
      case False
      have sh: "shape_ok (byte_at s1) p (Single ty)" using ty ad p td(2) by (simp add: allocated_def)
      have hy: "allocated B (shared_heap pr) U (held_foot (Single ty)) (size_of ty) (align_of ty) s p s1"
          "data_off (Single ty) + data_len (Single ty) \<le> unat (size_of ty)" "starts_inside (shared_heap pr) p (Single ty)"
        using ad td(1) by simp_all
      have ev: "balance (events s @ [Ctor ty p]) ty' a = balance (events s) ty' a + int (count_list (objects p (Single ty)) (ty', a))" for ty' a
        using balance_made[of "events s" ty "[p]" ty' a] by auto
      obtain U' where U': "L p = None" "client_inv B (shared_heap pr) U' (log_events [Ctor ty p] s1, L(p \<mapsto> Single ty))"
        using client_insert[OF inv hy(1) p hy(2) sh hy(3) refl ev] unfolding s1 by blast
      note hp = held_pointer[OF ok U'(2) fun_upd_same sh disjI2[OF refl], unfolded held.case]
      have "new_obj th pr pv ty t s = Some (Inr (gptr_at pr p), log_events [Ctor ty p] s1)" using False p al by (simp add: new_obj_def hp(1))
      then have "r = Inr (gptr_at pr p)" "s' = log_events [Ctor ty p] s1" using r by simp_all
      then show ?thesis using U' hp(3) by (auto simp: make_result_def gptr_at_def)
    qed
  qed
qed

text \<open>Every step of the client keeps its view in agreement with the heap.\<close>

lemma client_step_inv:
  assumes pv: "provider_ok pv B (shared_heap pr)" and ok: "owner_ok pr" and st: "client_step pr pv x y" and inv: "client_inv B (shared_heap pr) U x"
  shows "\<exists>U'. client_inv B (shared_heap pr) U' y"
  using st inv
proof cases
  case (array_made ty s n th t g s' L)
  have "make_result B pr (Array ty n) (unat (array_offset ty)) L (Inr g) s'" using new_array_good[OF pv ok _ array_made(3-5)] inv array_made(1) by blast
  then obtain p U' where p: "unat (raw_ptr g) = unat p + unat (array_offset ty)" "g = gptr_at pr (p + of_nat (unat (array_offset ty)))"
      "client_inv B (shared_heap pr) U' (s', L(p \<mapsto> Array ty n))"
    using array_made(6) by (auto simp: make_result_def)
  then have "raw_ptr g - array_offset ty = p" by (simp add: gptr_at_def)
  then show ?thesis using p(3) array_made(2) by auto
next
  case (array_not_made ty s n th t r s' L)
  have "make_result B pr (Array ty n) (unat (array_offset ty)) L r s'" using new_array_good[OF pv ok _ array_not_made(3-5)] inv array_not_made(1) by blast
  then show ?thesis using array_not_made(2,6) by (auto simp: make_result_def split: sum.splits)
next
  case (array_dropped L p ty n s s')
  then show ?thesis using delete_array_good[OF pv ok, of U s L p ty n] inv by auto
next
  case (obj_made ty s th t g s' L)
  have "make_result B pr (Single ty) 0 L (Inr g) s'" using new_obj_good[OF pv ok _ obj_made(3-5)] inv obj_made(1) by blast
  then show ?thesis using obj_made(2,6) by (auto simp: make_result_def gptr_at_def)
next
  case (obj_not_made ty s th t r s' L)
  have "make_result B pr (Single ty) 0 L r s'" using new_obj_good[OF pv ok _ obj_not_made(3-5)] inv obj_not_made(1) by blast
  then show ?thesis using obj_not_made(2,6) by (auto simp: make_result_def split: sum.splits)
next
  case (obj_dropped L p ty s s')
  then show ?thesis using delete_obj_good[OF pv ok, of U s L p ty] inv by auto
next
  case (buffer_made al s sz f p s' L)
  have ad: "allocated B (shared_heap pr) U f sz al s p s'" using client_allocated[OF pv _ buffer_made(3-5)] inv buffer_made(1) by blast
  have "s'\<lparr>byte_at := byte_at s'\<rparr> = s'" by simp
  with client_insert(2)[of B "shared_heap pr" U s L "Buffer f sz" sz al p s' "byte_at s'" "[]"] show ?thesis
    using ad inv buffer_made by simp
next
  case (buffer_not_made al s sz f s' L)
  have "allocated B (shared_heap pr) U f sz al s 0 s'" using client_allocated[OF pv _ buffer_not_made(3-5)] inv buffer_not_made(1) by blast
  then show ?thesis using client_unchanged inv buffer_not_made by blast
next
  case (buffer_dropped L p f sz s s')
  then show ?thesis using client_remove[OF pv, of U s L p "Buffer f sz" "[]"] inv by auto
next
  case (written L p z a s v)
  then show ?thesis using client_write inv by blast
qed

lemma client_run_inv:
  assumes "provider_ok pv B (shared_heap pr)" "owner_ok pr" "(client_step pr pv)\<^sup>*\<^sup>* x y" "client_inv B (shared_heap pr) U x"
  shows "\<exists>U'. client_inv B (shared_heap pr) U' y"
  using assms(3,4)
proof (induction)
  case (step y z)
  then show ?case using client_step_inv[OF assms(1,2)] by blast
qed blast

subsection \<open>What the client can rely on\<close>

lemma held_apart:
  assumes inv: "client_inv B rng U (s, L)" and p: "L p = Some x"
  shows "data p x \<subseteq> {unat (fst rng)..<unat (fst rng) + unat (snd rng)}" "L q = Some y \<Longrightarrow> p \<noteq> q \<Longrightarrow> data p x \<inter> data q y = {}"
proof -
  have i: "\<exists>u. U p = Some u \<and> data p x \<subseteq> span p (ub_bytes u)" if "L p = Some x" for p x
    using client_invD(3)[OF inv that] by (auto simp: holds_def data_def span_def)
  note b = client_invD(1)[OF inv]
  show "data p x \<subseteq> {unat (fst rng)..<unat (fst rng) + unat (snd rng)}"
  proof -
    obtain u where "U p = Some u" "data p x \<subseteq> span p (ub_bytes u)" using i[OF p] by blast
    then show ?thesis using ublock_limit(1,2)[OF b, of p u] by (fastforce simp: span_def)
  qed
  assume q: "L q = Some y" "p \<noteq> q"
  obtain u v where "U p = Some u" "data p x \<subseteq> span p (ub_bytes u)" "U q = Some v" "data q y \<subseteq> span q (ub_bytes v)" using i[OF p] i[OF q(1)] by blast
  then show "data p x \<inter> data q y = {}" using user_blocks_apart[OF b, of p u q v] q(2) by blast
qed

lemma objects_facts:
  assumes inv: "client_inv B rng U (s, L)" and p: "L p = Some x"
  shows "distinct (objects p x)" "(ty, a) \<in> set (objects p x) \<Longrightarrow> unat a \<in> data p x"
proof -
  have "distinct (objects p x) \<and> ((ty, a) \<in> set (objects p x) \<longrightarrow> unat a \<in> data p x)"
  proof (cases x)
    case (Array ty' n)
    then show ?thesis using alive_single_elems(1)[OF inv, of p ty' n] alive_single_elems(2)[OF inv, of p ty' n a] p by (auto simp: distinct_map inj_on_def)
  next
    case (Single ty')
    then show ?thesis using client_invD(3)[OF inv p] by (simp add: holds_def data_def type_ok_def)
  qed simp
  then show "distinct (objects p x)" "(ty, a) \<in> set (objects p x) \<Longrightarrow> unat a \<in> data p x" by blast+
qed

lemma distinct_count: "distinct xs \<Longrightarrow> count_list xs a = (if a \<in> set xs then 1 else 0)"
  by (induction xs) auto

lemma owed_once:
  assumes inv: "client_inv B rng U (s, L)"
  shows "owed L ty a = (if \<exists>p x. L p = Some x \<and> (ty, a) \<in> set (objects p x) then 1 else 0)"
proof (cases "\<exists>p x. L p = Some x \<and> (ty, a) \<in> set (objects p x)")
  case True
  then obtain p x where p: "L p = Some x" "(ty, a) \<in> set (objects p x)" by blast
  have "count_list (objects q (the (L q))) (ty, a) = 0" if q: "q \<in> dom L - {p}" for q
  proof -
    obtain y where y: "L q = Some y" "q \<noteq> p" using q by auto
    have "(ty, a) \<notin> set (objects q y)"
      using held_apart(2)[OF inv p(1) y(1)] objects_facts(2)[OF inv p] objects_facts(2)[OF inv y(1), of ty a] y(2) by auto
    then show ?thesis using y(1) by simp
  qed
  then have "(\<Sum>q \<in> dom L - {p}. int (count_list (objects q (the (L q))) (ty, a))) = 0" by (intro sum.neutral) simp
  moreover have "p \<in> dom L" using p(1) by auto
  ultimately have "owed L ty a = int (count_list (objects p x) (ty, a))" unfolding owed_def using client_invD(5)[OF inv] p(1) by (simp add: sum.remove)
  then show ?thesis using True objects_facts(1)[OF inv p(1)] p(2) by (simp add: distinct_count)
next
  case False
  then have "owed L ty a = 0" unfolding owed_def by (intro sum.neutral) (auto simp: count_list_0_iff)
  with False show ?thesis by simp
qed

text \<open>What the heap has charged for a user block: the size in its header, or the usable size of the block below.\<close>

definition charged :: "'h provider \<Rightarrow> 'h sheap \<Rightarrow> u64 \<Rightarrow> u64" where
  "charged pv s p = (if use_upc_alloc s then load64 (p - 16) (byte_at s) else mspace_usable_size pv p (backing s))"

definition held_in :: "(u64 \<rightharpoonup> held) \<Rightarrow> foot \<Rightarrow> u64 set" where
  "held_in L f = {p. \<exists>x. L p = Some x \<and> held_foot x = f}"

lemma charged_block:
  assumes pv: "provider_ok pv B rng" and b: "backs B rng U s" and p: "U p = Some u"
  shows "ub_charge u = charged pv s p"
proof -
  have "placed B s p u" using b p by (auto simp: backs_def)
  then show ?thesis using provider_okD(3)[OF pv] by (auto simp: placed_def charged_def split: if_splits)
qed

lemma held_counted:
  assumes pv: "provider_ok pv B rng" and inv: "client_inv B rng U (s, L)"
  shows "fp_count (footprint s f) = of_nat (card (held_in L f))" "fp_bytes (footprint s f) = (\<Sum>p \<in> held_in L f. charged pv s p)"
proof -
  have h: "{p \<in> dom U. ub_foot (the (U p)) = f} = held_in L f"
  proof (rule set_eqI)
    fix p
    show "p \<in> {p \<in> dom U. ub_foot (the (U p)) = f} \<longleftrightarrow> p \<in> held_in L f"
      using client_invD(2)[OF inv] client_invD(3)[OF inv, of p] by (cases "L p") (auto simp: holds_def held_in_def)
  qed
  have t: "footprint s f = tally U f" "finite (dom U)" using client_invD(1)[OF inv] by (simp_all add: backs_def)
  then show "fp_count (footprint s f) = of_nat (card (held_in L f))" unfolding h[symmetric] by (simp add: tally_def flip: sum.inter_filter)
  have "fp_bytes (footprint s f) = (\<Sum>p \<in> held_in L f. ub_charge (the (U p)))" unfolding h[symmetric] using t by (simp add: tally_def flip: sum.inter_filter)
  also have "\<dots> = (\<Sum>p \<in> held_in L f. charged pv s p)"
    using charged_block[OF pv client_invD(1)[OF inv]] unfolding h[symmetric] by (intro sum.cong) auto
  finally show "fp_bytes (footprint s f) = (\<Sum>p \<in> held_in L f. charged pv s p)" .
qed

definition heap_start :: "('h \<Rightarrow> u64 \<rightharpoonup> nat) \<Rightarrow> u64 \<times> u64 \<Rightarrow> 'h sheap \<Rightarrow> bool" where
  "heap_start B rng s \<longleftrightarrow>
     shared_heap_isinit s \<and> blocks_ok (B (backing s)) rng \<and> events s = [] \<and> (\<forall>f. footprint s f = \<lparr>fp_count = 0, fp_bytes = 0\<rparr>)"

lemma heap_start_inv: "heap_start B rng s \<Longrightarrow> client_inv B rng Map.empty (s, Map.empty)"
  by (auto simp: heap_start_def client_inv_def backs_def tally_def balance_def owed_def fun_eq_iff)

text \<open>
  (C7) Objects in the shared heap. While a client makes and deletes arrays, empty ones too, objects and buffers of any types, some of whose constructors throw and
  some of whose requests fail, and writes into what it holds, over either allocator: the things it holds lie in the shared heap and apart
  from each other; deleting any array it holds succeeds and runs the destructor of its elements, in order, unless the destructor is
  trivial, and deleting any object succeeds and destroys it. For a type with neither constructor nor destructor trivial, at every address
  there is one construction not followed by a destruction if a held object of the type is there, and none otherwise; of other types, arrays leave
  one kind of event or none. The counters say how many things are held and how many bytes they were charged, that is the
  sizes in their headers or the usable sizes of their blocks. Requests over the UPC allocator leave room for its padding.
\<close>

theorem shared_objects_correct:
  assumes "provider_ok pv B (shared_heap pr)" "owner_ok pr" "heap_start B (shared_heap pr) s0" "(client_step pr pv)\<^sup>*\<^sup>* (s0, Map.empty) (s, L)"
  shows "(\<forall>p x. L p = Some x \<longrightarrow> data p x \<subseteq> {unat (fst (shared_heap pr))..<unat (fst (shared_heap pr)) + unat (snd (shared_heap pr))}) \<and>
    (\<forall>p q x y. L p = Some x \<longrightarrow> L q = Some y \<longrightarrow> p \<noteq> q \<longrightarrow> data p x \<inter> data q y = {}) \<and>
    (\<forall>p ty n. L p = Some (Array ty n) \<longrightarrow>
       (\<exists>s'. delete_array pr pv ty (gptr_at pr (p + array_offset ty)) s = Some s' \<and>
          events s' = events s @ map (Dtor ty) (if triv_dtor ty then [] else elems (p + array_offset ty) (size_of ty) (unat n)))) \<and>
    (\<forall>p ty. L p = Some (Single ty) \<longrightarrow> (\<exists>s'. delete_obj pr pv ty (gptr_at pr p) s = Some s' \<and> events s' = events s @ [Dtor ty p])) \<and>
    (\<forall>ty a. tracked ty \<longrightarrow> balance (events s) ty a = (if \<exists>p x. L p = Some x \<and> (ty, a) \<in> set (objects p x) then 1 else 0)) \<and>
    (\<forall>f. fp_count (footprint s f) = of_nat (card (held_in L f)) \<and> fp_bytes (footprint s f) = (\<Sum>p \<in> held_in L f. charged pv s p))"
proof -
  obtain U where inv: "client_inv B (shared_heap pr) U (s, L)" using client_run_inv[OF assms(1,2,4) heap_start_inv[OF assms(3)]] by blast
  have ar: "\<exists>s'. delete_array pr pv ty (gptr_at pr (p + array_offset ty)) s = Some s' \<and>
      events s' = events s @ map (Dtor ty) (if triv_dtor ty then [] else elems (p + array_offset ty) (size_of ty) (unat n))"
    if "L p = Some (Array ty n)" for p ty n
    using delete_array_good[OF assms(1,2) inv that] unfolding array_dtors_def by blast
  have ob: "\<exists>s'. delete_obj pr pv ty (gptr_at pr p) s = Some s' \<and> events s' = events s @ [Dtor ty p]" if "L p = Some (Single ty)" for p ty
    using delete_obj_good[OF assms(1,2) inv that] by blast
  show ?thesis
    using held_apart[OF inv] owed_once[OF inv] client_invD(4)[OF inv] held_counted[OF assms(1) inv] ar ob
    by (intro conjI allI impI) simp_all
qed

subsection \<open>An example\<close>

text \<open>An allocator that always takes the first aligned place above all of its blocks.\<close>

definition top_of :: "(u64 \<times> nat) list \<Rightarrow> nat" where
  "top_of h = foldr (\<lambda>(p, k). max (unat p + k + 1)) h 0x10000"

definition place :: "nat \<Rightarrow> nat \<Rightarrow> (u64 \<times> nat) list \<Rightarrow> (u64 \<times> (u64 \<times> nat) list) option" where
  "place al n h =
     (let c = (top_of h + al - 1) div al * al in if c + n \<le> 0x11000 then Some (of_nat c, (of_nat c, n) # h) else None)"

definition first_fit :: "(u64 \<times> nat) list provider" where
  "first_fit =
     \<lparr>mspace_memalign = (\<lambda>al n h. case place (unat al) (unat n) h of Some r \<Rightarrow> r | None \<Rightarrow> (0, h)),
      mspace_usable_size = (\<lambda>p h. of_nat (the (map_of h p))), mspace_free = (\<lambda>p h. filter (\<lambda>(q, k). q \<noteq> p) h),
      upc_alloc = (\<lambda>n h. place 16 (unat n) h), upc_free = (\<lambda>p h. filter (\<lambda>(q, k). q \<noteq> p) h)\<rparr>"

lemma top_of_above: "0x10000 \<le> top_of h" "(p, k) \<in> set h \<Longrightarrow> unat p + k < top_of h"
  by (induction h) (auto simp: top_of_def)

lemma place_ok:
  assumes "place al n h = Some (p, h')" "0 < al" "blocks_ok (map_of h) (0x10000, 0x1000)"
  shows "unat p mod al = 0 \<and> map_of h p = None \<and> map_of h' = (map_of h)(p \<mapsto> n) \<and> blocks_ok (map_of h') (0x10000, 0x1000)"
proof -
  define c where "c = (top_of h + al - 1) div al * al"
  have c: "c + n \<le> 0x11000" "p = of_nat c" "h' = (p, n) # h" using assms(1) by (auto simp: place_def c_def Let_def split: if_splits)
  have "c = top_of h + al - 1 - (top_of h + al - 1) mod al" by (simp add: c_def minus_mod_eq_div_mult)
  then have ct: "top_of h \<le> c" using align_up_bounds(1)[OF assms(2), of "top_of h"] by simp
  have u: "unat p = c" using c(1,2) by (simp add: unat_word_of_nat64)
  have above: "unat q + k < unat p" if "map_of h q = Some k" for q k
    using top_of_above(2)[OF map_of_SomeD[OF that]] ct u by simp
  have "map_of h p = None" using above by (cases "map_of h p") auto
  moreover have "blocks_ok ((map_of h)(p \<mapsto> n)) (0x10000, 0x1000)"
  proof -
    have "p \<noteq> 0" "0x10000 \<le> unat p" "unat p + n \<le> 0x11000" using u ct top_of_above(1)[of h] c(1) by auto
    moreover have "span q k \<inter> span p n = {}" if "map_of h q = Some k" for q k using above[OF that] by (auto simp: span_def)
    ultimately show ?thesis using assms(3) unfolding blocks_ok_def by (auto split: if_splits)
  qed
  ultimately show ?thesis using c(3) u by (simp add: c_def)
qed

lemma map_of_filter_other: "map_of (filter (\<lambda>(q, k). q \<noteq> p) h) = (map_of h)(p := None)"
  by (induction h) (auto simp: fun_eq_iff)

lemma first_fit_ok: "provider_ok first_fit map_of (0x10000, 0x1000)"
proof -
  have "(p = 0 \<and> map_of h' = map_of h) \<or>
      (\<exists>k \<ge> unat n. unat p mod unat al = 0 \<and> map_of h p = None \<and> map_of h' = (map_of h)(p \<mapsto> k) \<and> blocks_ok (map_of h') (0x10000, 0x1000))"
    if "mspace_memalign first_fit al n h = (p, h')" "blocks_ok (map_of h) (0x10000, 0x1000)" "align_pow2 al" for al n h p h'
    using that place_ok[OF _ align_pow2_pos(1)[OF that(3)] that(2), of "unat n" p h'] by (auto simp: first_fit_def split: option.splits)
  moreover have "\<exists>k \<ge> unat n. unat p mod 16 = 0 \<and> map_of h p = None \<and> map_of h' = (map_of h)(p \<mapsto> k) \<and> blocks_ok (map_of h') (0x10000, 0x1000)"
    if "upc_alloc first_fit n h = Some (p, h')" "blocks_ok (map_of h) (0x10000, 0x1000)" for n h p h'
    using that place_ok[of 16 "unat n" h p h'] by (auto simp: first_fit_def)
  ultimately show ?thesis unfolding provider_ok_def by (simp add: first_fit_def map_of_filter_other)
qed

definition int_type :: obj_type where
  "int_type = \<lparr>elt = int_ptr, triv_ctor = False, triv_dtor = False\<rparr>"

definition empty_heap :: "(u64 \<times> nat) list sheap" where
  "empty_heap =
     \<lparr>use_upc_alloc = False, shared_heap_isinit = True, backing = [], byte_at = (\<lambda>_. 0), footprint = (\<lambda>_. \<lparr>fp_count = 0, fp_bytes = 0\<rparr>), events = []\<rparr>"

lemma lone_owner_ok: "\<exists>m. owner_ok (example_process m)"
proof -
  let ?infos = "[\<lparr>owner_vbase = 0x10000, local_vbase = 0x10000, seg_bytes = 0x1000\<rparr>]"
  obtain m where m: "tables_of 4 ?infos m" by (auto simp: tables_of_def init_localheap_tables_def disjoint_segments_def Let_def)
  then have "process_ok (example_process m) 4 ?infos" by (simp add: process_ok_def example_process_def)
  then have "owner_ok (example_process m)" unfolding owner_ok_def by (intro exI[of _ 4] exI[of _ ?infos] exI[of _ 0]) (simp add: example_process_def)
  then show ?thesis by blast
qed

lemma int_type_facts: "type_ok int_type" "array_offset int_type = 8" "size_of int_type = 4" "align_of int_type = 4"
proof -
  have "align_pow2 4" unfolding align_pow2_def by (intro exI[of _ 2]) simp
  then show "type_ok int_type" by (simp add: type_ok_def int_type_def align_of_def)
qed (simp_all add: array_offset_def size_of_def align_of_def int_type_def)

definition three_ints :: "(u64 \<times> nat) list sheap" where
  "three_ints = log_events [Ctor int_type 0x10008, Ctor int_type 0x1000c, Ctor int_type 0x10010] (write64 0x10000 3 (charge Foot_user 20 (empty_heap\<lparr>backing := [(0x10000, 20)]\<rparr>)))"

lemma three_ints_made: "new_array True (example_process m) first_fit int_type None 3 empty_heap = Some (Inr (gptr_at (example_process m) 0x10008), three_ints)"
proof -
  have "place 8 20 [] = Some (0x10000, [(0x10000, 20)])" by (simp add: place_def top_of_def)
  then have a: "allocate_or_null first_fit 20 8 Foot_user empty_heap = Some (0x10000, charge Foot_user 20 (empty_heap\<lparr>backing := [(0x10000, 20)]\<rparr>))"
    by (simp add: allocate_or_null_def mspace_allocate_def empty_heap_def first_fit_def)
  have g: "own_gptr (example_process m) int_type 0x10008 = Some (gptr_at (example_process m) 0x10008)"
    by (simp add: own_gptr_def make_gptr_def gptr_chk_def validate_global_ptr_def segment_bounds_def example_process_def gptr_at_def int_type_def)
  have c: "construct_loop int_type 0x10008 0 3 None = ([Ctor int_type 0x10008, Ctor int_type 0x1000c, Ctor int_type 0x10010], None)" unfolding construct_loop_events int_type_facts by (simp add: elems_def eval_nat_numeral)
  show ?thesis unfolding new_array_def int_type_facts Let_def by (simp add: a g c three_ints_def) (simp add: int_type_def)
qed

theorem shared_objects_correct_witness:
  "\<exists>m s'. delete_array (example_process m) first_fit int_type (gptr_at (example_process m) 0x10008) three_ints = Some s' \<and>
     events s' = [Ctor int_type 0x10008, Ctor int_type 0x1000c, Ctor int_type 0x10010, Dtor int_type 0x10008, Dtor int_type 0x1000c, Dtor int_type 0x10010]"
proof -
  obtain m where m: "owner_ok (example_process m)" using lone_owner_ok by blast
  let ?pr = "example_process m"
  have sh: "shared_heap ?pr = (0x10000, 0x1000)" by (simp add: example_process_def)
  have pv: "provider_ok first_fit map_of (shared_heap ?pr)" unfolding sh by (rule first_fit_ok)
  have st: "heap_start map_of (shared_heap ?pr) empty_heap" by (simp add: heap_start_def empty_heap_def sh blocks_ok_def)
  have "client_step ?pr first_fit (empty_heap, Map.empty) (three_ints, Map.empty(raw_ptr (gptr_at ?pr 0x10008) - array_offset int_type \<mapsto> Array int_type 3))"
    by (rule array_made[OF int_type_facts(1) _ three_ints_made]) (simp_all add: room_def empty_heap_def not_null_def gp_ne_def gptr_at_def)
  then have "client_step ?pr first_fit (empty_heap, Map.empty) (three_ints, [0x10000 \<mapsto> Array int_type 3])" by (simp add: gptr_at_def int_type_facts)
  then have run: "(client_step ?pr first_fit)\<^sup>*\<^sup>* (empty_heap, Map.empty) (three_ints, [0x10000 \<mapsto> Array int_type 3])" by blast
  obtain s' where s': "delete_array ?pr first_fit int_type (gptr_at ?pr (0x10000 + array_offset int_type)) three_ints = Some s'"
      "events s' = events three_ints @ map (Dtor int_type) (if triv_dtor int_type then [] else elems (0x10000 + array_offset int_type) (size_of int_type) (unat (3 :: u64)))"
    using shared_objects_correct[OF pv m st run, THEN conjunct2, THEN conjunct2, THEN conjunct1, rule_format, OF fun_upd_same] by blast
  have "(if triv_dtor int_type then [] else elems (0x10000 + array_offset int_type) (size_of int_type) (unat (3 :: u64))) = [0x10008, 0x1000c, 0x10010]"
  proof -
    have "unat (3 :: u64) = 3" by simp
    moreover have "elems (0x10000 + 8) 4 3 = [0x10008, 0x1000c, 0x10010]" by (simp add: elems_def eval_nat_numeral)
    ultimately show ?thesis unfolding int_type_facts by (simp only:) (simp add: int_type_def)
  qed
  moreover have "events three_ints = [Ctor int_type 0x10008, Ctor int_type 0x1000c, Ctor int_type 0x10010]" by (simp add: three_ints_def log_events_def write64_def charge_def empty_heap_def)
  ultimately show ?thesis using s' unfolding int_type_facts by (intro exI[of _ m] exI[of _ s']) simp
qed

text \<open>
  A request of \<open>allocate<T>\<close> is not checked for wrap-around as one of \<open>new_array\<close> is: \<open>2^62 + 1\<close> integers of four bytes are a request of four
  bytes, and the pointer that comes back is not null.
\<close>

lemma allocate_elts_wraps:
  "\<exists>s. allocate_elts (example_process m) first_fit int_type 0x4000000000000001 4 empty_heap = Some (gptr_at (example_process m) 0x10000, s) \<and>
     backing s = [(0x10000, 4)]"
  "new_array False (example_process m) first_fit int_type None 0x4000000000000001 empty_heap = map_option (\<lambda>g. (Inr g, empty_heap)) (null_gptr (example_process m) int_ptr)"
proof -
  have "place 4 4 [] = Some (0x10000, [(0x10000, 4)])" by (simp add: place_def top_of_def)
  then have a: "allocate_or_null first_fit 4 4 Foot_user empty_heap = Some (0x10000, charge Foot_user 4 (empty_heap\<lparr>backing := [(0x10000, 4)]\<rparr>))"
    by (simp add: allocate_or_null_def mspace_allocate_def empty_heap_def first_fit_def)
  have g: "own_gptr (example_process m) int_type 0x10000 = Some (gptr_at (example_process m) 0x10000)"
    by (simp add: own_gptr_def make_gptr_def gptr_chk_def validate_global_ptr_def segment_bounds_def example_process_def gptr_at_def int_type_def)
  show "\<exists>s. allocate_elts (example_process m) first_fit int_type 0x4000000000000001 4 empty_heap = Some (gptr_at (example_process m) 0x10000, s) \<and> backing s = [(0x10000, 4)]"
  proof -
    have "(0x4000000000000001 * 4 :: u64) = 4" by (rule unsigned_word_eqI) simp
    then show ?thesis unfolding allocate_elts_def int_type_facts by (simp only: a) (simp add: g, simp add: charge_def)
  qed
  show "new_array False (example_process m) first_fit int_type None 0x4000000000000001 empty_heap = map_option (\<lambda>g. (Inr g, empty_heap)) (null_gptr (example_process m) int_ptr)"
    unfolding new_array_def int_type_facts Let_def by (cases "null_gptr (example_process m) int_ptr") (simp_all add: int_type_def)
qed

end
