(* ===== verification/Spec2Isabelle.thy ===== *)
theory Spec2Isabelle
  imports Digest Segment_Correct Mpsc_Correct Future_Correct Persona_Correct
    Serialization_Bound Serialization_Hunks Broadcast_Correct Reduce_Correct Global_Ptr_Correct Handle_Cb Dist_Object_Correct Long_Am_Correct Shared_Alloc_Correct
begin

text \<open>
  UPC++ is a C++ library for programs that run as many processes over partitioned global memory. This
  development verifies the parts of it that carry its own logic. Inside one process: the
  allocator of device segments, the queues that hand work between threads, the futures that order
  asynchronous work, the personas that decide which thread runs it, the serialization of what is sent, global
  pointers, objects in the shared heap, the queue of network handles, and the registry in which teams and distributed objects are found. Between processes: the protocols that
  broadcast a call over a team, reduce values to one or all of its ranks, and put together a call that travels in parts.

  \<^bold>\<open>The parts and how they interact.\<close> A remote operation is injected by a thread that holds a
  persona (src/persona.hpp). Its completion is a promise (src/future/promise.hpp) or a local procedure
  call (src/lpc.hpp). Calls wait in the inboxes of a persona, which are intrusive queues
  (src/intru_queue.hpp): one kept by its own thread, one that other threads write. The call to
  \<open>progress\<close> bursts the inboxes of the personas active with the thread. Running a call
  fulfils promises, which readies the headers of futures (src/future/core.hpp) and runs the callbacks that wait
  for them. Device segments hand out memory through \<open>segment_allocator\<close>
  (src/segment_allocator.cpp). Collective objects, which are teams (src/team.hpp) and distributed objects
  (src/dist_object.hpp), are named by \<open>digest\<close> (src/digest.hpp) and found through one registry; a call that mentions one carries
  its name and waits for the promise that the registry keeps for it. The arguments of remote
  calls are written by the writers of src/serialization.hpp: into a buffer of the size
  that \<open>ubound\<close> gives, or hunk by hunk when there is no bound. Operations of the network that are under way
  are polled through the queue of src/backend/gasnet/handle_cb.hpp by the same call to \<open>progress\<close>. A call for a whole team is forwarded
  along a tree of ranks (src/backend/gasnet/runtime.cpp); reductions of values that need serialization (src/reduce.hpp) send
  partial results up another tree and broadcast the result.

  \<^bold>\<open>Theories and sources.\<close>
  \<^item> \<open>Prelude\<close>: word types, the fact collections \<open>word_no_wrap\<close> and \<open>list_facts\<close>, generic lemmas.
  \<^item> \<open>Digest\<close> (src/digest.hpp, src/digest.cpp): \<open>digest\<close> is the pair of words, \<open>eat\<close> its
    mixing, \<open>block_in\<close> the byte loop of \<open>fnv128\<close> with its four limbs of 32 bits. The mixing is
    a permutation; the limbs compute one formula modulo 2 to the 128 for every byte, with the sign extension of a negative \<open>char\<close> written out,
    and that formula is not FNV-1a.
  \<^item> \<open>Std_Map\<close>: the contract of \<open>std::map\<close> as the locale \<open>ordered_map\<close> and sorted lists as its
    implementation. \<open>Segment_Allocator\<close> (src/segment_allocator.hpp, .cpp): blocks in a heap of
    pointers, the index of holes by size, the index of hunks by begin, with the 63-bit bit field and
    the wrapping sizes. \<open>Segment_Layout\<close>: the invariant, as a list of blocks in address order, and
    what splitting and fusing do to it. \<open>Segment_Correct\<close>: allocate and deallocate one by one, and \<open>seg_history\<close>, every sequence of
    calls of a client, after which its blocks lie apart and only they can be freed; and a request whose rounding wraps.
  \<^item> \<open>Intru_Queue\<close> (src/intru_queue.hpp): the queue without thread safety on memory cells, with the
    tail pointer kept as an exclusive or, and the queue behind a lock. \<open>Intru_Queue_Correct\<close>:
    the interface \<open>fifo_queue\<close>, by which any sequence of operations refines that on a list, both queues as its
    implementations, and the bursts with callbacks that
    may enqueue. \<open>Mpsc_Queue\<close>: the lock-free queue as a step relation over sequentially
    consistent memory, one step per atomic access. \<open>Mpsc_Correct\<close>: its invariant over all
    interleavings, order of delivery, and that a spin waits for one step of a producer that exists.
  \<^item> \<open>Future_Core\<close>, \<open>Future_Impl\<close>, \<open>Future_Engine\<close> (src/future/*.hpp, core.cpp): headers, bodies and
    dependency links in an explicit heap; \<open>then\<close>, \<open>when_all\<close>, \<open>make_future\<close>, promises, results and
    waiting. Templates that choose code by the kind of a future are case distinctions on the datatype
    \<open>fut\<close>. \<open>Future_Refs\<close>: the invariant \<open>future_ok\<close>, by which every reference count equals the
    references that exist. \<open>Future_Correct\<close>: readiness, fulfilment, and the exchange of references.
  \<^item> \<open>Persona\<close>, \<open>Persona_Lpc\<close> (src/persona.hpp, src/persona.cpp, src/lpc.hpp, src/lpc_dormant.hpp): the stack of
    scopes of each thread with its pointers kept as exclusive ors, inboxes, bursts, the progress
    loop, deferred promises and dormant calls. \<open>Persona_Correct\<close>: the stacks stay well formed and
    disjoint, scopes nest exactly, the loop over the active personas visits each once with that persona
    current, promises are queued once.
  \<^item> \<open>Serialization\<close> (src/serialization.hpp): storage sizes with their template parameters, the writer into
    a buffer of known size, the reader, and for each kind of type in the datatype \<open>ty\<close> the functions
    \<open>ubound\<close>, \<open>serialize\<close>, \<open>deserialize\<close> and \<open>skip\<close> of its traits. \<open>Serialization_Unbounded\<close>
    (src/serialization.hpp, src/serialization.cpp): the writer that grows by hunks and the final copy.
    \<open>Serialization_Layout\<close>: the offsets of a value as natural numbers, and \<open>codec\<close>, the contract of a writing
    step, with its rules for sequences of steps. \<open>Serialization_Correct\<close>: the round trip for all types.
    \<open>Serialization_Skip\<close>: readers return typed values, skipping ends where reading ends, and a nested array for
    which it does not. \<open>Serialization_Bound\<close>: the bound covers the bytes. \<open>Serialization_Hunks\<close>: placed
    objects stay inside their hunk, and two faults of writing a sequence.
  \<^item> \<open>Pool\<close>: the locales \<open>working\<close> and \<open>live\<close>, for protocols whose state is a multiset of actions under way that are taken in
    any order: runs are bounded by the work that is left, and end with nothing under way.
  \<^item> \<open>Broadcast\<close> (\<open>bcast_am_master_eager\<close>, \<open>bcast_am_master_rdzv\<close> and \<open>bcast_as_lpc\<close> of src/backend/gasnet/runtime.cpp and runtime.hpp):
    the eager protocol with its counted copies, and the protocol in which ranks of one node share a buffer and others fetch it.
    \<open>Broadcast_Correct\<close>: the intervals of ranks under way and the ranks reached are a partition of the team, every count equals the references under way,
    so each rank runs the call once and each buffer is freed once; at most \<open>4 n - 3\<close> and \<open>10 n - 9\<close> steps for \<open>n\<close> ranks.
  \<^item> \<open>Reduce\<close> (\<open>reduce_state::contribute\<close> of src/reduce.hpp): the registry entry of a reduction at each rank and the messages.
    \<open>Reduce_Tree\<close>: children and subtrees of the binomial tree by bits, with a bound of \<open>2 ^ 30\<close> ranks from the shift of an \<open>int\<close>.
    \<open>Reduce_Correct\<close>: in every order of arrival, the value is that of the loop over all ranks, after at most \<open>3 n - 2\<close> steps.
  \<^item> \<open>Local_Memory\<close> (src/backend.hpp, \<open>init_localheap_tables\<close>, \<open>localize_memory\<close> and \<open>globalize_memory\<close> of src/backend/gasnet/runtime.cpp): the tables of
    the segments of a node and the translation of addresses there and back; 64-bit arguments of active messages as two halves.
  \<^item> \<open>Global_Ptr\<close> (src/global_ptr.hpp, src/global_ptr_impl.hpp): checks, arithmetic, order, casts, and the table of device heaps (src/device_fwd.hpp).
    \<open>Global_Ptr_Correct\<close>: arithmetic and casts are undone, the comparisons are one total order, local addresses survive the way
    there and back and the end of a segment does not, heap indexes in use are apart.
  \<^item> \<open>Handle_Cb\<close> (src/backend/gasnet/handle_cb.hpp, \<open>handle_cb_queue::burst\<close>): the queue of network handles on memory cells, refined to lists; what a
    burst runs and keeps, and how far a spinning burst looks.
  \<^item> \<open>Team\<close> (src/team.hpp, src/team.cpp, src/team_fwd.hpp): teams with their counters of collective names, the registry,
    construction, moves and destruction, and the split of a team; what GASNet-EX answers is a parameter. \<open>Team_Correct\<close>: an active team is the one that its id finds, and
    which checks stop a split.
  \<^item> \<open>Dist_Object\<close> (src/dist_object.hpp): the promise of a distributed object by its id, construction, moves, destruction, \<open>when_here\<close> and
    the way of a reference over the wire. \<open>Dist_Object_Correct\<close>: calls that wait for an object get its address, whichever comes first, and destruction leaves
    nothing behind; a move puts the promise of the object back to unready.
  \<^item> \<open>Long_Am\<close> (\<open>rma_put_then_am_master_protocol\<close> and its handlers in src/backend/gasnet/runtime.cpp): the split of a call into parts and the table in which the target
    gathers them, with one step per critical section, copy and atomic addition. \<open>Long_Am_Correct\<close>: each call is queued once and whole, and the two places that
    remove its key never both act.
  \<^item> \<open>Shared_Alloc\<close> (src/allocate.hpp, \<open>allocate_or_null\<close> and \<open>deallocate\<close> of src/backend/gasnet/runtime.cpp): bytes, headers and counters of the shared heap,
    and the creation and deletion of objects and arrays, over allocators that are parameters. \<open>Shared_Heap_Correct\<close>: what those allocators promise, and that buffers, headers and
    counters agree. \<open>Shared_Alloc_Correct\<close>: a client that makes, deletes and writes in any order finds its objects apart, each
    object with non-trivial constructor and destructor constructed and destroyed once, and the counters equal to what it holds.

  \<^bold>\<open>Conventions.\<close> The platform is LP64: \<open>size_t\<close> and pointers are words of 64 bits and wrap.
  \<open>None\<close> stands for a failed assertion, a use of a deleted object, or a loop that does not
  end; theorems that an operation returns state \<open>Some\<close>. User callbacks are
  parameters. Loops without a structural bound are \<open>partial_function (option)\<close>, and no
  definition takes fuel.

  \<^bold>\<open>Not modelled.\<close> Start-up and message transport (the rest of src/backend/gasnet) and what is a thin layer over it (rput, rget,
  vis, atomic, copy, rpc, \<open>fetch\<close>, barriers and the collectives on trivial types), because its behaviour is that of GASNet-EX, which is not
  in this repository; the device back ends, which call the vendors' libraries; the completion
  templates; the position-independent code segments of src/ccs.cpp, which read the loader's data; dlmalloc, which is
  vendored and a parameter of the shared heap; diagnostics, tests, benchmarks and examples. Weak memory orders are taken as sequentially
  consistent. Of serialization, sets and maps, native arrays, \<open>optional\<close> values, views, serialization written by users and
  \<open>deserialized_value\<close> are left out, and the copy of the hunks is modelled without a theorem yet.
\<close>

end
